(* ===== verification/Prelude.thy ===== *)
theory Prelude
  imports Main "HOL-Library.Sublist"
begin

text \<open>
  The shared base of the development: the \<^theory_text>\<open>named_theorems\<close> collections the
  component theories fill and use, and the generic facts on lists, options and
  partial loops that more than one component needs.  Nothing here models code.
\<close>

named_theorems go_strings \<open>rewrite rules of the Go string operations\<close>
named_theorems step_defs \<open>definitions of the one-step functions of the state machines\<close>

section \<open>Lists\<close>

lemma drop_append_ge [simp]: "length xs \<le> n \<Longrightarrow> drop n (xs @ ys) = drop (n - length xs) ys"
  by simp

lemma append_eq_split:
  assumes "xs @ ys = us @ vs" and "length us \<le> length xs"
  obtains zs where "xs = us @ zs" and "vs = zs @ ys"
  using assms by (auto simp: append_eq_append_conv2)

lemma take_append_drop_between:
  "i \<le> j \<Longrightarrow> take i xs @ take (j - i) (drop i xs) = take j xs"
  by (metis le_add_diff_inverse take_add)

lemma suffix_length_eq: "suffix xs zs \<Longrightarrow> suffix ys zs \<Longrightarrow> length xs = length ys \<Longrightarrow> xs = ys"
  by (auto simp: suffix_def)

lemma suffix_drop_length: "suffix xs ys \<Longrightarrow> drop (length ys - length xs) ys = xs"
  by (auto simp: suffix_def)

lemma suffix_append_cases:
  "suffix xs (ys @ zs) \<longleftrightarrow> suffix xs zs \<or> (\<exists>us. xs = us @ zs \<and> suffix us ys)"
  by (simp add: suffix_append)

lemma prefix_take_iff: "prefix xs ys \<longleftrightarrow> take (length xs) ys = xs"
  by (metis append_eq_conv_conj prefix_def take_is_prefix)

section \<open>Run-time panics\<close>

text \<open>The ways the modelled Go code can stop with a run-time panic.\<close>

datatype go_panic = IndexOutOfRange | SliceOutOfRange | ExplicitPanic

section \<open>Loops that ask whether to go on\<close>

text \<open>
  The streaming parsers of the program all run the same loop: call a step that
  returns new output and a flag, append the output, stop at the first call that
  answers false.  A loop that never stopped would be \<^term>\<open>None\<close> here.
\<close>

partial_function (option) keep_looping ::
  "('s \<Rightarrow> 'e list \<times> bool \<times> 's) \<Rightarrow> 's \<Rightarrow> ('e list \<times> 's) option" where
  "keep_looping eat s =
     (case eat s of (evs, more, s') \<Rightarrow>
        if more
        then Option.bind (keep_looping eat s') (\<lambda>(evs', s''). Some (evs @ evs', s''))
        else Some (evs, s'))"

declare keep_looping.simps [code]

lemma keep_looping_stop:
  "eat s = (evs, False, s') \<Longrightarrow> keep_looping eat s = Some (evs, s')"
  by (subst keep_looping.simps) simp

lemma keep_looping_more:
  assumes "eat s = (evs, True, s')" and "keep_looping eat s' = Some (evs', s'')"
  shows "keep_looping eat s = Some (evs @ evs', s'')"
  using assms by (subst keep_looping.simps) simp

text \<open>
  The contract of such a step: on states that are \<open>ok\<close>, which it keeps, a measure
  of the parser state has gone down whenever it asks to be called again.  Under it
  the loop returns.
\<close>

locale eater =
  fixes eat :: "'s \<Rightarrow> 'e list \<times> bool \<times> 's"
    and fuel :: "'s \<Rightarrow> nat"
    and ok :: "'s \<Rightarrow> bool"
  assumes progress: "ok s \<Longrightarrow> eat s = (evs, True, s') \<Longrightarrow> fuel s' < fuel s"
    and ok_eat: "ok s \<Longrightarrow> eat s = (evs, more, s') \<Longrightarrow> ok s'"
begin

lemma loop_returns: "ok s \<Longrightarrow> \<exists>evs s'. keep_looping eat s = Some (evs, s')"
proof (induction "fuel s" arbitrary: s rule: less_induct)
  case less
  obtain evs more s1 where e: "eat s = (evs, more, s1)"
    by (cases "eat s") auto
  show ?case
  proof (cases more)
    case True
    have "fuel s1 < fuel s" and "ok s1"
      using e True progress[OF less.prems] ok_eat[OF less.prems] by simp_all
    with less obtain evs' s2 where "keep_looping eat s1 = Some (evs', s2)" by blast
    with e True show ?thesis by (auto intro: keep_looping_more)
  next
    case False
    with e show ?thesis by (auto intro: keep_looping_stop)
  qed
qed

lemma loop_invariant:
  assumes "keep_looping eat s = Some (evs, s')" and "ok s" and "P s"
    and "\<And>t es more t'. ok t \<Longrightarrow> P t \<Longrightarrow> eat t = (es, more, t') \<Longrightarrow> P t'"
  shows "P s'"
  using assms(1,2,3)
proof (induction "fuel s" arbitrary: s evs rule: less_induct)
  case less
  obtain es more s1 where e: "eat s = (es, more, s1)"
    by (cases "eat s") auto
  have P1: "P s1" using assms(4) less.prems(2,3) e by blast
  have ok1: "ok s1" using ok_eat less.prems(2) e by blast
  show ?case
  proof (cases more)
    case True
    have lt: "fuel s1 < fuel s" using e True progress less.prems(2) by simp
    obtain es' s2 where l: "keep_looping eat s1 = Some (es', s2)"
      using loop_returns[OF ok1] by blast
    with e True less.prems(1) have "s' = s2"
      using keep_looping_more[of eat s es s1 es' s2] by simp
    with less.hyps[OF lt] l P1 ok1 show ?thesis by blast
  next
    case False
    with e less.prems(1) P1 show ?thesis by (simp add: keep_looping_stop)
  qed
qed

text \<open>The same for a relation between the events reported so far and the state.\<close>

lemma loop_history:
  assumes "keep_looping eat s = Some (evs, s')" and "ok s" and "H h s"
    and "\<And>h t es more t'. ok t \<Longrightarrow> H h t \<Longrightarrow> eat t = (es, more, t') \<Longrightarrow> H (h @ es) t'"
  shows "H (h @ evs) s'"
  using assms(1,2,3)
proof (induction "fuel s" arbitrary: s evs h rule: less_induct)
  case less
  obtain es more s1 where e: "eat s = (es, more, s1)"
    by (cases "eat s") auto
  have H1: "H (h @ es) s1" using assms(4) less.prems(2,3) e by blast
  have ok1: "ok s1" using ok_eat less.prems(2) e by blast
  show ?case
  proof (cases more)
    case True
    have lt: "fuel s1 < fuel s" using e True progress less.prems(2) by simp
    obtain es' s2 where l: "keep_looping eat s1 = Some (es', s2)"
      using loop_returns[OF ok1] by blast
    with e True less.prems(1) have "evs = es @ es'" "s' = s2"
      using keep_looping_more[of eat s es s1 es' s2] by simp_all
    with less.hyps[OF lt _ ok1 H1] l show ?thesis by simp
  next
    case False
    with e less.prems(1) H1 show ?thesis by (simp add: keep_looping_stop)
  qed
qed

end

section \<open>Parsers fed chunk by chunk\<close>

text \<open>Outputs that are pairs of strings (content and thinking) are appended part by part.\<close>

definition pair_app :: "string \<times> string \<Rightarrow> string \<times> string \<Rightarrow> string \<times> string" where
  "pair_app p q = (fst p @ fst q, snd p @ snd q)"


text \<open>
  Feeding a list of chunks one after the other.  Outputs are collected with an
  associative operation \<open>app\<close> with unit \<open>e\<close>.
\<close>

fun feed_all :: "('s \<Rightarrow> 'c \<Rightarrow> 'o \<times> 's) \<Rightarrow> ('o \<Rightarrow> 'o \<Rightarrow> 'o) \<Rightarrow> 'o \<Rightarrow> 's \<Rightarrow> 'c list \<Rightarrow> 'o \<times> 's" where
  "feed_all feed app e s [] = (e, s)"
| "feed_all feed app e s (c # cs) =
     (let (r, s1) = feed s c; (r', s2) = feed_all feed app e s1 cs in (app r r', s2))"

text \<open>
  The contract of a parser whose result does not depend on how its input was cut
  into chunks: feeding two chunks gives what feeding their concatenation gives.
\<close>

locale chunked =
  fixes feed :: "'s \<Rightarrow> 'a list \<Rightarrow> 'o \<times> 's"
    and app :: "'o \<Rightarrow> 'o \<Rightarrow> 'o"
    and e :: 'o
    and inv :: "'s \<Rightarrow> bool"
    and ok :: "'a list \<Rightarrow> bool"
  assumes app_assoc: "app (app x y) z = app x (app y z)"
    and app_right_unit: "app x e = x"
    and inv_feed: "inv s \<Longrightarrow> ok c \<Longrightarrow> inv (snd (feed s c))"
    and ok_append: "ok c \<Longrightarrow> ok d \<Longrightarrow> ok (c @ d)"
    and feed_append: "inv s \<Longrightarrow> ok c \<Longrightarrow> ok d \<Longrightarrow>
      feed s (c @ d) =
        (app (fst (feed s c)) (fst (feed (snd (feed s c)) d)), snd (feed (snd (feed s c)) d))"
begin

lemma feed_all_concat:
  assumes "inv s" and "ok c" and "\<forall>d \<in> set cs. ok d"
  shows "feed_all feed app e s (c # cs) = feed s (c @ concat cs)"
  using assms
proof (induction cs arbitrary: s c)
  case Nil
  then show ?case by (simp add: app_right_unit split: prod.splits)
next
  case (Cons d cs)
  obtain r s1 where f: "feed s c = (r, s1)" by fastforce
  have inv1: "inv s1" using inv_feed[of s c] Cons.prems f by simp
  have "feed_all feed app e s1 (d # cs) = feed s1 (d @ concat cs)"
    using Cons.IH[OF inv1] Cons.prems by simp
  moreover have "ok (d @ concat cs)"
    using Cons.prems(3) by (induction cs arbitrary: d) (auto intro: ok_append)
  ultimately show ?case
    using feed_append[of s c "d @ concat cs"] Cons.prems f
    by (simp add: Let_def split: prod.splits)
qed

corollary chunking_irrelevant:
  assumes "inv s" and "ok c" and "ok c'" and "\<forall>d \<in> set cs. ok d" and "\<forall>d \<in> set ds. ok d"
    and "c @ concat cs = c' @ concat ds"
  shows "feed_all feed app e s (c # cs) = feed_all feed app e s (c' # ds)"
  using assms by (simp only: feed_all_concat)

end

end
