(* ===== verification/GoStrings.thy ===== *)
theory GoStrings
  imports Prelude
begin

text \<open>
  The operations of Go's \<^verbatim>\<open>strings\<close>, \<^verbatim>\<open>unicode\<close> and \<^verbatim>\<open>unicode/utf8\<close> packages that
  the modelled files call.  A Go string is a sequence of bytes, so it is a
  \<^typ>\<open>string\<close> here, one \<^typ>\<open>char\<close> for one byte; runes are decoded from it
  exactly as \<^verbatim>\<open>utf8.DecodeRuneInString\<close> does, invalid sequences included.
\<close>

section \<open>Runes\<close>

abbreviation byte_val :: "char \<Rightarrow> nat" where
  "byte_val c \<equiv> of_char c"

definition rune_error :: nat where
  "rune_error = 0xFFFD"

text \<open>Length promised by a first byte: 0 for a byte that starts no sequence.\<close>

definition seq_len :: "nat \<Rightarrow> nat" where
  "seq_len x =
     (if x < 0x80 then 1
      else if x < 0xC2 then 0
      else if x < 0xE0 then 2
      else if x < 0xF0 then 3
      else if x < 0xF5 then 4
      else 0)"

text \<open>Range of the second byte.\<close>

definition accept_lo :: "nat \<Rightarrow> nat" where
  "accept_lo x = (if x = 0xE0 then 0xA0 else if x = 0xF0 then 0x90 else 0x80)"

definition accept_hi :: "nat \<Rightarrow> nat" where
  "accept_hi x = (if x = 0xED then 0x9F else if x = 0xF4 then 0x8F else 0xBF)"

definition is_cont :: "nat \<Rightarrow> bool" where
  "is_cont y \<longleftrightarrow> 0x80 \<le> y \<and> y \<le> 0xBF"

definition is_second :: "nat \<Rightarrow> nat \<Rightarrow> bool" where
  "is_second x y \<longleftrightarrow> accept_lo x \<le> y \<and> y \<le> accept_hi x"

text \<open>The rune encoded by two, three or four bytes.\<close>

definition rune2 :: "nat \<Rightarrow> nat \<Rightarrow> nat" where
  "rune2 x a = (x - 0xC0) * 64 + (a - 0x80)"

definition rune3 :: "nat \<Rightarrow> nat \<Rightarrow> nat \<Rightarrow> nat" where
  "rune3 x a b = (x - 0xE0) * 4096 + (a - 0x80) * 64 + (b - 0x80)"

definition rune4 :: "nat \<Rightarrow> nat \<Rightarrow> nat \<Rightarrow> nat \<Rightarrow> nat" where
  "rune4 x a b c = (x - 0xF0) * 262144 + (a - 0x80) * 4096 + (b - 0x80) * 64 + (c - 0x80)"

text \<open>\<^verbatim>\<open>utf8.DecodeRuneInString\<close>: the rune and its width in bytes.\<close>

definition decode_rune :: "string \<Rightarrow> nat \<times> nat" where
  "decode_rune s =
     (case s of
        [] \<Rightarrow> (rune_error, 0)
      | c0 # t \<Rightarrow>
          (let x = byte_val c0 in
           if seq_len x = 1 then (x, 1)
           else if seq_len x = 2 then
             (case t of
                c1 # _ \<Rightarrow>
                  if is_second x (byte_val c1)
                  then (rune2 x (byte_val c1), 2) else (rune_error, 1)
              | _ \<Rightarrow> (rune_error, 1))
           else if seq_len x = 3 then
             (case t of
                c1 # c2 # _ \<Rightarrow>
                  if is_second x (byte_val c1) \<and> is_cont (byte_val c2)
                  then (rune3 x (byte_val c1) (byte_val c2), 3)
                  else (rune_error, 1)
              | _ \<Rightarrow> (rune_error, 1))
           else if seq_len x = 4 then
             (case t of
                c1 # c2 # c3 # _ \<Rightarrow>
                  if is_second x (byte_val c1) \<and> is_cont (byte_val c2) \<and> is_cont (byte_val c3)
                  then (rune4 x (byte_val c1) (byte_val c2) (byte_val c3), 4)
                  else (rune_error, 1)
              | _ \<Rightarrow> (rune_error, 1))
           else (rune_error, 1)))"

text \<open>\<^verbatim>\<open>utf8.FullRune\<close>: false exactly for a proper prefix of a valid encoding.\<close>

definition full_rune :: "string \<Rightarrow> bool" where
  "full_rune p =
     (case p of
        [] \<Rightarrow> False
      | c0 # t \<Rightarrow>
          (let x = byte_val c0 in
           if length p \<ge> max 1 (seq_len x) then True
           else (case t of
                   [] \<Rightarrow> False
                 | c1 # t2 \<Rightarrow>
                     if \<not> is_second x (byte_val c1) then True
                     else (case t2 of [] \<Rightarrow> False | c2 # _ \<Rightarrow> \<not> is_cont (byte_val c2)))))"

text \<open>\<^verbatim>\<open>utf8.RuneStart\<close> and \<^verbatim>\<open>utf8.DecodeLastRuneInString\<close>.\<close>

definition rune_start :: "char \<Rightarrow> bool" where
  "rune_start c \<longleftrightarrow> \<not> is_cont (byte_val c)"

text \<open>
  The last rune: look back over at most four bytes for a byte that can start a
  rune (five when none of the four can), decode there, and accept the result only
  if it ends where the string ends.
\<close>

definition last_rune_len :: "string \<Rightarrow> nat" where
  "last_rune_len s =
     (let n = length s in
      if n \<ge> 2 \<and> rune_start (s ! (n - 2)) then 2
      else if n \<ge> 3 \<and> rune_start (s ! (n - 3)) then 3
      else if n \<ge> 4 \<and> rune_start (s ! (n - 4)) then 4
      else min n 5)"

definition decode_last_rune :: "string \<Rightarrow> nat \<times> nat" where
  "decode_last_rune s =
     (if s = [] then (rune_error, 0)
      else if byte_val (last s) < 0x80 then (byte_val (last s), 1)
      else (let k = last_rune_len s; (r, w) = decode_rune (drop (length s - k) s)
            in if w = k then (r, w) else (rune_error, 1)))"

text \<open>\<^verbatim>\<open>unicode.IsSpace\<close>.\<close>

definition is_space :: "nat \<Rightarrow> bool" where
  "is_space r \<longleftrightarrow>
     (9 \<le> r \<and> r \<le> 13) \<or> r = 32 \<or> r = 0x85 \<or> r = 0xA0 \<or> r = 0x1680 \<or>
     (0x2000 \<le> r \<and> r \<le> 0x200A) \<or> r = 0x2028 \<or> r = 0x2029 \<or> r = 0x202F \<or>
     r = 0x205F \<or> r = 0x3000"

lemma not_is_space_rune_error [simp]: "\<not> is_space rune_error"
  by (simp add: is_space_def rune_error_def)

lemma decode_rune_Nil [simp]: "decode_rune [] = (rune_error, 0)"
  by (simp add: decode_rune_def)

lemma decode_rune_width:
  assumes "s \<noteq> []" and "decode_rune s = (r, w)"
  shows "1 \<le> w \<and> w \<le> length s \<and> w \<le> 4"
  using assms by (auto simp: decode_rune_def Let_def split: list.splits if_splits)

lemma decode_rune_width_pos [simp]: "s \<noteq> [] \<Longrightarrow> 0 < snd (decode_rune s)"
  using decode_rune_width[of s "fst (decode_rune s)" "snd (decode_rune s)"] by simp

lemma drop_width_shorter [simp]:
  "s \<noteq> [] \<Longrightarrow> length s - snd (decode_rune s) < length s"
  using decode_rune_width_pos[of s] by (cases s) auto

lemma decode_rune_ascii: "byte_val c < 0x80 \<Longrightarrow> decode_rune (c # t) = (byte_val c, 1)"
  by (simp add: decode_rune_def seq_len_def)

lemma full_rune_Nil [simp]: "\<not> full_rune []"
  by (simp add: full_rune_def)

lemma seq_len_cases: "seq_len x \<in> {0, 1, 2, 3, 4}"
  by (simp add: seq_len_def)

lemma decode_rune_take:
  assumes "decode_rune s = (r, w)" and "(r, w) \<noteq> (rune_error, 1)"
  shows "decode_rune (take w s) = (r, w)"
proof (cases s)
  case Nil
  with assms show ?thesis by auto
next
  case (Cons c0 s')
  consider "seq_len (byte_val c0) = 0" | "seq_len (byte_val c0) = 1" | "seq_len (byte_val c0) = 2"
    | "seq_len (byte_val c0) = 3" | "seq_len (byte_val c0) = 4"
    using seq_len_cases[of "byte_val c0"] by auto
  then show ?thesis
  proof cases
    case 2
    then have d: "decode_rune (c0 # u) = (byte_val c0, 1)" for u by (simp add: decode_rune_def)
    with assms(1) Cons have "r = byte_val c0" and "w = 1" by simp_all
    with d[of "[]"] Cons show ?thesis by simp
  qed (use assms Cons in \<open>auto simp: decode_rune_def Let_def split: list.splits if_splits\<close>)
qed

lemma full_rune_ascii: "byte_val c < 0x80 \<Longrightarrow> full_rune (c # t)"
  by (simp add: full_rune_def seq_len_def Let_def)

text \<open>
  What \<^verbatim>\<open>FullRune\<close> is for: once it answers true, more bytes cannot change how the
  first rune is read.
\<close>

lemma full_rune_decode_append:
  assumes "full_rune s"
  shows "decode_rune (s @ t) = decode_rune s"
proof -
  obtain c0 s' where s: "s = c0 # s'" using assms by (cases s) auto
  consider "seq_len (byte_val c0) = 0" | "seq_len (byte_val c0) = 1" | "seq_len (byte_val c0) = 2"
    | "seq_len (byte_val c0) = 3" | "seq_len (byte_val c0) = 4"
    using seq_len_cases[of "byte_val c0"] by auto
  then show ?thesis
    using assms unfolding s
    by cases (auto simp: decode_rune_def full_rune_def Let_def split: list.splits)
qed

lemma full_rune_append: "full_rune s \<Longrightarrow> full_rune (s @ t)"
  by (auto simp: full_rune_def Let_def split: list.splits if_splits)

section \<open>Strings made of whole runes\<close>

text \<open>
  A chunk is whole when it does not end inside a rune: read from the left, every
  rune (or invalid byte) of it is decided by the chunk alone.
\<close>

function whole_runes :: "string \<Rightarrow> bool" where
  "whole_runes s \<longleftrightarrow>
     (if s = [] then True
      else if full_rune s then whole_runes (drop (snd (decode_rune s)) s)
      else False)"
  by pat_completeness auto
termination
  by (relation "measure length") (auto simp: drop_width_shorter)

declare whole_runes.simps [simp del]

lemma whole_runes_Nil [simp]: "whole_runes []"
  by (subst whole_runes.simps) simp

lemma whole_runesD:
  "whole_runes s \<Longrightarrow> s \<noteq> [] \<Longrightarrow>
   full_rune s \<and> whole_runes (drop (snd (decode_rune s)) s)"
  by (simp add: whole_runes.simps[of s] split: if_splits)

lemma whole_runes_append: "whole_runes a \<Longrightarrow> whole_runes b \<Longrightarrow> whole_runes (a @ b)"
proof (induction a rule: whole_runes.induct)
  case (1 a)
  show ?case
  proof (cases "a = []")
    case True
    with "1.prems" show ?thesis by simp
  next
    case False
    with "1.prems"(1) have f: "full_rune a" and w: "whole_runes (drop (snd (decode_rune a)) a)"
      using whole_runesD[of a] by auto
    have "snd (decode_rune a) \<le> length a"
      using decode_rune_width[of a] False by (metis prod.collapse)
    then have "drop (snd (decode_rune (a @ b))) (a @ b) = drop (snd (decode_rune a)) a @ b"
      using full_rune_decode_append[OF f] by simp
    moreover have "whole_runes (drop (snd (decode_rune a)) a @ b)"
      using "1.IH"[OF False] f w "1.prems"(2) by simp
    ultimately show ?thesis
      using f by (simp add: whole_runes.simps[of "a @ b"] full_rune_append)
  qed
qed

lemma whole_runes_concat: "\<forall>c \<in> set cs. whole_runes c \<Longrightarrow> whole_runes (concat cs)"
  by (induction cs) (auto intro: whole_runes_append)

lemma ascii_whole_runes: "\<forall>c \<in> set s. byte_val c < 0x80 \<Longrightarrow> whole_runes s"
proof (induction s)
  case Nil
  then show ?case by simp
next
  case (Cons c s)
  then show ?case
    by (subst whole_runes.simps) (simp add: full_rune_ascii decode_rune_ascii)
qed

text \<open>An ASCII byte is never inside a longer rune, so what follows it starts at a rune.\<close>

lemma decode_rune_cont:
  assumes "decode_rune s = (r, w)" and "0 < j" and "j < w"
  shows "128 \<le> byte_val (s ! j)"
proof -
  obtain c0 s' where s: "s = c0 # s'" using assms by (cases s) auto
  have lo: "128 \<le> accept_lo x" for x by (simp add: accept_lo_def)
  have j: "j = 1 \<or> j = 2 \<or> j = 3" using assms decode_rune_width[of s r w] s by auto
  show ?thesis
    using assms j lo[of "byte_val c0"] unfolding s
    by (auto simp: decode_rune_def Let_def is_second_def is_cont_def
        split: list.splits if_splits intro: order_trans)
qed

lemma whole_runes_after_ascii:
  assumes "whole_runes (u @ c # v)" and "byte_val c < 0x80"
  shows "whole_runes v"
  using assms
proof (induction "length u" arbitrary: u rule: less_induct)
  case less
  let ?s = "u @ c # v" and ?w = "snd (decode_rune (u @ c # v))"
  have wr: "whole_runes (drop ?w ?s)" using whole_runesD[OF less.prems(1)] by simp
  have pos: "0 < ?w" by (rule decode_rune_width_pos) simp
  show ?case
  proof (cases u)
    case Nil
    with wr less.prems(2) show ?thesis by (simp add: decode_rune_ascii)
  next
    case (Cons a u')
    have "?w \<le> length u"
    proof (rule ccontr)
      assume "\<not> ?w \<le> length u"
      then have "128 \<le> byte_val (?s ! length u)"
        using Cons by (intro decode_rune_cont[of ?s "fst (decode_rune ?s)" ?w]) auto
      with less.prems(2) show False by simp
    qed
    then have "whole_runes (drop ?w u @ c # v)" using wr by simp
    with less.hyps[of "drop ?w u"] less.prems(2) pos Cons show ?thesis by simp
  qed
qed

lemma whole_runes_drop_ascii:
  assumes "whole_runes s" and "0 < n" and "n \<le> length s" and "byte_val (s ! (n - 1)) < 0x80"
  shows "whole_runes (drop n s)"
proof -
  have "s = take (n - 1) s @ s ! (n - 1) # drop n s"
    using assms(2,3) id_take_nth_drop[of "n - 1" s] by simp
  with assms(1,4) show ?thesis by (metis whole_runes_after_ascii)
qed

section \<open>Trimming\<close>

text \<open>\<^verbatim>\<open>strings.TrimLeftFunc(s, unicode.IsSpace)\<close>.\<close>

function trim_left :: "string \<Rightarrow> string" where
  "trim_left s =
     (if s = [] then []
      else if is_space (fst (decode_rune s)) then trim_left (drop (snd (decode_rune s)) s)
      else s)"
  by pat_completeness auto
termination
  by (relation "measure length") (auto simp: drop_width_shorter)

declare trim_left.simps [simp del]

lemma trim_left_Nil [simp]: "trim_left [] = []"
  by (subst trim_left.simps) simp

lemma trim_left_space:
  "s \<noteq> [] \<Longrightarrow> is_space (fst (decode_rune s)) \<Longrightarrow>
   trim_left s = trim_left (drop (snd (decode_rune s)) s)"
  by (subst trim_left.simps) simp

lemma trim_left_nospace: "\<not> is_space (fst (decode_rune s)) \<Longrightarrow> trim_left s = s"
  by (subst trim_left.simps) simp

lemma trim_left_ascii:
  "byte_val c < 0x80 \<Longrightarrow>
   trim_left (c # t) = (if is_space (byte_val c) then trim_left t else c # t)"
  by (simp add: trim_left_space trim_left_nospace decode_rune_ascii)

lemma suffix_trim_left: "suffix (trim_left s) s"
proof (induction s rule: trim_left.induct)
  case (1 s)
  show ?case
  proof (cases "s \<noteq> [] \<and> is_space (fst (decode_rune s))")
    case True
    with 1 have "suffix (trim_left (drop (snd (decode_rune s)) s)) (drop (snd (decode_rune s)) s)"
      by simp
    then show ?thesis
      using True by (metis suffix_drop suffix_order.trans trim_left_space)
  next
    case False
    then show ?thesis by (auto simp: trim_left_nospace)
  qed
qed

lemma length_trim_left: "length (trim_left s) \<le> length s"
  by (rule suffix_length_le[OF suffix_trim_left])

lemma trim_left_head: "trim_left s \<noteq> [] \<Longrightarrow> \<not> is_space (fst (decode_rune (trim_left s)))"
proof (induction s rule: trim_left.induct)
  case (1 s)
  then show ?case
    by (cases "s \<noteq> [] \<and> is_space (fst (decode_rune s))")
       (auto simp: trim_left_space trim_left_nospace)
qed

lemma trim_left_idem [simp]: "trim_left (trim_left s) = trim_left s"
  using trim_left_head[of s] by (cases "trim_left s = []") (auto intro: trim_left_nospace)

lemma whole_runes_trim_left: "whole_runes s \<Longrightarrow> whole_runes (trim_left s)"
proof (induction s rule: trim_left.induct)
  case (1 s)
  show ?case
  proof (cases "s \<noteq> [] \<and> is_space (fst (decode_rune s))")
    case True
    with "1.prems" have "whole_runes (drop (snd (decode_rune s)) s)"
      using whole_runesD[of s] by simp
    with 1 True show ?thesis by (simp add: trim_left_space)
  next
    case False
    with "1.prems" show ?thesis by (auto simp: trim_left_nospace)
  qed
qed

text \<open>Trimming a concatenation whose first part ends between two runes.\<close>

lemma trim_left_append:
  assumes "whole_runes a"
  shows "trim_left (a @ b) = (if trim_left a = [] then trim_left b else trim_left a @ b)"
  using assms
proof (induction a rule: trim_left.induct)
  case (1 a)
  show ?case
  proof (cases "a = []")
    case True
    then show ?thesis by simp
  next
    case False
    with "1.prems" have f: "full_rune a" and w: "whole_runes (drop (snd (decode_rune a)) a)"
      using whole_runesD[of a] by auto
    have d: "decode_rune (a @ b) = decode_rune a" by (rule full_rune_decode_append[OF f])
    have le: "snd (decode_rune a) \<le> length a"
      using decode_rune_width[of a] False by (metis prod.collapse)
    show ?thesis
    proof (cases "is_space (fst (decode_rune a))")
      case True
      have "trim_left (a @ b) = trim_left (drop (snd (decode_rune a)) a @ b)"
        using True False d le by (simp add: trim_left_space)
      also have "\<dots> = (if trim_left a = [] then trim_left b else trim_left a @ b)"
        using "1.IH"[OF False True w] True False by (simp add: trim_left_space)
      finally show ?thesis .
    next
      case nsp: False
      with False d show ?thesis by (simp add: trim_left_nospace)
    qed
  qed
qed

text \<open>\<^verbatim>\<open>strings.TrimRightFunc(s, unicode.IsSpace)\<close>.\<close>

lemma decode_last_rune_width:
  assumes "s \<noteq> []" and "decode_last_rune s = (r, w)"
  shows "1 \<le> w \<and> w \<le> length s"
  using assms
  by (cases s) (auto simp: decode_last_rune_def last_rune_len_def Let_def split: if_splits prod.splits)

lemma take_width_shorter [simp]:
  "s \<noteq> [] \<Longrightarrow> length s - snd (decode_last_rune s) < length s"
  using decode_last_rune_width[of s "fst (decode_last_rune s)" "snd (decode_last_rune s)"]
  by (cases s) auto

function trim_right :: "string \<Rightarrow> string" where
  "trim_right s =
     (if s = [] then []
      else if is_space (fst (decode_last_rune s))
        then trim_right (take (length s - snd (decode_last_rune s)) s)
      else s)"
  by pat_completeness auto
termination
proof (relation "measure length", goal_cases)
  case 1
  show ?case by simp
next
  case (2 s)
  then show ?case using take_width_shorter[of s] by simp
qed

declare trim_right.simps [simp del]

lemma trim_right_Nil [simp]: "trim_right [] = []"
  by (subst trim_right.simps) simp

lemma trim_right_space:
  "s \<noteq> [] \<Longrightarrow> is_space (fst (decode_last_rune s)) \<Longrightarrow>
   trim_right s = trim_right (take (length s - snd (decode_last_rune s)) s)"
  by (subst trim_right.simps) simp

lemma trim_right_nospace: "\<not> is_space (fst (decode_last_rune s)) \<Longrightarrow> trim_right s = s"
  by (subst trim_right.simps) simp

lemma prefix_trim_right: "prefix (trim_right s) s"
proof (induction s rule: trim_right.induct)
  case (1 s)
  then show ?case
    by (cases "s \<noteq> [] \<and> is_space (fst (decode_last_rune s))")
       (auto simp: trim_right_space trim_right_nospace
             intro: prefix_order.trans[OF _ take_is_prefix])
qed

lemma length_trim_right: "length (trim_right s) \<le> length s"
  by (rule prefix_length_le[OF prefix_trim_right])

lemma trim_right_eq_take: "trim_right s = take (length (trim_right s)) s"
  by (metis append_eq_conv_conj prefix_def prefix_trim_right)

text \<open>\<^verbatim>\<open>strings.TrimSpace\<close>.\<close>

definition trim_space :: "string \<Rightarrow> string" where
  "trim_space s = trim_right (trim_left s)"

lemma length_trim_space: "length (trim_space s) \<le> length s"
  unfolding trim_space_def
  by (rule le_trans[OF length_trim_right length_trim_left])

section \<open>Searching and splitting\<close>

text \<open>\<^verbatim>\<open>strings.Index(s, sep)\<close>, \<^term>\<open>None\<close> for -1.\<close>

fun index_of :: "string \<Rightarrow> string \<Rightarrow> nat option" where
  "index_of sep s =
     (if prefix sep s then Some 0
      else (case s of [] \<Rightarrow> None | _ # t \<Rightarrow> map_option Suc (index_of sep t)))"

declare index_of.simps [simp del]

abbreviation contains :: "string \<Rightarrow> string \<Rightarrow> bool" where
  "contains s sep \<equiv> index_of sep s \<noteq> None"

lemma index_of_prefix [simp]: "prefix sep s \<Longrightarrow> index_of sep s = Some 0"
  by (simp add: index_of.simps)

lemma index_of_Cons:
  "\<not> prefix sep (c # t) \<Longrightarrow> index_of sep (c # t) = map_option Suc (index_of sep t)"
  by (simp add: index_of.simps[of _ "c # t"])

lemma index_of_Nil: "index_of sep [] = (if sep = [] then Some 0 else None)"
  by (simp add: index_of.simps)

text \<open>The index is the first position where the separator occurs.\<close>

lemma index_of_SomeD:
  "index_of sep s = Some i \<Longrightarrow> prefix sep (drop i s) \<and> (\<forall>j<i. \<not> prefix sep (drop j s))"
proof (induction s arbitrary: i)
  case Nil
  then show ?case by (simp add: index_of_Nil split: if_splits)
next
  case (Cons c s)
  show ?case
  proof (cases "prefix sep (c # s)")
    case True
    with Cons.prems show ?thesis by simp
  next
    case False
    with Cons.prems obtain k where k: "index_of sep s = Some k" "i = Suc k"
      by (auto simp: index_of_Cons)
    from Cons.IH[OF k(1)] False k(2) show ?thesis
      by (auto simp: less_Suc_eq_0_disj)
  qed
qed

lemma index_of_NoneD: "index_of sep s = None \<Longrightarrow> \<not> prefix sep (drop j s)"
proof (induction s arbitrary: j)
  case Nil
  then show ?case by (simp add: index_of_Nil split: if_splits)
next
  case (Cons c s)
  then have np: "\<not> prefix sep (c # s)" by (auto simp: index_of.simps[of _ "c # s"])
  with Cons.prems have "index_of sep s = None" by (simp add: index_of_Cons)
  with Cons.IH np show ?case by (cases j) auto
qed

lemma index_of_eq_SomeI:
  "prefix sep (drop i s) \<Longrightarrow> \<forall>j<i. \<not> prefix sep (drop j s) \<Longrightarrow> index_of sep s = Some i"
proof (cases "index_of sep s")
  case None
  assume "prefix sep (drop i s)"
  with None show ?thesis using index_of_NoneD by blast
next
  case (Some k)
  assume "prefix sep (drop i s)" and "\<forall>j<i. \<not> prefix sep (drop j s)"
  with index_of_SomeD[OF Some] have "k = i"
    by (metis linorder_neqE_nat)
  with Some show ?thesis by simp
qed

lemma index_of_le: "index_of sep s = Some i \<Longrightarrow> i + length sep \<le> length s"
proof -
  assume "index_of sep s = Some i"
  then have p: "prefix sep (drop i s)" by (simp add: index_of_SomeD)
  show ?thesis
  proof (cases "sep = []")
    case True
    show ?thesis
    proof (rule ccontr)
      assume "\<not> ?thesis"
      with True have "0 < i" by simp
      with \<open>index_of sep s = Some i\<close> True show False using index_of_SomeD by fastforce
    qed
  next
    case False
    with prefix_length_le[OF p] show ?thesis by (cases "i \<le> length s") auto
  qed
qed

lemma index_of_decomp:
  assumes "index_of sep s = Some i"
  shows "s = take i s @ sep @ drop (i + length sep) s"
proof -
  from index_of_SomeD[OF assms] obtain t where t: "drop i s = sep @ t" by (auto simp: prefix_def)
  then have "t = drop (i + length sep) s"
    by (metis add.commute append_eq_conv_conj drop_drop)
  with t show ?thesis by (metis append_take_drop_id)
qed

lemma index_of_append_same:
  "index_of sep s = Some i \<Longrightarrow> index_of sep (s @ t) = Some i"
proof (rule index_of_eq_SomeI)
  assume a: "index_of sep s = Some i"
  note le = index_of_le[OF a] and d = index_of_SomeD[OF a]
  show "prefix sep (drop i (s @ t))" using d le by (auto intro: prefix_prefix)
  show "\<forall>j<i. \<not> prefix sep (drop j (s @ t))"
  proof (intro allI impI notI)
    fix j assume j: "j < i" and p: "prefix sep (drop j (s @ t))"
    have "length sep \<le> length (drop j s)" using le j by simp
    moreover have "prefix sep (drop j s @ t)" using p le j by simp
    ultimately have "prefix sep (drop j s)" by (meson prefixI prefix_length_prefix)
    with d j show False by blast
  qed
qed

text \<open>\<^verbatim>\<open>strings.SplitN(s, sep, 2)\<close> and \<^verbatim>\<open>strings.Cut\<close> for a separator that is not empty.\<close>

definition cut :: "string \<Rightarrow> string \<Rightarrow> string \<times> string option" where
  "cut s sep =
     (case index_of sep s of
        None \<Rightarrow> (s, None)
      | Some i \<Rightarrow> (take i s, Some (drop (i + length sep) s)))"

text \<open>\<^verbatim>\<open>strings.Split\<close>: an empty separator explodes the string into its runes.\<close>

function explode_runes :: "string \<Rightarrow> string list" where
  "explode_runes s =
     (if s = [] then []
      else take (snd (decode_rune s)) s # explode_runes (drop (snd (decode_rune s)) s))"
  by pat_completeness auto
termination
  by (relation "measure length") auto

declare explode_runes.simps [simp del]

function split_on :: "string \<Rightarrow> string \<Rightarrow> string list" where
  "split_on sep s =
     (if sep = [] then explode_runes s
      else (case index_of sep s of
              None \<Rightarrow> [s]
            | Some i \<Rightarrow> take i s # split_on sep (drop (i + length sep) s)))"
  by pat_completeness auto
termination
proof (relation "measure (\<lambda>(sep, s). length s)", goal_cases)
  case 1
  show ?case by simp
next
  case (2 sep s i)
  with index_of_le[of sep s i] show ?case by (cases sep) auto
qed

declare split_on.simps [simp del]

text \<open>\<^verbatim>\<open>strings.Join\<close>.\<close>

fun join :: "string list \<Rightarrow> string \<Rightarrow> string" where
  "join [] sep = []"
| "join [x] sep = x"
| "join (x # y # zs) sep = x @ sep @ join (y # zs) sep"

lemma split_on_nonempty: "sep \<noteq> [] \<Longrightarrow> split_on sep s \<noteq> []"
  by (subst split_on.simps) (auto split: option.splits)

lemma join_split: "sep \<noteq> [] \<Longrightarrow> join (split_on sep s) sep = s"
proof (induction sep s rule: split_on.induct)
  case (1 sep s)
  show ?case
  proof (cases "index_of sep s")
    case None
    with 1 show ?thesis by (subst split_on.simps) simp
  next
    case (Some i)
    let ?r = "drop (i + length sep) s"
    have "join (split_on sep ?r) sep = ?r" using 1 Some by blast
    moreover obtain y ys where "split_on sep ?r = y # ys"
      using split_on_nonempty[OF "1.prems"] by (meson neq_Nil_conv)
    ultimately show ?thesis
      using Some "1.prems" index_of_decomp[OF Some] by (simp add: split_on.simps[of sep s])
  qed
qed

text \<open>
  Splitting everywhere and joining all pieces but the first is the same as
  dropping everything up to the end of the first separator.
\<close>

lemma split_head_tail:
  assumes "sep \<noteq> []" and "index_of sep s = Some i"
  shows "split_on sep s = take i s # split_on sep (drop (i + length sep) s)"
    and "join (tl (split_on sep s)) sep = drop (i + length sep) s"
  using assms by (simp_all add: split_on.simps[of sep s] join_split)

text \<open>\<^verbatim>\<open>strings.LastIndex\<close>.\<close>

fun last_index_of :: "string \<Rightarrow> string \<Rightarrow> nat option" where
  "last_index_of sep s =
     (case s of
        [] \<Rightarrow> if sep = [] then Some 0 else None
      | _ # t \<Rightarrow>
          (case last_index_of sep t of
             Some i \<Rightarrow> Some (Suc i)
           | None \<Rightarrow> if prefix sep s then Some 0 else None))"

declare last_index_of.simps [simp del]

text \<open>\<^verbatim>\<open>strings.Replace(s, old, new, 1)\<close> for an \<open>old\<close> that is not empty.\<close>

definition replace_first :: "string \<Rightarrow> string \<Rightarrow> string \<Rightarrow> string" where
  "replace_first s old new =
     (case index_of old s of
        None \<Rightarrow> s
      | Some i \<Rightarrow> take i s @ new @ drop (i + length old) s)"

text \<open>
  \<^verbatim>\<open>strings.IndexFunc(s, unicode.IsSpace)\<close>, with the length of the string where
  Go returns -1, and \<^verbatim>\<open>strings.Fields\<close>.
\<close>

function space_index :: "string \<Rightarrow> nat" where
  "space_index s =
     (if s = [] then 0
      else if is_space (fst (decode_rune s)) then 0
      else snd (decode_rune s) + space_index (drop (snd (decode_rune s)) s))"
  by pat_completeness auto
termination
  by (relation "measure length") auto

declare space_index.simps [simp del]

lemma space_index_pos: "s \<noteq> [] \<Longrightarrow> \<not> is_space (fst (decode_rune s)) \<Longrightarrow> 0 < space_index s"
  by (simp add: space_index.simps[of s])

function go_fields :: "string \<Rightarrow> string list" where
  "go_fields s =
     (let t = trim_left s in
      if t = [] then [] else take (space_index t) t # go_fields (drop (space_index t) t))"
  by pat_completeness auto
termination
proof (relation "measure length", goal_cases)
  case 1
  show ?case by simp
next
  case (2 s t)
  then have "0 < space_index t" using space_index_pos trim_left_head by blast
  moreover have "0 < length t" using 2 by simp
  moreover have "length t \<le> length s" using 2 length_trim_left[of s] by simp
  ultimately have "length t - space_index t < length s" by linarith
  then show ?case by simp
qed

declare go_fields.simps [simp del]

section \<open>Words of printable ASCII\<close>

text \<open>A byte that is neither white space nor part of a longer rune.\<close>

definition printable :: "char \<Rightarrow> bool" where
  "printable c \<longleftrightarrow> 33 \<le> byte_val c \<and> byte_val c \<le> 126"

lemma printable_decode:
  "printable c \<Longrightarrow> decode_rune (c # t) = (byte_val c, 1)"
  "printable c \<Longrightarrow> \<not> is_space (byte_val c)"
  by (simp_all add: printable_def decode_rune_ascii is_space_def)

lemma printable_whole_runes: "\<forall>c \<in> set w. printable c \<Longrightarrow> whole_runes w"
  by (rule ascii_whole_runes) (auto simp: printable_def)

lemma trim_left_printable: "printable c \<Longrightarrow> trim_left (c # t) = c # t"
  by (simp add: trim_left_nospace printable_decode)

lemma space_index_printable:
  "\<forall>c \<in> set w. printable c \<Longrightarrow> space_index (w @ t) = length w + space_index t"
proof (induction w)
  case Nil
  then show ?case by simp
next
  case (Cons c w)
  then show ?case
    by (simp add: space_index.simps[of "c # w @ t"] printable_decode)
qed

lemma space_index_Nil [simp]: "space_index [] = 0"
  by (subst space_index.simps) simp

lemma space_index_blank: "space_index (CHR '' '' # t) = 0"
  by (subst space_index.simps) (simp add: decode_rune_ascii is_space_def)

lemma fields_Nil [simp]: "go_fields [] = []"
  by (subst go_fields.simps) simp

lemma fields_blank: "go_fields (CHR '' '' # t) = go_fields t"
proof -
  have "trim_left (CHR '' '' # t) = trim_left t"
    by (simp add: trim_left_ascii is_space_def)
  then show ?thesis by (simp only: go_fields.simps[of "CHR '' '' # t"] go_fields.simps[of t])
qed

lemma fields_word:
  assumes "w \<noteq> []" and "\<forall>c \<in> set w. printable c" and "space_index t = 0"
  shows "go_fields (w @ t) = w # go_fields t"
proof -
  have "trim_left (w @ t) = w @ t" using assms(1,2) by (cases w) (auto simp: trim_left_printable)
  with assms show ?thesis
    by (subst go_fields.simps) (simp add: space_index_printable Let_def)
qed

lemma decode_last_rune_ascii:
  "byte_val c < 0x80 \<Longrightarrow> decode_last_rune (t @ [c]) = (byte_val c, 1)"
  by (simp add: decode_last_rune_def)

lemma trim_right_printable: "printable c \<Longrightarrow> trim_right (t @ [c]) = t @ [c]"
  using printable_decode(2)[of c]
  by (intro trim_right_nospace) (auto simp: decode_last_rune_ascii printable_def)

text \<open>An index search passes over text without the first byte of the separator.\<close>

lemma index_of_skip:
  assumes "hd sep \<notin> set u" and "sep \<noteq> []"
  shows "index_of sep (u @ x) = map_option ((+) (length u)) (index_of sep x)"
  using assms(1)
proof (induction u)
  case Nil
  then show ?case by (simp add: option.map_ident)
next
  case (Cons c u)
  then have "\<not> prefix sep ((c # u) @ x)" using assms(2) by (cases sep) auto
  with Cons show ?case by (simp add: index_of_Cons option.map_comp comp_def)
qed

section \<open>Decimal numbers\<close>

text \<open>\<^verbatim>\<open>strconv.Itoa\<close> and \<^verbatim>\<open>%d\<close> for numbers that are not negative.\<close>

definition digit_char :: "nat \<Rightarrow> char" where
  "digit_char d = char_of (48 + d)"

fun show_nat :: "nat \<Rightarrow> string" where
  "show_nat n = (if n < 10 then [digit_char n] else show_nat (n div 10) @ [digit_char (n mod 10)])"

declare show_nat.simps [simp del]

definition read_nat :: "string \<Rightarrow> nat" where
  "read_nat s = foldl (\<lambda>n c. 10 * n + (byte_val c - 48)) 0 s"

lemma byte_val_digit: "d < 10 \<Longrightarrow> byte_val (digit_char d) = 48 + d"
  by (simp add: digit_char_def)

lemma read_show_nat: "read_nat (show_nat n) = n"
proof (induction n rule: show_nat.induct)
  case (1 n)
  show ?case
  proof (cases "n < 10")
    case True
    then show ?thesis by (simp add: show_nat.simps read_nat_def byte_val_digit)
  next
    case False
    with 1 have "read_nat (show_nat (n div 10)) = n div 10" by simp
    with False show ?thesis
      by (simp add: show_nat.simps[of n] read_nat_def byte_val_digit)
  qed
qed

lemma show_nat_inj: "show_nat m = show_nat n \<Longrightarrow> m = n"
  by (metis read_show_nat)

section \<open>Case folding\<close>

text \<open>
  \<^verbatim>\<open>strings.EqualFold\<close>.  The Unicode table behind it is the parameter \<open>casefold\<close>, which
  sends a rune to a representative of its case class; \<open>ascii_fold\<close> is its ASCII part.
\<close>

definition ascii_fold :: "nat \<Rightarrow> nat" where
  "ascii_fold r = (if 65 \<le> r \<and> r \<le> 90 then r + 32 else r)"

definition equal_fold :: "(nat \<Rightarrow> nat) \<Rightarrow> string \<Rightarrow> string \<Rightarrow> bool" where
  "equal_fold casefold s t \<longleftrightarrow>
     map (\<lambda>u. casefold (fst (decode_rune u))) (explode_runes s) =
     map (\<lambda>u. casefold (fst (decode_rune u))) (explode_runes t)"

lemma equal_fold_refl [simp]: "equal_fold casefold s s"
  and equal_fold_sym: "equal_fold casefold s t \<longleftrightarrow> equal_fold casefold t s"
  and equal_fold_trans: "equal_fold casefold s t \<Longrightarrow> equal_fold casefold t u \<Longrightarrow> equal_fold casefold s u"
  by (auto simp: equal_fold_def)

text \<open>Every rune of an ASCII string is one byte; a test of ASCII bytes on the runes' first bytes.\<close>

lemma explode_ascii: "byte_val c < 0x80 \<Longrightarrow> explode_runes (c # t) = [c] # explode_runes t"
  by (simp add: explode_runes.simps[of "c # t"] decode_rune_ascii)

lemma explode_head: "hd (hd (explode_runes (c # t))) = c" "explode_runes (c # t) \<noteq> []"
proof -
  obtain k where "snd (decode_rune (c # t)) = Suc k"
    using decode_rune_width_pos[of "c # t"] by (cases "snd (decode_rune (c # t))") auto
  then show "hd (hd (explode_runes (c # t))) = c" "explode_runes (c # t) \<noteq> []"
    by (subst explode_runes.simps, simp)+
qed

lemma explode_heads:
  assumes "\<And>c. P c \<Longrightarrow> byte_val c < 0x80"
  shows "list_all (\<lambda>u. P (hd u)) (explode_runes s) \<longleftrightarrow> list_all P s"
proof (induction s)
  case Nil
  then show ?case by (simp add: explode_runes.simps)
next
  case (Cons c t)
  show ?case
  proof (cases "byte_val c < 0x80")
    case True
    with Cons show ?thesis by (simp add: explode_ascii)
  next
    case False
    then have "\<not> P c" using assms by blast
    moreover have "0 < snd (decode_rune (c # t))" using decode_rune_width_pos[of "c # t"] by simp
    then have "hd (take (snd (decode_rune (c # t))) (c # t)) = c"
      by (cases "snd (decode_rune (c # t))") simp_all
    ultimately show ?thesis by (simp add: explode_runes.simps[of "c # t"])
  qed
qed

section \<open>The last separator\<close>

lemma last_index_none: "c \<notin> set s \<Longrightarrow> last_index_of [c] s = None"
  by (induction s) (simp_all add: last_index_of.simps[of "[c]" "_ # _"] last_index_of.simps[of "[c]" "[]"])

lemma last_index_at: "c \<notin> set y \<Longrightarrow> last_index_of [c] (x @ c # y) = Some (length x)"
proof (induction x)
  case Nil
  then show ?case by (simp add: last_index_of.simps[of "[c]" "_ # _"] last_index_none)
next
  case (Cons a x)
  then show ?case by (simp add: last_index_of.simps[of "[c]" "a # _"])
qed

text \<open>Joining pieces without the separator and splitting again.\<close>

lemma split_join:
  assumes "xs \<noteq> []" and "\<forall>x \<in> set xs. c \<notin> set x"
  shows "split_on [c] (join xs [c]) = xs"
  using assms
proof (induction xs)
  case Nil
  then show ?case by simp
next
  case (Cons x xs)
  show ?case
  proof (cases xs)
    case Nil
    with Cons.prems show ?thesis
      using index_of_skip[of "[c]" x "[]"] by (simp add: split_on.simps[of "[c]" x] index_of_Nil)
  next
    case tail: (Cons y ys)
    have rest: "split_on [c] (join xs [c]) = xs" using Cons tail by simp
    have "index_of [c] (x @ [c] @ join xs [c]) = Some (length x)"
      using index_of_skip[of "[c]" x "[c] @ join xs [c]"] Cons.prems by (simp add: index_of_Cons)
    with tail rest show ?thesis by (simp add: split_on.simps[of "[c]" "x @ c # _"])
  qed
qed

end
