(* ===== verification/StreamText.thy ===== *)
theory StreamText
  imports GoStrings
begin

text \<open>
  The helpers of \<^verbatim>\<open>model/parsers/parsers.go\<close> that every streaming parser shares:
  \<^verbatim>\<open>overlap\<close> (copied verbatim into \<^verbatim>\<open>thinking/parser.go\<close> and
  \<^verbatim>\<open>harmony/harmonyparser.go\<close>), \<^verbatim>\<open>trailingWhitespaceLen\<close> and \<^verbatim>\<open>splitAtTag\<close>.
  The lemmas say why holding back the overlap with a tag is exactly right: no
  occurrence of the tag in any continuation starts before the held bytes, and the
  held bytes of a longer input depend on the held bytes of the shorter one only.
\<close>

section \<open>Overlap of a suffix with the start of a delimiter\<close>

fun overlap_from :: "string \<Rightarrow> string \<Rightarrow> nat \<Rightarrow> nat" where
  "overlap_from s delim 0 = 0"
| "overlap_from s delim (Suc i) =
     (if suffix (take (Suc i) delim) s then Suc i else overlap_from s delim i)"

definition overlap :: "string \<Rightarrow> string \<Rightarrow> nat" where
  "overlap s delim = overlap_from s delim (min (length delim) (length s))"

lemma overlap_from_le: "overlap_from s d n \<le> n"
  by (induction n) auto

lemma overlap_from_suffix: "suffix (take (overlap_from s d n) d) s"
  by (induction n) auto

lemma overlap_from_max:
  "i \<le> n \<Longrightarrow> suffix (take i d) s \<Longrightarrow> i \<le> overlap_from s d n"
  by (induction n) (auto simp: le_Suc_eq)

lemma overlap_le_delim: "overlap s d \<le> length d"
  and overlap_le: "overlap s d \<le> length s"
  using overlap_from_le[of s d "min (length d) (length s)"] by (auto simp: overlap_def)

lemma overlap_suffix: "suffix (take (overlap s d) d) s"
  unfolding overlap_def by (rule overlap_from_suffix)

lemma overlap_greatest:
  assumes "suffix (take i d) s" and "i \<le> length d"
  shows "i \<le> overlap s d"
proof -
  have "i \<le> length s" using assms suffix_length_le[of "take i d" s] by simp
  with assms show ?thesis unfolding overlap_def by (intro overlap_from_max) auto
qed

text \<open>The bytes held back, and those before them.\<close>

definition held :: "string \<Rightarrow> string \<Rightarrow> string" where
  "held s d = drop (length s - overlap s d) s"

definition unheld :: "string \<Rightarrow> string \<Rightarrow> string" where
  "unheld s d = take (length s - overlap s d) s"

lemma unheld_held [simp]: "unheld s d @ held s d = s"
  by (simp add: held_def unheld_def)

lemma length_held [simp]: "length (held s d) = overlap s d"
  using overlap_le[of s d] by (simp add: held_def)

lemma held_eq: "held s d = take (overlap s d) d"
  using suffix_drop_length[OF overlap_suffix[of s d]] overlap_le_delim[of s d]
  by (simp add: held_def)

lemma suffix_held: "suffix (held s d) s"
  by (simp add: held_eq overlap_suffix)

lemma prefix_held: "prefix (held s d) d"
  by (simp add: held_eq take_is_prefix)

lemma held_greatest: "suffix u s \<Longrightarrow> prefix u d \<Longrightarrow> length u \<le> overlap s d"
  using overlap_greatest[of "length u" d s] prefix_length_le[of u d]
  by (simp add: prefix_take_iff)

lemma held_of_held [simp]: "held (held s d) d = held s d"
proof -
  have "length (held s d) \<le> overlap (held s d) d"
    by (rule held_greatest) (auto simp: prefix_held)
  with overlap_le[of "held s d" d] show ?thesis by (simp add: held_def[of "held s d"])
qed

lemma overlap_zero_held: "overlap s d = 0 \<longleftrightarrow> held s d = []"
  by (metis length_0_conv length_held)

text \<open>No occurrence of the delimiter in a continuation starts before the held bytes.\<close>

lemma no_early_occurrence:
  assumes "index_of d s = None" and "j < length (unheld s d)"
  shows "\<not> prefix d (drop j (s @ t))"
proof
  assume p: "prefix d (drop j (s @ t))"
  have j: "j < length s" using assms(2) by (simp add: unheld_def)
  have dj: "drop j (s @ t) = drop j s @ t" using j by simp
  consider "prefix d (drop j s)" | "prefix (drop j s) d"
    using p unfolding dj by (meson prefixI prefix_same_cases)
  then show False
  proof cases
    case 1
    with assms(1) show False using index_of_NoneD by blast
  next
    case 2
    then have "length (drop j s) \<le> overlap s d"
      by (intro held_greatest) (auto simp: suffix_drop)
    with assms(2) j show False by (simp add: unheld_def)
  qed
qed

lemma index_of_append_unheld:
  assumes "index_of d s = None"
  shows "index_of d (s @ t) = map_option ((+) (length (unheld s d))) (index_of d (held s d @ t))"
proof -
  let ?u = "unheld s d"
  have st: "s @ t = ?u @ (held s d @ t)" by (metis append_assoc unheld_held)
  show ?thesis
  proof (cases "index_of d (held s d @ t)")
    case None
    have "index_of d (s @ t) = None"
    proof (rule ccontr)
      assume "index_of d (s @ t) \<noteq> None"
      then obtain i where i: "index_of d (s @ t) = Some i" by blast
      have "\<not> i < length ?u"
        using no_early_occurrence[OF assms] index_of_SomeD[OF i] by blast
      then have "drop i (s @ t) = drop (i - length ?u) (held s d @ t)"
        unfolding st by (simp only: drop_append_ge linorder_not_less)
      with index_of_SomeD[OF i] None show False by (metis index_of_NoneD)
    qed
    with None show ?thesis by simp
  next
    case (Some i)
    have "index_of d (s @ t) = Some (length ?u + i)"
    proof (rule index_of_eq_SomeI)
      show "prefix d (drop (length ?u + i) (s @ t))"
        using index_of_SomeD[OF Some] unfolding st by simp
      show "\<forall>j<length ?u + i. \<not> prefix d (drop j (s @ t))"
      proof (intro allI impI)
        fix j assume j: "j < length ?u + i"
        show "\<not> prefix d (drop j (s @ t))"
        proof (cases "j < length ?u")
          case True
          then show ?thesis by (rule no_early_occurrence[OF assms])
        next
          case False
          then have "drop j (s @ t) = drop (j - length ?u) (held s d @ t)"
            unfolding st by (simp only: drop_append_ge linorder_not_less)
          moreover have "j - length ?u < i" using False j by simp
          ultimately show ?thesis using index_of_SomeD[OF Some] by metis
        qed
      qed
    qed
    with Some show ?thesis by simp
  qed
qed

text \<open>What is held after more input depends on the bytes held so far only.\<close>

lemma held_append:
  "held (s @ t) d = held (held s d @ t) d"
proof -
  have "overlap (s @ t) d = overlap (held s d @ t) d"
  proof (rule antisym)
    have "suffix (held (s @ t) d) (held s d @ t)"
    proof (cases "length (held (s @ t) d) \<le> length t")
      case True
      then have "suffix (held (s @ t) d) t"
        by (meson suffixI suffix_held suffix_length_suffix)
      then show ?thesis by (rule suffix_appendI)
    next
      case False
      have "suffix t (held (s @ t) d)"
        by (rule suffix_length_suffix[of _ "s @ t"]) (use False in \<open>auto simp: suffix_held suffixI\<close>)
      then obtain u where u: "held (s @ t) d = u @ t" by (auto simp: suffix_def)
      have "suffix u s" using suffix_held[of "s @ t" d] unfolding u by (simp add: suffix_def)
      moreover have "prefix u d" using prefix_held[of "s @ t" d] unfolding u by (rule append_prefixD)
      ultimately have "length u \<le> length (held s d)" by (simp add: held_greatest)
      then have "suffix u (held s d)"
        using \<open>suffix u s\<close> suffix_held[of s d] by (meson suffix_length_suffix)
      then show ?thesis unfolding u by (auto simp: suffix_def)
    qed
    then show "overlap (s @ t) d \<le> overlap (held s d @ t) d"
      using held_greatest[OF _ prefix_held] by fastforce
    have "suffix (held (held s d @ t) d) (s @ t)"
      using suffix_held[of "held s d @ t" d] suffix_held[of s d]
      by (meson suffix_order.trans suffix_def same_suffix_suffix append_assoc)
    then show "overlap (held s d @ t) d \<le> overlap (s @ t) d"
      using held_greatest[OF _ prefix_held] by fastforce
  qed
  then show ?thesis by (simp add: held_eq)
qed

lemma unheld_append: "unheld (s @ t) d = unheld s d @ unheld (held s d @ t) d"
proof -
  have "unheld (s @ t) d @ held (s @ t) d = (unheld s d @ unheld (held s d @ t) d) @ held (s @ t) d"
    by (metis append_assoc held_append unheld_held)
  then show ?thesis by blast
qed

section \<open>Trailing white space\<close>

text \<open>\<^verbatim>\<open>trailingWhitespaceLen\<close>: an invalid last byte ends the count.\<close>

function trailingWhitespaceLen :: "string \<Rightarrow> nat" where
  "trailingWhitespaceLen s =
     (if s = [] then 0
      else if decode_last_rune s = (rune_error, 1) then 0
      else if \<not> is_space (fst (decode_last_rune s)) then 0
      else snd (decode_last_rune s) +
           trailingWhitespaceLen (take (length s - snd (decode_last_rune s)) s))"
  by pat_completeness auto
termination
proof (relation "measure length", goal_cases)
  case 1
  show ?case by simp
next
  case (2 s)
  then show ?case using take_width_shorter[of s] by simp
qed

declare trailingWhitespaceLen.simps [simp del]

text \<open>It measures what \<^verbatim>\<open>TrimRightFunc\<close> would remove.\<close>

lemma trailingWhitespaceLen_trim_right:
  "length (trim_right s) + trailingWhitespaceLen s = length s"
proof (induction s rule: trim_right.induct)
  case (1 s)
  show ?case
  proof (cases "s \<noteq> [] \<and> is_space (fst (decode_last_rune s))")
    case True
    have "decode_last_rune s \<noteq> (rune_error, 1)" using True by auto
    moreover have "1 \<le> snd (decode_last_rune s) \<and> snd (decode_last_rune s) \<le> length s"
      using decode_last_rune_width[of s] True by (metis prod.collapse)
    ultimately show ?thesis
      using True 1
      by (simp add: trim_right_space trailingWhitespaceLen.simps[of s] min_def split: if_splits)
  next
    case False
    then show ?thesis
      by (auto simp: trim_right_nospace trailingWhitespaceLen.simps[of s])
  qed
qed

lemma trailingWhitespaceLen_le: "trailingWhitespaceLen s \<le> length s"
  using trailingWhitespaceLen_trim_right[of s] by simp

lemma take_trailingWhitespaceLen: "take (length s - trailingWhitespaceLen s) s = trim_right s"
  using trailingWhitespaceLen_trim_right[of s] trim_right_eq_take[of s] by (metis add_diff_cancel_right')

section \<open>Splitting the buffer at a tag\<close>

text \<open>
  \<^verbatim>\<open>splitAtTag\<close>: the text before and after the first occurrence of the tag, and the
  new buffer.  Without the tag the buffer is emptied and all of it is returned.
\<close>

definition splitAtTag :: "string \<Rightarrow> string \<Rightarrow> bool \<Rightarrow> string \<times> string \<times> string" where
  "splitAtTag sb tag trimAfter =
     (case cut sb tag of
        (all, None) \<Rightarrow> (all, [], [])
      | (b, Some a) \<Rightarrow>
          (let before = trim_right b; after = (if trimAfter then trim_left a else a)
           in (before, after, after)))"

lemma splitAtTag_found:
  assumes "index_of tag sb = Some i"
  shows "splitAtTag sb tag trimAfter =
    (trim_right (take i sb),
     if trimAfter then trim_left (drop (i + length tag) sb) else drop (i + length tag) sb,
     if trimAfter then trim_left (drop (i + length tag) sb) else drop (i + length tag) sb)"
  using assms by (simp add: splitAtTag_def cut_def Let_def)

text \<open>A buffer that held a tag that is not empty is strictly shorter after the split.\<close>

lemma splitAtTag_shorter:
  assumes "contains sb tag" and "tag \<noteq> []" and "splitAtTag sb tag trimAfter = (before, after, sb')"
  shows "length sb' < length sb" and "after = sb'"
proof -
  obtain i where i: "index_of tag sb = Some i" using assms(1) by blast
  have "length (drop (i + length tag) sb) < length sb"
    using index_of_le[OF i] assms(2) by (cases tag) auto
  then show "length sb' < length sb"
    using assms(3) length_trim_left[of "drop (i + length tag) sb"]
    by (auto simp: splitAtTag_found[OF i] split: if_splits)
  show "after = sb'" using assms(3) by (auto simp: splitAtTag_found[OF i])
qed

end
