(* ===== verification/Thinking.thy ===== *)
theory Thinking
  imports StreamText
begin

text \<open>
  \<^verbatim>\<open>thinking/parser.go\<close>: the streaming parser that separates a model's thinking,
  written between an opening and a closing tag, from its answer.  \<^verbatim>\<open>AddContent\<close> is
  called with one chunk of model output at a time and returns what can be shown at
  once; the rest stays in the accumulator.
\<close>

section \<open>State and operations\<close>

datatype thinkingState =
    LookingForOpening
  | ThinkingStartedEatingWhitespace
  | Thinking
  | ThinkingDoneEatingWhitespace
  | ThinkingDone

record thinking_parser =
  tp_state :: thinkingState
  OpeningTag :: string
  ClosingTag :: string
  tp_acc :: string

text \<open>
  One call of \<^verbatim>\<open>eat\<close>: thinking, content, whether to go on, and the parser after
  it.  An empty tag makes \<^verbatim>\<open>strings.Split\<close> return no piece for an empty string, and
  the slice or index taken of it panics.
\<close>

definition thinking_eat ::
  "thinking_parser \<Rightarrow> go_panic + (string \<times> string \<times> bool \<times> thinking_parser)" where
  "thinking_eat s =
     (case tp_state s of
        LookingForOpening \<Rightarrow>
          (let trimmed = trim_left (tp_acc s) in
           if prefix (OpeningTag s) trimmed then
             (case split_on (OpeningTag s) trimmed of
                [] \<Rightarrow> Inl SliceOutOfRange
              | _ # rest \<Rightarrow>
                  (let after = trim_left (join rest (OpeningTag s)) in
                   Inr ([], [], True,
                        s\<lparr>tp_acc := after,
                          tp_state := (if after = [] then ThinkingStartedEatingWhitespace
                                       else Thinking)\<rparr>)))
           else if prefix trimmed (OpeningTag s) then Inr ([], [], False, s)
           else if trimmed = [] then Inr ([], [], False, s)
           else Inr ([], tp_acc s, False, s\<lparr>tp_state := ThinkingDone, tp_acc := []\<rparr>))
      | ThinkingStartedEatingWhitespace \<Rightarrow>
          (let trimmed = trim_left (tp_acc s) in
           if trimmed = [] then Inr ([], [], False, s\<lparr>tp_acc := []\<rparr>)
           else Inr ([], [], True, s\<lparr>tp_state := Thinking, tp_acc := trimmed\<rparr>))
      | Thinking \<Rightarrow>
          (let acc = tp_acc s in
           if contains acc (ClosingTag s) then
             (case split_on (ClosingTag s) acc of
                [] \<Rightarrow> Inl IndexOutOfRange
              | thinking # rest \<Rightarrow>
                  (let remaining = trim_left (join rest (ClosingTag s)) in
                   Inr (thinking, remaining, False,
                        s\<lparr>tp_acc := [],
                          tp_state := (if remaining = [] then ThinkingDoneEatingWhitespace
                                       else ThinkingDone)\<rparr>)))
           else
             (let overlapLen = overlap acc (ClosingTag s) in
              if overlapLen > 0
              then Inr (take (length acc - overlapLen) acc, [], False,
                        s\<lparr>tp_acc := drop (length acc - overlapLen) acc\<rparr>)
              else Inr (acc, [], False, s\<lparr>tp_acc := []\<rparr>)))
      | ThinkingDoneEatingWhitespace \<Rightarrow>
          (let trimmed = trim_left (tp_acc s) in
           Inr ([], trimmed, False,
                (if trimmed \<noteq> [] then s\<lparr>tp_acc := [], tp_state := ThinkingDone\<rparr>
                 else s\<lparr>tp_acc := []\<rparr>)))
      | ThinkingDone \<Rightarrow> Inr ([], tp_acc s, False, s\<lparr>tp_acc := []\<rparr>))"

fun thinking_rank :: "thinkingState \<Rightarrow> nat" where
  "thinking_rank LookingForOpening = 4"
| "thinking_rank ThinkingStartedEatingWhitespace = 3"
| "thinking_rank Thinking = 2"
| "thinking_rank ThinkingDoneEatingWhitespace = 1"
| "thinking_rank ThinkingDone = 0"

lemma thinking_eat_rank:
  "thinking_eat s = Inr (t, r, True, s') \<Longrightarrow>
   thinking_rank (tp_state s') < thinking_rank (tp_state s)"
  by (auto simp: thinking_eat_def Let_def split: thinkingState.splits if_splits list.splits)

text \<open>The loop of \<^verbatim>\<open>AddContent\<close>; every pass that asks for another moves to a later state.\<close>

function thinking_loop :: "thinking_parser \<Rightarrow> go_panic + (string \<times> string \<times> thinking_parser)" where
  "thinking_loop s =
     (case thinking_eat s of
        Inl p \<Rightarrow> Inl p
      | Inr (t, r, keepLooping, s1) \<Rightarrow>
          if keepLooping
          then (case thinking_loop s1 of
                  Inl p \<Rightarrow> Inl p
                | Inr (t', r', s2) \<Rightarrow> Inr (t @ t', r @ r', s2))
          else Inr (t, r, s1))"
  by pat_completeness auto
termination
  by (relation "measure (\<lambda>s. thinking_rank (tp_state s))") (auto intro: thinking_eat_rank)

declare thinking_loop.simps [simp del]

definition thinking_AddContent ::
  "thinking_parser \<Rightarrow> string \<Rightarrow> go_panic + (string \<times> string \<times> thinking_parser)" where
  "thinking_AddContent s content = thinking_loop (s\<lparr>tp_acc := tp_acc s @ content\<rparr>)"

definition new_thinking_parser :: "string \<Rightarrow> string \<Rightarrow> thinking_parser" where
  "new_thinking_parser open close =
     \<lparr>tp_state = LookingForOpening, OpeningTag = open, ClosingTag = close, tp_acc = []\<rparr>"

section \<open>What one call computes\<close>

text \<open>
  The loop unrolled: what \<^verbatim>\<open>AddContent\<close> returns and stores, phase by phase, for
  an accumulator \<open>x\<close>.  \<open>out\<close> packs thinking, content and the parser after the call.
\<close>

definition phase_done :: "thinking_parser \<Rightarrow> string \<Rightarrow> string \<times> string \<times> thinking_parser" where
  "phase_done s x = ([], x, s\<lparr>tp_state := ThinkingDone, tp_acc := []\<rparr>)"

definition phase_done_eating ::
  "thinking_parser \<Rightarrow> string \<Rightarrow> string \<times> string \<times> thinking_parser" where
  "phase_done_eating s x =
     ([], trim_left x,
      s\<lparr>tp_acc := [],
        tp_state := (if trim_left x = [] then ThinkingDoneEatingWhitespace else ThinkingDone)\<rparr>)"

definition phase_thinking ::
  "thinking_parser \<Rightarrow> string \<Rightarrow> string \<times> string \<times> thinking_parser" where
  "phase_thinking s x =
     (case index_of (ClosingTag s) x of
        Some i \<Rightarrow>
          (let (t, r, s') = phase_done_eating s (drop (i + length (ClosingTag s)) x)
           in (take i x, r, s'))
      | None \<Rightarrow> (unheld x (ClosingTag s), [],
                 s\<lparr>tp_state := Thinking, tp_acc := held x (ClosingTag s)\<rparr>))"

definition phase_started ::
  "thinking_parser \<Rightarrow> string \<Rightarrow> string \<times> string \<times> thinking_parser" where
  "phase_started s x =
     (if trim_left x = []
      then ([], [], s\<lparr>tp_state := ThinkingStartedEatingWhitespace, tp_acc := []\<rparr>)
      else phase_thinking s (trim_left x))"

definition phase_looking ::
  "thinking_parser \<Rightarrow> string \<Rightarrow> string \<times> string \<times> thinking_parser" where
  "phase_looking s x =
     (let t = trim_left x in
      if prefix (OpeningTag s) t then phase_started s (drop (length (OpeningTag s)) t)
      else if prefix t (OpeningTag s) then ([], [], s\<lparr>tp_state := LookingForOpening, tp_acc := x\<rparr>)
      else phase_done s x)"

definition thinking_phase ::
  "thinking_parser \<Rightarrow> string \<Rightarrow> string \<times> string \<times> thinking_parser" where
  "thinking_phase s x =
     (case tp_state s of
        LookingForOpening \<Rightarrow> phase_looking s x
      | ThinkingStartedEatingWhitespace \<Rightarrow> phase_started s x
      | Thinking \<Rightarrow> phase_thinking s x
      | ThinkingDoneEatingWhitespace \<Rightarrow> phase_done_eating s x
      | ThinkingDone \<Rightarrow> phase_done s x)"

definition tags_nonempty :: "thinking_parser \<Rightarrow> bool" where
  "tags_nonempty s \<longleftrightarrow> OpeningTag s \<noteq> [] \<and> ClosingTag s \<noteq> []"

lemma loop_done: "tp_state s = ThinkingDone \<Longrightarrow> thinking_loop s = Inr (phase_done s (tp_acc s))"
  by (subst thinking_loop.simps) (simp add: thinking_eat_def phase_done_def Let_def)

lemma loop_done_eating:
  "tp_state s = ThinkingDoneEatingWhitespace \<Longrightarrow>
   thinking_loop s = Inr (phase_done_eating s (tp_acc s))"
  by (subst thinking_loop.simps) (auto simp: thinking_eat_def phase_done_eating_def Let_def)

lemma loop_thinking:
  assumes "tp_state s = Thinking" and "ClosingTag s \<noteq> []"
  shows "thinking_loop s = Inr (phase_thinking s (tp_acc s))"
proof (cases "index_of (ClosingTag s) (tp_acc s)")
  case None
  with assms show ?thesis
    by (subst thinking_loop.simps)
       (simp add: thinking_eat_def phase_thinking_def Let_def held_def unheld_def)
next
  case (Some i)
  note sp = split_head_tail[OF assms(2) Some]
  from sp(1) have "join (split_on (ClosingTag s) (drop (i + length (ClosingTag s)) (tp_acc s)))
      (ClosingTag s) = drop (i + length (ClosingTag s)) (tp_acc s)"
    using assms(2) by (simp add: join_split)
  with sp(1) assms Some show ?thesis
    by (subst thinking_loop.simps)
       (simp add: thinking_eat_def phase_thinking_def phase_done_eating_def Let_def)
qed

lemma phase_upd_state [simp]:
  "phase_thinking (s\<lparr>tp_state := st\<rparr>) x = phase_thinking s x"
  "phase_started (s\<lparr>tp_state := st\<rparr>) x = phase_started s x"
  "phase_looking (s\<lparr>tp_state := st\<rparr>) x = phase_looking s x"
  "phase_done_eating (s\<lparr>tp_state := st\<rparr>) x = phase_done_eating s x"
  "phase_done (s\<lparr>tp_state := st\<rparr>) x = phase_done s x"
  by (auto simp: phase_thinking_def phase_started_def phase_done_eating_def phase_done_def
      phase_looking_def Let_def split: option.splits)

lemma phase_upd_acc [simp]:
  "phase_thinking (s\<lparr>tp_acc := a\<rparr>) x = phase_thinking s x"
  "phase_started (s\<lparr>tp_acc := a\<rparr>) x = phase_started s x"
  "phase_looking (s\<lparr>tp_acc := a\<rparr>) x = phase_looking s x"
  "phase_done_eating (s\<lparr>tp_acc := a\<rparr>) x = phase_done_eating s x"
  "phase_done (s\<lparr>tp_acc := a\<rparr>) x = phase_done s x"
  by (auto simp: phase_thinking_def phase_started_def phase_done_eating_def phase_done_def
      phase_looking_def Let_def split: option.splits)

lemma loop_started:
  assumes "tp_state s = ThinkingStartedEatingWhitespace" and "ClosingTag s \<noteq> []"
  shows "thinking_loop s = Inr (phase_started s (tp_acc s))"
proof (cases "trim_left (tp_acc s) = []")
  case True
  with assms show ?thesis
    by (subst thinking_loop.simps) (simp add: thinking_eat_def phase_started_def)
next
  case False
  let ?s = "s\<lparr>tp_state := Thinking, tp_acc := trim_left (tp_acc s)\<rparr>"
  have "thinking_loop ?s = Inr (phase_thinking s (trim_left (tp_acc s)))"
    using loop_thinking[of ?s] assms(2) by simp
  with False assms show ?thesis
    by (subst thinking_loop.simps) (simp add: thinking_eat_def phase_started_def split: prod.splits)
qed

lemma loop_looking:
  assumes "tp_state s = LookingForOpening" and "tags_nonempty s"
  shows "thinking_loop s = Inr (phase_looking s (tp_acc s))"
proof -
  let ?O = "OpeningTag s" and ?t = "trim_left (tp_acc s)"
  have ne: "?O \<noteq> []" "ClosingTag s \<noteq> []" using assms(2) by (simp_all add: tags_nonempty_def)
  show ?thesis
  proof (cases "prefix ?O ?t")
    case False
    with assms show ?thesis
      by (subst thinking_loop.simps)
         (auto simp: thinking_eat_def phase_looking_def phase_done_def Let_def)
  next
    case True
    then have i: "index_of ?O ?t = Some 0" by simp
    let ?after = "trim_left (drop (length ?O) ?t)"
    let ?st = "if ?after = [] then ThinkingStartedEatingWhitespace else Thinking"
    let ?s = "s\<lparr>tp_acc := ?after, tp_state := ?st\<rparr>"
    have sp: "split_on ?O ?t = [] # split_on ?O (drop (length ?O) ?t)"
      using split_head_tail(1)[OF ne(1) i] by simp
    have eat: "thinking_eat s = Inr ([], [], True, ?s)"
      using assms(1) True sp ne(1) by (simp add: thinking_eat_def Let_def join_split)
    have "thinking_loop ?s = Inr (phase_started s (drop (length ?O) ?t))"
    proof (cases "?after = []")
      case True
      then show ?thesis
        using loop_started[of ?s] ne(2) by (simp add: phase_started_def)
    next
      case False
      then show ?thesis
        using loop_thinking[of ?s] ne(2) by (simp add: phase_started_def phase_thinking_def
            phase_done_eating_def Let_def split: option.splits)
    qed
    with eat True show ?thesis
      by (subst thinking_loop.simps) (simp add: phase_looking_def split: prod.splits)
  qed
qed

lemma thinking_loop_phase:
  assumes "tags_nonempty s"
  shows "thinking_loop s = Inr (thinking_phase s (tp_acc s))"
  using assms loop_looking loop_started loop_thinking loop_done_eating loop_done
  by (cases "tp_state s") (simp_all add: thinking_phase_def tags_nonempty_def)

lemma thinking_AddContent_phase:
  assumes "tags_nonempty s"
  shows "thinking_AddContent s c = Inr (thinking_phase s (tp_acc s @ c))"
  using assms thinking_loop_phase[of "s\<lparr>tp_acc := tp_acc s @ c\<rparr>"]
  by (simp add: thinking_AddContent_def tags_nonempty_def thinking_phase_def
      split: thinkingState.splits)

section \<open>Chunking does not matter\<close>

text \<open>
  The tags end in an ASCII byte, as the tags of every template do, so that the
  byte after a tag starts a rune.
\<close>

definition ascii_end :: "string \<Rightarrow> bool" where
  "ascii_end tag \<longleftrightarrow> tag \<noteq> [] \<and> byte_val (last tag) < 0x80"

lemma ascii_end_nonempty: "ascii_end tag \<Longrightarrow> tag \<noteq> []"
  by (simp add: ascii_end_def)

lemma whole_runes_after_tag:
  assumes "whole_runes y" and "index_of tag (h @ y) = Some i" and "ascii_end tag"
    and "length h < i + length tag"
  shows "whole_runes (drop (i + length tag) (h @ y))"
proof -
  obtain tg c where t: "tag = tg @ [c]" and c: "byte_val c < 0x80"
    using assms(3) by (metis append_butlast_last_id ascii_end_def)
  let ?R = "drop (i + length tag) (h @ y)" and ?P = "take i (h @ y) @ tg"
  have "take i (h @ y) @ tag @ ?R = h @ y"
    by (rule index_of_decomp[OF assms(2), symmetric])
  then have eq: "?P @ (c # ?R) = h @ y"
    by (metis append.assoc append_Cons append_Nil t)
  have "i \<le> length (h @ y)" using index_of_le[OF assms(2)] by simp
  then have "length h \<le> length ?P" using assms(4) unfolding t by simp
  then obtain zs where "y = zs @ (c # ?R)"
    using eq by (metis append_eq_split)
  with assms(1) c show ?thesis by (metis whole_runes_after_ascii)
qed

text \<open>One call on tags that are not empty, and the joined result of two calls.\<close>

definition thinking_feed ::
  "thinking_parser \<Rightarrow> string \<Rightarrow> string \<times> string \<times> thinking_parser" where
  "thinking_feed s c = thinking_phase s (tp_acc s @ c)"

definition out_app ::
  "string \<times> string \<Rightarrow> string \<times> string \<times> thinking_parser \<Rightarrow> string \<times> string \<times> thinking_parser" where
  "out_app o1 res = (fst o1 @ fst res, snd o1 @ fst (snd res), snd (snd res))"

lemma phase_done_eating_append:
  assumes "whole_runes x" and "phase_done_eating s x = (t, r, s')"
  shows "phase_done_eating s (x @ y) = out_app (t, r) (thinking_feed s' y)"
  using assms
  by (auto simp: phase_done_eating_def thinking_feed_def thinking_phase_def trim_left_append phase_done_def out_app_def)

lemma phase_thinking_append:
  assumes "ascii_end (ClosingTag s)" and "whole_runes y" and "index_of (ClosingTag s) h = None"
    and "phase_thinking s (h @ y) = (t, r, s')"
  shows "phase_thinking s (h @ y @ z) = out_app (t, r) (thinking_feed s' z)"
proof (cases "index_of (ClosingTag s) (h @ y)")
  case None
  let ?C = "ClosingTag s" and ?h = "held (h @ y) (ClosingTag s)"
  have s': "t = unheld (h @ y) ?C" "r = []" "s' = s\<lparr>tp_state := Thinking, tp_acc := ?h\<rparr>"
    using assms(4) None by (auto simp: phase_thinking_def)
  note ix = index_of_append_unheld[OF None, of z]
  show ?thesis
  proof (cases "index_of ?C (?h @ z)")
    case None
    with ix have "index_of ?C (h @ y @ z) = None" by simp
    with None show ?thesis
      using unheld_append[of "h @ y" z ?C] held_append[of "h @ y" z ?C]
      by (simp add: s' phase_thinking_def thinking_feed_def thinking_phase_def out_app_def)
  next
    case (Some i)
    let ?u = "unheld (h @ y) ?C"
    from ix Some have i': "index_of ?C (h @ y @ z) = Some (length ?u + i)" by simp
    have e: "h @ y @ z = ?u @ ?h @ z" by (metis append_assoc unheld_held)
    have "take (length ?u + i) (h @ y @ z) = ?u @ take i (?h @ z)"
      and "drop (length ?u + i + length ?C) (h @ y @ z) = drop (i + length ?C) (?h @ z)"
      unfolding e by (simp_all add: add.assoc)
    with i' Some show ?thesis
      by (simp add: s' phase_thinking_def thinking_feed_def thinking_phase_def out_app_def phase_done_eating_def)
  qed
next
  case (Some i)
  let ?C = "ClosingTag s" and ?r = "drop (i + length (ClosingTag s)) (h @ y)"
  have "\<not> i + length ?C \<le> length h"
  proof
    assume a: "i + length ?C \<le> length h"
    have "prefix ?C (drop i (h @ y))" using index_of_SomeD[OF Some] by blast
    then have "prefix ?C (drop i h @ y)" using a by simp
    then have "prefix ?C (drop i h)" using a by (simp add: prefix_take_iff)
    with assms(3) show False using index_of_NoneD by blast
  qed
  then have w: "whole_runes ?r"
    using whole_runes_after_tag[OF assms(2) Some assms(1)] by simp
  have sz: "index_of ?C (h @ y @ z) = Some i"
    using index_of_append_same[OF Some, of z] by simp
  obtain r0 s0 where d: "phase_done_eating s ?r = ([], r0, s0)"
    by (simp add: phase_done_eating_def)
  have res: "t = take i (h @ y)" "r = r0" "s' = s0"
    using assms(4) Some d by (simp_all add: phase_thinking_def)
  have le: "i + length ?C \<le> length (h @ y)" by (rule index_of_le[OF Some])
  then have dr: "drop (i + length ?C) (h @ y @ z) = ?r @ z"
    and tk: "take i (h @ y @ z) = take i (h @ y)" by simp_all
  have "phase_thinking s (h @ y @ z) =
      (let (t, r, s') = phase_done_eating s (?r @ z) in (take i (h @ y), r, s'))"
    by (simp only: phase_thinking_def sz option.case dr tk)
  moreover have "fst (thinking_feed s0 z) = []"
    using d by (auto simp: phase_done_eating_def thinking_feed_def thinking_phase_def phase_done_def)
  ultimately show ?thesis
    using phase_done_eating_append[OF w d, of z] unfolding res
    by (simp add: out_app_def)
qed

lemma phase_started_append:
  assumes "ascii_end (ClosingTag s)" and "whole_runes x"
    and "phase_started s x = (t, r, s')"
  shows "phase_started s (x @ z) = out_app (t, r) (thinking_feed s' z)"
proof (cases "trim_left x = []")
  case True
  with assms show ?thesis
    by (auto simp: phase_started_def trim_left_append thinking_feed_def thinking_phase_def out_app_def)
next
  case False
  have "index_of (ClosingTag s) [] = None"
    using assms(1) by (simp add: index_of_Nil ascii_end_def)
  with False assms phase_thinking_append[of s "trim_left x" "[]" t r s' z] show ?thesis
    by (simp add: phase_started_def trim_left_append whole_runes_trim_left)
qed

lemma phase_looking_append:
  assumes "ascii_end (ClosingTag s)" and "ascii_end (OpeningTag s)" and "whole_runes x"
    and "phase_looking s x = (t, r, s')"
  shows "phase_looking s (x @ z) = out_app (t, r) (thinking_feed s' z)"
proof -
  let ?O = "OpeningTag s" and ?t = "trim_left x"
  have wt: "whole_runes ?t" using assms(3) by (rule whole_runes_trim_left)
  consider "prefix ?O ?t" | "\<not> prefix ?O ?t" "prefix ?t ?O" | "\<not> prefix ?O ?t" "\<not> prefix ?t ?O"
    by blast
  then show ?thesis
  proof cases
    case 1
    have ne: "?O \<noteq> []" using assms(2) by (rule ascii_end_nonempty)
    with 1 have tne: "?t \<noteq> []" by auto
    have le: "length ?O \<le> length ?t" using 1 by (rule prefix_length_le)
    have "whole_runes (drop (0 + length ?O) ([] @ ?t))"
      by (rule whole_runes_after_tag[OF wt _ assms(2)]) (use 1 ne in auto)
    then have w: "whole_runes (drop (length ?O) ?t)" by simp
    from 1 tne le assms(3,4) phase_started_append[OF assms(1) w, of t r s' z] show ?thesis
      by (auto simp: phase_looking_def trim_left_append prefix_prefix)
  next
    case 2
    with assms(4) have "t = []" "r = []" "s' = s\<lparr>tp_state := LookingForOpening, tp_acc := x\<rparr>"
      by (simp_all add: phase_looking_def)
    then show ?thesis by (simp add: thinking_feed_def thinking_phase_def out_app_def)
  next
    case 3
    then have tne: "?t \<noteq> []" by auto
    have "\<not> prefix ?O (?t @ z)" using 3 by (meson prefixI prefix_same_cases)
    moreover have "\<not> prefix (?t @ z) ?O" using 3 by (metis append_prefixD)
    ultimately show ?thesis
      using 3 tne assms(3,4)
      by (auto simp: phase_looking_def trim_left_append thinking_feed_def thinking_phase_def
          phase_done_def out_app_def)
  qed
qed

text \<open>What the accumulator holds between two calls.\<close>

definition thinking_inv :: "thinking_parser \<Rightarrow> bool" where
  "thinking_inv s \<longleftrightarrow>
     ascii_end (OpeningTag s) \<and> ascii_end (ClosingTag s) \<and>
     (case tp_state s of
        LookingForOpening \<Rightarrow> whole_runes (tp_acc s)
      | Thinking \<Rightarrow> index_of (ClosingTag s) (tp_acc s) = None
      | _ \<Rightarrow> tp_acc s = [])"

lemma thinking_inv_tags: "thinking_inv s \<Longrightarrow> tags_nonempty s"
  by (simp add: thinking_inv_def tags_nonempty_def ascii_end_def)

lemma held_no_tag:
  assumes "index_of d x = None"
  shows "index_of d (held x d) = None"
  using index_of_append_unheld[OF assms, of "[]"] assms by simp

lemma thinking_phase_inv:
  assumes "thinking_inv s" and "whole_runes c" and "thinking_feed s c = (t, r, s')"
  shows "thinking_inv s'"
  using assms
  by (auto simp: thinking_inv_def thinking_feed_def thinking_phase_def phase_looking_def
      phase_started_def phase_thinking_def phase_done_eating_def phase_done_def Let_def
      held_no_tag whole_runes_append split: thinkingState.splits if_splits option.splits)

lemma thinking_feed_append:
  assumes "thinking_inv s" and "whole_runes c" and "thinking_feed s c = (t, r, s')"
  shows "thinking_feed s (c @ d) = out_app (t, r) (thinking_feed s' d)"
proof (cases "tp_state s")
  case LookingForOpening
  with assms phase_looking_append[of s "tp_acc s @ c" t r s' d] show ?thesis
    by (simp add: thinking_inv_def thinking_feed_def thinking_phase_def whole_runes_append)
next
  case ThinkingStartedEatingWhitespace
  with assms phase_started_append[of s c t r s' d] show ?thesis
    by (simp add: thinking_inv_def thinking_feed_def thinking_phase_def)
next
  case Thinking
  with assms phase_thinking_append[of s c "tp_acc s" t r s' d] show ?thesis
    by (simp add: thinking_inv_def thinking_feed_def thinking_phase_def)
next
  case ThinkingDoneEatingWhitespace
  with assms phase_done_eating_append[of c s t r s' d] show ?thesis
    by (simp add: thinking_inv_def thinking_feed_def thinking_phase_def)
next
  case ThinkingDone
  with assms show ?thesis
    by (auto simp: thinking_inv_def thinking_feed_def thinking_phase_def phase_done_def out_app_def)
qed

section \<open>The contract of a chunked parser\<close>

definition thinking_step :: "thinking_parser \<Rightarrow> string \<Rightarrow> (string \<times> string) \<times> thinking_parser" where
  "thinking_step s c = (let (t, r, s') = thinking_feed s c in ((t, r), s'))"

interpretation thinking_chunks: chunked thinking_step pair_app "([], [])" thinking_inv whole_runes
proof unfold_locales
  fix s c d
  assume "thinking_inv s" and "whole_runes c" and "whole_runes d"
  then show "thinking_step s (c @ d) =
      (pair_app (fst (thinking_step s c)) (fst (thinking_step (snd (thinking_step s c)) d)),
       snd (thinking_step (snd (thinking_step s c)) d))"
    using thinking_feed_append[of s c "fst (thinking_feed s c)" "fst (snd (thinking_feed s c))"
        "snd (snd (thinking_feed s c))" d]
    by (simp add: thinking_step_def pair_app_def out_app_def split: prod.splits)
qed (auto simp: pair_app_def thinking_step_def whole_runes_append split: prod.splits
     intro: thinking_phase_inv)

text \<open>A response read chunk by chunk: the calls a server makes while a model streams.\<close>

fun thinking_run :: "thinking_parser \<Rightarrow> string list \<Rightarrow> go_panic + (string \<times> string \<times> thinking_parser)" where
  "thinking_run s [] = Inr ([], [], s)"
| "thinking_run s (c # cs) =
     (case thinking_AddContent s c of
        Inl p \<Rightarrow> Inl p
      | Inr (t, r, s1) \<Rightarrow>
          (case thinking_run s1 cs of
             Inl p \<Rightarrow> Inl p
           | Inr (t', r', s2) \<Rightarrow> Inr (t @ t', r @ r', s2)))"

lemma thinking_AddContent_feed: "tags_nonempty s \<Longrightarrow> thinking_AddContent s c = Inr (thinking_feed s c)"
  by (simp add: thinking_AddContent_phase thinking_feed_def)

lemma thinking_run_feed_all:
  assumes "thinking_inv s" and "\<forall>c \<in> set cs. whole_runes c"
  shows "thinking_run s cs =
    (let ((t, r), s') = feed_all thinking_step pair_app ([], []) s cs in Inr (t, r, s'))"
  using assms
proof (induction cs arbitrary: s)
  case Nil
  then show ?case by simp
next
  case (Cons c cs)
  obtain t r s1 where f: "thinking_feed s c = (t, r, s1)" by (metis prod_cases3)
  have "thinking_inv s1" using thinking_phase_inv[OF Cons.prems(1) _ f] Cons.prems(2) by simp
  with Cons f show ?case
    using thinking_AddContent_feed[OF thinking_inv_tags[OF Cons.prems(1)], of c]
    by (simp add: thinking_step_def pair_app_def split: prod.splits)
qed

lemma thinking_inv_new:
  "ascii_end open \<Longrightarrow> ascii_end close \<Longrightarrow> thinking_inv (new_thinking_parser open close)"
  by (simp add: thinking_inv_def new_thinking_parser_def)

lemma thinking_run_concat:
  assumes "thinking_inv s" and "\<forall>c \<in> set (c # cs). whole_runes c"
  shows "thinking_run s (c # cs) = thinking_AddContent s (concat (c # cs))"
proof -
  have "thinking_run s (c # cs) =
      (let ((t, r), s') = thinking_step s (c @ concat cs) in Inr (t, r, s'))"
    using thinking_run_feed_all[OF assms] thinking_chunks.feed_all_concat[of s c cs] assms by simp
  then show ?thesis
    using thinking_AddContent_feed[OF thinking_inv_tags[OF assms(1)]]
    by (simp add: thinking_step_def split: prod.splits)
qed

section \<open>Properties\<close>

text \<open>
  The result of streaming does not depend on how the model output was cut:
  for tags that end in an ASCII byte and chunks that do not end inside a UTF-8
  rune, reading the chunks one by one gives the same thinking, the same content
  and the same parser state as one call on their concatenation.
\<close>

theorem thinking_chunking_irrelevant:
  assumes "ascii_end open" and "ascii_end close" and "\<forall>c \<in> set cs. whole_runes c"
  shows "thinking_run (new_thinking_parser open close) cs =
         thinking_AddContent (new_thinking_parser open close) (concat cs)"
proof (cases cs)
  case Nil
  have "tags_nonempty (new_thinking_parser open close)"
    using thinking_inv_tags[OF thinking_inv_new[OF assms(1,2)]] .
  with Nil assms(1) show ?thesis
    by (simp add: thinking_AddContent_feed thinking_feed_def thinking_phase_def phase_looking_def
        new_thinking_parser_def ascii_end_def)
next
  case (Cons c cs')
  with assms thinking_run_concat[OF thinking_inv_new[OF assms(1,2)]] show ?thesis by simp
qed

theorem thinking_chunking_irrelevant_witness:
  "thinking_run (new_thinking_parser ''<t>'' ''</t>'') ['' <'', ''t> a<'', ''/t'', ''> b''] =
   thinking_AddContent (new_thinking_parser ''<t>'' ''</t>'') '' <t> a</t> b''"
  using thinking_chunking_irrelevant[of "''<t>''" "''</t>''" "['' <'', ''t> a<'', ''/t'', ''> b'']"]
  by (simp add: ascii_end_def ascii_whole_runes)

text \<open>White space, and tags that neither start with it nor end inside a rune.\<close>

definition blank :: "string \<Rightarrow> bool" where
  "blank w \<longleftrightarrow> whole_runes w \<and> trim_left w = []"

definition solid :: "string \<Rightarrow> bool" where
  "solid w \<longleftrightarrow> w \<noteq> [] \<and> whole_runes w \<and> trim_left w = w"

lemma trim_left_blank: "blank w \<Longrightarrow> trim_left (w @ x) = trim_left x"
  by (simp add: blank_def trim_left_append)

lemma trim_left_solid: "solid w \<Longrightarrow> trim_left (w @ x) = w @ x"
  by (simp add: solid_def trim_left_append)

text \<open>
  C2. A well-formed response is separated exactly: white space, the opening
  tag, white space, thinking, the closing tag, white space, answer.  Read in any
  chunks of whole runes it yields the thinking and the answer, with the white
  space around the tags removed, and leaves nothing in the accumulator.
\<close>

theorem thinking_separates_response:
  assumes "solid open" and "ascii_end open" and "ascii_end close"
    and "blank w1" and "blank w2" and "blank w3" and "solid thoughts" and "trim_left answer = answer"
    and "index_of close (thoughts @ close @ w3 @ answer) = Some (length thoughts)"
    and "concat cs = w1 @ open @ w2 @ thoughts @ close @ w3 @ answer"
    and "\<forall>c \<in> set cs. whole_runes c"
  shows "\<exists>s. thinking_run (new_thinking_parser open close) cs = Inr (thoughts, answer, s) \<and> tp_acc s = []"
proof -
  let ?p = "new_thinking_parser open close"
  have tags: "tags_nonempty ?p" by (intro thinking_inv_tags thinking_inv_new assms)
  have "phase_looking ?p (concat cs) = phase_thinking ?p (thoughts @ close @ w3 @ answer)"
    using assms(1,4,5,7) unfolding assms(10)
    by (simp add: phase_looking_def phase_started_def trim_left_blank trim_left_solid
        new_thinking_parser_def solid_def)
  also have "\<dots> = (thoughts, answer, ?p\<lparr>tp_acc := [],
      tp_state := (if answer = [] then ThinkingDoneEatingWhitespace else ThinkingDone)\<rparr>)"
    using assms(6,8,9)
    by (simp add: phase_thinking_def phase_done_eating_def trim_left_blank new_thinking_parser_def)
  finally show ?thesis
    unfolding thinking_chunking_irrelevant[OF assms(2,3,11)] thinking_AddContent_feed[OF tags]
    by (simp add: thinking_feed_def thinking_phase_def new_thinking_parser_def)
qed

theorem thinking_separates_response_witness:
  "\<exists>s. thinking_run (new_thinking_parser ''<t>'' ''</t>'') ['' <t'', ''> a<'', ''/t> '', ''b''] =
       Inr (''a'', ''b'', s) \<and> tp_acc s = []"
  by (rule thinking_separates_response[where ?w1.0 = "'' ''" and ?w2.0 = "'' ''" and ?w3.0 = "'' ''"])
     (simp_all add: ascii_end_def solid_def blank_def ascii_whole_runes trim_left_ascii is_space_def
       index_of.simps)

text \<open>
  A response that skips thinking is passed on untouched: as soon as its first
  bytes after white space cannot become the opening tag, everything, leading white
  space included, is content, whatever the chunks.
\<close>

theorem thinking_skipped_untouched:
  assumes "ascii_end open" and "ascii_end close" and "\<forall>c \<in> set cs. whole_runes c"
    and "\<not> prefix open (trim_left (concat cs))" and "\<not> prefix (trim_left (concat cs)) open"
  shows "\<exists>s. thinking_run (new_thinking_parser open close) cs = Inr ([], concat cs, s) \<and> tp_acc s = []"
proof -
  have tags: "tags_nonempty (new_thinking_parser open close)"
    by (intro thinking_inv_tags thinking_inv_new assms)
  show ?thesis
    unfolding thinking_chunking_irrelevant[OF assms(1-3)] thinking_AddContent_feed[OF tags]
    using assms(4,5)
    by (simp add: thinking_feed_def thinking_phase_def phase_looking_def phase_done_def
        new_thinking_parser_def)
qed

theorem thinking_skipped_untouched_witness:
  "\<exists>s. thinking_run (new_thinking_parser ''<t>'' ''</t>'') ['' <'', ''b> hi''] =
       Inr ([], '' <b> hi'', s) \<and> tp_acc s = []"
  using thinking_skipped_untouched[of "''<t>''" "''</t>''" "['' <'', ''b> hi'']"]
  by (simp add: ascii_end_def ascii_whole_runes trim_left_ascii is_space_def)

text \<open>
  \<^verbatim>\<open>AddContent\<close> returns, without a panic, in every state of a parser whose
  tags are not empty; with an empty opening tag the very first call on an empty
  chunk panics, slicing an empty list of pieces.
\<close>

theorem thinking_panics_only_on_empty_tags:
  "(\<forall>s c. OpeningTag s \<noteq> [] \<and> ClosingTag s \<noteq> [] \<longrightarrow>
      (\<exists>t r s'. thinking_AddContent s c = Inr (t, r, s'))) \<and>
   thinking_AddContent (new_thinking_parser [] close) [] = Inl SliceOutOfRange"
proof
  show "\<forall>s c. OpeningTag s \<noteq> [] \<and> ClosingTag s \<noteq> [] \<longrightarrow>
      (\<exists>t r s'. thinking_AddContent s c = Inr (t, r, s'))"
    by (metis prod_cases3 tags_nonempty_def thinking_AddContent_feed)
  show "thinking_AddContent (new_thinking_parser [] close) [] = Inl SliceOutOfRange"
    by (simp add: thinking_AddContent_def new_thinking_parser_def thinking_loop.simps
        thinking_eat_def split_on.simps explode_runes.simps)
qed

theorem thinking_panics_only_on_empty_tags_witness:
  "(\<exists>t r s'. thinking_AddContent (new_thinking_parser ''<t>'' ''</t>'') ''x'' = Inr (t, r, s')) \<and>
   thinking_AddContent (new_thinking_parser [] ''</t>'') [] = Inl SliceOutOfRange"
  using thinking_panics_only_on_empty_tags[of "''</t>''"]
  by (simp add: new_thinking_parser_def)

end
