(* ===== verification/GoRunes.thy ===== *)
theory GoRunes
  imports GoStrings
begin

text \<open>
  Runes and their UTF-8 encoding: \<^verbatim>\<open>utf8.ValidString\<close>, the runes of a string as \<^verbatim>\<open>range\<close> gives
  them, and how \<^verbatim>\<open>strings.Builder.WriteRune\<close> and \<^verbatim>\<open>string([]rune)\<close> write them.
\<close>

section \<open>Valid strings\<close>

function valid_utf8 :: "string \<Rightarrow> bool" where
  "valid_utf8 s =
     (if s = [] then True
      else if decode_rune s = (rune_error, 1) then False
      else valid_utf8 (drop (snd (decode_rune s)) s))"
  by pat_completeness auto
termination
  by (relation "measure length") auto

declare valid_utf8.simps [simp del]

lemma valid_utf8_Nil [simp]: "valid_utf8 []"
  by (subst valid_utf8.simps) simp

lemma valid_utf8D:
  "valid_utf8 s \<Longrightarrow> s \<noteq> [] \<Longrightarrow>
   decode_rune s \<noteq> (rune_error, 1) \<and> valid_utf8 (drop (snd (decode_rune s)) s)"
  by (simp add: valid_utf8.simps[of s] split: if_splits)

lemma decode_ok_full_rune:
  assumes "s \<noteq> []" and "decode_rune s \<noteq> (rune_error, 1)"
  shows "full_rune s"
proof -
  obtain c0 s' where s: "s = c0 # s'" using assms by (cases s) auto
  consider "seq_len (byte_val c0) = 0" | "seq_len (byte_val c0) = 1" | "seq_len (byte_val c0) = 2"
    | "seq_len (byte_val c0) = 3" | "seq_len (byte_val c0) = 4"
    using seq_len_cases[of "byte_val c0"] by auto
  then show ?thesis
    using assms unfolding s
    by cases (auto simp: decode_rune_def full_rune_def Let_def split: list.splits if_splits)
qed

lemma valid_utf8_whole_runes: "valid_utf8 s \<Longrightarrow> whole_runes s"
proof (induction s rule: whole_runes.induct)
  case (1 s)
  then show ?case
    by (cases "s = []") (auto simp: whole_runes.simps[of s] decode_ok_full_rune dest: valid_utf8D)
qed


section \<open>Encoding\<close>

definition valid_rune :: "nat \<Rightarrow> bool" where
  "valid_rune r \<longleftrightarrow> r < 0xD800 \<or> 0xDFFF < r \<and> r \<le> 0x10FFFF"

text \<open>\<^verbatim>\<open>utf8.RuneLen\<close> of a valid rune.\<close>

definition rune_len :: "nat \<Rightarrow> nat" where
  "rune_len r = (if r < 0x80 then 1 else if r < 0x800 then 2 else if r < 0x10000 then 3 else 4)"

definition encode_rune :: "nat \<Rightarrow> string" where
  "encode_rune r =
     (if r < 0x80 then [char_of r]
      else if r < 0x800 then [char_of (0xC0 + r div 64), char_of (0x80 + r mod 64)]
      else if \<not> valid_rune r then [char_of (0xEF :: nat), char_of (0xBF :: nat), char_of (0xBD :: nat)]
      else if r < 0x10000
      then [char_of (0xE0 + r div 4096), char_of (0x80 + r div 64 mod 64), char_of (0x80 + r mod 64)]
      else [char_of (0xF0 + r div 262144), char_of (0x80 + r div 4096 mod 64), char_of (0x80 + r div 64 mod 64),
            char_of (0x80 + r mod 64)])"

lemma encode_rune_nonempty [simp]: "encode_rune r \<noteq> []"
  by (simp add: encode_rune_def)

lemma length_encode_rune: "valid_rune r \<Longrightarrow> length (encode_rune r) = rune_len r"
  by (simp add: encode_rune_def rune_len_def)

lemma byte_val_char_of: "n < 256 \<Longrightarrow> byte_val (char_of n) = n"
  by simp

lemma div_mod_sum: "r = r div 64 * 64 + r mod 64" "r div 64 = r div 4096 * 64 + r div 64 mod 64"
    "r div 4096 = r div 262144 * 64 + r div 4096 mod 64"
  for r :: nat
  using div_mult2_eq[of r 64 64] div_mult2_eq[of r 4096 64] div_mult_mod_eq[of r 64] div_mult_mod_eq[of "r div 64" 64]
    div_mult_mod_eq[of "r div 4096" 64]
  by (simp_all add: mult.commute)

lemma decode_encode_rune:
  assumes "valid_rune r"
  shows "decode_rune (encode_rune r @ t) = (r, rune_len r)"
proof -
  consider (1) "r < 0x80" | (2) "0x80 \<le> r" "r < 0x800" | (3) "0x800 \<le> r" "r < 0x10000" | (4) "0x10000 \<le> r" "r \<le> 0x10FFFF"
    using assms unfolding valid_rune_def by linarith
  then show ?thesis
  proof cases
    case 1
    then show ?thesis by (simp add: encode_rune_def rune_len_def decode_rune_ascii)
  next
    case 2
    let ?x = "0xC0 + r div 64" and ?a = "0x80 + r mod 64"
    have b: "0xC2 \<le> ?x" "?x < 0xE0" "?a \<le> 0xBF" using 2 by linarith+
    then have s: "seq_len ?x = 2" "is_second ?x ?a" by (simp_all add: seq_len_def is_second_def accept_lo_def accept_hi_def)
    have "rune2 ?x ?a = r div 64 * 64 + r mod 64" by (simp add: rune2_def)
    then have "rune2 ?x ?a = r" by simp
    with b s 2 show ?thesis by (simp add: encode_rune_def rune_len_def decode_rune_def)
  next
    case 3
    let ?x = "0xE0 + r div 4096" and ?a = "0x80 + r div 64 mod 64" and ?b = "0x80 + r mod 64"
    have b: "?x < 0xF0" "?a \<le> 0xBF" "?b \<le> 0xBF" "is_cont ?b" using 3 unfolding is_cont_def by linarith+
    have lo: "0xA0 \<le> ?a" if "?x = 0xE0" using that 3 div_mod_sum(2)[of r] by linarith
    have hi: "?a \<le> 0x9F" if "?x = 0xED" using that 3 assms div_mod_sum(2)[of r] unfolding valid_rune_def by linarith
    have s: "seq_len ?x = 3" "is_second ?x ?a" using b lo hi
      by (auto simp: seq_len_def is_second_def accept_lo_def accept_hi_def)
    have "rune3 ?x ?a ?b = r div 4096 * 4096 + r div 64 mod 64 * 64 + r mod 64" by (simp add: rune3_def)
    also have "\<dots> = r" using div_mod_sum(1,2)[of r] by linarith
    finally have "rune3 ?x ?a ?b = r" .
    with b s 3 assms show ?thesis by (simp add: encode_rune_def rune_len_def decode_rune_def)
  next
    case 4
    let ?x = "0xF0 + r div 262144" and ?a = "0x80 + r div 4096 mod 64" and ?b = "0x80 + r div 64 mod 64" and ?c = "0x80 + r mod 64"
    have b: "?x < 0xF5" "?a \<le> 0xBF" "?b \<le> 0xBF" "?c \<le> 0xBF" "is_cont ?b" "is_cont ?c" using 4 unfolding is_cont_def by linarith+
    have lo: "0x90 \<le> ?a" if "?x = 0xF0" using that 4 div_mod_sum(3)[of r] by linarith
    have hi: "?a \<le> 0x8F" if "?x = 0xF4" using that 4 div_mod_sum(3)[of r] by linarith
    have s: "seq_len ?x = 4" "is_second ?x ?a" using b lo hi
      by (auto simp: seq_len_def is_second_def accept_lo_def accept_hi_def)
    have "rune4 ?x ?a ?b ?c = r div 262144 * 262144 + r div 4096 mod 64 * 4096 + r div 64 mod 64 * 64 + r mod 64"
      by (simp add: rune4_def)
    also have "\<dots> = r" using div_mod_sum[of r] by linarith
    finally have "rune4 ?x ?a ?b ?c = r" .
    with b s 4 assms show ?thesis by (simp add: encode_rune_def rune_len_def decode_rune_def)
  qed
qed

lemma decode_rune_ranges:
  assumes "decode_rune s = (r, w)" and "s \<noteq> []" and "(r, w) \<noteq> (rune_error, 1)"
  shows "w = 1 \<and> r < 0x80 \<or> w = 2 \<and> 0x80 \<le> r \<and> r < 0x800 \<or>
    w = 3 \<and> 0x800 \<le> r \<and> r < 0x10000 \<and> (r < 0xD800 \<or> 0xDFFF < r) \<or> w = 4 \<and> 0x10000 \<le> r \<and> r \<le> 0x10FFFF"
proof -
  have r2: "0x80 \<le> rune2 x a \<and> rune2 x a < 0x800" if "seq_len x = 2" "is_second x a" for x a
    using that by (auto simp: seq_len_def is_second_def accept_lo_def accept_hi_def rune2_def split: if_splits)
  have r3: "0x800 \<le> rune3 x a b \<and> rune3 x a b < 0x10000 \<and> (rune3 x a b < 0xD800 \<or> 0xDFFF < rune3 x a b)"
    if "seq_len x = 3" "is_second x a" "is_cont b" for x a b
    using that by (auto simp: seq_len_def is_second_def accept_lo_def accept_hi_def is_cont_def rune3_def split: if_splits)
  have r4: "0x10000 \<le> rune4 x a b c \<and> rune4 x a b c \<le> 0x10FFFF" if "seq_len x = 4" "is_second x a" "is_cont b" "is_cont c" for x a b c
    using that by (auto simp: seq_len_def is_second_def accept_lo_def accept_hi_def is_cont_def rune4_def split: if_splits)
  have one: "x < 0x80" if "seq_len x = 1" for x using that by (simp add: seq_len_def split: if_splits)
  obtain c0 t where s: "s = c0 # t" using assms(2) by (cases s) auto
  let ?x = "byte_val c0"
  consider "seq_len ?x = 1" | "seq_len ?x = 2" | "seq_len ?x = 3" | "seq_len ?x = 4" | "seq_len ?x \<notin> {1, 2, 3, 4}"
    by blast
  then show ?thesis
  proof cases
    case 1
    with assms(1) one show ?thesis by (simp add: s decode_rune_def Let_def)
  next
    case 2
    with assms(1,3) obtain c1 t' where "t = c1 # t'" by (cases t) (auto simp: s decode_rune_def Let_def)
    with 2 assms(1,3) r2[OF 2, of "byte_val c1"] show ?thesis by (simp add: s decode_rune_def Let_def split: if_splits)
  next
    case 3
    with assms(1,3) obtain c1 c2 t' where "t = c1 # c2 # t'"
      by (simp add: s decode_rune_def Let_def split: list.splits)
    with 3 assms(1,3) r3[OF 3, of "byte_val c1" "byte_val c2"] show ?thesis
      by (simp add: s decode_rune_def Let_def split: if_splits)
  next
    case 4
    with assms(1,3) obtain c1 c2 c3 t' where "t = c1 # c2 # c3 # t'"
      by (simp add: s decode_rune_def Let_def split: list.splits)
    with 4 assms(1,3) r4[OF 4, of "byte_val c1" "byte_val c2" "byte_val c3"] show ?thesis
      by (simp add: s decode_rune_def Let_def split: if_splits)
  next
    case 5
    with assms(1,3) show ?thesis by (simp add: s decode_rune_def Let_def)
  qed
qed

lemma decode_rune_valid:
  assumes "decode_rune s = (r, w)"
  shows "valid_rune r" and "s \<noteq> [] \<Longrightarrow> (r, w) \<noteq> (rune_error, 1) \<Longrightarrow> rune_len r = w"
proof -
  have e: "valid_rune rune_error" by (simp add: valid_rune_def rune_error_def)
  show "valid_rune r"
  proof (cases "s = [] \<or> (r, w) = (rune_error, 1)")
    case True
    with assms e show ?thesis by auto
  next
    case False
    with decode_rune_ranges[OF assms] show ?thesis by (auto simp: valid_rune_def)
  qed
  show "rune_len r = w" if "s \<noteq> []" "(r, w) \<noteq> (rune_error, 1)"
    using decode_rune_ranges[OF assms that] by (auto simp: rune_len_def)
qed

section \<open>The runes of a string\<close>

text \<open>The runes that \<^verbatim>\<open>range\<close> gives; a byte that is no part of a rune counts as U+FFFD.\<close>

function runes_of :: "string \<Rightarrow> nat list" where
  "runes_of s = (if s = [] then [] else fst (decode_rune s) # runes_of (drop (snd (decode_rune s)) s))"
  by pat_completeness auto
termination
  by (relation "measure length") auto

declare runes_of.simps [simp del]

lemma runes_of_Nil [simp]: "runes_of [] = []"
  by (subst runes_of.simps) simp

lemma runes_of_append: "whole_runes a \<Longrightarrow> runes_of (a @ b) = runes_of a @ runes_of b"
proof (induction a rule: runes_of.induct)
  case (1 a)
  show ?case
  proof (cases "a = []")
    case False
    note w = whole_runesD[OF "1.prems" False]
    then have d: "decode_rune (a @ b) = decode_rune a" using full_rune_decode_append by blast
    have "snd (decode_rune a) \<le> length a" using decode_rune_width[OF False] by (metis prod.collapse)
    then show ?thesis using "1.IH"[OF False] w False d
      by (simp add: runes_of.simps[of "a @ b"] runes_of.simps[of a])
  qed simp
qed

lemma runes_of_valid: "r \<in> set (runes_of s) \<Longrightarrow> valid_rune r"
proof (induction s rule: runes_of.induct)
  case (1 s)
  then show ?case
    using decode_rune_valid(1)[of s "fst (decode_rune s)" "snd (decode_rune s)"]
    by (cases "s = []") (auto simp: runes_of.simps[of s])
qed

lemma full_encode_rune:
  assumes "valid_rune r"
  shows "full_rune (encode_rune r)" and "whole_runes (encode_rune r)"
proof -
  have d: "decode_rune (encode_rune r) = (r, length (encode_rune r))"
    using decode_encode_rune[OF assms, of "[]"] length_encode_rune[OF assms] by simp
  moreover have "(r, length (encode_rune r)) \<noteq> (rune_error, 1)"
    using length_encode_rune[OF assms] by (simp add: rune_len_def rune_error_def)
  ultimately show f: "full_rune (encode_rune r)" by (intro decode_ok_full_rune) simp_all
  show "whole_runes (encode_rune r)" using f d by (subst whole_runes.simps) simp
qed

lemma runes_of_encode: "\<forall>r \<in> set rs. valid_rune r \<Longrightarrow> runes_of (concat (map encode_rune rs)) = rs"
proof (induction rs)
  case (Cons r rs)
  have "runes_of (encode_rune r) = [r]"
    using decode_encode_rune[of r "[]"] length_encode_rune[of r] Cons.prems by (subst runes_of.simps) simp
  with Cons full_encode_rune[of r] show ?case by (simp add: runes_of_append)
qed simp

lemma valid_utf8_encode: "\<forall>r \<in> set rs. valid_rune r \<Longrightarrow> valid_utf8 (concat (map encode_rune rs))"
proof (induction rs)
  case (Cons r rs)
  have "(r, rune_len r) \<noteq> (rune_error, 1)" by (simp add: rune_len_def rune_error_def)
  with Cons show ?case
    using decode_encode_rune[of r "concat (map encode_rune rs)"] length_encode_rune[of r]
    by (subst valid_utf8.simps) simp
qed simp

end
