(* ===== verification/Utf8Buffer.thy ===== *)
theory Utf8Buffer
  imports GoRunes
begin

text \<open>
  \<^verbatim>\<open>mlxrunner/utf8_buffer.go\<close>: detokenised bytes are buffered until they form whole
  UTF-8 runes, and the longest such prefix is flushed as text.  The lemmas show that
  what is flushed never ends inside a rune, which is the assumption under which the
  streaming parsers downstream do not depend on chunk boundaries.
\<close>

section \<open>Operations\<close>

text \<open>The loop of \<^verbatim>\<open>validUTF8PrefixLen\<close>, with its two counters.\<close>

function valid_prefix_loop :: "string \<Rightarrow> nat \<Rightarrow> nat \<Rightarrow> nat" where
  "valid_prefix_loop data i pre =
     (if i < length data then
        (let (r, size) = decode_rune (drop i data) in
         if r = rune_error \<and> size = 1 then
           (if \<not> full_rune (drop i data) then pre
            else valid_prefix_loop data (i + 1) (i + 1))
         else valid_prefix_loop data (i + size) (i + size))
      else pre)"
  by pat_completeness auto
termination
proof (relation "measure (\<lambda>(data, i, pre). length data - i)", goal_cases)
  case (3 data i pre x y z)
  then have "0 < z" using decode_rune_width_pos[of "drop i data"] by (metis drop_eq_Nil2 linorder_not_less snd_conv)
  with 3 show ?case by simp
qed auto

declare valid_prefix_loop.simps [simp del]

definition validUTF8PrefixLen :: "string \<Rightarrow> nat" where
  "validUTF8PrefixLen data = valid_prefix_loop data 0 0"

text \<open>\<^verbatim>\<open>flushValidUTF8Prefix\<close>: the text returned and the buffer after it.\<close>

definition flushValidUTF8Prefix :: "string \<Rightarrow> string \<times> string" where
  "flushValidUTF8Prefix b =
     (if b = [] then ([], b)
      else (let pre = validUTF8PrefixLen b in
            if pre = 0 then ([], b) else (take pre b, drop pre b)))"

section \<open>What is flushed\<close>

text \<open>The same length, counted from the left.\<close>

function prefix_len :: "string \<Rightarrow> nat" where
  "prefix_len s =
     (if s = [] then 0
      else if full_rune s
        then snd (decode_rune s) + prefix_len (drop (snd (decode_rune s)) s)
      else 0)"
  by pat_completeness auto
termination
  by (relation "measure length") auto

declare prefix_len.simps [simp del]

lemma valid_prefix_loop_len:
  "valid_prefix_loop data i i = i + prefix_len (drop i data)"
proof (induction "length data - i" arbitrary: i rule: less_induct)
  case less
  let ?d = "drop i data"
  show ?case
  proof (cases "i < length data")
    case False
    then show ?thesis by (simp add: valid_prefix_loop.simps prefix_len.simps)
  next
    case True
    then have ne: "?d \<noteq> []" by simp
    obtain r w where d: "decode_rune ?d = (r, w)" by fastforce
    have w: "0 < w" using decode_rune_width_pos[OF ne] d by simp
    have dd: "drop w ?d = drop (i + w) data" by (simp add: add.commute)
    show ?thesis
    proof (cases "full_rune ?d")
      case full: True
      have "valid_prefix_loop data i i = valid_prefix_loop data (i + w) (i + w)"
        using True d full by (subst valid_prefix_loop.simps) (auto simp: Let_def)
      also have "\<dots> = i + w + prefix_len (drop (i + w) data)"
        using less.hyps[of "i + w"] True w by simp
      finally show ?thesis
        using ne full d dd by (simp add: prefix_len.simps[of ?d] add.assoc)
    next
      case nfull: False
      then have "decode_rune ?d = (rune_error, 1)"
        using decode_ok_full_rune[OF ne] by blast
      then show ?thesis
        using True nfull ne by (simp add: valid_prefix_loop.simps[of data i] prefix_len.simps[of ?d])
    qed
  qed
qed

lemma validUTF8PrefixLen_eq: "validUTF8PrefixLen data = prefix_len data"
  using valid_prefix_loop_len[of data 0] by (simp add: validUTF8PrefixLen_def)

lemma prefix_len_Nil [simp]: "prefix_len [] = 0"
  by (subst prefix_len.simps) simp

lemma prefix_len_le: "prefix_len s \<le> length s"
proof (induction s rule: prefix_len.induct)
  case (1 s)
  show ?case
  proof (cases "s \<noteq> [] \<and> full_rune s")
    case True
    then have "snd (decode_rune s) \<le> length s"
      using decode_rune_width[of s] by (metis prod.collapse)
    with True 1 show ?thesis by (simp add: prefix_len.simps[of s])
  next
    case False
    then show ?thesis by (auto simp: prefix_len.simps[of s])
  qed
qed

lemma flush_eq:
  "flushValidUTF8Prefix b = (take (prefix_len b) b, drop (prefix_len b) b)"
  by (auto simp: flushValidUTF8Prefix_def validUTF8PrefixLen_eq Let_def)

lemma rest_not_full: "\<not> full_rune (drop (prefix_len s) s)"
proof (induction s rule: prefix_len.induct)
  case (1 s)
  show ?case
  proof (cases "s \<noteq> [] \<and> full_rune s")
    case True
    with 1 show ?thesis by (simp add: prefix_len.simps[of s] add.commute)
  next
    case False
    then show ?thesis by (auto simp: prefix_len.simps[of s])
  qed
qed

lemma not_full_rune_short: "\<not> full_rune s \<Longrightarrow> length s < 4"
proof (cases s)
  case (Cons c t)
  assume "\<not> full_rune s"
  with Cons seq_len_cases[of "byte_val c"] show ?thesis
    by (auto simp: full_rune_def Let_def Suc_le_eq split: if_splits list.splits)
qed simp

section \<open>Valid streams\<close>

lemma valid_utf8_prefix_len:
  "valid_utf8 (x @ f) \<Longrightarrow>
   whole_runes (take (prefix_len x) x) \<and> valid_utf8 (drop (prefix_len x) x @ f)"
proof (induction x rule: prefix_len.induct)
  case (1 x)
  show ?case
  proof (cases "x \<noteq> [] \<and> full_rune x")
    case False
    with "1.prems" show ?thesis by (auto simp: prefix_len.simps[of x])
  next
    case True
    let ?w = "snd (decode_rune x)"
    have d: "decode_rune (x @ f) = decode_rune x" using True full_rune_decode_append by blast
    with valid_utf8D[OF "1.prems"] True
    have ok: "decode_rune x \<noteq> (rune_error, 1)" and v: "valid_utf8 (drop ?w (x @ f))" by simp_all
    have w: "1 \<le> ?w \<and> ?w \<le> length x"
      using decode_rune_width[of x] True by (metis prod.collapse)
    have IH: "whole_runes (take (prefix_len (drop ?w x)) (drop ?w x))"
      "valid_utf8 (drop (prefix_len (drop ?w x)) (drop ?w x) @ f)"
      using "1.IH" True v w by auto
    have dt: "decode_rune (take ?w x) = decode_rune x"
      using decode_rune_take[of x "fst (decode_rune x)" ?w] ok by simp
    have "take ?w x \<noteq> []" using True w by auto
    then have ft: "full_rune (take ?w x)" using dt ok decode_ok_full_rune by metis
    have "whole_runes (take ?w x)"
      using ft dt w by (simp add: whole_runes.simps[of "take ?w x"] min_def)
    then have "whole_runes (take ?w x @ take (prefix_len (drop ?w x)) (drop ?w x))"
      using IH(1) by (rule whole_runes_append)
    moreover have "prefix_len x = ?w + prefix_len (drop ?w x)"
      using True by (simp add: prefix_len.simps[of x])
    ultimately show ?thesis
      using IH(2) by (simp add: take_add add.commute)
  qed
qed

text \<open>The tokens of a response pushed one by one, a flush after each.\<close>

fun flush_stream :: "string \<Rightarrow> string list \<Rightarrow> string list \<times> string" where
  "flush_stream b [] = ([], b)"
| "flush_stream b (c # cs) =
     (let (text, b1) = flushValidUTF8Prefix (b @ c); (texts, b2) = flush_stream b1 cs
      in (text # texts, b2))"

lemma flush_stream_conserves:
  "flush_stream b cs = (texts, b') \<Longrightarrow> concat texts @ b' = b @ concat cs"
proof (induction cs arbitrary: b texts b')
  case Nil
  then show ?case by simp
next
  case (Cons c cs)
  let ?n = "prefix_len (b @ c)"
  obtain ts b2 where f: "flush_stream (drop ?n (b @ c)) cs = (ts, b2)" by fastforce
  have r: "texts = take ?n (b @ c) # ts" "b' = b2"
    using Cons.prems f by (simp_all add: flush_eq del: drop_append take_append)
  have "concat texts @ b' = take ?n (b @ c) @ (concat ts @ b2)" unfolding r by simp
  also have "\<dots> = b @ concat (c # cs)"
    unfolding Cons.IH[OF f] by (metis append.assoc append_take_drop_id concat.simps(2))
  finally show ?case .
qed

lemma flush_stream_whole:
  "valid_utf8 (b @ concat cs @ f) \<Longrightarrow> flush_stream b cs = (texts, b') \<Longrightarrow>
   (\<forall>t \<in> set texts. whole_runes t) \<and> valid_utf8 (b' @ f)"
proof (induction cs arbitrary: b texts b')
  case Nil
  then show ?case by simp
next
  case (Cons c cs)
  let ?n = "prefix_len (b @ c)"
  have v: "whole_runes (take ?n (b @ c)) \<and> valid_utf8 (drop ?n (b @ c) @ concat cs @ f)"
    using Cons.prems(1) by (intro valid_utf8_prefix_len) simp
  with Cons.prems(2) Cons.IH[of "drop ?n (b @ c)"] show ?case
    by (auto simp: flush_eq Let_def split: prod.splits)
qed

section \<open>Properties\<close>

text \<open>
  A flush loses and reorders nothing: the text followed by the bytes left is
  the buffer, and what is left is a truncated rune of at most three bytes, so no
  byte waits longer than the rune it belongs to.
\<close>

theorem flush_keeps_only_truncated_rune:
  "\<exists>text rest. flushValidUTF8Prefix b = (text, rest) \<and> text @ rest = b \<and>
     length rest \<le> 3 \<and> \<not> full_rune rest"
  using not_full_rune_short[OF rest_not_full[of b]] rest_not_full[of b]
  by (simp add: flush_eq)

text \<open>
  On a valid UTF-8 response, however the tokens cut it, every flushed text ends
  between runes, the texts concatenate to the response, and nothing stays in the buffer.
\<close>

theorem flush_stream_valid:
  assumes "valid_utf8 (concat cs)"
  shows "\<exists>texts. flush_stream [] cs = (texts, []) \<and> (\<forall>t \<in> set texts. whole_runes t) \<and>
    concat texts = concat cs"
proof -
  obtain texts b where f: "flush_stream [] cs = (texts, b)" by fastforce
  have w: "(\<forall>t \<in> set texts. whole_runes t) \<and> valid_utf8 b"
    using flush_stream_whole[of "[]" cs "[]" texts b] assms f by simp
  have "b = []"
  proof (cases "cs = []")
    case True
    with f show ?thesis by simp
  next
    case False
    have "\<not> full_rune b"
      using f False
    proof (induction cs arbitrary: texts b rule: rev_induct)
      case Nil
      then show ?case by simp
    next
      case (snoc c cs)
      have "flush_stream b0 (cs @ [c]) = (ts, b1) \<Longrightarrow> \<not> full_rune b1" for b0 ts b1
        by (induction cs arbitrary: b0 ts)
           (auto simp: flush_eq rest_not_full Let_def simp del: drop_append split: prod.splits)
      with snoc.prems(1) show ?case by blast
    qed
    with w show ?thesis using valid_utf8D decode_ok_full_rune by blast
  qed
  with f w flush_stream_conserves[OF f] show ?thesis by simp
qed

theorem flush_stream_valid_witness:
  "\<exists>texts. flush_stream [] [''a'' @ [CHR 0xE2], [CHR 0x82], [CHR 0xAC]] = (texts, []) \<and>
     (\<forall>t \<in> set texts. whole_runes t) \<and> concat texts = ''a'' @ [CHR 0xE2, CHR 0x82, CHR 0xAC]"
  using flush_stream_valid[of "[''a'' @ [CHR 0xE2], [CHR 0x82], [CHR 0xAC]]"]
  by (simp add: valid_utf8.simps decode_rune_def seq_len_def is_second_def accept_lo_def accept_hi_def
      is_cont_def rune3_def rune_error_def)

end
