(* ===== verification/ApiTypes.thy ===== *)
theory ApiTypes
  imports GoStrings
begin

text \<open>
  The request and response types the parsers work on: \<^verbatim>\<open>ThinkValue\<close> and the
  thinking descriptor (\<^verbatim>\<open>types/model/thinking.go\<close>), and the parts of
  \<^verbatim>\<open>Message\<close>, \<^verbatim>\<open>Tool\<close> and \<^verbatim>\<open>ToolCall\<close> (\<^verbatim>\<open>api/types.go\<close>) the modelled code reads or
  builds.  Tool-call arguments are an ordered map from a third-party package, so
  their type is a parameter \<open>'args\<close> throughout.
\<close>

section \<open>Messages, tools and tool calls\<close>

record message =
  Role :: string
  Content :: string
  msg_Thinking :: string
  Images :: "nat list"

text \<open>The options a runner is loaded with.\<close>

record runner_options =
  NumCtx :: int
  NumBatch :: int
  NumGPU :: int
  MainGPU :: "int option"
  UseMMap :: "bool option"
  NumThread :: int
  DraftNumPredict :: int

record tool =
  tool_name :: string

record 'args tool_call =
  tc_index :: int
  tc_name :: string
  tc_args :: 'args

section \<open>Thinking values\<close>

text \<open>A value of Go type \<^verbatim>\<open>any\<close>, as far as the thinking code tells values apart.\<close>

datatype go_any = AnyNil | AnyBool bool | AnyString string | AnyOther

text \<open>\<^verbatim>\<open>*ThinkValue\<close>: \<^term>\<open>None\<close> is the nil pointer.\<close>

type_synonym think_value = "go_any option"

fun ThinkValue_IsValid :: "think_value \<Rightarrow> bool" where
  "ThinkValue_IsValid None = True"
| "ThinkValue_IsValid (Some AnyNil) = True"
| "ThinkValue_IsValid (Some (AnyBool b)) = True"
| "ThinkValue_IsValid (Some (AnyString s)) = True"
| "ThinkValue_IsValid (Some AnyOther) = False"

fun ThinkValue_IsBool :: "think_value \<Rightarrow> bool" where
  "ThinkValue_IsBool (Some (AnyBool b)) = True"
| "ThinkValue_IsBool _ = False"

fun ThinkValue_IsString :: "think_value \<Rightarrow> bool" where
  "ThinkValue_IsString (Some (AnyString s)) = True"
| "ThinkValue_IsString _ = False"

fun ThinkValue_Bool :: "think_value \<Rightarrow> bool" where
  "ThinkValue_Bool (Some (AnyBool b)) = b"
| "ThinkValue_Bool (Some (AnyString s)) = True"
| "ThinkValue_Bool _ = False"

fun ThinkValue_String :: "think_value \<Rightarrow> string" where
  "ThinkValue_String (Some (AnyString s)) = s"
| "ThinkValue_String (Some (AnyBool b)) = (if b then ''medium'' else [])"
| "ThinkValue_String _ = []"

text \<open>\<^verbatim>\<open>thinkValue != nil && thinkValue.Bool()\<close>, the test of every parser's \<^verbatim>\<open>Init\<close>.\<close>

abbreviation think_on :: "think_value \<Rightarrow> bool" where
  "think_on t \<equiv> t \<noteq> None \<and> ThinkValue_Bool t"

text \<open>The thinking descriptor; \<^term>\<open>None\<close> again stands for the nil pointer.\<close>

record thinking =
  Values :: "go_any list"
  Default :: go_any

fun Thinking_Supports :: "thinking option \<Rightarrow> go_any \<Rightarrow> bool" where
  "Thinking_Supports None value = False"
| "Thinking_Supports (Some t) value =
     (case value of
        AnyBool b \<Rightarrow> value \<in> set (Values t)
      | AnyString s \<Rightarrow> value \<in> set (Values t)
      | _ \<Rightarrow> False)"

text \<open>The loop of \<^verbatim>\<open>Valid\<close>; \<open>seen\<close> holds the values before the current one.\<close>

fun values_ok :: "go_any list \<Rightarrow> go_any list \<Rightarrow> bool" where
  "values_ok seen [] = True"
| "values_ok seen (v # vs) =
     (case v of
        AnyBool b \<Rightarrow> v \<notin> set seen \<and> values_ok (seen @ [v]) vs
      | AnyString s \<Rightarrow> s \<noteq> [] \<and> v \<notin> set seen \<and> values_ok (seen @ [v]) vs
      | _ \<Rightarrow> False)"

fun Thinking_Valid :: "thinking option \<Rightarrow> bool" where
  "Thinking_Valid None = False"
| "Thinking_Valid (Some t) =
     (if Values t = [] then False
      else if \<not> values_ok [] (Values t) then False
      else Thinking_Supports (Some t) (Default t))"

lemma values_ok_distinct:
  "values_ok seen vs \<Longrightarrow> distinct seen \<Longrightarrow>
   distinct (seen @ vs) \<and> (\<forall>v \<in> set vs. (\<exists>b. v = AnyBool b) \<or> (\<exists>s. s \<noteq> [] \<and> v = AnyString s))"
proof (induction vs arbitrary: seen)
  case Nil
  then show ?case by simp
next
  case (Cons v vs)
  then have "values_ok (seen @ [v]) vs" and "v \<notin> set seen"
    and "(\<exists>b. v = AnyBool b) \<or> (\<exists>s. s \<noteq> [] \<and> v = AnyString s)"
    by (auto split: go_any.splits)
  with Cons.IH[of "seen @ [v]"] Cons.prems(2) show ?case by auto
qed

lemma distinct_values_ok:
  "distinct (seen @ vs) \<Longrightarrow>
   \<forall>v \<in> set vs. (\<exists>b. v = AnyBool b) \<or> (\<exists>s. s \<noteq> [] \<and> v = AnyString s) \<Longrightarrow> values_ok seen vs"
  by (induction vs arbitrary: seen) (auto split: go_any.splits)

text \<open>
  A thinking descriptor is valid exactly when its values are non-empty
  and pairwise distinct, each a boolean or a non-empty name, and the default is one
  of them.
\<close>

theorem thinking_descriptor_valid_iff:
  "Thinking_Valid (Some t) \<longleftrightarrow>
     Values t \<noteq> [] \<and> distinct (Values t) \<and> Default t \<in> set (Values t) \<and>
     set (Values t) \<subseteq> range AnyBool \<union> {AnyString s | s. s \<noteq> []}"
proof -
  have "values_ok [] (Values t) \<longleftrightarrow>
      distinct (Values t) \<and> set (Values t) \<subseteq> range AnyBool \<union> {AnyString s | s. s \<noteq> []}"
  proof -
    have "set (Values t) \<subseteq> range AnyBool \<union> {AnyString s | s. s \<noteq> []} \<longleftrightarrow>
        (\<forall>v \<in> set (Values t). (\<exists>b. v = AnyBool b) \<or> (\<exists>s. s \<noteq> [] \<and> v = AnyString s))"
      by (auto simp: subset_iff)
    then show ?thesis
      using values_ok_distinct[of "[]" "Values t"] distinct_values_ok[of "[]" "Values t"] by auto
  qed
  then show ?thesis by (auto split: go_any.splits)
qed

end
