(* ===== verification/Harmony.thy ===== *)
theory Harmony
  imports StreamText ApiTypes
begin

text \<open>
  \<^verbatim>\<open>harmony/harmonyparser.go\<close>: the parser of the harmony message format, a stream of
  messages \<^verbatim>\<open><|start|>header<|message|>content<|end|>\<close>, and the handler that turns
  its events into content, thinking and tool calls.  The map between the user's and
  the model's function names is in \<^theory_text>\<open>HarmonyNames\<close>.
\<close>

section \<open>The event parser\<close>

datatype harmony_state = LookingForMessageStart | ParsingHeader | ParsingContent

record harmony_header =
  hdr_Role :: string
  Channel :: string
  Recipient :: string

datatype harmony_event =
    MessageStart
  | HeaderComplete harmony_header
  | ContentEmitted string
  | MessageEnd

record harmony_parser =
  hp_state :: harmony_state
  MessageStartTag :: string
  MessageEndTag :: string
  HeaderEndTag :: string
  hp_acc :: string
  lifetimeAcc :: string

definition new_harmony_parser :: harmony_parser where
  "new_harmony_parser =
     \<lparr>hp_state = LookingForMessageStart, MessageStartTag = ''<|start|>'', MessageEndTag = ''<|end|>'',
      HeaderEndTag = ''<|message|>'', hp_acc = [], lifetimeAcc = []\<rparr>"

definition AddImplicitStart :: "harmony_parser \<Rightarrow> harmony_parser" where
  "AddImplicitStart s = s\<lparr>hp_acc := hp_acc s @ ''<|start|>assistant''\<rparr>"

definition AddImplicitStartOrPrefill :: "harmony_parser \<Rightarrow> message option \<Rightarrow> harmony_parser" where
  "AddImplicitStartOrPrefill s lastMessage =
     (case lastMessage of
        Some m \<Rightarrow>
          if Role m = ''assistant'' \<and> Content m \<noteq> []
          then s\<lparr>hp_acc := hp_acc s @ ''<|start|>assistant<|channel|>final<|message|>''\<rparr>
          else if Role m = ''assistant'' \<and> msg_Thinking m \<noteq> []
          then s\<lparr>hp_acc := hp_acc s @ ''<|start|>assistant<|channel|>analysis<|message|>''\<rparr>
          else AddImplicitStart s
      | None \<Rightarrow> AddImplicitStart s)"

text \<open>
  \<^verbatim>\<open>parseHeader\<close>: a channel tag is cut out of the header first; then the first
  token is the role, and a token \<^verbatim>\<open>to=name\<close> in first or second place the recipient.
\<close>

definition parseHeader :: "string \<Rightarrow> harmony_header" where
  "parseHeader raw0 =
     (let raw1 = (if contains raw0 ''<|constrain|>''
                  then trim_space (replace_first raw0 ''<|constrain|>'' '' <|constrain|>'')
                  else raw0);
          (channel, raw2) =
            (case index_of ''<|channel|>'' raw1 of
               None \<Rightarrow> ([], raw1)
             | Some channelIndex \<Rightarrow>
                 (let before = take channelIndex raw1;
                      after = drop (channelIndex + length ''<|channel|>'') raw1;
                      idx = space_index after
                  in (take idx after, trim_space (before @ drop idx after))))
      in case go_fields raw2 of
           [] \<Rightarrow> \<lparr>hdr_Role = [], Channel = channel, Recipient = []\<rparr>
         | first # tokens \<Rightarrow>
             (let (role, recipient) =
                    (if prefix ''to='' first then (''tool'', drop 3 first) else (first, []));
                  recipient' =
                    (if recipient = [] \<and> tokens \<noteq> [] \<and> prefix ''to='' (hd tokens)
                     then drop 3 (hd tokens) else recipient)
              in \<lparr>hdr_Role = role, Channel = channel, Recipient = recipient'\<rparr>))"

definition harmony_eat ::
  "harmony_parser \<Rightarrow> harmony_event list \<times> bool \<times> harmony_parser" where
  "harmony_eat s =
     (case hp_state s of
        LookingForMessageStart \<Rightarrow>
          (case cut (hp_acc s) (MessageStartTag s) of
             (_, Some after) \<Rightarrow>
               ([MessageStart], True, s\<lparr>hp_acc := after, hp_state := ParsingHeader\<rparr>)
           | (_, None) \<Rightarrow> ([], False, s))
      | ParsingHeader \<Rightarrow>
          (case cut (hp_acc s) (HeaderEndTag s) of
             (header, Some after) \<Rightarrow>
               ([HeaderComplete (parseHeader header)], True,
                s\<lparr>hp_acc := after, hp_state := ParsingContent\<rparr>)
           | (_, None) \<Rightarrow> ([], False, s))
      | ParsingContent \<Rightarrow>
          (case cut (hp_acc s) (MessageEndTag s) of
             (content, Some after) \<Rightarrow>
               ((if content \<noteq> [] then [ContentEmitted content] else []) @ [MessageEnd], True,
                s\<lparr>hp_acc := after, hp_state := LookingForMessageStart\<rparr>)
           | (_, None) \<Rightarrow>
               (let acc = hp_acc s; overlapLen = overlap acc (MessageEndTag s) in
                if overlapLen > 0 then
                  (let content = take (length acc - overlapLen) acc;
                       s' = s\<lparr>hp_acc := drop (length acc - overlapLen) acc\<rparr>
                   in if content = [] then ([], False, s')
                      else ([ContentEmitted content], False, s'))
                else if acc = [] then ([], False, s)
                else ([ContentEmitted acc], False, s\<lparr>hp_acc := []\<rparr>))))"

text \<open>\<^verbatim>\<open>AddContent\<close>: the event loop over the accumulator.\<close>

definition harmony_AddContent ::
  "harmony_parser \<Rightarrow> string \<Rightarrow> (harmony_event list \<times> harmony_parser) option" where
  "harmony_AddContent s content =
     keep_looping harmony_eat
       (s\<lparr>lifetimeAcc := lifetimeAcc s @ content, hp_acc := hp_acc s @ content\<rparr>)"

text \<open>The tags a handler is built with; all the loop needs is that none is empty.\<close>

definition harmony_tags :: "harmony_parser \<Rightarrow> bool" where
  "harmony_tags s \<longleftrightarrow> MessageStartTag s \<noteq> [] \<and> MessageEndTag s \<noteq> [] \<and> HeaderEndTag s \<noteq> []"

lemma cut_Some:
  "cut s sep = (b, Some a) \<longleftrightarrow>
   (\<exists>i. index_of sep s = Some i \<and> b = take i s \<and> a = drop (i + length sep) s)"
  by (auto simp: cut_def split: option.splits)

lemma cut_None: "cut s sep = (b, None) \<longleftrightarrow> index_of sep s = None \<and> b = s"
  by (auto simp: cut_def split: option.splits)

lemma cut_shorter: "cut s sep = (b, Some a) \<Longrightarrow> sep \<noteq> [] \<Longrightarrow> length a < length s"
  using index_of_le[of sep s] by (cases sep) (auto simp: cut_Some)

interpretation harmony_loop: eater harmony_eat "\<lambda>s. length (hp_acc s)" harmony_tags
proof unfold_locales
  fix s evs s'
  assume "harmony_tags s" and "harmony_eat s = (evs, True, s')"
  then show "length (hp_acc s') < length (hp_acc s)"
    by (auto simp: harmony_eat_def harmony_tags_def Let_def dest: cut_shorter
        split: harmony_state.splits prod.splits option.splits if_splits)
next
  fix s evs more s'
  assume "harmony_tags s" and "harmony_eat s = (evs, more, s')"
  then show "harmony_tags s'"
    by (auto simp: harmony_eat_def harmony_tags_def Let_def
        split: harmony_state.splits prod.splits option.splits if_splits)
qed

section \<open>Transcripts\<close>

text \<open>
  How content is cut into \<^const>\<open>ContentEmitted\<close> events depends on the chunks; the
  transcript forgets the cuts and keeps the bytes and the other events in order.
\<close>

datatype harmony_atom = Mark harmony_event | Emit char

fun event_atoms :: "harmony_event \<Rightarrow> harmony_atom list" where
  "event_atoms (ContentEmitted c) = map Emit c"
| "event_atoms e = [Mark e]"

definition transcript :: "harmony_event list \<Rightarrow> harmony_atom list" where
  "transcript evs = concat (map event_atoms evs)"

lemma transcript_simps [simp]:
  "transcript [] = []"
  "transcript (e # es) = event_atoms e @ transcript es"
  "transcript (es @ fs) = transcript es @ transcript fs"
  by (simp_all add: transcript_def)

definition emit :: "string \<Rightarrow> harmony_event list" where
  "emit u = (if u = [] then [] else [ContentEmitted u])"

lemma transcript_emit [simp]: "transcript (emit u) = map Emit u"
  by (simp add: emit_def)

lemma eat_content_no_end:
  assumes "hp_state s = ParsingContent" and "index_of (MessageEndTag s) (hp_acc s) = None"
  shows "harmony_eat s =
    (emit (unheld (hp_acc s) (MessageEndTag s)), False,
     s\<lparr>hp_acc := held (hp_acc s) (MessageEndTag s)\<rparr>)"
  using assms by (auto simp: harmony_eat_def cut_def emit_def unheld_def held_def Let_def)

lemma eat_content_end:
  assumes "hp_state s = ParsingContent" and "index_of (MessageEndTag s) (hp_acc s) = Some i"
  shows "harmony_eat s =
    (emit (take i (hp_acc s)) @ [MessageEnd], True,
     s\<lparr>hp_acc := drop (i + length (MessageEndTag s)) (hp_acc s), hp_state := LookingForMessageStart\<rparr>)"
  using assms by (simp add: harmony_eat_def cut_def emit_def)

text \<open>Feeding more: the accumulator of \<open>s\<close> extended by \<open>y\<close>.\<close>

definition extend :: "harmony_parser \<Rightarrow> string \<Rightarrow> string \<Rightarrow> harmony_parser" where
  "extend s l y = s\<lparr>lifetimeAcc := l, hp_acc := hp_acc s @ y\<rparr>"

lemma extend_simps [simp]:
  "hp_state (extend s l y) = hp_state s" "hp_acc (extend s l y) = hp_acc s @ y"
  "MessageStartTag (extend s l y) = MessageStartTag s"
  "MessageEndTag (extend s l y) = MessageEndTag s" "HeaderEndTag (extend s l y) = HeaderEndTag s"
  "harmony_tags (extend s l y) = harmony_tags s"
  by (simp_all add: extend_def harmony_tags_def)

lemma cut_append_Some: "cut s sep = (b, Some a) \<Longrightarrow> cut (s @ y) sep = (b, Some (a @ y))"
proof -
  assume "cut s sep = (b, Some a)"
  then obtain i where i: "index_of sep s = Some i" "b = take i s" "a = drop (i + length sep) s"
    by (auto simp: cut_Some)
  with index_of_le[OF i(1)] index_of_append_same[OF i(1), of y] show ?thesis
    by (simp add: cut_Some)
qed

lemma eat_more_append:
  assumes "harmony_eat s = (evs, True, sn)"
  shows "harmony_eat (extend s l y) = (evs, True, extend sn l y)"
proof -
  obtain tag b a where c: "cut (hp_acc s) tag = (b, Some a)"
    and t: "tag = (case hp_state s of LookingForMessageStart \<Rightarrow> MessageStartTag s
        | ParsingHeader \<Rightarrow> HeaderEndTag s | ParsingContent \<Rightarrow> MessageEndTag s)"
    using assms
    by (cases "hp_state s")
       (auto simp: harmony_eat_def Let_def split: prod.splits option.splits if_splits)
  with cut_append_Some[OF c, of y] assms show ?thesis
    by (cases "hp_state s") (auto simp: harmony_eat_def extend_def)
qed

lemma eat_stop_append:
  assumes "harmony_eat s = (evs, False, sn)"
  shows "(evs = [] \<and> sn = s) \<or>
    (\<exists>es es' more r. harmony_eat (extend s l y) = (es, more, r) \<and>
       harmony_eat (extend sn l y) = (es', more, r) \<and>
       transcript es = transcript evs @ transcript es')"
proof (cases "hp_state s = ParsingContent")
  case False
  with assms show ?thesis
    by (cases "hp_state s") (auto simp: harmony_eat_def split: prod.splits option.splits)
next
  case content: True
  let ?d = "MessageEndTag s" and ?x = "hp_acc s"
  let ?u = "unheld ?x ?d" and ?h = "held ?x ?d"
  have none: "index_of ?d ?x = None"
    using assms content eat_content_end[of s] by (cases "index_of ?d ?x") auto
  with assms content have sn: "evs = emit ?u" "sn = s\<lparr>hp_acc := ?h\<rparr>"
    by (simp_all add: eat_content_no_end)
  note ix = index_of_append_unheld[OF none, of y]
  have st: "hp_state (extend s l y) = ParsingContent" "hp_state (extend sn l y) = ParsingContent"
    using content sn by simp_all
  show ?thesis
  proof (cases "index_of ?d (?h @ y)")
    case None
    with ix have nx: "index_of ?d (?x @ y) = None" by simp
    let ?r = "s\<lparr>lifetimeAcc := l, hp_acc := held (?h @ y) ?d\<rparr>"
    have "harmony_eat (extend s l y) = (emit (unheld (?x @ y) ?d), False, ?r)"
      using eat_content_no_end[OF st(1)] nx held_append[of ?x y ?d] by (simp add: extend_def)
    moreover have "harmony_eat (extend sn l y) = (emit (unheld (?h @ y) ?d), False, ?r)"
      using eat_content_no_end[OF st(2)] None by (simp add: sn extend_def)
    moreover have "transcript (emit (unheld (?x @ y) ?d)) =
        transcript evs @ transcript (emit (unheld (?h @ y) ?d))"
      using unheld_append[of ?x y ?d] by (simp add: sn)
    ultimately show ?thesis by blast
  next
    case (Some i)
    with ix have sx: "index_of ?d (?x @ y) = Some (length ?u + i)" by simp
    have e: "?x @ y = ?u @ ?h @ y" by (metis append_assoc unheld_held)
    have tk: "take (length ?u + i) (?x @ y) = ?u @ take i (?h @ y)"
      and dr: "drop (length ?u + i + length ?d) (?x @ y) = drop (i + length ?d) (?h @ y)"
      unfolding e by (simp_all add: add.assoc)
    let ?r = "s\<lparr>lifetimeAcc := l, hp_acc := drop (i + length ?d) (?h @ y),
        hp_state := LookingForMessageStart\<rparr>"
    have "harmony_eat (extend s l y) = (emit (?u @ take i (?h @ y)) @ [MessageEnd], True, ?r)"
      using eat_content_end[OF st(1), of "length ?u + i"] sx tk dr
      by (simp add: extend_def del: take_append drop_append)
    moreover have "harmony_eat (extend sn l y) = (emit (take i (?h @ y)) @ [MessageEnd], True, ?r)"
      using eat_content_end[OF st(2), of i] Some
      by (simp add: sn extend_def del: take_append drop_append)
    moreover have "transcript (emit (?u @ take i (?h @ y)) @ [MessageEnd]) =
        transcript evs @ transcript (emit (take i (?h @ y)) @ [MessageEnd])"
      by (simp add: sn)
    ultimately show ?thesis by blast
  qed
qed

lemma harmony_loop_append:
  assumes "harmony_tags s" and "keep_looping harmony_eat s = Some (e1, s1)"
    and "keep_looping harmony_eat (extend s1 l y) = Some (e2, s2)"
  shows "\<exists>e. keep_looping harmony_eat (extend s l y) = Some (e, s2) \<and>
    transcript e = transcript e1 @ transcript e2"
  using assms
proof (induction "length (hp_acc s)" arbitrary: s e1 rule: less_induct)
  case less
  obtain evs more sn where eat: "harmony_eat s = (evs, more, sn)" by (cases "harmony_eat s") auto
  have tags: "harmony_tags sn" using harmony_loop.ok_eat[OF less.prems(1) eat] .
  show ?case
  proof (cases more)
    case True
    have lt: "length (hp_acc sn) < length (hp_acc s)"
      using harmony_loop.progress[OF less.prems(1)] eat True by simp
    obtain e1' t where l1: "keep_looping harmony_eat sn = Some (e1', t)"
      using harmony_loop.loop_returns[OF tags] by blast
    with eat True less.prems(2) have e1: "e1 = evs @ e1'" "t = s1"
      using keep_looping_more[of harmony_eat s evs sn e1' t] by simp_all
    from less.hyps[OF lt tags] l1 e1 less.prems(3)
    obtain e where e: "keep_looping harmony_eat (extend sn l y) = Some (e, s2)"
      "transcript e = transcript e1' @ transcript e2" by blast
    have "keep_looping harmony_eat (extend s l y) = Some (evs @ e, s2)"
      using eat_more_append[of s evs sn l y] eat True e(1) by (intro keep_looping_more) simp
    with e(2) e1 show ?thesis by simp
  next
    case False
    with eat less.prems(2) have e1: "e1 = evs" "s1 = sn" by (simp_all add: keep_looping_stop)
    from eat_stop_append[of s evs sn l y] eat False consider "evs = []" "sn = s"
      | es es' more r where "harmony_eat (extend s l y) = (es, more, r)"
        "harmony_eat (extend sn l y) = (es', more, r)"
        "transcript es = transcript evs @ transcript es'" by auto
    then show ?thesis
    proof cases
      case 1
      with less.prems(3) e1 show ?thesis by simp
    next
      case 2
      have tr: "harmony_tags r" using harmony_loop.ok_eat[OF _ 2(2)] tags by simp
      obtain er t where lr: "keep_looping harmony_eat r = Some (er, t)"
        using harmony_loop.loop_returns[OF tr] by blast
      show ?thesis
      proof (cases more)
        case True
        with 2 lr have "keep_looping harmony_eat (extend s l y) = Some (es @ er, t)"
          and "keep_looping harmony_eat (extend sn l y) = Some (es' @ er, t)"
          by (auto intro: keep_looping_more)
        with less.prems(3) e1 2(3) show ?thesis by auto
      next
        case False
        with 2 have "keep_looping harmony_eat (extend s l y) = Some (es, r)"
          and "keep_looping harmony_eat (extend sn l y) = Some (es', r)"
          by (auto intro: keep_looping_stop)
        with less.prems(3) e1 2(3) show ?thesis by auto
      qed
    qed
  qed
qed

text \<open>The transcript of one call; the call always returns.\<close>

definition harmony_feed :: "harmony_parser \<Rightarrow> string \<Rightarrow> harmony_atom list \<times> harmony_parser" where
  "harmony_feed s c =
     (case harmony_AddContent s c of
        Some (evs, s') \<Rightarrow> (transcript evs, s')
      | None \<Rightarrow> ([], s))"

lemma AddContent_extend:
  "harmony_AddContent s c = keep_looping harmony_eat (extend s (lifetimeAcc s @ c) c)"
  by (simp add: harmony_AddContent_def extend_def)

lemma harmony_AddContent_returns:
  "harmony_tags s \<Longrightarrow> \<exists>evs s'. harmony_AddContent s c = Some (evs, s')"
  unfolding AddContent_extend by (rule harmony_loop.loop_returns) simp

lemma harmony_eat_lifetime: "harmony_eat s = (evs, again, s') \<Longrightarrow> lifetimeAcc s' = lifetimeAcc s"
  by (auto simp: harmony_eat_def Let_def split: harmony_state.splits prod.splits option.splits if_splits)

lemma harmony_AddContent_keeps:
  assumes "harmony_tags s" and "harmony_AddContent s c = Some (evs, s')"
  shows "harmony_tags s'" and "lifetimeAcc s' = lifetimeAcc s @ c"
proof -
  let ?s = "extend s (lifetimeAcc s @ c) c"
  have l: "keep_looping harmony_eat ?s = Some (evs, s')" and t: "harmony_tags ?s"
    using assms by (simp_all add: AddContent_extend)
  show "harmony_tags s'"
    by (rule harmony_loop.loop_invariant[OF l t, where P = harmony_tags])
       (use t in \<open>auto intro: harmony_loop.ok_eat\<close>)
  show "lifetimeAcc s' = lifetimeAcc s @ c"
    by (rule harmony_loop.loop_invariant[OF l t, where P = "\<lambda>s'. lifetimeAcc s' = lifetimeAcc s @ c"])
       (auto simp: extend_def dest: harmony_eat_lifetime)
qed

interpretation harmony_chunks: chunked harmony_feed "(@)" "[]" harmony_tags "\<lambda>_. True"
proof unfold_locales
  fix s c
  assume "harmony_tags s"
  then show "harmony_tags (snd (harmony_feed s c))"
    using harmony_AddContent_returns[of s c] harmony_AddContent_keeps(1)[of s c]
    by (auto simp: harmony_feed_def)
next
  fix s c d
  assume tags: "harmony_tags s"
  obtain e1 s1 where a1: "harmony_AddContent s c = Some (e1, s1)"
    using harmony_AddContent_returns[OF tags] by blast
  note k = harmony_AddContent_keeps[OF tags a1]
  obtain e2 s2 where a2: "harmony_AddContent s1 d = Some (e2, s2)"
    using harmony_AddContent_returns[OF k(1)] by blast
  have "\<exists>e. keep_looping harmony_eat (extend (extend s (lifetimeAcc s @ c) c) (lifetimeAcc s1 @ d) d) =
      Some (e, s2) \<and> transcript e = transcript e1 @ transcript e2"
    by (rule harmony_loop_append) (use a1 a2 tags in \<open>simp_all add: AddContent_extend\<close>)
  moreover have "extend (extend s (lifetimeAcc s @ c) c) (lifetimeAcc s1 @ d) d =
      extend s (lifetimeAcc s @ (c @ d)) (c @ d)"
    by (simp add: extend_def k(2))
  ultimately show "harmony_feed s (c @ d) =
      (fst (harmony_feed s c) @ fst (harmony_feed (snd (harmony_feed s c)) d),
       snd (harmony_feed (snd (harmony_feed s c)) d))"
    using a1 a2 by (auto simp: harmony_feed_def AddContent_extend)
qed simp_all

end
