(* ===== verification/HarmonyNames.thy ===== *)
theory HarmonyNames
  imports GoStrings
begin

text \<open>
  \<^verbatim>\<open>FunctionNameMap\<close> of \<^verbatim>\<open>harmony/harmonyparser.go\<close>: tool names are rewritten into
  identifiers the model was trained on, and mapped back when the model calls a tool.
  The tables behind \<^verbatim>\<open>unicode.IsLetter\<close> and \<^verbatim>\<open>unicode.IsDigit\<close> are the parameters
  \<open>is_letter\<close> and \<open>is_digit\<close>; \<open>ascii_letter\<close> and \<open>ascii_digit\<close> are their ASCII part.
\<close>

section \<open>Operations\<close>

record function_name_map =
  userToHarmony :: "string \<rightharpoonup> string"
  harmonyToUser :: "string \<rightharpoonup> string"

definition NewFunctionNameMap :: function_name_map where
  "NewFunctionNameMap = \<lparr>userToHarmony = Map.empty, harmonyToUser = Map.empty\<rparr>"

definition ascii_letter :: "nat \<Rightarrow> bool" where
  "ascii_letter r \<longleftrightarrow> (65 \<le> r \<and> r \<le> 90) \<or> (97 \<le> r \<and> r \<le> 122)"

definition ascii_digit :: "nat \<Rightarrow> bool" where
  "ascii_digit r \<longleftrightarrow> 48 \<le> r \<and> r \<le> 57"

text \<open>
  The mapper given to \<^verbatim>\<open>strings.Map\<close>, on one rune \<open>u\<close> of the name.  Invalid bytes
  reach it as the replacement rune, which is written out in full if it is kept.
\<close>

definition map_name_rune :: "(nat \<Rightarrow> bool) \<Rightarrow> (nat \<Rightarrow> bool) \<Rightarrow> string \<Rightarrow> string" where
  "map_name_rune is_letter is_digit u =
     (let r = fst (decode_rune u) in
      if r = 32 \<or> r = 45 \<or> r = 46 then ''_''
      else if is_letter r \<or> is_digit r \<or> r = 95 \<or> r = 36
        then (if decode_rune u = (rune_error, 1) then [CHR 0xEF, CHR 0xBF, CHR 0xBD] else u)
      else [])"

definition convertToValidChars :: "(nat \<Rightarrow> bool) \<Rightarrow> (nat \<Rightarrow> bool) \<Rightarrow> string \<Rightarrow> string" where
  "convertToValidChars is_letter is_digit userFunctionName =
     (let candidate = concat (map (map_name_rune is_letter is_digit) (explode_runes userFunctionName))
      in if candidate = [] then ''unnamed''
         else if is_digit (byte_val (hd candidate)) then ''_'' @ candidate
         else candidate)"

text \<open>The loop of \<^verbatim>\<open>deriveName\<close>: \<open>f\<close>, \<open>f_2\<close>, \<open>f_3\<close>, until a name is free.\<close>

partial_function (option) derive_loop ::
  "(string \<rightharpoonup> string) \<Rightarrow> string \<Rightarrow> string \<Rightarrow> nat \<Rightarrow> string option" where
  "derive_loop used originalCandidate candidate count =
     (if used candidate = None then Some candidate
      else derive_loop used originalCandidate (originalCandidate @ ''_'' @ show_nat count) (count + 1))"

definition deriveName ::
  "(nat \<Rightarrow> bool) \<Rightarrow> (nat \<Rightarrow> bool) \<Rightarrow> function_name_map \<Rightarrow> string \<Rightarrow> string option" where
  "deriveName is_letter is_digit m userFunctionName =
     (let c = convertToValidChars is_letter is_digit userFunctionName
      in derive_loop (harmonyToUser m) c c 2)"

definition builtin_functions :: "string list" where
  "builtin_functions = [''browser.open'', ''browser.search'', ''browser.find'', ''python'']"

definition ConvertAndAdd ::
  "(nat \<Rightarrow> bool) \<Rightarrow> (nat \<Rightarrow> bool) \<Rightarrow> function_name_map \<Rightarrow> string \<Rightarrow>
   (string \<times> function_name_map) option" where
  "ConvertAndAdd is_letter is_digit m userFunctionName =
     (case deriveName is_letter is_digit m userFunctionName of
        None \<Rightarrow> None
      | Some derived \<Rightarrow>
          (let name = (if userFunctionName \<in> set builtin_functions then userFunctionName else derived)
           in Some (name,
                m\<lparr>userToHarmony := (userToHarmony m)(userFunctionName \<mapsto> name),
                  harmonyToUser := (harmonyToUser m)(name \<mapsto> userFunctionName)\<rparr>)))"

definition OriginalFromConverted :: "function_name_map \<Rightarrow> string \<Rightarrow> string" where
  "OriginalFromConverted m harmonyFunctionName =
     (case harmonyToUser m harmonyFunctionName of
        Some userFunctionName \<Rightarrow> userFunctionName
      | None \<Rightarrow> harmonyFunctionName)"

text \<open>The renaming loop of \<^verbatim>\<open>Init\<close> over the tool names of a request.\<close>

fun convert_all ::
  "(nat \<Rightarrow> bool) \<Rightarrow> (nat \<Rightarrow> bool) \<Rightarrow> function_name_map \<Rightarrow> string list \<Rightarrow>
   (string list \<times> function_name_map) option" where
  "convert_all is_letter is_digit m [] = Some ([], m)"
| "convert_all is_letter is_digit m (u # us) =
     (if u = []
      then (case convert_all is_letter is_digit m us of
              None \<Rightarrow> None | Some (hs, m') \<Rightarrow> Some (u # hs, m'))
      else (case ConvertAndAdd is_letter is_digit m u of
              None \<Rightarrow> None
            | Some (h, m1) \<Rightarrow>
                (case convert_all is_letter is_digit m1 us of
                   None \<Rightarrow> None | Some (hs, m') \<Rightarrow> Some (h # hs, m'))))"

section \<open>The search for a free name ends\<close>

text \<open>
  The candidates are pairwise different, so only finitely many of them can be in
  use: the names tried from \<open>count\<close> on that are taken get fewer with every step.
\<close>

definition taken_from :: "(string \<rightharpoonup> string) \<Rightarrow> string \<Rightarrow> nat \<Rightarrow> nat set" where
  "taken_from used c count = {k. count \<le> k \<and> used (c @ ''_'' @ show_nat k) \<noteq> None}"

lemma finite_taken: "finite (dom used) \<Longrightarrow> finite (taken_from used c count)"
proof -
  assume fin: "finite (dom used)"
  have "(\<lambda>k. c @ ''_'' @ show_nat k) ` taken_from used c count \<subseteq> dom used"
    by (auto simp: taken_from_def)
  moreover have "inj_on (\<lambda>k. c @ ''_'' @ show_nat k) (taken_from used c count)"
    by (rule inj_onI) (auto dest: show_nat_inj)
  ultimately show ?thesis using fin by (meson finite_imageD finite_subset)
qed

lemma derive_loop_numbered:
  assumes "finite (dom used)"
  shows "\<exists>r. derive_loop used c (c @ ''_'' @ show_nat k) (k + 1) = Some r \<and> used r = None"
proof (induction "card (taken_from used c k)" arbitrary: k rule: less_induct)
  case less
  show ?case
  proof (cases "used (c @ ''_'' @ show_nat k)")
    case None
    then show ?thesis by (simp add: derive_loop.simps)
  next
    case (Some u)
    then have "k \<in> taken_from used c k" by (simp add: taken_from_def)
    moreover have "taken_from used c (k + 1) \<subseteq> taken_from used c k - {k}"
      by (auto simp: taken_from_def)
    ultimately have "card (taken_from used c (k + 1)) < card (taken_from used c k)"
      using finite_taken[OF assms] by (metis Diff_subset card_Diff1_less card_mono finite_Diff le_less_trans)
    from less[OF this] Some show ?thesis
      by (subst derive_loop.simps) simp
  qed
qed

lemma deriveName_free:
  assumes "finite (dom (harmonyToUser m))"
  shows "\<exists>r. deriveName is_letter is_digit m u = Some r \<and> harmonyToUser m r = None"
proof -
  let ?c = "convertToValidChars is_letter is_digit u"
  show ?thesis
  proof (cases "harmonyToUser m ?c")
    case None
    then show ?thesis by (simp add: deriveName_def derive_loop.simps)
  next
    case (Some x)
    with derive_loop_numbered[OF assms, of ?c 2] show ?thesis
      by (simp add: deriveName_def derive_loop.simps[of _ _ ?c] Let_def)
  qed
qed

lemma ConvertAndAdd_new:
  assumes "finite (dom (harmonyToUser m))"
  shows "\<exists>name m'. ConvertAndAdd is_letter is_digit m u = Some (name, m') \<and>
    harmonyToUser m' = (harmonyToUser m)(name \<mapsto> u) \<and> finite (dom (harmonyToUser m')) \<and>
    (u \<notin> set builtin_functions \<longrightarrow> harmonyToUser m name = None)"
proof -
  obtain r where "deriveName is_letter is_digit m u = Some r" "harmonyToUser m r = None"
    using deriveName_free[OF assms] by blast
  then show ?thesis
    using assms by (auto simp: ConvertAndAdd_def Let_def)
qed

section \<open>Names come back\<close>

definition no_builtins :: "string list \<Rightarrow> bool" where
  "no_builtins us \<longleftrightarrow> (\<forall>u \<in> set us. u \<noteq> [] \<and> u \<notin> set builtin_functions)"

lemma convert_all_maps:
  assumes "finite (dom (harmonyToUser m))" and "no_builtins us"
  shows "\<exists>hs m'. convert_all is_letter is_digit m us = Some (hs, m') \<and> length hs = length us \<and>
    distinct hs \<and> set hs \<inter> dom (harmonyToUser m) = {} \<and>
    (\<forall>h \<in> dom (harmonyToUser m). harmonyToUser m' h = harmonyToUser m h) \<and>
    (\<forall>i < length us. harmonyToUser m' (hs ! i) = Some (us ! i))"
  using assms
proof (induction us arbitrary: m)
  case Nil
  then show ?case by simp
next
  case (Cons u us)
  then have u: "u \<noteq> []" "u \<notin> set builtin_functions" and us: "no_builtins us"
    by (simp_all add: no_builtins_def)
  obtain name m1 where c: "ConvertAndAdd is_letter is_digit m u = Some (name, m1)"
    and h: "harmonyToUser m1 = (harmonyToUser m)(name \<mapsto> u)" "finite (dom (harmonyToUser m1))"
    and free: "harmonyToUser m name = None"
    using ConvertAndAdd_new[OF Cons.prems(1)] u(2) by blast
  obtain hs m' where ca: "convert_all is_letter is_digit m1 us = Some (hs, m')" "length hs = length us"
    and d: "distinct hs" "set hs \<inter> dom (harmonyToUser m1) = {}"
    and keep: "\<forall>h \<in> dom (harmonyToUser m1). harmonyToUser m' h = harmonyToUser m1 h"
    and inv: "\<forall>i < length us. harmonyToUser m' (hs ! i) = Some (us ! i)"
    using Cons.IH[OF h(2) us] by blast
  have "convert_all is_letter is_digit m (u # us) = Some (name # hs, m')"
    using u(1) c ca(1) by simp
  moreover have "distinct (name # hs)" "set (name # hs) \<inter> dom (harmonyToUser m) = {}"
    using d h(1) free by auto
  moreover have "harmonyToUser m' h = harmonyToUser m h" if "h \<in> dom (harmonyToUser m)" for h
    using keep h(1) free that by auto
  moreover have "harmonyToUser m' ((name # hs) ! i) = Some ((u # us) ! i)" if "i < length (u # us)" for i
    using that inv keep h(1) by (cases i) auto
  ultimately show ?case using ca(2) by auto
qed

text \<open>
  C36. Renaming terminates and is reversible when no built-in is among the names: for any list of
  non-empty tool names without the four built-in ones, \<^verbatim>\<open>Init\<close> gives every tool a name of its own,
  and looking the given names up returns the user's names, duplicates included.
\<close>

theorem function_names_roundtrip:
  assumes "\<forall>u \<in> set us. u \<noteq> [] \<and> u \<notin> set builtin_functions"
  shows "\<exists>hs m. convert_all is_letter is_digit NewFunctionNameMap us = Some (hs, m) \<and>
    distinct hs \<and> map (OriginalFromConverted m) hs = us"
proof -
  have fin: "finite (dom (harmonyToUser NewFunctionNameMap))" by (simp add: NewFunctionNameMap_def)
  have nb: "no_builtins us" using assms by (simp add: no_builtins_def)
  obtain hs m where "convert_all is_letter is_digit NewFunctionNameMap us = Some (hs, m)"
    "length hs = length us" "distinct hs" "\<forall>i < length us. harmonyToUser m (hs ! i) = Some (us ! i)"
    using convert_all_maps[OF fin nb] by blast
  then show ?thesis
    by (auto simp: OriginalFromConverted_def intro!: nth_equalityI)
qed

theorem function_names_roundtrip_witness:
  "\<exists>hs m. convert_all ascii_letter ascii_digit NewFunctionNameMap [''get-x'', ''get.x'', ''get x''] = Some (hs, m) \<and>
    distinct hs \<and> map (OriginalFromConverted m) hs = [''get-x'', ''get.x'', ''get x'']"
  by (rule function_names_roundtrip) (simp add: builtin_functions_def)

text \<open>
  With a built-in name the mapping is lossy: a tool called \<^verbatim>\<open>python!\<close> is renamed
  to \<^verbatim>\<open>python\<close>, the built-in \<^verbatim>\<open>python\<close> is never renamed, so both tools are offered
  under one name and a call of the first is attributed to the second.
\<close>

theorem function_names_builtin_clash:
  "\<exists>m. convert_all ascii_letter ascii_digit NewFunctionNameMap [''python!'', ''python''] =
         Some ([''python'', ''python''], m) \<and>
       map (OriginalFromConverted m) [''python'', ''python''] \<noteq> [''python!'', ''python'']"
  by (simp add: NewFunctionNameMap_def ConvertAndAdd_def deriveName_def convertToValidChars_def
      explode_runes.simps decode_rune_ascii map_name_rune_def ascii_letter_def ascii_digit_def
      builtin_functions_def derive_loop.simps show_nat.simps digit_char_def OriginalFromConverted_def
      rune_error_def Let_def)

end
