(* ===== verification/HarmonyHandler.thy ===== *)
theory HarmonyHandler
  imports Harmony HarmonyNames
begin

text \<open>
  \<^verbatim>\<open>HarmonyMessageHandler\<close> of \<^verbatim>\<open>harmony/harmonyparser.go\<close>: it maps harmony events to
  content, thinking and tool calls.  The tool accumulator, which the code keeps
  behind a pointer that \<^verbatim>\<open>Init\<close> sets, is part of the handler record.  Decoding the
  arguments of a tool call is the parameter \<open>unmarshal\<close>: they are an ordered map
  of a third-party package.
\<close>

section \<open>State and operations\<close>

datatype hm_state = HmNormal | HmThinking | HmToolCalling

record tool_accumulator =
  ta_acc :: string
  currentToolName :: "string option"

record harmony_handler =
  hm_state :: hm_state
  HarmonyParser :: harmony_parser
  FunctionNameMap :: function_name_map
  toolAccumulator :: tool_accumulator
  convertedTools :: "string set"
  contentPrefill :: bool

definition CreateToolParser :: tool_accumulator where
  "CreateToolParser = \<lparr>ta_acc = [], currentToolName = None\<rparr>"

definition ta_Add :: "tool_accumulator \<Rightarrow> string \<Rightarrow> tool_accumulator" where
  "ta_Add a content = a\<lparr>ta_acc := ta_acc a @ content\<rparr>"

definition ta_Drain :: "tool_accumulator \<Rightarrow> string option \<times> string \<times> tool_accumulator" where
  "ta_Drain a = (currentToolName a, ta_acc a, a\<lparr>ta_acc := []\<rparr>)"

definition NewHarmonyMessageHandler :: harmony_handler where
  "NewHarmonyMessageHandler =
     \<lparr>hm_state = HmNormal, HarmonyParser = new_harmony_parser, FunctionNameMap = NewFunctionNameMap,
      toolAccumulator = CreateToolParser, convertedTools = {}, contentPrefill = False\<rparr>"

text \<open>
  One event: the message state and the current tool name, then the content,
  thinking and tool text collected so far.
\<close>

type_synonym handler_acc = "hm_state \<times> string option \<times> string \<times> string \<times> string"

fun handle_event :: "handler_acc \<Rightarrow> harmony_event \<Rightarrow> handler_acc" where
  "handle_event (st, tn, c, t, u) MessageStart = (st, tn, c, t, u)"
| "handle_event (st, tn, c, t, u) (HeaderComplete h) =
     (if Channel h = ''analysis'' then
        (if Recipient h \<noteq> [] then (HmToolCalling, Some (Recipient h), c, t, u)
         else (HmThinking, tn, c, t, u))
      else if Channel h = ''commentary'' then
        (if Recipient h \<noteq> [] then (HmToolCalling, Some (Recipient h), c, t, u)
         else (HmNormal, tn, c, t, u))
      else if Channel h = ''final'' then (HmNormal, tn, c, t, u)
      else (st, tn, c, t, u))"
| "handle_event (st, tn, c, t, u) (ContentEmitted x) =
     (case st of
        HmNormal \<Rightarrow> (st, tn, c @ x, t, u)
      | HmThinking \<Rightarrow> (st, tn, c, t @ x, u)
      | HmToolCalling \<Rightarrow> (st, tn, c, t, u @ x))"
| "handle_event (st, tn, c, t, u) MessageEnd = (HmNormal, tn, c, t, u)"

text \<open>\<^verbatim>\<open>HarmonyMessageHandler.AddContent\<close>: content, thinking, tool content.\<close>

definition handler_AddContent ::
  "harmony_handler \<Rightarrow> string \<Rightarrow> (string \<times> string \<times> string \<times> harmony_handler) option" where
  "handler_AddContent h content =
     (case harmony_AddContent (HarmonyParser h) content of
        None \<Rightarrow> None
      | Some (events, p) \<Rightarrow>
          (let (st, tn, c, t, u) =
                 foldl handle_event (hm_state h, currentToolName (toolAccumulator h), [], [], []) events
           in Some (c, t, u,
                h\<lparr>hm_state := st, HarmonyParser := p,
                  toolAccumulator := (toolAccumulator h)\<lparr>currentToolName := tn\<rparr>\<rparr>)))"

text \<open>\<^verbatim>\<open>Init\<close>; the tools are given by their names, and returned renamed.\<close>

definition handler_Init ::
  "(nat \<Rightarrow> bool) \<Rightarrow> (nat \<Rightarrow> bool) \<Rightarrow> harmony_handler \<Rightarrow> string list \<Rightarrow> message option \<Rightarrow>
   (string list \<times> harmony_handler) option" where
  "handler_Init is_letter is_digit h tools lastMessage =
     (let h1 = h\<lparr>HarmonyParser := AddImplicitStartOrPrefill (HarmonyParser h) lastMessage,
                 contentPrefill :=
                   (case lastMessage of None \<Rightarrow> False
                    | Some m \<Rightarrow> Role m = ''assistant'' \<and> Content m \<noteq> []),
                 toolAccumulator := CreateToolParser\<rparr>
      in if tools = [] then Some (tools, h1)
         else (case convert_all is_letter is_digit (FunctionNameMap h1) tools of
                 None \<Rightarrow> None
               | Some (processed, m) \<Rightarrow>
                   Some (processed,
                     h1\<lparr>FunctionNameMap := m,
                        convertedTools := convertedTools h1 \<union> (set tools - {[]})\<rparr>)))"

definition trim_prefix :: "string \<Rightarrow> string \<Rightarrow> string" where
  "trim_prefix s p = (if prefix p s then drop (length p) s else s)"

text \<open>
  \<^verbatim>\<open>Add\<close>: an error of the argument decoder is returned with no content, after the
  accumulator was drained.
\<close>

definition handler_Add ::
  "(string \<Rightarrow> 'err + 'args) \<Rightarrow> harmony_handler \<Rightarrow> string \<Rightarrow> bool \<Rightarrow>
   (('err + string \<times> string \<times> 'args tool_call list) \<times> harmony_handler) option" where
  "handler_Add unmarshal h s done =
     (case handler_AddContent h s of
        None \<Rightarrow> None
      | Some (content, thinking, toolContent, h1) \<Rightarrow>
          (let h2 = (if toolContent \<noteq> []
                     then h1\<lparr>toolAccumulator := ta_Add (toolAccumulator h1) toolContent\<rparr> else h1)
           in if \<not> done then Some (Inr (content, thinking, []), h2)
              else
                (let (toolName, raw, a) = ta_Drain (toolAccumulator h2);
                     h3 = h2\<lparr>toolAccumulator := a\<rparr>
                 in case toolName of
                      None \<Rightarrow> Some (Inr (content, thinking, []), h3)
                    | Some tn \<Rightarrow>
                        (let name = OriginalFromConverted (FunctionNameMap h3) (trim_prefix tn ''functions.'')
                         in case unmarshal raw of
                              Inl e \<Rightarrow> Some (Inl e, h3)
                            | Inr args \<Rightarrow>
                                Some (Inr (content, thinking,
                                  [\<lparr>tc_index = 0, tc_name = name, tc_args = args\<rparr>]), h3)))))"

definition handler_ThinkingClose :: "harmony_handler \<Rightarrow> string list" where
  "handler_ThinkingClose h =
     (if contentPrefill h then []
      else [''<|end|><|start|>assistant<|channel|>final<|message|>'',
            ''<|end|><|start|>assistant<|channel|>final <|constrain|>json<|message|>'',
            ''<|end|><|start|>assistant<|channel|>final<|constrain|>json<|message|>'',
            ''<|end|><|start|>assistant<|channel|>final json<|message|>'',
            ''<|end|><|start|>assistant<|channel|>commentary<|message|>'',
            ''<|end|><|start|>assistant<|message|>''])"

section \<open>The handler sees the transcript only\<close>

fun handle_atom :: "handler_acc \<Rightarrow> harmony_atom \<Rightarrow> handler_acc" where
  "handle_atom a (Mark e) = handle_event a e"
| "handle_atom a (Emit x) = handle_event a (ContentEmitted [x])"

lemma handle_content_atoms:
  "foldl handle_atom a (map Emit x) = handle_event a (ContentEmitted x)"
proof (induction x arbitrary: a)
  case Nil
  then show ?case by (cases a) (auto split: hm_state.splits)
next
  case (Cons y x)
  obtain st tn c t u where "a = (st, tn, c, t, u)" by (metis prod_cases5)
  with Cons show ?case by (cases st) simp_all
qed

lemma handle_events_atoms: "foldl handle_event a evs = foldl handle_atom a (transcript evs)"
proof (induction evs arbitrary: a)
  case Nil
  then show ?case by simp
next
  case (Cons e evs)
  then show ?case by (cases e) (simp_all add: handle_content_atoms)
qed

text \<open>What was collected before is only prefixed to what is collected later.\<close>

lemma handle_atom_prefix:
  assumes "handle_atom (st, tn, [], [], []) x = (st', tn', c', t', u')"
  shows "handle_atom (st, tn, c, t, u) x = (st', tn', c @ c', t @ t', u @ u')"
proof (cases x)
  case (Mark e)
  with assms show ?thesis by (cases e) (auto split: hm_state.splits if_splits)
next
  case (Emit y)
  with assms show ?thesis by (auto split: hm_state.splits)
qed

lemma handle_atoms_prefix:
  "foldl handle_atom (st, tn, [], [], []) xs = (st', tn', c', t', u') \<Longrightarrow>
   foldl handle_atom (st, tn, c, t, u) xs = (st', tn', c @ c', t @ t', u @ u')"
proof (induction xs arbitrary: st tn c t u st' tn' c' t' u')
  case Nil
  then show ?case by simp
next
  case (Cons x xs)
  obtain st1 tn1 c1 t1 u1 where x: "handle_atom (st, tn, [], [], []) x = (st1, tn1, c1, t1, u1)"
    by (metis prod_cases5)
  obtain st2 tn2 c2 t2 u2 where
    xs: "foldl handle_atom (st1, tn1, [], [], []) xs = (st2, tn2, c2, t2, u2)"
    by (metis prod_cases5)
  from Cons.prems x Cons.IH[OF xs, of c1 t1 u1]
  have r: "st2 = st'" "tn2 = tn'" "c' = c1 @ c2" "t' = t1 @ t2" "u' = u1 @ u2" by simp_all
  show ?case
    using handle_atom_prefix[OF x, of c t u] Cons.IH[OF xs, of "c @ c1" "t @ t1" "u @ u1"] r
    by simp
qed

text \<open>One call without the final drain, as a total step on a handler with proper tags.\<close>

definition handler_feed :: "harmony_handler \<Rightarrow> string \<Rightarrow> (string \<times> string) \<times> harmony_handler" where
  "handler_feed h s =
     (let (atoms, p) = harmony_feed (HarmonyParser h) s;
          (st, tn, c, t, u) =
            foldl handle_atom (hm_state h, currentToolName (toolAccumulator h), [], [], []) atoms
      in ((c, t), h\<lparr>hm_state := st, HarmonyParser := p,
            toolAccumulator := \<lparr>ta_acc = ta_acc (toolAccumulator h) @ u, currentToolName = tn\<rparr>\<rparr>))"

definition handler_tags :: "harmony_handler \<Rightarrow> bool" where
  "handler_tags h \<longleftrightarrow> harmony_tags (HarmonyParser h)"

interpretation handler_chunks: chunked handler_feed pair_app "([], [])" handler_tags "\<lambda>_. True"
proof unfold_locales
  fix h c
  assume "handler_tags h"
  then show "handler_tags (snd (handler_feed h c))"
    using harmony_chunks.inv_feed[of "HarmonyParser h" c]
    by (auto simp: handler_tags_def handler_feed_def Let_def split: prod.splits)
next
  fix h c d
  assume tags: "handler_tags h"
  obtain x p where f1: "harmony_feed (HarmonyParser h) c = (x, p)" by fastforce
  obtain y q where f2: "harmony_feed p d = (y, q)" by fastforce
  have f: "harmony_feed (HarmonyParser h) (c @ d) = (x @ y, q)"
    using harmony_chunks.feed_append[of "HarmonyParser h" c d] tags f1 f2
    by (simp add: handler_tags_def)
  let ?a = "toolAccumulator h"
  obtain st tn c1 t1 u1 where
    r1: "foldl handle_atom (hm_state h, currentToolName ?a, [], [], []) x = (st, tn, c1, t1, u1)"
    by (metis prod_cases5)
  obtain st' tn' c2 t2 u2 where
    r2: "foldl handle_atom (st, tn, [], [], []) y = (st', tn', c2, t2, u2)"
    by (metis prod_cases5)
  show "handler_feed h (c @ d) =
      (pair_app (fst (handler_feed h c)) (fst (handler_feed (snd (handler_feed h c)) d)),
       snd (handler_feed (snd (handler_feed h c)) d))"
    using f1 f2 f r1 r2 handle_atoms_prefix[OF r2, of c1 t1 u1]
    by (simp add: handler_feed_def pair_app_def)
qed (auto simp: pair_app_def)

lemma handler_AddContent_feed:
  assumes "handler_tags h"
  shows "\<exists>c t u h1. handler_AddContent h s = Some (c, t, u, h1) \<and>
    handler_feed h s = ((c, t), h1\<lparr>toolAccumulator := ta_Add (toolAccumulator h1) u\<rparr>)"
proof -
  obtain evs p where a: "harmony_AddContent (HarmonyParser h) s = Some (evs, p)"
    using harmony_AddContent_returns assms unfolding handler_tags_def by blast
  obtain st tn c t u where
    r: "foldl handle_atom (hm_state h, currentToolName (toolAccumulator h), [], [], [])
          (transcript evs) = (st, tn, c, t, u)"
    by (metis prod_cases5)
  with a show ?thesis
    by (simp add: handler_AddContent_def handler_feed_def harmony_feed_def handle_events_atoms ta_Add_def)
qed

definition handler_drain ::
  "(string \<Rightarrow> 'err + 'args) \<Rightarrow> string \<times> string \<Rightarrow> harmony_handler \<Rightarrow>
   ('err + string \<times> string \<times> 'args tool_call list) \<times> harmony_handler" where
  "handler_drain unmarshal ct h =
     (let h3 = h\<lparr>toolAccumulator := (toolAccumulator h)\<lparr>ta_acc := []\<rparr>\<rparr> in
      case currentToolName (toolAccumulator h) of
        None \<Rightarrow> (Inr (fst ct, snd ct, []), h3)
      | Some tn \<Rightarrow>
          (case unmarshal (ta_acc (toolAccumulator h)) of
             Inl e \<Rightarrow> (Inl e, h3)
           | Inr args \<Rightarrow>
               (Inr (fst ct, snd ct,
                  [\<lparr>tc_index = 0,
                    tc_name = OriginalFromConverted (FunctionNameMap h) (trim_prefix tn ''functions.''),
                    tc_args = args\<rparr>]), h3)))"

lemma handler_Add_feed:
  assumes "handler_tags h"
  shows "handler_Add unmarshal h s done =
    (let (ct, h2) = handler_feed h s in
     if done then Some (handler_drain unmarshal ct h2) else Some (Inr (fst ct, snd ct, []), h2))"
proof -
  obtain c t u h1 where a: "handler_AddContent h s = Some (c, t, u, h1)"
    "handler_feed h s = ((c, t), h1\<lparr>toolAccumulator := ta_Add (toolAccumulator h1) u\<rparr>)"
    using handler_AddContent_feed[OF assms] by blast
  have "(if u \<noteq> [] then h1\<lparr>toolAccumulator := ta_Add (toolAccumulator h1) u\<rparr> else h1) =
      h1\<lparr>toolAccumulator := ta_Add (toolAccumulator h1) u\<rparr>"
    by (simp add: ta_Add_def)
  with a show ?thesis
    by (simp add: handler_Add_def handler_drain_def ta_Drain_def Let_def
        split: option.splits sum.splits)
qed

text \<open>A response streamed in chunks, the last one marked as done.\<close>

fun handler_stream ::
  "(string \<Rightarrow> 'err + 'args) \<Rightarrow> harmony_handler \<Rightarrow> string \<Rightarrow> string list \<Rightarrow>
   (('err + string \<times> string \<times> 'args tool_call list) \<times> harmony_handler) option" where
  "handler_stream unmarshal h c [] = handler_Add unmarshal h c True"
| "handler_stream unmarshal h c (d # ds) =
     (case handler_Add unmarshal h c False of
        Some (Inr (content, thinking, calls), h1) \<Rightarrow>
          (case handler_stream unmarshal h1 d ds of
             Some (Inr (content', thinking', calls'), h2) \<Rightarrow>
               Some (Inr (content @ content', thinking @ thinking', calls @ calls'), h2)
           | r \<Rightarrow> r)
      | r \<Rightarrow> r)"

lemma handler_stream_feed:
  assumes "handler_tags h"
  shows "handler_stream unmarshal h c cs =
    (let (ct, h2) = handler_feed h (c @ concat cs) in Some (handler_drain unmarshal ct h2))"
  using assms
proof (induction cs arbitrary: h c)
  case Nil
  then show ?case by (simp add: handler_Add_feed)
next
  case (Cons d ds)
  obtain ct h1 where f: "handler_feed h c = (ct, h1)" by fastforce
  obtain ct' h2 where f': "handler_feed h1 (d @ concat ds) = (ct', h2)" by fastforce
  have t1: "handler_tags h1" using handler_chunks.inv_feed[OF Cons.prems, of c] f by simp
  have ff: "handler_feed h (c @ concat (d # ds)) = (pair_app ct ct', h2)"
    using handler_chunks.feed_append[OF Cons.prems, of c "d @ concat ds"] f f' by simp
  show ?case
    using Cons.IH[OF t1, of d] f f' ff Cons.prems
    by (auto simp: handler_Add_feed handler_drain_def pair_app_def Let_def
        split: option.splits sum.splits)
qed

lemma handler_stream_one_call:
  assumes "harmony_tags (HarmonyParser h)"
  shows "handler_stream unmarshal h c cs = handler_Add unmarshal h (c @ concat cs) True"
  using assms handler_stream_feed[of h unmarshal c cs] handler_Add_feed[of h unmarshal]
  by (simp add: handler_tags_def split: prod.splits)

section \<open>Headers\<close>

text \<open>A header word: printable ASCII without the byte that starts a tag.\<close>

definition word_ok :: "string \<Rightarrow> bool" where
  "word_ok w \<longleftrightarrow> w \<noteq> [] \<and> (\<forall>c \<in> set w. printable c \<and> c \<noteq> CHR ''<'')"

lemma word_okD:
  assumes "word_ok w"
  shows "w \<noteq> []" "\<forall>c \<in> set w. printable c" "CHR ''<'' \<notin> set w"
  using assms by (auto simp: word_ok_def)

lemma trim_space_word_ends:
  assumes "word_ok a" and "word_ok b"
  shows "trim_space (a @ x @ b) = a @ x @ b" and "trim_space a = a"
proof -
  obtain c t where a: "a = c # t" "printable c" using assms(1) by (cases a) (auto simp: word_ok_def)
  obtain t' c' where a': "a = t' @ [c']" "printable c'"
    using assms(1) by (cases a rule: rev_cases) (auto simp: word_ok_def)
  obtain t'' c'' where b: "b = t'' @ [c'']" "printable c''"
    using assms(2) by (cases b rule: rev_cases) (auto simp: word_ok_def)
  have "trim_left (a @ x @ b) = a @ x @ b" "trim_left a = a"
    using a by (simp_all add: trim_left_printable)
  moreover have "trim_right (a @ x @ b) = a @ x @ b"
    using trim_right_printable[OF b(2), of "a @ x @ t''"] b(1) by simp
  moreover have "trim_right a = a"
    using trim_right_printable[OF a'(2), of t'] a'(1) by simp
  ultimately show "trim_space (a @ x @ b) = a @ x @ b" and "trim_space a = a"
    by (simp_all add: trim_space_def)
qed

lemma no_constrain:
  assumes "CHR ''<'' \<notin> set u" and "CHR ''<'' \<notin> set v"
  shows "index_of ''<|constrain|>'' (u @ ''<|channel|>'' @ v) = None"
proof -
  have "index_of ''<|constrain|>'' v = None"
    using index_of_skip[of "''<|constrain|>''" v "[]"] assms(2) by (simp add: index_of_Nil)
  then have "index_of ''<|constrain|>'' (''<|channel|>'' @ v) = None"
    by (simp add: index_of_Cons)
  with index_of_skip[of "''<|constrain|>''" u "''<|channel|>'' @ v"] assms(1) show ?thesis by simp
qed

lemma channel_at: "CHR ''<'' \<notin> set u \<Longrightarrow> index_of ''<|channel|>'' (u @ ''<|channel|>'' @ v) = Some (length u)"
  using index_of_skip[of "''<|channel|>''" u "''<|channel|>'' @ v"] by simp

text \<open>The header once the channel is cut out: its words are read from what is left.\<close>

lemma parseHeader_cut:
  assumes "CHR ''<'' \<notin> set u" and "CHR ''<'' \<notin> set v"
  shows "parseHeader (u @ ''<|channel|>'' @ v) =
    (case go_fields (trim_space (u @ drop (space_index v) v)) of
       [] \<Rightarrow> \<lparr>hdr_Role = [], Channel = take (space_index v) v, Recipient = []\<rparr>
     | first # tokens \<Rightarrow>
         (let (role, recipient) =
                (if prefix ''to='' first then (''tool'', drop 3 first) else (first, []));
              recipient' =
                (if recipient = [] \<and> tokens \<noteq> [] \<and> prefix ''to='' (hd tokens)
                 then drop 3 (hd tokens) else recipient)
          in \<lparr>hdr_Role = role, Channel = take (space_index v) v, Recipient = recipient'\<rparr>))"
  using no_constrain[OF assms] channel_at[OF assms(1), of v]
  by (simp add: parseHeader_def Let_def del: append_Cons)

lemma parseHeader_channel:
  assumes "word_ok r" and "word_ok c" and "\<not> prefix ''to='' r"
  shows "parseHeader (r @ ''<|channel|>'' @ c) = \<lparr>hdr_Role = r, Channel = c, Recipient = []\<rparr>"
proof -
  note r = word_okD[OF assms(1)] and c = word_okD[OF assms(2)]
  have "space_index c = length c" using space_index_printable[OF c(2), of "[]"] by simp
  moreover have "go_fields r = [r]" using fields_word[OF r(1,2), of "[]"] by simp
  ultimately show ?thesis
    using parseHeader_cut[OF r(3) c(3)] trim_space_word_ends(2)[OF assms(1,1)] assms(3) by simp
qed

section \<open>Properties\<close>

text \<open>
  The recipient of a tool call may stand before or after the channel tag: both
  spellings of a header parse to the same role, channel and recipient.
\<close>

theorem harmony_header_recipient_position:
  assumes "word_ok r" and "word_ok c" and "word_ok t" and "\<not> prefix ''to='' r"
  shows "parseHeader (r @ '' to='' @ t @ ''<|channel|>'' @ c) =
           \<lparr>hdr_Role = r, Channel = c, Recipient = t\<rparr> \<and>
         parseHeader (r @ ''<|channel|>'' @ c @ '' to='' @ t) =
           \<lparr>hdr_Role = r, Channel = c, Recipient = t\<rparr>"
proof -
  note r = word_okD[OF assms(1)] and c = word_okD[OF assms(2)] and t = word_okD[OF assms(3)]
  let ?to = "''to='' @ t"
  have to: "\<forall>x \<in> set ?to. printable x" using t(2) by (auto simp: printable_def)
  have f: "go_fields (r @ '' '' @ ?to) = [r, ?to]"
    using fields_word[OF r(1,2), of "'' '' @ ?to"] fields_word[of ?to "[]"] to
    by (simp add: space_index_blank fields_blank)
  have ts: "trim_space (r @ '' to='' @ t) = r @ '' to='' @ t"
    using trim_space_word_ends(1)[OF assms(1,3), of "'' to=''"] by simp
  have sc: "space_index c = length c" using space_index_printable[OF c(2), of "[]"] by simp
  have sc': "space_index (c @ '' to='' @ t) = length c"
    using space_index_printable[OF c(2), of "'' to='' @ t"] by (simp add: space_index_blank)
  have "parseHeader ((r @ '' to='' @ t) @ ''<|channel|>'' @ c) =
      \<lparr>hdr_Role = r, Channel = c, Recipient = t\<rparr>"
    using parseHeader_cut[of "r @ '' to='' @ t" c] r(3) t(3) c(3) sc ts f assms(4) by simp
  moreover have "parseHeader (r @ ''<|channel|>'' @ (c @ '' to='' @ t)) =
      \<lparr>hdr_Role = r, Channel = c, Recipient = t\<rparr>"
    using parseHeader_cut[of r "c @ '' to='' @ t"] r(3) t(3) c(3) sc' ts f assms(4) by simp
  ultimately show ?thesis by simp
qed

theorem harmony_header_recipient_position_witness:
  "parseHeader ''assistant to=functions.f<|channel|>commentary'' =
     \<lparr>hdr_Role = ''assistant'', Channel = ''commentary'', Recipient = ''functions.f''\<rparr> \<and>
   parseHeader ''assistant<|channel|>commentary to=functions.f'' =
     \<lparr>hdr_Role = ''assistant'', Channel = ''commentary'', Recipient = ''functions.f''\<rparr>"
  using harmony_header_recipient_position[of "''assistant''" "''commentary''" "''functions.f''"]
  by (simp add: word_ok_def printable_def)

text \<open>
  A harmony response read in any chunks, at any byte, yields what one call
  on the whole response yields: the same content, thinking, tool call or decoding
  error, and the same handler.
\<close>

theorem harmony_chunking_irrelevant:
  assumes "harmony_tags (HarmonyParser h)"
  shows "handler_stream unmarshal h c cs = handler_Add unmarshal h (c @ concat cs) True"
  using assms by (rule handler_stream_one_call)

theorem harmony_chunking_irrelevant_witness:
  "handler_stream (\<lambda>s. Inr s :: unit + string) NewHarmonyMessageHandler ''<|start|>a<|mes''
     [''sage|>hi <|e'', ''nd|>''] =
   handler_Add (\<lambda>s. Inr s) NewHarmonyMessageHandler ''<|start|>a<|message|>hi <|end|>'' True"
  using harmony_chunking_irrelevant[of NewHarmonyMessageHandler "\<lambda>s. Inr s :: unit + string"
      "''<|start|>a<|mes''" "[''sage|>hi <|e'', ''nd|>'']"]
  by (simp add: NewHarmonyMessageHandler_def new_harmony_parser_def harmony_tags_def)

section \<open>Well-formed responses\<close>

text \<open>A parser with the standard tags, by its state, accumulator and log.\<close>

definition hp :: "harmony_state \<Rightarrow> string \<Rightarrow> string \<Rightarrow> harmony_parser" where
  "hp st acc l = new_harmony_parser\<lparr>hp_state := st, hp_acc := acc, lifetimeAcc := l\<rparr>"

lemma hp_simps [simp]:
  "hp_state (hp st acc l) = st" "hp_acc (hp st acc l) = acc" "lifetimeAcc (hp st acc l) = l"
  "MessageStartTag (hp st acc l) = ''<|start|>''" "MessageEndTag (hp st acc l) = ''<|end|>''"
  "HeaderEndTag (hp st acc l) = ''<|message|>''"
  "(hp st acc l)\<lparr>hp_acc := a, hp_state := st'\<rparr> = hp st' a l" "(hp st acc l)\<lparr>hp_acc := a\<rparr> = hp st a l"
  by (simp_all add: hp_def new_harmony_parser_def)

lemma cut_at: "index_of sep (a @ sep @ b) = Some (length a) \<Longrightarrow> cut (a @ sep @ b) sep = (a, Some b)"
  by (simp add: cut_def)

lemma cut_first: "sep \<noteq> [] \<Longrightarrow> cut (sep @ b) sep = ([], Some b)"
  using cut_at[of sep "[]" b] by (cases sep) (auto simp: index_of_Cons)

lemma start_step:
  assumes "keep_looping harmony_eat (hp ParsingHeader x l) = Some (evs, s')"
  shows "keep_looping harmony_eat (hp LookingForMessageStart (''<|start|>'' @ x) l) =
    Some ([MessageStart] @ evs, s')"
  by (rule keep_looping_more[OF _ assms])
     (simp add: harmony_eat_def cut_first del: append_Cons)

lemma header_step:
  assumes "cut acc ''<|message|>'' = (hdr, Some x)"
    and "keep_looping harmony_eat (hp ParsingContent x l) = Some (evs, s')"
  shows "keep_looping harmony_eat (hp ParsingHeader acc l) =
    Some ([HeaderComplete (parseHeader hdr)] @ evs, s')"
  by (rule keep_looping_more[OF _ assms(2)]) (simp add: harmony_eat_def assms(1))

lemma end_step:
  assumes "cut acc ''<|end|>'' = (T, Some x)"
    and "keep_looping harmony_eat (hp LookingForMessageStart x l) = Some (evs, s')"
  shows "keep_looping harmony_eat (hp ParsingContent acc l) = Some ((emit T @ [MessageEnd]) @ evs, s')"
  by (rule keep_looping_more[OF _ assms(2)]) (simp add: harmony_eat_def assms(1) emit_def)

lemma final_step:
  assumes "index_of ''<|end|>'' A = None"
  shows "keep_looping harmony_eat (hp ParsingContent A l) =
    Some (emit (unheld A ''<|end|>''), hp ParsingContent (held A ''<|end|>'') l)"
  using eat_content_no_end[of "hp ParsingContent A l"] assms by (simp add: keep_looping_stop)

lemma cut_message:
  assumes "word_ok ch"
  shows "cut ((''assistant<|channel|>'' @ ch) @ ''<|message|>'' @ x) ''<|message|>'' =
    (''assistant<|channel|>'' @ ch, Some x)"
proof (rule cut_at)
  have "index_of ''<|message|>'' (ch @ ''<|message|>'' @ x) = Some (length ch)"
    using index_of_skip[of "''<|message|>''" ch "''<|message|>'' @ x"] word_okD(3)[OF assms] by simp
  then show "index_of ''<|message|>'' ((''assistant<|channel|>'' @ ch) @ ''<|message|>'' @ x) =
    Some (length (''assistant<|channel|>'' @ ch))"
    by (simp add: index_of_Cons)
qed

definition opening_events :: "string \<Rightarrow> harmony_event list" where
  "opening_events ch =
     [MessageStart, HeaderComplete \<lparr>hdr_Role = ''assistant'', Channel = ch, Recipient = []\<rparr>]"

text \<open>A message from its start tag to its content.\<close>

lemma opened_message:
  assumes "word_ok ch" and "keep_looping harmony_eat (hp ParsingContent x l) = Some (evs, s')"
  shows "keep_looping harmony_eat (hp LookingForMessageStart
      (''<|start|>'' @ (''assistant<|channel|>'' @ ch) @ ''<|message|>'' @ x) l) =
    Some (opening_events ch @ evs, s')"
proof -
  have "parseHeader (''assistant<|channel|>'' @ ch) =
      \<lparr>hdr_Role = ''assistant'', Channel = ch, Recipient = []\<rparr>"
    using parseHeader_channel[of "''assistant''" ch] assms(1) by (simp add: word_ok_def printable_def)
  with start_step[OF header_step[OF cut_message[OF assms(1)] assms(2)]] show ?thesis
    by (simp add: opening_events_def del: append_Cons)
qed

lemma two_messages:
  assumes "word_ok a" and "word_ok b"
    and "index_of ''<|end|>'' (T @ ''<|end|>'') = Some (length T)" and "index_of ''<|end|>'' A = None"
  shows "keep_looping harmony_eat (hp LookingForMessageStart
      (''<|start|>'' @ (''assistant<|channel|>'' @ a) @ ''<|message|>'' @ T @ ''<|end|>'' @
       ''<|start|>'' @ (''assistant<|channel|>'' @ b) @ ''<|message|>'' @ A) l) =
    Some (opening_events a @ (emit T @ [MessageEnd]) @ opening_events b @ emit (unheld A ''<|end|>''),
      hp ParsingContent (held A ''<|end|>'') l)"
proof (rule opened_message[OF assms(1)], rule end_step)
  let ?x = "''<|start|>'' @ (''assistant<|channel|>'' @ b) @ ''<|message|>'' @ A"
  have "index_of ''<|end|>'' (T @ ''<|end|>'' @ ?x) = Some (length T)"
    using index_of_append_same[OF assms(3), of ?x] by (simp del: append_Cons)
  then show "cut (T @ ''<|end|>'' @ ?x) ''<|end|>'' = (T, Some ?x)" by (rule cut_at)
  show "keep_looping harmony_eat (hp LookingForMessageStart ?x l) =
      Some (opening_events b @ emit (unheld A ''<|end|>''), hp ParsingContent (held A ''<|end|>'') l)"
    by (rule opened_message[OF assms(2) final_step[OF assms(4)]])
qed

lemma handle_emit: "foldl handle_event (st, tn, c, t, u) (emit x) = handle_event (st, tn, c, t, u) (ContentEmitted x)"
  by (cases st) (auto simp: emit_def)

lemma new_handler_init:
  "handler_Init is_letter is_digit NewHarmonyMessageHandler [] None =
     Some ([], NewHarmonyMessageHandler\<lparr>HarmonyParser := hp LookingForMessageStart ''<|start|>assistant'' []\<rparr>)"
  by (simp add: handler_Init_def NewHarmonyMessageHandler_def AddImplicitStartOrPrefill_def
      AddImplicitStart_def new_harmony_parser_def hp_def)

text \<open>
  C20. A response of the usual shape, an analysis message followed by a final
  message, is separated exactly: in any chunks the handler returns the analysis as
  thinking and the final text as content, without a tool call.  Only a suffix of the
  final text that could start the end tag is not delivered: it is still in the
  accumulator when the last chunk has been processed.
\<close>

theorem harmony_separates_response:
  assumes "index_of ''<|end|>'' (T @ ''<|end|>'') = Some (length T)"
    and "index_of ''<|end|>'' A = None"
    and "handler_Init is_letter is_digit NewHarmonyMessageHandler [] None = Some (tools, h)"
    and "c @ concat cs =
      ''<|channel|>analysis<|message|>'' @ T @
      ''<|end|><|start|>assistant<|channel|>final<|message|>'' @ A"
  shows "\<exists>h'. handler_stream unmarshal h c cs = Some (Inr (unheld A ''<|end|>'', T, []), h') \<and>
    hp_acc (HarmonyParser h') = held A ''<|end|>''"
proof -
  let ?l = "c @ concat cs"
  have h: "h = NewHarmonyMessageHandler\<lparr>HarmonyParser := hp LookingForMessageStart ''<|start|>assistant'' []\<rparr>"
    using assms(3) by (simp add: new_handler_init)
  have w: "word_ok ''analysis''" "word_ok ''final''" by (simp_all add: word_ok_def printable_def)
  have tags: "harmony_tags (HarmonyParser h)" by (simp add: h harmony_tags_def)
  let ?p = "hp LookingForMessageStart ''<|start|>assistant'' []"
  have "harmony_AddContent ?p ?l = keep_looping harmony_eat
      (hp LookingForMessageStart (''<|start|>assistant'' @ ?l) ?l)"
    by (simp add: h harmony_AddContent_def hp_def new_harmony_parser_def del: append_Cons)
  also have "\<dots> = Some (opening_events ''analysis'' @ (emit T @ [MessageEnd]) @ opening_events ''final'' @
      emit (unheld A ''<|end|>''), hp ParsingContent (held A ''<|end|>'') ?l)"
    using two_messages[OF w assms(1,2), of ?l] assms(4) by simp
  finally have ac: "harmony_AddContent ?p ?l = \<dots>" .
  show ?thesis
    unfolding handler_stream_one_call[OF tags]
    by (simp add: handler_Add_def handler_AddContent_def ac handle_emit opening_events_def h
        NewHarmonyMessageHandler_def CreateToolParser_def ta_Drain_def)
qed

theorem harmony_separates_response_witness:
  "\<exists>h'. handler_stream (\<lambda>s. Inl () :: unit + string)
      (NewHarmonyMessageHandler\<lparr>HarmonyParser := hp LookingForMessageStart ''<|start|>assistant'' []\<rparr>)
      ''<|channel|>analysis<|message|>hm'' [''m<|end|><|start|>assistant<|channel|>fi'', ''nal<|message|>a <''] =
      Some (Inr (''a '', ''hmm'', []), h') \<and> hp_acc (HarmonyParser h') = ''<''"
  using harmony_separates_response[of "''hmm''" "''a <''", OF _ _ new_handler_init,
      where unmarshal = "\<lambda>s. Inl () :: unit + string" and c = "''<|channel|>analysis<|message|>hm''"
        and cs = "[''m<|end|><|start|>assistant<|channel|>fi'', ''nal<|message|>a <'']"]
  by (simp add: index_of_Cons index_of_Nil unheld_def held_def overlap_def suffix_def
      del: handler_stream.simps)

end
