(* ===== verification/Devices.thy ===== *)
theory Devices
  imports GoStrings ApiTypes "HOL-Library.Word" "HOL-Library.Multiset"
begin

text \<open>
  \<^verbatim>\<open>ml/device.go\<close>: the description of a device, the comparison that finds the same
  physical device reported by two backends, the grouping by backend and the
  flash-attention test.  Memory sizes are 64-bit words.
\<close>

section \<open>Data\<close>

record device_id =
  dev_ID :: string
  Library :: string

record device_info = device_id +
  dev_Name :: string
  Description :: string
  FilterID :: string
  Integrated :: bool
  PCIID :: string
  TotalMemory :: "64 word"
  FreeMemory :: "64 word"
  ComputeMajor :: int
  ComputeMinor :: int
  DriverMajor :: int
  DriverMinor :: int

text \<open>The embedded \<^verbatim>\<open>DeviceID\<close> of a device.\<close>

definition DeviceID :: "device_info \<Rightarrow> device_id" where
  "DeviceID d = \<lparr>dev_ID = dev_ID d, Library = Library d\<rparr>"

record system_info =
  sys_TotalMemory :: "64 word"
  sys_FreeMemory :: "64 word"
  FreeSwap :: "64 word"

definition MebiByte :: "64 word" where "MebiByte = 1048576"
definition GibiByte :: "64 word" where "GibiByte = 1073741824"
definition GigaByte :: "64 word" where "GigaByte = 1000000000"

section \<open>Operations on one device\<close>

definition MinimumMemory :: "device_info \<Rightarrow> 64 word" where
  "MinimumMemory d = (if Library d = ''Metal'' then 512 * MebiByte else 457 * MebiByte)"

definition free_memory_Less :: "device_info \<Rightarrow> device_info \<Rightarrow> bool" where
  "free_memory_Less a b =
     (if Integrated a \<and> \<not> Integrated b then True
      else if \<not> Integrated a \<and> Integrated b then False
      else FreeMemory a < FreeMemory b)"

definition cudaFlashAttentionSupported :: "device_info \<Rightarrow> bool" where
  "cudaFlashAttentionSupported gpu =
     (if Library gpu \<noteq> ''CUDA'' \<or> ComputeMajor gpu < 6 \<or> (ComputeMajor gpu = 7 \<and> ComputeMinor gpu = 2)
      then False
      else if DriverMajor gpu = 0 then True
      else DriverMajor gpu \<ge> 7)"

fun FlashAttentionSupported :: "device_info list \<Rightarrow> bool" where
  "FlashAttentionSupported [] = True"
| "FlashAttentionSupported (gpu # l) =
     (let supportsFA = Library gpu = ''cpu'' \<or> dev_Name gpu = ''Metal'' \<or> Library gpu = ''Metal'' \<or>
            cudaFlashAttentionSupported gpu \<or> Library gpu = ''ROCm'' \<or> Library gpu = ''Vulkan''
      in if \<not> supportsFA then False else FlashAttentionSupported l)"

fun allDevicesUseLibrary :: "device_info list \<Rightarrow> string \<Rightarrow> bool" where
  "allDevicesUseLibrary [] library = True"
| "allDevicesUseLibrary (d # l) library =
     (if Library d \<noteq> library then False else allDevicesUseLibrary l library)"

definition NeedsInitValidation :: "device_info \<Rightarrow> bool" where
  "NeedsInitValidation d \<longleftrightarrow> Library d = ''ROCm'' \<or> Library d = ''CUDA''"

definition PreferredLibrary :: "device_info \<Rightarrow> device_info \<Rightarrow> bool" where
  "PreferredLibrary d other \<longleftrightarrow> Library d = ''CUDA'' \<or> Library d = ''ROCm''"

section \<open>The same physical device\<close>

datatype device_comparison = UniqueDevice | SameBackendDevice | DuplicateDevice

text \<open>
  Lower case as \<^verbatim>\<open>normalizeDeviceDescription\<close> can see it: only ASCII results matter
  there, and besides the ASCII capitals just two runes have one, the dotted capital
  I and the Kelvin sign.
\<close>

definition lower_rune :: "nat \<Rightarrow> nat" where
  "lower_rune r = (if 65 \<le> r \<and> r \<le> 90 then r + 32 else if r = 0x130 then 105
     else if r = 0x212A then 107 else r)"

fun normalize_loop :: "nat list \<Rightarrow> nat \<Rightarrow> string" where
  "normalize_loop [] depth = []"
| "normalize_loop (r # rs) depth =
     (if r = 40 then normalize_loop rs (depth + 1)
      else if r = 41 then (if depth > 0 then normalize_loop rs (depth - 1) else normalize_loop rs depth)
      else if depth > 0 then normalize_loop rs depth
      else if (97 \<le> r \<and> r \<le> 122) \<or> (48 \<le> r \<and> r \<le> 57) then char_of r # normalize_loop rs depth
      else CHR '' '' # normalize_loop rs depth)"

definition normalizeDeviceDescription :: "string \<Rightarrow> string" where
  "normalizeDeviceDescription s =
     join (go_fields (normalize_loop
       (map (\<lambda>u. lower_rune (fst (decode_rune u))) (explode_runes (trim_space s))) 0)) '' ''"

definition SimilarDeviceDescription :: "string \<Rightarrow> string \<Rightarrow> bool" where
  "SimilarDeviceDescription a b =
     (let normalizedA = normalizeDeviceDescription a
      in normalizedA \<noteq> [] \<and> normalizedA = normalizeDeviceDescription b)"

definition SimilarDeviceMemory :: "64 word \<Rightarrow> 64 word \<Rightarrow> bool" where
  "SimilarDeviceMemory a b =
     (if a = 0 \<or> b = 0 then False
      else (let maxMemory = max a b;
                tolerance = maxMemory div 20;
                tolerance' = (if tolerance < 512 * 1024 * 1024 then 512 * 1024 * 1024 else tolerance)
            in maxMemory - min a b \<le> tolerance'))"

definition likelyVulkanDuplicate :: "device_info \<Rightarrow> device_info \<Rightarrow> bool" where
  "likelyVulkanDuplicate a b =
     (if Library a = Library b then False
      else (let (vulkan, other) = (if Library b = ''Vulkan'' then (b, a) else (a, b)) in
            if Library vulkan \<noteq> ''Vulkan'' then False
            else if Library other \<noteq> ''CUDA'' \<and> Library other \<noteq> ''ROCm'' then False
            else if normalizeDeviceDescription (Description vulkan) = [] then False
            else if \<not> SimilarDeviceDescription (Description vulkan) (Description other) then False
            else SimilarDeviceMemory (TotalMemory vulkan) (TotalMemory other)))"

definition Compare :: "(nat \<Rightarrow> nat) \<Rightarrow> device_info \<Rightarrow> device_info \<Rightarrow> device_comparison" where
  "Compare casefold a b =
     (if PCIID a \<noteq> [] \<and> PCIID b \<noteq> [] then
        (if \<not> equal_fold casefold (PCIID a) (PCIID b) then UniqueDevice
         else if Library a = Library b then SameBackendDevice
         else DuplicateDevice)
      else if likelyVulkanDuplicate a b then DuplicateDevice
      else if PCIID a \<noteq> PCIID b then UniqueDevice
      else if PCIID a = [] \<and> DeviceID a \<noteq> DeviceID b then UniqueDevice
      else if Library a = Library b then SameBackendDevice
      else DuplicateDevice)"

lemma similar_description_sym: "SimilarDeviceDescription a b \<longleftrightarrow> SimilarDeviceDescription b a"
  by (auto simp: SimilarDeviceDescription_def Let_def)

lemma similar_memory_sym: "SimilarDeviceMemory a b \<longleftrightarrow> SimilarDeviceMemory b a"
  by (simp add: SimilarDeviceMemory_def Let_def max.commute min.commute disj_commute)

lemma vulkan_duplicate_sym: "likelyVulkanDuplicate a b \<longleftrightarrow> likelyVulkanDuplicate b a"
  using similar_description_sym[of "Description a" "Description b"]
    similar_memory_sym[of "TotalMemory a" "TotalMemory b"]
  by (auto simp: likelyVulkanDuplicate_def)

lemma compare_sym: "Compare casefold a b = Compare casefold b a"
  using vulkan_duplicate_sym[of a b] equal_fold_sym[of casefold "PCIID a" "PCIID b"]
  by (auto simp: Compare_def)

text \<open>
  Comparing devices does not depend on their order; a device equals itself on its
  own backend, and two devices of one backend are never reported as duplicates.
\<close>

theorem device_compare_symmetric:
  "Compare casefold a b = Compare casefold b a \<and> Compare casefold a a = SameBackendDevice \<and>
   (Compare casefold a b = SameBackendDevice \<longrightarrow> Library a = Library b) \<and>
   (Compare casefold a b = DuplicateDevice \<longrightarrow> Library a \<noteq> Library b)"
  using compare_sym[of casefold a b] by (auto simp: Compare_def likelyVulkanDuplicate_def)

theorem device_compare_symmetric_witness:
  "let d = \<lparr>dev_ID = ''0'', Library = ''CUDA'', dev_Name = [], Description = ''GPU'', FilterID = [],
        Integrated = False, PCIID = ''0A:00'', TotalMemory = 1, FreeMemory = 1, ComputeMajor = 8,
        ComputeMinor = 0, DriverMajor = 0, DriverMinor = 0\<rparr>
   in Compare ascii_fold d (d\<lparr>Library := ''ROCm'', PCIID := ''0a:00''\<rparr>) =
      Compare ascii_fold (d\<lparr>Library := ''ROCm'', PCIID := ''0a:00''\<rparr>) d"
  using device_compare_symmetric by (simp add: Let_def)

section \<open>Grouping by backend\<close>

text \<open>
  \<^verbatim>\<open>ByLibrary\<close>: a device goes to the first group of its library, or starts a new one
  at the end.  Groups and their libraries are kept in one list of pairs.
\<close>

fun add_to_group :: "device_info \<Rightarrow> (string \<times> device_info list) list \<Rightarrow> (string \<times> device_info list) list" where
  "add_to_group info [] = [(Library info, [info])]"
| "add_to_group info ((lib, g) # groups) =
     (if lib = Library info then (lib, g @ [info]) # groups
      else (lib, g) # add_to_group info groups)"

definition ByLibrary :: "device_info list \<Rightarrow> device_info list list" where
  "ByLibrary l = map snd (foldl (\<lambda>groups info. add_to_group info groups) [] l)"

text \<open>What the groups are: the devices of each library, the libraries as they first appear.\<close>

definition library_groups :: "device_info list \<Rightarrow> (string \<times> device_info list) list" where
  "library_groups l = map (\<lambda>lib. (lib, filter (\<lambda>d. Library d = lib) l)) (rev (remdups (rev (map Library l))))"

lemma add_to_group_new:
  "Library info \<notin> fst ` set groups \<Longrightarrow> add_to_group info groups = groups @ [(Library info, [info])]"
  by (induction groups) auto

lemma add_to_group_old:
  "Library info \<in> set libs \<Longrightarrow> distinct libs \<Longrightarrow>
   add_to_group info (map (\<lambda>lib. (lib, f lib)) libs) =
   map (\<lambda>lib. (lib, if lib = Library info then f lib @ [info] else f lib)) libs"
  by (induction libs) (auto cong: if_cong)

lemma groups_of_library:
  "foldl (\<lambda>groups info. add_to_group info groups) [] l = library_groups l"
proof (induction l rule: rev_induct)
  case Nil
  then show ?case by (simp add: library_groups_def)
next
  case (snoc d l)
  let ?libs = "rev (remdups (rev (map Library l)))"
  show ?case
  proof (cases "Library d \<in> set ?libs")
    case True
    then show ?thesis
      using snoc add_to_group_old[of d ?libs "\<lambda>lib. filter (\<lambda>d. Library d = lib) l"]
      by (auto simp: library_groups_def)
  next
    case False
    then have "add_to_group d (library_groups l) = library_groups l @ [(Library d, [d])]"
      by (intro add_to_group_new) (auto simp: library_groups_def)
    with snoc False show ?thesis
      by (auto simp: library_groups_def filter_empty_conv image_iff)
  qed
qed

lemma ByLibrary_groups: "ByLibrary l = map snd (library_groups l)"
  by (simp add: ByLibrary_def groups_of_library)

lemma ByLibrary_group:
  assumes "g \<in> set (ByLibrary l)"
  shows "\<exists>lib. lib \<in> Library ` set l \<and> g = filter (\<lambda>d. Library d = lib) l"
  using assms by (auto simp: ByLibrary_groups library_groups_def)

lemma ByLibrary_member: "d \<in> set l \<Longrightarrow> \<exists>g \<in> set (ByLibrary l). d \<in> set g"
  by (auto simp: ByLibrary_groups library_groups_def)

lemma ByLibrary_nonempty: "g \<in> set (ByLibrary l) \<Longrightarrow> g \<noteq> []"
  by (drule ByLibrary_group) (auto simp: filter_empty_conv)

lemma ByLibrary_subset: "g \<in> set (ByLibrary l) \<Longrightarrow> set g \<subseteq> set l"
  by (drule ByLibrary_group) auto

lemma ByLibrary_empty [simp]: "ByLibrary l = [] \<longleftrightarrow> l = []"
  by (auto simp: ByLibrary_groups library_groups_def)

lemma mset_by_library:
  "distinct libs \<Longrightarrow> Library ` set l \<subseteq> set libs \<Longrightarrow>
   mset (concat (map (\<lambda>lib. filter (\<lambda>d. Library d = lib) l) libs)) = mset l"
proof (induction libs arbitrary: l)
  case Nil
  then show ?case by simp
next
  case (Cons lib libs)
  let ?l = "filter (\<lambda>d. Library d \<noteq> lib) l"
  have m: "map (\<lambda>lib. filter (\<lambda>d. Library d = lib) ?l) libs = map (\<lambda>lib. filter (\<lambda>d. Library d = lib) l) libs"
    using Cons.prems(1) by (auto intro!: filter_cong)
  have "mset (concat (map (\<lambda>lib. filter (\<lambda>d. Library d = lib) ?l) libs)) = mset ?l"
    by (rule Cons.IH) (use Cons.prems in auto)
  then have "mset (concat (map (\<lambda>lib. filter (\<lambda>d. Library d = lib) l) libs)) = mset ?l"
    unfolding m .
  then show ?case by (simp add: multiset_partition[symmetric])
qed

text \<open>
  Grouping by library is a stable partition: no device is lost or duplicated, no
  group is empty, each group holds exactly the devices of one library in their
  original order, and the groups follow the order in which libraries first appear.
\<close>

theorem by_library_partition:
  "mset (concat (ByLibrary l)) = mset l \<and>
   ByLibrary l = map (\<lambda>lib. filter (\<lambda>d. Library d = lib) l) (rev (remdups (rev (map Library l)))) \<and>
   [] \<notin> set (ByLibrary l)"
proof -
  have "mset (concat (ByLibrary l)) = mset l"
    using mset_by_library[of "rev (remdups (rev (map Library l)))" l]
    by (simp add: ByLibrary_groups library_groups_def comp_def)
  then show ?thesis
    using ByLibrary_nonempty by (auto simp: ByLibrary_groups library_groups_def)
qed

end
