(* ===== verification/Placement.thy ===== *)
theory Placement
  imports Devices
begin

text \<open>
  The memory decisions of \<^verbatim>\<open>server/sched.go\<close>: how much memory counts as available,
  which devices a model is placed on, the batch size that still fits, the context
  to retry with, and when files are not memory-mapped.  Sizes are 64-bit words with
  the wrap-around of the code; contexts and batches are Go ints.
\<close>

section \<open>Prediction\<close>

text \<open>
  The metadata of a model file the scheduler reads (\<^verbatim>\<open>f.KV()\<close> of
  \<^verbatim>\<open>fs/gguf/metadata.go\<close>); the file's size on disk is an argument.
\<close>

record gguf_kv =
  ContextLength :: "64 word"
  BlockCount :: "64 word"
  EmbeddingLength :: "64 word"
  HeadCountMax :: "64 word"
  HeadCountKVMin :: "64 word"

text \<open>\<^verbatim>\<open>f.KV()\<close>; the methods of a nil metadata pointer return their defaults.\<close>

definition model_KV :: "gguf_kv option \<Rightarrow> gguf_kv" where
  "model_KV f =
     (case f of
        None \<Rightarrow> \<lparr>ContextLength = 0, BlockCount = 0, EmbeddingLength = 0, HeadCountMax = 1, HeadCountKVMin = 1\<rparr>
      | Some kv \<Rightarrow> kv)"

definition PredictServerVRAM :: "64 word \<Rightarrow> gguf_kv option \<Rightarrow> int \<Rightarrow> 64 word" where
  "PredictServerVRAM weights f numCtx =
     (let kv = model_KV f;
          layers = BlockCount kv;
          kvHeads = (if HeadCountKVMin kv = 0 then 1 else HeadCountKVMin kv);
          headDim = (if HeadCountMax kv > 0 then EmbeddingLength kv div HeadCountMax kv else 0);
          kvCache = 2 * layers * kvHeads * headDim * word_of_int numCtx * 2
      in weights + kvCache)"

definition effectiveContext :: "int \<Rightarrow> int \<Rightarrow> int" where
  "effectiveContext numCtx trainCtx = (if trainCtx > 0 \<and> numCtx > trainCtx then trainCtx else numCtx)"

definition modelTrainContext :: "gguf_kv option \<Rightarrow> int" where
  "modelTrainContext f = (case f of None \<Rightarrow> 0 | Some kv \<Rightarrow> sint (ContextLength kv))"

definition effectiveModelContext :: "int \<Rightarrow> gguf_kv option \<Rightarrow> int" where
  "effectiveModelContext numCtx f = effectiveContext numCtx (modelTrainContext f)"

definition effectiveLlamaServerContext :: "int \<Rightarrow> gguf_kv option \<Rightarrow> int \<Rightarrow> int" where
  "effectiveLlamaServerContext numCtx f numParallel =
     sint (word_of_int (effectiveModelContext numCtx f * max numParallel 1) :: 64 word)"

definition explicitPartialGPUOffload :: "runner_options \<Rightarrow> gguf_kv option \<Rightarrow> bool" where
  "explicitPartialGPUOffload opts f =
     (case f of
        None \<Rightarrow> False
      | Some kv \<Rightarrow> if NumGPU opts \<le> 0 then False else word_of_int (NumGPU opts) < BlockCount kv + 1)"

section \<open>Generation batch\<close>

datatype flash_attention = FlashAttentionAuto | FlashAttentionDisabled | FlashAttentionEnabled

definition LlamaServerFlashAttention :: "bool option \<Rightarrow> device_info list \<Rightarrow> flash_attention" where
  "LlamaServerFlashAttention userSet gpus =
     (case userSet of
        Some enabled \<Rightarrow> if enabled then FlashAttentionEnabled else FlashAttentionDisabled
      | None \<Rightarrow> if \<not> FlashAttentionSupported gpus then FlashAttentionDisabled else FlashAttentionAuto)"

definition hasCUDADevice :: "device_info list \<Rightarrow> bool" where
  "hasCUDADevice gpus = list_ex (\<lambda>gpu. Library gpu = ''CUDA'') gpus"

definition constrainedCUDAWithoutFlashAttention :: "int \<Rightarrow> device_info list \<Rightarrow> bool" where
  "constrainedCUDAWithoutFlashAttention effectiveCtx gpus =
     (if effectiveCtx \<le> 4096 then False
      else list_ex (\<lambda>gpu.
        if Library gpu \<noteq> ''CUDA'' then False
        else (let memory =
                (if FreeMemory gpu = 0 \<or> (TotalMemory gpu > 0 \<and> TotalMemory gpu < FreeMemory gpu)
                 then TotalMemory gpu else FreeMemory gpu)
              in memory > 0 \<and> memory \<le> 8 * GibiByte)) gpus)"

definition generationBatchForContext :: "int \<Rightarrow> int" where
  "generationBatchForContext effectiveCtx =
     (if effectiveCtx > 32768 then 2048 else if effectiveCtx > 4096 then 1024 else 512)"

definition generationBatchHasHeadroom :: "int \<Rightarrow> 64 word \<Rightarrow> 64 word \<Rightarrow> bool" where
  "generationBatchHasHeadroom batch predictedVRAM availableMemory =
     (if batch \<ge> 2048 then predictedVRAM \<le> availableMemory * 60 div 100
      else if batch \<ge> 1024 then predictedVRAM \<le> availableMemory * 75 div 100
      else True)"

definition generationBatchSurcharge :: "int \<Rightarrow> 64 word" where
  "generationBatchSurcharge batch =
     (if batch \<ge> 2048 then 2 * GibiByte else if batch \<ge> 1024 then 768 * MebiByte else 0)"

definition generationBatchFits :: "int \<Rightarrow> 64 word \<Rightarrow> 64 word \<Rightarrow> bool" where
  "generationBatchFits batch predictedVRAM availableMemory =
     (if predictedVRAM = 0 \<or> availableMemory = 0 then True
      else (let threshold = availableMemory * 80 div 100 in
            if predictedVRAM > threshold then False
            else if \<not> generationBatchHasHeadroom batch predictedVRAM availableMemory then False
            else generationBatchSurcharge batch \<le> threshold - predictedVRAM))"

definition nextLowerGenerationBatch :: "int \<Rightarrow> int" where
  "nextLowerGenerationBatch batch = (if batch > 1024 then 1024 else 512)"

text \<open>The loop of \<^verbatim>\<open>automaticGenerationBatch\<close>.\<close>

function fit_batch :: "int \<Rightarrow> 64 word \<Rightarrow> 64 word \<Rightarrow> int" where
  "fit_batch batch predictedVRAM availableMemory =
     (if batch > 512 \<and> \<not> generationBatchFits batch predictedVRAM availableMemory
      then fit_batch (nextLowerGenerationBatch batch) predictedVRAM availableMemory
      else batch)"
  by pat_completeness auto
termination
  by (relation "measure (\<lambda>(batch, p, a). nat batch)") (auto simp: nextLowerGenerationBatch_def)

declare fit_batch.simps [simp del]

definition automaticGenerationBatch ::
  "int \<Rightarrow> 64 word \<Rightarrow> 64 word \<Rightarrow> flash_attention \<Rightarrow> device_info list \<Rightarrow> int" where
  "automaticGenerationBatch effectiveCtx predictedVRAM availableMemory flashAttention gpus =
     (if flashAttention = FlashAttentionDisabled \<and> hasCUDADevice gpus
      then (if constrainedCUDAWithoutFlashAttention effectiveCtx gpus then 256 else 512)
      else fit_batch (generationBatchForContext effectiveCtx) predictedVRAM availableMemory)"

definition generationBatchSurchargeForCompletion :: "bool \<Rightarrow> int \<Rightarrow> 64 word" where
  "generationBatchSurchargeForCompletion completion batch =
     (if \<not> completion then 0 else generationBatchSurcharge batch)"

lemma fit_batch_cases:
  "fit_batch 512 p a = 512"
  "fit_batch 1024 p a = (if generationBatchFits 1024 p a then 1024 else 512)"
  "fit_batch 2048 p a = (if generationBatchFits 2048 p a then 2048
     else if generationBatchFits 1024 p a then 1024 else 512)"
  by (simp_all add: fit_batch.simps[of 512] fit_batch.simps[of 1024] fit_batch.simps[of 2048]
      nextLowerGenerationBatch_def)

text \<open>A percentage of a size that is small enough not to wrap.\<close>

lemma unat_percent:
  fixes a :: "64 word"
  assumes "unat a * p < 2 ^ 64" and "p < 2 ^ 64"
  shows "unat (a * of_nat p div 100) = unat a * p div 100"
proof -
  have "unat (of_nat p :: 64 word) = p" using assms(2) by (simp add: unat_of_nat)
  then have "unat (a * of_nat p) = unat a * p"
    using assms(1) unat_mult_lem[of a "of_nat p"] by simp
  then show ?thesis by (simp add: unat_div)
qed

lemma unat_80_percent: "unat (a :: 64 word) * 80 < 2 ^ 64 \<Longrightarrow> unat (a * 80 div 100) = unat a * 80 div 100"
  using unat_percent[of a 80] by simp

lemma fits_no_wrap:
  assumes "generationBatchFits b p a" and "p \<noteq> 0" and "a \<noteq> 0" and "unat a * 80 < 2 ^ 64"
  shows "unat p + unat (generationBatchSurcharge b) \<le> unat a * 80 div 100"
proof -
  let ?t = "a * 80 div 100"
  have "p \<le> ?t" "generationBatchSurcharge b \<le> ?t - p"
    using assms(1-3) by (auto simp: generationBatchFits_def Let_def not_less split: if_splits)
  then have "unat p + unat (generationBatchSurcharge b) \<le> unat ?t"
    by (metis add.commute le_diff_conv2 unat_sub word_le_nat_alt)
  with unat_80_percent[OF assms(4)] show ?thesis by simp
qed

text \<open>
  The automatic batch is the largest of 512, 1024 and 2048 that the context calls
  for and that fits, or one of the two small ones when a CUDA device has no flash
  attention.  A batch above 512 leaves room for its surcharge: the predicted model
  and the surcharge are within 80 percent of the available memory, as true numbers.
\<close>

theorem automatic_batch_largest_fit:
  assumes "unat a * 80 < 2 ^ 64" and "p \<noteq> 0" and "a \<noteq> 0"
    and "b = automaticGenerationBatch ctx p a fa gpus"
  shows "b \<in> {256, 512, 1024, 2048} \<and> (fa \<noteq> FlashAttentionDisabled \<longrightarrow> 512 \<le> b) \<and>
    (512 < b \<longrightarrow> b \<le> generationBatchForContext ctx \<and>
       unat p + unat (generationBatchSurcharge b) \<le> unat a * 80 div 100) \<and>
    (\<forall>b' \<in> {1024, 2048}. b < b' \<longrightarrow> b' \<le> generationBatchForContext ctx \<longrightarrow>
       generationBatchFits b' p a \<longrightarrow> fa = FlashAttentionDisabled \<and> hasCUDADevice gpus)"
proof -
  have ctx: "generationBatchForContext ctx \<in> {512, 1024, 2048}"
    by (simp add: generationBatchForContext_def)
  show ?thesis
  proof (cases "fa = FlashAttentionDisabled \<and> hasCUDADevice gpus")
    case True
    with assms(4) show ?thesis by (simp add: automaticGenerationBatch_def)
  next
    case False
    then have b: "b = fit_batch (generationBatchForContext ctx) p a"
      using assms(4) by (auto simp: automaticGenerationBatch_def)
    note fits = fits_no_wrap[OF _ assms(2,3,1)]
    from ctx consider "generationBatchForContext ctx = 512" | "generationBatchForContext ctx = 1024"
      | "generationBatchForContext ctx = 2048" by blast
    then show ?thesis
      using b fits[of 1024] fits[of 2048] by cases (simp_all add: fit_batch_cases)
  qed
qed

theorem automatic_batch_largest_fit_witness:
  "automaticGenerationBatch 40000 (4 * GibiByte) (8 * GibiByte) FlashAttentionAuto [] = 2048 \<and>
   unat (4 * GibiByte) + unat (generationBatchSurcharge 2048) \<le> unat (8 * GibiByte) * 80 div 100"
proof -
  have "automaticGenerationBatch 40000 (4 * GibiByte) (8 * GibiByte) FlashAttentionAuto [] = 2048"
    by (simp add: automaticGenerationBatch_def generationBatchForContext_def fit_batch_cases
        generationBatchFits_def generationBatchHasHeadroom_def generationBatchSurcharge_def GibiByte_def
        hasCUDADevice_def Let_def word_le_nat_alt)
  then show ?thesis
    using automatic_batch_largest_fit[of "8 * GibiByte" "4 * GibiByte" 2048 40000 FlashAttentionAuto "[]"]
    by (simp add: GibiByte_def)
qed

section \<open>Available memory\<close>

text \<open>The loop of \<^verbatim>\<open>availableMemoryForLoad\<close>: all, shared and discrete free memory.\<close>

fun memory_loop ::
  "device_info list \<Rightarrow> 64 word \<Rightarrow> 64 word \<Rightarrow> 64 word \<Rightarrow> 64 word \<times> 64 word \<times> 64 word" where
  "memory_loop [] gpuFree shared discrete = (gpuFree, shared, discrete)"
| "memory_loop (gpu # gpus) gpuFree shared discrete =
     (if Integrated gpu
      then memory_loop gpus (gpuFree + FreeMemory gpu) (shared + FreeMemory gpu) discrete
      else memory_loop gpus (gpuFree + FreeMemory gpu) shared (discrete + FreeMemory gpu))"

definition availableMemoryForLoad ::
  "system_info \<Rightarrow> device_info list \<Rightarrow> 64 word \<times> 64 word \<times> bool" where
  "availableMemoryForLoad systemInfo gpus =
     (let (gpuFree, shared, discrete) = memory_loop gpus 0 0 0 in
      if sys_FreeMemory systemInfo > 0 \<and> shared > 0 \<and> sys_FreeMemory systemInfo < shared
      then (discrete + sys_FreeMemory systemInfo, gpuFree, True)
      else (gpuFree, gpuFree, False))"

definition availableMemoryForGPU :: "system_info \<Rightarrow> device_info \<Rightarrow> 64 word" where
  "availableMemoryForGPU systemInfo gpu =
     (if Integrated gpu \<and> sys_FreeMemory systemInfo > 0 \<and> sys_FreeMemory systemInfo < FreeMemory gpu
      then sys_FreeMemory systemInfo else FreeMemory gpu)"

definition gpusForPlacement :: "device_info list \<Rightarrow> runner_options \<Rightarrow> device_info list" where
  "gpusForPlacement gpus opts =
     (case MainGPU opts of
        Some i \<Rightarrow> if 0 \<le> i \<and> i < int (length gpus) then [gpus ! nat i] else gpus
      | None \<Rightarrow> gpus)"

definition availableMemoryForPlacement ::
  "system_info \<Rightarrow> device_info list \<Rightarrow> runner_options \<Rightarrow> 64 word \<times> 64 word \<times> bool" where
  "availableMemoryForPlacement systemInfo gpus opts =
     (let placementGpus = gpusForPlacement gpus opts in
      if length placementGpus = 1 \<and> MainGPU opts \<noteq> None
      then (let gpuFree = FreeMemory (hd placementGpus);
                available = availableMemoryForGPU systemInfo (hd placementGpus)
            in (available, gpuFree, available < gpuFree))
      else availableMemoryForLoad systemInfo placementGpus)"

definition free_sum :: "device_info list \<Rightarrow> nat" where
  "free_sum gpus = sum_list (map (\<lambda>g. unat (FreeMemory g)) gpus)"

lemma free_sum_simps [simp]:
  "free_sum [] = 0" "free_sum (g # gpus) = unat (FreeMemory g) + free_sum gpus"
  by (simp_all add: free_sum_def)

lemma memory_loop_sums:
  assumes "memory_loop gpus x s d = (x', s', d')" and "unat x + free_sum gpus < 2 ^ 64"
    and "unat x = unat s + unat d"
  shows "unat x' = unat x + free_sum gpus \<and> unat x' = unat s' + unat d' \<and>
    unat s' = unat s + free_sum (filter Integrated gpus) \<and>
    unat d' = unat d + free_sum (filter (\<lambda>g. \<not> Integrated g) gpus)"
  using assms
proof (induction gpus arbitrary: x s d)
  case Nil
  then show ?case by simp
next
  case (Cons g gpus)
  have wrap: "unat (y + FreeMemory g) = unat y + unat (FreeMemory g)" if "unat y \<le> unat x" for y
    using that Cons.prems(2) unat_add_lem[of y "FreeMemory g"] by simp
  show ?case
  proof (cases "Integrated g")
    case True
    with Cons.IH[of "x + FreeMemory g" "s + FreeMemory g" d] Cons.prems wrap[of x] wrap[of s]
    show ?thesis by simp
  next
    case False
    with Cons.IH[of "x + FreeMemory g" s "d + FreeMemory g"] Cons.prems wrap[of x] wrap[of d]
    show ?thesis by simp
  qed
qed

lemma available_for_load:
  assumes "availableMemoryForLoad sys gpus = (available, gpuFree, limited)" and "free_sum gpus < 2 ^ 64"
  shows "unat gpuFree = free_sum gpus \<and>
    unat available = free_sum (filter (\<lambda>g. \<not> Integrated g) gpus) +
      (if sys_FreeMemory sys = 0 then free_sum (filter Integrated gpus)
       else min (unat (sys_FreeMemory sys)) (free_sum (filter Integrated gpus))) \<and>
    (limited \<longleftrightarrow> available < gpuFree)"
proof -
  obtain x s d where m: "memory_loop gpus 0 0 0 = (x, s, d)" by (metis prod_cases3)
  note sums = memory_loop_sums[OF m]
  show ?thesis
  proof (cases "sys_FreeMemory sys > 0 \<and> s > 0 \<and> sys_FreeMemory sys < s")
    case True
    then have "unat (sys_FreeMemory sys) < unat s" by (simp add: word_less_nat_alt)
    moreover from this have "unat (d + sys_FreeMemory sys) = unat d + unat (sys_FreeMemory sys)"
      using sums assms(2) unat_add_lem[of d "sys_FreeMemory sys"] by simp
    ultimately show ?thesis
      using True assms m sums by (auto simp: availableMemoryForLoad_def word_less_nat_alt unat_gt_0)
  next
    case False
    then have "sys_FreeMemory sys = 0 \<or> unat s \<le> unat (sys_FreeMemory sys)"
      by (auto simp: not_less word_le_nat_alt word_gt_0)
    with False assms m sums show ?thesis
      by (auto simp: availableMemoryForLoad_def word_gt_0 min_absorb2)
  qed
qed

text \<open>
  The memory counted as available for a load is the free memory of the discrete
  devices plus that of the integrated ones, the latter capped by the free system
  memory when that is known; the load is reported as limited by the system exactly
  when the cap removed something.  (The sum of the reported free memory must not
  exceed the 64-bit range.)
\<close>

theorem available_memory_capped_by_system:
  assumes "availableMemoryForLoad sys gpus = (available, gpuFree, limited)"
    and "free_sum gpus < 2 ^ 64"
  shows "unat gpuFree = free_sum gpus \<and>
    unat available = free_sum (filter (\<lambda>g. \<not> Integrated g) gpus) +
      (if sys_FreeMemory sys = 0 then free_sum (filter Integrated gpus)
       else min (unat (sys_FreeMemory sys)) (free_sum (filter Integrated gpus))) \<and>
    available \<le> gpuFree \<and> (limited \<longleftrightarrow> available < gpuFree)"
proof -
  have "free_sum gpus = free_sum (filter (\<lambda>g. \<not> Integrated g) gpus) + free_sum (filter Integrated gpus)"
    by (induction gpus) auto
  with available_for_load[OF assms] show ?thesis by (auto simp: word_le_nat_alt)
qed

text \<open>A GPU that shares memory with the system, next to a discrete one.\<close>

definition gpu_with :: "bool \<Rightarrow> string \<Rightarrow> string \<Rightarrow> 64 word \<Rightarrow> device_info" where
  "gpu_with integrated i lib m =
     \<lparr>dev_ID = i, Library = lib, dev_Name = [], Description = [], FilterID = [], Integrated = integrated,
      PCIID = [], TotalMemory = m, FreeMemory = m, ComputeMajor = 8, ComputeMinor = 0, DriverMajor = 12,
      DriverMinor = 0\<rparr>"

lemma gpu_with_simps [simp]:
  "Integrated (gpu_with b i lib m) = b" "Library (gpu_with b i lib m) = lib"
  "FreeMemory (gpu_with b i lib m) = m" "dev_ID (gpu_with b i lib m) = i"
  "TotalMemory (gpu_with b i lib m) = m"
  by (simp_all add: gpu_with_def)

theorem available_memory_capped_by_system_witness:
  "let sys = \<lparr>sys_TotalMemory = 100, sys_FreeMemory = 6, FreeSwap = 0\<rparr>;
       gpus = [gpu_with True ''0'' ''Vulkan'' 10, gpu_with False ''1'' ''Vulkan'' 4]
   in availableMemoryForLoad sys gpus = (10, 14, True) \<and> (10 :: 64 word) \<le> 14"
  using available_memory_capped_by_system[of "\<lparr>sys_TotalMemory = 100, sys_FreeMemory = 6, FreeSwap = 0\<rparr>"
      "[gpu_with True ''0'' ''Vulkan'' 10, gpu_with False ''1'' ''Vulkan'' 4]" 10 14 True]
  by (simp add: availableMemoryForLoad_def)

section \<open>Choosing the devices\<close>

definition betterPlacementGPU :: "device_info \<Rightarrow> 64 word \<Rightarrow> device_info \<Rightarrow> 64 word \<Rightarrow> bool" where
  "betterPlacementGPU candidate candidateAvailable current currentAvailable =
     (if Integrated candidate \<noteq> Integrated current then \<not> Integrated candidate
      else candidateAvailable > currentAvailable)"

text \<open>The loops keep the best device so far with its available memory; none is \<^term>\<open>None\<close>.\<close>

definition consider_gpu ::
  "system_info \<Rightarrow> device_info \<Rightarrow> (device_info \<times> 64 word) option \<Rightarrow> (device_info \<times> 64 word) option" where
  "consider_gpu systemInfo candidate best =
     (let candidateAvailable = availableMemoryForGPU systemInfo candidate in
      case best of
        None \<Rightarrow> Some (candidate, candidateAvailable)
      | Some (gpu, available) \<Rightarrow>
          if betterPlacementGPU candidate candidateAvailable gpu available
          then Some (candidate, candidateAvailable) else best)"

fun explicit_gpu_loop ::
  "system_info \<Rightarrow> device_info list list \<Rightarrow> int \<Rightarrow> (device_info \<times> 64 word) option \<Rightarrow>
   (device_info \<times> 64 word) option" where
  "explicit_gpu_loop systemInfo [] mainGPU best = best"
| "explicit_gpu_loop systemInfo (grp # groups) mainGPU best =
     (if mainGPU \<ge> int (length grp) then explicit_gpu_loop systemInfo groups mainGPU best
      else explicit_gpu_loop systemInfo groups mainGPU
             (consider_gpu systemInfo (grp ! nat mainGPU) best))"

definition bestExplicitMainGPU ::
  "system_info \<Rightarrow> device_info list list \<Rightarrow> int \<Rightarrow> (device_info \<times> 64 word) option" where
  "bestExplicitMainGPU systemInfo groups mainGPU =
     (if mainGPU < 0 then None else explicit_gpu_loop systemInfo groups mainGPU None)"

fun fit_gpu_loop ::
  "system_info \<Rightarrow> device_info list \<Rightarrow> 64 word \<Rightarrow> (device_info \<times> 64 word) option \<Rightarrow>
   (device_info \<times> 64 word) option" where
  "fit_gpu_loop systemInfo [] predictedVRAM best = best"
| "fit_gpu_loop systemInfo (candidate # grp) predictedVRAM best =
     (if predictedVRAM > availableMemoryForGPU systemInfo candidate * 80 div 100
      then fit_gpu_loop systemInfo grp predictedVRAM best
      else fit_gpu_loop systemInfo grp predictedVRAM (consider_gpu systemInfo candidate best))"

definition bestSingleGPUFit ::
  "system_info \<Rightarrow> device_info list list \<Rightarrow> 64 word \<Rightarrow> (device_info \<times> 64 word) option" where
  "bestSingleGPUFit systemInfo groups predictedVRAM =
     foldl (\<lambda>best grp. fit_gpu_loop systemInfo grp predictedVRAM best) None groups"

definition hasDiscreteGPU :: "device_info list \<Rightarrow> bool" where
  "hasDiscreteGPU gpus = list_ex (\<lambda>gpu. \<not> Integrated gpu) gpus"

definition betterPlacementGroup ::
  "device_info list \<Rightarrow> 64 word \<Rightarrow> device_info list \<Rightarrow> 64 word \<Rightarrow> bool" where
  "betterPlacementGroup candidate candidateAvailable current currentAvailable =
     (if hasDiscreteGPU candidate \<noteq> hasDiscreteGPU current then hasDiscreteGPU candidate
      else candidateAvailable > currentAvailable)"

fun best_group_loop ::
  "system_info \<Rightarrow> device_info list list \<Rightarrow> (device_info list \<times> 64 word) option \<Rightarrow>
   (device_info list \<times> 64 word) option" where
  "best_group_loop systemInfo [] best = best"
| "best_group_loop systemInfo (grp # groups) best =
     (let available = fst (availableMemoryForLoad systemInfo grp) in
      case best of
        None \<Rightarrow> best_group_loop systemInfo groups (Some (grp, available))
      | Some (b, bestAvailable) \<Rightarrow>
          if betterPlacementGroup grp available b bestAvailable
          then best_group_loop systemInfo groups (Some (grp, available))
          else best_group_loop systemInfo groups best)"

definition bestGPUGroupByAvailableMemory :: "system_info \<Rightarrow> device_info list list \<Rightarrow> device_info list" where
  "bestGPUGroupByAvailableMemory systemInfo groups =
     (case best_group_loop systemInfo groups None of None \<Rightarrow> [] | Some (b, _) \<Rightarrow> b)"

definition singleLlamaServerGPUPlacement ::
  "device_info \<Rightarrow> runner_options \<Rightarrow> device_info list \<times> runner_options" where
  "singleLlamaServerGPUPlacement gpu opts = ([gpu], opts\<lparr>MainGPU := Some 0\<rparr>)"

text \<open>\<open>spread\<close> is the setting read by \<^verbatim>\<open>envconfig.SchedSpread\<close>.\<close>

definition selectLlamaServerPlacement ::
  "bool \<Rightarrow> system_info \<Rightarrow> device_info list \<Rightarrow> 64 word \<Rightarrow> runner_options \<Rightarrow>
   device_info list \<times> runner_options" where
  "selectLlamaServerPlacement spread systemInfo gpus predictedVRAM opts =
     (if length gpus \<le> 1 \<or> NumGPU opts = 0 then (gpus, opts)
      else (let groups = ByLibrary gpus in
        if groups = [] then (gpus, opts)
        else (case MainGPU opts of
          Some mainGPU \<Rightarrow>
            (case bestExplicitMainGPU systemInfo groups mainGPU of
               None \<Rightarrow> (bestGPUGroupByAvailableMemory systemInfo groups, opts)
             | Some (gpu, _) \<Rightarrow> singleLlamaServerGPUPlacement gpu opts)
        | None \<Rightarrow>
            (case (if \<not> spread \<and> predictedVRAM > 0
                   then bestSingleGPUFit systemInfo groups predictedVRAM else None) of
               Some (gpu, _) \<Rightarrow> singleLlamaServerGPUPlacement gpu opts
             | None \<Rightarrow> (bestGPUGroupByAvailableMemory systemInfo groups, opts)))))"

lemma better_trans:
  "betterPlacementGPU a x b y \<Longrightarrow> \<not> betterPlacementGPU c z b y \<Longrightarrow> \<not> betterPlacementGPU c z a x"
  by (auto simp: betterPlacementGPU_def split: if_splits)

text \<open>
  \<open>best_of\<close>: the kept device is one of \<open>ds\<close>, with its available memory, and none of
  \<open>ds\<close> is better.
\<close>

definition best_of :: "system_info \<Rightarrow> device_info set \<Rightarrow> (device_info \<times> 64 word) option \<Rightarrow> bool" where
  "best_of sys ds best \<longleftrightarrow>
     (case best of
        None \<Rightarrow> ds = {}
      | Some (g, a) \<Rightarrow> g \<in> ds \<and> a = availableMemoryForGPU sys g \<and>
          (\<forall>d \<in> ds. \<not> betterPlacementGPU d (availableMemoryForGPU sys d) g a))"

lemma best_of_consider:
  assumes "best_of sys ds best"
  shows "best_of sys (insert d ds) (consider_gpu sys d best)"
proof (cases best)
  case None
  with assms show ?thesis by (simp add: best_of_def consider_gpu_def betterPlacementGPU_def)
next
  case (Some ga)
  obtain g a where ga: "ga = (g, a)" by fastforce
  let ?x = "availableMemoryForGPU sys d"
  from assms Some ga have old: "g \<in> ds" "a = availableMemoryForGPU sys g"
    "\<forall>e \<in> ds. \<not> betterPlacementGPU e (availableMemoryForGPU sys e) g a"
    by (auto simp: best_of_def)
  show ?thesis
  proof (cases "betterPlacementGPU d ?x g a")
    case True
    with old(3) have "\<forall>e \<in> ds. \<not> betterPlacementGPU e (availableMemoryForGPU sys e) d ?x"
      using better_trans by blast
    moreover have "\<not> betterPlacementGPU d ?x d ?x" by (simp add: betterPlacementGPU_def)
    ultimately show ?thesis using True Some ga by (simp add: best_of_def consider_gpu_def)
  next
    case False
    with old Some ga show ?thesis by (simp add: best_of_def consider_gpu_def)
  qed
qed

definition fits_gpu :: "system_info \<Rightarrow> 64 word \<Rightarrow> device_info \<Rightarrow> bool" where
  "fits_gpu sys predictedVRAM d \<longleftrightarrow> predictedVRAM \<le> availableMemoryForGPU sys d * 80 div 100"

lemma fit_gpu_loop_fits:
  "fit_gpu_loop sys (d # grp) p best =
     fit_gpu_loop sys grp p (if fits_gpu sys p d then consider_gpu sys d best else best)"
  by (simp add: fits_gpu_def linorder_not_less[symmetric])

lemma fit_gpu_loop_best:
  "best_of sys ds best \<Longrightarrow>
   best_of sys (ds \<union> {d \<in> set grp. fits_gpu sys p d}) (fit_gpu_loop sys grp p best)"
proof (induction grp arbitrary: ds best)
  case Nil
  then show ?case by simp
next
  case (Cons d grp)
  show ?case
  proof (cases "fits_gpu sys p d")
    case True
    then have "ds \<union> {e \<in> set (d # grp). fits_gpu sys p e} = insert d ds \<union> {e \<in> set grp. fits_gpu sys p e}"
      by auto
    with Cons.IH[OF best_of_consider[OF Cons.prems]] True show ?thesis
      by (simp add: fit_gpu_loop_fits del: fit_gpu_loop.simps)
  next
    case False
    then have "ds \<union> {e \<in> set (d # grp). fits_gpu sys p e} = ds \<union> {e \<in> set grp. fits_gpu sys p e}"
      by auto
    with Cons.IH[OF Cons.prems] False show ?thesis
      by (simp add: fit_gpu_loop_fits del: fit_gpu_loop.simps)
  qed
qed

lemma fit_groups_best:
  "best_of sys ds best \<Longrightarrow>
   best_of sys (ds \<union> {d. (\<exists>g \<in> set groups. d \<in> set g) \<and> fits_gpu sys p d})
     (foldl (\<lambda>best grp. fit_gpu_loop sys grp p best) best groups)"
proof (induction groups arbitrary: ds best)
  case Nil
  then show ?case by simp
next
  case (Cons g groups)
  have "ds \<union> {d. (\<exists>h \<in> set (g # groups). d \<in> set h) \<and> fits_gpu sys p d} =
      (ds \<union> {d \<in> set g. fits_gpu sys p d}) \<union> {d. (\<exists>h \<in> set groups. d \<in> set h) \<and> fits_gpu sys p d}"
    by auto
  with Cons.IH[OF fit_gpu_loop_best[OF Cons.prems]] show ?case by simp
qed

lemma best_single_fit:
  "best_of sys {d \<in> set gpus. fits_gpu sys p d} (bestSingleGPUFit sys (ByLibrary gpus) p)"
proof -
  have "best_of sys {} None" by (simp add: best_of_def)
  from fit_groups_best[OF this, of "ByLibrary gpus" p]
  have "best_of sys {d. (\<exists>g \<in> set (ByLibrary gpus). d \<in> set g) \<and> fits_gpu sys p d}
      (bestSingleGPUFit sys (ByLibrary gpus) p)"
    by (simp add: bestSingleGPUFit_def)
  moreover have "(\<exists>g \<in> set (ByLibrary gpus). d \<in> set g) \<longleftrightarrow> d \<in> set gpus" for d
    using ByLibrary_member[of d gpus] ByLibrary_subset[of _ gpus] by blast
  ultimately show ?thesis by simp
qed

lemma explicit_loop_member:
  assumes "0 \<le> i" and "explicit_gpu_loop sys groups i best = Some (g, a)"
    and "\<And>g' a'. best = Some (g', a') \<Longrightarrow> g' \<in> ds" and "\<And>grp. grp \<in> set groups \<Longrightarrow> set grp \<subseteq> ds"
  shows "g \<in> ds"
  using assms(2-)
proof (induction groups arbitrary: best)
  case Nil
  then show ?case by simp
next
  case (Cons grp groups)
  show ?case
  proof (cases "i \<ge> int (length grp)")
    case True
    with Cons show ?thesis by simp
  next
    case False
    then have "grp ! nat i \<in> ds" using Cons.prems(3)[of grp] assms(1) by (auto intro: nth_mem)
    then have "consider_gpu sys (grp ! nat i) best = Some (g', a') \<Longrightarrow> g' \<in> ds" for g' a'
      using Cons.prems(2) by (auto simp: consider_gpu_def Let_def split: option.splits if_splits)
    with False Cons show ?thesis by simp
  qed
qed

lemma explicit_gpu_member: "bestExplicitMainGPU sys (ByLibrary gpus) i = Some (g, a) \<Longrightarrow> g \<in> set gpus"
  using explicit_loop_member[of i sys "ByLibrary gpus" None g a "set gpus"] ByLibrary_subset[of _ gpus]
  by (auto simp: bestExplicitMainGPU_def split: if_splits)

lemma best_group_loop_from:
  "\<exists>x. best_group_loop sys groups (Some ga) = Some x \<and> (x = ga \<or> fst x \<in> set groups)"
proof (induction groups arbitrary: ga)
  case Nil
  then show ?case by simp
next
  case (Cons grp groups)
  obtain g a where "ga = (g, a)" by fastforce
  with Cons.IH[of ga] Cons.IH[of "(grp, fst (availableMemoryForLoad sys grp))"] show ?case
    by (auto simp: Let_def)
qed

lemma best_group_member:
  "groups \<noteq> [] \<Longrightarrow> bestGPUGroupByAvailableMemory sys groups \<in> set groups"
proof (cases groups)
  case (Cons grp rest)
  then show ?thesis
    using best_group_loop_from[of sys rest "(grp, fst (availableMemoryForLoad sys grp))"]
    by (auto simp: bestGPUGroupByAvailableMemory_def Let_def)
qed simp

lemma select_placement:
  assumes "selectLlamaServerPlacement spread sys gpus p opts = (selected, launchOpts)"
    and "1 < length gpus" and "NumGPU opts \<noteq> 0"
  shows "(\<exists>g \<in> set gpus. selected = [g] \<and> launchOpts = opts\<lparr>MainGPU := Some 0\<rparr>) \<or>
    (selected \<in> set (ByLibrary gpus) \<and> launchOpts = opts)"
proof -
  have "ByLibrary gpus \<noteq> []" using assms(2) by auto
  then have grp: "bestGPUGroupByAvailableMemory sys (ByLibrary gpus) \<in> set (ByLibrary gpus)"
    by (rule best_group_member)
  have single: "bestSingleGPUFit sys (ByLibrary gpus) p = Some (g, a) \<Longrightarrow> g \<in> set gpus" for g a
    using best_single_fit[of sys gpus p] by (auto simp: best_of_def)
  show ?thesis
    using assms grp single explicit_gpu_member[of sys gpus]
    by (auto simp: selectLlamaServerPlacement_def singleLlamaServerGPUPlacement_def Let_def
        split: option.splits if_splits)
qed

text \<open>
  When there is a choice, a model is placed on devices of one backend only: on one
  device, which is then the main one, or on all devices of a library.  The selection
  is never empty and invents no device.
\<close>

theorem placement_one_backend:
  assumes "selectLlamaServerPlacement spread sys gpus p opts = (selected, launchOpts)"
    and "1 < length gpus" and "NumGPU opts \<noteq> 0"
  shows "selected \<noteq> [] \<and> set selected \<subseteq> set gpus \<and>
    (\<exists>lib. \<forall>d \<in> set selected. Library d = lib) \<and>
    (launchOpts = opts \<and> (\<exists>lib. selected = filter (\<lambda>d. Library d = lib) gpus) \<or>
     launchOpts = opts\<lparr>MainGPU := Some 0\<rparr> \<and> length selected = 1)"
  using select_placement[OF assms]
proof
  assume "\<exists>g \<in> set gpus. selected = [g] \<and> launchOpts = opts\<lparr>MainGPU := Some 0\<rparr>"
  then show ?thesis by auto
next
  assume s: "selected \<in> set (ByLibrary gpus) \<and> launchOpts = opts"
  then obtain lib where "selected = filter (\<lambda>d. Library d = lib) gpus" using ByLibrary_group by blast
  with s ByLibrary_nonempty[of selected gpus] show ?thesis by auto
qed

definition auto_opts :: runner_options where
  "auto_opts = \<lparr>NumCtx = 4096, NumBatch = 512, NumGPU = -1, MainGPU = None, UseMMap = None,
     NumThread = 0, DraftNumPredict = 0\<rparr>"

definition two_gpus :: "device_info list" where
  "two_gpus = [gpu_with False ''0'' ''CUDA'' 100, gpu_with False ''1'' ''ROCm'' 200]"

definition some_system :: system_info where
  "some_system = \<lparr>sys_TotalMemory = 1000, sys_FreeMemory = 500, FreeSwap = 0\<rparr>"

lemma two_gpus_single:
  "selectLlamaServerPlacement False some_system two_gpus 120 auto_opts =
     ([gpu_with False ''1'' ''ROCm'' 200], auto_opts\<lparr>MainGPU := Some 0\<rparr>)"
  by (simp add: selectLlamaServerPlacement_def two_gpus_def auto_opts_def ByLibrary_def bestSingleGPUFit_def
      singleLlamaServerGPUPlacement_def availableMemoryForGPU_def consider_gpu_def betterPlacementGPU_def
      gpu_with_def)

theorem placement_one_backend_witness:
  "selectLlamaServerPlacement False some_system two_gpus 120 auto_opts =
     ([gpu_with False ''1'' ''ROCm'' 200], auto_opts\<lparr>MainGPU := Some 0\<rparr>) \<and>
   set [gpu_with False ''1'' ''ROCm'' 200] \<subseteq> set two_gpus"
  using placement_one_backend[OF two_gpus_single] two_gpus_single
  by (simp add: two_gpus_def auto_opts_def)

text \<open>
  C30. Without a requested main device and without the spread setting, a model that fits
  on one device (80 percent of its available memory) is placed on a single one: it
  fits there, and no other device it fits on is better (discrete before integrated,
  then more available memory).
\<close>

theorem placement_prefers_best_single_fit:
  assumes "1 < length gpus" and "NumGPU opts \<noteq> 0" and "MainGPU opts = None" and "0 < p"
    and "d \<in> set gpus" and "p \<le> availableMemoryForGPU sys d * 80 div 100"
  shows "\<exists>g \<in> set gpus. selectLlamaServerPlacement False sys gpus p opts =
      ([g], opts\<lparr>MainGPU := Some 0\<rparr>) \<and>
    p \<le> availableMemoryForGPU sys g * 80 div 100 \<and>
    (\<forall>e \<in> set gpus. p \<le> availableMemoryForGPU sys e * 80 div 100 \<longrightarrow>
       (Integrated g \<longrightarrow> Integrated e) \<and>
       (Integrated e = Integrated g \<longrightarrow> availableMemoryForGPU sys e \<le> availableMemoryForGPU sys g))"
proof -
  have d: "d \<in> {d \<in> set gpus. fits_gpu sys p d}" using assms(5,6) by (simp add: fits_gpu_def)
  with best_single_fit[of sys gpus p] obtain g a where
    b: "bestSingleGPUFit sys (ByLibrary gpus) p = Some (g, a)"
    by (cases "bestSingleGPUFit sys (ByLibrary gpus) p") (auto simp: best_of_def)
  with best_single_fit[of sys gpus p] have
    "g \<in> set gpus" "fits_gpu sys p g"
    "\<forall>e \<in> set gpus. fits_gpu sys p e \<longrightarrow> (Integrated g \<longrightarrow> Integrated e) \<and>
       (Integrated e = Integrated g \<longrightarrow> availableMemoryForGPU sys e \<le> availableMemoryForGPU sys g)"
    by (auto simp: best_of_def betterPlacementGPU_def not_less split: if_splits)
  moreover have "selectLlamaServerPlacement False sys gpus p opts = ([g], opts\<lparr>MainGPU := Some 0\<rparr>)"
    using assms(1-4) b
    by (auto simp: selectLlamaServerPlacement_def singleLlamaServerGPUPlacement_def Let_def)
  ultimately show ?thesis unfolding fits_gpu_def by blast
qed

theorem placement_prefers_best_single_fit_witness:
  "\<exists>g \<in> set two_gpus. selectLlamaServerPlacement False some_system two_gpus 120 auto_opts =
      ([g], auto_opts\<lparr>MainGPU := Some 0\<rparr>)"
  using placement_prefers_best_single_fit[of two_gpus auto_opts 120 "gpu_with False ''1'' ''ROCm'' 200" some_system]
  by (auto simp: two_gpus_def auto_opts_def availableMemoryForGPU_def word_le_nat_alt word_less_nat_alt)

section \<open>Memory mapping\<close>

definition hasDeviceLibrary :: "(nat \<Rightarrow> nat) \<Rightarrow> device_info list \<Rightarrow> string \<Rightarrow> bool" where
  "hasDeviceLibrary casefold gpus library = list_ex (\<lambda>gpu. equal_fold casefold (Library gpu) library) gpus"

definition allDevicesLibrary :: "(nat \<Rightarrow> nat) \<Rightarrow> device_info list \<Rightarrow> string \<Rightarrow> bool" where
  "allDevicesLibrary casefold gpus library =
     (if gpus = [] then False else list_all (\<lambda>gpu. equal_fold casefold (Library gpu) library) gpus)"

definition disableMmapDefaultReason ::
  "(nat \<Rightarrow> nat) \<Rightarrow> string \<Rightarrow> runner_options \<Rightarrow> device_info list \<Rightarrow> 64 word \<Rightarrow> 64 word \<Rightarrow> 64 word \<Rightarrow> string" where
  "disableMmapDefaultReason casefold goos opts gpus blockCount predictedVRAM availableVRAM =
     (if UseMMap opts \<noteq> None then []
      else if NumGPU opts = 0 \<or> gpus = [] \<or> allDevicesLibrary casefold gpus ''cpu'' then ''cpu''
      else if goos = ''windows'' \<and> hasDeviceLibrary casefold gpus ''cuda'' then ''windows_cuda''
      else if hasDeviceLibrary casefold gpus ''metal'' then
        (if NumGPU opts > 0 \<and> blockCount > 0 \<and> word_of_int (NumGPU opts) < blockCount + 1
         then ''metal_partial_offload''
         else if NumGPU opts < 0 \<and> predictedVRAM > 0 \<and> availableVRAM > 0 \<and> predictedVRAM > availableVRAM
         then ''metal_partial_offload''
         else [])
      else [])"

definition allDiscreteGPUs :: "device_info list \<Rightarrow> bool" where
  "allDiscreteGPUs gpus = (if gpus = [] then False else list_all (\<lambda>gpu. \<not> Integrated gpu) gpus)"

definition mmapHostPressureHeadroom :: "64 word \<Rightarrow> 64 word" where
  "mmapHostPressureHeadroom totalMemory =
     (if totalMemory = 0 then 8 * GigaByte else max (8 * GigaByte) (totalMemory div 10))"

definition disableMmapForHostPressure ::
  "string \<Rightarrow> runner_options \<Rightarrow> system_info \<Rightarrow> device_info list \<Rightarrow> 64 word \<Rightarrow> 64 word \<Rightarrow> 64 word \<Rightarrow>
   64 word \<Rightarrow> bool" where
  "disableMmapForHostPressure goos opts systemInfo gpus modelSize loadedMmapSize predictedVRAM availableVRAM =
     (if UseMMap opts \<noteq> None \<or> goos \<noteq> ''linux'' \<or> modelSize = 0 \<or> sys_FreeMemory systemInfo = 0 \<or>
         \<not> allDiscreteGPUs gpus
      then False
      else if predictedVRAM = 0 \<or> availableVRAM = 0 \<or> predictedVRAM > availableVRAM * 80 div 100 then False
      else sys_FreeMemory systemInfo <
        modelSize + loadedMmapSize + mmapHostPressureHeadroom (sys_TotalMemory systemInfo))"

text \<open>
  \<^verbatim>\<open>modelFileSize\<close>: each path is given by what \<^verbatim>\<open>os.Stat\<close> reports, \<^term>\<open>None\<close> for an
  error; an empty path is skipped.
\<close>

fun modelFileSize_loop :: "(string \<Rightarrow> int option) \<Rightarrow> string list \<Rightarrow> 64 word \<Rightarrow> 64 word" where
  "modelFileSize_loop stat [] sofar = sofar"
| "modelFileSize_loop stat (path # paths) sofar =
     (if path = [] then modelFileSize_loop stat paths sofar
      else (case stat path of
              None \<Rightarrow> 0
            | Some n \<Rightarrow> if n < 0 \<or> word_of_int n > (- 1 :: 64 word) - sofar then 0
                else modelFileSize_loop stat paths (sofar + word_of_int n)))"

definition modelFileSize :: "(string \<Rightarrow> int option) \<Rightarrow> string list \<Rightarrow> 64 word" where
  "modelFileSize stat paths = modelFileSize_loop stat paths 0"

section \<open>A smaller context after an out-of-memory load\<close>

definition nextLowerAutoNumCtx :: "int \<Rightarrow> int option" where
  "nextLowerAutoNumCtx numCtx =
     (if numCtx > 32768 then Some 32768 else if numCtx > 4096 then Some 4096 else None)"

text \<open>
  The parts of \<^verbatim>\<open>Model\<close> and \<^verbatim>\<open>LlmRequest\<close> the scheduler works on.  The channels of a
  request are left to the scheduler's step relation; its context is a number.
\<close>

record go_model =
  model_Name :: string
  ShortName :: string
  Digest :: string
  ManifestDigest :: string
  ModelPath :: string
  ModelShardPaths :: "string list"
  AdapterPaths :: "string list"
  ProjectorPaths :: "string list"
  ModelFamily :: string
  ModelFamilies :: "string list"
  IsMLX :: bool

record llm_request =
  req_ctx :: nat
  req_model :: go_model
  req_opts :: runner_options
  req_sessionDuration :: "int option"
  oomRetryAttempted :: bool
  req_numCtxAuto :: bool
  req_numBatchAuto :: bool
  req_useMMapAuto :: bool
  req_contextShift :: bool
  req_shift :: "bool option"

definition applyAutomaticGenerationBatch ::
  "llm_request \<Rightarrow> bool \<Rightarrow> int \<Rightarrow> 64 word \<Rightarrow> 64 word \<Rightarrow> flash_attention \<Rightarrow> device_info list \<Rightarrow> llm_request" where
  "applyAutomaticGenerationBatch req completion effectiveCtx predictedVRAM availableMemory flashAttention gpus =
     (if \<not> completion \<or> \<not> req_numBatchAuto req then req
      else req\<lparr>req_opts := (req_opts req)\<lparr>NumBatch :=
             automaticGenerationBatch effectiveCtx predictedVRAM availableMemory flashAttention gpus\<rparr>\<rparr>)"

text \<open>
  \<^verbatim>\<open>reduceAutoNumCtxForLoadOOM\<close>: the request after the call with the old, effective
  and new context and the old and new batch, or \<^term>\<open>None\<close> with the request unchanged.
  \<open>weights\<close> is the size of the model file.
\<close>

definition reduceAutoNumCtxForLoadOOM ::
  "llm_request \<Rightarrow> 64 word \<Rightarrow> gguf_kv option \<Rightarrow> int \<Rightarrow> bool \<Rightarrow> system_info \<Rightarrow> device_info list \<Rightarrow>
   runner_options \<Rightarrow> bool option \<Rightarrow> ((int \<times> int \<times> int \<times> int \<times> int) \<times> llm_request) option" where
  "reduceAutoNumCtxForLoadOOM req weights f numParallel completion systemInfo gpus launchOpts userSet =
     (if \<not> req_numCtxAuto req then None
      else (let oldNumCtx = NumCtx (req_opts req);
                oldNumBatch = NumBatch (req_opts req);
                effectiveNumCtx = effectiveContext oldNumCtx (modelTrainContext f)
            in case nextLowerAutoNumCtx effectiveNumCtx of
                 None \<Rightarrow> None
               | Some newNumCtx \<Rightarrow>
                   if newNumCtx \<ge> oldNumCtx then None
                   else (let req1 = req\<lparr>req_opts := (req_opts req)\<lparr>NumCtx := newNumCtx\<rparr>\<rparr>;
                             predictedCtx = effectiveLlamaServerContext newNumCtx f numParallel;
                             predictedVRAM = PredictServerVRAM weights f predictedCtx;
                             available = fst (availableMemoryForPlacement systemInfo gpus launchOpts);
                             req2 = applyAutomaticGenerationBatch req1 completion predictedCtx predictedVRAM
                               available (LlamaServerFlashAttention userSet gpus) gpus
                         in Some ((oldNumCtx, effectiveNumCtx, newNumCtx, oldNumBatch,
                                   NumBatch (req_opts req2)), req2))))"

text \<open>
  \<^verbatim>\<open>maybeDisableMmapForHostPressure\<close> and \<^verbatim>\<open>applyLlamaServerMmapDefaults\<close>.  \<open>stat\<close> is the
  file system, \<open>loadedMmapSize\<close> what \<^verbatim>\<open>loadedMmapModelSizeLocked\<close> returned.
\<close>

definition modelPaths :: "go_model \<Rightarrow> string list" where
  "modelPaths m = (if ModelPath m = [] then [] else ModelPath m # ModelShardPaths m)"

definition maybeDisableMmapForHostPressure ::
  "string \<Rightarrow> (string \<Rightarrow> int option) \<Rightarrow> 64 word \<Rightarrow> 64 word \<Rightarrow> llm_request \<Rightarrow> runner_options \<Rightarrow> system_info \<Rightarrow>
   device_info list \<Rightarrow> gguf_kv option \<Rightarrow> int \<Rightarrow> llm_request" where
  "maybeDisableMmapForHostPressure goos stat weights loadedMmapSize req launchOpts systemInfo gpus f numParallel =
     (let modelSize = modelFileSize stat (modelPaths (req_model req));
          predictedCtx = effectiveLlamaServerContext (NumCtx (req_opts req)) f numParallel;
          predictedVRAM = PredictServerVRAM weights f predictedCtx;
          availableVRAM = fst (availableMemoryForPlacement systemInfo gpus launchOpts);
          placementGpus = gpusForPlacement gpus launchOpts
      in if \<not> disableMmapForHostPressure goos (req_opts req) systemInfo placementGpus modelSize
              loadedMmapSize predictedVRAM availableVRAM
         then req
         else req\<lparr>req_opts := (req_opts req)\<lparr>UseMMap := Some False\<rparr>, req_useMMapAuto := True\<rparr>)"

definition applyLlamaServerMmapDefaults ::
  "(nat \<Rightarrow> nat) \<Rightarrow> string \<Rightarrow> (string \<Rightarrow> int option) \<Rightarrow> 64 word \<Rightarrow> 64 word \<Rightarrow> llm_request \<Rightarrow> runner_options \<Rightarrow>
   system_info \<Rightarrow> device_info list \<Rightarrow> gguf_kv option \<Rightarrow> int \<Rightarrow> runner_options \<times> llm_request" where
  "applyLlamaServerMmapDefaults casefold goos stat weights loadedMmapSize req launchOpts systemInfo gpus f numParallel =
     (let predictedCtx = effectiveLlamaServerContext (NumCtx (req_opts req)) f numParallel;
          predictedVRAM = PredictServerVRAM weights f predictedCtx;
          availableVRAM = fst (availableMemoryForPlacement systemInfo gpus launchOpts);
          reason = disableMmapDefaultReason casefold goos (req_opts req) gpus (BlockCount (model_KV f)) predictedVRAM
            availableVRAM;
          req' = (if reason \<noteq> []
            then req\<lparr>req_opts := (req_opts req)\<lparr>UseMMap := Some False\<rparr>, req_useMMapAuto := True\<rparr>
            else maybeDisableMmapForHostPressure goos stat weights loadedMmapSize req launchOpts systemInfo
              gpus f numParallel)
      in (launchOpts\<lparr>UseMMap := UseMMap (req_opts req')\<rparr>, req'))"

text \<open>
  Retrying a load after running out of memory shrinks the automatic context: the new
  one is 4096 or 32768, below the requested one and below the effective one, and it is
  the only change besides the batch.  Three retries in a row are impossible.
\<close>

theorem reduced_context_decreases:
  assumes "reduceAutoNumCtxForLoadOOM req w f n completion sys gpus opts u = Some ((old, eff, new, ob, nb), req')"
  shows "new \<in> {4096, 32768} \<and> new < old \<and> new < eff \<and> NumCtx (req_opts req') = new \<and>
    req' = req\<lparr>req_opts := (req_opts req)\<lparr>NumCtx := new, NumBatch := nb\<rparr>\<rparr> \<and>
    (\<forall>r2 x w2 f2. reduceAutoNumCtxForLoadOOM req' w2 f2 n completion sys gpus opts u = Some (x, r2) \<longrightarrow>
       (\<forall>w3 f3. reduceAutoNumCtxForLoadOOM r2 w3 f3 n completion sys gpus opts u = None))"
proof -
  have step: "NumCtx (req_opts r') < NumCtx (req_opts r) \<and> NumCtx (req_opts r') \<in> {4096, 32768}"
    if "reduceAutoNumCtxForLoadOOM r w f n completion sys gpus opts u = Some (x, r')" for r w f x r'
    using that
    by (auto simp: reduceAutoNumCtxForLoadOOM_def nextLowerAutoNumCtx_def Let_def
        applyAutomaticGenerationBatch_def effectiveContext_def split: if_splits)
  have last: "reduceAutoNumCtxForLoadOOM r w f n completion sys gpus opts u = None"
    if "NumCtx (req_opts r) = 4096" for r w f
    using that
    by (auto simp: reduceAutoNumCtxForLoadOOM_def nextLowerAutoNumCtx_def Let_def effectiveContext_def)
  have two: "reduceAutoNumCtxForLoadOOM r2 w3 f3 n completion sys gpus opts u = None"
    if "reduceAutoNumCtxForLoadOOM req' w2 f2 n completion sys gpus opts u = Some (x, r2)" for r2 x w2 f2 w3 f3
    using step[OF that] step[OF assms] by (intro last) auto
  have "new \<in> {4096, 32768} \<and> new < old \<and> new < eff \<and> NumCtx (req_opts req') = new \<and>
      req' = req\<lparr>req_opts := (req_opts req)\<lparr>NumCtx := new, NumBatch := nb\<rparr>\<rparr>"
    using assms
    by (auto simp: reduceAutoNumCtxForLoadOOM_def nextLowerAutoNumCtx_def Let_def
        applyAutomaticGenerationBatch_def split: if_splits)
  with two show ?thesis by blast
qed

definition auto_request :: llm_request where
  "auto_request = \<lparr>req_ctx = 0, req_model = \<lparr>model_Name = [], ShortName = ''m'', Digest = [], ManifestDigest = [],
       ModelPath = ''/m'', ModelShardPaths = [], AdapterPaths = [], ProjectorPaths = [], ModelFamily = ''llama'',
       ModelFamilies = [], IsMLX = False\<rparr>,
     req_opts = auto_opts\<lparr>NumCtx := 40000\<rparr>, req_sessionDuration = None, oomRetryAttempted = False,
     req_numCtxAuto = True, req_numBatchAuto = False, req_useMMapAuto = False, req_contextShift = False,
     req_shift = None\<rparr>"

lemma auto_request_reduced:
  "reduceAutoNumCtxForLoadOOM auto_request 0 None 1 True some_system two_gpus auto_opts None =
     Some ((40000, 40000, 32768, 512, 512), auto_request\<lparr>req_opts := auto_opts\<lparr>NumCtx := 32768\<rparr>\<rparr>)"
  by (simp add: reduceAutoNumCtxForLoadOOM_def auto_request_def auto_opts_def modelTrainContext_def
      effectiveContext_def nextLowerAutoNumCtx_def applyAutomaticGenerationBatch_def)

theorem reduced_context_decreases_witness:
  "(32768 :: int) < 40000 \<and>
   reduceAutoNumCtxForLoadOOM auto_request 0 None 1 True some_system two_gpus auto_opts None =
     Some ((40000, 40000, 32768, 512, 512), auto_request\<lparr>req_opts := auto_opts\<lparr>NumCtx := 32768\<rparr>\<rparr>)"
  using reduced_context_decreases[OF auto_request_reduced] auto_request_reduced by simp

lemma mmap_reason_asked: "disableMmapDefaultReason casefold goos opts gpus b v a \<noteq> [] \<Longrightarrow> UseMMap opts = None"
  by (simp add: disableMmapDefaultReason_def split: if_splits)

lemma mmap_pressure_asked: "disableMmapForHostPressure goos opts sys gpus m l v a \<Longrightarrow> UseMMap opts = None"
  by (simp add: disableMmapForHostPressure_def split: if_splits)

text \<open>
  The memory-mapping defaults never override an explicit setting, only ever turn
  mapping off, mark the setting as automatic exactly when they do, and leave every
  other launch option alone.
\<close>

theorem mmap_defaults_respect_request:
  assumes "applyLlamaServerMmapDefaults casefold goos stat w l req opts sys gpus f n = (opts', req')"
  shows "UseMMap opts' = UseMMap (req_opts req') \<and> opts' = opts\<lparr>UseMMap := UseMMap opts'\<rparr> \<and>
    (UseMMap (req_opts req) \<noteq> None \<longrightarrow> req' = req) \<and>
    (req' \<noteq> req \<longrightarrow> UseMMap (req_opts req) = None \<and>
       req' = req\<lparr>req_opts := (req_opts req)\<lparr>UseMMap := Some False\<rparr>, req_useMMapAuto := True\<rparr>)"
  using assms
  by (auto simp: applyLlamaServerMmapDefaults_def maybeDisableMmapForHostPressure_def Let_def
      dest: mmap_reason_asked mmap_pressure_asked split: if_splits)

lemma cpu_not_mapped:
  "applyLlamaServerMmapDefaults casefold goos stat w l auto_request opts sys [] f n =
     (opts\<lparr>UseMMap := Some False\<rparr>, auto_request\<lparr>req_opts := (req_opts auto_request)\<lparr>UseMMap := Some False\<rparr>,
        req_useMMapAuto := True\<rparr>)"
proof -
  have "disableMmapDefaultReason casefold goos (req_opts auto_request) [] b p a = ''cpu''" for b p a
    by (simp add: disableMmapDefaultReason_def auto_request_def auto_opts_def)
  then show ?thesis by (simp add: applyLlamaServerMmapDefaults_def)
qed

theorem mmap_defaults_respect_request_witness:
  "UseMMap (fst (applyLlamaServerMmapDefaults ascii_fold ''linux'' (\<lambda>_. Some 5) 5 0 auto_request auto_opts
     some_system [] None 1)) = Some False"
  using conjunct1[OF mmap_defaults_respect_request[OF cpu_not_mapped[of ascii_fold "''linux''" "\<lambda>_. Some 5"
      5 0 auto_opts some_system None 1]]]
  by (simp add: cpu_not_mapped)

section \<open>Free memory next to loaded models\<close>

text \<open>
  \<^verbatim>\<open>updateFreeSpace\<close>: a loaded runner is given by the memory its server reports per
  device, or \<^term>\<open>None\<close> when it has no server.
\<close>

definition add_predicted :: "(device_id \<Rightarrow> 64 word) \<Rightarrow> (device_id \<rightharpoonup> 64 word) \<Rightarrow> device_info \<Rightarrow> (device_id \<rightharpoonup> 64 word)" where
  "add_predicted vram m gpu =
     m(DeviceID gpu \<mapsto> (case m (DeviceID gpu) of None \<Rightarrow> 0 | Some p \<Rightarrow> p) + vram (DeviceID gpu))"

definition predicted_usage ::
  "device_info list \<Rightarrow> (device_id \<Rightarrow> 64 word) option list \<Rightarrow> (device_id \<rightharpoonup> 64 word)" where
  "predicted_usage allGpus runners =
     foldl (\<lambda>m r. case r of None \<Rightarrow> m | Some vram \<Rightarrow> foldl (add_predicted vram) m allGpus) Map.empty runners"

definition updateFreeSpace ::
  "device_info list \<Rightarrow> (device_id \<Rightarrow> 64 word) option list \<Rightarrow> device_info list" where
  "updateFreeSpace allGpus runners =
     (if allGpus = [] then allGpus
      else map (\<lambda>gpu.
        case predicted_usage allGpus runners (DeviceID gpu) of
          None \<Rightarrow> gpu
        | Some p \<Rightarrow>
            if p > TotalMemory gpu then gpu\<lparr>FreeMemory := 0\<rparr>
            else if TotalMemory gpu - p < FreeMemory gpu then gpu\<lparr>FreeMemory := TotalMemory gpu - p\<rparr>
            else gpu) allGpus)"

lemma add_predicted_all:
  "distinct (map DeviceID gpus) \<Longrightarrow>
   foldl (add_predicted vram) m gpus d =
     (if d \<in> DeviceID ` set gpus then Some ((case m d of None \<Rightarrow> 0 | Some p \<Rightarrow> p) + vram d) else m d)"
proof (induction gpus arbitrary: m)
  case Nil
  then show ?case by simp
next
  case (Cons g gpus)
  then show ?case by (auto simp: add_predicted_def)
qed

definition used_on :: "(device_id \<Rightarrow> 64 word) option list \<Rightarrow> device_id \<Rightarrow> nat" where
  "used_on runners d = sum_list (map (\<lambda>r. case r of None \<Rightarrow> 0 | Some vram \<Rightarrow> unat (vram d)) runners)"

lemma used_on_simps [simp]:
  "used_on [] d = 0"
  "used_on (runners @ [r]) d = used_on runners d + (case r of None \<Rightarrow> 0 | Some vram \<Rightarrow> unat (vram d))"
  by (simp_all add: used_on_def)

lemma predicted_usage_sum:
  assumes "distinct (map DeviceID gpus)" and "g \<in> set gpus" and "used_on runners (DeviceID g) < 2 ^ 64"
  shows "(case predicted_usage gpus runners (DeviceID g) of None \<Rightarrow> used_on runners (DeviceID g) = 0
    | Some p \<Rightarrow> unat p = used_on runners (DeviceID g))"
  using assms(3)
proof (induction runners rule: rev_induct)
  case Nil
  then show ?case by (simp add: predicted_usage_def)
next
  case (snoc r runners)
  let ?d = "DeviceID g"
  show ?case
  proof (cases r)
    case None
    with snoc show ?thesis by (auto simp: predicted_usage_def split: option.splits)
  next
    case (Some vram)
    let ?old = "case predicted_usage gpus runners ?d of None \<Rightarrow> 0 | Some p \<Rightarrow> p"
    have "predicted_usage gpus (runners @ [r]) ?d = Some (?old + vram ?d)"
      using add_predicted_all[OF assms(1), of vram "predicted_usage gpus runners" ?d] assms(2) Some
      by (simp add: predicted_usage_def)
    moreover have "unat ?old = used_on runners ?d"
      using snoc Some by (auto split: option.splits)
    ultimately show ?thesis
      using snoc.prems Some unat_add_lem[of ?old "vram ?d"] by simp
  qed
qed

text \<open>
  After the update the free memory of a device is at most what was reported and at
  most its total less what the loaded models use there (nothing, if they use more than
  the total); nothing else of the device changes, and a lower value is never made up.
\<close>

theorem free_space_accounts_for_loaded:
  assumes "distinct (map DeviceID gpus)" and "i < length gpus"
    and "used_on runners (DeviceID (gpus ! i)) < 2 ^ 64"
    and "unat (FreeMemory (gpus ! i)) \<le> unat (TotalMemory (gpus ! i))"
  shows "length (updateFreeSpace gpus runners) = length gpus \<and>
    updateFreeSpace gpus runners ! i =
      (gpus ! i)\<lparr>FreeMemory := FreeMemory (updateFreeSpace gpus runners ! i)\<rparr> \<and>
    unat (FreeMemory (updateFreeSpace gpus runners ! i)) =
      min (unat (FreeMemory (gpus ! i)))
        (unat (TotalMemory (gpus ! i)) - used_on runners (DeviceID (gpus ! i)))"
proof -
  let ?g = "gpus ! i"
  have u: "updateFreeSpace gpus runners ! i =
      (case predicted_usage gpus runners (DeviceID ?g) of
          None \<Rightarrow> ?g
        | Some p \<Rightarrow>
            if p > TotalMemory ?g then ?g\<lparr>FreeMemory := 0\<rparr>
            else if TotalMemory ?g - p < FreeMemory ?g then ?g\<lparr>FreeMemory := TotalMemory ?g - p\<rparr>
            else ?g)"
    using assms(2) by (auto simp: updateFreeSpace_def)
  note p = predicted_usage_sum[OF assms(1) nth_mem[OF assms(2)] assms(3)]
  have "length (updateFreeSpace gpus runners) = length gpus" by (simp add: updateFreeSpace_def)
  moreover have "unat (FreeMemory (updateFreeSpace gpus runners ! i)) =
      min (unat (FreeMemory ?g)) (unat (TotalMemory ?g) - used_on runners (DeviceID ?g))"
  proof (cases "predicted_usage gpus runners (DeviceID ?g)")
    case None
    with p assms(4) show ?thesis by (simp add: u)
  next
    case (Some q)
    with p have q: "unat q = used_on runners (DeviceID ?g)" by simp
    show ?thesis
    proof (cases "TotalMemory ?g < q")
      case True
      with Some q show ?thesis by (simp add: u word_less_nat_alt)
    next
      case False
      then have "unat (TotalMemory ?g - q) = unat (TotalMemory ?g) - used_on runners (DeviceID ?g)"
        using q by (simp add: unat_sub not_less)
      with Some False show ?thesis by (auto simp: u word_less_nat_alt min_def not_less)
    qed
  qed
  moreover have "updateFreeSpace gpus runners ! i =
      ?g\<lparr>FreeMemory := FreeMemory (updateFreeSpace gpus runners ! i)\<rparr>"
    by (simp add: u split: option.split)
  ultimately show ?thesis by blast
qed

theorem free_space_accounts_for_loaded_witness:
  "unat (FreeMemory (updateFreeSpace [gpu_with False ''0'' ''CUDA'' 100] [Some (\<lambda>_. 30), None, Some (\<lambda>_. 20)] ! 0)) = 50"
  using free_space_accounts_for_loaded[of "[gpu_with False ''0'' ''CUDA'' 100]" 0 "[Some (\<lambda>_. 30), None, Some (\<lambda>_. 20)]"]
  by (simp add: used_on_def)

end
