(* ===== verification/Scheduler.thy ===== *)
theory Scheduler
  imports Placement "HOL-Library.AList" "HOL-Library.List_Lexorder"
begin

text \<open>
  The scheduler of \<^verbatim>\<open>server/sched.go\<close>: which model is loaded under which key, how many
  requests use it, and when it is unloaded.  A runner is an entry of a heap, so that
  the aliasing between the map of loaded runners, the expired channel and the requests
  is explicit.  Each operation is a function on the state, at the granularity of the
  code's locks: what one function does happens while the code holds the runner's (or
  the map's) mutex.  Channels are lists; blocking on a full channel is not modelled.
\<close>

section \<open>Keys and options\<close>

definition schedulerModelKey :: "go_model option \<Rightarrow> string" where
  "schedulerModelKey m =
     (case m of
        None \<Rightarrow> []
      | Some m \<Rightarrow>
          if ModelPath m \<noteq> [] then
            (if ModelShardPaths m \<noteq> [] then join (modelPaths m) [CHR 0x00] else ModelPath m)
          else if ManifestDigest m \<noteq> [] then ''manifest:'' @ ManifestDigest m
          else if Digest m \<noteq> [] then ''digest:'' @ Digest m
          else if model_Name m \<noteq> [] then ''name:'' @ model_Name m
          else if ShortName m \<noteq> [] then ''short:'' @ ShortName m
          else [])"

definition supportsContextShift :: "go_model option \<Rightarrow> bool" where
  "supportsContextShift m =
     (case m of
        None \<Rightarrow> True
      | Some m \<Rightarrow>
          if ModelFamily m = ''deepseek2'' \<or> ''deepseek2'' \<in> set (ModelFamilies m) then False else True)"

definition resolveContextShift :: "bool option \<Rightarrow> go_model option \<Rightarrow> bool" where
  "resolveContextShift shift m = (case shift of Some b \<Rightarrow> b | None \<Rightarrow> supportsContextShift m)"

abbreviation request_key :: "llm_request \<Rightarrow> string" where
  "request_key req \<equiv> schedulerModelKey (Some (req_model req))"

section \<open>Runners\<close>

text \<open>
  \<^verbatim>\<open>runnerRef\<close>.  \<open>r_live\<close> holds \<^verbatim>\<open>model\<close> and \<^verbatim>\<open>Options\<close>, which are set together by the
  load and cleared together by the unload; \<open>r_server\<close> says that the server process was
  not closed; \<open>r_locked\<close> that the goroutine waiting for the server holds \<^verbatim>\<open>refMu\<close>; the
  timer is either armed or nil.
\<close>

record runner_ref =
  refCount :: "64 word"
  r_loading :: bool
  r_locked :: bool
  r_server :: bool
  r_pid :: int
  r_gpus :: "device_id list"
  discreteGPUs :: bool
  vramSize :: "64 word"
  totalSize :: "64 word"
  r_sessionDuration :: int
  expireTimer :: bool
  r_live :: "(go_model \<times> runner_options) option"
  r_modelPath :: string
  r_modelKey :: string
  r_numParallel :: int
  r_numCtxAuto :: bool
  r_numBatchAuto :: bool
  r_useMMapAuto :: bool
  r_contextShift :: bool
  trainContext :: int

definition unload :: "runner_ref \<Rightarrow> runner_ref" where
  "unload r = r\<lparr>expireTimer := False, r_server := False, r_live := None, r_gpus := [], r_contextShift := False\<rparr>"

text \<open>\<^verbatim>\<open>needsReload\<close>; \<open>ping_ok\<close> is the outcome of pinging the server.\<close>

definition needsReload :: "runner_ref \<Rightarrow> llm_request \<Rightarrow> bool \<Rightarrow> bool" where
  "needsReload runner req ping_ok =
     (case r_live runner of
        None \<Rightarrow> True
      | Some (m, options) \<Rightarrow>
          (let optsNew0 = req_opts req;
               optsNew1 = optsNew0\<lparr>NumCtx := effectiveContext (NumCtx optsNew0) (trainContext runner)\<rparr>;
               optsNew2 = (if r_numCtxAuto runner \<and> req_numCtxAuto req
                           then optsNew1\<lparr>NumCtx := NumCtx options\<rparr> else optsNew1);
               optsNew3 = (if r_numBatchAuto runner \<and> req_numBatchAuto req
                           then optsNew2\<lparr>NumBatch := NumBatch options\<rparr> else optsNew2);
               optsNew4 = (if r_useMMapAuto runner \<and> UseMMap optsNew3 = None
                           then optsNew3\<lparr>UseMMap := UseMMap options\<rparr> else optsNew3);
               (optsExisting, optsNew) =
                 (if NumGPU optsNew4 < 0
                  then (options\<lparr>NumGPU := -1\<rparr>, optsNew4\<lparr>NumGPU := -1\<rparr>)
                  else (options, optsNew4));
               contextShift =
                 (if ModelPath (req_model req) \<noteq> []
                  then resolveContextShift (req_shift req) (Some (req_model req))
                  else req_contextShift req)
           in if r_contextShift runner \<noteq> contextShift then True
              else if AdapterPaths m \<noteq> AdapterPaths (req_model req) \<or>
                      ProjectorPaths m \<noteq> ProjectorPaths (req_model req) \<or>
                      (\<not> IsMLX m \<and> optsExisting \<noteq> optsNew) \<or>
                      \<not> ping_ok
                   then True
                   else False))"

section \<open>The order of eviction\<close>

datatype evict_key = EvictKey (evict_duration: "64 word") (evict_name: "nat list")

instantiation evict_key :: linorder
begin

definition less_eq_evict_key :: "evict_key \<Rightarrow> evict_key \<Rightarrow> bool" where
  "less_eq_evict_key a b \<longleftrightarrow> evict_duration a < evict_duration b \<or>
     (evict_duration a = evict_duration b \<and> evict_name a \<le> evict_name b)"

definition less_evict_key :: "evict_key \<Rightarrow> evict_key \<Rightarrow> bool" where
  "less_evict_key a b \<longleftrightarrow> evict_duration a < evict_duration b \<or>
     (evict_duration a = evict_duration b \<and> evict_name a < evict_name b)"

instance
proof
  fix x y z :: evict_key
  show "(x < y) = (x \<le> y \<and> \<not> y \<le> x)" by (auto simp: less_eq_evict_key_def less_evict_key_def)
  show "x \<le> x" by (simp add: less_eq_evict_key_def)
  show "x \<le> y \<Longrightarrow> y \<le> z \<Longrightarrow> x \<le> z" by (auto simp: less_eq_evict_key_def)
  show "x \<le> y \<Longrightarrow> y \<le> x \<Longrightarrow> x = y" by (auto simp: less_eq_evict_key_def intro: evict_key.expand)
  show "x \<le> y \<or> y \<le> x" by (auto simp: less_eq_evict_key_def)
qed

end

text \<open>What \<^verbatim>\<open>ByDurationAndName\<close> compares; the duration as \<^verbatim>\<open>uint64\<close>, the name bytewise.\<close>

definition evict_order :: "runner_ref \<Rightarrow> evict_key" where
  "evict_order r = EvictKey (word_of_int (r_sessionDuration r))
     (map byte_val (if r_modelPath r = [] then r_modelKey r else r_modelPath r))"

definition ByDurationAndName_Less :: "runner_ref \<Rightarrow> runner_ref \<Rightarrow> bool" where
  "ByDurationAndName_Less a b \<longleftrightarrow> evict_order a < evict_order b"

text \<open>
  \<^verbatim>\<open>findRunnerToUnload\<close> on the loaded runners with their identities.  Runners that
  compare equal keep their order here; \<^verbatim>\<open>sort.Sort\<close> may order them either way.
\<close>

definition findRunnerToUnload :: "(nat \<times> runner_ref) list \<Rightarrow> nat option" where
  "findRunnerToUnload runners =
     (if runners = [] then None
      else (let sorted = sort_key (\<lambda>(i, r). evict_order r) runners in
            case List.find (\<lambda>(i, r). refCount r = 0) sorted of
              Some (i, r) \<Rightarrow> Some i
            | None \<Rightarrow> Some (fst (hd sorted))))"

section \<open>State\<close>

datatype sched_error = ErrMaxQueue | ErrServer | ErrLoad

text \<open>
  \<open>checked\<close>: requests that found a usable runner and have not taken it yet.
  \<open>activeLoading\<close> is the model path of the server being loaded, if there is one.
  \<open>starting\<close>: goroutines waiting for a server; \<open>in_use\<close>: goroutines waiting for a
  request's context.  \<open>replies\<close> is what was sent on the requests' channels.
\<close>

record scheduler =
  heap :: "nat \<rightharpoonup> runner_ref"
  next_id :: nat
  activeLoading :: "string option"
  loaded :: "(string \<times> nat) list"
  pendingReqCh :: "llm_request list"
  finishedReqCh :: "llm_request list"
  expiredCh :: "nat list"
  unloadedCh :: nat
  checked :: "(llm_request \<times> nat) list"
  starting :: "(llm_request \<times> nat) list"
  in_use :: "(llm_request \<times> nat) list"
  replies :: "(llm_request \<times> (sched_error + nat)) list"

definition InitScheduler :: scheduler where
  "InitScheduler = \<lparr>heap = Map.empty, next_id = 0, activeLoading = None, loaded = [], pendingReqCh = [], finishedReqCh = [],
     expiredCh = [], unloadedCh = 0, checked = [], starting = [], in_use = [], replies = []\<rparr>"

abbreviation set_runner :: "nat \<Rightarrow> runner_ref \<Rightarrow> scheduler \<Rightarrow> scheduler" where
  "set_runner i r s \<equiv> s\<lparr>heap := (heap s)(i \<mapsto> r)\<rparr>"

section \<open>Operations\<close>

text \<open>\<^verbatim>\<open>useLoadedRunner\<close>, with the goroutine it starts.\<close>

definition useLoadedRunner :: "llm_request \<Rightarrow> nat \<Rightarrow> runner_ref \<Rightarrow> scheduler \<Rightarrow> scheduler" where
  "useLoadedRunner pending i runner s =
     (let r1 = runner\<lparr>refCount := refCount runner + 1, expireTimer := False\<rparr>;
          r2 = (case req_sessionDuration pending of
                  Some d \<Rightarrow> r1\<lparr>r_sessionDuration := d\<rparr> | None \<Rightarrow> r1)
      in (set_runner i r2 s)\<lparr>replies := replies s @ [(pending, Inr i)], in_use := (pending, i) # in_use s\<rparr>)"

text \<open>
  The tail of \<^verbatim>\<open>getRunner\<close> for a built request.  \<open>capacity\<close> is the length of the
  pending channel.  A runner whose mutex is held blocks the caller.
\<close>

definition enqueue :: "nat \<Rightarrow> llm_request \<Rightarrow> scheduler \<Rightarrow> scheduler" where
  "enqueue capacity req s =
     (if length (pendingReqCh s) < capacity then s\<lparr>pendingReqCh := pendingReqCh s @ [req]\<rparr>
      else s\<lparr>replies := replies s @ [(req, Inl ErrMaxQueue)]\<rparr>)"

definition getRunner :: "nat \<Rightarrow> llm_request \<Rightarrow> bool \<Rightarrow> scheduler \<Rightarrow> scheduler option" where
  "getRunner capacity req ping_ok s =
     (case map_of (loaded s) (request_key req) of
        None \<Rightarrow> Some (enqueue capacity req s)
      | Some i \<Rightarrow>
          (case heap s i of
             None \<Rightarrow> None
           | Some runner \<Rightarrow>
               if r_locked runner then None
               else if \<not> needsReload runner req ping_ok then Some (s\<lparr>checked := (req, i) # checked s\<rparr>)
               else Some (enqueue capacity req s)))"

text \<open>
  Expiring a runner on purpose: the same block in \<^verbatim>\<open>processPending\<close>,
  \<^verbatim>\<open>evictAllAndWait\<close>, \<^verbatim>\<open>expireRunnersForRuntimeOOM\<close> and \<^verbatim>\<open>expireRunner\<close>.
\<close>

definition expire_now :: "nat \<Rightarrow> scheduler \<Rightarrow> scheduler option" where
  "expire_now i s =
     (case heap s i of
        None \<Rightarrow> None
      | Some runner \<Rightarrow>
          if r_locked runner then None
          else (let r = runner\<lparr>expireTimer := False, r_sessionDuration := 0\<rparr>;
                    s1 = set_runner i r s
                in Some (if refCount r = 0 then s1\<lparr>expiredCh := expiredCh s1 @ [i]\<rparr> else s1)))"

text \<open>A finished request: the body of the first case of \<^verbatim>\<open>processCompleted\<close>.\<close>

definition process_finished :: "scheduler \<Rightarrow> scheduler option" where
  "process_finished s =
     (case finishedReqCh s of
        [] \<Rightarrow> None
      | req # rest \<Rightarrow>
          (let s1 = s\<lparr>finishedReqCh := rest\<rparr> in
           case map_of (loaded s) (request_key req) of
             None \<Rightarrow> Some s1
           | Some i \<Rightarrow>
               (case heap s i of
                  None \<Rightarrow> None
                | Some runner \<Rightarrow>
                    if r_locked runner then None
                    else (let r = runner\<lparr>refCount := refCount runner - 1\<rparr> in
                      if refCount r = 0 then
                        (if r_sessionDuration r \<le> 0
                         then Some ((set_runner i (r\<lparr>expireTimer := False\<rparr>) s1)\<lparr>expiredCh := expiredCh s @ [i]\<rparr>)
                         else Some (set_runner i (r\<lparr>expireTimer := True\<rparr>) s1))
                      else Some (set_runner i r s1)))))"

text \<open>An expired runner: the second case.\<close>

definition process_expired :: "scheduler \<Rightarrow> scheduler option" where
  "process_expired s =
     (case expiredCh s of
        [] \<Rightarrow> None
      | i # rest \<Rightarrow>
          (let s1 = s\<lparr>expiredCh := rest\<rparr> in
           case heap s i of
             None \<Rightarrow> None
           | Some runner \<Rightarrow>
               if r_locked runner then None
               else if refCount runner > 0 then Some (s\<lparr>expiredCh := rest @ [i]\<rparr>)
               else (case map_of (loaded s) (r_modelKey runner) of
                       None \<Rightarrow> Some s1
                     | Some j \<Rightarrow>
                         (case heap s j of
                            None \<Rightarrow> None
                          | Some runnerToUnload \<Rightarrow>
                              if r_pid runner \<noteq> r_pid runnerToUnload
                              then Some (set_runner i (unload runner) s1)
                              else Some ((set_runner i (unload runner) s1)
                                     \<lparr>loaded := AList.delete (r_modelKey runner) (loaded s),
                                      unloadedCh := unloadedCh s + 1\<rparr>)))))"

text \<open>The function of the timer that \<^verbatim>\<open>processCompleted\<close> arms.\<close>

definition timer_fires :: "nat \<Rightarrow> scheduler \<Rightarrow> scheduler option" where
  "timer_fires i s =
     (case heap s i of
        None \<Rightarrow> None
      | Some runner \<Rightarrow>
          if r_locked runner \<or> \<not> expireTimer runner then None
          else Some ((set_runner i (runner\<lparr>expireTimer := False\<rparr>) s)\<lparr>expiredCh := expiredCh s @ [i]\<rparr>))"

text \<open>
  The end of \<^verbatim>\<open>load\<close>: the new runner enters the map, still locked, and a goroutine
  waits for its server.  A runner found under the key is unloaded first.
\<close>

definition insert_runner :: "llm_request \<Rightarrow> runner_ref \<Rightarrow> scheduler \<Rightarrow> scheduler" where
  "insert_runner req runner s =
     (let i = next_id s;
          s1 = (case map_of (loaded s) (r_modelKey runner) of
                  None \<Rightarrow> s
                | Some j \<Rightarrow> (case heap s j of None \<Rightarrow> s | Some old \<Rightarrow> set_runner j (unload old) s))
      in (set_runner i runner s1)
           \<lparr>next_id := i + 1, loaded := AList.update (r_modelKey runner) i (loaded s),
            starting := (req, i) # starting s\<rparr>)"

text \<open>The goroutine of \<^verbatim>\<open>load\<close>, when \<^verbatim>\<open>WaitUntilRunning\<close> returns; \<open>pid\<close> is the pid then.\<close>

definition server_running :: "llm_request \<Rightarrow> nat \<Rightarrow> int \<Rightarrow> scheduler \<Rightarrow> scheduler option" where
  "server_running req i pid s =
     (case heap s i of
        None \<Rightarrow> None
      | Some runner \<Rightarrow>
          if (req, i) \<notin> set (starting s) then None
          else Some ((set_runner i (runner\<lparr>r_pid := (if r_pid runner < 0 then pid else r_pid runner),
                   refCount := refCount runner + 1, r_loading := False, r_locked := False\<rparr>) s)
                 \<lparr>starting := remove1 (req, i) (starting s), in_use := (req, i) # in_use s,
                  replies := replies s @ [(req, Inr i)]\<rparr>))"

definition server_failed :: "llm_request \<Rightarrow> nat \<Rightarrow> scheduler \<Rightarrow> scheduler option" where
  "server_failed req i s =
     (case heap s i of
        None \<Rightarrow> None
      | Some runner \<Rightarrow>
          if (req, i) \<notin> set (starting s) then None
          else Some ((set_runner i (runner\<lparr>r_locked := False\<rparr>) s)
                 \<lparr>starting := remove1 (req, i) (starting s), expiredCh := expiredCh s @ [i],
                  replies := replies s @ [(req, Inl ErrServer)]\<rparr>))"

text \<open>\<^verbatim>\<open>expireRunner\<close>: the runners of a model, by its key or else by its name.\<close>

definition runners_of_model :: "go_model \<Rightarrow> scheduler \<Rightarrow> nat list" where
  "runners_of_model m s =
     (case map_of (loaded s) (schedulerModelKey (Some m)) of
        Some i \<Rightarrow> [i]
      | None \<Rightarrow>
          if model_Name m \<noteq> [] then
            filter (\<lambda>i. case heap s i of
                None \<Rightarrow> False
              | Some r \<Rightarrow> (case r_live r of None \<Rightarrow> False | Some (m', _) \<Rightarrow> model_Name m' = model_Name m))
              (map snd (loaded s))
          else [])"

fun expire_all :: "nat list \<Rightarrow> scheduler \<Rightarrow> scheduler option" where
  "expire_all [] s = Some s"
| "expire_all (i # is) s = (case expire_now i s of None \<Rightarrow> None | Some s1 \<Rightarrow> expire_all is s1)"

definition expireRunner :: "go_model \<Rightarrow> scheduler \<Rightarrow> scheduler option" where
  "expireRunner m s = expire_all (runners_of_model m s) s"

definition expireRunnersForRuntimeOOM :: "scheduler \<Rightarrow> scheduler option" where
  "expireRunnersForRuntimeOOM s = expire_all (map snd (loaded s)) s"

definition evictAll :: "string \<Rightarrow> scheduler \<Rightarrow> scheduler option" where
  "evictAll keepKey s = expire_all (map snd (filter (\<lambda>(k, i). k \<noteq> keepKey) (loaded s))) s"

definition runnerUsesMmap :: "runner_ref \<Rightarrow> bool" where
  "runnerUsesMmap r =
     (case r_live r of
        None \<Rightarrow> True
      | Some (_, opts) \<Rightarrow> (case UseMMap opts of None \<Rightarrow> True | Some b \<Rightarrow> b))"

definition loadedMmapModelSizeLocked :: "(string \<Rightarrow> int option) \<Rightarrow> runner_ref list \<Rightarrow> 64 word" where
  "loadedMmapModelSizeLocked stat runners =
     foldl (\<lambda>sofar r.
       if \<not> runnerUsesMmap r then sofar
       else (let sz = (case r_live r of None \<Rightarrow> 0 | Some (m, _) \<Rightarrow> modelFileSize stat (modelPaths m))
             in if sz > 0 then sofar + sz else sofar + totalSize r)) 0 runners"

section \<open>Requests\<close>

text \<open>The head of \<^verbatim>\<open>getRunner\<close>: the request it builds.  \<open>vision\<close> is a capability of the model.\<close>

definition make_request ::
  "nat \<Rightarrow> go_model \<Rightarrow> runner_options \<Rightarrow> int option \<Rightarrow> bool \<Rightarrow> bool \<Rightarrow> bool option \<Rightarrow> bool \<Rightarrow> llm_request" where
  "make_request c m opts d numCtxAuto numBatchAuto shift vision =
     (let opts1 = (if NumCtx opts < 4 then opts\<lparr>NumCtx := 4\<rparr> else opts);
          opts2 = (if vision then opts1\<lparr>NumCtx := max (NumCtx opts1) 2048\<rparr> else opts1)
      in \<lparr>req_ctx = c, req_model = m, req_opts = opts2, req_sessionDuration = d, oomRetryAttempted = False,
          req_numCtxAuto = numCtxAuto, req_numBatchAuto = numBatchAuto, req_useMMapAuto = False,
          req_contextShift = (if ModelPath m \<noteq> [] then resolveContextShift shift (Some m) else False),
          req_shift = shift\<rparr>)"

text \<open>
  One pass of the inner loop of \<^verbatim>\<open>processPending\<close> up to the load: use the loaded
  runner, expire one, or try to load (with the full model required on the devices
  unless nothing is loaded).  \<^term>\<open>None\<close>: the pass blocks on a runner's mutex.
\<close>

datatype pending_choice = UseRunner nat | ExpireRunner "nat option" | TryLoad bool

definition loaded_runners :: "scheduler \<Rightarrow> (nat \<times> runner_ref) list" where
  "loaded_runners s =
     concat (map (\<lambda>(k, i). case heap s i of None \<Rightarrow> [] | Some r \<Rightarrow> [(i, r)]) (loaded s))"

definition processPending_choice ::
  "nat \<Rightarrow> llm_request \<Rightarrow> bool \<Rightarrow> scheduler \<Rightarrow> pending_choice option" where
  "processPending_choice maxRunners pending ping_ok s =
     (let loadedCount = length (loaded s) in
      case map_of (loaded s) (request_key pending) of
        Some i \<Rightarrow>
          (case heap s i of
             None \<Rightarrow> None
           | Some runner \<Rightarrow>
               if r_locked runner then None
               else if needsReload runner pending ping_ok then Some (ExpireRunner (Some i))
               else Some (UseRunner i))
      | None \<Rightarrow>
          if maxRunners > 0 \<and> loadedCount \<ge> maxRunners
          then Some (ExpireRunner (findRunnerToUnload (loaded_runners s)))
          else Some (TryLoad (loadedCount \<noteq> 0)))"

definition defaultMaxRunners :: "device_info list \<Rightarrow> nat" where
  "defaultMaxRunners gpus = 3 * max (length gpus) 1"

section \<open>Loading\<close>

text \<open>
  What \<^verbatim>\<open>load\<close> takes from outside the scheduler: settings, the capabilities of the
  model, the metadata of the model file, the outcome of creating the server and of
  loading the model, and what the server reports.  A failure is classified as the
  code classifies it.
\<close>

datatype load_outcome = Loaded "device_id list" | LoadRequiredFull | LoadOutOfMemory | LoadError

record load_env =
  env_numParallel :: int
  env_keepAlive :: int
  env_spread :: bool
  env_flash :: "bool option"
  env_goos :: string
  env_stat :: "string \<Rightarrow> int option"
  env_casefold :: "nat \<Rightarrow> nat"
  env_completion :: bool
  env_metadata :: "gguf_kv option"
  env_weights :: "64 word"
  env_server_ok :: bool
  env_outcome :: load_outcome
  env_sizes :: "64 word \<times> 64 word"
  env_contextLength :: int
  env_pid :: int

definition sequential_families :: "string list" where
  "sequential_families = [''mllama'', ''qwen3vl'', ''qwen3vlmoe'', ''qwen35'', ''qwen35moe'', ''qwen3next'', ''lfm2'',
     ''lfm2moe'', ''nemotron_h'', ''nemotron_h_moe'', ''nemotron_h_omni'']"

definition load_parallel :: "load_env \<Rightarrow> llm_request \<Rightarrow> int" where
  "load_parallel env req =
     (let n = max (env_numParallel env) 1;
          n1 = (if \<not> env_completion env then 1 else n)
      in if ModelFamily (req_model req) \<in> set sequential_families \<and> n1 \<noteq> 1 then 1 else n1)"

text \<open>The zero value of the launch options.\<close>

definition zero_opts :: runner_options where
  "zero_opts = \<lparr>NumCtx = 0, NumBatch = 0, NumGPU = 0, MainGPU = None, UseMMap = None, NumThread = 0,
     DraftNumPredict = 0\<rparr>"

text \<open>
  The GGUF part of \<^verbatim>\<open>load\<close> before the server is created: the devices, the launch
  options and the request after it, or \<^term>\<open>None\<close> when a runner must be evicted first.
  The request keeps its batch size in both cases.
\<close>

definition load_preflight ::
  "load_env \<Rightarrow> system_info \<Rightarrow> device_info list \<Rightarrow> bool \<Rightarrow> gguf_kv \<Rightarrow> llm_request \<Rightarrow> scheduler \<Rightarrow>
   (device_info list \<times> runner_options) option \<times> llm_request" where
  "load_preflight env systemInfo gpus requireFull f req s =
     (let numParallel = load_parallel env req;
          predictedCtx = effectiveLlamaServerContext (NumCtx (req_opts req)) (Some f) numParallel;
          predicted = PredictServerVRAM (env_weights env) (Some f) predictedCtx;
          (loadGpus, launchOpts0) =
            selectLlamaServerPlacement (env_spread env) systemInfo gpus predicted (req_opts req);
          availableForBatch = fst (availableMemoryForPlacement systemInfo loadGpus launchOpts0);
          flashAttention = LlamaServerFlashAttention (env_flash env) loadGpus;
          req1 = applyAutomaticGenerationBatch req (env_completion env) predictedCtx predicted
                   availableForBatch flashAttention loadGpus;
          launchOpts = launchOpts0\<lparr>NumBatch := NumBatch (req_opts req1)\<rparr>;
          predictedForLoad =
            predicted + generationBatchSurchargeForCompletion (env_completion env) (NumBatch launchOpts)
      in if requireFull \<and> \<not> explicitPartialGPUOffload launchOpts (Some f) \<and> loaded s \<noteq> [] \<and> loadGpus \<noteq> [] \<and>
            predictedForLoad > fst (availableMemoryForPlacement systemInfo loadGpus launchOpts) * 80 div 100
         then (None, req1)
         else (let (launchOpts2, req2) =
                 applyLlamaServerMmapDefaults (env_casefold env) (env_goos env) (env_stat env) (env_weights env)
                   (loadedMmapModelSizeLocked (env_stat env) (map snd (loaded_runners s)))
                   req1 launchOpts systemInfo loadGpus (Some f) numParallel
               in (Some (loadGpus, launchOpts2),
                   req2\<lparr>req_contextShift := resolveContextShift (req_shift req2) (Some (req_model req2))\<rparr>)))"

definition wants_path :: "go_model \<Rightarrow> string" where
  "wants_path m = (if ModelPath m = [] then ShortName m else ModelPath m)"

definition has_discrete :: "device_id list \<Rightarrow> device_info list \<Rightarrow> bool" where
  "has_discrete gpuIDs loadGpus =
     list_ex (\<lambda>devid. list_ex (\<lambda>dev. DeviceID dev = devid \<and> \<not> Integrated dev) loadGpus) gpuIDs"

definition new_runner ::
  "load_env \<Rightarrow> llm_request \<Rightarrow> gguf_kv option \<Rightarrow> device_info list \<Rightarrow> device_id list \<Rightarrow> runner_ref" where
  "new_runner env req f loadGpus gpuIDs =
     \<lparr>refCount = 0, r_loading = True, r_locked = True, r_server = True, r_pid = env_pid env, r_gpus = gpuIDs,
      discreteGPUs = has_discrete gpuIDs loadGpus, vramSize = snd (env_sizes env), totalSize = fst (env_sizes env),
      r_sessionDuration =
        (case req_sessionDuration req of None \<Rightarrow> env_keepAlive env | Some d \<Rightarrow> d),
      expireTimer = False, r_live = Some (req_model req, req_opts req), r_modelPath = ModelPath (req_model req),
      r_modelKey = request_key req, r_numParallel = load_parallel env req, r_numCtxAuto = req_numCtxAuto req,
      r_numBatchAuto = req_numBatchAuto req, r_useMMapAuto = req_useMMapAuto req,
      r_contextShift = req_contextShift req, trainContext = modelTrainContext f\<rparr>"

text \<open>
  \<^verbatim>\<open>load\<close> from the call of \<^verbatim>\<open>llama.Load\<close> on: whether to retry after evicting, the request
  and the state.  An error reply is an entry of \<^const>\<open>replies\<close>.
\<close>

definition load_finish ::
  "load_env \<Rightarrow> system_info \<Rightarrow> gguf_kv option \<Rightarrow> device_info list \<Rightarrow> runner_options \<Rightarrow> bool \<Rightarrow> llm_request \<Rightarrow>
   scheduler \<Rightarrow> bool \<times> llm_request \<times> scheduler" where
  "load_finish env systemInfo f loadGpus launchOpts requireFull req s =
     (let fail = (\<lambda>s. (False, req, s\<lparr>activeLoading := None, replies := replies s @ [(req, Inl ErrLoad)]\<rparr>));
          otherLoaded = (loaded s \<noteq> [])
      in case env_outcome env of
        LoadRequiredFull \<Rightarrow> if \<not> requireFull then fail s else (True, req, s)
      | LoadError \<Rightarrow> fail s
      | LoadOutOfMemory \<Rightarrow>
          (let s1 = s\<lparr>activeLoading := None\<rparr> in
           if oomRetryAttempted req then fail s
           else (case reduceAutoNumCtxForLoadOOM req (env_weights env) f (load_parallel env req) (env_completion env)
                        systemInfo loadGpus launchOpts (env_flash env) of
                   Some (_, req1) \<Rightarrow> (True, req1\<lparr>oomRetryAttempted := True\<rparr>, s1)
                 | None \<Rightarrow>
                     if otherLoaded then (True, req\<lparr>oomRetryAttempted := True\<rparr>, s1) else fail s))
      | Loaded gpuIDs \<Rightarrow>
          (let req1 = (if ModelPath (req_model req) \<noteq> [] \<and> env_contextLength env > 0
                 then req\<lparr>req_opts := (req_opts req)\<lparr>NumCtx := env_contextLength env\<rparr>,
                          req_contextShift := resolveContextShift (req_shift req) (Some (req_model req))\<rparr>
                 else req)
           in (False, req1, insert_runner req1 (new_runner env req1 f loadGpus gpuIDs) (s\<lparr>activeLoading := None\<rparr>))))"

text \<open>\<^verbatim>\<open>load\<close>: \<^term>\<open>None\<close> is the panic on a different model after an eviction.\<close>

definition load ::
  "load_env \<Rightarrow> system_info \<Rightarrow> device_info list \<Rightarrow> bool \<Rightarrow> llm_request \<Rightarrow> scheduler \<Rightarrow>
   (bool \<times> llm_request \<times> scheduler) option" where
  "load env systemInfo gpus requireFull req s =
     (let fail = (\<lambda>req s. Some (False, req, s\<lparr>replies := replies s @ [(req, Inl ErrLoad)]\<rparr>)) in
      case activeLoading s of
        None \<Rightarrow>
          if \<not> IsMLX (req_model req) then
            (case env_metadata env of
               None \<Rightarrow> fail req s
             | Some f \<Rightarrow>
                 (case load_preflight env systemInfo gpus requireFull f req s of
                    (None, req1) \<Rightarrow> Some (True, req1, s)
                  | (Some (loadGpus, launchOpts), req1) \<Rightarrow>
                      if \<not> env_server_ok env then fail req1 s
                      else Some (load_finish env systemInfo (Some f) loadGpus launchOpts requireFull req1
                             (s\<lparr>activeLoading := Some (ModelPath (req_model req))\<rparr>))))
          else if \<not> env_server_ok env then fail req s
          else Some (load_finish env systemInfo None gpus zero_opts requireFull req
                 (s\<lparr>activeLoading := Some (ShortName (req_model req))\<rparr>))
      | Some path \<Rightarrow>
          if path \<noteq> wants_path (req_model req) then None
          else Some (load_finish env systemInfo None gpus zero_opts requireFull req s))"

end
