(* ===== verification/SchedulerLoad.thy ===== *)
theory SchedulerLoad
  imports Scheduler
begin

text \<open>
  What the scheduler decides for one request: model keys, the order of eviction, when
  a loaded runner can be reused, and that a load ends.
\<close>

section \<open>Eviction order\<close>

definition busy_runner :: runner_ref where
  "busy_runner = \<lparr>refCount = 1, r_loading = False, r_locked = False, r_server = True, r_pid = 1, r_gpus = [],
     discreteGPUs = False, vramSize = 0, totalSize = 0, r_sessionDuration = 5, expireTimer = False,
     r_live = Some (req_model auto_request, auto_opts), r_modelPath = ''/m'', r_modelKey = ''/m'', r_numParallel = 1,
     r_numCtxAuto = True, r_numBatchAuto = False, r_useMMapAuto = False, r_contextShift = False, trainContext = 0\<rparr>"

lemma find_first:
  "List.find P xs = Some x \<Longrightarrow> P x \<and> x \<in> set xs"
  by (induction xs) (auto split: if_splits)

lemma find_none: "List.find P xs = None \<Longrightarrow> \<forall>x \<in> set xs. \<not> P x"
  by (induction xs) (auto split: if_splits)

lemma find_sorted_least:
  assumes "List.find P (sort_key f xs) = Some x" and "y \<in> set xs" and "P y"
  shows "f x \<le> f y"
proof -
  have "List.find P zs = Some x \<Longrightarrow> sorted (map f zs) \<Longrightarrow> y \<in> set zs \<Longrightarrow> f x \<le> f y" for zs
    using assms(3) by (induction zs) (auto split: if_splits)
  from this[of "sort_key f xs"] assms(1,2) show ?thesis by simp
qed

lemma hd_sorted_least:
  assumes "xs \<noteq> []"
  shows "hd (sort_key f xs) \<in> set xs" and "\<forall>y \<in> set xs. f (hd (sort_key f xs)) \<le> f y"
proof -
  obtain z zs where z: "sort_key f xs = z # zs"
    using assms by (cases "sort_key f xs") (auto dest: arg_cong[where f = length])
  have "sorted (map f (z # zs))" unfolding z[symmetric] by simp
  moreover have s: "set xs = set (z # zs)" unfolding z[symmetric] by simp
  ultimately show "\<forall>y \<in> set xs. f (hd (sort_key f xs)) \<le> f y" using z by auto
  show "hd (sort_key f xs) \<in> set xs" unfolding s by (simp add: z)
qed

text \<open>
  The runner chosen for eviction is a loaded one, and one is chosen whenever any is
  loaded.  If some runner is idle, an idle one is chosen, and no other idle runner comes
  before it in the order by session duration and name; otherwise the first of all
  runners in that order is chosen.
\<close>

theorem eviction_prefers_idle:
  assumes "runners \<noteq> []"
  shows "\<exists>i r. findRunnerToUnload runners = Some i \<and> (i, r) \<in> set runners \<and>
    (if \<exists>(j, q) \<in> set runners. refCount q = 0
     then refCount r = 0 \<and>
       (\<forall>(j, q) \<in> set runners. refCount q = 0 \<longrightarrow> \<not> ByDurationAndName_Less q r)
     else (\<forall>(j, q) \<in> set runners. \<not> ByDurationAndName_Less q r))"
proof -
  let ?f = "\<lambda>(i, r). evict_order r" and ?P = "\<lambda>(i, r). refCount r = 0"
  let ?sorted = "sort_key ?f runners"
  show ?thesis
  proof (cases "List.find ?P ?sorted")
    case None
    then have idle: "\<not> (\<exists>(j, q) \<in> set runners. refCount q = 0)" using find_none[OF None] by auto
    obtain i r where h: "hd ?sorted = (i, r)" by fastforce
    have "(i, r) \<in> set runners \<and> (\<forall>(j, q) \<in> set runners. evict_order r \<le> evict_order q)"
      using hd_sorted_least[OF assms, of ?f] h by auto
    with None idle h assms show ?thesis
      by (auto simp: findRunnerToUnload_def ByDurationAndName_Less_def Let_def not_less)
  next
    case (Some x)
    obtain i r where x: "x = (i, r)" by fastforce
    have "(i, r) \<in> set runners" "refCount r = 0" using find_first[OF Some] x by auto
    moreover have "\<forall>(j, q) \<in> set runners. refCount q = 0 \<longrightarrow> evict_order r \<le> evict_order q"
      using find_sorted_least[OF Some] x by auto
    ultimately show ?thesis
      using Some x assms by (auto simp: findRunnerToUnload_def ByDurationAndName_Less_def Let_def not_less)
  qed
qed

theorem eviction_prefers_idle_witness:
  "findRunnerToUnload [(1, busy_runner), (0, busy_runner\<lparr>refCount := 0, r_sessionDuration := 9\<rparr>)] = Some 0"
proof -
  let ?rs = "[(1, busy_runner), (0, busy_runner\<lparr>refCount := 0, r_sessionDuration := 9\<rparr>)]"
  from eviction_prefers_idle[of ?rs] obtain i r where
    "findRunnerToUnload ?rs = Some i" "(i, r) \<in> set ?rs" "refCount r = 0"
    by (auto simp: busy_runner_def)
  then show ?thesis by (auto simp: busy_runner_def)
qed

section \<open>Keys\<close>

lemma key_of_paths: "ModelPath m \<noteq> [] \<Longrightarrow> schedulerModelKey (Some m) = join (modelPaths m) [CHR 0x00]"
  by (simp add: schedulerModelKey_def modelPaths_def)

text \<open>
  Two file-backed models share a scheduler key only if they consist of the same
  files in the same order, as file paths have no NUL byte.
\<close>

theorem model_key_identifies_files:
  assumes "ModelPath m \<noteq> []" and "ModelPath m' \<noteq> []"
    and "\<forall>p \<in> set (modelPaths m) \<union> set (modelPaths m'). CHR 0x00 \<notin> set p"
    and "schedulerModelKey (Some m) = schedulerModelKey (Some m')"
  shows "ModelPath m = ModelPath m' \<and> ModelShardPaths m = ModelShardPaths m'"
proof -
  have ne: "modelPaths m \<noteq> []" "modelPaths m' \<noteq> []" using assms(1,2) by (simp_all add: modelPaths_def)
  have "join (modelPaths m) [CHR 0x00] = join (modelPaths m') [CHR 0x00]"
    using assms(4) key_of_paths[OF assms(1)] key_of_paths[OF assms(2)] by simp
  with split_join[OF ne(1)] split_join[OF ne(2)] assms(3) have "modelPaths m = modelPaths m'" by (metis UnI1 UnI2)
  with assms(1,2) show ?thesis by (simp add: modelPaths_def)
qed

theorem model_key_identifies_files_witness:
  "let m = (req_model auto_request)\<lparr>ModelPath := ''/a'', ModelShardPaths := [''/b'']\<rparr>;
       m' = (req_model auto_request)\<lparr>ModelPath := ''/a'', ModelShardPaths := [''/b''], ShortName := ''other''\<rparr>
   in schedulerModelKey (Some m) = schedulerModelKey (Some m') \<and> ModelShardPaths m = ModelShardPaths m'"
  using model_key_identifies_files[of "(req_model auto_request)\<lparr>ModelPath := ''/a'', ModelShardPaths := [''/b'']\<rparr>"
      "(req_model auto_request)\<lparr>ModelPath := ''/a'', ModelShardPaths := [''/b''], ShortName := ''other''\<rparr>"]
  by (simp add: modelPaths_def schedulerModelKey_def)

section \<open>Reuse\<close>

lemma mmap_default_keeps:
  assumes "applyLlamaServerMmapDefaults casefold goos stat w l req opts sys gpus f n = (opts', req')"
  shows "req' = req \<or> (UseMMap (req_opts req) = None \<and>
    req' = req\<lparr>req_opts := (req_opts req)\<lparr>UseMMap := Some False\<rparr>, req_useMMapAuto := True\<rparr>)"
  using assms
  by (auto simp: applyLlamaServerMmapDefaults_def maybeDisableMmapForHostPressure_def
      disableMmapDefaultReason_def disableMmapForHostPressure_def Let_def split: if_splits)

lemma auto_batch_keeps:
  "applyAutomaticGenerationBatch req c x p a fa g = req \<or> (req_numBatchAuto req \<and>
     (\<exists>b. applyAutomaticGenerationBatch req c x p a fa g = req\<lparr>req_opts := (req_opts req)\<lparr>NumBatch := b\<rparr>\<rparr>))"
  by (auto simp: applyAutomaticGenerationBatch_def)

text \<open>What the preflight may change in a request: an automatic batch, an automatic mapping choice, the shift.\<close>

definition adjusted :: "llm_request \<Rightarrow> llm_request \<Rightarrow> bool" where
  "adjusted req req' \<longleftrightarrow>
     (\<exists>b u a. req' = req\<lparr>req_opts := (req_opts req)\<lparr>NumBatch := b, UseMMap := u\<rparr>, req_useMMapAuto := a,
        req_contextShift := resolveContextShift (req_shift req) (Some (req_model req))\<rparr> \<and>
       (req_numBatchAuto req \<or> b = NumBatch (req_opts req)) \<and>
       ((u = UseMMap (req_opts req) \<and> a = req_useMMapAuto req) \<or> (UseMMap (req_opts req) = None \<and> a)))"

lemma adjustedI:
  assumes "r = req \<or> (req_numBatchAuto req \<and> (\<exists>b. r = req\<lparr>req_opts := (req_opts req)\<lparr>NumBatch := b\<rparr>\<rparr>))"
    and "z = r \<or> (UseMMap (req_opts r) = None \<and>
      z = r\<lparr>req_opts := (req_opts r)\<lparr>UseMMap := Some False\<rparr>, req_useMMapAuto := True\<rparr>)"
  shows "adjusted req (z\<lparr>req_contextShift := resolveContextShift (req_shift z) (Some (req_model z))\<rparr>)"
proof -
  obtain b where r: "r = req\<lparr>req_opts := (req_opts req)\<lparr>NumBatch := b\<rparr>\<rparr>"
    "req_numBatchAuto req \<or> b = NumBatch (req_opts req)"
  proof (cases "r = req")
    case True
    then show ?thesis using that[where b = "NumBatch (req_opts req)"] by simp
  next
    case False
    with assms(1) that show ?thesis by blast
  qed
  obtain u a where z: "z = r\<lparr>req_opts := (req_opts r)\<lparr>UseMMap := u\<rparr>, req_useMMapAuto := a\<rparr>"
    "(u = UseMMap (req_opts r) \<and> a = req_useMMapAuto r) \<or> (UseMMap (req_opts r) = None \<and> a)"
  proof (cases "z = r")
    case True
    then show ?thesis using that[where u = "UseMMap (req_opts r)" and a = "req_useMMapAuto r"] by simp
  next
    case False
    with assms(2) that[where u = "Some False" and a = True] show ?thesis by blast
  qed
  from z r show ?thesis unfolding adjusted_def by (intro exI[of _ b] exI[of _ u] exI[of _ a]) simp
qed

lemma preflight_adjusts:
  assumes "load_preflight env sys gpus full f req s = (Some x, req')"
  shows "adjusted req req'"
  using assms
  by (auto simp: load_preflight_def Let_def split: prod.splits if_splits
      intro: adjustedI[OF auto_batch_keeps mmap_default_keeps])

lemma adjusted_runner_reusable:
  assumes "adjusted q q0" and "ModelPath (req_model q) \<noteq> []"
    and "0 < env_contextLength env"
    and "env_contextLength env = effectiveContext (NumCtx (req_opts q)) (modelTrainContext f)"
    and "q1 = q0\<lparr>req_opts := (req_opts q0)\<lparr>NumCtx := env_contextLength env\<rparr>,
      req_contextShift := resolveContextShift (req_shift q0) (Some (req_model q0))\<rparr>"
  shows "\<not> needsReload (new_runner env q1 f g ids) q True"
proof -
  from assms(1) obtain b u a where q0:
    "q0 = q\<lparr>req_opts := (req_opts q)\<lparr>NumBatch := b, UseMMap := u\<rparr>, req_useMMapAuto := a,
        req_contextShift := resolveContextShift (req_shift q) (Some (req_model q))\<rparr>"
    and b: "req_numBatchAuto q \<or> b = NumBatch (req_opts q)"
    and u: "(u = UseMMap (req_opts q) \<and> a = req_useMMapAuto q) \<or> (UseMMap (req_opts q) = None \<and> a)"
    unfolding adjusted_def by blast
  let ?r = "new_runner env q1 f g ids"
  have r: "r_live ?r = Some (req_model q, (req_opts q)\<lparr>NumBatch := b, UseMMap := u, NumCtx := env_contextLength env\<rparr>)"
    "r_contextShift ?r = resolveContextShift (req_shift q) (Some (req_model q))"
    "trainContext ?r = modelTrainContext f" "r_numBatchAuto ?r = req_numBatchAuto q"
    "r_numCtxAuto ?r = req_numCtxAuto q" "r_useMMapAuto ?r = a"
    by (simp_all add: new_runner_def assms(5) q0)
  have "\<not> (NumGPU (req_opts q) < 0) \<or> NumGPU (req_opts q) < 0" by simp
  then show ?thesis
    using b u assms(2)
    unfolding needsReload_def r assms(4)[symmetric]
    by (elim disjE conjE) (simp_all add: Let_def r assms(4)[symmetric])
qed

text \<open>
  C31. A GGUF model that a request has just loaded serves that request: the runner is in
  the map under the request's key and needs no reload for it, whatever the load chose
  automatically (batch, memory mapping, context shift), when the server reports the
  requested context capped by the trained one.
\<close>

theorem fresh_runner_serves_its_request:
  assumes "activeLoading s = None" and "\<not> IsMLX (req_model q)" and "ModelPath (req_model q) \<noteq> []"
    and "env_metadata env = Some f" and "env_server_ok env" and "env_outcome env = Loaded ids"
    and "0 < env_contextLength env"
    and "env_contextLength env = effectiveContext (NumCtx (req_opts q)) (sint (ContextLength f))"
    and "load env sys gpus requireFull q s = Some (False, q1, s1)"
  shows "\<exists>r. map_of (loaded s1) (request_key q) = Some (next_id s) \<and> heap s1 (next_id s) = Some r \<and>
    \<not> needsReload r q True \<and> activeLoading s1 = None \<and> replies s1 = replies s"
proof -
  obtain x q0 where pre: "load_preflight env sys gpus requireFull f q s = (x, q0)" by fastforce
  with assms obtain g opts where x: "x = Some (g, opts)"
    by (cases x) (auto simp: load_def split: prod.splits)
  with pre have adj: "adjusted q q0" using preflight_adjusts by blast
  then have same: "req_model q0 = req_model q" by (auto simp: adjusted_def)
  let ?q1 = "q0\<lparr>req_opts := (req_opts q0)\<lparr>NumCtx := env_contextLength env\<rparr>,
      req_contextShift := resolveContextShift (req_shift q0) (Some (req_model q0))\<rparr>"
  have "s1 = insert_runner ?q1 (new_runner env ?q1 (Some f) g ids)
      (s\<lparr>activeLoading := None\<rparr>)"
    using assms pre x same by (auto simp: load_def load_finish_def Let_def)
  moreover have "\<not> needsReload (new_runner env ?q1 (Some f) g ids) q True"
    by (rule adjusted_runner_reusable[OF adj assms(3,7) _ refl])
       (use assms(8) in \<open>simp add: modelTrainContext_def\<close>)
  ultimately show ?thesis
    by (auto simp: insert_runner_def Let_def update_conv new_runner_def same split: option.splits)
qed

definition small_kv :: gguf_kv where
  "small_kv = \<lparr>ContextLength = 8192, BlockCount = 2, EmbeddingLength = 64, HeadCountMax = 8, HeadCountKVMin = 8\<rparr>"

definition small_env :: load_env where
  "small_env = \<lparr>env_numParallel = 1, env_keepAlive = 300, env_spread = False, env_flash = None, env_goos = ''linux'',
     env_stat = (\<lambda>_. Some 100), env_casefold = ascii_fold, env_completion = True, env_metadata = Some small_kv,
     env_weights = 100, env_server_ok = True, env_outcome = Loaded [], env_sizes = (100, 100),
     env_contextLength = 8192, env_pid = 7\<rparr>"

lemma small_load:
  "\<exists>q1 s1. load small_env some_system [] False auto_request InitScheduler = Some (False, q1, s1)"
proof -
  obtain x q0 where pre: "load_preflight small_env some_system [] False small_kv auto_request InitScheduler = (x, q0)"
    by fastforce
  then have "x \<noteq> None" by (auto simp: load_preflight_def Let_def split: prod.splits)
  with pre show ?thesis
    by (auto simp: load_def InitScheduler_def auto_request_def small_env_def load_finish_def Let_def)
qed

theorem fresh_runner_serves_its_request_witness:
  "\<exists>q1 s1 r. load small_env some_system [] False auto_request InitScheduler = Some (False, q1, s1) \<and>
     heap s1 0 = Some r \<and> \<not> needsReload r auto_request True"
proof -
  obtain q1 s1 where l: "load small_env some_system [] False auto_request InitScheduler = Some (False, q1, s1)"
    using small_load by blast
  have "\<exists>r. map_of (loaded s1) (request_key auto_request) = Some (next_id InitScheduler) \<and>
      heap s1 (next_id InitScheduler) = Some r \<and> \<not> needsReload r auto_request True \<and> activeLoading s1 = None \<and>
      replies s1 = replies InitScheduler"
    by (rule fresh_runner_serves_its_request[OF _ _ _ _ _ _ _ _ l, of small_kv "[]"])
       (simp_all add: InitScheduler_def auto_request_def small_env_def small_kv_def effectiveContext_def auto_opts_def)
  with l show ?thesis by (auto simp: InitScheduler_def)
qed

section \<open>The outcome of a load\<close>

lemma preflight_keeps:
  assumes "load_preflight env sys gpus full f req s = (x, req')"
  shows "req_model req' = req_model req" and "oomRetryAttempted req' = oomRetryAttempted req"
    and "x = None \<Longrightarrow> full \<and> loaded s \<noteq> []"
proof -
  have batch: "req_model (applyAutomaticGenerationBatch req c y p a fa g) = req_model req"
    "oomRetryAttempted (applyAutomaticGenerationBatch req c y p a fa g) = oomRetryAttempted req" for c y p a fa g
    by (simp_all add: applyAutomaticGenerationBatch_def)
  show "x = None \<Longrightarrow> full \<and> loaded s \<noteq> []"
    using assms by (auto simp: load_preflight_def Let_def split: prod.splits if_splits)
  have "req_model req' = req_model req \<and> oomRetryAttempted req' = oomRetryAttempted req"
  proof (cases x)
    case None
    with assms show ?thesis
      by (auto simp: load_preflight_def Let_def batch split: prod.splits if_splits)
  next
    case (Some y)
    with assms preflight_adjusts[of env sys gpus full f req s y req'] show ?thesis
      by (auto simp: adjusted_def)
  qed
  then show "req_model req' = req_model req" and "oomRetryAttempted req' = oomRetryAttempted req" by auto
qed

definition load_ends :: "load_env \<Rightarrow> bool \<Rightarrow> llm_request \<Rightarrow> scheduler \<Rightarrow> bool \<Rightarrow> llm_request \<Rightarrow> scheduler \<Rightarrow> bool" where
  "load_ends env requireFull q s retry q1 s1 \<longleftrightarrow>
     (if retry then
        replies s1 = replies s \<and> loaded s1 = loaded s \<and> heap s1 = heap s \<and>
        (requireFull \<and> (loaded s \<noteq> [] \<or> env_outcome env = LoadRequiredFull) \<and>
           oomRetryAttempted q1 = oomRetryAttempted q \<or>
         env_outcome env = LoadOutOfMemory \<and> \<not> oomRetryAttempted q \<and> oomRetryAttempted q1 \<and>
           activeLoading s1 = None)
      else
        activeLoading s1 = None \<and>
        (replies s1 = replies s @ [(q1, Inl ErrLoad)] \<and> loaded s1 = loaded s \<and> heap s1 = heap s \<or>
         (\<exists>ids. env_outcome env = Loaded ids) \<and> replies s1 = replies s \<and>
           map_of (loaded s1) (request_key q) = Some (next_id s)))"

lemma load_finish_ends:
  assumes "load_finish env sys f g opts requireFull q s = (retry, q1, s1)"
  shows "load_ends env requireFull q s retry q1 s1"
proof (cases "env_outcome env")
  case (Loaded ids)
  with assms show ?thesis
    by (auto simp: load_finish_def load_ends_def insert_runner_def new_runner_def update_conv Let_def
        split: if_splits option.splits)
next
  case LoadRequiredFull
  with assms show ?thesis by (auto simp: load_finish_def load_ends_def Let_def split: if_splits)
next
  case LoadOutOfMemory
  with assms show ?thesis
    by (auto simp: load_finish_def load_ends_def Let_def split: if_splits option.splits)
next
  case LoadError
  with assms show ?thesis by (auto simp: load_finish_def load_ends_def Let_def)
qed

text \<open>
  C21. How a load ends.  A load panics exactly when the server of another model is in
  preparation.  Otherwise it asks for a retry or ends.  A retry sends no reply and leaves the
  loaded runners alone; it follows on a failure for lack of memory at most once per request, or
  makes room because the full model is required, which is repeated as long as it is required.
  A load that ends leaves no server in preparation, and either exactly one error was sent, or
  the model is in the map and nothing was sent yet.
\<close>

theorem load_outcome_cases:
  "case load env sys gpus requireFull q s of
     None \<Rightarrow> \<exists>path. activeLoading s = Some path \<and> path \<noteq> wants_path (req_model q)
   | Some (retry, q1, s1) \<Rightarrow> (activeLoading s = None \<or> activeLoading s = Some (wants_path (req_model q))) \<and>
       load_ends env requireFull q s retry q1 s1"
proof -
  let ?s = "\<lambda>p. s\<lparr>activeLoading := Some p\<rparr>"
  have finish: "load_ends env requireFull q s retry q1 s1"
    if "load_finish env sys f g opts requireFull q0 (?s p) = (retry, q1, s1)"
      and "req_model q0 = req_model q" and "oomRetryAttempted q0 = oomRetryAttempted q"
    for f g opts q0 p retry q1 s1
    using load_finish_ends[OF that(1)] that(2,3) by (auto simp: load_ends_def)
  consider path where "activeLoading s = Some path"
    | "activeLoading s = None" "IsMLX (req_model q) \<or> env_metadata env = None"
    | f where "activeLoading s = None" "\<not> IsMLX (req_model q)" "env_metadata env = Some f"
    by (cases "activeLoading s") auto
  then show ?thesis
  proof cases
    case 1
    note waiting = this
    then have e: "s = ?s path" by simp
    obtain r q1 s1 where l: "load_finish env sys None gpus zero_opts requireFull q s = (r, q1, s1)"
      by (metis prod_cases3)
    from finish[of None gpus zero_opts q path r q1 s1] l e waiting show ?thesis
      by (auto simp: load_def)
  next
    case 2
    note bare = this
    obtain r q1 s1 where l: "load_finish env sys None gpus zero_opts requireFull q (?s (ShortName (req_model q))) = (r, q1, s1)"
      by (metis prod_cases3)
    with bare finish[OF l] show ?thesis by (auto simp: load_def load_ends_def)
  next
    case 3
    note meta = this
    obtain x q0 where pre: "load_preflight env sys gpus requireFull f q s = (x, q0)" by fastforce
    note keeps = preflight_keeps[OF pre]
    show ?thesis
    proof (cases x)
      case None
      with meta pre keeps show ?thesis by (auto simp: load_def load_ends_def)
    next
      case (Some y)
      obtain g opts where y: "y = (g, opts)" by fastforce
      obtain r q1 s1 where l: "load_finish env sys (Some f) g opts requireFull q0 (?s (ModelPath (req_model q))) = (r, q1, s1)"
        by (metis prod_cases3)
      from meta pre Some y l finish[OF l keeps(1,2)] show ?thesis
        by (cases "env_server_ok env") (auto simp: load_def load_ends_def)
    qed
  qed
qed

end
