(* ===== verification/SchedulerSafety.thy ===== *)
theory SchedulerSafety
  imports Scheduler
begin

text \<open>
  The scheduler as a state machine: every action is one critical section of the code,
  taken by a request, by the pending loop, by the completed loop, by a timer or by a
  goroutine that waits.  The lemmas show that the reference count of a loaded runner is
  exact and that a runner in use is not unloaded, as long as no runner is unloaded
  between the moment a request finds it usable and the moment it takes it.
\<close>

section \<open>Actions\<close>

datatype sched_action =
    Arrive llm_request bool
  | Take llm_request nat
  | PendingUse nat bool
  | PendingExpire nat bool
  | PendingLoad nat load_env system_info "device_info list"
  | PendingCancelled
  | Expire nat
  | Running llm_request nat int
  | Failed llm_request nat
  | ContextDone llm_request nat
  | Finished
  | TimerFires nat
  | Expired
  | Unloaded

text \<open>
  \<open>Expire\<close> stands for \<^const>\<open>expireRunner\<close>, for the expiry after an out-of-memory error
  and for the evictions of the pending loop once their runner is chosen.  A load takes
  effect when it ends: until then it only prepares the new runner.
\<close>

definition take_checked :: "llm_request \<Rightarrow> nat \<Rightarrow> scheduler \<Rightarrow> scheduler option" where
  "take_checked q i s =
     (case heap s i of
        None \<Rightarrow> None
      | Some r \<Rightarrow>
          if (q, i) \<notin> set (checked s) \<or> r_locked r then None
          else Some (useLoadedRunner q i r (s\<lparr>checked := remove1 (q, i) (checked s)\<rparr>)))"

definition pending_step :: "sched_action \<Rightarrow> scheduler \<Rightarrow> scheduler option" where
  "pending_step a s =
     (case pendingReqCh s of
        [] \<Rightarrow> None
      | q # rest \<Rightarrow>
          (case a of
             PendingUse maxRunners ping_ok \<Rightarrow>
               (case processPending_choice maxRunners q ping_ok s of
                  Some (UseRunner i) \<Rightarrow> Some (s\<lparr>pendingReqCh := rest, checked := (q, i) # checked s\<rparr>)
                | _ \<Rightarrow> None)
           | PendingExpire maxRunners ping_ok \<Rightarrow>
               (case processPending_choice maxRunners q ping_ok s of
                  Some (ExpireRunner (Some i)) \<Rightarrow> expire_now i s
                | _ \<Rightarrow> None)
           | PendingLoad maxRunners env systemInfo gpus \<Rightarrow>
               (case processPending_choice maxRunners q True s of
                  Some (TryLoad requireFull) \<Rightarrow>
                    (case load env systemInfo gpus requireFull q s of
                       None \<Rightarrow> None
                     | Some (retry, q1, s1) \<Rightarrow>
                         Some (s1\<lparr>pendingReqCh := (if retry then q1 # rest else rest)\<rparr>))
                | _ \<Rightarrow> None)
           | PendingCancelled \<Rightarrow> Some (s\<lparr>pendingReqCh := rest\<rparr>)
           | _ \<Rightarrow> None))"

definition context_done :: "llm_request \<Rightarrow> nat \<Rightarrow> scheduler \<Rightarrow> scheduler option" where
  "context_done q i s =
     (if (q, i) \<notin> set (in_use s) then None
      else Some (s\<lparr>in_use := remove1 (q, i) (in_use s), finishedReqCh := finishedReqCh s @ [q]\<rparr>))"

fun sched_step :: "nat \<Rightarrow> sched_action \<Rightarrow> scheduler \<Rightarrow> scheduler option" where
  "sched_step capacity (Arrive q ping_ok) s = getRunner capacity q ping_ok s"
| "sched_step capacity (Take q i) s = take_checked q i s"
| "sched_step capacity (Expire i) s = expire_now i s"
| "sched_step capacity (Running q i pid) s = server_running q i pid s"
| "sched_step capacity (Failed q i) s = server_failed q i s"
| "sched_step capacity (ContextDone q i) s = context_done q i s"
| "sched_step capacity Finished s = process_finished s"
| "sched_step capacity (TimerFires i) s = timer_fires i s"
| "sched_step capacity Expired s = process_expired s"
| "sched_step capacity Unloaded s =
     (if unloadedCh s = 0 then None else Some (s\<lparr>unloadedCh := unloadedCh s - 1\<rparr>))"
| "sched_step capacity a s = pending_step a s"

fun sched_run :: "nat \<Rightarrow> sched_action list \<Rightarrow> scheduler \<Rightarrow> scheduler option" where
  "sched_run capacity [] s = Some s"
| "sched_run capacity (a # as) s =
     (case sched_step capacity a s of None \<Rightarrow> None | Some s1 \<Rightarrow> sched_run capacity as s1)"

text \<open>
  Reachable states.  In an orderly run no runner is unloaded while a request that found
  it usable has not taken it, no two runners have the same pid, and the number of
  requests in flight fits the reference count.
\<close>

definition pids_distinct :: "scheduler \<Rightarrow> bool" where
  "pids_distinct s \<longleftrightarrow>
     (\<forall>i j r q. heap s i = Some r \<longrightarrow> heap s j = Some q \<longrightarrow> r_pid r = r_pid q \<longrightarrow> i = j)"

definition in_flight :: "scheduler \<Rightarrow> nat" where
  "in_flight s = length (in_use s) + length (finishedReqCh s) + length (checked s) + length (starting s)"

definition undisturbed :: "sched_action \<Rightarrow> scheduler \<Rightarrow> bool" where
  "undisturbed a s \<longleftrightarrow>
     (a = Expired \<longrightarrow> expiredCh s \<noteq> [] \<longrightarrow> hd (expiredCh s) \<notin> snd ` set (checked s))"

inductive orderly :: "nat \<Rightarrow> scheduler \<Rightarrow> bool" for capacity where
  orderly_init: "orderly capacity InitScheduler"
| orderly_step: "orderly capacity s \<Longrightarrow> sched_step capacity a s = Some s' \<Longrightarrow> undisturbed a s \<Longrightarrow>
    pids_distinct s \<Longrightarrow> in_flight s < 2 ^ 63 \<Longrightarrow> orderly capacity s'"

inductive_cases orderly_stepE: "orderly capacity s"

section \<open>The invariant\<close>

definition users :: "scheduler \<Rightarrow> nat \<Rightarrow> string \<Rightarrow> nat" where
  "users s i k = length (filter (\<lambda>(q, j). j = i) (in_use s)) +
     length (filter (\<lambda>q. request_key q = k) (finishedReqCh s))"

definition loaded_ok :: "scheduler \<Rightarrow> bool" where
  "loaded_ok s \<longleftrightarrow>
     (\<forall>k i. map_of (loaded s) k = Some i \<longrightarrow>
        (\<exists>r. heap s i = Some r \<and> r_modelKey r = k \<and> r_server r \<and> unat (refCount r) = users s i k))"

definition holders_ok :: "scheduler \<Rightarrow> bool" where
  "holders_ok s \<longleftrightarrow>
     (\<forall>q i. (q, i) \<in> set (checked s) \<union> set (starting s) \<union> set (in_use s) \<longrightarrow>
        map_of (loaded s) (request_key q) = Some i)"

definition finished_ok :: "scheduler \<Rightarrow> bool" where
  "finished_ok s \<longleftrightarrow> (\<forall>q \<in> set (finishedReqCh s). map_of (loaded s) (request_key q) \<noteq> None)"

definition starting_ok :: "scheduler \<Rightarrow> bool" where
  "starting_ok s \<longleftrightarrow> distinct (map snd (starting s)) \<and>
     (\<forall>(q, i) \<in> set (starting s). \<exists>r. heap s i = Some r \<and> r_locked r)"

definition ids_ok :: "scheduler \<Rightarrow> bool" where
  "ids_ok s \<longleftrightarrow> (\<forall>i r. heap s i = Some r \<longrightarrow> i < next_id s)"

definition consistent :: "scheduler \<Rightarrow> bool" where
  "consistent s \<longleftrightarrow> loaded_ok s \<and> holders_ok s \<and> finished_ok s \<and> starting_ok s \<and> ids_ok s"

lemmas consistent_defs = consistent_def loaded_ok_def holders_ok_def finished_ok_def starting_ok_def
  ids_ok_def users_def

lemma consistent_init: "consistent InitScheduler"
  by (simp add: consistent_defs InitScheduler_def)

lemma loadedD:
  assumes "consistent s" and "map_of (loaded s) k = Some i" and "heap s i = Some r"
  shows "r_modelKey r = k" and "r_server r" and "unat (refCount r) = users s i k"
  using assms unfolding consistent_def loaded_ok_def by (metis option.inject)+

lemma loaded_heap:
  assumes "consistent s" and "map_of (loaded s) k = Some i"
  shows "\<exists>r. heap s i = Some r"
  using assms unfolding consistent_def loaded_ok_def by blast

lemma loaded_unique:
  assumes "consistent s" and "map_of (loaded s) k = Some i" and "map_of (loaded s) l = Some i"
  shows "k = l"
proof -
  obtain r where "heap s i = Some r" using loaded_heap[OF assms(1,2)] by blast
  with loadedD(1)[OF assms(1)] assms(2,3) show ?thesis by metis
qed

lemma holderD:
  assumes "consistent s" and "(q, i) \<in> set (checked s) \<union> set (starting s) \<union> set (in_use s)"
  shows "map_of (loaded s) (request_key q) = Some i"
  using assms unfolding consistent_def holders_ok_def by blast

text \<open>The fields the invariant reads.\<close>

lemma consistent_cong:
  assumes "consistent s" and "heap s' = heap s" and "loaded s' = loaded s" and "next_id s' = next_id s"
    and "in_use s' = in_use s" and "finishedReqCh s' = finishedReqCh s" and "starting s' = starting s"
    and "set (checked s') \<subseteq> set (checked s) \<union> {(q, i) | q i. map_of (loaded s) (request_key q) = Some i}"
  shows "consistent s'"
  using assms(1,8) unfolding consistent_defs assms(2-7) by auto

lemma consistent_set_runner:
  assumes "consistent s" and "heap s i = Some r"
    and "r_modelKey r' = r_modelKey r" and "r_server r' = r_server r" and "refCount r' = refCount r"
    and "r_locked r' = r_locked r"
  shows "consistent (set_runner i r' s)"
proof -
  have "loaded_ok (set_runner i r' s)"
    unfolding loaded_ok_def
  proof (intro allI impI)
    fix k j
    assume "map_of (loaded (set_runner i r' s)) k = Some j"
    then have l: "map_of (loaded s) k = Some j" by simp
    obtain q where q: "heap s j = Some q" using loaded_heap[OF assms(1) l] by blast
    have "users (set_runner i r' s) j k = users s j k" by (simp add: users_def)
    with loadedD[OF assms(1) l q] q assms(2-5)
    show "\<exists>r. heap (set_runner i r' s) j = Some r \<and> r_modelKey r = k \<and> r_server r \<and>
        unat (refCount r) = users (set_runner i r' s) j k"
      by (cases "j = i") simp_all
  qed
  moreover have "starting_ok (set_runner i r' s)"
    using assms(1,2,6) unfolding consistent_def starting_ok_def by (auto split: if_splits)
  ultimately show ?thesis
    using assms(1,2) unfolding consistent_def holders_ok_def finished_ok_def ids_ok_def by auto
qed

lemma consistent_expire_now: "consistent s \<Longrightarrow> expire_now i s = Some s' \<Longrightarrow> consistent s'"
proof -
  assume c: "consistent s" and e: "expire_now i s = Some s'"
  then obtain r where r: "heap s i = Some r" by (auto simp: expire_now_def split: option.splits)
  have "consistent (set_runner i (r\<lparr>expireTimer := False, r_sessionDuration := 0\<rparr>) s)"
    by (rule consistent_set_runner[OF c r]) simp_all
  then show ?thesis
    using e r by (auto simp: expire_now_def Let_def split: if_splits elim!: consistent_cong)
qed

lemma consistent_timer: "consistent s \<Longrightarrow> timer_fires i s = Some s' \<Longrightarrow> consistent s'"
proof -
  assume c: "consistent s" and e: "timer_fires i s = Some s'"
  then obtain r where r: "heap s i = Some r" by (auto simp: timer_fires_def split: option.splits)
  have "consistent (set_runner i (r\<lparr>expireTimer := False\<rparr>) s)"
    by (rule consistent_set_runner[OF c r]) simp_all
  then show ?thesis
    using e r by (auto simp: timer_fires_def Let_def split: if_splits elim!: consistent_cong)
qed

lemma consistent_getRunner: "consistent s \<Longrightarrow> getRunner n q ping_ok s = Some s' \<Longrightarrow> consistent s'"
  by (auto simp: getRunner_def enqueue_def split: option.splits if_splits elim!: consistent_cong)

lemma choice_use: "processPending_choice m q ping_ok s = Some (UseRunner i) \<Longrightarrow>
    map_of (loaded s) (request_key q) = Some i"
  by (auto simp: processPending_choice_def Let_def split: option.splits if_splits)

lemma choice_load: "processPending_choice m q ping_ok s = Some (TryLoad full) \<Longrightarrow>
    map_of (loaded s) (request_key q) = None"
  by (auto simp: processPending_choice_def Let_def split: option.splits if_splits)

section \<open>Taking and releasing a runner\<close>

lemma users_in_flight: "users s i k \<le> in_flight s"
  using length_filter_le[of "\<lambda>(q, j). j = i" "in_use s"]
    length_filter_le[of "\<lambda>q. request_key q = k" "finishedReqCh s"]
  unfolding users_def in_flight_def by linarith

lemma consistent_acquire:
  assumes "consistent s" and "map_of (loaded s) (request_key q) = Some i" and "heap s i = Some r"
    and "in_flight s < 2 ^ 63"
    and "r_modelKey r' = r_modelKey r" and "r_server r' = r_server r" and "refCount r' = refCount r + 1"
    and "heap s' = (heap s)(i \<mapsto> r')" and "loaded s' = loaded s" and "next_id s' = next_id s"
    and "finishedReqCh s' = finishedReqCh s" and "in_use s' = (q, i) # in_use s"
    and "set (checked s') \<subseteq> set (checked s)" and "set (starting s') \<subseteq> set (starting s)" and "starting_ok s'"
  shows "consistent s'"
proof -
  note l = loadedD[OF assms(1-3)]
  have "unat (refCount r) < 2 ^ 63" using l(3) users_in_flight[of s i "request_key q"] assms(4) by simp
  then have inc: "unat (refCount r + 1) = unat (refCount r) + 1"
    using unat_add_lem[of "refCount r" 1] by simp
  have "loaded_ok s'"
    unfolding loaded_ok_def
  proof (intro allI impI)
    fix k j
    assume "map_of (loaded s') k = Some j"
    then have lk: "map_of (loaded s) k = Some j" using assms(9) by simp
    obtain p where p: "heap s j = Some p" using loaded_heap[OF assms(1) lk] by blast
    show "\<exists>r. heap s' j = Some r \<and> r_modelKey r = k \<and> r_server r \<and> unat (refCount r) = users s' j k"
    proof (cases "j = i")
      case True
      then have "k = request_key q" using loaded_unique[OF assms(1)] lk assms(2) by simp
      with True l inc assms(5-8,11,12) show ?thesis by (simp add: users_def)
    next
      case False
      then have "users s' j k = users s j k" using assms(11,12) by (simp add: users_def)
      with False loadedD[OF assms(1) lk p] p assms(8) show ?thesis by simp
    qed
  qed
  moreover have "holders_ok s'"
    using assms(1,2,9,12-14) unfolding consistent_def holders_ok_def by auto
  ultimately show ?thesis
    using assms(1,3,8-11,15) unfolding consistent_def finished_ok_def ids_ok_def by auto
qed

text \<open>The runner after \<^const>\<open>useLoadedRunner\<close>.\<close>

definition runner_taken :: "llm_request \<Rightarrow> runner_ref \<Rightarrow> runner_ref" where
  "runner_taken q r = r\<lparr>refCount := refCount r + 1, expireTimer := False,
     r_sessionDuration := (case req_sessionDuration q of Some d \<Rightarrow> d | None \<Rightarrow> r_sessionDuration r)\<rparr>"

lemma runner_taken_simps [simp]:
  "refCount (runner_taken q r) = refCount r + 1" "r_modelKey (runner_taken q r) = r_modelKey r"
  "r_server (runner_taken q r) = r_server r" "r_locked (runner_taken q r) = r_locked r"
  by (simp_all add: runner_taken_def)

lemma consistent_take:
  assumes "consistent s" and "take_checked q i s = Some s'" and "in_flight s < 2 ^ 63"
  shows "consistent s'"
proof -
  obtain r where r: "heap s i = Some r" "(q, i) \<in> set (checked s)"
    "s' = useLoadedRunner q i r (s\<lparr>checked := remove1 (q, i) (checked s)\<rparr>)"
    using assms(2) by (auto simp: take_checked_def split: option.splits if_splits)
  have l: "map_of (loaded s) (request_key q) = Some i"
    using assms(1) r(2) unfolding consistent_def holders_ok_def by auto
  let ?r = "runner_taken q r"
  have s': "s' = (set_runner i ?r s)\<lparr>checked := remove1 (q, i) (checked s), replies := replies s @ [(q, Inr i)],
      in_use := (q, i) # in_use s\<rparr>"
    unfolding r(3) useLoadedRunner_def runner_taken_def Let_def by (simp split: option.split)
  have "starting_ok s'"
    using assms(1) r(1) unfolding s' consistent_def starting_ok_def by auto
  then show ?thesis
    by (intro consistent_acquire[OF assms(1) l r(1) assms(3), of ?r])
       (simp_all add: s' set_remove1_subset)
qed

lemma starting_unlock:
  assumes "starting_ok s" and "(q, i) \<in> set (starting s)"
    and "heap s' = (heap s)(i \<mapsto> r')" and "starting s' = remove1 (q, i) (starting s)"
  shows "starting_ok s'"
proof -
  have d: "distinct (map snd (starting s))" using assms(1) by (simp add: starting_ok_def)
  have "distinct (map snd (remove1 (q, i) (starting s))) \<and> i \<notin> snd ` set (remove1 (q, i) (starting s))"
    using d assms(2)
  proof (induction "starting s" arbitrary: s)
    case Nil
    then show ?case by simp
  next
    case (Cons x xs)
    show ?case
    proof (cases "x = (q, i)")
      case True
      with Cons.prems(1) Cons.hyps(2)[symmetric] show ?thesis by simp
    next
      case False
      with Cons.prems Cons.hyps(2)[symmetric] Cons.hyps(1)[of "s\<lparr>starting := xs\<rparr>"]
        notin_set_remove1[of _ xs "(q, i)"] show ?thesis by (auto simp: image_iff)
    qed
  qed
  then show ?thesis
    using assms(1,3,4) set_remove1_subset[of "(q, i)" "starting s"]
    unfolding starting_ok_def by (auto simp: image_iff)
qed

lemma startingD:
  assumes "consistent s" and "(q, i) \<in> set (starting s)"
  shows "map_of (loaded s) (request_key q) = Some i"
  using assms unfolding consistent_def holders_ok_def by auto

lemma consistent_running:
  assumes "consistent s" and "server_running q i pid s = Some s'" and "in_flight s < 2 ^ 63"
  shows "consistent s'"
proof -
  obtain r where r: "heap s i = Some r" "(q, i) \<in> set (starting s)"
    using assms(2) by (auto simp: server_running_def split: option.splits if_splits)
  let ?r = "r\<lparr>r_pid := (if r_pid r < 0 then pid else r_pid r), refCount := refCount r + 1,
      r_loading := False, r_locked := False\<rparr>"
  have s': "s' = (set_runner i ?r s)\<lparr>starting := remove1 (q, i) (starting s), in_use := (q, i) # in_use s,
      replies := replies s @ [(q, Inr i)]\<rparr>"
    using assms(2) r by (simp add: server_running_def)
  have "starting_ok s'"
    by (rule starting_unlock[OF _ r(2)]) (use assms(1) in \<open>simp_all add: s' consistent_def\<close>)
  then show ?thesis
    by (intro consistent_acquire[OF assms(1) startingD[OF assms(1) r(2)] r(1) assms(3), of ?r])
       (simp_all add: s' set_remove1_subset)
qed

text \<open>A runner changed without touching key, server and count, while a goroutine stops waiting for it.\<close>

lemma consistent_failed:
  assumes "consistent s" and "server_failed q i s = Some s'"
  shows "consistent s'"
proof -
  obtain r where r: "heap s i = Some r" "(q, i) \<in> set (starting s)"
    using assms(2) by (auto simp: server_failed_def split: option.splits if_splits)
  have s': "s' = (set_runner i (r\<lparr>r_locked := False\<rparr>) s)\<lparr>starting := remove1 (q, i) (starting s),
      expiredCh := expiredCh s @ [i], replies := replies s @ [(q, Inl ErrServer)]\<rparr>"
    using assms(2) r by (simp add: server_failed_def)
  have st: "starting_ok s'"
    by (rule starting_unlock[OF _ r(2)]) (use assms(1) in \<open>simp_all add: s' consistent_def\<close>)
  have "loaded_ok s'"
    unfolding loaded_ok_def
  proof (intro allI impI)
    fix k j
    assume "map_of (loaded s') k = Some j"
    then have l: "map_of (loaded s) k = Some j" by (simp add: s')
    obtain p where p: "heap s j = Some p" using loaded_heap[OF assms(1) l] by blast
    with loadedD[OF assms(1) l p] r(1)
    show "\<exists>r. heap s' j = Some r \<and> r_modelKey r = k \<and> r_server r \<and> unat (refCount r) = users s' j k"
      by (cases "j = i") (simp_all add: s' users_def)
  qed
  with st show ?thesis
    using assms(1) r(1) set_remove1_subset[of "(q, i)" "starting s"]
    unfolding consistent_def holders_ok_def finished_ok_def ids_ok_def by (auto simp: s')
qed

lemma length_filter_remove1:
  "x \<in> set xs \<Longrightarrow> P x \<Longrightarrow> length (filter P xs) = Suc (length (filter P (remove1 x xs)))"
  by (induction xs) auto

lemma length_filter_remove1_not:
  "\<not> P x \<Longrightarrow> length (filter P (remove1 x xs)) = length (filter P xs)"
  by (induction xs) auto

text \<open>The context of a request ends: the count of its runner is unchanged, the release is queued.\<close>

lemma consistent_context_done:
  assumes "consistent s" and "context_done q i s = Some s'"
  shows "consistent s'"
proof -
  have m: "(q, i) \<in> set (in_use s)"
    and s': "s' = s\<lparr>in_use := remove1 (q, i) (in_use s), finishedReqCh := finishedReqCh s @ [q]\<rparr>"
    using assms(2) by (auto simp: context_done_def split: if_splits)
  have lq: "map_of (loaded s) (request_key q) = Some i"
    using assms(1) m unfolding consistent_def holders_ok_def by auto
  have "loaded_ok s'"
    unfolding loaded_ok_def
  proof (intro allI impI)
    fix k j
    assume "map_of (loaded s') k = Some j"
    then have l: "map_of (loaded s) k = Some j" by (simp add: s')
    obtain p where p: "heap s j = Some p" using loaded_heap[OF assms(1) l] by blast
    have "users s' j k = users s j k"
    proof (cases "j = i")
      case True
      then have "k = request_key q" using loaded_unique[OF assms(1)] l lq by simp
      with True m length_filter_remove1[of "(q, i)" "in_use s" "\<lambda>(q, j). j = i"] show ?thesis
        by (simp add: users_def s')
    next
      case False
      with l lq have "k \<noteq> request_key q" by auto
      with False length_filter_remove1_not[of "\<lambda>(q, h). h = j" "(q, i)" "in_use s"] show ?thesis
        by (simp add: users_def s')
    qed
    with loadedD[OF assms(1) l p] p
    show "\<exists>r. heap s' j = Some r \<and> r_modelKey r = k \<and> r_server r \<and> unat (refCount r) = users s' j k"
      by (simp add: s')
  qed
  then show ?thesis
    using assms(1) lq set_remove1_subset[of "(q, i)" "in_use s"]
    unfolding consistent_def holders_ok_def finished_ok_def ids_ok_def starting_ok_def by (auto simp: s')
qed

text \<open>A release: the runner's count goes down by one, with or without the expiry it triggers.\<close>

lemma consistent_finished:
  assumes "consistent s" and "process_finished s = Some s'"
  shows "consistent s'"
proof -
  obtain q rest where f: "finishedReqCh s = q # rest"
    using assms(2) by (auto simp: process_finished_def split: list.splits)
  obtain i where lq: "map_of (loaded s) (request_key q) = Some i"
    using assms(1) f unfolding consistent_def finished_ok_def by auto
  obtain r where r: "heap s i = Some r" using loaded_heap[OF assms(1) lq] by blast
  define r' where "r' = (let r1 = r\<lparr>refCount := refCount r - 1\<rparr> in
    if refCount r1 = 0 then (if r_sessionDuration r1 \<le> 0 then r1\<lparr>expireTimer := False\<rparr> else r1\<lparr>expireTimer := True\<rparr>)
    else r1)"
  have s': "heap s' = (heap s)(i \<mapsto> r')" "loaded s' = loaded s" "next_id s' = next_id s" "in_use s' = in_use s"
    "finishedReqCh s' = rest" "checked s' = checked s" "starting s' = starting s"
    using assms(2) f lq r by (auto simp: process_finished_def r'_def Let_def split: if_splits)
  have r': "refCount r' = refCount r - 1" "r_modelKey r' = r_modelKey r" "r_server r' = r_server r"
    "r_locked r' = r_locked r"
    by (simp_all add: r'_def Let_def)
  note lr = loadedD[OF assms(1) lq r]
  have pos: "0 < users s i (request_key q)" using f by (simp add: users_def)
  with lr(3) have "refCount r \<noteq> 0" by auto
  then have dec: "unat (refCount r - 1) = unat (refCount r) - 1" by (simp add: unat_minus_one)
  have "loaded_ok s'"
    unfolding loaded_ok_def
  proof (intro allI impI)
    fix k j
    assume "map_of (loaded s') k = Some j"
    then have l: "map_of (loaded s) k = Some j" by (simp add: s')
    obtain p where p: "heap s j = Some p" using loaded_heap[OF assms(1) l] by blast
    show "\<exists>r. heap s' j = Some r \<and> r_modelKey r = k \<and> r_server r \<and> unat (refCount r) = users s' j k"
    proof (cases "j = i")
      case True
      then have "k = request_key q" using loaded_unique[OF assms(1)] l lq by simp
      with True lr dec f r' show ?thesis by (simp add: users_def s')
    next
      case False
      with l lq have "k \<noteq> request_key q" by auto
      with False loadedD[OF assms(1) l p] p f show ?thesis by (simp add: users_def s')
    qed
  qed
  then show ?thesis
    using assms(1) r f r'
    unfolding consistent_def holders_ok_def finished_ok_def ids_ok_def starting_ok_def by (auto simp: s')
qed

section \<open>Unloading and loading\<close>

lemma consistent_set_unloaded:
  assumes "consistent s" and "heap s i = Some r" and "\<not> r_locked r"
    and "\<And>k. map_of (loaded s) k \<noteq> Some i"
  shows "consistent (set_runner i r' s)"
proof -
  have "loaded_ok (set_runner i r' s)"
    unfolding loaded_ok_def
  proof (intro allI impI)
    fix k j
    assume "map_of (loaded (set_runner i r' s)) k = Some j"
    then have l: "map_of (loaded s) k = Some j" by simp
    obtain p where p: "heap s j = Some p" using loaded_heap[OF assms(1) l] by blast
    from l assms(4) have "j \<noteq> i" by auto
    with loadedD[OF assms(1) l p] p
    show "\<exists>r. heap (set_runner i r' s) j = Some r \<and> r_modelKey r = k \<and> r_server r \<and>
        unat (refCount r) = users (set_runner i r' s) j k"
      by (simp add: users_def)
  qed
  moreover have "starting_ok (set_runner i r' s)"
    using assms(1-3) unfolding consistent_def starting_ok_def by (auto split: if_splits)
  ultimately show ?thesis
    using assms(1,2) unfolding consistent_def holders_ok_def finished_ok_def ids_ok_def by auto
qed

lemma unload_loaded:
  assumes "consistent s" and "map_of (loaded s) k = Some i" and "heap s i = Some r" and "\<not> r_locked r"
    and "refCount r = 0" and "i \<notin> snd ` set (checked s)"
    and "heap s' = (heap s)(i \<mapsto> r')" and "loaded s' = AList.delete k (loaded s)" and "next_id s' = next_id s"
    and "in_use s' = in_use s" and "finishedReqCh s' = finishedReqCh s" and "checked s' = checked s"
    and "starting s' = starting s"
  shows "consistent s'"
proof -
  have del: "map_of (loaded s') l = (if l = k then None else map_of (loaded s) l)" for l
    using assms(8) by (simp add: delete_conv')
  have "users s i k = 0" using loadedD(3)[OF assms(1-3)] assms(5) by simp
  then have unused: "\<forall>(q, j) \<in> set (in_use s). j \<noteq> i" "\<forall>q \<in> set (finishedReqCh s). request_key q \<noteq> k"
    by (auto simp: users_def filter_empty_conv)
  have notkey: "request_key q \<noteq> k" if "(q, j) \<in> set (checked s) \<union> set (starting s) \<union> set (in_use s)" for q j
  proof
    assume "request_key q = k"
    with holderD[OF assms(1) that] assms(2) have "j = i" by simp
    with that unused(1) assms(6) have "(q, i) \<in> set (starting s)" by (auto simp: image_iff)
    with assms(1,3,4) show False unfolding consistent_def starting_ok_def by auto
  qed
  have "loaded_ok s'"
    unfolding loaded_ok_def
  proof (intro allI impI)
    fix l j
    assume "map_of (loaded s') l = Some j"
    then have l: "map_of (loaded s) l = Some j" "l \<noteq> k" by (simp_all add: del split: if_splits)
    obtain p where p: "heap s j = Some p" using loaded_heap[OF assms(1) l(1)] by blast
    have "j \<noteq> i" using loaded_unique[OF assms(1,2)] l by auto
    with loadedD[OF assms(1) l(1) p] p assms(7,10,11)
    show "\<exists>r. heap s' j = Some r \<and> r_modelKey r = l \<and> r_server r \<and> unat (refCount r) = users s' j l"
      by (simp add: users_def)
  qed
  moreover have "starting_ok s'"
    using assms(1,3,4,7,13) unfolding consistent_def starting_ok_def by (auto split: if_splits)
  moreover have "holders_ok s'"
    using holderD[OF assms(1)] notkey unfolding holders_ok_def assms(10,12,13) del by auto
  moreover have "finished_ok s'"
    using assms(1,11) unused(2) unfolding consistent_def finished_ok_def by (auto simp: del)
  ultimately show ?thesis
    using assms(1,3,7,9) unfolding consistent_def ids_ok_def by auto
qed

lemma consistent_expired:
  assumes "consistent s" and "process_expired s = Some s'" and "undisturbed Expired s" and "pids_distinct s"
  shows "consistent s'"
proof -
  obtain i rest where e: "expiredCh s = i # rest"
    using assms(2) by (auto simp: process_expired_def split: list.splits)
  obtain r where r: "heap s i = Some r" "\<not> r_locked r"
    using assms(2) e by (auto simp: process_expired_def Let_def split: option.splits if_splits)
  show ?thesis
  proof (cases "refCount r = 0")
    case False
    then have "s' = s\<lparr>expiredCh := rest @ [i]\<rparr>"
      using assms(2) e r by (simp add: process_expired_def word_gt_0)
    then show ?thesis by (simp add: consistent_cong[OF assms(1)])
  next
    case idle: True
    show ?thesis
    proof (cases "map_of (loaded s) (r_modelKey r)")
      case None
      then have "s' = s\<lparr>expiredCh := rest\<rparr>"
        using assms(2) e r idle by (simp add: process_expired_def Let_def)
      then show ?thesis by (simp add: consistent_cong[OF assms(1)])
    next
      case (Some j)
      obtain p where p: "heap s j = Some p" using loaded_heap[OF assms(1) Some] by blast
      show ?thesis
      proof (cases "r_pid r = r_pid p")
        case True
        then have "j = i" using assms(4) r(1) p unfolding pids_distinct_def by metis
        moreover from this have "s' = (set_runner i (unload r) (s\<lparr>expiredCh := rest\<rparr>))
            \<lparr>loaded := AList.delete (r_modelKey r) (loaded s), unloadedCh := unloadedCh s + 1\<rparr>"
          using assms(2) e r idle Some p True by (simp add: process_expired_def Let_def)
        moreover have "i \<notin> snd ` set (checked s)" using assms(3) e by (simp add: undisturbed_def)
        ultimately show ?thesis
          using unload_loaded[OF assms(1) Some, of r s' "unload r"] r idle by simp
      next
        case False
        then have "map_of (loaded s) k \<noteq> Some i" for k
          using loadedD(1)[OF assms(1) _ r(1), of k] Some p r(1) by auto
        from consistent_set_unloaded[OF assms(1) r this] have c: "consistent (set_runner i (unload r) s)" .
        moreover have "s' = (set_runner i (unload r) s)\<lparr>expiredCh := rest\<rparr>"
          using assms(2) e r idle Some p False by (auto simp: process_expired_def Let_def)
        ultimately show ?thesis by (simp add: consistent_cong[OF c])
      qed
    qed
  qed
qed

text \<open>A load changes nothing the invariant reads, or adds one new runner.\<close>

definition same_runners :: "scheduler \<Rightarrow> scheduler \<Rightarrow> bool" where
  "same_runners s s' \<longleftrightarrow> heap s' = heap s \<and> loaded s' = loaded s \<and> next_id s' = next_id s \<and>
     in_use s' = in_use s \<and> finishedReqCh s' = finishedReqCh s \<and> starting s' = starting s \<and>
     checked s' = checked s"

lemma same_runners_consistent: "same_runners s s' \<Longrightarrow> consistent s \<Longrightarrow> consistent s'"
  by (auto simp: same_runners_def elim!: consistent_cong)

lemma load_finish_result:
  assumes "load_finish env sys f g opts full q s = (retry, q1, s1)"
  shows "same_runners s s1 \<or>
    (\<exists>ids. s1 = insert_runner q1 (new_runner env q1 f g ids) (s\<lparr>activeLoading := None\<rparr>) \<and> req_model q1 = req_model q)"
proof (cases "env_outcome env")
  case (Loaded ids)
  with assms have "s1 = insert_runner q1 (new_runner env q1 f g ids) (s\<lparr>activeLoading := None\<rparr>)"
    and "req_model q1 = req_model q"
    by (auto simp: load_finish_def Let_def)
  then show ?thesis by blast
qed (use assms in \<open>auto simp: load_finish_def Let_def same_runners_def split: if_splits option.splits\<close>)

lemma preflight_model:
  assumes "load_preflight env sys gpus full f q s = (x, q0)"
  shows "req_model q0 = req_model q"
proof -
  have batch: "req_model (applyAutomaticGenerationBatch r c y p a fa g) = req_model r" for r c y p a fa g
    by (simp add: applyAutomaticGenerationBatch_def)
  have mmap: "applyLlamaServerMmapDefaults cf goos stat w l r o1 sys g f n = (o2, z) \<Longrightarrow> req_model z = req_model r"
    for cf goos stat w l r o1 g f n o2 z
    by (auto simp: applyLlamaServerMmapDefaults_def maybeDisableMmapForHostPressure_def Let_def split: if_splits)
  from assms show ?thesis
    by (auto simp: load_preflight_def Let_def batch split: prod.splits if_splits dest!: mmap)
qed

lemma load_result:
  assumes "load env sys gpus full q s = Some (retry, q1, s1)"
  shows "same_runners s s1 \<or>
    (\<exists>f g ids. s1 = insert_runner q1 (new_runner env q1 f g ids) (s\<lparr>activeLoading := None\<rparr>) \<and>
       req_model q1 = req_model q)"
proof -
  have finish: ?thesis
    if "load_finish env sys f g opts full q0 s0 = (retry, q1, s1)" and "s0 = s\<lparr>activeLoading := p\<rparr>"
      and "req_model q0 = req_model q" for f g opts q0 s0 p
    using load_finish_result[OF that(1)] that(2,3) by (auto simp: same_runners_def)
  show ?thesis
  proof (cases "activeLoading s")
    case (Some p)
    with assms have "load_finish env sys None gpus zero_opts full q s = (retry, q1, s1)"
      by (auto simp: load_def split: if_splits)
    then show ?thesis by (intro finish[of None gpus zero_opts q s "activeLoading s"]) simp_all
  next
    case None
    show ?thesis
    proof (cases "IsMLX (req_model q)")
      case True
      show ?thesis
      proof (cases "env_server_ok env")
        case True
        with \<open>IsMLX (req_model q)\<close> None assms show ?thesis
          by (intro finish[OF _ refl refl]) (simp add: load_def)
      next
        case False
        with \<open>IsMLX (req_model q)\<close> None assms show ?thesis by (auto simp: load_def same_runners_def)
      qed
    next
      case False
      show ?thesis
      proof (cases "env_metadata env")
        case None
        with False \<open>activeLoading s = None\<close> assms show ?thesis by (auto simp: load_def same_runners_def)
      next
        case (Some f)
        obtain x q0 where pre: "load_preflight env sys gpus full f q s = (x, q0)" by fastforce
        show ?thesis
        proof (cases "x = None \<or> \<not> env_server_ok env")
          case True
          with False \<open>activeLoading s = None\<close> Some pre assms show ?thesis
            by (auto simp: load_def same_runners_def split: option.splits)
        next
          case ok: False
          then obtain y opts where "x = Some (y, opts)" by auto
          with False \<open>activeLoading s = None\<close> Some pre assms ok show ?thesis
            by (intro finish[OF _ refl preflight_model[OF pre]]) (simp add: load_def)
        qed
      qed
    qed
  qed
qed

lemma consistent_insert:
  assumes "consistent s" and "map_of (loaded s) (request_key q) = None"
    and "s' = insert_runner q r (s\<lparr>activeLoading := None\<rparr>)" and "r_modelKey r = request_key q"
    and "r_server r" and "refCount r = 0" and "r_locked r"
  shows "consistent s'"
proof -
  let ?i = "next_id s" and ?k = "request_key q"
  have fresh: "map_of (loaded s) k \<noteq> Some ?i" for k
    using loaded_heap[OF assms(1)] assms(1) unfolding consistent_def ids_ok_def by fastforce
  have s': "heap s' = (heap s)(?i \<mapsto> r)" "next_id s' = ?i + 1" "starting s' = (q, ?i) # starting s"
    "in_use s' = in_use s" "finishedReqCh s' = finishedReqCh s" "checked s' = checked s"
    "map_of (loaded s') = (map_of (loaded s))(?k \<mapsto> ?i)"
    using assms(2-4) by (simp_all add: insert_runner_def Let_def update_conv')
  have unused: "users s ?i ?k = 0"
  proof -
    have "j \<noteq> ?i" if "(p, j) \<in> set (in_use s)" for p j
      using holderD[OF assms(1), of p j] that fresh by auto
    moreover have "request_key p \<noteq> ?k" if "p \<in> set (finishedReqCh s)" for p
      using assms(1,2) that unfolding consistent_def finished_ok_def by auto
    ultimately show ?thesis by (auto simp: users_def filter_empty_conv)
  qed
  have "loaded_ok s'"
    unfolding loaded_ok_def
  proof (intro allI impI)
    fix k j
    assume l: "map_of (loaded s') k = Some j"
    have u: "users s' j k = users s j k" by (simp add: users_def s')
    show "\<exists>r. heap s' j = Some r \<and> r_modelKey r = k \<and> r_server r \<and> unat (refCount r) = users s' j k"
    proof (cases "k = ?k")
      case True
      with l s' u unused assms(4-6) show ?thesis by simp
    next
      case False
      with l have lk: "map_of (loaded s) k = Some j" by (simp add: s')
      obtain p where p: "heap s j = Some p" using loaded_heap[OF assms(1) lk] by blast
      with loadedD[OF assms(1) lk p] fresh[of k] lk u show ?thesis by (auto simp: s')
    qed
  qed
  moreover have "starting_ok s'"
  proof -
    have "?i \<notin> snd ` set (starting s)"
      using holderD[OF assms(1)] fresh by fastforce
    then show ?thesis
      using assms(1,7) unfolding consistent_def starting_ok_def by (auto simp: s' image_iff)
  qed
  moreover have "holders_ok s'"
    unfolding holders_ok_def
  proof (intro allI impI)
    fix p i
    assume m: "(p, i) \<in> set (checked s') \<union> set (starting s') \<union> set (in_use s')"
    show "map_of (loaded s') (request_key p) = Some i"
    proof (cases "(p, i) = (q, ?i)")
      case True
      then show ?thesis by (simp add: s')
    next
      case False
      with m have "(p, i) \<in> set (checked s) \<union> set (starting s) \<union> set (in_use s)" by (auto simp: s')
      from holderD[OF assms(1) this] assms(2) show ?thesis by (auto simp: s')
    qed
  qed
  moreover have "finished_ok s'"
    using assms(1) unfolding consistent_def finished_ok_def by (auto simp: s')
  ultimately show ?thesis
    using assms(1) unfolding consistent_def ids_ok_def by (auto simp: s' less_Suc_eq)
qed

lemma consistent_pending:
  assumes "consistent s" and "pending_step a s = Some s'"
  shows "consistent s'"
proof -
  obtain q rest where p: "pendingReqCh s = q # rest"
    using assms(2) by (auto simp: pending_step_def split: list.splits)
  show ?thesis
  proof (cases a)
    case (PendingUse m ok)
    with assms(2) p obtain i where "processPending_choice m q ok s = Some (UseRunner i)"
      "s' = s\<lparr>pendingReqCh := rest, checked := (q, i) # checked s\<rparr>"
      by (auto simp: pending_step_def split: option.splits pending_choice.splits)
    with choice_use show ?thesis by (auto intro!: consistent_cong[OF assms(1)])
  next
    case (PendingExpire m ok)
    with assms(2) p obtain i where "expire_now i s = Some s'"
      by (auto simp: pending_step_def split: option.splits pending_choice.splits)
    then show ?thesis by (rule consistent_expire_now[OF assms(1)])
  next
    case (PendingLoad m env sys gpus)
    with assms(2) p obtain full retry q1 s1 where
      c: "processPending_choice m q True s = Some (TryLoad full)"
      and l: "load env sys gpus full q s = Some (retry, q1, s1)"
      and s': "s' = s1\<lparr>pendingReqCh := (if retry then q1 # rest else rest)\<rparr>"
      by (auto simp: pending_step_def split: option.splits pending_choice.splits)
    have "consistent s1"
      using load_result[OF l]
    proof
      assume "same_runners s s1"
      then show ?thesis using assms(1) by (rule same_runners_consistent)
    next
      assume "\<exists>f g ids. s1 = insert_runner q1 (new_runner env q1 f g ids) (s\<lparr>activeLoading := None\<rparr>) \<and>
          req_model q1 = req_model q"
      then obtain f g ids where
        i: "s1 = insert_runner q1 (new_runner env q1 f g ids) (s\<lparr>activeLoading := None\<rparr>)" "req_model q1 = req_model q"
        by blast
      show ?thesis
        by (rule consistent_insert[OF assms(1) _ i(1)]) (use choice_load[OF c] i(2) in \<open>simp_all add: new_runner_def\<close>)
    qed
    then show ?thesis by (simp add: s' consistent_cong)
  next
    case PendingCancelled
    with assms(2) p show ?thesis by (auto simp: pending_step_def intro!: consistent_cong[OF assms(1)])
  qed (use assms(2) p in \<open>simp_all add: pending_step_def\<close>)
qed

lemma consistent_step:
  assumes "consistent s" and "sched_step capacity a s = Some s'" and "undisturbed a s"
    and "pids_distinct s" and "in_flight s < 2 ^ 63"
  shows "consistent s'"
proof (cases a)
  case Unloaded
  with assms(2) show ?thesis by (auto intro!: consistent_cong[OF assms(1)] split: if_splits)
qed (use assms in \<open>auto intro: consistent_getRunner consistent_take consistent_expire_now consistent_running
      consistent_failed consistent_context_done consistent_finished consistent_timer consistent_expired
      consistent_pending\<close>)

lemma orderly_consistent: "orderly capacity s \<Longrightarrow> consistent s"
  by (induction rule: orderly.induct) (auto intro: consistent_init consistent_step)

section \<open>Properties\<close>

text \<open>
  C1. In every orderly run a runner that a request uses is still loaded under the
  request's key, its server was not closed, and its reference count is positive: it is
  exactly the number of requests that use it or whose release is queued.
\<close>

theorem runner_in_use_not_unloaded:
  assumes "orderly capacity s" and "(q, i) \<in> set (in_use s)"
  shows "\<exists>r. heap s i = Some r \<and> map_of (loaded s) (request_key q) = Some i \<and> r_server r \<and>
    refCount r \<noteq> 0 \<and> unat (refCount r) = users s i (request_key q)"
proof -
  note c = orderly_consistent[OF assms(1)]
  have l: "map_of (loaded s) (request_key q) = Some i" using holderD[OF c] assms(2) by blast
  then obtain r where r: "heap s i = Some r" using loaded_heap[OF c] by blast
  have "0 < users s i (request_key q)" using assms(2) by (auto simp: users_def filter_empty_conv)
  with loadedD[OF c l r] l r show ?thesis by auto
qed

section \<open>Releases\<close>

text \<open>An orderly run from one state to another.\<close>

inductive orderly_path :: "nat \<Rightarrow> scheduler \<Rightarrow> sched_action list \<Rightarrow> scheduler \<Rightarrow> bool" for capacity where
  path_Nil: "orderly_path capacity s [] s"
| path_Cons: "sched_step capacity a s = Some s1 \<Longrightarrow> undisturbed a s \<Longrightarrow> pids_distinct s \<Longrightarrow> in_flight s < 2 ^ 63 \<Longrightarrow>
    orderly_path capacity s1 as s2 \<Longrightarrow> orderly_path capacity s (a # as) s2"

inductive_cases orderly_path_ConsE: "orderly_path capacity s (a # as) s2"

text \<open>The queue of finished requests: requests come in at the end and are taken from the front.\<close>

lemma load_keeps_finished: "load env sys gpus full q s = Some (retry, q1, s1) \<Longrightarrow> finishedReqCh s1 = finishedReqCh s"
  using load_result[of env sys gpus full q s retry q1 s1] by (auto simp: same_runners_def insert_runner_def Let_def split: option.splits)

lemma pending_keeps_finished: "pending_step a s = Some s' \<Longrightarrow> finishedReqCh s' = finishedReqCh s"
  by (cases a) (auto simp: pending_step_def expire_now_def Let_def load_keeps_finished
      split: list.splits option.splits pending_choice.splits if_splits dest: load_keeps_finished)

lemma step_finished:
  assumes "sched_step capacity a s = Some s'"
  shows "finishedReqCh s' = (case a of Finished \<Rightarrow> tl (finishedReqCh s) | ContextDone q i \<Rightarrow> finishedReqCh s @ [q]
      | _ \<Rightarrow> finishedReqCh s)"
    and "a = Finished \<Longrightarrow> finishedReqCh s \<noteq> []"
  using assms pending_keeps_finished[of a s s']
  by (cases a; auto simp: getRunner_def enqueue_def take_checked_def useLoadedRunner_def expire_now_def server_running_def
      server_failed_def context_done_def process_finished_def timer_fires_def process_expired_def Let_def
      split: option.splits if_splits list.splits)+

text \<open>A runner that has users stays loaded under its key.\<close>

lemma pending_keeps_loaded:
  assumes "pending_step a s = Some s'" and "map_of (loaded s) k = Some i"
  shows "map_of (loaded s') k = Some i"
proof -
  obtain p rest where p: "pendingReqCh s = p # rest" using assms(1) by (auto simp: pending_step_def split: list.splits)
  show ?thesis
  proof (cases a)
    case (PendingLoad m env sys gpus)
    then obtain full retry q1 s1 where c: "processPending_choice m p True s = Some (TryLoad full)"
      "load env sys gpus full p s = Some (retry, q1, s1)" "loaded s' = loaded s1"
      using assms(1) p by (auto simp: pending_step_def split: option.splits pending_choice.splits)
    have "map_of (loaded s) (request_key p) = None" using choice_load[OF c(1)] by simp
    then have "request_key p \<noteq> k" using assms(2) by auto
    then show ?thesis using load_result[OF c(2)] assms(2)
      by (auto simp: c(3) same_runners_def insert_runner_def new_runner_def update_conv' Let_def split: option.splits)
  qed (use assms p in \<open>auto simp: pending_step_def expire_now_def Let_def split: option.splits pending_choice.splits if_splits\<close>)
qed

lemma expired_keeps_loaded:
  assumes "consistent s" and "process_expired s = Some s'" and "pids_distinct s"
    and "map_of (loaded s) k = Some i" and "0 < users s i k"
  shows "map_of (loaded s') k = Some i"
proof (rule ccontr)
  assume n: "map_of (loaded s') k \<noteq> Some i"
  obtain j rest where e: "expiredCh s = j # rest" using assms(2) by (auto simp: process_expired_def split: list.splits)
  obtain r where r: "heap s j = Some r" using assms(2) e by (auto simp: process_expired_def Let_def split: option.splits)
  have d: "refCount r = 0" "loaded s' = AList.delete (r_modelKey r) (loaded s)"
    "\<exists>m p. map_of (loaded s) (r_modelKey r) = Some m \<and> heap s m = Some p \<and> r_pid r = r_pid p"
    using assms(2,4) e r n by (auto simp: process_expired_def Let_def word_gt_0 split: option.splits if_splits)
  then have "map_of (loaded s) k = Some j"
    using n assms(3,4) r unfolding pids_distinct_def by (auto simp: delete_conv' split: if_splits)
  then have "j = i" using assms(4) by simp
  with loadedD(3)[OF assms(1,4)] r d(1) assms(5) show False by simp
qed

lemma step_keeps_loaded:
  assumes "consistent s" and "sched_step capacity a s = Some s'" and "pids_distinct s"
    and "map_of (loaded s) k = Some i" and "0 < users s i k"
  shows "map_of (loaded s') k = Some i"
proof (cases "a = Expired")
  case True
  then show ?thesis using expired_keeps_loaded[OF assms(1) _ assms(3-5)] assms(2) by simp
next
  case False
  then show ?thesis using assms(2,4) pending_keeps_loaded[OF _ assms(4), of a s']
    by (cases a) (auto simp: getRunner_def enqueue_def take_checked_def useLoadedRunner_def expire_now_def server_running_def
        server_failed_def context_done_def process_finished_def timer_fires_def Let_def
        split: option.splits if_splits list.splits)
qed

text \<open>A queued release meets the runner that was loaded when it was queued.\<close>

lemma queued_release:
  assumes "orderly_path capacity s acts s'" and "consistent s" and "finishedReqCh s = before @ q # behind"
    and "map_of (loaded s) (request_key q) = Some i" and "count_list acts Finished = length before"
  shows "consistent s' \<and> map_of (loaded s') (request_key q) = Some i \<and> (\<exists>rest. finishedReqCh s' = q # rest)"
  using assms
proof (induction arbitrary: before behind rule: orderly_path.induct)
  case (path_Cons a s s1 as s2)
  have c: "consistent s1" by (rule consistent_step[OF path_Cons.prems(1) path_Cons.hyps(1-4)])
  have u: "0 < users s i (request_key q)" using path_Cons.prems(2) by (simp add: users_def)
  have l: "map_of (loaded s1) (request_key q) = Some i"
    by (rule step_keeps_loaded[OF path_Cons.prems(1) path_Cons.hyps(1,3) path_Cons.prems(3) u])
  show ?case
  proof (cases "a = Finished")
    case True
    then have "before \<noteq> []" using path_Cons.prems(4) by auto
    then have "finishedReqCh s1 = tl before @ q # behind"
      using step_finished(1)[OF path_Cons.hyps(1)] True path_Cons.prems(2) by simp
    from path_Cons.IH[OF c this l] show ?thesis using path_Cons.prems(4) True by simp
  next
    case False
    then have "\<exists>more. finishedReqCh s1 = before @ q # more"
      using step_finished(1)[OF path_Cons.hyps(1)] path_Cons.prems(2) by (cases a) auto
    then obtain more where "finishedReqCh s1 = before @ q # more" by blast
    from path_Cons.IH[OF c this l] show ?thesis using path_Cons.prems(4) False by simp
  qed
qed simp

text \<open>
  C15. A release reaches the runner that served the request.  In every orderly run, when the
  context of a request that uses runner \<open>i\<close> ends, its release is queued; once the releases
  queued before it have been processed, in whatever order the scheduler does its other work,
  processing it lowers the count of runner \<open>i\<close> by exactly one, without wrapping, and of no other
  runner; \<open>i\<close> is then still loaded under the key of the request and its server was not closed.
\<close>

theorem release_finds_its_runner:
  assumes "orderly capacity s" and "(q, i) \<in> set (in_use s)"
    and "orderly_path capacity s (ContextDone q i # acts) s1" and "count_list acts Finished = length (finishedReqCh s)"
    and "process_finished s1 = Some s2"
  shows "\<exists>rest r r'. finishedReqCh s1 = q # rest \<and> finishedReqCh s2 = rest \<and>
    map_of (loaded s1) (request_key q) = Some i \<and> loaded s2 = loaded s1 \<and>
    heap s1 i = Some r \<and> heap s2 i = Some r' \<and> r_server r' \<and> unat (refCount r) = unat (refCount r') + 1 \<and>
    heap s2 = (heap s1)(i \<mapsto> r')"
proof -
  obtain s0 where s0: "sched_step capacity (ContextDone q i) s = Some s0" "undisturbed (ContextDone q i) s"
    "pids_distinct s" "in_flight s < 2 ^ 63" "orderly_path capacity s0 acts s1"
    using assms(3) by (rule orderly_path_ConsE) (rule that, simp_all)
  note c = orderly_consistent[OF assms(1)]
  have "map_of (loaded s) (request_key q) = Some i" using holderD[OF c] assms(2) by blast
  then have l0: "map_of (loaded s0) (request_key q) = Some i" "finishedReqCh s0 = finishedReqCh s @ q # []"
    using s0(1) by (auto simp: context_done_def split: if_splits)
  from queued_release[OF s0(5) consistent_step[OF c s0(1-4)] l0(2,1) assms(4)]
  obtain rest where c1: "consistent s1" and l: "map_of (loaded s1) (request_key q) = Some i" and f: "finishedReqCh s1 = q # rest"
    by blast
  obtain r where r: "heap s1 i = Some r" using loaded_heap[OF c1 l] by blast
  have "0 < users s1 i (request_key q)" using f by (simp add: users_def)
  with loadedD[OF c1 l r] have "refCount r \<noteq> 0" by auto
  then have dec: "unat (refCount r) = unat (refCount r - 1) + 1"
    by (simp add: unat_minus_one unat_gt_0 Suc_leI)
  have "\<exists>r'. heap s2 = (heap s1)(i \<mapsto> r') \<and> refCount r' = refCount r - 1 \<and> r_server r' = r_server r \<and>
      loaded s2 = loaded s1 \<and> finishedReqCh s2 = rest"
    using assms(5) l r f by (auto simp: process_finished_def Let_def split: if_splits)
  with l r f dec loadedD(2)[OF c1 l r] show ?thesis by auto
qed

definition mlx_request :: "nat \<Rightarrow> llm_request" where
  "mlx_request n = auto_request\<lparr>req_ctx := n,
     req_model := (req_model auto_request)\<lparr>ModelPath := [], IsMLX := True\<rparr>\<rparr>"

definition env_pid_of :: "int \<Rightarrow> load_env" where
  "env_pid_of p = \<lparr>env_numParallel = 1, env_keepAlive = 300, env_spread = False, env_flash = None,
     env_goos = ''linux'', env_stat = (\<lambda>_. None), env_casefold = ascii_fold, env_completion = True,
     env_metadata = None, env_weights = 0, env_server_ok = True, env_outcome = Loaded [], env_sizes = (0, 0),
     env_contextLength = 0, env_pid = p\<rparr>"

text \<open>
  A run that is not orderly: request 2 finds the idle runner usable, its timer fires and
  the runner is unloaded, and only then does the request take it.
\<close>

definition late_take :: "sched_action list" where
  "late_take =
     [Arrive (mlx_request 1) True, PendingLoad 3 (env_pid_of 7) some_system [],
      Running (mlx_request 1) 0 7, ContextDone (mlx_request 1) 0, Finished, TimerFires 0,
      Arrive (mlx_request 2) True, Expired, Take (mlx_request 2) 0]"

definition wrong_release :: "sched_action list" where
  "wrong_release =
     [Arrive (mlx_request 3) True, PendingLoad 3 (env_pid_of 8) some_system [], Running (mlx_request 3) 1 8,
      ContextDone (mlx_request 2) 0, Finished, TimerFires 1, Expired]"

lemma mlx_request_simps [simp]:
  "IsMLX (req_model (mlx_request n))" "ModelPath (req_model (mlx_request n)) = []"
  "ShortName (req_model (mlx_request n)) = ''m''" "AdapterPaths (req_model (mlx_request n)) = []"
  "ProjectorPaths (req_model (mlx_request n)) = []" "req_contextShift (mlx_request n) = False"
  "req_sessionDuration (mlx_request n) = None" "mlx_request n = mlx_request m \<longleftrightarrow> n = m"
  "request_key (mlx_request n) = ''short:m''"
  by (auto simp: mlx_request_def auto_request_def schedulerModelKey_def dest: arg_cong[where f = req_ctx])

lemma mlx_load:
  "activeLoading s = None \<Longrightarrow> load (env_pid_of p) sys [] full (mlx_request n) s =
     Some (False, mlx_request n, insert_runner (mlx_request n)
       (new_runner (env_pid_of p) (mlx_request n) None [] []) (s\<lparr>activeLoading := None\<rparr>))"
  by (simp add: load_def load_finish_def env_pid_of_def Let_def)

definition mlx_runner :: "int \<Rightarrow> nat \<Rightarrow> runner_ref" where
  "mlx_runner p n = new_runner (env_pid_of p) (mlx_request n) None [] []"

lemma mlx_runner_simps [simp]:
  "refCount (mlx_runner p n) = 0" "r_locked (mlx_runner p n)" "r_server (mlx_runner p n)"
  "r_pid (mlx_runner p n) = p" "r_sessionDuration (mlx_runner p n) = 300"
  "r_live (mlx_runner p n) = Some (req_model (mlx_request n), req_opts (mlx_request n))"
  "r_modelKey (mlx_runner p n) = ''short:m''" "r_contextShift (mlx_runner p n) = False"
  "expireTimer (mlx_runner p n) = False"
  by (simp_all add: mlx_runner_def new_runner_def env_pid_of_def)

lemmas run_defs = getRunner_def enqueue_def pending_step_def processPending_choice_def mlx_load
  mlx_runner_def[symmetric] insert_runner_def server_running_def context_done_def process_finished_def
  timer_fires_def process_expired_def take_checked_def useLoadedRunner_def needsReload_def unload_def Let_def

text \<open>
  Without the orderly condition the promise fails: \<^verbatim>\<open>getRunner\<close> tests a runner and
  takes it under two separate locks, so a runner that expires in between is handed out
  with its server closed; and when that request ends, its release is counted against
  the next runner of the same key, which is then unloaded while a third request uses it.
\<close>

theorem late_take_breaks_in_use:
  "(\<exists>s. sched_run 8 late_take InitScheduler = Some s \<and> (mlx_request 2, 0) \<in> set (in_use s) \<and>
      map_option r_server (heap s 0) = Some False) \<and>
   (\<exists>s. sched_run 8 (late_take @ wrong_release) InitScheduler = Some s \<and>
      (mlx_request 3, 1) \<in> set (in_use s) \<and> map_option r_server (heap s 1) = Some False)"
  by (intro conjI) (simp_all add: late_take_def wrong_release_def InitScheduler_def run_defs)

lemma orderly_run:
  assumes "orderly n s" and "sched_step n a s = Some s'" and "a \<noteq> Expired" and "pids_distinct s" and "in_flight s < 2 ^ 63"
  shows "orderly n s'"
  using orderly_step[OF assms(1,2) _ assms(4,5)] assms(3) by (simp add: undisturbed_def)

definition one_user :: scheduler where
  "one_user = InitScheduler\<lparr>heap := [0 \<mapsto> (mlx_runner 7 1)\<lparr>r_pid := 7, refCount := 1, r_loading := False,
       r_locked := False\<rparr>], next_id := 1, loaded := [(''short:m'', 0)], in_use := [(mlx_request 1, 0)],
     replies := [(mlx_request 1, Inr 0)]\<rparr>"

lemma one_user_orderly: "orderly 8 one_user"
proof -
  let ?s1 = "InitScheduler\<lparr>pendingReqCh := [mlx_request 1]\<rparr>"
  let ?s2 = "InitScheduler\<lparr>heap := [0 \<mapsto> mlx_runner 7 1], next_id := 1, loaded := [(''short:m'', 0)],
      starting := [(mlx_request 1, 0)]\<rparr>"
  have "sched_step 8 (Arrive (mlx_request 1) True) InitScheduler = Some ?s1"
    by (simp add: InitScheduler_def run_defs)
  then have "orderly 8 ?s1"
    by (rule orderly_run[OF orderly_init]) (simp_all add: InitScheduler_def pids_distinct_def in_flight_def)
  moreover have "sched_step 8 (PendingLoad 3 (env_pid_of 7) some_system []) ?s1 = Some ?s2"
    by (simp add: InitScheduler_def run_defs)
  ultimately have "orderly 8 ?s2"
    by (rule orderly_run) (simp_all add: InitScheduler_def pids_distinct_def in_flight_def)
  moreover have "sched_step 8 (Running (mlx_request 1) 0 7) ?s2 = Some one_user"
    by (simp add: InitScheduler_def run_defs one_user_def)
  ultimately show ?thesis
    by (rule orderly_run) (simp_all add: InitScheduler_def pids_distinct_def in_flight_def)
qed

theorem runner_in_use_not_unloaded_witness:
  "\<exists>r. heap one_user 0 = Some r \<and> map_of (loaded one_user) ''short:m'' = Some 0 \<and> r_server r \<and> refCount r \<noteq> 0"
  using runner_in_use_not_unloaded[OF one_user_orderly, of "mlx_request 1" 0]
  by (auto simp: one_user_def)

definition one_release :: scheduler where
  "one_release = one_user\<lparr>in_use := [], finishedReqCh := [mlx_request 1]\<rparr>"

theorem release_finds_its_runner_witness:
  "\<exists>s2 r'. process_finished one_release = Some s2 \<and> heap s2 0 = Some r' \<and> r_server r' \<and> unat (refCount r') = 0"
proof -
  have "process_finished one_release \<noteq> None"
    by (simp add: process_finished_def one_release_def one_user_def Let_def)
  then obtain s2 where p: "process_finished one_release = Some s2" by blast
  have "orderly_path 8 one_user (ContextDone (mlx_request 1) 0 # []) one_release"
    by (rule path_Cons[OF _ _ _ _ path_Nil])
      (simp_all add: context_done_def one_user_def one_release_def InitScheduler_def undisturbed_def pids_distinct_def in_flight_def)
  from release_finds_its_runner[OF one_user_orderly _ this _ p] p show ?thesis
    by (auto simp: one_release_def one_user_def InitScheduler_def)
qed

end
