(* ===== verification/ModelName.thy ===== *)
theory ModelName
  imports GoStrings
begin

text \<open>
  \<^verbatim>\<open>types/model/name.go\<close>: model names \<^verbatim>\<open>host/namespace/model:tag\<close>, how they are parsed,
  completed with defaults, validated, printed, and turned into file paths.  The path
  separator is that of Unix.  \<^verbatim>\<open>filepath.Join\<close> of the standard library is modelled with
  its cleaning of \<^verbatim>\<open>.\<close> and \<^verbatim>\<open>..\<close>, so that the theorems on paths say something about it.
\<close>

section \<open>Names\<close>

record model_name =
  Host :: string
  Namespace :: string
  Model :: string
  Tag :: string
  ProtocolScheme :: string

definition MissingPart :: string where "MissingPart = ''!MISSING!''"
definition defaultHost :: string where "defaultHost = ''registry.ollama.ai''"
definition defaultNamespace :: string where "defaultNamespace = ''library''"

definition DefaultName :: model_name where
  "DefaultName = \<lparr>Host = defaultHost, Namespace = defaultNamespace, Model = [], Tag = ''latest'',
     ProtocolScheme = ''https''\<rparr>"

definition empty_name :: model_name where
  "empty_name = \<lparr>Host = [], Namespace = [], Model = [], Tag = [], ProtocolScheme = []\<rparr>"

datatype part_kind = kindHost | kindNamespace | kindModel | kindTag | kindDigest

definition cmp_or :: "string \<Rightarrow> string \<Rightarrow> string" where
  "cmp_or a b = (if a \<noteq> [] then a else b)"

definition cutLast :: "string \<Rightarrow> string \<Rightarrow> string \<times> string \<times> bool" where
  "cutLast s sep =
     (case last_index_of sep s of
        Some i \<Rightarrow> (take i s, drop (i + length sep) s, True)
      | None \<Rightarrow> (s, [], False))"

definition cutPromised :: "string \<Rightarrow> string \<Rightarrow> string \<times> string \<times> bool" where
  "cutPromised s sep =
     (let (before, after, ok) = cutLast s sep in
      if \<not> ok then (before, after, False)
      else (cmp_or before MissingPart, cmp_or after MissingPart, True))"

text \<open>The comparison of two results of \<^verbatim>\<open>strings.LastIndex\<close>, where not found is -1.\<close>

definition last_index_greater :: "nat option \<Rightarrow> nat option \<Rightarrow> bool" where
  "last_index_greater a b =
     (case a of None \<Rightarrow> False | Some i \<Rightarrow> (case b of None \<Rightarrow> True | Some j \<Rightarrow> i > j))"

definition ParseNameBare :: "string \<Rightarrow> model_name" where
  "ParseNameBare s =
     (let (s1, tag) =
        (if last_index_greater (last_index_of '':'' s) (last_index_of ''/'' s)
         then (let (b, a, _) = cutPromised s '':'' in (b, a)) else (s, []));
          n = empty_name\<lparr>Tag := tag\<rparr>;
          (s2, mdl, promised) = cutPromised s1 ''/''
      in if \<not> promised then n\<lparr>Model := s2\<rparr>
         else (let n1 = n\<lparr>Model := mdl\<rparr>;
                   (s3, ns, promised) = cutPromised s2 ''/''
               in if \<not> promised then n1\<lparr>Namespace := s3\<rparr>
                  else (let n2 = n1\<lparr>Namespace := ns\<rparr> in
                        case cut s3 ''://'' of
                          (scheme, Some host) \<Rightarrow> n2\<lparr>ProtocolScheme := scheme, Host := host\<rparr>
                        | (scheme, None) \<Rightarrow> n2\<lparr>Host := scheme\<rparr>)))"

definition Merge :: "model_name \<Rightarrow> model_name \<Rightarrow> model_name" where
  "Merge a b = a\<lparr>Host := cmp_or (Host a) (Host b), Namespace := cmp_or (Namespace a) (Namespace b),
     Tag := cmp_or (Tag a) (Tag b), ProtocolScheme := cmp_or (ProtocolScheme a) (ProtocolScheme b)\<rparr>"

definition ParseName :: "string \<Rightarrow> model_name" where
  "ParseName s = Merge (ParseNameBare s) DefaultName"

definition Name_String :: "model_name \<Rightarrow> string" where
  "Name_String n =
     (if Host n \<noteq> [] then Host n @ ''/'' else []) @ (if Namespace n \<noteq> [] then Namespace n @ ''/'' else []) @
     Model n @ (if Tag n \<noteq> [] then '':'' @ Tag n else [])"

definition DisplayShortest :: "(nat \<Rightarrow> nat) \<Rightarrow> model_name \<Rightarrow> string" where
  "DisplayShortest casefold n =
     (if \<not> equal_fold casefold (Host n) defaultHost then Host n @ ''/'' @ Namespace n @ ''/''
      else if \<not> equal_fold casefold (Namespace n) defaultNamespace then Namespace n @ ''/''
      else []) @ Model n @ '':'' @ Tag n"

definition DisplayNamespaceModel :: "model_name \<Rightarrow> string" where
  "DisplayNamespaceModel n = Namespace n @ ''/'' @ Model n"

definition Name_EqualFold :: "(nat \<Rightarrow> nat) \<Rightarrow> model_name \<Rightarrow> model_name \<Rightarrow> bool" where
  "Name_EqualFold casefold n o' \<longleftrightarrow>
     equal_fold casefold (Host n) (Host o') \<and> equal_fold casefold (Namespace n) (Namespace o') \<and>
     equal_fold casefold (Model n) (Model o') \<and> equal_fold casefold (Tag n) (Tag o')"

section \<open>Validity\<close>

definition isAlphanumericOrUnderscore :: "char \<Rightarrow> bool" where
  "isAlphanumericOrUnderscore c \<longleftrightarrow>
     (65 \<le> byte_val c \<and> byte_val c \<le> 90) \<or> (97 \<le> byte_val c \<and> byte_val c \<le> 122) \<or>
     (48 \<le> byte_val c \<and> byte_val c \<le> 57) \<or> c = CHR ''_''"

definition isValidLen :: "part_kind \<Rightarrow> string \<Rightarrow> bool" where
  "isValidLen kind s =
     (case kind of
        kindHost \<Rightarrow> length s \<ge> 1 \<and> length s \<le> 350
      | kindTag \<Rightarrow> length s \<ge> 1 \<and> length s \<le> 80
      | _ \<Rightarrow> length s \<ge> 1 \<and> length s \<le> 80)"

definition valid_rest :: "part_kind \<Rightarrow> char \<Rightarrow> bool" where
  "valid_rest kind c =
     (if c = CHR ''_'' \<or> c = CHR ''-'' then True
      else if c = CHR ''.'' then kind \<noteq> kindNamespace
      else if c = CHR '':'' then kind = kindHost \<or> kind = kindDigest
      else isAlphanumericOrUnderscore c)"

text \<open>The loop visits the first byte of every rune.\<close>

definition isValidPart :: "part_kind \<Rightarrow> string \<Rightarrow> bool" where
  "isValidPart kind s =
     (if \<not> isValidLen kind s then False
      else (case explode_runes s of
              [] \<Rightarrow> True
            | u # us \<Rightarrow> isAlphanumericOrUnderscore (hd u) \<and> list_all (\<lambda>u. valid_rest kind (hd u)) us))"

definition IsValidNamespace :: "string \<Rightarrow> bool" where
  "IsValidNamespace s = isValidPart kindNamespace s"

definition IsFullyQualified :: "model_name \<Rightarrow> bool" where
  "IsFullyQualified n \<longleftrightarrow>
     isValidPart kindHost (Host n) \<and> isValidPart kindNamespace (Namespace n) \<and>
     isValidPart kindModel (Model n) \<and> isValidPart kindTag (Tag n)"

definition Name_IsValid :: "model_name \<Rightarrow> bool" where
  "Name_IsValid n = IsFullyQualified n"

section \<open>Paths\<close>

text \<open>\<^verbatim>\<open>filepath.Join\<close> on Unix: the non-empty elements are joined and the result is cleaned.\<close>

fun clean_elems :: "bool \<Rightarrow> string list \<Rightarrow> string list \<Rightarrow> string list" where
  "clean_elems rooted stack [] = rev stack"
| "clean_elems rooted stack (e # es) =
     (if e = [] \<or> e = ''.'' then clean_elems rooted stack es
      else if e = ''..'' then
        (if stack \<noteq> [] \<and> hd stack \<noteq> ''..'' then clean_elems rooted (tl stack) es
         else if rooted then clean_elems rooted stack es
         else clean_elems rooted (e # stack) es)
      else clean_elems rooted (e # stack) es)"

definition path_Clean :: "string \<Rightarrow> string" where
  "path_Clean p =
     (if p = [] then ''.''
      else (let rooted = prefix ''/'' p;
                out = (if rooted then ''/'' else []) @ join (clean_elems rooted [] (split_on ''/'' p)) ''/''
            in if out = [] then ''.'' else out))"

definition path_Join :: "string list \<Rightarrow> string" where
  "path_Join es = (let es' = filter (\<lambda>e. e \<noteq> []) es in if es' = [] then [] else path_Clean (join es' ''/''))"

text \<open>\<^verbatim>\<open>Filepath\<close> panics on a name that is not fully qualified.\<close>

definition Filepath :: "model_name \<Rightarrow> string option" where
  "Filepath n =
     (if \<not> IsFullyQualified n then None
      else Some (path_Join [Host n, Namespace n, Model n, Tag n]))"

definition ParseNameFromFilepath :: "string \<Rightarrow> model_name" where
  "ParseNameFromFilepath s =
     (case split_on ''/'' s of
        [h, ns, m, t] \<Rightarrow>
          (let n = \<lparr>Host = h, Namespace = ns, Model = m, Tag = t, ProtocolScheme = []\<rparr>
           in if \<not> IsFullyQualified n then empty_name else n)
      | _ \<Rightarrow> empty_name)"

section \<open>Valid parts\<close>

lemma alnum_ascii: "isAlphanumericOrUnderscore c \<Longrightarrow> byte_val c < 0x80"
  by (auto simp: isAlphanumericOrUnderscore_def)

lemma valid_rest_ascii: "valid_rest kind c \<Longrightarrow> byte_val c < 0x80"
  using alnum_ascii by (auto simp: valid_rest_def split: if_splits)

lemma isValidPart_bytes:
  "isValidPart kind s \<longleftrightarrow> isValidLen kind s \<and> s \<noteq> [] \<and> isAlphanumericOrUnderscore (hd s) \<and>
     list_all (valid_rest kind) (tl s)"
proof (cases s)
  case Nil
  then show ?thesis by (simp add: isValidPart_def isValidLen_def split: part_kind.split)
next
  case (Cons c t)
  show ?thesis
  proof (cases "byte_val c < 0x80")
    case True
    with Cons explode_heads[of "valid_rest kind" t] valid_rest_ascii show ?thesis
      by (simp add: isValidPart_def explode_ascii)
  next
    case False
    then have "\<not> isAlphanumericOrUnderscore c" using alnum_ascii by blast
    moreover have "hd (hd (explode_runes s)) = c" "explode_runes s \<noteq> []"
      unfolding Cons by (simp_all add: explode_head)
    ultimately show ?thesis
      using Cons by (cases "explode_runes s") (auto simp: isValidPart_def)
  qed
qed

text \<open>What a valid part does not contain.\<close>

lemma valid_part_chars:
  assumes "isValidPart kind s"
  shows "s \<noteq> []" "CHR ''/'' \<notin> set s" "kind \<noteq> kindHost \<Longrightarrow> kind \<noteq> kindDigest \<Longrightarrow> CHR '':'' \<notin> set s"
    "s \<noteq> ''.''" "s \<noteq> ''..''"
proof -
  note v = assms[unfolded isValidPart_bytes]
  show "s \<noteq> []" using v by simp
  obtain c t where s: "s = c # t" using v by (cases s) auto
  have bad: "\<not> isAlphanumericOrUnderscore CHR ''/''" "\<not> isAlphanumericOrUnderscore CHR '':''"
    "\<not> isAlphanumericOrUnderscore CHR ''.''"
    by (simp_all add: isAlphanumericOrUnderscore_def)
  have rest: "\<not> valid_rest kind CHR ''/''"
    "kind \<noteq> kindHost \<Longrightarrow> kind \<noteq> kindDigest \<Longrightarrow> \<not> valid_rest kind CHR '':''"
    using bad by (simp_all add: valid_rest_def)
  have t: "x \<in> set t \<Longrightarrow> valid_rest kind x" for x using v s by (simp add: list_all_iff)
  have c: "isAlphanumericOrUnderscore c" using v s by simp
  show "CHR ''/'' \<notin> set s" using t c rest(1) bad(1) unfolding s by (metis set_ConsD)
  show "kind \<noteq> kindHost \<Longrightarrow> kind \<noteq> kindDigest \<Longrightarrow> CHR '':'' \<notin> set s"
    using t c rest(2) bad(2) unfolding s by (metis set_ConsD)
  show "s \<noteq> ''.''" "s \<noteq> ''..''" using v s bad by auto
qed

lemma valid_name_parts:
  assumes "Name_IsValid n"
  shows "Host n \<noteq> []" "Namespace n \<noteq> []" "Model n \<noteq> []" "Tag n \<noteq> []"
    "CHR ''/'' \<notin> set (Host n)" "CHR ''/'' \<notin> set (Namespace n)" "CHR ''/'' \<notin> set (Model n)"
    "CHR ''/'' \<notin> set (Tag n)" "CHR '':'' \<notin> set (Namespace n)" "CHR '':'' \<notin> set (Model n)" "CHR '':'' \<notin> set (Tag n)"
    "\<forall>e \<in> set [Host n, Namespace n, Model n, Tag n]. e \<noteq> [] \<and> e \<noteq> ''.'' \<and> e \<noteq> ''..'' \<and> CHR ''/'' \<notin> set e"
proof -
  from assms have "isValidPart kindHost (Host n)" "isValidPart kindNamespace (Namespace n)"
    "isValidPart kindModel (Model n)" "isValidPart kindTag (Tag n)"
    by (simp_all add: Name_IsValid_def IsFullyQualified_def)
  note v = this[THEN valid_part_chars(1)] this[THEN valid_part_chars(2)] this(2-4)[THEN valid_part_chars(3)]
    this[THEN valid_part_chars(4)] this[THEN valid_part_chars(5)]
  show "Host n \<noteq> []" "Namespace n \<noteq> []" "Model n \<noteq> []" "Tag n \<noteq> []"
    "CHR ''/'' \<notin> set (Host n)" "CHR ''/'' \<notin> set (Namespace n)" "CHR ''/'' \<notin> set (Model n)"
    "CHR ''/'' \<notin> set (Tag n)" "CHR '':'' \<notin> set (Namespace n)" "CHR '':'' \<notin> set (Model n)" "CHR '':'' \<notin> set (Tag n)"
    using v by simp_all
  show "\<forall>e \<in> set [Host n, Namespace n, Model n, Tag n]. e \<noteq> [] \<and> e \<noteq> ''.'' \<and> e \<noteq> ''..'' \<and> CHR ''/'' \<notin> set e"
    using v by simp
qed

section \<open>Parsing what was printed\<close>

lemma cutPromised_at:
  assumes "c \<notin> set y" and "x \<noteq> []" and "y \<noteq> []"
  shows "cutPromised (x @ c # y) [c] = (x, y, True)"
  using last_index_at[OF assms(1), of x] assms(2,3) by (simp add: cutPromised_def cutLast_def cmp_or_def)

lemma cutPromised_none: "c \<notin> set s \<Longrightarrow> cutPromised s [c] = (s, [], False)"
  by (simp add: cutPromised_def cutLast_def last_index_none)

lemma tag_split:
  assumes "CHR '':'' \<notin> set t" and "CHR ''/'' \<notin> set t" and "s \<noteq> []" and "t \<noteq> []"
  shows "last_index_greater (last_index_of '':'' (s @ '':'' @ t)) (last_index_of ''/'' (s @ '':'' @ t))"
    and "cutPromised (s @ '':'' @ t) '':'' = (s, t, True)"
proof -
  have "last_index_of ''/'' (s @ '':'' @ t) = Some i \<Longrightarrow> i < length s" for i
  proof (cases "CHR ''/'' \<in> set s")
    case True
    then obtain x y where s: "s = x @ CHR ''/'' # y" "CHR ''/'' \<notin> set y" by (metis split_list_last)
    then have "last_index_of ''/'' (s @ '':'' @ t) = Some (length x)"
      using last_index_at[of "CHR ''/''" "y @ '':'' @ t" x] assms(2) by simp
    then show "last_index_of ''/'' (s @ '':'' @ t) = Some i \<Longrightarrow> i < length s" using s by simp
  next
    case False
    then have "last_index_of ''/'' (s @ '':'' @ t) = None" using assms(2) by (simp add: last_index_none)
    then show "last_index_of ''/'' (s @ '':'' @ t) = Some i \<Longrightarrow> i < length s" by simp
  qed
  then show "last_index_greater (last_index_of '':'' (s @ '':'' @ t)) (last_index_of ''/'' (s @ '':'' @ t))"
    using last_index_at[OF assms(1), of s] by (auto simp: last_index_greater_def split: option.splits)
  show "cutPromised (s @ '':'' @ t) '':'' = (s, t, True)"
    using cutPromised_at[OF assms(1,3,4)] by simp
qed

lemma host_no_scheme: "CHR ''/'' \<notin> set h \<Longrightarrow> cut h ''://'' = (h, None)"
proof -
  assume h: "CHR ''/'' \<notin> set h"
  have "index_of ''://'' h = None"
  proof (cases "index_of ''://'' h")
    case (Some i)
    from index_of_decomp[OF this] have "CHR ''/'' \<in> set h"
      by (metis in_set_conv_decomp append_Cons append_assoc list.set_intros(1) list.set_intros(2) set_append UnCI)
    with h show ?thesis by simp
  qed simp
  then show ?thesis by (simp add: cut_def)
qed

text \<open>The three shapes a printed name can have.\<close>

lemma parse_model_tag:
  assumes "CHR ''/'' \<notin> set m" "m \<noteq> []" "CHR '':'' \<notin> set t" "CHR ''/'' \<notin> set t" "t \<noteq> []"
  shows "ParseNameBare (m @ '':'' @ t) = empty_name\<lparr>Model := m, Tag := t\<rparr>"
  using tag_split[OF assms(3,4,2,5)] cutPromised_none[OF assms(1)]
  by (simp add: ParseNameBare_def Let_def)

lemma parse_namespace_model_tag:
  assumes "CHR ''/'' \<notin> set ns" "ns \<noteq> []" "CHR ''/'' \<notin> set m" "m \<noteq> []"
    and "CHR '':'' \<notin> set t" "CHR ''/'' \<notin> set t" "t \<noteq> []"
  shows "ParseNameBare (ns @ ''/'' @ m @ '':'' @ t) = empty_name\<lparr>Namespace := ns, Model := m, Tag := t\<rparr>"
  using tag_split[OF assms(5,6) _ assms(7), of "ns @ ''/'' @ m"] cutPromised_at[OF assms(3,2,4)]
    cutPromised_none[OF assms(1)] assms(2)
  by (simp add: ParseNameBare_def Let_def)

lemma parse_full:
  assumes "CHR ''/'' \<notin> set h" "h \<noteq> []" "CHR ''/'' \<notin> set ns" "ns \<noteq> []" "CHR ''/'' \<notin> set m" "m \<noteq> []"
    and "CHR '':'' \<notin> set t" "CHR ''/'' \<notin> set t" "t \<noteq> []"
  shows "ParseNameBare (h @ ''/'' @ ns @ ''/'' @ m @ '':'' @ t) =
    \<lparr>Host = h, Namespace = ns, Model = m, Tag = t, ProtocolScheme = []\<rparr>"
  using tag_split[OF assms(7,8) _ assms(9), of "h @ ''/'' @ ns @ ''/'' @ m"]
    cutPromised_at[OF assms(5) _ assms(6), of "h @ ''/'' @ ns"] cutPromised_at[OF assms(3,2,4)]
    host_no_scheme[OF assms(1)] assms(2)
  by (simp add: ParseNameBare_def Let_def empty_name_def)

text \<open>
  A valid name survives printing and parsing: parsing the printed name gives its
  parts back (the scheme is not printed), and so does parsing with defaults, which adds
  only the default scheme.
\<close>

theorem name_string_roundtrip:
  assumes "Name_IsValid n"
  shows "ParseNameBare (Name_String n) = n\<lparr>ProtocolScheme := []\<rparr> \<and>
    ParseName (Name_String n) = n\<lparr>ProtocolScheme := ''https''\<rparr>"
proof -
  note p = valid_name_parts[OF assms]
  have "ParseNameBare (Name_String n) = n\<lparr>ProtocolScheme := []\<rparr>"
    using parse_full[OF p(5,1,6,2,7,3,11,8,4)] p(1-4) by (simp add: Name_String_def)
  with p(1-4) show ?thesis by (simp add: ParseName_def Merge_def cmp_or_def DefaultName_def)
qed

theorem name_string_roundtrip_witness:
  "ParseName ''registry.ollama.ai:443/library/llama3:8b-q4_0'' =
     \<lparr>Host = ''registry.ollama.ai:443'', Namespace = ''library'', Model = ''llama3'', Tag = ''8b-q4_0'',
      ProtocolScheme = ''https''\<rparr>"
proof -
  let ?n = "\<lparr>Host = ''registry.ollama.ai:443'', Namespace = ''library'', Model = ''llama3'', Tag = ''8b-q4_0'',
      ProtocolScheme = []\<rparr>"
  have "Name_IsValid ?n"
    by (simp add: Name_IsValid_def IsFullyQualified_def isValidPart_bytes isValidLen_def valid_rest_def
        isAlphanumericOrUnderscore_def)
  from name_string_roundtrip[OF this] show ?thesis by (simp add: Name_String_def)
qed

text \<open>
  The shortest display form of a valid name still denotes it: parsed with the
  defaults, it gives a name equal to the original up to case.
\<close>

theorem display_shortest_roundtrip:
  assumes "Name_IsValid n"
  shows "Name_EqualFold casefold (ParseName (DisplayShortest casefold n)) n"
proof -
  note p = valid_name_parts[OF assms]
  show ?thesis
  proof (cases "equal_fold casefold (Host n) defaultHost")
    case True
    show ?thesis
    proof (cases "equal_fold casefold (Namespace n) defaultNamespace")
      case True
      with \<open>equal_fold casefold (Host n) defaultHost\<close> parse_model_tag[OF p(7,3,11,8,4)] p(1-4)
      show ?thesis
        by (simp add: DisplayShortest_def ParseName_def Merge_def cmp_or_def DefaultName_def empty_name_def
            Name_EqualFold_def equal_fold_sym[of casefold defaultHost] equal_fold_sym[of casefold defaultNamespace]
            defaultHost_def[symmetric] defaultNamespace_def[symmetric])
    next
      case False
      with \<open>equal_fold casefold (Host n) defaultHost\<close> parse_namespace_model_tag[OF p(6,2,7,3,11,8,4)] p(1-4)
      show ?thesis
        by (simp add: DisplayShortest_def ParseName_def Merge_def cmp_or_def DefaultName_def empty_name_def
            Name_EqualFold_def equal_fold_sym[of casefold defaultHost])
    qed
  next
    case False
    with parse_full[OF p(5,1,6,2,7,3,11,8,4)] p(1-4) show ?thesis
      by (simp add: DisplayShortest_def ParseName_def Merge_def cmp_or_def Name_EqualFold_def)
  qed
qed

theorem display_shortest_roundtrip_witness:
  "Name_EqualFold ascii_fold (ParseName (DisplayShortest ascii_fold
     \<lparr>Host = ''Registry.Ollama.ai'', Namespace = ''library'', Model = ''llama3'', Tag = ''8b'', ProtocolScheme = []\<rparr>))
     \<lparr>Host = ''Registry.Ollama.ai'', Namespace = ''library'', Model = ''llama3'', Tag = ''8b'', ProtocolScheme = []\<rparr>"
  by (rule display_shortest_roundtrip)
    (simp add: Name_IsValid_def IsFullyQualified_def isValidPart_bytes isValidLen_def valid_rest_def
       isAlphanumericOrUnderscore_def)

section \<open>Paths\<close>

lemma clean_plain:
  "\<forall>e \<in> set es. e \<noteq> [] \<and> e \<noteq> ''.'' \<and> e \<noteq> ''..'' \<Longrightarrow> clean_elems rooted stack es = rev stack @ es"
  by (induction es arbitrary: stack) auto

lemma Filepath_valid:
  assumes "Name_IsValid n"
  shows "Filepath n = Some (join [Host n, Namespace n, Model n, Tag n] ''/'')"
proof -
  let ?es = "[Host n, Namespace n, Model n, Tag n]"
  note ok = valid_name_parts(12)[OF assms]
  have "split_on ''/'' (join ?es ''/'') = ?es"
    using split_join[of ?es "CHR ''/''"] ok by simp
  moreover have "\<not> prefix ''/'' (join ?es ''/'')"
    using ok by (cases "Host n") auto
  ultimately have "path_Clean (join ?es ''/'') = join ?es ''/''"
    using clean_plain[of ?es False "[]"] ok by (simp add: path_Clean_def)
  with assms ok show ?thesis
    by (simp add: Filepath_def path_Join_def Name_IsValid_def)
qed

text \<open>
  C37. The file path of a valid name has exactly its four parts as components, none of
  which is empty, \<^verbatim>\<open>.\<close> or \<^verbatim>\<open>..\<close>, so it stays below the directory it is used in; and
  the name is read back from its path.
\<close>

theorem filepath_safe_and_readable:
  assumes "Name_IsValid n"
  shows "\<exists>p. Filepath n = Some p \<and> split_on ''/'' p = [Host n, Namespace n, Model n, Tag n] \<and>
    (\<forall>e \<in> set (split_on ''/'' p). e \<noteq> [] \<and> e \<noteq> ''.'' \<and> e \<noteq> ''..'') \<and>
    ParseNameFromFilepath p = n\<lparr>ProtocolScheme := []\<rparr>"
proof -
  let ?es = "[Host n, Namespace n, Model n, Tag n]"
  note ok = valid_name_parts(12)[OF assms]
  have s: "split_on ''/'' (join ?es ''/'') = ?es"
    using split_join[of ?es "CHR ''/''"] ok by simp
  moreover have "ParseNameFromFilepath (join ?es ''/'') = n\<lparr>ProtocolScheme := []\<rparr>"
    using assms unfolding ParseNameFromFilepath_def s by (simp add: Name_IsValid_def IsFullyQualified_def)
  ultimately show ?thesis using Filepath_valid[OF assms] ok by (intro exI[of _ "join ?es ''/''"]) simp
qed

theorem filepath_safe_and_readable_witness:
  "\<exists>p. Filepath \<lparr>Host = ''h'', Namespace = ''n'', Model = ''m..'', Tag = ''t'', ProtocolScheme = []\<rparr> = Some p \<and>
     split_on ''/'' p = [''h'', ''n'', ''m..'', ''t'']"
  using filepath_safe_and_readable[of "\<lparr>Host = ''h'', Namespace = ''n'', Model = ''m..'', Tag = ''t'', ProtocolScheme = []\<rparr>"]
  by (auto simp: Name_IsValid_def IsFullyQualified_def isValidPart_bytes isValidLen_def valid_rest_def
      isAlphanumericOrUnderscore_def)

end
