(* ===== verification/ModelRef.thy ===== *)
theory ModelRef
  imports GoStrings
begin

text \<open>
  \<^verbatim>\<open>internal/modelref/modelref.go\<close>: model references that may end in \<^verbatim>\<open>:local\<close>,
  \<^verbatim>\<open>:cloud\<close> or \<^verbatim>\<open>-cloud\<close>.  Lower case is taken bytewise: the only runes beyond ASCII whose
  lower case is ASCII are the dotted I and the Kelvin sign, and neither \<^verbatim>\<open>i\<close> nor \<^verbatim>\<open>k\<close>
  occurs in the suffixes the code compares with.
\<close>

section \<open>Operations\<close>

datatype model_source = ModelSourceUnspecified | ModelSourceLocal | ModelSourceCloud

datatype ref_error = ErrConflictingSourceSuffix string | ErrModelRequired

record parsed_ref =
  Original :: string
  Base :: string
  Source :: model_source

definition lower_byte :: "char \<Rightarrow> char" where
  "lower_byte c = (if 65 \<le> byte_val c \<and> byte_val c \<le> 90 then char_of (byte_val c + 32) else c)"

definition to_lower :: "string \<Rightarrow> string" where
  "to_lower s = map lower_byte s"

definition HasExplicitTag :: "string \<Rightarrow> bool" where
  "HasExplicitTag name =
     (case last_index_of '':'' name of
        None \<Rightarrow> False
      | Some lastColon \<Rightarrow>
          (case last_index_of ''/'' name of None \<Rightarrow> True | Some lastSlash \<Rightarrow> lastColon > lastSlash))"

definition parseSourceSuffix :: "string \<Rightarrow> string \<times> model_source \<times> bool" where
  "parseSourceSuffix raw =
     (case last_index_of '':'' raw of
        None \<Rightarrow> (raw, ModelSourceUnspecified, False)
      | Some idx \<Rightarrow>
          (let suffixRaw = trim_space (drop (idx + 1) raw);
               suf = to_lower suffixRaw
           in if suf = ''cloud'' then (take idx raw, ModelSourceCloud, True)
              else if suf = ''local'' then (take idx raw, ModelSourceLocal, True)
              else if \<not> contains suffixRaw ''/'' \<and> suffix ''-cloud'' suf
              then (take (idx + 1) raw @ take (length suffixRaw - length ''-cloud'') suffixRaw, ModelSourceCloud, True)
              else (raw, ModelSourceUnspecified, False)))"

definition ParseRef :: "string \<Rightarrow> ref_error + parsed_ref" where
  "ParseRef raw0 =
     (let raw = trim_space raw0 in
      if raw = [] then Inl ErrModelRequired
      else (let (b, source, explicit) = parseSourceSuffix raw in
            if explicit \<and> snd (snd (parseSourceSuffix b)) then Inl (ErrConflictingSourceSuffix raw)
            else Inr \<lparr>Original = raw, Base = b, Source = source\<rparr>))"

definition HasExplicitCloudSource :: "string \<Rightarrow> bool" where
  "HasExplicitCloudSource raw =
     (case ParseRef raw of Inl _ \<Rightarrow> False | Inr r \<Rightarrow> Source r = ModelSourceCloud)"

definition HasExplicitLocalSource :: "string \<Rightarrow> bool" where
  "HasExplicitLocalSource raw =
     (case ParseRef raw of Inl _ \<Rightarrow> False | Inr r \<Rightarrow> Source r = ModelSourceLocal)"

definition StripCloudSourceTag :: "string \<Rightarrow> string \<times> bool" where
  "StripCloudSourceTag raw =
     (case ParseRef raw of
        Inl _ \<Rightarrow> (trim_space raw, False)
      | Inr r \<Rightarrow> if Source r \<noteq> ModelSourceCloud then (trim_space raw, False) else (Base r, True))"

definition toLegacyCloudPullName :: "string \<Rightarrow> string" where
  "toLegacyCloudPullName b = (if HasExplicitTag b then b @ ''-cloud'' else b @ '':cloud'')"

definition NormalizePullName :: "string \<Rightarrow> ref_error + (string \<times> bool)" where
  "NormalizePullName raw =
     (case ParseRef raw of
        Inl e \<Rightarrow> Inl e
      | Inr r \<Rightarrow>
          if Source r \<noteq> ModelSourceCloud then Inr (Base r, False)
          else Inr (toLegacyCloudPullName (Base r), True))"

section \<open>The pull name\<close>

lemma trim_space_printable:
  assumes "\<forall>c \<in> set w. printable c"
  shows "trim_space w = w"
proof (cases "w = []")
  case True
  then show ?thesis by (simp add: trim_space_def trim_left.simps trim_right.simps)
next
  case False
  then obtain c t where c: "w = c # t" by (cases w) auto
  obtain t' c' where c': "w = t' @ [c']" using False by (cases w rule: rev_cases) auto
  have "trim_left w = w" using assms c by (simp add: trim_left_printable)
  moreover have "trim_right w = w" using assms c' trim_right_printable[of c' t'] by simp
  ultimately show ?thesis by (simp add: trim_space_def)
qed

lemma lower_cloud [simp]: "to_lower ''-cloud'' = ''-cloud''" "to_lower ''cloud'' = ''cloud''"
  by (simp_all add: to_lower_def lower_byte_def)

lemma index_of_char: "index_of [c] w = None \<longleftrightarrow> c \<notin> set w"
  by (induction w) (auto simp: index_of.simps[of "[c]" "_ # _"] index_of_Nil split: option.splits)

lemma suffix_cases:
  assumes "\<forall>c \<in> set raw. printable c"
  shows "parseSourceSuffix raw =
    (case last_index_of '':'' raw of
        None \<Rightarrow> (raw, ModelSourceUnspecified, False)
      | Some idx \<Rightarrow>
          (let suffixRaw = drop (idx + 1) raw; suf = to_lower suffixRaw
           in if suf = ''cloud'' then (take idx raw, ModelSourceCloud, True)
              else if suf = ''local'' then (take idx raw, ModelSourceLocal, True)
              else if CHR ''/'' \<notin> set suffixRaw \<and> suffix ''-cloud'' suf
              then (take (idx + 1) raw @ take (length suffixRaw - length ''-cloud'') suffixRaw, ModelSourceCloud, True)
              else (raw, ModelSourceUnspecified, False)))"
proof -
  have c: "contains w ''/'' \<longleftrightarrow> CHR ''/'' \<in> set w" for w
    using index_of_char[of "CHR ''/''" w] by auto
  have "trim_space (drop n raw) = drop n raw" for n
    using assms by (intro trim_space_printable) (auto dest: in_set_dropD)
  then show ?thesis unfolding parseSourceSuffix_def Let_def c by (simp split: option.split)
qed

text \<open>Adding the cloud suffix in its legacy spelling and parsing it off again.\<close>

lemma legacy_suffix:
  assumes "\<forall>c \<in> set b. printable c" and "b \<noteq> []"
  shows "parseSourceSuffix (toLegacyCloudPullName b) = (b, ModelSourceCloud, True)"
proof (cases "HasExplicitTag b")
  case True
  have p: "\<forall>c \<in> set (b @ ''-cloud''). printable c" using assms(1) by (simp add: printable_def)
  obtain x y where b: "b = x @ CHR '':'' # y" "CHR '':'' \<notin> set y"
  proof (cases "CHR '':'' \<in> set b")
    case True
    then show ?thesis using that by (metis split_list_last)
  next
    case False
    with True show ?thesis by (simp add: HasExplicitTag_def last_index_none)
  qed
  have i: "last_index_of '':'' b = Some (length x)" using last_index_at[OF b(2)] b(1) by simp
  have sl: "CHR ''/'' \<notin> set y"
  proof
    assume "CHR ''/'' \<in> set y"
    then obtain u v where "y = u @ CHR ''/'' # v" "CHR ''/'' \<notin> set v" by (metis split_list_last)
    then have "last_index_of ''/'' b = Some (length (x @ CHR '':'' # u))"
      using last_index_at[of "CHR ''/''" v "x @ CHR '':'' # u"] b(1) by simp
    with True i show False by (simp add: HasExplicitTag_def)
  qed
  have l: "last_index_of '':'' (b @ ''-cloud'') = Some (length x)"
    using last_index_at[of "CHR '':''" "y @ ''-cloud''" x] b by simp
  have ne: "to_lower (y @ ''-cloud'') \<noteq> ''cloud''" "to_lower (y @ ''-cloud'') \<noteq> ''local''"
    by (auto dest: arg_cong[where f = length] simp: to_lower_def)
  have "suffix ''-cloud'' (to_lower (y @ ''-cloud''))"
    by (simp add: to_lower_def lower_byte_def suffix_def)
  with True ne sl l b(1) show ?thesis
    using suffix_cases[OF p] by (simp add: toLegacyCloudPullName_def Let_def)
next
  case False
  have p: "\<forall>c \<in> set (b @ '':cloud''). printable c" using assms(1) by (simp add: printable_def)
  have "last_index_of '':'' (b @ '':cloud'') = Some (length b)"
    using last_index_at[of "CHR '':''" "''cloud''" b] by simp
  with False show ?thesis
    by (simp add: toLegacyCloudPullName_def suffix_cases[OF p] Let_def)
qed

lemma base_printable:
  assumes "\<forall>c \<in> set raw. printable c" and "parseSourceSuffix raw = (b, source, explicit)"
  shows "\<forall>c \<in> set b. printable c"
  using assms(2) assms(1)
  by (auto simp: suffix_cases[OF assms(1)] Let_def split: option.splits if_splits
      dest!: in_set_takeD in_set_dropD)

text \<open>
  The name a cloud reference is pulled under is itself a reference to the same cloud
  model: normalizing a reference without white space twice gives what normalizing it
  once gives, and stripping the cloud suffix from the pull name gives the base back.
\<close>

theorem pull_name_roundtrip:
  assumes "\<forall>c \<in> set raw. printable c" and "ParseRef raw = Inr r" and "Source r = ModelSourceCloud"
    and "Base r \<noteq> []"
  shows "\<exists>p. NormalizePullName raw = Inr (p, True) \<and> NormalizePullName p = Inr (p, True) \<and>
    StripCloudSourceTag p = (Base r, True)"
proof -
  have t: "trim_space raw = raw" using assms(1) by (rule trim_space_printable)
  obtain b source explicit where s: "parseSourceSuffix raw = (b, source, explicit)" by (metis prod_cases3)
  have r: "b = Base r" "source = ModelSourceCloud" "\<not> (explicit \<and> snd (snd (parseSourceSuffix b)))"
    using assms(2,3) s t by (auto simp: ParseRef_def split: if_splits)
  have explicit: "explicit"
    using s r(2) by (auto simp: suffix_cases[OF assms(1)] Let_def split: option.splits if_splits)
  let ?p = "toLegacyCloudPullName b"
  have b: "\<forall>c \<in> set b. printable c" "b \<noteq> []" using base_printable[OF assms(1) s] assms(4) r(1) by auto
  have "trim_space ?p = ?p"
    using b(1) by (intro trim_space_printable) (auto simp: toLegacyCloudPullName_def printable_def split: if_splits)
  moreover have "?p \<noteq> []" by (simp add: toLegacyCloudPullName_def)
  ultimately have p: "ParseRef ?p = Inr \<lparr>Original = ?p, Base = b, Source = ModelSourceCloud\<rparr>"
    using legacy_suffix[OF b] r(3) explicit by (simp add: ParseRef_def)
  then show ?thesis
    using assms(2,3) r(1) by (intro exI[of _ ?p]) (simp add: NormalizePullName_def StripCloudSourceTag_def)
qed

theorem pull_name_roundtrip_witness:
  "NormalizePullName ''qwen:480b:cloud'' = Inr (''qwen:480b-cloud'', True) \<and>
   NormalizePullName ''qwen:480b-cloud'' = Inr (''qwen:480b-cloud'', True)"
proof -
  have p: "\<forall>c \<in> set ''qwen:480b:cloud''. printable c" by (simp add: printable_def)
  have i: "last_index_of '':'' ''qwen:480b:cloud'' = Some 9" "last_index_of '':'' ''qwen:480b'' = Some 4"
    using last_index_at[of "CHR '':''" "''cloud''" "''qwen:480b''"] last_index_at[of "CHR '':''" "''480b''" "''qwen''"]
    by simp_all
  have q: "\<forall>c \<in> set ''qwen:480b''. printable c" by (simp add: printable_def)
  have r: "ParseRef ''qwen:480b:cloud'' =
      Inr \<lparr>Original = ''qwen:480b:cloud'', Base = ''qwen:480b'', Source = ModelSourceCloud\<rparr>"
    using trim_space_printable[OF p] suffix_cases[OF p] suffix_cases[OF q] i
    by (simp add: ParseRef_def to_lower_def lower_byte_def suffix_def)
  have "last_index_of ''/'' ''qwen:480b'' = None" by (simp add: last_index_none)
  with r i have "NormalizePullName ''qwen:480b:cloud'' = Inr (''qwen:480b-cloud'', True)"
    by (simp add: NormalizePullName_def toLegacyCloudPullName_def HasExplicitTag_def)
  with pull_name_roundtrip[OF p r] show ?thesis by auto
qed

end
