(* ===== verification/CacheTrie.thy ===== *)
theory CacheTrie
  imports Prelude "HOL-Library.Word"
begin

text \<open>
  \<^verbatim>\<open>mlxrunner/cache_trie.go\<close> and the parts of \<^verbatim>\<open>mlxrunner/prefix_cache.go\<close> that
  change the trie: the compressed prefix trie that shares cache state between
  conversations.  A node holds its children; a node of a trie is addressed by the
  positions of the children on the way to it, which plays the part of the pointers
  (\<^verbatim>\<open>parent\<close>, \<^verbatim>\<open>activePath\<close>) of the code.  The snapshots, their sizes, and the
  \<^verbatim>\<open>Split\<close> and \<^verbatim>\<open>Merge\<close> of a cache layer are those of an interface over device arrays:
  they are the arguments \<open>size_of\<close>, \<open>split_snap\<close> and \<open>merge_snap\<close>, indexed by the layer.
\<close>

unbundle bit_operations_syntax

section \<open>Nodes\<close>

type_synonym trie_key = "64 word"

datatype 'snap trie_node = TrieNode
  (edge: "trie_key list") (endOffset: nat) (lastUsed: nat) (snapshots: "'snap option list") (is_user: bool)
  (children: "'snap trie_node list")

definition startOffset :: "'snap trie_node \<Rightarrow> nat" where
  "startOffset n = endOffset n - length (edge n)"

definition snapshotBytes :: "('snap \<Rightarrow> int) \<Rightarrow> 'snap trie_node \<Rightarrow> int" where
  "snapshotBytes size_of n = sum_list (map (\<lambda>s. case s of None \<Rightarrow> 0 | Some x \<Rightarrow> size_of x) (snapshots n))"

fun set_edge :: "trie_key list \<Rightarrow> 'snap trie_node \<Rightarrow> 'snap trie_node" where
  "set_edge e (TrieNode _ off used sn u cs) = TrieNode e off used sn u cs"

fun set_children :: "'snap trie_node list \<Rightarrow> 'snap trie_node \<Rightarrow> 'snap trie_node" where
  "set_children cs (TrieNode e off used sn u _) = TrieNode e off used sn u cs"

text \<open>\<^verbatim>\<open>swapSnapshots\<close> with a counter: the node, the counter and the old snapshots.\<close>

fun replace_snapshots :: "'snap option list \<Rightarrow> 'snap trie_node \<Rightarrow> 'snap trie_node" where
  "replace_snapshots sn (TrieNode e off used _ u cs) = TrieNode e off used sn u cs"

definition swapSnapshots ::
  "('snap \<Rightarrow> int) \<Rightarrow> 'snap option list \<Rightarrow> 'snap trie_node \<Rightarrow> int \<Rightarrow> 'snap trie_node \<times> int \<times> 'snap option list" where
  "swapSnapshots size_of sn n counter =
     (let n' = replace_snapshots sn n
      in (n', counter - snapshotBytes size_of n + snapshotBytes size_of n', snapshots n))"

definition hasSnapshots :: "'snap trie_node \<Rightarrow> bool" where
  "hasSnapshots n = list_ex (\<lambda>s. s \<noteq> None) (snapshots n)"

text \<open>\<open>stateful ! i\<close>: layer \<open>i\<close> has a cache.\<close>

definition hasAllSnapshots :: "'snap trie_node \<Rightarrow> bool list \<Rightarrow> bool" where
  "hasAllSnapshots n stateful =
     (if snapshots n = [] then False
      else list_all (\<lambda>i. \<not> stateful ! i \<or> (i < length (snapshots n) \<and> snapshots n ! i \<noteq> None))
             [0..<length stateful])"

section \<open>Matching\<close>

fun match_len :: "trie_key list \<Rightarrow> trie_key list \<Rightarrow> nat" where
  "match_len (x # xs) (y # ys) = (if x = y then Suc (match_len xs ys) else 0)"
| "match_len _ _ = 0"

text \<open>
  The inner loop of \<^verbatim>\<open>findBestMatch\<close> over the children, with the best one so far: its
  position, how much of its edge matched, and whether all of it did.
\<close>

fun scan_children ::
  "'snap trie_node list \<Rightarrow> trie_key list \<Rightarrow> nat \<Rightarrow> (nat \<times> nat \<times> bool) option \<Rightarrow> (nat \<times> nat \<times> bool) option" where
  "scan_children [] toks i best = best"
| "scan_children (child # cs) toks i best =
     (if edge child = [] then scan_children cs toks (Suc i) best
      else if hd (edge child) \<noteq> hd toks then scan_children cs toks (Suc i) best
      else (let j = match_len (edge child) toks;
                full = (j = length (edge child))
            in case best of
                 None \<Rightarrow> scan_children cs toks (Suc i) (Some (i, j, full))
               | Some (b, bestMatched, bestFull) \<Rightarrow>
                   if (full \<and> \<not> bestFull) \<or> (full = bestFull \<and> j > bestMatched)
                   then scan_children cs toks (Suc i) (Some (i, j, full))
                   else scan_children cs toks (Suc i) best))"

lemma match_len_le: "match_len xs ys \<le> length xs" "match_len xs ys \<le> length ys"
  by (induction xs ys rule: match_len.induct) auto

lemma match_len_take: "take (match_len xs ys) xs = take (match_len xs ys) ys"
  by (induction xs ys rule: match_len.induct) auto

lemma match_len_max: "take k xs = take k ys \<Longrightarrow> k \<le> length xs \<Longrightarrow> k \<le> length ys \<Longrightarrow> k \<le> match_len xs ys"
proof (induction xs ys arbitrary: k rule: match_len.induct)
  case (1 x xs y ys)
  then show ?case by (cases k) auto
qed auto

definition scan_ok :: "'snap trie_node list \<Rightarrow> trie_key list \<Rightarrow> nat \<times> nat \<times> bool \<Rightarrow> bool" where
  "scan_ok all toks b \<longleftrightarrow> (case b of (i, j, full) \<Rightarrow>
     i < length all \<and> j = match_len (edge (all ! i)) toks \<and> 0 < j \<and> (full \<longleftrightarrow> j = length (edge (all ! i))))"

lemma scan_children_ok:
  assumes "toks \<noteq> []" and "scan_children cs toks i best = Some b"
    and "\<And>b. best = Some b \<Longrightarrow> scan_ok all toks b" and "drop i all = cs" and "i + length cs = length all"
  shows "scan_ok all toks b"
  using assms(2-)
proof (induction cs arbitrary: i best)
  case Nil
  then show ?case by simp
next
  case (Cons c cs)
  have c: "all ! i = c" "drop (Suc i) all = cs" "Suc i + length cs = length all" "i < length all"
    using Cons.prems(3,4) by (simp_all add: nth_via_drop drop_Suc tl_drop[symmetric])
  have new: "scan_ok all toks (i, match_len (edge c) toks, match_len (edge c) toks = length (edge c))"
    if "edge c \<noteq> []" "hd (edge c) = hd toks"
    using that assms(1) c(1,4) by (cases "edge c"; cases toks) (auto simp: scan_ok_def)
  show ?case
    using Cons.prems(1,2) Cons.IH[OF _ _ c(2,3)] new
    by (auto simp: Let_def split: if_splits option.splits prod.splits)
qed

text \<open>
  The outer loop from a node: the positions of the nodes traversed below it, and how
  many tokens matched.
\<close>

function find_loop :: "'snap trie_node \<Rightarrow> trie_key list \<Rightarrow> nat list \<times> nat" where
  "find_loop node toks =
     (if toks = [] then ([], 0)
      else (case scan_children (children node) toks 0 None of
              None \<Rightarrow> ([], 0)
            | Some (i, bestMatched, bestFull) \<Rightarrow>
                if \<not> bestFull then ([i], bestMatched)
                else (let (path, matched) = find_loop (children node ! i) (drop bestMatched toks)
                      in (i # path, bestMatched + matched))))"
  by pat_completeness auto
termination
proof (relation "measure (\<lambda>(node, toks). length toks)", goal_cases)
  case 1
  show ?case by simp
next
  case (2 node toks best i r j full)
  then have "scan_ok (children node) toks (i, j, full)"
    using scan_children_ok[of toks "children node" 0 None "(i, j, full)" "children node"] by simp
  with 2 match_len_le(2)[of "edge (children node ! i)" toks] show ?case by (auto simp: scan_ok_def)
qed

declare find_loop.simps [simp del]

text \<open>\<^verbatim>\<open>findBestMatch\<close>; the root itself, the first element of the code's path, is implicit.\<close>

definition findBestMatch :: "'snap trie_node option \<Rightarrow> trie_key list \<Rightarrow> nat list \<times> nat" where
  "findBestMatch root toks = (case root of None \<Rightarrow> ([], 0) | Some r \<Rightarrow> find_loop r toks)"

section \<open>What a trie reads\<close>

text \<open>
  \<open>covers t xs\<close>: the tokens \<open>xs\<close> can be read from the end of \<open>t\<close> downwards along edges.
  The set of these lists is the abstract value of a trie: a prefix-closed set.
\<close>

fun covers :: "'snap trie_node \<Rightarrow> trie_key list \<Rightarrow> bool" where
  "covers (TrieNode e off used sn u cs) xs \<longleftrightarrow> xs = [] \<or> (\<exists>c \<in> set cs.
     prefix xs (edge c) \<or> (prefix (edge c) xs \<and> covers c (drop (length (edge c)) xs)))"

text \<open>The same from the start of a node's edge.\<close>

definition reads :: "'snap trie_node \<Rightarrow> trie_key list \<Rightarrow> bool" where
  "reads c xs \<longleftrightarrow> prefix xs (edge c) \<or> (prefix (edge c) xs \<and> covers c (drop (length (edge c)) xs))"

lemma covers_children: "covers t xs \<longleftrightarrow> xs = [] \<or> (\<exists>c \<in> set (children t). reads c xs)"
  by (cases t) (simp add: reads_def)

lemma covers_Nil [simp]: "covers t []"
  by (simp add: covers_children)

lemma reads_Nil [simp]: "reads t []"
  by (simp add: reads_def)

lemma reads_append [simp]: "reads c (edge c @ xs) \<longleftrightarrow> covers c xs"
  by (auto simp: reads_def prefix_def)

lemma reads_iff: "reads c xs \<longleftrightarrow> prefix xs (edge c) \<or> (\<exists>ys. xs = edge c @ ys \<and> covers c ys)"
  by (auto simp: reads_def prefix_def)

text \<open>The compressed-trie invariant: siblings differ in their first token, offsets add up.\<close>

fun wf_trie :: "'snap trie_node \<Rightarrow> bool" where
  "wf_trie (TrieNode e off used sn u cs) \<longleftrightarrow>
     (\<forall>c \<in> set cs. edge c \<noteq> [] \<and> endOffset c = off + length (edge c) \<and> wf_trie c) \<and>
     distinct (map (\<lambda>c. hd (edge c)) cs)"

text \<open>\<open>placed_at off c\<close>: the node \<open>c\<close> is a well-formed child of a node that ends at \<open>off\<close>.\<close>

definition placed_at :: "nat \<Rightarrow> 'snap trie_node \<Rightarrow> bool" where
  "placed_at off c \<longleftrightarrow> edge c \<noteq> [] \<and> endOffset c = off + length (edge c) \<and> wf_trie c"

lemma wf_trie_children:
  "wf_trie t \<longleftrightarrow> (\<forall>c \<in> set (children t). placed_at (endOffset t) c) \<and>
     distinct (map (\<lambda>c. hd (edge c)) (children t))"
  by (cases t) (simp add: placed_at_def)

lemma wf_childD:
  assumes "wf_trie t" and "c \<in> set (children t)"
  shows "placed_at (endOffset t) c" and "wf_trie c" and "edge c \<noteq> []"
proof -
  show p: "placed_at (endOffset t) c" using assms unfolding wf_trie_children[of t] by blast
  then show "wf_trie c" and "edge c \<noteq> []" unfolding placed_at_def by blast+
qed

lemma wf_siblings: "wf_trie t \<Longrightarrow> distinct (map (\<lambda>c. hd (edge c)) (children t))"
  unfolding wf_trie_children[of t] by blast

lemma sibling_unique:
  assumes "wf_trie t" and "c \<in> set (children t)" and "d \<in> set (children t)" and "hd (edge c) = hd (edge d)"
  shows "c = d"
  using wf_siblings[OF assms(1)] assms(2-) by (auto simp: distinct_map dest: inj_onD)

lemma reads_head: "reads c (x # xs) \<Longrightarrow> edge c \<noteq> [] \<Longrightarrow> hd (edge c) = x"
  by (cases "edge c") (auto simp: reads_def)

lemma scan_none:
  "scan_children cs toks i best = None \<Longrightarrow> best = None \<and> (\<forall>c \<in> set cs. edge c = [] \<or> hd (edge c) \<noteq> hd toks)"
proof (induction cs arbitrary: i best)
  case (Cons c cs)
  show ?case
    using Cons.prems Cons.IH[of "Suc i" best]
      Cons.IH[of "Suc i" "Some (i, match_len (edge c) toks, match_len (edge c) toks = length (edge c))"]
    by (cases best) (auto simp: Let_def split: if_splits)
qed simp


text \<open>A non-empty list can only be read into the child with its first token.\<close>

lemma covers_only_child:
  assumes "wf_trie t" and "c \<in> set (children t)" and "reads c [x]"
  shows "covers t (x # xs) \<longleftrightarrow> reads c (x # xs)"
proof
  have hd: "hd (edge c) = x" using reads_head[OF assms(3)] wf_childD(3)[OF assms(1,2)] by simp
  assume "covers t (x # xs)"
  then obtain d where d: "d \<in> set (children t)" "reads d (x # xs)" by (auto simp: covers_children)
  then have "hd (edge d) = x" using reads_head wf_childD(3)[OF assms(1)] by blast
  with sibling_unique[OF assms(1) d(1) assms(2)] hd d(2) show "reads c (x # xs)" by simp
next
  assume "reads c (x # xs)"
  with assms(2) show "covers t (x # xs)" by (auto simp: covers_children)
qed

lemma reads_one: "edge c \<noteq> [] \<Longrightarrow> reads c [hd (edge c)]"
  by (cases "edge c") (auto simp: reads_def)

text \<open>The two ways a scan of the children can end.\<close>

lemma scan_stop:
  assumes "wf_trie t" and "scan_children (children t) toks 0 None = None" and "toks \<noteq> []"
    and "covers t (take k toks)"
  shows "take k toks = []"
proof (rule ccontr)
  assume ne: "take k toks \<noteq> []"
  then obtain x xs where x: "take k toks = x # xs" by (cases "take k toks") auto
  then have "x = hd toks" using assms(3) by (cases toks; cases k) auto
  moreover obtain c where "c \<in> set (children t)" "reads c (x # xs)"
    using assms(4) x by (auto simp: covers_children)
  ultimately show False
    using reads_head[of c x xs] wf_childD(3)[OF assms(1)] scan_none[OF assms(2)] by auto
qed

lemma scan_found:
  assumes "wf_trie t" and "scan_children (children t) toks 0 None = Some (i, j, full)" and "toks \<noteq> []"
  shows "i < length (children t)" and "j = match_len (edge (children t ! i)) toks" and "0 < j"
    and "full \<longleftrightarrow> j = length (edge (children t ! i))" and "j \<le> length toks"
    and "j \<le> length (edge (children t ! i))" and "take j (edge (children t ! i)) = take j toks"
    and "placed_at (endOffset t) (children t ! i)" and "wf_trie (children t ! i)"
    and "0 < k \<Longrightarrow> covers t (take k toks) \<longleftrightarrow> reads (children t ! i) (take k toks)"
proof -
  let ?c = "children t ! i"
  show ok: "i < length (children t)" "j = match_len (edge ?c) toks" "0 < j" "full \<longleftrightarrow> j = length (edge ?c)"
    using scan_children_ok[OF assms(3), of "children t" 0 None "(i, j, full)" "children t"] assms(2)
    by (auto simp: scan_ok_def)
  show j: "j \<le> length toks" "j \<le> length (edge ?c)" "take j (edge ?c) = take j toks"
    using ok(2) match_len_le match_len_take by auto
  have c: "?c \<in> set (children t)" using ok(1) by simp
  show "placed_at (endOffset t) ?c" "wf_trie ?c" using wf_childD[OF assms(1) c] by blast+
  obtain x xs where toks: "toks = x # xs" using assms(3) by (cases toks) auto
  have "hd (edge ?c) = x" using j(3) ok(3) wf_childD(3)[OF assms(1) c]
    by (cases "edge ?c"; cases j) (auto simp: toks)
  then have "reads ?c [x]" using reads_one wf_childD(3)[OF assms(1) c] by metis
  then show "covers t (take k toks) \<longleftrightarrow> reads ?c (take k toks)" if "0 < k"
    using covers_only_child[OF assms(1) c] that by (cases k) (auto simp: toks)
qed

lemma reads_take_beyond:
  assumes "take j (edge c) = take j toks" and "j = length (edge c)" and "j \<le> k" and "j \<le> length toks"
  shows "reads c (take k toks) \<longleftrightarrow> covers c (take (k - j) (drop j toks))"
proof -
  have "take k toks = edge c @ take (k - j) (drop j toks)"
    using assms by (metis take_add le_add_diff_inverse order_refl take_all)
  then show ?thesis by simp
qed

lemma find_loop_longest:
  assumes "wf_trie t" and "find_loop t toks = (path, m)"
  shows "m \<le> length toks \<and> covers t (take m toks) \<and> (\<forall>k \<le> length toks. covers t (take k toks) \<longrightarrow> k \<le> m)"
  using assms
proof (induction t toks arbitrary: path m rule: find_loop.induct)
  case (1 t toks)
  show ?case
  proof (cases "toks = []")
    case True
    with 1 show ?thesis by (simp add: find_loop.simps)
  next
    case ne: False
    show ?thesis
    proof (cases "scan_children (children t) toks 0 None")
      case None
      with ne 1(3) have "m = 0" by (simp add: find_loop.simps[of t toks])
      with scan_stop[OF 1(2) None ne] ne show ?thesis by fastforce
    next
      case (Some b)
      obtain i j full where b: "b = (i, j, full)" by (metis prod_cases3)
      note S = scan_found[OF 1(2) Some[unfolded b] ne]
      let ?c = "children t ! i"
      show ?thesis
      proof (cases full)
        case False
        with Some b ne 1(3) have m: "m = j" by (simp add: find_loop.simps[of t toks])
        have "covers t (take j toks)"
          using S(10)[OF S(3)] S(7) by (metis reads_def take_is_prefix)
        moreover have "k \<le> j" if k: "k \<le> length toks" "covers t (take k toks)" for k
        proof (cases "k = 0")
          case False
          with k S(10)[of k] consider "prefix (take k toks) (edge ?c)" | "prefix (edge ?c) (take k toks)"
            by (auto simp: reads_def)
          then show ?thesis
          proof cases
            case 1
            then have "take k (edge ?c) = take k toks" "k \<le> length (edge ?c)"
              using k(1) by (auto simp: prefix_def)
            with k(1) S(2) match_len_max[of k "edge ?c" toks] show ?thesis by simp
          next
            case 2
            then have le: "length (edge ?c) \<le> k" using prefix_length_le[OF 2] by simp
            from 2 obtain zs where "take k toks = edge ?c @ zs" by (auto simp: prefix_def)
            then have "take (length (edge ?c)) (take k toks) = edge ?c" by simp
            then have "take (length (edge ?c)) toks = edge ?c" using le by (simp add: min_absorb1)
            with match_len_max[of "length (edge ?c)" "edge ?c" toks] S(2,6) le k(1)
            have "j = length (edge ?c)" by simp
            with S(4) \<open>\<not> full\<close> show ?thesis by simp
          qed
        qed simp
        ultimately show ?thesis using m S(5) by simp
      next
        case True
        then have je: "j = length (edge ?c)" using S(4) by simp
        obtain p m' where rec: "find_loop ?c (drop j toks) = (p, m')" by fastforce
        with Some b ne True 1(3) have m: "m = j + m'" by (simp add: find_loop.simps[of t toks])
        have IH: "m' \<le> length (drop j toks)" "covers ?c (take m' (drop j toks))"
            "\<And>k. k \<le> length (drop j toks) \<Longrightarrow> covers ?c (take k (drop j toks)) \<Longrightarrow> k \<le> m'"
          using 1(1)[OF ne Some b[symmetric] refl _ S(9) rec] True by blast+
        have "covers t (take m toks)"
          using S(10)[of m] reads_take_beyond[OF S(7) je, of m] m S(3,5) IH(2) by simp
        moreover have "k \<le> m" if k: "k \<le> length toks" "covers t (take k toks)" for k
        proof (cases "k \<le> j")
          case False
          with k(2) S(10)[of k] reads_take_beyond[OF S(7) je, of k] S(5)
          have "covers ?c (take (k - j) (drop j toks))" by simp
          with IH(3) k(1) have "k - j \<le> m'" by simp
          then show ?thesis using m False by simp
        qed (use m in simp)
        ultimately show ?thesis using m IH(1) S(5) by auto
      qed
    qed
  qed
qed

end
