(* ===== verification/TrieUpdates.thy ===== *)
theory TrieUpdates
  imports CacheTrie
begin

text \<open>
  The operations of \<^verbatim>\<open>mlxrunner/cache_trie.go\<close> that change a trie, with the counter of
  paged-out bytes threaded through them as the code does by reference.  \<open>None\<close> is a panic
  of the code.  \<open>stateful ! i\<close> says that layer \<open>i\<close> has a cache.
\<close>

section \<open>Operations\<close>

text \<open>\<^verbatim>\<open>appendChild\<close>; the new child is the last one.\<close>

definition appendChild :: "trie_key list \<Rightarrow> nat \<Rightarrow> 'snap trie_node \<Rightarrow> 'snap trie_node" where
  "appendChild toks off n =
     set_children (children n @ [TrieNode toks off (lastUsed n) [] False []]) n"

text \<open>\<^verbatim>\<open>removeNode\<close> on child \<open>i\<close> of \<open>n\<close>.\<close>

definition removeNode ::
  "('snap \<Rightarrow> int) \<Rightarrow> nat \<Rightarrow> 'snap trie_node \<Rightarrow> int \<Rightarrow> ('snap trie_node \<times> int) option" where
  "removeNode size_of i n counter =
     (if length (children n) \<le> i \<or> children (children n ! i) \<noteq> [] then None
      else (let (removed, counter', old) = swapSnapshots size_of [] (children n ! i) counter
            in Some (set_children (take i (children n) @ drop (Suc i) (children n)) n, counter')))"

text \<open>\<^verbatim>\<open>Split\<close> of one layer: only for a snapshot whose layer has a cache.\<close>

definition split_layer ::
  "(nat \<Rightarrow> 'snap \<Rightarrow> nat \<Rightarrow> 'snap option \<times> 'snap option) \<Rightarrow> bool list \<Rightarrow> nat \<Rightarrow> nat \<times> 'snap option
   \<Rightarrow> 'snap option \<times> 'snap option" where
  "split_layer split_snap stateful offset isnap =
     (case isnap of
        (i, None) \<Rightarrow> (None, None)
      | (i, Some snap) \<Rightarrow> if stateful ! i then split_snap i snap offset else (None, None))"

text \<open>\<^verbatim>\<open>caches[i]\<close> is read for the snapshots that are there.\<close>

definition layers_in_range :: "bool list \<Rightarrow> 'snap option list \<Rightarrow> bool" where
  "layers_in_range stateful snaps \<longleftrightarrow>
     list_all (\<lambda>i. snaps ! i = None \<or> i < length stateful) [0..<length snaps]"

definition splitNode ::
  "('snap \<Rightarrow> int) \<Rightarrow> (nat \<Rightarrow> 'snap \<Rightarrow> nat \<Rightarrow> 'snap option \<times> 'snap option) \<Rightarrow> bool list \<Rightarrow> nat
   \<Rightarrow> 'snap trie_node \<Rightarrow> int \<Rightarrow> ('snap trie_node \<times> int) option" where
  "splitNode size_of split_snap stateful at node counter =
     (if at = 0 \<or> length (edge node) \<le> at then None
      else (let newParent = TrieNode (take at (edge node)) (startOffset node + at) (lastUsed node) [] False [];
                suffix = set_edge (drop at (edge node)) node
            in if \<not> hasSnapshots suffix then Some (set_children [suffix] newParent, counter)
               else if \<not> layers_in_range stateful (snapshots suffix) then None
               else (let (emptied, c1, oldSnaps) = swapSnapshots size_of [] suffix counter;
                         halves = map (split_layer split_snap stateful (endOffset newParent)) (enumerate 0 oldSnaps);
                         (parent', c2, _) = swapSnapshots size_of (map fst halves) newParent c1;
                         (node', c3, _) = swapSnapshots size_of (map snd halves) emptied c2
                     in Some (set_children [node'] parent', c3))))"

text \<open>The snapshot of one layer in a list that may be absent.\<close>

definition layer_snap :: "'snap option list \<Rightarrow> nat \<Rightarrow> 'snap option" where
  "layer_snap snaps i = (if snaps = [] then None else snaps ! i)"

definition merge_in_range :: "bool list \<Rightarrow> 'snap option list \<Rightarrow> bool" where
  "merge_in_range stateful snaps \<longleftrightarrow>
     snaps = [] \<or> list_all (\<lambda>i. stateful ! i \<longrightarrow> i < length snaps) [0..<length stateful]"

definition merge_layers ::
  "(nat \<Rightarrow> 'snap option \<Rightarrow> 'snap option \<Rightarrow> 'snap option) \<Rightarrow> bool list \<Rightarrow> 'snap option list \<Rightarrow> 'snap option list
   \<Rightarrow> 'snap option list" where
  "merge_layers merge_snap stateful nodeSnaps childSnaps =
     map (\<lambda>i. if stateful ! i then merge_snap i (layer_snap nodeSnaps i) (layer_snap childSnaps i) else None)
       [0..<length stateful]"

definition mergeWithChild ::
  "('snap \<Rightarrow> int) \<Rightarrow> (nat \<Rightarrow> 'snap option \<Rightarrow> 'snap option \<Rightarrow> 'snap option) \<Rightarrow> bool list
   \<Rightarrow> 'snap trie_node \<Rightarrow> int \<Rightarrow> ('snap trie_node \<times> int) option" where
  "mergeWithChild size_of merge_snap stateful node counter =
     (case children node of
        [child] \<Rightarrow>
          (let joined = TrieNode (edge node @ edge child) (endOffset child) (max (lastUsed node) (lastUsed child))
                          (snapshots node) (is_user child) (children child)
           in if snapshots node = [] \<and> snapshots child = [] then Some (joined, counter)
              else if \<not> merge_in_range stateful (snapshots node) \<or> \<not> merge_in_range stateful (snapshots child)
              then None
              else (let (emptied, c1, nodeSnaps) = swapSnapshots size_of [] joined counter;
                        (child', c2, childSnaps) = swapSnapshots size_of [] child c1;
                        (merged, c3, _) = swapSnapshots size_of
                           (merge_layers merge_snap stateful nodeSnaps childSnaps) emptied c2
                    in Some (merged, c3)))
      | _ \<Rightarrow> None)"

text \<open>An operation at the node that a path leads to.\<close>

fun update_at ::
  "nat list \<Rightarrow> ('snap trie_node \<Rightarrow> int \<Rightarrow> ('snap trie_node \<times> int) option)
   \<Rightarrow> 'snap trie_node \<Rightarrow> int \<Rightarrow> ('snap trie_node \<times> int) option" where
  "update_at [] f t counter = f t counter"
| "update_at (i # p) f t counter =
     (if i < length (children t)
      then (case update_at p f (children t ! i) counter of
              None \<Rightarrow> None
            | Some (child, counter') \<Rightarrow> Some (set_children ((children t)[i := child]) t, counter'))
      else None)"

fun node_at :: "nat list \<Rightarrow> 'snap trie_node \<Rightarrow> 'snap trie_node option" where
  "node_at [] t = Some t"
| "node_at (i # p) t = (if i < length (children t) then node_at p (children t ! i) else None)"

text \<open>The tokens on the way from below a node to the end of a path.\<close>

fun path_tokens :: "nat list \<Rightarrow> 'snap trie_node \<Rightarrow> trie_key list option" where
  "path_tokens [] t = Some []"
| "path_tokens (i # p) t =
     (if i < length (children t) then map_option ((@) (edge (children t ! i))) (path_tokens p (children t ! i))
      else None)"

section \<open>Fields\<close>

lemma set_children_fields [simp]:
  "edge (set_children cs t) = edge t" "endOffset (set_children cs t) = endOffset t"
  "lastUsed (set_children cs t) = lastUsed t" "snapshots (set_children cs t) = snapshots t"
  "is_user (set_children cs t) = is_user t" "children (set_children cs t) = cs"
  by (cases t; simp)+

lemma set_edge_fields [simp]:
  "edge (set_edge e t) = e" "endOffset (set_edge e t) = endOffset t"
  "lastUsed (set_edge e t) = lastUsed t" "snapshots (set_edge e t) = snapshots t"
  "is_user (set_edge e t) = is_user t" "children (set_edge e t) = children t"
  by (cases t; simp)+

lemma replace_snapshots_fields [simp]:
  "edge (replace_snapshots sn t) = edge t" "endOffset (replace_snapshots sn t) = endOffset t"
  "lastUsed (replace_snapshots sn t) = lastUsed t" "snapshots (replace_snapshots sn t) = sn"
  "is_user (replace_snapshots sn t) = is_user t" "children (replace_snapshots sn t) = children t"
  by (cases t; simp)+

section \<open>What the operations keep\<close>

text \<open>The paged-out bytes of a whole trie, and the shape of the snapshot lists of \<open>k\<close> layers.\<close>

fun total_bytes :: "('snap \<Rightarrow> int) \<Rightarrow> 'snap trie_node \<Rightarrow> int" where
  "total_bytes size_of (TrieNode e off used sn u cs) =
     snapshotBytes size_of (TrieNode e off used sn u cs) + sum_list (map (total_bytes size_of) cs)"

fun layers_ok :: "nat \<Rightarrow> 'snap trie_node \<Rightarrow> bool" where
  "layers_ok k (TrieNode e off used sn u cs) \<longleftrightarrow> (sn = [] \<or> length sn = k) \<and> (\<forall>c \<in> set cs. layers_ok k c)"

lemma total_bytes_children:
  "total_bytes size_of t = snapshotBytes size_of t + sum_list (map (total_bytes size_of) (children t))"
  by (cases t) simp

lemma total_bytes_of:
  "children t = cs \<Longrightarrow> total_bytes size_of t = snapshotBytes size_of t + sum_list (map (total_bytes size_of) cs)"
  by (cases t) simp

lemma layers_ok_children:
  "layers_ok k t \<longleftrightarrow> (snapshots t = [] \<or> length (snapshots t) = k) \<and> (\<forall>c \<in> set (children t). layers_ok k c)"
  by (cases t) simp

lemma snapshotBytes_cong: "snapshots t = snapshots t' \<Longrightarrow> snapshotBytes size_of t = snapshotBytes size_of t'"
  by (simp add: snapshotBytes_def)

lemma snapshotBytes_none [simp]: "snapshots t = [] \<Longrightarrow> snapshotBytes size_of t = 0"
  by (simp add: snapshotBytes_def)

lemma wf_cong:
  "children t = children t' \<Longrightarrow> endOffset t = endOffset t' \<Longrightarrow> wf_trie t = wf_trie t'"
  by (cases t; cases t') simp

lemma covers_cong: "children t = children t' \<Longrightarrow> covers t xs = covers t' xs"
  by (cases t; cases t') simp

text \<open>Replacing one child by a node in the same place.\<close>

lemma replace_child_wf:
  assumes "wf_trie t" and "i < length (children t)" and "placed_at (endOffset t) c'"
    and "hd (edge c') = hd (edge (children t ! i))"
  shows "wf_trie (set_children ((children t)[i := c']) t)"
proof -
  have "map (\<lambda>c. hd (edge c)) ((children t)[i := c']) = map (\<lambda>c. hd (edge c)) (children t)"
    using assms(2,4) by (simp add: map_update nth_map list_update_same_conv)
  then have "distinct (map (\<lambda>c. hd (edge c)) ((children t)[i := c']))"
    using wf_siblings[OF assms(1)] by simp
  moreover have "placed_at (endOffset t) c" if "c \<in> set ((children t)[i := c'])" for c
    using set_update_subset_insert[of "children t" i c'] that wf_childD(1)[OF assms(1)] assms(3) by blast
  ultimately show ?thesis
    unfolding wf_trie_children[of "set_children ((children t)[i := c']) t"] by simp
qed

lemma replace_child_bytes:
  assumes "i < length (children t)"
  shows "total_bytes size_of (set_children ((children t)[i := c']) t) =
    total_bytes size_of t - total_bytes size_of (children t ! i) + total_bytes size_of c'"
proof -
  have "sum_list (map f (xs[j := y])) = sum_list (map f xs) - f (xs ! j) + (f y :: int)"
    if "j < length xs" for f y j and xs :: "'a trie_node list"
    using that by (induction xs arbitrary: j) (auto split: nat.split)
  with assms show ?thesis
    by (simp add: total_bytes_children[of size_of "set_children _ _"] total_bytes_children[of size_of t]
        snapshotBytes_cong[of "set_children _ _" t])
qed

lemma replace_child_layers:
  assumes "layers_ok k t" and "layers_ok k c'"
  shows "layers_ok k (set_children ((children t)[i := c']) t)"
  using assms set_update_subset_insert[of "children t" i c']
  unfolding layers_ok_children[of k t] layers_ok_children[of k "set_children ((children t)[i := c']) t"] by auto

lemma bex_set_nth: "(\<exists>c \<in> set cs. P c) \<longleftrightarrow> (\<exists>j < length cs. P (cs ! j))"
  by (metis in_set_conv_nth)

lemma child_covers:
  assumes "i < length (children t)"
  shows "covers t xs \<longleftrightarrow>
    xs = [] \<or> reads (children t ! i) xs \<or> (\<exists>j < length (children t). j \<noteq> i \<and> reads (children t ! j) xs)"
  using assms unfolding covers_children[of t] bex_set_nth by blast

lemma replace_child_covers:
  assumes "i < length (children t)"
  shows "covers (set_children ((children t)[i := c']) t) xs \<longleftrightarrow>
    xs = [] \<or> reads c' xs \<or> (\<exists>j < length (children t). j \<noteq> i \<and> reads (children t ! j) xs)"
proof -
  have "(\<exists>j < length (children t). j \<noteq> i \<and> reads ((children t)[i := c'] ! j) xs) \<longleftrightarrow>
      (\<exists>j < length (children t). j \<noteq> i \<and> reads (children t ! j) xs)" by auto
  then show ?thesis
    using child_covers[of i "set_children ((children t)[i := c']) t" xs] assms by simp
qed

text \<open>
  \<open>changed R k n c n' c'\<close>: the node \<open>n\<close> was changed in its place to \<open>n'\<close>, with \<open>R\<close> relating
  what is read before and after: the counter moved by the bytes that went or came.
\<close>

definition changed ::
  "(bool \<Rightarrow> bool \<Rightarrow> bool) \<Rightarrow> ('snap \<Rightarrow> int) \<Rightarrow> nat \<Rightarrow> 'snap trie_node \<Rightarrow> int \<Rightarrow> 'snap trie_node \<Rightarrow> int \<Rightarrow> bool" where
  "changed R size_of k n counter n' counter' \<longleftrightarrow>
     (\<forall>off. placed_at off n \<longrightarrow> placed_at off n' \<and> hd (edge n') = hd (edge n)) \<and>
     (layers_ok k n \<longrightarrow> layers_ok k n') \<and>
     counter' - counter = total_bytes size_of n' - total_bytes size_of n \<and>
     (\<forall>xs. R (reads n' xs) (reads n xs))"

text \<open>The relations used: nothing changes, or nothing new is read.\<close>

definition reading_relation :: "(bool \<Rightarrow> bool \<Rightarrow> bool) \<Rightarrow> bool" where
  "reading_relation R \<longleftrightarrow> (R = (=) \<or> R = (\<longrightarrow>))"

lemma reading_relationD:
  "reading_relation R \<Longrightarrow> R a b \<Longrightarrow> R (x \<or> a \<or> y) (x \<or> b \<or> y)" "reading_relation R \<Longrightarrow> R a a"
  by (auto simp: reading_relation_def)

text \<open>The same for a node whose own edge stays: what its parent keeps.\<close>

definition changed_below ::
  "(bool \<Rightarrow> bool \<Rightarrow> bool) \<Rightarrow> ('snap \<Rightarrow> int) \<Rightarrow> nat \<Rightarrow> 'snap trie_node \<Rightarrow> int \<Rightarrow> 'snap trie_node \<Rightarrow> int \<Rightarrow> bool" where
  "changed_below R size_of k n counter n' counter' \<longleftrightarrow>
     edge n' = edge n \<and> endOffset n' = endOffset n \<and> (wf_trie n \<longrightarrow> wf_trie n') \<and>
     (layers_ok k n \<longrightarrow> layers_ok k n') \<and>
     counter' - counter = total_bytes size_of n' - total_bytes size_of n \<and>
     (\<forall>xs. R (covers n' xs) (covers n xs))"

lemma changed_belowI:
  assumes "reading_relation R" and "changed_below R size_of k n c n' c'"
  shows "changed R size_of k n c n' c'"
proof -
  have "R (reads n' xs) (reads n xs)" for xs
    using assms unfolding changed_below_def reading_relation_def reads_def by auto
  with assms(2) show ?thesis
    unfolding changed_def changed_below_def by (auto simp: placed_at_def)
qed

lemma changed_child:
  assumes R: "reading_relation R" and w: "wf_trie t" and i: "i < length (children t)"
    and ch: "changed R size_of k (children t ! i) c c' counter'"
  shows "changed_below R size_of k t c (set_children ((children t)[i := c']) t) counter'"
proof -
  let ?t = "set_children ((children t)[i := c']) t"
  have "placed_at (endOffset t) (children t ! i)" using wf_childD(1)[OF w] i by simp
  then have p: "placed_at (endOffset t) c'" "hd (edge c') = hd (edge (children t ! i))"
    using ch by (auto simp: changed_def)
  have "layers_ok k ?t" if l: "layers_ok k t"
  proof -
    have "layers_ok k (children t ! i)" using l i by (auto simp: layers_ok_children[of k t])
    with ch have "layers_ok k c'" by (simp add: changed_def)
    with l show ?thesis by (rule replace_child_layers)
  qed
  moreover have "R (covers ?t xs) (covers t xs)" for xs
    unfolding replace_child_covers[OF i] child_covers[OF i]
    by (rule reading_relationD(1)[OF R]) (use ch in \<open>simp add: changed_def\<close>)
  ultimately show ?thesis
    using replace_child_wf[OF w i p] replace_child_bytes[OF i, of size_of c'] ch
    by (simp add: changed_below_def changed_def)
qed

text \<open>Lifting along a path.\<close>

lemma update_at_changed:
  assumes R: "reading_relation R"
    and f: "\<And>n n' c'. node_at p t = Some n \<Longrightarrow> wf_trie n \<Longrightarrow> f n c = Some (n', c') \<Longrightarrow> changed R size_of k n c n' c'"
    and "wf_trie t" and "update_at p f t c = Some (t', c')"
  shows "changed R size_of k t c t' c'" and "p \<noteq> [] \<Longrightarrow> changed_below R size_of k t c t' c'"
proof -
  have "changed R size_of k t c t' c' \<and> (p \<noteq> [] \<longrightarrow> changed_below R size_of k t c t' c')"
    using assms(2-)
  proof (induction p arbitrary: t t' c')
    case (Cons i p)
    then obtain ch where i: "i < length (children t)" and
      u: "update_at p f (children t ! i) c = Some (ch, c')" and
      t': "t' = set_children ((children t)[i := ch]) t"
      by (auto split: if_splits option.splits)
    have "wf_trie (children t ! i)" using wf_childD(2)[OF Cons.prems(2)] i by simp
    with Cons.IH[OF _ _ u] Cons.prems(1) i have "changed R size_of k (children t ! i) c ch c'" by simp
    from changed_child[OF R Cons.prems(2) i this] show ?case
      using changed_belowI[OF R] by (simp add: t')
  qed simp
  then show "changed R size_of k t c t' c'" and "p \<noteq> [] \<Longrightarrow> changed_below R size_of k t c t' c'" by auto
qed

section \<open>The single operations\<close>

lemma swapSnapshots_eq:
  "swapSnapshots size_of sn n c =
     (replace_snapshots sn n, c - snapshotBytes size_of n + snapshotBytes size_of (replace_snapshots sn n), snapshots n)"
  by (simp add: swapSnapshots_def Let_def)

text \<open>A node made of the first part of an edge, above one with the rest, reads the same.\<close>

lemma reads_split:
  assumes "edge p = take at (edge n)" and "children p = [q]" and "edge q = drop at (edge n)"
    and "children q = children n" and "0 < at"
  shows "reads p xs \<longleftrightarrow> reads n xs"
proof -
  have e: "edge n = edge p @ edge q" using assms(1,3) by simp
  have "covers p ys \<longleftrightarrow> ys = [] \<or> reads q ys" for ys using assms(2) by (simp add: covers_children[of p])
  moreover have "covers q ys \<longleftrightarrow> covers n ys" for ys using assms(4) by (rule covers_cong)
  ultimately show ?thesis unfolding reads_iff e by (auto simp: prefix_append)
qed

lemma splitNode_panics_iff:
  assumes "layers_ok (length stateful) n"
  shows "splitNode size_of split_snap stateful at n c = None \<longleftrightarrow> at = 0 \<or> length (edge n) \<le> at"
proof -
  have "layers_in_range stateful (snapshots (set_edge (drop at (edge n)) n))"
    using assms unfolding layers_ok_children[of _ n] by (auto simp: layers_in_range_def list_all_iff)
  then show ?thesis by (auto simp: splitNode_def Let_def swapSnapshots_eq)
qed

lemma splitNode_shape:
  assumes "splitNode size_of split_snap stateful at n c = Some (p, c')"
  obtains q where "edge p = take at (edge n)" "children p = [q]" "edge q = drop at (edge n)"
    "children q = children n" "0 < at" "at < length (edge n)" "endOffset p = startOffset n + at"
    "endOffset q = endOffset n" "layers_ok k n \<Longrightarrow> layers_ok k p"
    "c' - c = total_bytes size_of p - total_bytes size_of n"
proof -
  let ?suffix = "set_edge (drop at (edge n)) n"
  have at: "0 < at" "at < length (edge n)" using assms by (auto simp: splitNode_def split: if_splits)
  have b: "snapshotBytes size_of ?suffix = snapshotBytes size_of n" by (rule snapshotBytes_cong) simp
  show ?thesis
  proof (cases "hasSnapshots ?suffix")
    case False
    with assms at have p: "p = set_children [?suffix]
        (TrieNode (take at (edge n)) (startOffset n + at) (lastUsed n) [] False [])" "c' = c"
      by (simp_all add: splitNode_def Let_def)
    have "c' - c = total_bytes size_of p - total_bytes size_of n"
      using b unfolding p by (simp add: total_bytes_children[of size_of n] total_bytes_children[of size_of ?suffix])
    moreover have "layers_ok k n \<Longrightarrow> layers_ok k p"
      unfolding p by (simp add: layers_ok_children[of k n] layers_ok_children[of k ?suffix])
    ultimately show ?thesis using at by (intro that[of ?suffix]) (simp_all add: p)
  next
    case True
    let ?halves = "map (split_layer split_snap stateful (startOffset n + at)) (enumerate 0 (snapshots n))"
    let ?q = "replace_snapshots (map snd ?halves) (replace_snapshots [] ?suffix)"
    let ?p0 = "replace_snapshots (map fst ?halves)
      (TrieNode (take at (edge n)) (startOffset n + at) (lastUsed n) [] False [])"
    have p: "p = set_children [?q] ?p0"
      "c' = c - snapshotBytes size_of n + snapshotBytes size_of ?p0 + snapshotBytes size_of ?q"
      using assms at True b by (simp_all add: splitNode_def Let_def swapSnapshots_eq split: if_splits)
    have "snapshotBytes size_of p = snapshotBytes size_of ?p0" unfolding p by (rule snapshotBytes_cong) simp
    moreover have cq: "children p = [?q]" "children ?q = children n" unfolding p(1) by simp_all
    then have "total_bytes size_of p = snapshotBytes size_of p +
        (snapshotBytes size_of ?q + sum_list (map (total_bytes size_of) (children n)))"
      unfolding total_bytes_of[OF cq(1)] list.map sum_list.Cons total_bytes_of[OF cq(2)] by simp
    moreover note total_bytes_children[of size_of n]
    ultimately have "c' - c = total_bytes size_of p - total_bytes size_of n" unfolding p(2) by linarith
    moreover have "layers_ok k n \<Longrightarrow> layers_ok k ?q"
      unfolding layers_ok_children[of k n] layers_ok_children[of k ?q] by auto
    then have "layers_ok k n \<Longrightarrow> layers_ok k p"
      unfolding layers_ok_children[of k p] p(1) by (auto simp: layers_ok_children[of k n])
    ultimately show ?thesis using at by (intro that[of ?q]) (simp_all add: p(1))
  qed
qed


lemma split_changed:
  assumes "wf_trie n" and "splitNode size_of split_snap stateful at n c = Some (p, c')"
  shows "changed (=) size_of k n c p c'"
proof -
  obtain q where q: "edge p = take at (edge n)" "children p = [q]" "edge q = drop at (edge n)"
    "children q = children n" "0 < at" "at < length (edge n)" "endOffset p = startOffset n + at"
    "endOffset q = endOffset n" "layers_ok k n \<Longrightarrow> layers_ok k p"
    "c' - c = total_bytes size_of p - total_bytes size_of n"
    using splitNode_shape[OF assms(2), of k] by blast
  have "placed_at off p \<and> hd (edge p) = hd (edge n)" if off: "placed_at off n" for off
  proof -
    have "wf_trie q" using wf_cong[OF q(4,8)] assms(1) by simp
    moreover have "endOffset q = endOffset p + length (edge q)"
      using q(6,7,8) off unfolding q(3) by (simp add: placed_at_def startOffset_def)
    ultimately have "placed_at (endOffset p) q" using q(3,6) by (simp add: placed_at_def)
    then have "wf_trie p" unfolding wf_trie_children[of p] q(2) by simp
    moreover have "edge p \<noteq> []" "hd (edge p) = hd (edge n)" using q(1,5,6) by auto
    ultimately show ?thesis using q(1,6,7) off by (simp add: placed_at_def startOffset_def)
  qed
  then show ?thesis unfolding changed_def using reads_split[OF q(1-5)] q(9,10) by blast
qed

lemma mergeWithChild_panics_iff:
  assumes "layers_ok (length stateful) n"
  shows "mergeWithChild size_of merge_snap stateful n c = None \<longleftrightarrow> length (children n) \<noteq> 1"
proof (cases "children n")
  case (Cons child cs)
  then have "merge_in_range stateful (snapshots n)" "cs = [] \<Longrightarrow> merge_in_range stateful (snapshots child)"
    using assms layers_ok_children[of "length stateful" n] layers_ok_children[of "length stateful" child]
    by (auto simp: merge_in_range_def list_all_iff)
  with Cons show ?thesis
    by (cases cs) (auto simp: mergeWithChild_def Let_def swapSnapshots_eq)
qed (simp add: mergeWithChild_def)

lemma mergeWithChild_shape:
  assumes "mergeWithChild size_of merge_snap stateful n c = Some (n', c')"
  obtains child where "children n = [child]" "edge n' = edge n @ edge child" "endOffset n' = endOffset child"
    "children n' = children child" "is_user n' = is_user child" "lastUsed n' = max (lastUsed n) (lastUsed child)"
    "layers_ok (length stateful) n \<Longrightarrow> layers_ok (length stateful) n'"
    "c' - c = total_bytes size_of n' - total_bytes size_of n"
proof -
  obtain child where ch: "children n = [child]"
    using assms by (auto simp: mergeWithChild_def split: list.splits)
  let ?joined = "TrieNode (edge n @ edge child) (endOffset child) (max (lastUsed n) (lastUsed child))
                    (snapshots n) (is_user child) (children child)"
  have tn: "total_bytes size_of n =
      snapshotBytes size_of n + (snapshotBytes size_of child + sum_list (map (total_bytes size_of) (children child)))"
    using ch by (simp add: total_bytes_children[of size_of n] total_bytes_children[of size_of child])
  have bj: "snapshotBytes size_of ?joined = snapshotBytes size_of n" by (rule snapshotBytes_cong) simp
  have lc: "layers_ok k n \<Longrightarrow> layers_ok k child" for k using ch unfolding layers_ok_children[of k n] by simp
  show ?thesis
  proof (cases "snapshots n = [] \<and> snapshots child = []")
    case True
    with assms ch have n': "n' = ?joined" "c' = c" by (simp_all add: mergeWithChild_def)
    have "c' - c = total_bytes size_of n' - total_bytes size_of n"
      using True tn bj total_bytes_of[of ?joined "children child" size_of] by (simp add: n' del: total_bytes.simps)
    moreover have "layers_ok k n \<Longrightarrow> layers_ok k n'" for k
      using lc[of k] True by (simp add: n'(1) layers_ok_children[of k child])
    ultimately show ?thesis using ch by (intro that[of child]) (simp_all add: n'(1))
  next
    case False
    let ?m = "replace_snapshots (merge_layers merge_snap stateful (snapshots n) (snapshots child)) (replace_snapshots [] ?joined)"
    have n': "n' = ?m" "c' = c - snapshotBytes size_of ?joined - snapshotBytes size_of child + snapshotBytes size_of ?m"
      using assms ch False
      by (auto simp: mergeWithChild_def Let_def swapSnapshots_eq simp del: replace_snapshots.simps split: if_splits)
    have "children ?m = children child" by simp
    then have "total_bytes size_of ?m = snapshotBytes size_of ?m + sum_list (map (total_bytes size_of) (children child))"
      by (simp only: total_bytes_children[of size_of ?m])
    then have "c' - c = total_bytes size_of n' - total_bytes size_of n"
      using tn bj unfolding n' by linarith
    moreover have "layers_ok (length stateful) n \<Longrightarrow> layers_ok (length stateful) n'"
      using lc[of "length stateful"] unfolding n'(1) layers_ok_children[of _ ?m] layers_ok_children[of _ child]
      by (simp add: merge_layers_def)
    ultimately show ?thesis using ch by (intro that[of child]) (simp_all add: n'(1))
  qed
qed

lemma merge_changed:
  assumes "wf_trie n" and "mergeWithChild size_of merge_snap stateful n c = Some (n', c')"
  shows "changed (=) size_of (length stateful) n c n' c'"
proof -
  obtain child where ch: "children n = [child]" "edge n' = edge n @ edge child" "endOffset n' = endOffset child"
    "children n' = children child"
    "layers_ok (length stateful) n \<Longrightarrow> layers_ok (length stateful) n'"
    "c' - c = total_bytes size_of n' - total_bytes size_of n"
    using mergeWithChild_shape[OF assms(2)] by blast
  have p: "placed_at (endOffset n) child" using wf_childD(1)[OF assms(1)] ch(1) by simp
  then have "wf_trie n'" using wf_cong[OF ch(4,3)] by (simp add: placed_at_def)
  then have "placed_at off n' \<and> hd (edge n') = hd (edge n)" if "placed_at off n" for off
    using that p ch(2,3) by (simp add: placed_at_def)
  moreover have "reads n' xs \<longleftrightarrow> reads n xs" for xs
  proof -
    have "covers n ys \<longleftrightarrow> ys = [] \<or> reads child ys" for ys using ch(1) by (simp add: covers_children[of n])
    moreover have "covers n' ys \<longleftrightarrow> covers child ys" for ys using ch(4) by (rule covers_cong)
    ultimately show ?thesis unfolding reads_iff ch(2) by (auto simp: prefix_append)
  qed
  ultimately show ?thesis unfolding changed_def using ch(5,6) by blast
qed

lemma removeNode_changed:
  assumes "wf_trie n" and "removeNode size_of i n c = Some (n', c')"
  shows "changed_below (\<longrightarrow>) size_of k n c n' c'"
proof -
  have i: "i < length (children n)" and leaf: "children (children n ! i) = []"
    and n': "n' = set_children (take i (children n) @ drop (Suc i) (children n)) n"
      "c' = c - snapshotBytes size_of (children n ! i)"
    using assms(2) by (auto simp: removeNode_def swapSnapshots_eq split: if_splits)
  have cs: "children n = take i (children n) @ children n ! i # drop (Suc i) (children n)"
    using i by (rule id_take_nth_drop)
  have sub: "set (children n') \<subseteq> set (children n)"
    unfolding n' by (auto dest: in_set_takeD in_set_dropD)
  have "distinct (map (\<lambda>c. hd (edge c)) (children n'))"
    using wf_siblings[OF assms(1)] unfolding n' by (subst (asm) cs) auto
  then have "wf_trie n'"
    using assms(1) sub unfolding wf_trie_children[of n'] wf_trie_children[of n] by (simp add: n'(1)) blast
  moreover have "sum_list (map (total_bytes size_of) (children n)) =
      sum_list (map (total_bytes size_of) (children n')) + snapshotBytes size_of (children n ! i)"
    unfolding n'(1) by (subst cs) (simp add: total_bytes_children[of size_of "children n ! i"] leaf)
  then have "c' - c = total_bytes size_of n' - total_bytes size_of n"
    unfolding total_bytes_children[of size_of n'] total_bytes_children[of size_of n] n'(2)
    using snapshotBytes_cong[of n' n size_of] by (simp add: n'(1))
  moreover have "covers n' xs \<longrightarrow> covers n xs" for xs
    using sub unfolding covers_children[of n'] covers_children[of n] by blast
  moreover have "layers_ok k n \<longrightarrow> layers_ok k n'"
    using sub unfolding layers_ok_children[of k n'] layers_ok_children[of k n] by (auto simp: n'(1))
  moreover have "edge n' = edge n" "endOffset n' = endOffset n" by (simp_all add: n'(1))
  ultimately show ?thesis unfolding changed_below_def by blast
qed

end
