(* ===== verification/TrieAdvance.thy ===== *)
theory TrieAdvance
  imports TrieUpdates
begin

text \<open>
  \<^verbatim>\<open>advancePath\<close> of \<^verbatim>\<open>mlxrunner/prefix_cache.go\<close>: the tokens below the frontier are matched
  against the trie, a partly matched edge is split, and what remains becomes a child.
\<close>

text \<open>Splitting the last node of the match where it ends inside that node's edge.\<close>

definition split_match ::
  "('snap \<Rightarrow> int) \<Rightarrow> (nat \<Rightarrow> 'snap \<Rightarrow> nat \<Rightarrow> 'snap option \<times> 'snap option) \<Rightarrow> bool list
   \<Rightarrow> 'snap trie_node \<Rightarrow> nat list \<Rightarrow> nat \<Rightarrow> int \<Rightarrow> ('snap trie_node \<times> int) option" where
  "split_match size_of split_snap stateful frontier matchPath matched counter =
     (case node_at matchPath frontier of
        None \<Rightarrow> None
      | Some lastNode \<Rightarrow>
          (let matchedInEdge = endOffset frontier + matched - startOffset lastNode
           in if matchPath \<noteq> [] \<and> 0 < matchedInEdge \<and> matchedInEdge < length (edge lastNode)
              then update_at matchPath (splitNode size_of split_snap stateful matchedInEdge) frontier counter
              else Some (frontier, counter)))"

text \<open>Appending what remains at the end of the match; the path to the new frontier.\<close>

definition append_rest ::
  "nat list \<Rightarrow> trie_key list \<Rightarrow> nat \<Rightarrow> 'snap trie_node \<Rightarrow> int \<Rightarrow> ('snap trie_node \<times> int \<times> nat list) option" where
  "append_rest matchPath remaining off frontier counter =
     (if remaining = [] then Some (frontier, counter, matchPath)
      else (case node_at matchPath frontier of
              None \<Rightarrow> None
            | Some dest \<Rightarrow>
                (case update_at matchPath (\<lambda>n c. Some (appendChild remaining off n, c)) frontier counter of
                   None \<Rightarrow> None
                 | Some (frontier', counter') \<Rightarrow>
                     Some (frontier', counter', matchPath @ [length (children dest)]))))"

text \<open>
  On the trie below the frontier: the changed trie, the counter, and the path that the
  active path grows by.
\<close>

definition advance_frontier ::
  "('snap \<Rightarrow> int) \<Rightarrow> (nat \<Rightarrow> 'snap \<Rightarrow> nat \<Rightarrow> 'snap option \<times> 'snap option) \<Rightarrow> bool list
   \<Rightarrow> 'snap trie_node \<Rightarrow> trie_key list \<Rightarrow> nat \<Rightarrow> int \<Rightarrow> ('snap trie_node \<times> int \<times> nat list) option" where
  "advance_frontier size_of split_snap stateful frontier toks off counter =
     (let (matchPath, matched) = findBestMatch (Some frontier) toks
      in case split_match size_of split_snap stateful frontier matchPath matched counter of
           None \<Rightarrow> None
         | Some (frontier', counter') \<Rightarrow> append_rest matchPath (drop matched toks) off frontier' counter')"

text \<open>What an advance by \<open>toks\<close> that ends at \<open>off\<close> promises of the trie \<open>t\<close> below the frontier.\<close>

definition advanced ::
  "('snap \<Rightarrow> int) \<Rightarrow> nat \<Rightarrow> 'snap trie_node \<Rightarrow> trie_key list \<Rightarrow> nat \<Rightarrow> int \<Rightarrow> 'snap trie_node \<Rightarrow> int \<Rightarrow> nat list \<Rightarrow> bool" where
  "advanced size_of k t toks off counter t' counter' q \<longleftrightarrow>
     edge t' = edge t \<and> endOffset t' = endOffset t \<and> wf_trie t' \<and> layers_ok k t' \<and>
     counter' - counter = total_bytes size_of t' - total_bytes size_of t \<and>
     (\<forall>xs. covers t' xs \<longleftrightarrow> covers t xs \<or> prefix xs toks) \<and>
     path_tokens q t' = Some toks \<and> (\<exists>n. node_at q t' = Some n \<and> endOffset n = off)"

lemma appendChild_fields [simp]:
  "edge (appendChild toks off n) = edge n" "endOffset (appendChild toks off n) = endOffset n"
  "snapshots (appendChild toks off n) = snapshots n"
  "children (appendChild toks off n) = children n @ [TrieNode toks off (lastUsed n) [] False []]"
  by (simp_all add: appendChild_def)

text \<open>Appending a child whose first token is new.\<close>

lemma append_advanced:
  assumes "wf_trie t" and "layers_ok k t" and "toks \<noteq> []" and "hd toks \<notin> set (map (\<lambda>c. hd (edge c)) (children t))"
  shows "advanced size_of k t toks (endOffset t + length toks) c
    (appendChild toks (endOffset t + length toks) t) c [length (children t)]"
proof -
  let ?t = "appendChild toks (endOffset t + length toks) t"
  let ?new = "TrieNode toks (endOffset t + length toks) (lastUsed t) [] False []"
  have "placed_at (endOffset t) ?new" using assms(3) by (simp add: placed_at_def)
  then have "wf_trie ?t"
    using assms(1,4) unfolding wf_trie_children[of ?t] wf_trie_children[of t] by auto
  moreover have "layers_ok k ?t"
    using assms(2) unfolding layers_ok_children[of k ?t] layers_ok_children[of k t] by simp
  moreover have "total_bytes size_of ?t = total_bytes size_of t"
    unfolding total_bytes_children[of size_of ?t] total_bytes_children[of size_of t]
    using snapshotBytes_cong[of ?t t size_of] by (simp add: snapshotBytes_def)
  moreover have "reads ?new xs \<longleftrightarrow> prefix xs toks" for xs by (auto simp: reads_iff)
  then have "covers ?t xs \<longleftrightarrow> covers t xs \<or> prefix xs toks" for xs
    unfolding covers_children[of ?t] covers_children[of t] by auto
  ultimately show ?thesis by (simp add: advanced_def nth_append)
qed

text \<open>Going into a child whose edge starts the tokens.\<close>

lemma child_advanced:
  assumes w: "wf_trie t" and l: "layers_ok k t" and i: "i < length (children t)"
    and e: "edge (children t ! i) = take j toks" and j: "j \<le> length toks"
    and A: "advanced size_of k (children t ! i) (drop j toks) off c c' counter' q"
  shows "advanced size_of k t toks off c (set_children ((children t)[i := c']) t) counter' (i # q)"
proof -
  let ?c = "children t ! i" and ?t = "set_children ((children t)[i := c']) t"
  note A = A[unfolded advanced_def]
  have edge: "edge c' = edge ?c" using A by blast
  have place: "placed_at (endOffset t) ?c" using wf_childD(1)[OF w] i by simp
  then have place': "placed_at (endOffset t) c'" using A edge by (simp add: placed_at_def)
  have "wf_trie ?t" using replace_child_wf[OF w i place'] edge by simp
  moreover have "layers_ok k ?t" using replace_child_layers[OF l] A by blast
  moreover have "counter' - c = total_bytes size_of ?t - total_bytes size_of t"
    using replace_child_bytes[OF i, of size_of c'] A by simp
  moreover have "covers ?t xs \<longleftrightarrow> covers t xs \<or> prefix xs toks" for xs
  proof -
    have toks: "toks = edge ?c @ drop j toks" using e by simp
    have "reads c' xs \<longleftrightarrow> reads ?c xs \<or> prefix xs toks"
      using A unfolding reads_iff[of _ xs] edge by (subst toks) (auto simp: prefix_append)
    then show ?thesis unfolding replace_child_covers[OF i] child_covers[OF i] by blast
  qed
  moreover have "path_tokens (i # q) ?t = Some toks"
    using A i edge e by (simp del: append_take_drop_id) (simp add: append_take_drop_id)
  moreover have "\<exists>n. node_at (i # q) ?t = Some n \<and> endOffset n = off" using A i by simp
  ultimately show ?thesis by (simp add: advanced_def)
qed

lemma match_len_stop:
  assumes "match_len xs ys < length xs" and "match_len xs ys < length ys"
  shows "xs ! match_len xs ys \<noteq> ys ! match_len xs ys"
  using assms by (induction xs ys rule: match_len.induct) (auto split: if_splits)

lemma advanced_after:
  assumes "changed_below (=) size_of k t c t1 c1" and "advanced size_of k t1 toks off c1 t' c' q"
  shows "advanced size_of k t toks off c t' c' q"
proof -
  have "c1 - c = total_bytes size_of t1 - total_bytes size_of t"
    and "edge t1 = edge t" "endOffset t1 = endOffset t" and "\<And>xs. covers t1 xs = covers t xs"
    using assms(1) by (simp_all add: changed_below_def)
  with assms(2) show ?thesis by (simp add: advanced_def)
qed

lemma advanced_stop:
  assumes "wf_trie t" and "layers_ok k t"
  shows "advanced size_of k t [] (endOffset t) c t c []"
  using assms by (auto simp: advanced_def)

lemma set_children_twice [simp]: "set_children xs (set_children ys t) = set_children xs t"
  by (cases t) simp

lemma set_children_same: "children t = xs \<Longrightarrow> set_children xs t = t"
  by (cases t) simp

text \<open>The match ends inside the edge of child \<open>i\<close>: it is split there.\<close>

lemma split_advanced:
  fixes t :: "'snap trie_node"
  assumes w: "wf_trie t" and l: "layers_ok (length stateful) t"
    and s: "scan_children (children t) toks 0 None = Some (i, j, False)" and ne: "toks \<noteq> []"
  shows "\<exists>t' c' q. advance_frontier size_of split_snap stateful t toks (endOffset t + length toks) c = Some (t', c', q) \<and>
    advanced size_of (length stateful) t toks (endOffset t + length toks) c t' c' q"
proof -
  let ?k = "length stateful" and ?n = "children t ! i" and ?rest = "drop j toks"
  note S = scan_found[OF w s ne]
  have n: "layers_ok ?k ?n" using l S(1) by (auto simp: layers_ok_children[of ?k t])
  have jlt: "0 < j" "j < length (edge ?n)" using S(3,4,6) by auto
  have start: "startOffset ?n = endOffset t" using S(8) by (simp add: placed_at_def startOffset_def)
  obtain p c1 where p: "splitNode size_of split_snap stateful j ?n c = Some (p, c1)"
    using splitNode_panics_iff[OF n, of size_of split_snap j c] jlt by fastforce
  obtain q where q: "edge p = take j (edge ?n)" "children p = [q]" "edge q = drop j (edge ?n)"
    "endOffset p = startOffset ?n + j"
    using splitNode_shape[OF p, of ?k] by metis
  have ch: "changed (=) size_of ?k ?n c p c1" by (rule split_changed[OF S(9) p])
  let ?t1 = "set_children ((children t)[i := p]) t"
  have below: "changed_below (=) size_of ?k t c ?t1 c1"
    by (rule changed_child[OF _ w S(1) ch]) (simp add: reading_relation_def)
  then have t1: "wf_trie ?t1" "layers_ok ?k ?t1" using w l by (auto simp: changed_below_def)
  have t1i: "i < length (children ?t1)" "children ?t1 ! i = p" using S(1) by simp_all
  have ep: "edge (children ?t1 ! i) = take j toks" unfolding t1i(2) q(1) by (rule S(7))
  have wp: "wf_trie p" "layers_ok ?k p" "endOffset p = endOffset t + j"
    using ch S(8) n q(4) start by (auto simp: changed_def placed_at_def)
  have find: "find_loop t toks = ([i], j)" using s ne by (simp add: find_loop.simps[of t toks])
  have step: "advance_frontier size_of split_snap stateful t toks (endOffset t + length toks) c =
      (if ?rest = [] then Some (?t1, c1, [i])
       else Some (set_children ((children t)[i := appendChild ?rest (endOffset t + length toks) p]) t, c1, [i, 1]))"
    using S(1) jlt p q(2) by (simp add: advance_frontier_def split_match_def append_rest_def findBestMatch_def find start)
  show ?thesis
  proof (cases "?rest = []")
    case True
    then have len: "length toks = j" using S(5) by simp
    have "advanced size_of ?k (children ?t1 ! i) ?rest (endOffset t + length toks) c1 p c1 []"
      using advanced_stop[OF wp(1,2), of size_of c1] wp(3) len unfolding True t1i(2) by simp
    from child_advanced[OF t1 t1i(1) ep S(5) this]
    have "advanced size_of ?k ?t1 toks (endOffset t + length toks) c1 ?t1 c1 [i]" by simp
    with step True advanced_after[OF below] show ?thesis by auto
  next
    case False
    let ?p = "appendChild ?rest (endOffset t + length toks) p"
    have jl: "j < length toks" using False by auto
    have "edge ?n ! j \<noteq> toks ! j" using match_len_stop[of "edge ?n" toks] S(2) jlt(2) jl by simp
    then have "hd ?rest \<notin> set (map (\<lambda>c. hd (edge c)) (children p))"
      using jl jlt(2) by (simp add: q(2,3) hd_drop_conv_nth)
    from append_advanced[OF wp(1,2) False this, of size_of c1]
    have "advanced size_of ?k (children ?t1 ! i) ?rest (endOffset t + length toks) c1 ?p c1 [1]"
      using wp(3) jl q(2) unfolding t1i(2) by simp
    from child_advanced[OF t1 t1i(1) ep S(5) this]
    have "advanced size_of ?k ?t1 toks (endOffset t + length toks) c1
        (set_children ((children t)[i := ?p]) t) c1 [i, 1]" by simp
    with step False advanced_after[OF below] show ?thesis by auto
  qed
qed

text \<open>The match takes all of the edge of child \<open>i\<close>: the advance goes on there.\<close>

lemma split_match_child:
  assumes i: "i < length (children t)" and e: "endOffset (children t ! i) = endOffset t + j"
    and ne: "p \<noteq> []"
  shows "split_match size_of split_snap stateful t (i # p) (j + m) c =
    map_option (\<lambda>(c', k). (set_children ((children t)[i := c']) t, k))
      (split_match size_of split_snap stateful (children t ! i) p m c)"
proof -
  have eq: "endOffset t + (j + m) = endOffset (children t ! i) + m" using e by simp
  have s: "set_children ((children t)[i := children t ! i]) t = t" by (simp add: set_children_same)
  show ?thesis
    unfolding split_match_def eq
    using ne i s by (cases "node_at p (children t ! i)") (auto simp: Let_def split: option.split)
qed

lemma append_rest_child:
  assumes "i < length (children t)"
  shows "append_rest (i # p) rest off (set_children ((children t)[i := c']) t) k =
    map_option (\<lambda>(c'', k', q). (set_children ((children t)[i := c'']) t, k', i # q)) (append_rest p rest off c' k)"
  using assms by (cases "node_at p c'") (auto simp: append_rest_def split: option.split)

lemma advance_frontier_step:
  assumes w: "wf_trie t" and s: "scan_children (children t) toks 0 None = Some (i, j, True)" and ne: "toks \<noteq> []"
  shows "advance_frontier size_of split_snap stateful t toks off c =
    map_option (\<lambda>(c', k, q). (set_children ((children t)[i := c']) t, k, i # q))
      (advance_frontier size_of split_snap stateful (children t ! i) (drop j toks) off c)"
proof -
  note S = scan_found[OF w s ne]
  obtain p m where rec: "find_loop (children t ! i) (drop j toks) = (p, m)" by fastforce
  have find: "find_loop t toks = (i # p, j + m)" using s ne rec by (simp add: find_loop.simps[of t toks])
  have e: "endOffset (children t ! i) = endOffset t + j" "startOffset (children t ! i) = endOffset t"
    and j: "j = length (edge (children t ! i))"
    using S(4,8) by (simp_all add: placed_at_def startOffset_def)
  have split: "split_match size_of split_snap stateful t (i # p) (j + m) c =
      map_option (\<lambda>(c', k). (set_children ((children t)[i := c']) t, k))
        (split_match size_of split_snap stateful (children t ! i) p m c)"
  proof (cases "p = []")
    case True
    have "m = 0" using rec True
      by (auto simp: find_loop.simps[of _ "drop j toks"] split: if_splits option.splits prod.splits)
    moreover have "split_match size_of split_snap stateful t [i] j c = Some (t, c)"
      using S(1) e j by (simp add: split_match_def)
    ultimately show ?thesis using True S(1) by (simp add: split_match_def set_children_same)
  next
    case False
    with split_match_child[OF S(1) e(1)] show ?thesis by simp
  qed
  show ?thesis
    unfolding advance_frontier_def findBestMatch_def option.case find rec prod.case Let_def split drop_drop
    by (cases "split_match size_of split_snap stateful (children t ! i) p m c")
      (simp_all add: append_rest_child[OF S(1)] split_def add.commute)
qed

lemma advance_frontier_ok:
  assumes "wf_trie t" and "layers_ok (length stateful) t" and "off = endOffset t + length toks"
  shows "\<exists>t' c' q. advance_frontier size_of split_snap stateful t toks off c = Some (t', c', q) \<and>
    advanced size_of (length stateful) t toks off c t' c' q"
  using assms
proof (induction t toks arbitrary: off rule: find_loop.induct)
  case (1 t toks)
  show ?case
  proof (cases "toks = []")
    case True
    then have "advance_frontier size_of split_snap stateful t toks off c = Some (t, c, [])"
      by (simp add: advance_frontier_def findBestMatch_def find_loop.simps split_match_def append_rest_def)
    with True advanced_stop[OF 1(2,3)] 1(4) show ?thesis by simp
  next
    case ne: False
    show ?thesis
    proof (cases "scan_children (children t) toks 0 None")
      case None
      then have "advance_frontier size_of split_snap stateful t toks off c =
          Some (appendChild toks off t, c, [length (children t)])"
        using ne by (simp add: advance_frontier_def findBestMatch_def find_loop.simps[of t] split_match_def append_rest_def)
      moreover have "hd toks \<notin> set (map (\<lambda>c. hd (edge c)) (children t))"
        using scan_none[OF None] wf_childD(3)[OF 1(2)] by fastforce
      ultimately show ?thesis using append_advanced[OF 1(2,3) ne] 1(4) by simp
    next
      case (Some b)
      obtain i j full where b: "b = (i, j, full)" by (metis prod_cases3)
      show ?thesis
      proof (cases full)
        case False
        with split_advanced[OF 1(2,3)] Some b ne 1(4) show ?thesis by simp
      next
        case True
        note s = Some[unfolded b]
        note S = scan_found[OF 1(2) s ne]
        have "layers_ok (length stateful) (children t ! i)"
          using 1(3) S(1) by (auto simp: layers_ok_children[of _ t])
        moreover have e: "edge (children t ! i) = take j toks" using S(4,7) True by simp
        then have "off = endOffset (children t ! i) + length (drop j toks)"
          using S(4,5,8) 1(4) True by (simp add: placed_at_def)
        ultimately obtain c' k q where
          A: "advance_frontier size_of split_snap stateful (children t ! i) (drop j toks) off c = Some (c', k, q)"
            "advanced size_of (length stateful) (children t ! i) (drop j toks) off c c' k q"
          using 1(1)[OF ne Some b[symmetric] refl _ S(9)] True by blast
        have "advance_frontier size_of split_snap stateful t toks off c =
            Some (set_children ((children t)[i := c']) t, k, i # q)"
          using advance_frontier_step[OF 1(2) s[unfolded eqTrueI[OF True]] ne] A(1) by simp
        with child_advanced[OF 1(2,3) S(1) e S(5) A(2)] show ?thesis by auto
      qed
    qed
  qed
qed

end
