(* ===== verification/PrefixCache.thy ===== *)
theory PrefixCache
  imports TrieAdvance
begin

text \<open>
  The trie of \<^verbatim>\<open>mlxrunner/prefix_cache.go\<close>: the state of \<^verbatim>\<open>prefixCache\<close> without the device
  caches, its frontier, compaction and eviction.  The active path is the path to the frontier;
  the code keeps the nodes on it as pointers, so where an operation removes a node the
  positions on the path are adjusted here.
\<close>

section \<open>State\<close>

record 'snap prefix_cache =
  root :: "'snap trie_node option"
  activePath :: "nat list"
  stateful :: "bool list"
  pagedOutBytes :: int
  draftLookahead :: nat

definition maxPagedOutBytes :: int where
  "maxPagedOutBytes = 8 * 2 ^ 30"

definition newPrefixCache :: "bool list \<Rightarrow> 'snap prefix_cache" where
  "newPrefixCache caches =
     \<lparr>root = None, activePath = [], stateful = caches, pagedOutBytes = 0, draftLookahead = 0\<rparr>"

definition ensureRoot :: "nat \<Rightarrow> 'snap prefix_cache \<Rightarrow> 'snap prefix_cache" where
  "ensureRoot now c =
     (case root c of
        None \<Rightarrow> c\<lparr>root := Some (TrieNode [] 0 now [] False []), activePath := []\<rparr>
      | Some _ \<Rightarrow> c)"

section \<open>Operations\<close>

text \<open>\<^verbatim>\<open>advancePath\<close> at the frontier.\<close>

definition advancePath ::
  "('snap \<Rightarrow> int) \<Rightarrow> (nat \<Rightarrow> 'snap \<Rightarrow> nat \<Rightarrow> 'snap option \<times> 'snap option)
   \<Rightarrow> trie_key list \<Rightarrow> nat \<Rightarrow> 'snap prefix_cache \<Rightarrow> 'snap prefix_cache option" where
  "advancePath size_of split_snap toks off c =
     (case root c of
        None \<Rightarrow> None
      | Some r \<Rightarrow>
          (case node_at (activePath c) r of
             None \<Rightarrow> None
           | Some frontier \<Rightarrow>
               (case advance_frontier size_of split_snap (stateful c) frontier toks off (pagedOutBytes c) of
                  None \<Rightarrow> None
                | Some (frontier', bytes, ext) \<Rightarrow>
                    (case update_at (activePath c) (\<lambda>_ _. Some (frontier', bytes)) r (pagedOutBytes c) of
                       None \<Rightarrow> None
                     | Some (r', bytes') \<Rightarrow>
                         Some (c\<lparr>root := Some r', activePath := activePath c @ ext, pagedOutBytes := bytes'\<rparr>)))))"

text \<open>The path to a node after the node at \<open>p\<close> absorbed its only child.\<close>

definition path_after_merge :: "nat list \<Rightarrow> nat list \<Rightarrow> nat list" where
  "path_after_merge p q = (if strict_prefix p q then p @ drop (Suc (length p)) q else q)"

text \<open>The path to a node after child \<open>i\<close> of the node at \<open>p\<close> was removed.\<close>

definition path_after_remove :: "nat list \<Rightarrow> nat \<Rightarrow> nat list \<Rightarrow> nat list" where
  "path_after_remove p i q =
     (if strict_prefix p q \<and> i < q ! length p then q[length p := q ! length p - 1] else q)"

definition merge_node ::
  "('snap \<Rightarrow> int) \<Rightarrow> (nat \<Rightarrow> 'snap option \<Rightarrow> 'snap option \<Rightarrow> 'snap option) \<Rightarrow> nat list
   \<Rightarrow> 'snap trie_node \<Rightarrow> 'snap prefix_cache \<Rightarrow> 'snap prefix_cache option" where
  "merge_node size_of merge_snap p r c =
     (case update_at p (mergeWithChild size_of merge_snap (stateful c)) r (pagedOutBytes c) of
        None \<Rightarrow> None
      | Some (r', bytes) \<Rightarrow>
          Some (c\<lparr>root := Some r', activePath := path_after_merge p (activePath c), pagedOutBytes := bytes\<rparr>))"

text \<open>\<^verbatim>\<open>compactPath\<close>: the path to the parent is the active path without its last position.\<close>

definition compactPath ::
  "('snap \<Rightarrow> int) \<Rightarrow> (nat \<Rightarrow> 'snap option \<Rightarrow> 'snap option \<Rightarrow> 'snap option)
   \<Rightarrow> 'snap prefix_cache \<Rightarrow> 'snap prefix_cache option" where
  "compactPath size_of merge_snap c =
     (case root c of
        None \<Rightarrow> Some c
      | Some r \<Rightarrow>
          if activePath c = [] then Some c
          else (let p = butlast (activePath c)
                in case node_at p r of
                     None \<Rightarrow> None
                   | Some parent \<Rightarrow>
                       if p = [] \<or> is_user parent \<or> length (children parent) \<noteq> 1 then Some c
                       else merge_node size_of merge_snap p r c))"

definition evictNode ::
  "('snap \<Rightarrow> int) \<Rightarrow> (nat \<Rightarrow> 'snap option \<Rightarrow> 'snap option \<Rightarrow> 'snap option)
   \<Rightarrow> nat list \<Rightarrow> 'snap trie_node \<Rightarrow> 'snap prefix_cache \<Rightarrow> 'snap prefix_cache option" where
  "evictNode size_of merge_snap p r c =
     (case node_at p r of
        None \<Rightarrow> None
      | Some node \<Rightarrow>
          if children node = []
          then (if p = [] then None
                else (case update_at (butlast p) (removeNode size_of (last p)) r (pagedOutBytes c) of
                        None \<Rightarrow> None
                      | Some (r', bytes) \<Rightarrow>
                          Some (c\<lparr>root := Some r', activePath := path_after_remove (butlast p) (last p) (activePath c),
                                 pagedOutBytes := bytes\<rparr>)))
          else if length (children node) = 1 then merge_node size_of merge_snap p r c
          else None)"

text \<open>\<^verbatim>\<open>walkNodes\<close>: depth first, until the function says no.\<close>

fun walk_node ::
    "(nat list \<Rightarrow> 'snap trie_node \<Rightarrow> 's \<Rightarrow> bool \<times> 's) \<Rightarrow> nat list \<Rightarrow> 'snap trie_node \<Rightarrow> 's \<Rightarrow> bool \<times> 's"
  and walk_children ::
    "(nat list \<Rightarrow> 'snap trie_node \<Rightarrow> 's \<Rightarrow> bool \<times> 's) \<Rightarrow> nat list \<Rightarrow> nat \<Rightarrow> 'snap trie_node list \<Rightarrow> 's \<Rightarrow> bool \<times> 's"
where
  "walk_node fn p (TrieNode e off used sn u cs) s =
     (let (ok, s') = fn p (TrieNode e off used sn u cs) s
      in if \<not> ok then (False, s') else walk_children fn p 0 cs s')"
| "walk_children fn p i [] s = (True, s)"
| "walk_children fn p i (child # cs) s =
     (let (ok, s') = walk_node fn (p @ [i]) child s
      in if \<not> ok then (False, s') else walk_children fn p (Suc i) cs s')"

definition walkNodes ::
  "'snap trie_node option \<Rightarrow> (nat list \<Rightarrow> 'snap trie_node \<Rightarrow> 's \<Rightarrow> bool \<times> 's) \<Rightarrow> 's \<Rightarrow> 's" where
  "walkNodes r fn s = (case r of None \<Rightarrow> s | Some t \<Rightarrow> snd (walk_node fn [] t s))"

text \<open>Evict: oldest, then deepest, then largest.\<close>

definition evict_before :: "('snap \<Rightarrow> int) \<Rightarrow> 'snap trie_node \<Rightarrow> 'snap trie_node \<Rightarrow> bool" where
  "evict_before size_of n best \<longleftrightarrow>
     lastUsed n < lastUsed best \<or>
     (lastUsed n = lastUsed best \<and>
        (endOffset best < endOffset n \<or>
         (endOffset best = endOffset n \<and> snapshotBytes size_of best < snapshotBytes size_of n)))"

definition evictable :: "nat list \<Rightarrow> nat list \<Rightarrow> 'snap trie_node \<Rightarrow> bool" where
  "evictable frontier p n \<longleftrightarrow> p \<noteq> [] \<and> p \<noteq> frontier \<and> length (children n) \<le> 1"

definition consider_evict ::
  "('snap \<Rightarrow> int) \<Rightarrow> nat list \<Rightarrow> nat list \<Rightarrow> 'snap trie_node \<Rightarrow> (nat list \<times> 'snap trie_node) option
   \<Rightarrow> bool \<times> (nat list \<times> 'snap trie_node) option" where
  "consider_evict size_of frontier p n best =
     (if \<not> evictable frontier p n then (True, best)
      else (case best of
              None \<Rightarrow> (True, Some (p, n))
            | Some (q, b) \<Rightarrow> if evict_before size_of n b then (True, Some (p, n)) else (True, best)))"

fun node_count :: "'snap trie_node \<Rightarrow> nat" where
  "node_count (TrieNode e off used sn u cs) = Suc (sum_list (map node_count cs))"

section \<open>The nodes of a trie\<close>

fun all_nodes :: "nat list \<Rightarrow> 'snap trie_node \<Rightarrow> (nat list \<times> 'snap trie_node) list"
  and all_nodes_below :: "nat list \<Rightarrow> nat \<Rightarrow> 'snap trie_node list \<Rightarrow> (nat list \<times> 'snap trie_node) list"
where
  "all_nodes p (TrieNode e off used sn u cs) = (p, TrieNode e off used sn u cs) # all_nodes_below p 0 cs"
| "all_nodes_below p i [] = []"
| "all_nodes_below p i (child # cs) = all_nodes (p @ [i]) child @ all_nodes_below p (Suc i) cs"

lemma walk_all:
  "walk_node (\<lambda>p n s. (True, g p n s)) p t s = (True, foldl (\<lambda>s (q, n). g q n s) s (all_nodes p t))"
  "walk_children (\<lambda>p n s. (True, g p n s)) p i cs s = (True, foldl (\<lambda>s (q, n). g q n s) s (all_nodes_below p i cs))"
  by (induction p t and p i cs arbitrary: s and s rule: all_nodes_all_nodes_below.induct) simp_all

lemma all_nodes_iff:
  "(q, n) \<in> set (all_nodes p t) \<longleftrightarrow> (\<exists>r. q = p @ r \<and> node_at r t = Some n)"
  "(q, n) \<in> set (all_nodes_below p i cs) \<longleftrightarrow>
     (\<exists>j r. q = p @ (i + j) # r \<and> j < length cs \<and> node_at r (cs ! j) = Some n)"
proof (induction p t and p i cs rule: all_nodes_all_nodes_below.induct)
  case (1 p e off used sn u cs)
  let ?t = "TrieNode e off used sn u cs"
  show ?case
  proof
    assume "(q, n) \<in> set (all_nodes p ?t)"
    then consider "q = p" "n = ?t" | "(q, n) \<in> set (all_nodes_below p 0 cs)" by auto
    then show "\<exists>r. q = p @ r \<and> node_at r ?t = Some n"
    proof cases
      case 1
      then show ?thesis by (intro exI[of _ "[]"]) simp
    next
      case 2
      with "1.IH" obtain j r where "q = p @ j # r" "j < length cs" "node_at r (cs ! j) = Some n" by auto
      then show ?thesis by (intro exI[of _ "j # r"]) simp
    qed
  next
    assume "\<exists>r. q = p @ r \<and> node_at r ?t = Some n"
    then obtain r where r: "q = p @ r" "node_at r ?t = Some n" by blast
    then show "(q, n) \<in> set (all_nodes p ?t)"
      using "1.IH" by (cases r) (auto split: if_splits)
  qed
next
  case (2 p i)
  then show ?case by simp
next
  case (3 p i child cs)
  show ?case
  proof
    assume "(q, n) \<in> set (all_nodes_below p i (child # cs))"
    then consider "(q, n) \<in> set (all_nodes (p @ [i]) child)" | "(q, n) \<in> set (all_nodes_below p (Suc i) cs)" by auto
    then show "\<exists>j r. q = p @ (i + j) # r \<and> j < length (child # cs) \<and> node_at r ((child # cs) ! j) = Some n"
    proof cases
      case 1
      with "3.IH"(1) obtain r where "q = p @ i # r" "node_at r child = Some n" by auto
      then show ?thesis by (intro exI[of _ 0] exI[of _ r]) simp
    next
      case 2
      with "3.IH"(2) obtain j r where "q = p @ (Suc i + j) # r" "j < length cs" "node_at r (cs ! j) = Some n" by blast
      then show ?thesis by (intro exI[of _ "Suc j"] exI[of _ r]) simp
    qed
  next
    assume "\<exists>j r. q = p @ (i + j) # r \<and> j < length (child # cs) \<and> node_at r ((child # cs) ! j) = Some n"
    then obtain j r where j: "q = p @ (i + j) # r" "j < length (child # cs)" "node_at r ((child # cs) ! j) = Some n"
      by blast
    show "(q, n) \<in> set (all_nodes_below p i (child # cs))"
    proof (cases j)
      case 0
      with j "3.IH"(1) show ?thesis by auto
    next
      case (Suc j')
      then have "q = p @ (Suc i + j') # r \<and> j' < length cs \<and> node_at r (cs ! j') = Some n" using j by simp
      then have "(q, n) \<in> set (all_nodes_below p (Suc i) cs)" using "3.IH"(2) by blast
      then show ?thesis by simp
    qed
  qed
qed

text \<open>The node to evict is an evictable one, if there is any.\<close>

lemma eviction_candidate:
  assumes "walkNodes (Some r) (consider_evict size_of frontier) None = best"
  shows "best = None \<Longrightarrow> node_at p r = Some n \<Longrightarrow> \<not> evictable frontier p n"
    and "best = Some (p, n) \<Longrightarrow> node_at p r = Some n \<and> evictable frontier p n"
proof -
  let ?g = "\<lambda>p n s. snd (consider_evict size_of frontier p n s)"
  have "consider_evict size_of frontier = (\<lambda>p n s. (True, ?g p n s))"
    by (intro ext) (auto simp: consider_evict_def split: option.split)
  then have best: "best = foldl (\<lambda>s (q, n). ?g q n s) None (all_nodes [] r)"
    using walk_all(1)[of ?g "[]" r None] assms by (simp add: walkNodes_def)
  have *: "(foldl (\<lambda>s (q, n). ?g q n s) s xs = None \<longleftrightarrow> s = None \<and> (\<forall>(q, n) \<in> set xs. \<not> evictable frontier q n)) \<and>
      (\<forall>pn. foldl (\<lambda>s (q, n). ?g q n s) s xs = Some pn \<longrightarrow>
         s = Some pn \<or> (pn \<in> set xs \<and> evictable frontier (fst pn) (snd pn)))" for s xs
  proof (induction xs arbitrary: s)
    case (Cons x xs)
    obtain q m where x: "x = (q, m)" by (cases x)
    have g: "(?g q m s = None \<longleftrightarrow> s = None \<and> \<not> evictable frontier q m) \<and>
        (\<forall>pn. ?g q m s = Some pn \<longrightarrow> s = Some pn \<or> (pn = (q, m) \<and> evictable frontier q m))"
      by (auto simp: consider_evict_def split: option.splits)
    show ?case using Cons.IH[of "?g q m s"] g unfolding x by (simp del: split_paired_All) auto
  qed auto
  show "best = None \<Longrightarrow> node_at p r = Some n \<Longrightarrow> \<not> evictable frontier p n"
    using *[of None "all_nodes [] r"] all_nodes_iff(1)[of p n "[]" r] unfolding best by fastforce
  show "best = Some (p, n) \<Longrightarrow> node_at p r = Some n \<and> evictable frontier p n"
    using *[of None "all_nodes [] r"] all_nodes_iff(1)[of p n "[]" r] unfolding best by fastforce
qed

section \<open>Eviction ends\<close>

lemma node_count_children: "node_count t = Suc (sum_list (map node_count (children t)))"
  by (cases t) simp

lemma update_at_fewer:
  assumes "\<And>n n' c'. f n c = Some (n', c') \<Longrightarrow> node_count n' < node_count n"
    and "update_at p f t c = Some (t', c')"
  shows "node_count t' < node_count t"
  using assms(2)
proof (induction p arbitrary: t t')
  case Nil
  with assms(1) show ?case by simp
next
  case (Cons i p)
  then obtain ch where i: "i < length (children t)" and u: "update_at p f (children t ! i) c = Some (ch, c')"
    and t': "t' = set_children ((children t)[i := ch]) t"
    by (auto split: if_splits option.splits)
  have "sum_list (map node_count ((children t)[i := ch])) < sum_list (map node_count (children t))"
    using sum_list_update[of i "map node_count (children t)" "node_count ch"] Cons.IH[OF u] i
      elem_le_sum_list[of i "map node_count (children t)"]
    by (simp add: map_update)
  moreover have "children t' = (children t)[i := ch]" by (simp add: t')
  ultimately show ?case unfolding node_count_children[of t'] node_count_children[of t] by simp
qed

lemma merge_fewer: "mergeWithChild size_of merge_snap sf n c = Some (n', c') \<Longrightarrow> node_count n' < node_count n"
  by (erule mergeWithChild_shape) (simp add: node_count_children[of n] node_count_children[of n'] node_count_children)

lemma remove_fewer: "removeNode size_of i n c = Some (n', c') \<Longrightarrow> node_count n' < node_count n"
proof -
  assume "removeNode size_of i n c = Some (n', c')"
  then have i: "i < length (children n)" and n': "children n' = take i (children n) @ drop (Suc i) (children n)"
    by (auto simp: removeNode_def swapSnapshots_eq split: if_splits)
  have "sum_list (map node_count (children n)) =
      sum_list (map node_count (children n')) + node_count (children n ! i)"
    unfolding n' by (subst id_take_nth_drop[OF i]) simp
  then show ?thesis
    by (simp add: node_count_children[of n] node_count_children[of n'] node_count_children[of "children n ! i"])
qed

definition cache_nodes :: "'snap prefix_cache \<Rightarrow> nat" where
  "cache_nodes c = (case root c of None \<Rightarrow> 0 | Some r \<Rightarrow> node_count r)"

lemma evictNode_fewer:
  assumes "evictNode size_of merge_snap p r c = Some c'" and "root c = Some r"
  shows "cache_nodes c' < cache_nodes c"
  using assms update_at_fewer[OF merge_fewer] update_at_fewer[OF remove_fewer]
  by (auto simp: evictNode_def merge_node_def cache_nodes_def split: option.splits if_splits prod.splits)

function enforceEvictionPolicy ::
  "('snap \<Rightarrow> int) \<Rightarrow> (nat \<Rightarrow> 'snap option \<Rightarrow> 'snap option \<Rightarrow> 'snap option)
   \<Rightarrow> 'snap prefix_cache \<Rightarrow> 'snap prefix_cache option" where
  "enforceEvictionPolicy size_of merge_snap c =
     (if pagedOutBytes c \<le> maxPagedOutBytes then Some c
      else (case root c of
              None \<Rightarrow> None
            | Some r \<Rightarrow>
                (case walkNodes (Some r) (consider_evict size_of (activePath c)) None of
                   None \<Rightarrow> Some c
                 | Some (p, n) \<Rightarrow>
                     (case evictNode size_of merge_snap p r c of
                        None \<Rightarrow> None
                      | Some c' \<Rightarrow> enforceEvictionPolicy size_of merge_snap c'))))"
  by pat_completeness auto
termination
  by (relation "measure (\<lambda>(size_of, merge_snap, c). cache_nodes c)") (auto dest: evictNode_fewer)

declare enforceEvictionPolicy.simps [simp del]

section \<open>Paths\<close>

lemma path_defined: "path_tokens p t = None \<longleftrightarrow> node_at p t = None"
  by (induction p t rule: path_tokens.induct) auto

lemma node_at_append: "node_at (p @ q) t = (case node_at p t of None \<Rightarrow> None | Some n \<Rightarrow> node_at q n)"
  by (induction p t rule: node_at.induct) auto

lemma update_at_defined:
  "node_at p t = Some n \<Longrightarrow> f n c \<noteq> None \<Longrightarrow> update_at p f t c \<noteq> None"
  by (induction p t rule: node_at.induct) (auto split: if_splits)

lemma node_at_layers: "node_at p t = Some n \<Longrightarrow> layers_ok k t \<Longrightarrow> layers_ok k n"
proof (induction p t rule: node_at.induct)
  case (2 i p t)
  then show ?case using nth_mem[of i "children t"] by (auto simp: layers_ok_children[of k t] split: if_splits)
qed simp

lemma node_at_wf: "node_at p t = Some n \<Longrightarrow> wf_trie t \<Longrightarrow> wf_trie n"
proof (induction p t rule: node_at.induct)
  case (2 i p t)
  then show ?case using wf_childD(2)[of t "children t ! i"] by (auto split: if_splits)
qed simp

lemma path_after_merge_Cons:
  "path_after_merge (i # p) (j # q) = (if i = j then i # path_after_merge p q else j # q)"
  by (auto simp: path_after_merge_def)

lemma path_after_merge_Nil [simp]: "path_after_merge p [] = []" "path_after_merge [] (j # q) = q"
  by (auto simp: path_after_merge_def)

lemma path_tokens_merge:
  assumes "update_at p (mergeWithChild size_of merge_snap sf) t c = Some (t', c')" and "q \<noteq> p"
    and "path_tokens q t \<noteq> None"
  shows "map_option ((@) (edge t')) (path_tokens (path_after_merge p q) t') =
    map_option ((@) (edge t)) (path_tokens q t)"
  using assms
proof (induction p arbitrary: t t' q)
  case Nil
  then have m: "mergeWithChild size_of merge_snap sf t c = Some (t', c')" by simp
  obtain child where ch: "children t = [child]" "edge t' = edge t @ edge child" "children t' = children child"
    using mergeWithChild_shape[OF m] by metis
  obtain i r where q: "q = i # r" using Nil.prems(2) by (cases q) auto
  then have "i = 0" using Nil.prems(3) ch(1) by (auto split: if_splits)
  moreover have "path_tokens r t' = path_tokens r child" using ch(3) by (cases r) simp_all
  ultimately show ?case using ch q by (simp add: option.map_comp comp_def)
next
  case (Cons i p)
  from Cons.prems(1) obtain ch where i: "i < length (children t)"
    and u: "update_at p (mergeWithChild size_of merge_snap sf) (children t ! i) c = Some (ch, c')"
    and t': "t' = set_children ((children t)[i := ch]) t"
    by (auto split: if_splits option.splits)
  show ?case
  proof (cases q)
    case q: (Cons j r)
    show ?thesis
    proof (cases "i = j")
      case True
      with Cons.prems(2,3) q i have "r \<noteq> p" "path_tokens r (children t ! i) \<noteq> None" by auto
      from Cons.IH[OF u this] True show ?thesis using q i by (simp add: t' path_after_merge_Cons)
    next
      case False
      with q show ?thesis by (simp add: t' path_after_merge_Cons)
    qed
  qed (simp add: t')
qed

lemma path_after_remove_Cons:
  "path_after_remove (i # p) k (j # q) = (if i = j then i # path_after_remove p k q else j # q)"
  by (auto simp: path_after_remove_def)

lemma path_after_remove_Nil [simp]:
  "path_after_remove p k [] = []" "path_after_remove [] k (j # q) = (if k < j then (j - 1) # q else j # q)"
  by (auto simp: path_after_remove_def)

lemma path_tokens_remove:
  assumes "update_at p (removeNode size_of k) t c = Some (t', c')" and "q \<noteq> p @ [k]"
    and "path_tokens q t \<noteq> None"
  shows "path_tokens (path_after_remove p k q) t' = path_tokens q t"
  using assms
proof (induction p arbitrary: t t' q)
  case Nil
  then have k: "k < length (children t)" "children (children t ! k) = []"
    and t': "children t' = take k (children t) @ drop (Suc k) (children t)"
    by (auto simp: removeNode_def swapSnapshots_eq split: if_splits)
  show ?case
  proof (cases q)
    case (Cons j r)
    then have j: "j < length (children t)" "path_tokens r (children t ! j) \<noteq> None"
      using Nil.prems(3) by (auto split: if_splits)
    have "j \<noteq> k"
    proof
      assume "j = k"
      with j(2) k(2) have "r = []" by (cases r) auto
      with \<open>j = k\<close> Cons Nil.prems(2) show False by simp
    qed
    with Cons j(1) k(1) show ?thesis by (auto simp: t' nth_append min_def)
  qed simp
next
  case (Cons i p)
  from Cons.prems(1) obtain ch where i: "i < length (children t)"
    and u: "update_at p (removeNode size_of k) (children t ! i) c = Some (ch, c')"
    and t': "t' = set_children ((children t)[i := ch]) t"
    by (auto split: if_splits option.splits)
  have "edge ch = edge (children t ! i)"
  proof (cases p)
    case Nil
    with u show ?thesis by (auto simp: removeNode_def swapSnapshots_eq split: if_splits)
  qed (use u in \<open>auto split: if_splits option.splits\<close>)
  then show ?case
    using Cons.IH[OF u] Cons.prems(2,3) i by (cases q) (auto simp: t' path_after_remove_Cons split: if_splits)
qed

section \<open>The invariant\<close>

text \<open>What is cached, and the tokens of the active path.\<close>

definition cached :: "'snap prefix_cache \<Rightarrow> trie_key list \<Rightarrow> bool" where
  "cached c xs = (case root c of None \<Rightarrow> False | Some r \<Rightarrow> covers r xs)"

definition active_tokens :: "'snap prefix_cache \<Rightarrow> trie_key list option" where
  "active_tokens c = (case root c of None \<Rightarrow> None | Some r \<Rightarrow> path_tokens (activePath c) r)"

text \<open>
  The trie is well formed, the active path is one of its paths, and the counter holds the
  bytes of the snapshots.
\<close>

definition trie_inv :: "('snap \<Rightarrow> int) \<Rightarrow> 'snap prefix_cache \<Rightarrow> bool" where
  "trie_inv size_of c =
     (case root c of
        None \<Rightarrow> activePath c = [] \<and> pagedOutBytes c = 0
      | Some r \<Rightarrow> edge r = [] \<and> endOffset r = 0 \<and> wf_trie r \<and> layers_ok (length (stateful c)) r \<and>
          node_at (activePath c) r \<noteq> None \<and> pagedOutBytes c = total_bytes size_of r)"

lemma trie_inv_new: "trie_inv size_of (newPrefixCache caches)"
  by (simp add: trie_inv_def newPrefixCache_def)

lemma trie_inv_ensureRoot: "trie_inv size_of c \<Longrightarrow> trie_inv size_of (ensureRoot now c)"
  by (auto simp: trie_inv_def ensureRoot_def snapshotBytes_def split: option.splits)

lemma merge_node_ok:
  assumes inv: "trie_inv size_of c" and r: "root c = Some r" and n: "node_at p r = Some n" and p: "p \<noteq> []"
    and one: "length (children n) = 1" and q: "activePath c \<noteq> p"
  shows "\<exists>c'. merge_node size_of merge_snap p r c = Some c' \<and> trie_inv size_of c' \<and>
    active_tokens c' = active_tokens c \<and> (\<forall>xs. cached c' xs \<longleftrightarrow> cached c xs)"
proof -
  let ?k = "length (stateful c)" and ?f = "mergeWithChild size_of merge_snap (stateful c)"
  have I: "edge r = []" "endOffset r = 0" "wf_trie r" "layers_ok ?k r" "node_at (activePath c) r \<noteq> None"
    "pagedOutBytes c = total_bytes size_of r"
    using inv r by (simp_all add: trie_inv_def)
  have "?f n (pagedOutBytes c) \<noteq> None"
    using mergeWithChild_panics_iff[OF node_at_layers[OF n I(4)]] one by blast
  then obtain r' bytes where u: "update_at p ?f r (pagedOutBytes c) = Some (r', bytes)"
    using update_at_defined[where f = ?f, OF n] by (metis not_None_eq surj_pair)
  have "changed_below (=) size_of ?k r (pagedOutBytes c) r' bytes"
    by (rule update_at_changed(2)[OF _ merge_changed I(3) u p]) (simp_all add: reading_relation_def)
  then have C: "edge r' = []" "endOffset r' = 0" "wf_trie r'" "layers_ok ?k r'"
    "bytes = total_bytes size_of r'" "\<And>xs. covers r' xs = covers r xs"
    using I by (auto simp: changed_below_def)
  let ?q = "path_after_merge p (activePath c)"
  have "path_tokens ?q r' = path_tokens (activePath c) r"
    using path_tokens_merge[OF u q] I(1,5) C(1) path_defined[of "activePath c" r]
    by (simp add: option.map_ident append_Nil[abs_def])
  moreover from this have "node_at ?q r' \<noteq> None" using I(5) path_defined by metis
  ultimately show ?thesis using C u r
    by (auto simp: merge_node_def trie_inv_def active_tokens_def cached_def)
qed

lemma remove_leaf_ok:
  assumes inv: "trie_inv size_of c" and r: "root c = Some r" and n: "node_at p r = Some n" and p: "p \<noteq> []"
    and leaf: "children n = []" and q: "activePath c \<noteq> p"
  shows "\<exists>c'. evictNode size_of merge_snap p r c = Some c' \<and> trie_inv size_of c' \<and>
    active_tokens c' = active_tokens c \<and> (\<forall>xs. cached c' xs \<longrightarrow> cached c xs) \<and> stateful c' = stateful c"
proof -
  let ?k = "length (stateful c)" and ?f = "removeNode size_of (last p)"
  have I: "edge r = []" "endOffset r = 0" "wf_trie r" "layers_ok ?k r" "node_at (activePath c) r \<noteq> None"
    "pagedOutBytes c = total_bytes size_of r"
    using inv r by (simp_all add: trie_inv_def)
  have p': "p = butlast p @ [last p]" using p by simp
  obtain m where m: "node_at (butlast p) r = Some m" "last p < length (children m)" "children m ! last p = n"
    using n unfolding node_at_append[of "butlast p" "[last p]", unfolded append_butlast_last_id[OF p]]
    by (auto split: option.splits if_splits)
  then have "?f m (pagedOutBytes c) \<noteq> None" using leaf by (simp add: removeNode_def swapSnapshots_eq)
  then obtain r' bytes where u: "update_at (butlast p) ?f r (pagedOutBytes c) = Some (r', bytes)"
    using update_at_defined[where f = ?f, OF m(1)] by (metis not_None_eq surj_pair)
  have below: "changed_below (\<longrightarrow>) size_of ?k r (pagedOutBytes c) r' bytes"
  proof (cases "butlast p = []")
    case True
    with u removeNode_changed[OF I(3)] show ?thesis by simp
  next
    case False
    have R: "reading_relation (\<longrightarrow>)" by (simp add: reading_relation_def)
    have "changed (\<longrightarrow>) size_of ?k a (pagedOutBytes c) a' b"
      if "wf_trie a" "?f a (pagedOutBytes c) = Some (a', b)" for a a' b
      by (rule changed_belowI[OF R removeNode_changed[OF that]])
    then show ?thesis by (intro update_at_changed(2)[OF R _ I(3) u False])
  qed
  then have C: "edge r' = []" "endOffset r' = 0" "wf_trie r'" "layers_ok ?k r'"
    "bytes = total_bytes size_of r'" "\<And>xs. covers r' xs \<longrightarrow> covers r xs"
    using I by (auto simp: changed_below_def)
  let ?q = "path_after_remove (butlast p) (last p) (activePath c)"
  have "path_tokens ?q r' = path_tokens (activePath c) r"
    using path_tokens_remove[OF u] I(5) q p' path_defined by metis
  moreover from this have "node_at ?q r' \<noteq> None" using I(5) path_defined by metis
  ultimately show ?thesis using C u r n p leaf
    by (auto simp: evictNode_def trie_inv_def active_tokens_def cached_def)
qed

lemma merge_node_stateful: "merge_node size_of merge_snap p r c = Some c' \<Longrightarrow> stateful c' = stateful c"
  by (auto simp: merge_node_def split: option.splits)

lemma evictNode_ok:
  assumes "trie_inv size_of c" and "root c = Some r" and "node_at p r = Some n" and "evictable (activePath c) p n"
  shows "\<exists>c'. evictNode size_of merge_snap p r c = Some c' \<and> trie_inv size_of c' \<and>
    active_tokens c' = active_tokens c \<and> (\<forall>xs. cached c' xs \<longrightarrow> cached c xs) \<and> stateful c' = stateful c"
proof (cases "children n = []")
  case True
  with remove_leaf_ok[OF assms(1-3)] assms(4) show ?thesis by (auto simp: evictable_def)
next
  case False
  then have one: "length (children n) = 1" "p \<noteq> []" "activePath c \<noteq> p"
    using assms(4) by (cases "children n"; auto simp: evictable_def)+
  then have "evictNode size_of merge_snap p r c = merge_node size_of merge_snap p r c"
    using assms(3) False by (simp add: evictNode_def)
  with merge_node_ok[OF assms(1-3) one(2,1,3), of merge_snap] merge_node_stateful show ?thesis by metis
qed

text \<open>Nothing more can be evicted.\<close>

definition none_evictable :: "'snap prefix_cache \<Rightarrow> bool" where
  "none_evictable c = (case root c of None \<Rightarrow> True | Some r \<Rightarrow>
     list_all (\<lambda>(p, n). \<not> evictable (activePath c) p n) (all_nodes [] r))"

lemma eviction_ok:
  assumes "trie_inv size_of c"
  shows "\<exists>c'. enforceEvictionPolicy size_of merge_snap c = Some c' \<and> trie_inv size_of c' \<and>
    active_tokens c' = active_tokens c \<and> (\<forall>xs. cached c' xs \<longrightarrow> cached c xs) \<and>
    (pagedOutBytes c' \<le> maxPagedOutBytes \<or> none_evictable c')"
  using assms
proof (induction size_of merge_snap c rule: enforceEvictionPolicy.induct)
  case (1 size_of merge_snap c)
  show ?case
  proof (cases "pagedOutBytes c \<le> maxPagedOutBytes")
    case True
    with 1(2) show ?thesis by (simp add: enforceEvictionPolicy.simps[of _ _ c])
  next
    case over: False
    then obtain r where r: "root c = Some r"
      using 1(2) by (cases "root c") (simp_all add: trie_inv_def maxPagedOutBytes_def)
    show ?thesis
    proof (cases "walkNodes (Some r) (consider_evict size_of (activePath c)) None")
      case None
      then have "none_evictable c"
        using eviction_candidate(1)[OF None refl] r all_nodes_iff(1)[of _ _ "[]" r]
        by (auto simp: none_evictable_def list_all_iff)
      with None over r 1(2) show ?thesis by (simp add: enforceEvictionPolicy.simps[of _ _ c])
    next
      case (Some b)
      obtain p n where b: "b = (p, n)" by fastforce
      note e = eviction_candidate(2)[OF Some b[THEN arg_cong[where f = Some]]]
      obtain c' where c': "evictNode size_of merge_snap p r c = Some c'" "trie_inv size_of c'"
        "active_tokens c' = active_tokens c" "\<forall>xs. cached c' xs \<longrightarrow> cached c xs"
        using evictNode_ok[OF 1(2) r] e by blast
      have "enforceEvictionPolicy size_of merge_snap c = enforceEvictionPolicy size_of merge_snap c'"
        using over r Some b c'(1) by (simp add: enforceEvictionPolicy.simps[of _ _ c])
      with 1(1)[OF over r Some b[symmetric] c'(1,2)] c'(3,4) show ?thesis by auto
    qed
  qed
qed

lemma compactPath_ok:
  assumes inv: "trie_inv size_of c"
  shows "\<exists>c'. compactPath size_of merge_snap c = Some c' \<and> trie_inv size_of c' \<and>
    active_tokens c' = active_tokens c \<and> (\<forall>xs. cached c' xs \<longleftrightarrow> cached c xs)"
proof (cases "root c")
  case None
  with inv show ?thesis by (simp add: compactPath_def)
next
  case r: (Some r)
  show ?thesis
  proof (cases "activePath c = []")
    case True
    with r inv show ?thesis by (simp add: compactPath_def)
  next
    case False
    let ?p = "butlast (activePath c)"
    have "node_at (?p @ [last (activePath c)]) r \<noteq> None" using inv r False by (simp add: trie_inv_def)
    then obtain parent where parent: "node_at ?p r = Some parent"
      by (auto simp: node_at_append split: option.splits)
    show ?thesis
    proof (cases "?p = [] \<or> is_user parent \<or> length (children parent) \<noteq> 1")
      case True
      with r parent False inv show ?thesis by (simp add: compactPath_def)
    next
      case keep: False
      have "activePath c \<noteq> ?p" using False by (metis append_butlast_last_id not_Cons_self2 append_self_conv)
      with merge_node_ok[OF inv r parent, of merge_snap] keep
      obtain c' where "merge_node size_of merge_snap ?p r c = Some c' \<and> trie_inv size_of c' \<and>
        active_tokens c' = active_tokens c \<and> (\<forall>xs. cached c' xs \<longleftrightarrow> cached c xs)" by auto
      with r parent False keep show ?thesis by (simp add: compactPath_def)
    qed
  qed
qed

text \<open>An advance of the trie at the frontier is an advance of the whole trie.\<close>

lemma advance_lift:
  assumes "wf_trie t" and "layers_ok k t" and "node_at p t = Some n" and "path_tokens p t = Some w"
    and "advanced size_of k n toks off c n' c' q"
  shows "\<exists>t'. update_at p (\<lambda>_ _. Some (n', c')) t c = Some (t', c') \<and>
    advanced size_of k t (w @ toks) off c t' c' (p @ q)"
  using assms
proof (induction p arbitrary: t w)
  case Nil
  then show ?case by simp
next
  case (Cons i p)
  let ?c = "children t ! i"
  have i: "i < length (children t)" using Cons.prems(3) by (auto split: if_splits)
  obtain v where v: "path_tokens p ?c = Some v" "w = edge ?c @ v" using Cons.prems(4) i by auto
  have "layers_ok k ?c" using Cons.prems(2) i by (auto simp: layers_ok_children[of k t])
  then obtain ch where ch: "update_at p (\<lambda>_ _. Some (n', c')) ?c c = Some (ch, c')"
    "advanced size_of k ?c (v @ toks) off c ch c' (p @ q)"
    using Cons.IH[OF wf_childD(2)[OF Cons.prems(1)] _ _ v(1) Cons.prems(5)] i Cons.prems(3) by auto
  have "advanced size_of k t (w @ toks) off c (set_children ((children t)[i := ch]) t) c' (i # p @ q)"
    by (rule child_advanced[OF Cons.prems(1,2) i, of "length (edge ?c)"]) (use ch(2) in \<open>simp_all add: v(2)\<close>)
  with ch(1) i show ?case by simp
qed

lemma path_tokens_offset:
  "wf_trie t \<Longrightarrow> node_at p t = Some n \<Longrightarrow> path_tokens p t = Some w \<Longrightarrow> endOffset n = endOffset t + length w"
proof (induction p t arbitrary: w rule: node_at.induct)
  case (2 i p t)
  then have i: "i < length (children t)" by (auto split: if_splits)
  then obtain v where v: "path_tokens p (children t ! i) = Some v" "w = edge (children t ! i) @ v"
    using 2(4) by auto
  have "placed_at (endOffset t) (children t ! i)" using wf_childD(1)[OF 2(2)] i by simp
  with 2 i v show ?case by (simp add: placed_at_def)
qed simp

lemma advancePath_ok:
  assumes inv: "trie_inv size_of c" and w: "active_tokens c = Some w" and off: "off = length w + length toks"
  shows "\<exists>c'. advancePath size_of split_snap toks off c = Some c' \<and> trie_inv size_of c' \<and>
    active_tokens c' = Some (w @ toks) \<and> (\<forall>xs. cached c' xs \<longleftrightarrow> cached c xs \<or> prefix xs (w @ toks))"
proof -
  obtain r where r: "root c = Some r" and pw: "path_tokens (activePath c) r = Some w"
    using w by (auto simp: active_tokens_def split: option.splits)
  let ?k = "length (stateful c)"
  have I: "edge r = []" "endOffset r = 0" "wf_trie r" "layers_ok ?k r" "pagedOutBytes c = total_bytes size_of r"
    using inv r by (simp_all add: trie_inv_def)
  obtain n where n: "node_at (activePath c) r = Some n" using inv r by (auto simp: trie_inv_def)
  have "off = endOffset n + length toks" using path_tokens_offset[OF I(3) n pw] I(2) off by simp
  then obtain n' b q where A: "advance_frontier size_of split_snap (stateful c) n toks off (pagedOutBytes c) = Some (n', b, q)"
    "advanced size_of ?k n toks off (pagedOutBytes c) n' b q"
    using advance_frontier_ok[OF node_at_wf[OF n I(3)] node_at_layers[OF n I(4)]] by blast
  obtain r' where u: "update_at (activePath c) (\<lambda>_ _. Some (n', b)) r (pagedOutBytes c) = Some (r', b)"
    "advanced size_of ?k r (w @ toks) off (pagedOutBytes c) r' b (activePath c @ q)"
    using advance_lift[OF I(3,4) n pw A(2)] by blast
  from u(2) have "node_at (activePath c @ q) r' \<noteq> None" by (auto simp: advanced_def)
  with u r n A(1) I show ?thesis
    by (auto simp: advancePath_def trie_inv_def active_tokens_def cached_def advanced_def)
qed

section \<open>Properties\<close>

text \<open>
  \<^verbatim>\<open>findBestMatch\<close> returns the longest cached prefix of the tokens: the matched tokens can
  be read from the trie, and no longer prefix can.
\<close>

theorem best_match_longest:
  assumes "trie_inv size_of c" and "findBestMatch (root c) toks = (path, m)"
  shows "m \<le> length toks \<and> (root c \<noteq> None \<longrightarrow> cached c (take m toks)) \<and>
    (\<forall>k \<le> length toks. cached c (take k toks) \<longrightarrow> k \<le> m)"
proof (cases "root c")
  case None
  with assms(2) show ?thesis by (simp add: findBestMatch_def cached_def)
next
  case (Some r)
  then have "wf_trie r" "find_loop r toks = (path, m)" using assms by (simp_all add: trie_inv_def findBestMatch_def)
  from find_loop_longest[OF this] Some show ?thesis by (simp add: cached_def)
qed

text \<open>A trie with three nodes: \<open>[1, 2]\<close> with the children \<open>[3, 4]\<close> and \<open>[5]\<close>.\<close>

definition sample_trie :: "int trie_node" where
  "sample_trie = TrieNode [] 0 0 [] False
     [TrieNode [1, 2] 2 1 [Some 7] False
        [TrieNode [3, 4] 4 3 [Some 5000000000] False [], TrieNode [5] 3 2 [Some 9000000000] False []]]"

definition sample_cache :: "int prefix_cache" where
  "sample_cache = \<lparr>root = Some sample_trie, activePath = [0, 0], stateful = [True],
     pagedOutBytes = 14000000007, draftLookahead = 0\<rparr>"

lemma sample_inv: "trie_inv (\<lambda>x. x) sample_cache"
  by (simp add: trie_inv_def sample_cache_def sample_trie_def snapshotBytes_def)

theorem best_match_longest_witness:
  "cached sample_cache (take (snd (findBestMatch (root sample_cache) [1, 2, 3, 6])) [1, 2, 3, 6]) \<and>
   3 \<le> snd (findBestMatch (root sample_cache) [1, 2, 3, 6])"
proof -
  obtain path m where m: "findBestMatch (root sample_cache) [1, 2, 3, 6] = (path, m)" by fastforce
  have "cached sample_cache (take 3 [1, 2, 3, 6])" "root sample_cache \<noteq> None"
    by (simp_all add: cached_def sample_cache_def sample_trie_def)
  with best_match_longest[OF sample_inv m] m show ?thesis by auto
qed

text \<open>
  C8. Advancing the frontier refines the insertion of a token list into a prefix-closed set:
  it does not panic, keeps the invariant, caches exactly what was cached and the prefixes
  of the new active tokens, and makes these the active path.
\<close>

theorem advance_refines_insert:
  assumes "trie_inv size_of c" and "active_tokens c = Some w" and "off = length w + length toks"
  shows "\<exists>c'. advancePath size_of split_snap toks off c = Some c' \<and> trie_inv size_of c' \<and>
    active_tokens c' = Some (w @ toks) \<and> {xs. cached c' xs} = {xs. cached c xs} \<union> {xs. prefix xs (w @ toks)}"
  using advancePath_ok[OF assms, of split_snap] by (simp add: Un_def set_eq_iff)

theorem advance_refines_insert_witness:
  "\<exists>c'. advancePath (\<lambda>x. x) (\<lambda>i x off. (None, Some x)) [6] 5 sample_cache = Some c' \<and>
     cached c' [1, 2, 3, 4, 6] \<and> \<not> cached c' [1, 2, 6]"
proof -
  have "active_tokens sample_cache = Some [1, 2, 3, 4]"
    by (simp add: active_tokens_def sample_cache_def sample_trie_def)
  from advance_refines_insert[OF sample_inv this, of 5 "[6]" "\<lambda>i x off. (None, Some x)"]
  obtain c' where c': "advancePath (\<lambda>x. x) (\<lambda>i x off. (None, Some x)) [6] 5 sample_cache = Some c'"
    "{xs. cached c' xs} = {xs. cached sample_cache xs} \<union> {xs. prefix xs ([1, 2, 3, 4] @ [6])}" by auto
  have "\<not> cached sample_cache [1, 2, 6]" by (simp add: cached_def sample_cache_def sample_trie_def)
  with c' show ?thesis by (auto simp: set_eq_iff)
qed

text \<open>
  C29. Eviction ends without a panic, with the paged-out bytes within the limit or nothing
  left to evict; it keeps the invariant, so the counter stays exact, never adds to the
  cache, and the active path keeps its tokens.
\<close>

theorem eviction_within_limit:
  assumes "trie_inv size_of c"
  shows "\<exists>c'. enforceEvictionPolicy size_of merge_snap c = Some c' \<and> trie_inv size_of c' \<and>
    (pagedOutBytes c' \<le> maxPagedOutBytes \<or> none_evictable c') \<and>
    active_tokens c' = active_tokens c \<and> (\<forall>xs. cached c' xs \<longrightarrow> cached c xs)"
  using eviction_ok[OF assms, of merge_snap] by blast

theorem eviction_within_limit_witness:
  "\<exists>c'. enforceEvictionPolicy (\<lambda>x. x) (\<lambda>i a b. b) sample_cache = Some c' \<and>
     active_tokens c' = Some [1, 2, 3, 4]"
  using eviction_within_limit[OF sample_inv, of "\<lambda>i a b. b"]
  by (auto simp: active_tokens_def sample_cache_def sample_trie_def)

text \<open>
  Compacting the active path does not change what is cached nor the active tokens.
\<close>

theorem compact_keeps_cache:
  assumes "trie_inv size_of c"
  shows "\<exists>c'. compactPath size_of merge_snap c = Some c' \<and> trie_inv size_of c' \<and>
    active_tokens c' = active_tokens c \<and> (\<forall>xs. cached c' xs \<longleftrightarrow> cached c xs)"
  using compactPath_ok[OF assms] by blast

theorem compact_keeps_cache_witness:
  "\<exists>c'. compactPath (\<lambda>x. x) (\<lambda>i a b. b) sample_cache = Some c' \<and> cached c' [1, 2, 5]"
  using compact_keeps_cache[OF sample_inv, of "\<lambda>i a b. b"]
  by (auto simp: cached_def sample_cache_def sample_trie_def)

end
