(* ===== verification/PrefixSession.thy ===== *)
theory PrefixSession
  imports PrefixCache
begin

text \<open>
  A request at the prefix cache (\<^verbatim>\<open>mlxrunner/prefix_cache.go\<close>, \<^verbatim>\<open>mlxrunner/media.go\<close> and the
  prefill loop of \<^verbatim>\<open>mlxrunner/pipeline.go\<close>): the binding of media items, the trie keys, where a
  request resumes, where snapshots are scheduled, and how the prompt is cut into chunks.
\<close>

unbundle bit_operations_syntax

section \<open>Media items\<close>

type_synonym bytes = "8 word list"

text \<open>The fields of \<^verbatim>\<open>PreparedItem\<close> that are read, with the ranges as the model authored them.\<close>

record prepared_item =
  Range_start :: int
  Range_end :: int
  Source_segment :: int
  Dims :: "int list"
  Causal :: bool

record media_item =
  item_pos :: nat
  item_length :: nat
  item_fold :: "32 word"
  item_causal :: bool

datatype bind_error = InvalidRange int int | NonMediaSegment int | NoTokensProduced

definition atomic :: "media_item \<Rightarrow> bool" where
  "atomic item = (\<not> item_causal item)"

text \<open>\<^verbatim>\<open>hash/fnv\<close>, 64-bit FNV-1a, and the little-endian bytes of a 64-bit word.\<close>

definition fnv_step :: "64 word \<Rightarrow> 8 word \<Rightarrow> 64 word" where
  "fnv_step h b = (h XOR ucast b) * 0x100000001b3"

definition fnv1a :: "bytes \<Rightarrow> 64 word" where
  "fnv1a data = foldl fnv_step 0xcbf29ce484222325 data"

definition le_bytes :: "64 word \<Rightarrow> bytes" where
  "le_bytes w = map (\<lambda>i. ucast (drop_bit (8 * i) w)) [0..<8]"

definition foldValue :: "bytes \<Rightarrow> int list \<Rightarrow> 32 word" where
  "foldValue data dims =
     (let s = fnv1a (data @ concat (map (\<lambda>d. le_bytes (word_of_int d)) dims))
      in (ucast (drop_bit 32 s) XOR ucast s) OR push_bit 31 1)"

text \<open>
  \<^verbatim>\<open>bindItems\<close>: the loop with the end of the last range, the segments covered so far and the
  items so far; a text segment has no data.
\<close>

fun bind_loop ::
  "bytes option list \<Rightarrow> nat \<Rightarrow> prepared_item list \<Rightarrow> int \<Rightarrow> nat list \<Rightarrow> media_item list
   \<Rightarrow> bind_error + (nat list \<times> media_item list)" where
  "bind_loop segments token_count [] last_end covered items = Inr (covered, items)"
| "bind_loop segments token_count (it # its) last_end covered items =
     (let lo = Range_start it; hi = Range_end it; src = Source_segment it
      in if lo < last_end \<or> hi \<le> lo \<or> int token_count < hi then Inl (InvalidRange lo hi)
         else if src < 0 \<or> int (length segments) \<le> src \<or> segments ! nat src = None then Inl (NonMediaSegment src)
         else bind_loop segments token_count its hi (nat src # covered)
                (items @ [\<lparr>item_pos = nat lo, item_length = nat (hi - lo),
                          item_fold = foldValue (the (segments ! nat src)) (Dims it), item_causal = Causal it\<rparr>]))"

definition bindItems ::
  "bytes option list \<Rightarrow> nat \<Rightarrow> prepared_item list \<Rightarrow> bind_error + media_item list" where
  "bindItems segments token_count prepared =
     (case bind_loop segments token_count prepared 0 [] [] of
        Inl e \<Rightarrow> Inl e
      | Inr (covered, items) \<Rightarrow>
          if list_ex (\<lambda>i. segments ! i \<noteq> None \<and> i \<notin> set covered) [0..<length segments] then Inl NoTokensProduced
          else Inr items)"

definition strictly_inside :: "nat \<Rightarrow> media_item \<Rightarrow> bool" where
  "strictly_inside offset item \<longleftrightarrow> item_pos item < offset \<and> offset < item_pos item + item_length item"

fun insideAtomicItem :: "media_item list \<Rightarrow> nat \<Rightarrow> media_item option" where
  "insideAtomicItem [] offset = None"
| "insideAtomicItem (item # items) offset =
     (if atomic item \<and> strictly_inside offset item then Some item else insideAtomicItem items offset)"

section \<open>Keys\<close>

text \<open>Setting the positions \<open>pos\<close> to \<open>pos + n - 1\<close>; out of range the code panics.\<close>

definition fold_range :: "media_item \<Rightarrow> 32 word list \<Rightarrow> 32 word list option" where
  "fold_range item eff =
     (if length eff < item_pos item + item_length item \<and> 0 < item_length item then None
      else Some (map (\<lambda>i. if item_pos item \<le> i \<and> i < item_pos item + item_length item then item_fold item else eff ! i)
                   [0..<length eff]))"

fun fold_items :: "media_item list \<Rightarrow> 32 word list \<Rightarrow> 32 word list option" where
  "fold_items [] eff = Some eff"
| "fold_items (item # items) eff =
     (case fold_range item eff of None \<Rightarrow> None | Some eff' \<Rightarrow> fold_items items eff')"

definition effectiveKeyTokens :: "32 word list \<Rightarrow> media_item list \<Rightarrow> 32 word list option" where
  "effectiveKeyTokens tokens items = fold_items items tokens"

text \<open>\<^verbatim>\<open>key\<close>; it panics on a look-ahead beyond one.\<close>

definition cache_key :: "nat \<Rightarrow> 32 word list \<Rightarrow> trie_key list option" where
  "cache_key lookahead tokens =
     (if lookahead = 0 then Some (map ucast tokens)
      else if lookahead = 1
      then Some (map (\<lambda>i. push_bit 32 (ucast (tokens ! i)) OR ucast (tokens ! Suc i)) [0..<length tokens - 1])
      else None)"

definition storedKeys :: "nat \<Rightarrow> 32 word list \<Rightarrow> 32 word list \<Rightarrow> trie_key list option" where
  "storedKeys lookahead effInputs outputs = cache_key lookahead (effInputs @ outputs)"

section \<open>Where a request resumes\<close>

text \<open>The match of \<^verbatim>\<open>beginAt\<close>.\<close>

definition resume_match ::
  "'snap trie_node option \<Rightarrow> trie_key list \<Rightarrow> media_item list \<Rightarrow> nat \<Rightarrow> nat list \<times> nat" where
  "resume_match r keys items maxReuse =
     (let (path, matched) = findBestMatch r keys;
          (path', matched') = (if matched > maxReuse then findBestMatch r (take maxReuse keys) else (path, matched))
      in case insideAtomicItem items matched' of
           Some item \<Rightarrow> findBestMatch r (take (item_pos item) keys)
         | None \<Rightarrow> (path', matched'))"

text \<open>\<^verbatim>\<open>minCacheOffset\<close> on the offsets of the layers that have a cache.\<close>

definition minCacheOffset :: "nat option list \<Rightarrow> nat" where
  "minCacheOffset offsets =
     (case List.map_filter (\<lambda>x. x) offsets of [] \<Rightarrow> 0 | x # xs \<Rightarrow> foldl min x xs)"

record pending_snapshot =
  ps_offset :: int
  ps_user :: bool

definition schedule_one ::
  "media_item list \<Rightarrow> int \<Rightarrow> int \<Rightarrow> int \<Rightarrow> pending_snapshot list \<Rightarrow> int \<Rightarrow> pending_snapshot list" where
  "schedule_one items lookahead base input_len pending off0 =
     (let off1 = off0 - lookahead;
          off = (case (if 0 \<le> off1 then insideAtomicItem items (nat off1) else None) of
                   Some item \<Rightarrow> int (item_pos item + item_length item)
                 | None \<Rightarrow> off1)
      in if off \<le> base \<or> input_len < off then pending
         else if list_ex (\<lambda>p. ps_offset p = off) pending
         then (let i = length (takeWhile (\<lambda>p. ps_offset p \<noteq> off) pending)
               in pending[i := (pending ! i)\<lparr>ps_user := True\<rparr>])
         else pending @ [\<lparr>ps_offset = off, ps_user = True\<rparr>])"

definition schedulePrefillSnapshots ::
  "media_item list \<Rightarrow> int \<Rightarrow> int \<Rightarrow> int \<Rightarrow> pending_snapshot list \<Rightarrow> int list \<Rightarrow> pending_snapshot list" where
  "schedulePrefillSnapshots items lookahead base input_len pending offsets =
     sort_key ps_offset (foldl (schedule_one items lookahead base input_len) pending offsets)"

section \<open>Chunks\<close>

text \<open>\<^verbatim>\<open>extendChunk\<close>; \<open>None\<close> is the nil receiver of a text-only request.\<close>

fun extend_loop :: "nat \<Rightarrow> nat \<Rightarrow> nat \<Rightarrow> media_item list \<Rightarrow> nat" where
  "extend_loop input_len at n [] = n"
| "extend_loop input_len at n (item # items) =
     (if \<not> atomic item then extend_loop input_len at n items
      else if strictly_inside (at + n) item
      then (if item_pos item > at then item_pos item - at
            else min (item_pos item + item_length item) (input_len - 1) - at)
      else extend_loop input_len at n items)"

definition openMedia :: "media_item list \<Rightarrow> media_item list option" where
  "openMedia items = (if items = [] then None else Some items)"

definition extendChunk :: "media_item list option \<Rightarrow> nat \<Rightarrow> nat \<Rightarrow> nat \<Rightarrow> nat" where
  "extendChunk media input_len at n = (case media of None \<Rightarrow> n | Some items \<Rightarrow> extend_loop input_len at n items)"

text \<open>
  The positions and sizes of the prefill chunks, from the position the request resumes at;
  a chunk of no tokens would loop forever.
\<close>

function prefill_chunks :: "nat \<Rightarrow> media_item list option \<Rightarrow> nat \<Rightarrow> nat \<Rightarrow> (nat \<times> nat) list" where
  "prefill_chunks prefillChunk media input_len position =
     (if input_len - position \<le> 1 then []
      else (let n = extendChunk media input_len position (min prefillChunk (input_len - position - 1))
            in if n = 0 then [] else (position, n) # prefill_chunks prefillChunk media input_len (position + n)))"
  by pat_completeness auto
termination
  by (relation "measure (\<lambda>(prefillChunk, media, input_len, position). input_len - position)") auto

declare prefill_chunks.simps [simp del]

section \<open>Lemmas\<close>

text \<open>Bound items lie in order, apart from each other, and within the tokens.\<close>

fun items_apart :: "nat \<Rightarrow> media_item list \<Rightarrow> nat \<Rightarrow> bool" where
  "items_apart lo [] hi \<longleftrightarrow> lo \<le> hi"
| "items_apart lo (item # items) hi \<longleftrightarrow>
     lo \<le> item_pos item \<and> 0 < item_length item \<and> items_apart (item_pos item + item_length item) items hi"

lemma items_apart_le: "items_apart lo items hi \<Longrightarrow> lo \<le> hi"
  by (induction items arbitrary: lo) fastforce+

lemma items_apart_append:
  "items_apart lo (xs @ [x]) hi \<longleftrightarrow>
     items_apart lo xs (item_pos x) \<and> 0 < item_length x \<and> item_pos x + item_length x \<le> hi"
  by (induction xs arbitrary: lo) auto

lemma items_apart_member:
  "items_apart lo items hi \<Longrightarrow> item \<in> set items \<Longrightarrow>
     lo \<le> item_pos item \<and> item_pos item + item_length item \<le> hi \<and> 0 < item_length item"
proof (induction items arbitrary: lo)
  case (Cons x xs)
  then show ?case using items_apart_le[of "item_pos x + item_length x" xs hi] by fastforce
qed simp

lemma items_apart_disjoint:
  "items_apart lo items hi \<Longrightarrow> a \<in> set items \<Longrightarrow> b \<in> set items \<Longrightarrow>
     strictly_inside (item_pos a) b \<or> strictly_inside (item_pos a + item_length a) b \<Longrightarrow> False"
proof (induction items arbitrary: lo)
  case (Cons x xs)
  have later: "y \<in> set xs \<Longrightarrow> item_pos x + item_length x \<le> item_pos y" for y
    using items_apart_member[of "item_pos x + item_length x" xs hi y] Cons.prems(1) by simp
  have len: "y \<in> set xs \<Longrightarrow> 0 < item_length y" for y
    using items_apart_member[of "item_pos x + item_length x" xs hi y] Cons.prems(1) by simp
  show ?case using Cons.prems Cons.IH later len by (fastforce simp: strictly_inside_def)
qed simp

lemma bind_loop_apart:
  "bind_loop segments k its (int e) covered items = Inr (cov, items') \<Longrightarrow> items_apart 0 items e \<Longrightarrow> e \<le> k \<Longrightarrow>
     items_apart 0 items' k"
proof (induction its arbitrary: e covered items)
  case Nil
  moreover have "items_apart lo xs e \<Longrightarrow> items_apart lo xs k" for lo xs
    using Nil(3) by (induction xs arbitrary: lo) auto
  ultimately show ?case by simp
next
  case (Cons it its)
  let ?lo = "Range_start it" and ?hi = "Range_end it"
  have ok: "int e \<le> ?lo" "?lo < ?hi" "?hi \<le> int k"
    using Cons.prems(1) by (auto simp: Let_def split: if_splits)
  have apart: "items_apart lo xs e \<Longrightarrow> e \<le> e' \<Longrightarrow> items_apart lo xs e'" for lo xs e'
    by (induction xs arbitrary: lo) auto
  show ?case
  proof (rule Cons.IH)
    show "bind_loop segments k its (int (nat ?hi)) (nat (Source_segment it) # covered)
        (items @ [\<lparr>item_pos = nat ?lo, item_length = nat (?hi - ?lo),
          item_fold = foldValue (the (segments ! nat (Source_segment it))) (Dims it), item_causal = Causal it\<rparr>]) =
        Inr (cov, items')"
      using Cons.prems(1) ok by (auto simp: Let_def split: if_splits)
    show "items_apart 0 (items @ [\<lparr>item_pos = nat ?lo, item_length = nat (?hi - ?lo),
        item_fold = foldValue (the (segments ! nat (Source_segment it))) (Dims it), item_causal = Causal it\<rparr>]) (nat ?hi)"
      unfolding items_apart_append using ok apart[OF Cons.prems(2), of "nat ?lo"] by auto
    show "nat ?hi \<le> k" using ok by simp
  qed
qed

lemma bindItems_apart: "bindItems segments k its = Inr items \<Longrightarrow> items_apart 0 items k"
  using bind_loop_apart[of segments k its 0 "[]" "[]" _ items]
  by (auto simp: bindItems_def split: sum.splits prod.splits if_splits)

lemma insideAtomicItem_Some:
  "insideAtomicItem items offset = Some item \<Longrightarrow> item \<in> set items \<and> atomic item \<and> strictly_inside offset item"
  by (induction items) (auto split: if_splits)

lemma insideAtomicItem_None:
  "insideAtomicItem items offset = None \<longleftrightarrow> (\<forall>item \<in> set items. \<not> (atomic item \<and> strictly_inside offset item))"
  by (induction items) auto

lemma covers_prefix: "covers t xs \<Longrightarrow> prefix ys xs \<Longrightarrow> covers t ys"
proof (induction t xs arbitrary: ys rule: covers.induct)
  case (1 e off used sn u cs xs)
  show ?case
  proof (cases "ys = []")
    case False
    with 1(2,3) obtain c where c: "c \<in> set cs" "reads c xs" by (auto simp: reads_def)
    have "reads c ys"
    proof (cases "prefix xs (edge c)")
      case True
      with 1(3) show ?thesis unfolding reads_def by (meson prefix_order.trans)
    next
      case far: False
      then obtain zs where zs: "xs = edge c @ zs" "covers c zs" using c(2) unfolding reads_iff by blast
      show ?thesis
      proof (cases "prefix ys (edge c)")
        case False
        then obtain vs where vs: "ys = edge c @ vs" "prefix vs zs"
          using 1(3) unfolding zs(1) by (auto simp: prefix_append)
        have "covers c vs" by (rule 1(1)[OF c(1)]) (use zs vs(2) in simp_all)
        then show ?thesis by (simp add: vs(1))
      qed (simp add: reads_def)
    qed
    with c(1) show ?thesis by (auto simp: reads_def)
  qed simp
qed

lemma cached_take: "cached c (take m toks) \<Longrightarrow> k \<le> m \<Longrightarrow> cached c (take k toks)"
proof -
  assume "cached c (take m toks)" "k \<le> m"
  moreover from this have "prefix (take k toks) (take m toks)"
    using take_is_prefix[of k "take m toks"] by (simp add: min_absorb1)
  ultimately show ?thesis using covers_prefix by (auto simp: cached_def split: option.splits)
qed

lemma best_match_in_trie:
  assumes "trie_inv size_of c" and "root c \<noteq> None" and "findBestMatch (root c) toks = (path, m)"
  shows "m \<le> length toks" and "cached c (take m toks)"
    and "\<And>k. k \<le> length toks \<Longrightarrow> cached c (take k toks) \<Longrightarrow> k \<le> m"
proof -
  obtain r where r: "root c = Some r" "wf_trie r" "find_loop r toks = (path, m)"
    using assms by (auto simp: trie_inv_def findBestMatch_def)
  from find_loop_longest[OF r(2,3)] r(1)
  show "m \<le> length toks" "cached c (take m toks)"
    and "\<And>k. k \<le> length toks \<Longrightarrow> cached c (take k toks) \<Longrightarrow> k \<le> m"
    by (simp_all add: cached_def)
qed

lemma best_match_of_take:
  assumes inv: "trie_inv size_of c" "root c \<noteq> None" and m: "findBestMatch (root c) toks = (path, m)"
    and k: "k \<le> m" and f: "findBestMatch (root c) (take k toks) = (path', m')"
  shows "m' = k"
proof -
  have "cached c (take k toks)" using cached_take[OF best_match_in_trie(2)[OF inv m] k] .
  then have "k \<le> m'" using best_match_in_trie(3)[OF inv f, of k] best_match_in_trie(1)[OF inv m] k by simp
  moreover have "m' \<le> k" using best_match_in_trie(1)[OF inv f] by simp
  ultimately show ?thesis by simp
qed

section \<open>Properties\<close>

text \<open>
  C38. The match that \<^verbatim>\<open>beginAt\<close> settles on, before it switches the caches to
  it: on a trie with a root and with media items bound without error, it is a cached prefix of
  the keys, within the reuse limit, not strictly inside a non-causal media item, and no longer
  prefix is all of this. Where the request then resumes is decided by the caches
  (\<^verbatim>\<open>minCacheOffset\<close> after \<^verbatim>\<open>switchToPath\<close>), and is not part of this statement.
\<close>

theorem reuse_match_deepest:
  assumes "trie_inv size_of c" and "root c \<noteq> None" and "bindItems segments count prepared = Inr items"
    and "resume_match (root c) keys items maxReuse = (path, m)"
  shows "m \<le> maxReuse \<and> m \<le> length keys \<and> cached c (take m keys) \<and> insideAtomicItem items m = None \<and>
    (\<forall>k \<le> length keys. k \<le> maxReuse \<and> cached c (take k keys) \<and> insideAtomicItem items k = None \<longrightarrow> k \<le> m)"
proof -
  note inv = assms(1,2)
  note apart = bindItems_apart[OF assms(3)]
  obtain p0 m0 where m0: "findBestMatch (root c) keys = (p0, m0)" by fastforce
  obtain p1 m1 where m1: "(if m0 > maxReuse then findBestMatch (root c) (take maxReuse keys) else (p0, m0)) = (p1, m1)"
    by fastforce
  have m1': "m1 = min m0 maxReuse"
  proof (cases "m0 > maxReuse")
    case True
    then show ?thesis using best_match_of_take[OF inv m0, of maxReuse p1 m1] m1 by simp
  qed (use m1 in simp)
  have c1: "m1 \<le> length keys" "cached c (take m1 keys)" "m1 \<le> maxReuse"
    using m1' best_match_in_trie(1)[OF inv m0] cached_take[OF best_match_in_trie(2)[OF inv m0], of m1] by simp_all
  have top: "k \<le> m1" if "k \<le> length keys" "k \<le> maxReuse" "cached c (take k keys)" for k
    using best_match_in_trie(3)[OF inv m0, of k] that m1' by simp
  show ?thesis
  proof (cases "insideAtomicItem items m1")
    case None
    then have "m = m1" using assms(4) m0 m1 by (simp add: resume_match_def)
    with None c1 top show ?thesis by blast
  next
    case (Some item)
    then have f: "findBestMatch (root c) (take (item_pos item) keys) = (path, m)"
      using assms(4) m0 m1 by (simp add: resume_match_def)
    note item = insideAtomicItem_Some[OF Some]
    then have lt: "item_pos item < m1" "m1 < item_pos item + item_length item" by (simp_all add: strictly_inside_def)
    then have m: "m = item_pos item" using best_match_of_take[OF inv m0 _ f] m1' by simp
    have "insideAtomicItem items m = None"
      using items_apart_disjoint[OF apart] item unfolding insideAtomicItem_None m by blast
    moreover have "k \<le> m" if k: "k \<le> length keys" "k \<le> maxReuse \<and> cached c (take k keys) \<and> insideAtomicItem items k = None" for k
    proof (rule ccontr)
      assume "\<not> k \<le> m"
      then have "strictly_inside k item" using top[of k] k lt m by (simp add: strictly_inside_def)
      with item k(2) show False by (auto simp: insideAtomicItem_None)
    qed
    moreover have "cached c (take m keys)" using cached_take[OF c1(2)] lt m by simp
    ultimately show ?thesis using c1 lt m by simp
  qed
qed

theorem reuse_match_deepest_witness:
  "\<exists>path. resume_match (root sample_cache) [1, 2, 3, 4, 9]
     [\<lparr>item_pos = 1, item_length = 3, item_fold = foldValue [7] [], item_causal = False\<rparr>] 3 = (path, 1)"
proof -
  have b: "bindItems [None, Some [7]] 5 [\<lparr>Range_start = 1, Range_end = 4, Source_segment = 1, Dims = [], Causal = False\<rparr>] =
      Inr [\<lparr>item_pos = 1, item_length = 3, item_fold = foldValue [7] [], item_causal = False\<rparr>]"
    by (simp add: bindItems_def upt_rec)
  obtain path m where m: "resume_match (root sample_cache) [1, 2, 3, 4, 9]
     [\<lparr>item_pos = 1, item_length = 3, item_fold = foldValue [7] [], item_causal = False\<rparr>] 3 = (path, m)" by fastforce
  have "root sample_cache \<noteq> None" "cached sample_cache [1]"
    by (simp_all add: cached_def sample_cache_def sample_trie_def)
  with reuse_match_deepest[OF sample_inv _ b m]
  have "m \<le> 3" "1 \<le> m" "\<not> (1 < m \<and> m < 4)"
    by (auto simp: insideAtomicItem_None atomic_def strictly_inside_def dest!: spec[of _ 1])
  then show ?thesis using m by auto
qed

text \<open>Packing two tokens into a key.\<close>

lemma pack_inject:
  fixes a b a' b' :: "32 word"
  assumes "push_bit 32 (ucast a) OR ucast b = (push_bit 32 (ucast a') OR ucast b' :: 64 word)"
  shows "a = a' \<and> b = b'"
proof -
  have "a = ucast (drop_bit 32 (push_bit 32 (ucast a) OR ucast b :: 64 word))"
    and "b = ucast (push_bit 32 (ucast a) OR ucast b :: 64 word)" for a b :: "32 word"
    by (auto simp: bit_eq_iff bit_simps dest: bit_imp_le_length)
  with assms show ?thesis by metis
qed

text \<open>
  Matching \<open>k\<close> keys verifies \<open>k\<close> tokens and the look-ahead token after them: inputs whose
  first \<open>k\<close> keys agree agree in their first \<open>k + lookahead\<close> tokens.
\<close>

theorem matched_keys_verify_tokens:
  assumes "cache_key lookahead xs = Some ks" and "cache_key lookahead ys = Some ls"
    and "take k ks = take k ls" and "0 < k" and "k \<le> length ks" and "k \<le> length ls"
  shows "take (k + lookahead) xs = take (k + lookahead) ys"
proof (cases "lookahead = 0")
  case True
  with assms(1,2) have "ks = map ucast xs" "ls = map ucast ys" by (simp_all add: cache_key_def)
  with assms(3) have "map ucast (take k xs) = (map ucast (take k ys) :: 64 word list)" by (simp add: take_map)
  moreover have "inj (ucast :: 32 word \<Rightarrow> 64 word)" 
    by (rule inj_on_inverseI[of _ ucast]) (simp add: bit_eq_iff bit_simps)
  ultimately show ?thesis using True by (simp add: inj_map_eq_map)
next
  case False
  then have l: "lookahead = 1" using assms(1) by (auto simp: cache_key_def split: if_splits)
  let ?key = "\<lambda>t i. push_bit 32 (ucast (t ! i)) OR ucast (t ! Suc i) :: 64 word"
  have ks: "ks = map (?key xs) [0..<length xs - 1]" "ls = map (?key ys) [0..<length ys - 1]"
    using assms(1,2) l by (simp_all add: cache_key_def)
  have len: "k < length xs" "k < length ys" using assms(4-6) ks by simp_all
  have eq: "xs ! i = ys ! i \<and> xs ! Suc i = ys ! Suc i" if "i < k" for i
  proof -
    have "ks ! i = ls ! i" using assms(3) that by (metis nth_take)
    moreover have "i < length xs - 1" "i < length ys - 1" using that len by simp_all
    ultimately have "?key xs i = ?key ys i" by (simp add: ks)
    then show ?thesis by (rule pack_inject)
  qed
  have "take (Suc k) xs = take (Suc k) ys"
  proof (rule nth_equalityI)
    fix i assume "i < length (take (Suc k) xs)"
    then have "i < Suc k" by simp
    then show "take (Suc k) xs ! i = take (Suc k) ys ! i"
      using eq[of i] eq[of "i - 1"] assms(4) by (cases "i < k"; cases i) auto
  qed (use len in simp)
  then show ?thesis using l by simp
qed

theorem matched_keys_verify_tokens_witness:
  "take 3 [5, 6, 7, 8] = take 3 [5, 6, 7 :: 32 word]"
proof -
  let ?ks = "[0x0000000500000006, 0x0000000600000007, 0x0000000700000008 :: 64 word]"
  have "cache_key 1 [5, 6, 7, 8] = Some ?ks" "cache_key 1 [5, 6, 7] = Some (take 2 ?ks)"
    by (simp_all add: cache_key_def upt_rec)
  from matched_keys_verify_tokens[OF this, of 2] show ?thesis by simp
qed

text \<open>
  Whatever the data and dimensions of a media item, the value its positions are keyed with
  is not a token, since a token is not negative.
\<close>

theorem fold_value_no_token:
  assumes "0 \<le> t" and "t < 2 ^ 31"
  shows "foldValue data dims \<noteq> word_of_int t"
proof -
  have "bit (foldValue data dims) 31" by (simp add: foldValue_def Let_def bit_simps)
  moreover have "\<not> bit (word_of_int t :: 32 word) 31"
  proof -
    have "\<not> bit t 31" using assms by (simp add: bit_iff_odd)
    then show ?thesis by (simp add: bit_simps)
  qed
  ultimately show ?thesis by metis
qed

theorem fold_value_no_token_witness: "foldValue [1, 2] [3] \<noteq> word_of_int 128256"
  by (rule fold_value_no_token) simp_all

text \<open>The end of an extended chunk.\<close>

lemma extend_loop_inside:
  "extend_loop input_len at n items =
     (case insideAtomicItem items (at + n) of
        None \<Rightarrow> n
      | Some item \<Rightarrow> if item_pos item > at then item_pos item - at
                     else min (item_pos item + item_length item) (input_len - 1) - at)"
  by (induction items) auto

lemma extendChunk_end:
  assumes "items_apart 0 items count" and "0 < n" and "at + n < input_len" and m: "media = openMedia items"
  shows "0 < extendChunk media input_len at n \<and> at + extendChunk media input_len at n < input_len \<and>
    (insideAtomicItem items (at + extendChunk media input_len at n) = None \<or>
       at + extendChunk media input_len at n = input_len - 1)"
proof (cases "items = []")
  case True
  with assms(2,3) show ?thesis by (simp add: extendChunk_def m openMedia_def)
next
  case False
  then have Some: "media = Some items" by (simp add: m openMedia_def)
  show ?thesis
  proof (cases "insideAtomicItem items (at + n)")
    case None
    with Some assms(2,3) show ?thesis by (simp add: extendChunk_def extend_loop_inside)
  next
    case inside: (Some item)
    note i = insideAtomicItem_Some[OF inside]
    have free: "insideAtomicItem items (item_pos item) = None"
      "insideAtomicItem items (item_pos item + item_length item) = None"
      using items_apart_disjoint[OF assms(1)] i unfolding insideAtomicItem_None by blast+
    show ?thesis
    proof (cases "item_pos item > at")
      case True
      then have "extendChunk media input_len at n = item_pos item - at"
        using Some inside by (simp add: extendChunk_def extend_loop_inside)
      with True i free(1) assms(3) Some show ?thesis by (auto simp: strictly_inside_def)
    next
      case False
      then have "extendChunk media input_len at n = min (item_pos item + item_length item) (input_len - 1) - at"
        using Some inside by (simp add: extendChunk_def extend_loop_inside)
      moreover have "at < min (item_pos item + item_length item) (input_len - 1)"
        using i assms(2,3) by (simp add: strictly_inside_def)
      ultimately show ?thesis using free(2) Some by (auto simp: min_def)
    qed
  qed
qed

lemma prefill_chunks_ok:
  assumes "items_apart 0 items count" and "0 < prefillChunk"
  shows "concat (map (\<lambda>(p, n). [p..<p + n]) (prefill_chunks prefillChunk (openMedia items) input_len position)) =
      [position..<input_len - 1] \<and>
    (\<forall>(p, n) \<in> set (prefill_chunks prefillChunk (openMedia items) input_len position).
       0 < n \<and> (insideAtomicItem items (p + n) = None \<or> p + n = input_len - 1))"
proof (induction "input_len - position" arbitrary: position rule: less_induct)
  case less
  show ?case
  proof (cases "input_len - position \<le> 1")
    case True
    then show ?thesis by (simp add: prefill_chunks.simps[of _ _ _ position])
  next
    case False
    define n where "n = extendChunk (openMedia items) input_len position (min prefillChunk (input_len - position - 1))"
    have n: "0 < n" "position + n < input_len" "insideAtomicItem items (position + n) = None \<or> position + n = input_len - 1"
    proof -
      let ?m = "min prefillChunk (input_len - position - 1)"
      have "0 < ?m" "position + ?m < input_len" using False assms(2) by auto
      from extendChunk_end[OF assms(1) this refl]
      show "0 < n" "position + n < input_len" "insideAtomicItem items (position + n) = None \<or> position + n = input_len - 1"
        unfolding n_def by blast+
    qed
    have step: "prefill_chunks prefillChunk (openMedia items) input_len position =
        (position, n) # prefill_chunks prefillChunk (openMedia items) input_len (position + n)"
      unfolding prefill_chunks.simps[of prefillChunk "openMedia items" input_len position] Let_def n_def[symmetric]
      using False n(1) by simp
    have "[position..<position + n] @ [position + n..<input_len - 1] = [position..<input_len - 1]"
      using upt_add_eq_append[of position "position + n" "input_len - 1 - (position + n)"] n(2) by simp
    with less[of "position + n"] n show ?thesis unfolding step by auto
  qed
qed

text \<open>
  C39. The prefill loop ends, evaluates every position from the resume point up to the last
  token exactly once and in order, and no chunk ends strictly inside a non-causal media
  item, except for the one that leaves the last token as the decode seed.
\<close>

theorem prefill_evaluates_each_position_once:
  assumes "0 < prefillChunk" and "bindItems segments count prepared = Inr items"
  shows "concat (map (\<lambda>(p, n). [p..<p + n]) (prefill_chunks prefillChunk (openMedia items) input_len position)) =
      [position..<input_len - 1] \<and>
    (\<forall>(p, n) \<in> set (prefill_chunks prefillChunk (openMedia items) input_len position).
       0 < n \<and> (insideAtomicItem items (p + n) = None \<or> p + n = input_len - 1))"
  by (rule prefill_chunks_ok[OF bindItems_apart[OF assms(2)] assms(1)])

theorem prefill_evaluates_each_position_once_witness:
  "concat (map (\<lambda>(p, n). [p..<p + n]) (prefill_chunks 2 (openMedia
     [\<lparr>item_pos = 1, item_length = 3, item_fold = foldValue [7] [], item_causal = False\<rparr>]) 6 0)) = [0, 1, 2, 3, 4]"
proof -
  have "bindItems [None, Some [7]] 5 [\<lparr>Range_start = 1, Range_end = 4, Source_segment = 1, Dims = [], Causal = False\<rparr>] =
      Inr [\<lparr>item_pos = 1, item_length = 3, item_fold = foldValue [7] [], item_causal = False\<rparr>]"
    by (simp add: bindItems_def upt_rec)
  from prefill_evaluates_each_position_once[OF _ this, of 2 6 0] show ?thesis by (simp add: upt_rec)
qed

end
