(* ===== verification/SpeculateDepth.thy ===== *)
theory SpeculateDepth
  imports Complex_Main Prelude "HOL-Library.AList"
begin

text \<open>
  \<^verbatim>\<open>mlxrunner/speculate_depth.go\<close>: the controller that chooses how many tokens to draft.
  It maximises the expected committed tokens per cost over the depths up to one past the
  deepest position whose acceptance it trusts.  Floating-point numbers are rationals here:
  rounding is not modelled.  A map is an association list with distinct keys.
\<close>

section \<open>The cost model\<close>

definition depthProbeInterval :: nat where "depthProbeInterval = 4"
definition depthProbeIntervalMax :: nat where "depthProbeIntervalMax = 512"
definition costEWMAAlpha :: rat where "costEWMAAlpha = 3 / 10"
definition costClampFraction :: rat where "costClampFraction = 1 / 4"
definition acceptanceEWMAAlpha :: rat where "acceptanceEWMAAlpha = 1 / 10"
definition acceptanceMinSamples :: nat where "acceptanceMinSamples = 10"

record cost_model =
  ewma :: "(nat \<times> rat) list"
  depths :: "nat list"

definition newCostModel :: cost_model where
  "newCostModel = \<lparr>ewma = [], depths = []\<rparr>"

definition ewma_at :: "cost_model \<Rightarrow> nat \<Rightarrow> rat" where
  "ewma_at m n = (case map_of (ewma m) n of None \<Rightarrow> 0 | Some v \<Rightarrow> v)"

text \<open>\<open>slices.BinarySearch\<close> and \<open>slices.Insert\<close> on a sorted list.\<close>

definition insert_depth :: "nat \<Rightarrow> nat list \<Rightarrow> nat list" where
  "insert_depth d ds = takeWhile (\<lambda>x. x < d) ds @ [d] @ dropWhile (\<lambda>x. x < d) ds"

text \<open>\<open>cost_observe drafts dt\<close> with \<open>dt\<close> in nanoseconds.\<close>

definition cost_observe :: "int \<Rightarrow> int \<Rightarrow> cost_model \<Rightarrow> cost_model" where
  "cost_observe drafts dt m =
     (if drafts < 0 \<or> dt \<le> 0 then m
      else (let ms = of_int dt / 1000000; n = nat drafts
            in case map_of (ewma m) n of
                 Some v \<Rightarrow>
                   (let limit = costClampFraction * v
                    in m\<lparr>ewma := AList.update n (v + costEWMAAlpha * max (- limit) (min limit (ms - v))) (ewma m)\<rparr>)
               | None \<Rightarrow> m\<lparr>ewma := AList.update n ms (ewma m), depths := insert_depth n (depths m)\<rparr>))"

definition ready :: "cost_model \<Rightarrow> bool" where
  "ready m = (2 \<le> length (ewma m))"

definition sampled :: "cost_model \<Rightarrow> nat \<Rightarrow> bool" where
  "sampled m n = (map_of (ewma m) n \<noteq> None)"

text \<open>The interpolation loop, from a sampled depth \<open>lo\<close> below the depth asked for.\<close>

fun cost_between :: "cost_model \<Rightarrow> nat \<Rightarrow> nat \<Rightarrow> nat list \<Rightarrow> rat" where
  "cost_between m n lo [] = ewma_at m lo"
| "cost_between m n lo (hi # ds) =
     (if n \<le> hi
      then (let t = of_int (int n - int lo) / of_int (int hi - int lo)
            in ewma_at m lo + t * (ewma_at m hi - ewma_at m lo))
      else cost_between m n hi ds)"

definition cost :: "cost_model \<Rightarrow> nat \<Rightarrow> rat" where
  "cost m n =
     (case depths m of
        [] \<Rightarrow> 0
      | d # ds \<Rightarrow>
          if n \<le> d then ewma_at m d
          else if last (d # ds) \<le> n then ewma_at m (last (d # ds))
          else cost_between m n d ds)"

section \<open>The acceptance model\<close>

record acceptance_model =
  rate :: "rat list"
  seen :: "nat list"

definition newAcceptanceModel :: acceptance_model where
  "newAcceptanceModel = \<lparr>rate = [0], seen = [0]\<rparr>"

text \<open>Both lists grow together.\<close>

definition grow :: "nat \<Rightarrow> acceptance_model \<Rightarrow> acceptance_model" where
  "grow i a = a\<lparr>rate := rate a @ replicate (Suc i - length (seen a)) 0,
                seen := seen a @ replicate (Suc i - length (seen a)) 0\<rparr>"

definition observe_position :: "nat \<Rightarrow> nat \<Rightarrow> acceptance_model \<Rightarrow> acceptance_model" where
  "observe_position accepted i a0 =
     (let a = grow i a0;
          outcome = (if i \<le> accepted then 1 else 0 :: rat);
          r = (if seen a ! i = 0 then outcome else rate a ! i + acceptanceEWMAAlpha * (outcome - rate a ! i))
      in a\<lparr>rate := (rate a)[i := r], seen := (seen a)[i := Suc (seen a ! i)]\<rparr>)"

text \<open>The positions \<open>i\<close> to \<open>i + n - 1\<close>, stopping after the first rejection.\<close>

fun observe_loop :: "nat \<Rightarrow> nat \<Rightarrow> nat \<Rightarrow> acceptance_model \<Rightarrow> acceptance_model" where
  "observe_loop accepted i 0 a = a"
| "observe_loop accepted i (Suc n) a =
     (if accepted < i - 1 then a else observe_loop accepted (Suc i) n (observe_position accepted i a))"

definition acceptance_observe :: "nat \<Rightarrow> nat \<Rightarrow> acceptance_model \<Rightarrow> acceptance_model" where
  "acceptance_observe drafted accepted a = observe_loop accepted 1 drafted a"

definition trusted :: "acceptance_model \<Rightarrow> nat \<Rightarrow> bool" where
  "trusted a i = (i < length (seen a) \<and> acceptanceMinSamples \<le> seen a ! i)"

text \<open>The deepest trusted rate at or below a position, or 1.\<close>

fun inherited_rate :: "acceptance_model \<Rightarrow> nat \<Rightarrow> rat" where
  "inherited_rate a 0 = 1"
| "inherited_rate a (Suc j) = (if trusted a (Suc j) then rate a ! Suc j else inherited_rate a j)"

definition acceptance :: "acceptance_model \<Rightarrow> nat \<Rightarrow> rat" where
  "acceptance a i = (if 1 \<le> i \<and> trusted a i then rate a ! i else inherited_rate a (i - 1))"

fun committed_loop :: "acceptance_model \<Rightarrow> nat \<Rightarrow> nat \<Rightarrow> rat \<Rightarrow> rat \<Rightarrow> rat" where
  "committed_loop a k 0 sofar p = sofar"
| "committed_loop a k (Suc n) sofar p =
     committed_loop a (Suc k) n (sofar + p * acceptance a k) (p * acceptance a k)"

definition expectedCommitted :: "acceptance_model \<Rightarrow> nat \<Rightarrow> rat" where
  "expectedCommitted a n = committed_loop a 1 n 1 1"

definition frontier :: "acceptance_model \<Rightarrow> nat" where
  "frontier a = length (takeWhile (\<lambda>s. acceptanceMinSamples \<le> s) (drop 1 (seen a)))"

section \<open>The controller\<close>

record depth_controller =
  dc_cost :: cost_model
  dc_acc :: acceptance_model
  probed :: bool
  drafterLimit :: nat
  scheduled :: nat
  probeInterval :: nat
  probeSince :: nat
  lastSelected :: nat

definition newDepthController :: depth_controller where
  "newDepthController = \<lparr>dc_cost = newCostModel, dc_acc = newAcceptanceModel, probed = False, drafterLimit = 0,
     scheduled = 0, probeInterval = depthProbeInterval, probeSince = 0, lastSelected = 0\<rparr>"

definition depth_limit :: "depth_controller \<Rightarrow> nat" where
  "depth_limit c =
     (let limit = frontier (dc_acc c) + 1
      in if drafterLimit c > 0 then min limit (drafterLimit c) else limit)"

definition costSeedDepth :: "depth_controller \<Rightarrow> nat option" where
  "costSeedDepth c = find (\<lambda>n. \<not> sampled (dc_cost c) n) [0..<Suc (depth_limit c)]"

definition ev :: "depth_controller \<Rightarrow> nat \<Rightarrow> rat" where
  "ev c n = expectedCommitted (dc_acc c) n / cost (dc_cost c) n"

definition better_depth :: "depth_controller \<Rightarrow> nat \<times> rat \<Rightarrow> nat \<Rightarrow> nat \<times> rat" where
  "better_depth c best n = (if snd best < ev c n then (n, ev c n) else best)"

definition selected :: "depth_controller \<Rightarrow> nat" where
  "selected c =
     (if \<not> ready (dc_cost c) then 0
      else fst (foldl (better_depth c) (0, ev c 0) [1..<Suc (depth_limit c)]))"

text \<open>The cadence at the start of a step, for the selection \<open>sel\<close>.\<close>

definition calibrate :: "nat \<Rightarrow> depth_controller \<Rightarrow> depth_controller" where
  "calibrate sel c =
     (if sel \<noteq> lastSelected c
      then c\<lparr>probeInterval := depthProbeInterval, probeSince := 0, lastSelected := sel, probed := False\<rparr>
      else if probed c
      then c\<lparr>probeInterval := min (probeInterval c * 2) depthProbeIntervalMax, probed := False\<rparr>
      else c\<lparr>probed := False\<rparr>)"

text \<open>\<^verbatim>\<open>next\<close>: the depth for the coming round, which is also recorded as scheduled.\<close>

definition seed_or :: "nat \<Rightarrow> depth_controller \<Rightarrow> nat" where
  "seed_or sel c = (case costSeedDepth c of Some seed \<Rightarrow> seed | None \<Rightarrow> sel)"

definition next_depth :: "depth_controller \<Rightarrow> nat \<times> depth_controller" where
  "next_depth c0 =
     (let sel = selected c0;
          c = calibrate sel c0;
          since = Suc (probeSince c)
      in if probeInterval c \<le> since
         then (let probe = min (sel + 1) (depth_limit c)
               in if probe \<noteq> sel
                  then (probe, c\<lparr>probeSince := 0, probed := True, scheduled := probe\<rparr>)
                  else (let d = seed_or sel c in (d, c\<lparr>probeSince := 0, scheduled := d\<rparr>)))
         else (let d = seed_or sel c in (d, c\<lparr>probeSince := since, scheduled := d\<rparr>)))"

section \<open>The depth chosen\<close>

lemma foldl_best:
  assumes "fst b \<le> k" and "\<forall>n \<in> set ns. n \<le> k" and "snd b = ev c (fst b)"
  shows "fst (foldl (better_depth c) b ns) \<le> k \<and>
    snd (foldl (better_depth c) b ns) = ev c (fst (foldl (better_depth c) b ns)) \<and>
    snd b \<le> snd (foldl (better_depth c) b ns) \<and>
    (\<forall>n \<in> set ns. ev c n \<le> snd (foldl (better_depth c) b ns))"
  using assms
proof (induction ns arbitrary: b)
  case (Cons n ns)
  have "fst (better_depth c b n) \<le> k" "snd (better_depth c b n) = ev c (fst (better_depth c b n))"
    "snd b \<le> snd (better_depth c b n)" "ev c n \<le> snd (better_depth c b n)"
    using Cons.prems by (auto simp: better_depth_def)
  with Cons.IH[of "better_depth c b n"] Cons.prems(2) show ?case by auto
qed simp

lemma selected_best:
  "selected c \<le> depth_limit c" "ready (dc_cost c) \<Longrightarrow> n \<le> depth_limit c \<Longrightarrow> ev c n \<le> ev c (selected c)"
proof -
  have ns: "\<forall>n \<in> set [1..<Suc (depth_limit c)]. n \<le> depth_limit c" by auto
  note F = foldl_best[of "(0, ev c 0)" "depth_limit c" "[1..<Suc (depth_limit c)]" c, OF _ ns]
  show "selected c \<le> depth_limit c" using F by (auto simp: selected_def)
  show "ev c n \<le> ev c (selected c)" if "ready (dc_cost c)" "n \<le> depth_limit c"
    using F that by (cases "n = 0") (auto simp: selected_def Suc_le_eq)
qed

lemma calibrate_keeps [simp]:
  "dc_cost (calibrate s c) = dc_cost c" "dc_acc (calibrate s c) = dc_acc c"
  "drafterLimit (calibrate s c) = drafterLimit c" "depth_limit (calibrate s c) = depth_limit c"
  "costSeedDepth (calibrate s c) = costSeedDepth c" "lastSelected (calibrate s c) = s"
  "probed (calibrate s c) = False"
  by (auto simp: calibrate_def depth_limit_def costSeedDepth_def)

lemma seed_first:
  "costSeedDepth c = Some d \<Longrightarrow> d \<le> depth_limit c \<and> \<not> sampled (dc_cost c) d \<and> (\<forall>n < d. sampled (dc_cost c) n)"
  by (auto simp: costSeedDepth_def find_Some_iff nth_append split: if_splits)

lemma seed_none: "costSeedDepth c = None \<Longrightarrow> n \<le> depth_limit c \<Longrightarrow> sampled (dc_cost c) n"
  by (auto simp: costSeedDepth_def find_None_iff le_less)

lemma seed_or_calibrate [simp]: "seed_or s (calibrate s' c) = seed_or s c"
  by (simp add: seed_or_def)

lemma seed_or_le: "s \<le> depth_limit c \<Longrightarrow> seed_or s c \<le> depth_limit c"
  using seed_first[of c] by (auto simp: seed_or_def split: option.split)

text \<open>What one step does, by cases.\<close>

lemma next_depth_cases:
  obtains (probe) "selected c < depth_limit c" "fst (next_depth c) = Suc (selected c)"
      "probed (snd (next_depth c))" "probeInterval (calibrate (selected c) c) \<le> Suc (probeSince (calibrate (selected c) c))"
    | (other) "fst (next_depth c) = seed_or (selected c) c" "\<not> probed (snd (next_depth c))"
      "Suc (probeSince (calibrate (selected c) c)) < probeInterval (calibrate (selected c) c) \<or> depth_limit c = selected c"
      "Suc (probeSince (calibrate (selected c) c)) < probeInterval (calibrate (selected c) c) \<longrightarrow>
        probeSince (snd (next_depth c)) = Suc (probeSince (calibrate (selected c) c))"
proof (cases "probeInterval (calibrate (selected c) c) \<le> Suc (probeSince (calibrate (selected c) c)) \<and>
    min (selected c + 1) (depth_limit c) \<noteq> selected c")
  case True
  then have "selected c < depth_limit c" using selected_best(1)[of c] by (auto simp: min_def split: if_splits)
  with True show ?thesis by (intro probe) (auto simp: next_depth_def Let_def)
next
  case False
  then have "Suc (probeSince (calibrate (selected c) c)) < probeInterval (calibrate (selected c) c) \<or> depth_limit c = selected c"
    using selected_best(1)[of c] by (auto simp: min_def split: if_splits)
  with False show ?thesis by (intro other) (auto simp: next_depth_def Let_def)
qed

lemma next_depth_keeps [simp]:
  "dc_cost (snd (next_depth c)) = dc_cost c" "dc_acc (snd (next_depth c)) = dc_acc c"
  "drafterLimit (snd (next_depth c)) = drafterLimit c" "lastSelected (snd (next_depth c)) = selected c"
  "probeInterval (snd (next_depth c)) = probeInterval (calibrate (selected c) c)"
  "scheduled (snd (next_depth c)) = fst (next_depth c)"
  by (simp_all add: next_depth_def Let_def)

lemma next_depth_le: "fst (next_depth c) \<le> depth_limit c"
  using selected_best(1)[of c] seed_or_le[OF selected_best(1)]
  by (cases c rule: next_depth_cases) auto

section \<open>Costs\<close>

definition cost_inv :: "cost_model \<Rightarrow> bool" where
  "cost_inv m \<longleftrightarrow> distinct (map fst (ewma m)) \<and> sorted_wrt (<) (depths m) \<and>
     set (depths m) = fst ` set (ewma m) \<and> (\<forall>(n, v) \<in> set (ewma m). 0 < v)"

lemma insert_depth_sorted:
  "sorted_wrt (<) ds \<Longrightarrow> d \<notin> set ds \<Longrightarrow> sorted_wrt (<) (insert_depth d ds) \<and> set (insert_depth d ds) = insert d (set ds)"
proof (induction ds)
  case Nil
  then show ?case by (simp add: insert_depth_def)
next
  case (Cons x ds)
  show ?case
  proof (cases "x < d")
    case True
    then have "insert_depth d (x # ds) = x # insert_depth d ds" by (simp add: insert_depth_def)
    with Cons True show ?thesis by auto
  next
    case False
    then have "insert_depth d (x # ds) = d # x # ds" by (simp add: insert_depth_def)
    with Cons.prems False show ?thesis by auto
  qed
qed

lemma clamp_positive:
  fixes v x :: rat
  assumes "0 < v"
  shows "0 < v + costEWMAAlpha * max (- (costClampFraction * v)) (min (costClampFraction * v) x)"
    and "\<bar>costEWMAAlpha * max (- (costClampFraction * v)) (min (costClampFraction * v) x)\<bar> \<le> 3 / 40 * v"
proof -
  let ?m = "max (- (costClampFraction * v)) (min (costClampFraction * v) x)"
  have "- (v / 4) \<le> ?m" "?m \<le> v / 4" using assms by (auto simp: costClampFraction_def)
  then show "\<bar>costEWMAAlpha * ?m\<bar> \<le> 3 / 40 * v" by (simp add: costEWMAAlpha_def abs_le_iff)
  then show "0 < v + costEWMAAlpha * ?m" using assms by (simp add: abs_le_iff)
qed

lemma cost_observe_inv:
  assumes "cost_inv m"
  shows "cost_inv (cost_observe drafts dt m)"
proof (cases "drafts < 0 \<or> dt \<le> 0")
  case True
  with assms show ?thesis by (simp add: cost_observe_def)
next
  case False
  let ?n = "nat drafts"
  have upd: "\<forall>(n, v) \<in> set (AList.update ?n w (ewma m)). 0 < v" if "0 < w" for w
  proof -
    have "set (AList.update ?n w xs) \<subseteq> insert (?n, w) (set xs)" for xs by (induction xs) auto
    with assms that show ?thesis unfolding cost_inv_def by blast
  qed
  show ?thesis
  proof (cases "map_of (ewma m) ?n")
    case None
    then have "?n \<notin> set (depths m)" using assms by (simp add: cost_inv_def map_of_eq_None_iff)
    moreover have "(0::rat) < of_int dt / 1000000" using False by simp
    ultimately show ?thesis
      using assms insert_depth_sorted[of "depths m" ?n] False None upd[of "of_int dt / 1000000"]
      by (simp add: cost_observe_def cost_inv_def Let_def distinct_update dom_update)
  next
    case (Some v)
    then have v: "0 < v" "?n \<in> fst ` set (ewma m)" using assms by (auto simp: cost_inv_def dest: map_of_SomeD intro: rev_image_eqI)
    show ?thesis
      using assms False Some upd[OF clamp_positive(1)[OF v(1), of "of_int dt / 1000000 - v"]] v(2)
      by (simp add: cost_observe_def cost_inv_def Let_def distinct_update dom_update insert_absorb)
  qed
qed

lemma ewma_at_positive: "cost_inv m \<Longrightarrow> n \<in> set (depths m) \<Longrightarrow> 0 < ewma_at m n"
  by (auto simp: cost_inv_def ewma_at_def split: option.split dest: map_of_SomeD)

text \<open>Interpolation stays between its ends.\<close>

lemma between:
  fixes a b t :: rat
  assumes "0 \<le> t" and "t \<le> 1"
  shows "min a b \<le> a + t * (b - a)" and "a + t * (b - a) \<le> max a b"
proof -
  have *: "a + t * (b - a) = (1 - t) * a + t * b" by (simp add: algebra_simps)
  have "(1 - t) * min a b + t * min a b \<le> (1 - t) * a + t * b"
    by (intro add_mono mult_left_mono) (use assms in auto)
  then show "min a b \<le> a + t * (b - a)" unfolding * by (simp add: algebra_simps)
  have "(1 - t) * a + t * b \<le> (1 - t) * max a b + t * max a b"
    by (intro add_mono mult_left_mono) (use assms in auto)
  then show "a + t * (b - a) \<le> max a b" unfolding * by (simp add: algebra_simps)
qed

lemma cost_between_bounds:
  assumes "sorted_wrt (<) (lo # ds)" and "lo < n" and "ds \<noteq> []" and "n < last ds"
    and "\<forall>d \<in> set (lo # ds). l \<le> ewma_at m d \<and> ewma_at m d \<le> u"
  shows "l \<le> cost_between m n lo ds \<and> cost_between m n lo ds \<le> u"
  using assms
proof (induction m n lo ds rule: cost_between.induct)
  case (2 m n lo hi ds)
  show ?case
  proof (cases "n \<le> hi")
    case True
    let ?t = "of_int (int n - int lo) / of_int (int hi - int lo) :: rat"
    have "0 \<le> ?t" "?t \<le> 1" using True 2(3) by (simp_all add: divide_le_eq)
    from between[OF this, of "ewma_at m lo" "ewma_at m hi"] True 2(6)
    show ?thesis by (auto simp: min_def max_def split: if_splits)
  next
    case False
    with 2(5) have "ds \<noteq> []" by auto
    with False 2 show ?thesis by auto
  qed
qed simp

lemma cost_bounds:
  assumes "sorted_wrt (<) (depths m)" and "depths m \<noteq> []"
    and "\<forall>d \<in> set (depths m). l \<le> ewma_at m d \<and> ewma_at m d \<le> u"
  shows "l \<le> cost m n \<and> cost m n \<le> u"
proof -
  obtain d ds where d: "depths m = d # ds" using assms(2) by (cases "depths m") auto
  consider "n \<le> d" | "last (d # ds) \<le> n" | "d < n" "n < last (d # ds)" by linarith
  then show ?thesis
  proof cases
    case 2
    moreover have "last (d # ds) \<in> set (depths m)" unfolding d by (rule last_in_set) simp
    ultimately show ?thesis using assms(3) d by (auto simp: cost_def)
  next
    case 3
    then have "ds \<noteq> []" by (cases ds) auto
    with 3 cost_between_bounds[of d ds n l m u] assms(1,3) d show ?thesis by (simp add: cost_def)
  qed (use assms(3) d in \<open>auto simp: cost_def\<close>)
qed

lemma cost_between_exact:
  assumes "sorted_wrt (<) (lo # ds)" and "n \<in> set ds"
  shows "cost_between m n lo ds = ewma_at m n"
  using assms
proof (induction m n lo ds rule: cost_between.induct)
  case (2 m n lo hi ds)
  then show ?case by (cases "n = hi") (auto simp: not_le)
qed simp

lemma sorted_le_last: "sorted_wrt (<) xs \<Longrightarrow> x \<in> set xs \<Longrightarrow> (x :: nat) \<le> last xs"
proof (induction xs)
  case (Cons y ys)
  then show ?case using last_in_set[of ys] by (cases "ys = []") (auto simp: less_imp_le)
qed simp

lemma cost_exact:
  assumes "sorted_wrt (<) (depths m)" and "n \<in> set (depths m)"
  shows "cost m n = ewma_at m n"
proof -
  obtain d ds where d: "depths m = d # ds" using assms(2) by (cases "depths m") auto
  have le: "x \<le> last (d # ds)" if "x \<in> set (d # ds)" for x
    using sorted_le_last[OF assms(1)[unfolded d] that] .
  show ?thesis
  proof (cases "n = d")
    case False
    then have "d < n" "n \<in> set ds" using assms d by auto
    with le[of n] assms(1) d show ?thesis
      by (cases "last (d # ds) = n") (auto simp: cost_def cost_between_exact)
  qed (simp add: cost_def d)
qed

section \<open>Acceptance\<close>

definition acc_inv :: "acceptance_model \<Rightarrow> bool" where
  "acc_inv a \<longleftrightarrow> length (rate a) = length (seen a) \<and> seen a \<noteq> [] \<and> (\<forall>r \<in> set (rate a). 0 \<le> r \<and> r \<le> 1)"

lemma observe_position_inv:
  assumes "acc_inv a0"
  shows "acc_inv (observe_position accepted i a0)"
proof -
  have g: "acc_inv (grow i a0)" using assms by (auto simp: acc_inv_def grow_def)
  have i: "i < length (rate (grow i a0))" using assms by (auto simp: acc_inv_def grow_def)
  have old: "0 \<le> rate (grow i a0) ! i" "rate (grow i a0) ! i \<le> 1" using g i by (auto simp: acc_inv_def)
  let ?o = "if i \<le> accepted then 1 else 0 :: rat"
  let ?r = "if seen (grow i a0) ! i = 0 then ?o
    else rate (grow i a0) ! i + acceptanceEWMAAlpha * (?o - rate (grow i a0) ! i)"
  have "0 \<le> ?r \<and> ?r \<le> 1" using old by (auto simp: acceptanceEWMAAlpha_def field_simps)
  then show ?thesis
    using g set_update_subset_insert[of "rate (grow i a0)" i ?r]
    unfolding acc_inv_def observe_position_def Let_def by (auto simp del: if_split)
qed

lemma acceptance_observe_inv:
  assumes "acc_inv a"
  shows "acc_inv (acceptance_observe drafted accepted a)"
proof -
  have "acc_inv a \<Longrightarrow> acc_inv (observe_loop accepted i n a)" for i n
    by (induction accepted i n a rule: observe_loop.induct) (auto intro: observe_position_inv)
  with assms show ?thesis by (simp add: acceptance_observe_def)
qed

lemma acceptance_range:
  assumes "acc_inv a"
  shows "0 \<le> acceptance a i" and "acceptance a i \<le> 1"
proof -
  have t: "trusted a j \<Longrightarrow> 0 \<le> rate a ! j \<and> rate a ! j \<le> 1" for j
    using assms by (auto simp: acc_inv_def trusted_def)
  have "0 \<le> inherited_rate a j \<and> inherited_rate a j \<le> 1" for j
    using t by (induction j) auto
  with t show "0 \<le> acceptance a i" "acceptance a i \<le> 1" by (auto simp: acceptance_def)
qed

lemma committed_loop_bounds:
  assumes "acc_inv a" and "0 \<le> p" and "p \<le> 1"
  shows "s \<le> committed_loop a k n s p \<and> committed_loop a k n s p \<le> s + of_nat n"
  using assms(2,3)
proof (induction n arbitrary: k s p)
  case (Suc n)
  let ?q = "p * acceptance a k"
  have q: "0 \<le> ?q" "?q \<le> 1"
    using Suc.prems acceptance_range[OF assms(1), of k] by (auto intro: mult_le_one)
  from Suc.IH[OF q, of "s + ?q" "Suc k"] q show ?case by simp
qed simp

lemma committed_loop_Suc:
  "acc_inv a \<Longrightarrow> 0 \<le> p \<Longrightarrow> committed_loop a k n s p \<le> committed_loop a k (Suc n) s p"
proof (induction n arbitrary: k s p)
  case 0
  then show ?case using acceptance_range(1)[of a k] by simp
next
  case (Suc n)
  then have "0 \<le> p * acceptance a k" using acceptance_range(1)[of a k] by simp
  from Suc.IH[OF Suc.prems(1) this, of "Suc k" "s + p * acceptance a k"] show ?case by simp
qed

section \<open>Properties\<close>

text \<open>A controller whose models come from observations.\<close>

definition controller_inv :: "depth_controller \<Rightarrow> bool" where
  "controller_inv c \<longleftrightarrow> cost_inv (dc_cost c) \<and> acc_inv (dc_acc c) \<and>
     1 \<le> probeInterval c \<and> probeInterval c \<le> depthProbeIntervalMax"

text \<open>One round: what was measured is observed, and the next depth is chosen.\<close>

datatype measurement = CostSample int int | Proposal nat nat

fun measure_round :: "measurement \<Rightarrow> depth_controller \<Rightarrow> depth_controller" where
  "measure_round (CostSample drafts dt) c = c\<lparr>dc_cost := cost_observe drafts dt (dc_cost c)\<rparr>"
| "measure_round (Proposal observed accepted) c = c\<lparr>dc_acc := acceptance_observe observed accepted (dc_acc c)\<rparr>"

definition measure_all :: "measurement list \<Rightarrow> depth_controller \<Rightarrow> depth_controller" where
  "measure_all ms c = fold measure_round ms c"

lemma measure_all_cadence [simp]:
  "probeInterval (measure_all ms c) = probeInterval c" "probeSince (measure_all ms c) = probeSince c"
  "probed (measure_all ms c) = probed c" "lastSelected (measure_all ms c) = lastSelected c"
  "drafterLimit (measure_all ms c) = drafterLimit c"
proof -
  have "probeInterval (measure_round m c) = probeInterval c \<and> probeSince (measure_round m c) = probeSince c \<and>
    probed (measure_round m c) = probed c \<and> lastSelected (measure_round m c) = lastSelected c \<and>
    drafterLimit (measure_round m c) = drafterLimit c" for m c by (cases m) simp_all
  then have "probeInterval (measure_all ms c) = probeInterval c \<and> probeSince (measure_all ms c) = probeSince c \<and>
    probed (measure_all ms c) = probed c \<and> lastSelected (measure_all ms c) = lastSelected c \<and>
    drafterLimit (measure_all ms c) = drafterLimit c"
    by (induction ms arbitrary: c) (simp_all add: measure_all_def)
  then show "probeInterval (measure_all ms c) = probeInterval c" "probeSince (measure_all ms c) = probeSince c"
    "probed (measure_all ms c) = probed c" "lastSelected (measure_all ms c) = lastSelected c"
    "drafterLimit (measure_all ms c) = drafterLimit c" by auto
qed

text \<open>The controllers after each round: measurements, then the choice.\<close>

fun rounds :: "measurement list list \<Rightarrow> depth_controller \<Rightarrow> (nat \<times> depth_controller) list" where
  "rounds [] c = []"
| "rounds (ms # mss) c = (let r = next_depth (measure_all ms c) in r # rounds mss (snd r))"

text \<open>The selection before each of these choices is \<open>s\<close>, and there is a depth beyond it.\<close>

fun steady :: "nat \<Rightarrow> measurement list list \<Rightarrow> depth_controller \<Rightarrow> bool" where
  "steady s [] c = True"
| "steady s (ms # mss) c =
     (selected (measure_all ms c) = s \<and> s < depth_limit (measure_all ms c) \<and>
      steady s mss (snd (next_depth (measure_all ms c))))"

lemma controller_inv_next: "controller_inv c \<Longrightarrow> controller_inv (snd (next_depth c))"
  by (auto simp: controller_inv_def calibrate_def depthProbeInterval_def depthProbeIntervalMax_def)

lemma controller_inv_measure: "controller_inv c \<Longrightarrow> controller_inv (measure_all ms c)"
proof (induction ms arbitrary: c)
  case (Cons m ms)
  have "controller_inv (measure_round m c)"
    using Cons.prems by (cases m) (auto simp: controller_inv_def intro: cost_observe_inv acceptance_observe_inv)
  with Cons.IH show ?case by (simp add: measure_all_def)
qed (simp add: measure_all_def)

lemma probe_countdown:
  assumes "steady s mss c" and "lastSelected c = s" and "\<not> probed c" and "probeInterval c \<le> probeSince c + length mss"
    and "mss \<noteq> []"
  shows "\<exists>r \<in> set (rounds mss c). fst r = Suc s \<and> probed (snd r)"
  using assms
proof (induction mss arbitrary: c)
  case (Cons ms mss)
  let ?c = "measure_all ms c"
  have sel: "selected ?c = s" and lim: "s < depth_limit ?c" using Cons.prems(1) by simp_all
  have cal: "calibrate s ?c = ?c\<lparr>probed := False\<rparr>" using Cons.prems(2,3) by (simp add: calibrate_def)
  show ?case
  proof (cases ?c rule: next_depth_cases)
    case probe
    with sel show ?thesis by (simp add: Let_def)
  next
    case other
    have low: "Suc (probeSince c) < probeInterval c" using other(3) lim unfolding sel cal by simp
    then have since: "probeSince (snd (next_depth ?c)) = Suc (probeSince c)" using other(4) unfolding sel cal by simp
    have "mss \<noteq> []" using low Cons.prems(4) by auto
    moreover have "probeInterval (snd (next_depth ?c)) = probeInterval c" unfolding next_depth_keeps sel cal by simp
    ultimately have "\<exists>r \<in> set (rounds mss (snd (next_depth ?c))). fst r = Suc s \<and> probed (snd r)"
      using Cons.IH[of "snd (next_depth ?c)"] Cons.prems(1,4) other(2) since sel by simp
    then show ?thesis by (auto simp: Let_def)
  qed
qed simp

text \<open>
  However acceptance and costs are measured, the depth chosen for a round stays within the
  search limit: one past the deepest trusted position, and no deeper than the drafter can
  produce.  It is the shallowest depth without a cost sample, a probe one past the
  selection, or a depth of the best expected tokens per cost.
\<close>

theorem next_depth_within_limit:
  "fst (next_depth c) \<le> depth_limit c \<and> depth_limit c \<le> frontier (dc_acc c) + 1 \<and>
   (0 < drafterLimit c \<longrightarrow> depth_limit c \<le> drafterLimit c) \<and> scheduled (snd (next_depth c)) = fst (next_depth c) \<and>
   ((\<not> sampled (dc_cost c) (fst (next_depth c)) \<and> (\<forall>n < fst (next_depth c). sampled (dc_cost c) n)) \<or>
    fst (next_depth c) = Suc (selected c) \<or>
    (fst (next_depth c) = selected c \<and>
      (ready (dc_cost c) \<longrightarrow> (\<forall>n \<le> depth_limit c. ev c n \<le> ev c (fst (next_depth c))))))"
proof -
  have "(\<not> sampled (dc_cost c) (fst (next_depth c)) \<and> (\<forall>n < fst (next_depth c). sampled (dc_cost c) n)) \<or>
    fst (next_depth c) = Suc (selected c) \<or>
    (fst (next_depth c) = selected c \<and>
      (ready (dc_cost c) \<longrightarrow> (\<forall>n \<le> depth_limit c. ev c n \<le> ev c (fst (next_depth c)))))"
  proof (cases c rule: next_depth_cases)
    case other
    show ?thesis
    proof (cases "costSeedDepth c")
      case None
      with other(1) selected_best(2)[of c] show ?thesis by (simp add: seed_or_def)
    next
      case (Some d)
      with other(1) seed_first[OF Some] show ?thesis by (simp add: seed_or_def)
    qed
  qed simp
  then show ?thesis using next_depth_le[of c] by (auto simp: depth_limit_def)
qed

theorem next_depth_within_limit_witness:
  "fst (next_depth (newDepthController\<lparr>dc_cost := cost_observe 0 30000000 newCostModel, drafterLimit := 1\<rparr>)) \<le> 1"
  using next_depth_within_limit[of "newDepthController\<lparr>dc_cost := cost_observe 0 30000000 newCostModel, drafterLimit := 1\<rparr>"]
  by (simp add: frontier_def newDepthController_def newAcceptanceModel_def)

text \<open>
  C40. Probing goes on: while the selection stays the same and a deeper draft is allowed, one
  past it is drafted at least once in every 513 rounds, whatever is measured meanwhile.
\<close>

theorem probing_recurs:
  assumes "controller_inv c" and "steady s mss c" and "length mss = 513"
  shows "\<exists>r \<in> set (rounds mss c). fst r = Suc s \<and> probed (snd r)"
proof -
  obtain ms mss' where mss: "mss = ms # mss'" and len: "length mss' = 512" using assms(3) by (cases mss) auto
  let ?c = "measure_all ms c"
  have sel: "selected ?c = s" using assms(2) by (simp add: mss)
  have inv: "controller_inv (snd (next_depth ?c))"
    by (rule controller_inv_next[OF controller_inv_measure[OF assms(1)]])
  show ?thesis
  proof (cases ?c rule: next_depth_cases)
    case probe
    with sel show ?thesis by (simp add: mss Let_def)
  next
    case other
    have "steady s mss' (snd (next_depth ?c))" using assms(2) by (simp add: mss)
    moreover have "probeInterval (snd (next_depth ?c)) \<le> probeSince (snd (next_depth ?c)) + length mss'"
      using inv len by (simp add: controller_inv_def depthProbeIntervalMax_def)
    ultimately have "\<exists>r \<in> set (rounds mss' (snd (next_depth ?c))). fst r = Suc s \<and> probed (snd r)"
      using probe_countdown[of s mss' "snd (next_depth ?c)"] other(2) sel len by (cases mss') auto
    then show ?thesis by (auto simp: mss Let_def)
  qed
qed

lemma selected_cong: "dc_cost c = dc_cost d \<Longrightarrow> dc_acc c = dc_acc d \<Longrightarrow> drafterLimit c = drafterLimit d \<Longrightarrow>
    selected c = selected d \<and> depth_limit c = depth_limit d"
proof -
  assume eq: "dc_cost c = dc_cost d" "dc_acc c = dc_acc d" "drafterLimit c = drafterLimit d"
  then have ev: "ev c n = ev d n" for n by (simp add: ev_def)
  then have "better_depth c = better_depth d" by (intro ext) (simp add: better_depth_def)
  moreover have "depth_limit c = depth_limit d" using eq by (simp add: depth_limit_def)
  ultimately show ?thesis using eq ev by (simp add: selected_def)
qed

lemma steady_unmeasured:
  "selected c = s \<Longrightarrow> s < depth_limit c \<Longrightarrow> steady s (replicate n []) c"
proof (induction n arbitrary: c)
  case (Suc n)
  have "selected (snd (next_depth c)) = selected c \<and> depth_limit (snd (next_depth c)) = depth_limit c"
    by (rule selected_cong) simp_all
  with Suc show ?case by (simp add: measure_all_def)
qed simp

theorem probing_recurs_witness:
  "\<exists>r \<in> set (rounds (replicate 513 []) newDepthController). fst r = 1 \<and> probed (snd r)"
proof -
  have "controller_inv newDepthController"
    by (simp add: controller_inv_def newDepthController_def cost_inv_def newCostModel_def acc_inv_def
        newAcceptanceModel_def depthProbeInterval_def depthProbeIntervalMax_def)
  moreover have "selected newDepthController = 0" "0 < depth_limit newDepthController"
    by (simp_all add: newDepthController_def selected_def ready_def newCostModel_def depth_limit_def)
  ultimately have "\<exists>r \<in> set (rounds (replicate 513 []) newDepthController). fst r = Suc 0 \<and> probed (snd r)"
    by (intro probing_recurs steady_unmeasured) simp_all
  then show ?thesis by simp
qed

text \<open>
  The learned models stay sound: rates lie between 0 and 1, the expected tokens of depth
  \<open>n\<close> between 1 and \<open>n + 1\<close> and growing with \<open>n\<close>, and the cost of any depth between the
  least and the greatest sample, so it is positive and no ratio divides by zero; a sampled
  depth costs its sample.
\<close>

theorem depth_models_sound:
  assumes "controller_inv c"
  shows "0 \<le> acceptance (dc_acc c) i \<and> acceptance (dc_acc c) i \<le> 1 \<and>
    1 \<le> expectedCommitted (dc_acc c) n \<and> expectedCommitted (dc_acc c) n \<le> of_nat n + 1 \<and>
    expectedCommitted (dc_acc c) n \<le> expectedCommitted (dc_acc c) (Suc n) \<and>
    (ready (dc_cost c) \<longrightarrow> 0 < cost (dc_cost c) n) \<and>
    (sampled (dc_cost c) n \<longrightarrow> map_of (ewma (dc_cost c)) n = Some (cost (dc_cost c) n))"
proof -
  let ?m = "dc_cost c"
  have a: "acc_inv (dc_acc c)" and m: "cost_inv ?m" using assms by (simp_all add: controller_inv_def)
  have "0 < cost ?m n" if "ready ?m"
  proof -
    have ne: "depths ?m \<noteq> []" using that m by (auto simp: ready_def cost_inv_def)
    let ?l = "Min (ewma_at ?m ` set (depths ?m))" and ?u = "Max (ewma_at ?m ` set (depths ?m))"
    have "?l \<le> cost ?m n" by (rule conjunct1[OF cost_bounds[of ?m ?l ?u]]) (use ne m in \<open>auto simp: cost_inv_def\<close>)
    moreover have "0 < ?l" using ne ewma_at_positive[OF m] by simp
    ultimately show ?thesis by simp
  qed
  moreover have "map_of (ewma ?m) n = Some (cost ?m n)" if "sampled ?m n"
  proof -
    have "n \<in> set (depths ?m)" using that m by (auto simp: sampled_def cost_inv_def map_of_eq_None_iff)
    with cost_exact[of ?m n] m that show ?thesis by (auto simp: cost_inv_def ewma_at_def sampled_def)
  qed
  ultimately show ?thesis
    using acceptance_range[OF a, of i] committed_loop_bounds[OF a, of 1 1 1 n] committed_loop_Suc[OF a, of 1 1 n 1]
    unfolding expectedCommitted_def by (auto simp del: committed_loop.simps)
qed

theorem depth_models_sound_witness:
  "0 < cost \<lparr>ewma = [(0, 20), (2, 30)], depths = [0, 2]\<rparr> 1 \<and> expectedCommitted newAcceptanceModel 3 \<le> 4"
proof -
  have "controller_inv (newDepthController\<lparr>dc_cost := \<lparr>ewma = [(0, 20), (2, 30)], depths = [0, 2]\<rparr>\<rparr>)"
    by (simp add: controller_inv_def newDepthController_def cost_inv_def acc_inv_def
        newAcceptanceModel_def depthProbeInterval_def depthProbeIntervalMax_def)
  from depth_models_sound[OF this, of 0 1] depth_models_sound[OF this, of 0 3] show ?thesis
    by (simp add: newDepthController_def ready_def)
qed

end
