(* ===== verification/Speculate.thy ===== *)
theory Speculate
  imports SpeculateDepth
begin

text \<open>
  \<^verbatim>\<open>mlxrunner/speculate.go\<close> and the decode loop of \<^verbatim>\<open>mlxrunner/pipeline.go\<close>: which drafted
  tokens a round keeps, what it reports to the depth controller, and what the loop records
  and streams.  The model, the sampler and the grammar are arguments: a round is given the
  acceptance flags, the residual token of each position and the bonus token.
\<close>

section \<open>One round\<close>

record round_result =
  results :: "int list"
  accepted :: nat
  observed :: nat
  keep :: nat
  commitIDs :: "int list"

text \<open>The position of the first end-of-sequence token.\<close>

fun eos_index :: "(int \<Rightarrow> bool) \<Rightarrow> int list \<Rightarrow> nat option" where
  "eos_index is_eos [] = None"
| "eos_index is_eos (t # ts) = (if is_eos t then Some 0 else map_option Suc (eos_index is_eos ts))"

text \<open>
  The decision of \<^verbatim>\<open>accept\<close>.  \<open>None\<close>: more flags set than tokens were drafted.
\<close>

definition accept_decision ::
  "(int \<Rightarrow> bool) \<Rightarrow> int list \<Rightarrow> int list \<Rightarrow> int list \<Rightarrow> int \<Rightarrow> round_result option" where
  "accept_decision is_eos draftIDs acceptedFlags residualTokens bonusToken =
     (let draftCount = length draftIDs;
          a = length (takeWhile (\<lambda>ok. ok \<noteq> 0) acceptedFlags)
      in if draftCount < a then None
         else (case eos_index is_eos (take a draftIDs) of
                 Some i \<Rightarrow>
                   Some \<lparr>results = take (Suc i) draftIDs, accepted = Suc i, observed = Suc i, keep = i,
                         commitIDs = take (Suc i) draftIDs\<rparr>
               | None \<Rightarrow>
                   (let nextID = (if a < draftCount then residualTokens ! a else bonusToken)
                    in Some \<lparr>results = take a draftIDs @ [nextID], accepted = a, observed = draftCount, keep = a,
                             commitIDs = take a draftIDs @ [nextID]\<rparr>)))"

text \<open>
  The whole of \<^verbatim>\<open>accept\<close> around it: the grammar, when it constrains, must take every
  committed token; on every exit the caches, which hold the current token and the drafts,
  are rolled back.  The result is the round or an error, the position, the offset of the
  caches, and the tokens reported to the drafter.
\<close>

record accept_state =
  position :: nat
  cache_offset :: nat
  reported :: "int list"

definition commitSpeculation :: "nat \<Rightarrow> nat \<Rightarrow> nat \<Rightarrow> nat" where
  "commitSpeculation kept draftCount before = (if kept < draftCount then before + kept else before + draftCount)"

definition accept_round ::
  "(int \<Rightarrow> bool) \<Rightarrow> (int \<Rightarrow> bool) option \<Rightarrow> int \<Rightarrow> int list \<Rightarrow> int list \<Rightarrow> int list \<Rightarrow> int \<Rightarrow> accept_state
   \<Rightarrow> round_result option \<times> accept_state" where
  "accept_round is_eos grammar current draftIDs acceptedFlags residualTokens bonusToken s =
     (let before = position s;
          draftCount = length draftIDs;
          failed = (None, s\<lparr>cache_offset := commitSpeculation 0 draftCount (before + 1)\<rparr>)
      in case accept_decision is_eos draftIDs acceptedFlags residualTokens bonusToken of
           None \<Rightarrow> failed
         | Some r \<Rightarrow>
             if (case grammar of None \<Rightarrow> False | Some takes \<Rightarrow> \<not> list_all takes (commitIDs r)) then failed
             else (Some r, s\<lparr>position := before + 1 + keep r,
                             cache_offset := commitSpeculation (keep r) draftCount (before + 1),
                             reported := reported s @ current # take (keep r) (commitIDs r)\<rparr>))"

section \<open>The session\<close>

record spec_stats =
  iterations :: nat
  drafted_sum :: nat
  accepted_sum :: nat
  maxDraft :: nat
  chosen :: "nat list"

record spec_session =
  depth :: depth_controller
  enabled :: bool
  draft_length :: nat
  stats :: spec_stats
  lastRoundStart :: "int option"
  prevDrafts :: int
  roundDrafts :: int

definition spec_open :: "depth_controller \<Rightarrow> bool \<Rightarrow> int \<Rightarrow> spec_session" where
  "spec_open d logprobs topLogprobs =
     (let on = (\<not> logprobs \<and> topLogprobs = 0)
      in \<lparr>depth = d, enabled = on, draft_length = (if on then scheduled d else 0),
          stats = \<lparr>iterations = 0, drafted_sum = 0, accepted_sum = 0, maxDraft = 0, chosen = []\<rparr>,
          lastRoundStart = None, prevDrafts = -1, roundDrafts = -1\<rparr>)"

definition beginRound :: "int \<Rightarrow> spec_session \<Rightarrow> spec_session" where
  "beginRound now s =
     (if \<not> enabled s then s
      else (let s1 = (case lastRoundStart s of
                        None \<Rightarrow> s
                      | Some start \<Rightarrow>
                          if roundDrafts s < 0 then s
                          else (let d = (if roundDrafts s = prevDrafts s
                                         then (depth s)\<lparr>dc_cost := cost_observe (roundDrafts s) (now - start) (dc_cost (depth s))\<rparr>
                                         else depth s)
                                in s\<lparr>depth := d, prevDrafts := roundDrafts s\<rparr>))
            in s1\<lparr>lastRoundStart := Some now\<rparr>))"

definition endRound :: "nat \<Rightarrow> nat \<Rightarrow> nat \<Rightarrow> spec_session \<Rightarrow> spec_session" where
  "endRound drafted acc obs s =
     (let st = stats s;
          s1 = s\<lparr>roundDrafts := int drafted,
                 stats := st\<lparr>maxDraft := max (maxDraft st) drafted, chosen := chosen st @ [drafted],
                             iterations := iterations st + 1, drafted_sum := drafted_sum st + drafted,
                             accepted_sum := accepted_sum st + acc\<rparr>\<rparr>
      in if \<not> enabled s then s1
         else (let d = (if 0 < obs then (depth s)\<lparr>dc_acc := acceptance_observe obs acc (dc_acc (depth s))\<rparr> else depth s);
                   (n, d') = next_depth d
               in s1\<lparr>depth := d', draft_length := n\<rparr>))"

section \<open>The decode loop\<close>

record decode_state =
  outputs :: "int list"
  streamed :: "int list"
  generated :: nat
  hit_eos :: bool

text \<open>The tokens of a run: those to stream, the count, whether decoding is done, and by an end of sequence.\<close>

fun run_loop :: "(int \<Rightarrow> bool) \<Rightarrow> nat \<Rightarrow> int list \<Rightarrow> nat \<Rightarrow> int list \<times> nat \<times> bool \<times> bool" where
  "run_loop is_eos limit [] gen = ([], gen, False, False)"
| "run_loop is_eos limit (t # ts) gen =
     (if is_eos t then ([], gen, True, True)
      else if limit \<le> Suc gen then ([t], Suc gen, True, False)
      else (let (out, gen', done, eos) = run_loop is_eos limit ts (Suc gen) in (t # out, gen', done, eos)))"

text \<open>The loop over the runs that the decoder returns; the whole run is recorded before it is streamed.\<close>

fun decode :: "(int \<Rightarrow> bool) \<Rightarrow> nat \<Rightarrow> int list list \<Rightarrow> decode_state \<Rightarrow> decode_state" where
  "decode is_eos limit [] s = s"
| "decode is_eos limit (run # runs) s =
     (if limit \<le> generated s then s
      else (let (out, gen, done, eos) = run_loop is_eos limit run (generated s);
                s' = s\<lparr>outputs := outputs s @ run, streamed := streamed s @ out, generated := gen, hit_eos := eos\<rparr>
            in if done then s' else decode is_eos limit runs s'))"

definition decode_start :: decode_state where
  "decode_start = \<lparr>outputs = [], streamed = [], generated = 0, hit_eos = False\<rparr>"

section \<open>Greedy decoding\<close>

text \<open>
  At temperature zero the target is a function from the tokens so far to the next one.  What
  the sampler then returns for drafts: a flag for each draft that is the target's choice,
  the target's choice at each position, and the one after the last.
\<close>

fun greedy :: "(int list \<Rightarrow> int) \<Rightarrow> int list \<Rightarrow> nat \<Rightarrow> int list" where
  "greedy target ctx 0 = []"
| "greedy target ctx (Suc n) = target ctx # greedy target (ctx @ [target ctx]) n"

definition greedy_flags :: "(int list \<Rightarrow> int) \<Rightarrow> int list \<Rightarrow> int list \<Rightarrow> int list" where
  "greedy_flags target ctx drafts =
     map (\<lambda>i. if drafts ! i = target (ctx @ take i drafts) then 1 else 0) [0..<length drafts]"

definition greedy_residuals :: "(int list \<Rightarrow> int) \<Rightarrow> int list \<Rightarrow> int list \<Rightarrow> int list" where
  "greedy_residuals target ctx drafts = map (\<lambda>i. target (ctx @ take i drafts)) [0..<length drafts]"

definition greedy_round :: "(int \<Rightarrow> bool) \<Rightarrow> (int list \<Rightarrow> int) \<Rightarrow> int list \<Rightarrow> int list \<Rightarrow> round_result option" where
  "greedy_round is_eos target ctx drafts =
     accept_decision is_eos drafts (greedy_flags target ctx drafts) (greedy_residuals target ctx drafts)
       (target (ctx @ drafts))"

text \<open>The runs of successive rounds, each from the tokens the previous ones returned.\<close>

fun spec_runs :: "(int \<Rightarrow> bool) \<Rightarrow> (int list \<Rightarrow> int) \<Rightarrow> int list \<Rightarrow> int list list \<Rightarrow> int list list" where
  "spec_runs is_eos target ctx [] = []"
| "spec_runs is_eos target ctx (drafts # proposals) =
     (case greedy_round is_eos target ctx drafts of
        None \<Rightarrow> []
      | Some r \<Rightarrow> results r # spec_runs is_eos target (ctx @ results r) proposals)"

section \<open>Lemmas\<close>

lemma greedy_length [simp]: "length (greedy target ctx n) = n"
  by (induction target ctx n rule: greedy.induct) auto

lemma greedy_add: "greedy target ctx (m + n) = greedy target ctx m @ greedy target (ctx @ greedy target ctx m) n"
  by (induction target ctx m rule: greedy.induct) auto

lemma greedy_take: "k \<le> n \<Longrightarrow> take k (greedy target ctx n) = greedy target ctx k"
  using greedy_add[of target ctx k "n - k"] by simp

text \<open>The accepted drafts are the target's own tokens.\<close>

lemma accepted_greedy:
  assumes "\<forall>i < k. ds ! i = target (ctx @ take i ds)" and "k \<le> length ds"
  shows "take k ds = greedy target ctx k"
  using assms
proof (induction k)
  case (Suc k)
  then have IH: "take k ds = greedy target ctx k" by simp
  have "take (Suc k) ds = take k ds @ [ds ! k]" using Suc.prems(2) by (simp add: take_Suc_conv_app_nth)
  also have "\<dots> = greedy target ctx k @ greedy target (ctx @ greedy target ctx k) 1"
    using Suc.prems IH by simp
  finally show ?case using greedy_add[of target ctx k 1] by simp
qed simp

lemma flags_prefix:
  "i < length (takeWhile (\<lambda>ok. ok \<noteq> 0) (greedy_flags target ctx ds)) \<Longrightarrow> ds ! i = target (ctx @ take i ds)"
proof -
  let ?fs = "greedy_flags target ctx ds"
  assume i: "i < length (takeWhile (\<lambda>ok. ok \<noteq> 0) ?fs)"
  then have "i < length ?fs" using length_takeWhile_le[of "\<lambda>ok. ok \<noteq> 0" ?fs] by linarith
  moreover have "?fs ! i \<noteq> 0"
    using nth_mem[OF i] takeWhile_nth[OF i] by (auto dest: set_takeWhileD)
  ultimately show ?thesis by (simp add: greedy_flags_def split: if_splits)
qed

lemma eos_index_Some: "eos_index is_eos ts = Some i \<Longrightarrow> i < length ts \<and> is_eos (ts ! i) \<and> (\<forall>j < i. \<not> is_eos (ts ! j))"
proof (induction ts arbitrary: i)
  case (Cons t ts)
  then show ?case by (cases i) (auto split: if_splits simp: less_Suc_eq_0_disj)
qed simp

text \<open>A round returns tokens of the greedy sequence, at least one and at most one more than drafted.\<close>

lemma greedy_round_ok:
  obtains r where "greedy_round is_eos target ctx drafts = Some r"
    and "results r = greedy target ctx (length (results r))"
    and "0 < length (results r)" and "length (results r) \<le> length drafts + 1"
proof -
  let ?fs = "greedy_flags target ctx drafts"
  define a where "a = length (takeWhile (\<lambda>ok. ok \<noteq> 0) ?fs)"
  have le: "a \<le> length drafts" using length_takeWhile_le[of "\<lambda>ok. ok \<noteq> 0" ?fs] by (simp add: a_def greedy_flags_def)
  have acc: "take a drafts = greedy target ctx a"
    using accepted_greedy[of a drafts target ctx] flags_prefix[of _ target ctx drafts] le by (simp add: a_def)
  show ?thesis
  proof (cases "eos_index is_eos (take a drafts)")
    case (Some i)
    then have i: "i < a" using eos_index_Some[OF Some] le by simp
    then have "take (Suc i) (take a drafts) = greedy target ctx (Suc i)" unfolding acc by (intro greedy_take) simp
    then have t: "take (Suc i) drafts = greedy target ctx (Suc i)" using i by (simp only: take_take min_def) simp
    have "greedy_round is_eos target ctx drafts = Some \<lparr>results = take (Suc i) drafts, accepted = Suc i,
        observed = Suc i, keep = i, commitIDs = take (Suc i) drafts\<rparr>"
      using le unfolding greedy_round_def accept_decision_def Let_def a_def[symmetric] Some by simp
    then show ?thesis by (rule that) (use t i le in \<open>simp_all del: greedy.simps\<close>)
  next
    case None
    let ?next = "if a < length drafts then greedy_residuals target ctx drafts ! a else target (ctx @ drafts)"
    have n: "?next = target (ctx @ take a drafts)" using le by (auto simp: greedy_residuals_def)
    have t: "take a drafts @ [?next] = greedy target ctx (Suc a)"
      using greedy_add[of target ctx a 1] unfolding n acc by simp
    have "greedy_round is_eos target ctx drafts = Some \<lparr>results = take a drafts @ [?next], accepted = a,
        observed = length drafts, keep = a, commitIDs = take a drafts @ [?next]\<rparr>"
      using le unfolding greedy_round_def accept_decision_def Let_def a_def[symmetric] None by simp
    then show ?thesis by (rule that) (use t le in \<open>simp_all del: greedy.simps if_split\<close>)
  qed
qed

lemma spec_runs_greedy:
  "concat (spec_runs is_eos target ctx ps) = greedy target ctx (length (concat (spec_runs is_eos target ctx ps))) \<and>
   length ps \<le> length (concat (spec_runs is_eos target ctx ps))"
proof (induction ps arbitrary: ctx)
  case (Cons drafts ps)
  obtain r where r: "greedy_round is_eos target ctx drafts = Some r"
    "results r = greedy target ctx (length (results r))" "0 < length (results r)"
    using greedy_round_ok[of is_eos target ctx drafts] by metis
  let ?rest = "concat (spec_runs is_eos target (ctx @ results r) ps)"
  have "results r @ ?rest = greedy target ctx (length (results r) + length ?rest)"
    using Cons.IH[of "ctx @ results r"] r(2) greedy_add[of target ctx "length (results r)" "length ?rest"] by simp
  moreover have "length ps \<le> length ?rest" using Cons.IH[of "ctx @ results r"] by blast
  then have "length (drafts # ps) \<le> length (results r) + length ?rest" using r(3) unfolding list.size by linarith
  ultimately show ?case using r(1) by simp
qed simp

text \<open>What a run streams, and what all runs stream.\<close>

lemma run_loop_prefix: "run_loop is_eos limit ts gen = (out, gen', done, eos) \<Longrightarrow> prefix out ts \<and> (\<not> done \<longrightarrow> out = ts)"
proof (induction is_eos limit ts gen arbitrary: out gen' "done" eos rule: run_loop.induct)
  case (2 is_eos limit t ts gen)
  then show ?case by (fastforce split: if_splits prod.splits)
qed simp

lemma run_loop_count:
  "gen < limit \<Longrightarrow> run_loop is_eos limit ts gen = (out, gen', done, eos) \<Longrightarrow>
     gen' = gen + length out \<and> (\<not> done \<longrightarrow> gen' < limit)"
proof (induction is_eos limit ts gen arbitrary: out gen' "done" eos rule: run_loop.induct)
  case (2 is_eos limit t ts gen)
  then show ?case by (fastforce split: if_splits prod.splits)
qed simp

lemma run_loop_take:
  "gen < limit \<Longrightarrow> run_loop is_eos limit ts gen = (out, gen', done, eos) \<Longrightarrow>
     out = take (limit - gen) (takeWhile (\<lambda>t. \<not> is_eos t) ts)"
proof (induction is_eos limit ts gen arbitrary: out gen' "done" eos rule: run_loop.induct)
  case (2 is_eos limit t ts gen)
  show ?case
  proof (cases "is_eos t \<or> limit \<le> Suc gen")
    case True
    moreover have "limit - gen = Suc 0" if "limit \<le> Suc gen" using that 2(2) by simp
    ultimately show ?thesis using 2(3) by (cases "is_eos t") auto
  next
    case False
    obtain o' g' d' e' where rec: "run_loop is_eos limit ts (Suc gen) = (o', g', d', e')" by (metis prod_cases4)
    then have "out = t # o'" using False 2(3) by auto
    moreover have "limit - gen = Suc (limit - Suc gen)" using False by arith
    moreover have "o' = take (limit - Suc gen) (takeWhile (\<lambda>t. \<not> is_eos t) ts)"
      using 2(1)[OF _ _ _ rec] False by simp
    ultimately show ?thesis using False by simp
  qed
qed simp

lemma run_loop_done:
  "gen < limit \<Longrightarrow> run_loop is_eos limit ts gen = (out, gen', True, eos) \<Longrightarrow>
     limit \<le> gen' \<or> (\<exists>x \<in> set ts. is_eos x)"
proof (induction is_eos limit ts gen arbitrary: out gen' eos rule: run_loop.induct)
  case (2 is_eos limit t ts gen)
  show ?case
  proof (cases "is_eos t \<or> limit \<le> Suc gen")
    case True
    with 2(2,3) show ?thesis by auto
  next
    case False
    obtain o' g' d' e' where rec: "run_loop is_eos limit ts (Suc gen) = (o', g', d', e')" by (metis prod_cases4)
    with False 2(3) have "gen' = g'" "d'" by auto
    with 2(1)[of o' g' e'] rec False show ?thesis by auto
  qed
qed simp

lemma decode_stream:
  "streamed (decode is_eos limit runs s) =
     streamed s @ take (limit - generated s) (takeWhile (\<lambda>t. \<not> is_eos t) (concat runs)) \<and>
   generated (decode is_eos limit runs s) = generated s + length (take (limit - generated s) (takeWhile (\<lambda>t. \<not> is_eos t) (concat runs)))"
proof (induction runs arbitrary: s)
  case (Cons run runs)
  let ?ok = "\<lambda>t. \<not> is_eos t"
  show ?case
  proof (cases "limit \<le> generated s")
    case False
    obtain out gen "done" eos where r: "run_loop is_eos limit run (generated s) = (out, gen, done, eos)" by (metis prod_cases4)
    have lt: "generated s < limit" using False by simp
    note take = run_loop_take[OF lt r] and count = run_loop_count[OF lt r]
    let ?s = "s\<lparr>outputs := outputs s @ run, streamed := streamed s @ out, generated := gen, hit_eos := eos\<rparr>"
    show ?thesis
    proof (cases "done")
      case True
      have step: "decode is_eos limit (run # runs) s = ?s" using False r True by simp
      have o: "out = take (limit - generated s) (takeWhile ?ok (concat (run # runs)))"
      proof (cases "\<exists>x \<in> set run. is_eos x")
        case all: False
        then have t: "takeWhile ?ok run = run" "takeWhile ?ok (concat (run # runs)) = run @ takeWhile ?ok (concat runs)"
          by (simp_all add: takeWhile_eq_all_conv takeWhile_append2)
        have "limit \<le> gen" using run_loop_done[OF lt, of is_eos run out gen eos] r True all by simp
        then have "limit - generated s \<le> length run" using count take unfolding t(1) by simp
        then show ?thesis using take unfolding t by simp
      next
        case some: True
        then have "takeWhile ?ok (concat (run # runs)) = takeWhile ?ok run" by (auto simp: takeWhile_append1)
        with take show ?thesis by simp
      qed
      then show ?thesis using count unfolding step o[symmetric] by simp
    next
      case notdone: False
      have step: "decode is_eos limit (run # runs) s = decode is_eos limit runs ?s" using False r notdone by simp
      have out: "out = run" "gen = generated s + length run" "gen < limit"
        using run_loop_prefix[OF r] count notdone by simp_all
      have "length run \<le> length (takeWhile ?ok run)" using take unfolding out(1) by (metis length_take min.cobounded1)
      then have "takeWhile ?ok run = run" by (metis length_takeWhile_le order_antisym takeWhile_eq_take take_all order_refl)
      then have t: "takeWhile ?ok (concat (run # runs)) = run @ takeWhile ?ok (concat runs)"
        by (simp add: takeWhile_eq_all_conv takeWhile_append2)
      show ?thesis unfolding step t using Cons.IH[of ?s] out by simp
    qed
  qed simp
qed simp

lemma decode_recorded:
  "streamed s = outputs s \<Longrightarrow> prefix (streamed (decode is_eos limit runs s)) (outputs (decode is_eos limit runs s))"
proof (induction runs arbitrary: s)
  case (Cons run runs)
  obtain out gen "done" eos where r: "run_loop is_eos limit run (generated s) = (out, gen, done, eos)" by (metis prod_cases4)
  with run_loop_prefix[OF r] Cons show ?case by (simp add: Let_def)
qed simp

section \<open>Properties\<close>

text \<open>
  C14. Speculative decoding streams exactly what plain decoding streams: with a greedy target,
  whatever the drafter proposes in each round, the text is the target's own tokens up to the
  end of sequence or the budget.
\<close>

theorem speculative_equals_plain:
  assumes "limit \<le> length proposals"
  shows "streamed (decode is_eos limit (spec_runs is_eos target ctx proposals) decode_start) =
    streamed (decode is_eos limit (map (\<lambda>t. [t]) (greedy target ctx limit)) decode_start)"
proof -
  let ?runs = "spec_runs is_eos target ctx proposals" and ?ok = "\<lambda>t. \<not> is_eos t"
  let ?n = "length (concat ?runs)"
  have eq: "concat ?runs = greedy target ctx ?n" and "length proposals \<le> ?n"
    using spec_runs_greedy[of is_eos target ctx proposals] by simp_all
  then have n: "?n = limit + (?n - limit)" using assms by simp
  have cut: "take limit (takeWhile ?ok (xs @ ys)) = take limit (takeWhile ?ok xs)" if "length xs = limit" for xs ys
  proof (cases "\<forall>x \<in> set xs. ?ok x")
    case True
    then have "takeWhile ?ok xs = xs" "takeWhile ?ok (xs @ ys) = xs @ takeWhile ?ok ys"
      by (simp_all add: takeWhile_eq_all_conv takeWhile_append2)
    then show ?thesis unfolding \<open>takeWhile ?ok xs = xs\<close> \<open>takeWhile ?ok (xs @ ys) = xs @ takeWhile ?ok ys\<close> using that by simp
  next
    case False
    then obtain x where "x \<in> set xs" "\<not> ?ok x" by blast
    then show ?thesis by (simp add: takeWhile_append1)
  qed
  have "greedy target ctx ?n = greedy target ctx limit @ greedy target (ctx @ greedy target ctx limit) (?n - limit)"
    by (subst n) (rule greedy_add)
  then have "take limit (takeWhile ?ok (concat ?runs)) = take limit (takeWhile ?ok (greedy target ctx limit))"
    by (subst eq) (simp only: cut[OF greedy_length])
  moreover have "concat (map (\<lambda>t. [t]) xs) = xs" for xs :: "int list" by (induction xs) simp_all
  ultimately show ?thesis using decode_stream[of is_eos limit] by (simp add: decode_start_def)
qed

theorem speculative_equals_plain_witness:
  "streamed (decode (\<lambda>t. t = 5) 6 (spec_runs (\<lambda>t. t = 5) (\<lambda>ctx. int (length ctx)) [9] [[1, 2, 7], [4], [], [], [], []]) decode_start) =
   [1, 2, 3, 4]"
  using speculative_equals_plain[of 6 "[[1, 2, 7], [4], [], [], [], []]" "\<lambda>t. t = 5" "\<lambda>ctx. int (length ctx)" "[9]"]
  by (simp add: decode_start_def numeral_eq_Suc)

text \<open>
  The decode loop streams no end-of-sequence token and no more than the budget, counts
  what it streams, and has recorded everything it streamed, so the caches never rest ahead
  of the recorded tokens.
\<close>

theorem decode_within_budget:
  "length (streamed (decode is_eos limit runs decode_start)) \<le> limit \<and>
   (\<forall>t \<in> set (streamed (decode is_eos limit runs decode_start)). \<not> is_eos t) \<and>
   generated (decode is_eos limit runs decode_start) = length (streamed (decode is_eos limit runs decode_start)) \<and>
   prefix (streamed (decode is_eos limit runs decode_start)) (outputs (decode is_eos limit runs decode_start))"
proof -
  let ?d = "decode is_eos limit runs decode_start"
  have s: "streamed ?d = take limit (takeWhile (\<lambda>t. \<not> is_eos t) (concat runs))" "generated ?d = length (streamed ?d)"
    using decode_stream[of is_eos limit runs decode_start] by (simp_all add: decode_start_def)
  have "prefix (streamed ?d) (outputs ?d)"
    using decode_recorded[of decode_start is_eos limit runs] by (simp add: decode_start_def)
  then show ?thesis using s by (auto dest: in_set_takeD set_takeWhileD)
qed

theorem decode_within_budget_witness:
  "streamed (decode (\<lambda>t. t = 5) 2 [[1], [2, 3, 5]] decode_start) = [1, 2] \<and>
   length (streamed (decode (\<lambda>t. t = 5) 2 [[1], [2, 3, 5]] decode_start)) \<le> 2"
  using decode_within_budget[of "\<lambda>t. t = 5" 2 "[[1], [2, 3, 5]]"] by (simp add: decode_start_def)

lemma accept_decision_shape:
  assumes "accept_decision is_eos draftIDs flags residual bonus = Some r"
  shows "keep r \<le> accepted r \<and> accepted r \<le> length draftIDs \<and> keep r < length (commitIDs r) \<and>
    take (keep r) (commitIDs r) = take (keep r) draftIDs \<and> results r = commitIDs r \<and>
    (\<forall>t \<in> set (take (keep r) draftIDs). \<not> is_eos t) \<and> observed r \<le> length draftIDs"
proof -
  let ?a = "length (takeWhile (\<lambda>ok. ok \<noteq> 0) flags)"
  have a: "?a \<le> length draftIDs" using assms by (auto simp: accept_decision_def Let_def split: if_splits)
  show ?thesis
  proof (cases "eos_index is_eos (take ?a draftIDs)")
    case (Some i)
    note e = eos_index_Some[OF Some]
    then have "i < ?a" using a by simp
    moreover have "\<not> is_eos t" if t: "t \<in> set (take i draftIDs)" for t
    proof -
      obtain j where "j < i" "t = draftIDs ! j" using t by (auto simp: in_set_conv_nth)
      then show ?thesis using e \<open>i < ?a\<close> by auto
    qed
    ultimately show ?thesis using assms Some a by (auto simp: accept_decision_def Let_def)
  next
    case None
    have none: "eos_index is_eos ts = None \<Longrightarrow> \<forall>t \<in> set ts. \<not> is_eos t" for ts
      by (induction ts) (auto split: if_splits)
    then show ?thesis using assms None none[OF None] a by (auto simp: accept_decision_def Let_def)
  qed
qed

text \<open>
  After every round, accepted or failed, the caches hold the tokens before the round, the
  current token and the kept drafts, and nothing of the rejected ones; of an accepted round
  exactly these tokens are reported to the drafter, and none of them ends the sequence.
\<close>

theorem round_keeps_caches_level:
  assumes "accept_round is_eos grammar current draftIDs flags residual bonus s = (r, s')"
  shows "case r of
      None \<Rightarrow> cache_offset s' = position s + 1 \<and> position s' = position s \<and> reported s' = reported s
    | Some rr \<Rightarrow> cache_offset s' = position s' \<and> position s' = position s + 1 + keep rr \<and>
        reported s' = reported s @ current # take (keep rr) draftIDs \<and> keep rr \<le> length draftIDs \<and>
        list_all (\<lambda>t. \<not> is_eos t) (take (keep rr) draftIDs) \<and> keep rr < length (results rr)"
proof (cases "accept_decision is_eos draftIDs flags residual bonus")
  case None
  with assms show ?thesis by (auto simp: accept_round_def Let_def commitSpeculation_def)
next
  case (Some rr)
  note shape = accept_decision_shape[OF Some]
  show ?thesis
  proof (cases "case grammar of None \<Rightarrow> False | Some takes \<Rightarrow> \<not> list_all takes (commitIDs rr)")
    case True
    with assms Some show ?thesis by (auto simp: accept_round_def Let_def commitSpeculation_def)
  next
    case False
    have "r = Some rr" "position s' = position s + 1 + keep rr"
      "cache_offset s' = commitSpeculation (keep rr) (length draftIDs) (position s + 1)"
      "reported s' = reported s @ current # take (keep rr) (commitIDs rr)"
      using assms Some False by (auto simp: accept_round_def Let_def)
    with shape show ?thesis by (auto simp: commitSpeculation_def list_all_iff)
  qed
qed

theorem round_keeps_caches_level_witness:
  "cache_offset (snd (accept_round (\<lambda>t. t = 5) None 9 [1, 2, 3] [1, 1, 0] [0, 0, 8] 7
     \<lparr>position = 10, cache_offset = 10, reported = []\<rparr>)) = 13"
proof -
  let ?s = "\<lparr>position = 10, cache_offset = 10, reported = []\<rparr>"
  have e: "fst (accept_round (\<lambda>t. t = 5) None 9 [1, 2, 3] [1, 1, 0] [0, 0, 8] 7 ?s) =
      Some \<lparr>results = [1, 2, 8], accepted = 2, observed = 3, keep = 2, commitIDs = [1, 2, 8]\<rparr>"
    by (simp add: accept_round_def accept_decision_def Let_def)
  from round_keeps_caches_level[OF prod.collapse[symmetric],
      of "\<lambda>t. t = 5" None 9 "[1, 2, 3]" "[1, 1, 0]" "[0, 0, 8]" 7 ?s]
  show ?thesis unfolding e by simp
qed

end
