(* ===== verification/ParserKit.thy ===== *)
theory ParserKit
  imports StreamText
begin

text \<open>
  What the output parsers of the model families (\<^verbatim>\<open>model/parsers\<close>) share: the kinds of events
  they report, the rule for what may be shown at once, and the contract of a parser that
  takes every byte of its input exactly once.
\<close>

section \<open>White space\<close>

text \<open>Text that consists of white space.\<close>

inductive blank :: "string \<Rightarrow> bool" where
  "blank []"
| "u \<noteq> [] \<Longrightarrow> decode_rune u = (r, length u) \<Longrightarrow> is_space r \<Longrightarrow> blank v \<Longrightarrow> blank (u @ v)"

lemma blank_append: "blank v \<Longrightarrow> blank w \<Longrightarrow> blank (v @ w)"
  by (induction rule: blank.induct) (auto intro: blank.intros)

lemma blank_Nil [simp]: "blank []"
  by (rule blank.intros)

lemma blank_one: "u \<noteq> [] \<Longrightarrow> decode_rune u = (r, length u) \<Longrightarrow> is_space r \<Longrightarrow> blank u"
  using blank.intros(2)[of u r "[]"] by simp

lemma trim_left_split: "\<exists>w. blank w \<and> s = w @ trim_left s"
proof (induction s rule: trim_left.induct)
  case (1 s)
  show ?case
  proof (cases "s \<noteq> [] \<and> is_space (fst (decode_rune s))")
    case True
    obtain r k where d: "decode_rune s = (r, k)" by fastforce
    have k: "1 \<le> k" "k \<le> length s" using decode_rune_width[of s r k] True d by auto
    have "(r, k) \<noteq> (rune_error, 1)" using True d by auto
    then have "decode_rune (take k s) = (r, length (take k s))" using decode_rune_take[OF d] k by (simp add: min_def)
    moreover have "take k s \<noteq> []" using k True by auto
    ultimately have b: "blank (take k s)" using True d by (auto intro: blank_one)
    obtain w where w: "blank w" "drop k s = w @ trim_left (drop k s)" using 1 True d by auto
    then have "s = (take k s @ w) @ trim_left s"
      using True d trim_left_space[of s] by (metis append_assoc append_take_drop_id snd_conv)
    with blank_append[OF b w(1)] show ?thesis by blast
  next
    case False
    then show ?thesis by (intro exI[of _ "[]"]) (auto simp: trim_left_nospace)
  qed
qed

lemma decode_last_rune_suffix:
  assumes "decode_last_rune s = (r, k)" and "r \<noteq> rune_error" and "s \<noteq> []"
  shows "decode_rune (drop (length s - k) s) = (r, k)"
proof (cases "byte_val (last s) < 0x80")
  case True
  then have "r = byte_val (last s)" "k = 1" using assms(1,3) by (simp_all add: decode_last_rune_def)
  moreover have "drop (length s - 1) s = [last s]" using assms(3) by (cases s rule: rev_cases) auto
  ultimately show ?thesis using True by (simp add: decode_rune_ascii)
next
  case False
  then show ?thesis
    using assms by (auto simp: decode_last_rune_def Let_def split: prod.splits if_splits)
qed

lemma trim_right_split: "\<exists>w. blank w \<and> s = trim_right s @ w"
proof (induction s rule: trim_right.induct)
  case (1 s)
  show ?case
  proof (cases "s \<noteq> [] \<and> is_space (fst (decode_last_rune s))")
    case True
    obtain r k where d: "decode_last_rune s = (r, k)" by fastforce
    have k: "1 \<le> k" "k \<le> length s" using decode_last_rune_width[of s r k] True d by auto
    let ?u = "drop (length s - k) s"
    have "r \<noteq> rune_error" using True d by auto
    then have "decode_rune ?u = (r, length ?u)" using decode_last_rune_suffix[OF d] True k by simp
    moreover have "?u \<noteq> []" using k by simp
    ultimately have b: "blank ?u" using True d by (auto intro: blank_one)
    obtain w where w: "blank w" "take (length s - k) s = trim_right (take (length s - k) s) @ w" using 1 True d by auto
    then have "s = trim_right s @ (w @ ?u)"
      using True d trim_right_space[of s] by (metis append_assoc append_take_drop_id snd_conv)
    with blank_append[OF w(1) b] show ?thesis by blast
  next
    case False
    then show ?thesis by (intro exI[of _ "[]"]) (auto simp: trim_right_nospace)
  qed
qed

lemma trim_left_empty: "trim_left s = [] \<Longrightarrow> blank s"
  using trim_left_split[of s] by auto

section \<open>Reading ASCII text\<close>

text \<open>Rules that evaluate the text operations on concrete ASCII text.\<close>

named_theorems ascii_eval

lemma decode_last_rune_byte: "byte_val (last (c # s)) < 0x80 \<Longrightarrow> decode_last_rune (c # s) = (byte_val (last (c # s)), 1)"
  by (simp add: decode_last_rune_def)

lemma butlast_take_Cons: "take (length (c # s) - 1) (c # s) = butlast (c # s)"
  by (simp add: butlast_conv_take)

lemma trim_right_ascii [ascii_eval]:
  assumes "byte_val (last (c # s)) < 0x80"
  shows "trim_right (c # s) = (if is_space (byte_val (last (c # s))) then trim_right (butlast (c # s)) else c # s)"
proof -
  note r = trim_right_space[of "c # s"] trim_right_nospace[of "c # s"]
  show ?thesis
    by (cases "is_space (byte_val (last (c # s)))")
      (use r in \<open>simp_all only: decode_last_rune_byte[OF assms] fst_conv snd_conv butlast_take_Cons list.distinct(2) if_True if_False simp_thms\<close>)
qed

lemma trailingWhitespaceLen_Nil [simp]: "trailingWhitespaceLen [] = 0"
  by (simp add: trailingWhitespaceLen.simps)

lemma trailingWhitespaceLen_ascii [ascii_eval]:
  assumes "byte_val (last (c # s)) < 0x80"
  shows "trailingWhitespaceLen (c # s) =
    (if is_space (byte_val (last (c # s))) then Suc (trailingWhitespaceLen (butlast (c # s))) else 0)"
proof -
  have "(byte_val (last (c # s)), 1) \<noteq> (rune_error, 1)" using assms by (simp add: rune_error_def)
  then show ?thesis
    unfolding trailingWhitespaceLen.simps[of "c # s"] decode_last_rune_byte[OF assms] fst_conv snd_conv butlast_take_Cons
    by simp
qed

lemmas [ascii_eval] = trim_left_ascii is_space_def index_of.simps overlap_def splitAtTag_def cut_def Let_def

section \<open>Holding back\<close>

text \<open>
  What may be shown of \<open>acc\<close> when its last \<open>overlapLen\<close> bytes may start a tag: all but
  these and the white space before them.  The parsers repeat this code in every state
  that collects text.
\<close>

definition hold_back :: "string \<Rightarrow> nat \<Rightarrow> string \<times> string" where
  "hold_back acc overlapLen =
     (let beforePartialTag = take (length acc - overlapLen) acc;
          ambiguousStart = length beforePartialTag - trailingWhitespaceLen beforePartialTag
      in (take ambiguousStart acc, drop ambiguousStart acc))"

lemma hold_back_split:
  assumes "hold_back acc n = (shown, kept)" and "n \<le> length acc"
  shows "acc = shown @ kept" and "\<exists>w. blank w \<and> kept = w @ drop (length acc - n) acc"
proof -
  let ?b = "take (length acc - n) acc"
  have s: "shown = take (length ?b - trailingWhitespaceLen ?b) acc" "kept = drop (length ?b - trailingWhitespaceLen ?b) acc"
    using assms(1) by (auto simp: hold_back_def Let_def)
  show "acc = shown @ kept" unfolding s by simp
  have "shown = take (length ?b - trailingWhitespaceLen ?b) ?b"
    unfolding s using trailingWhitespaceLen_le[of ?b] by (simp add: min_def)
  then have "shown = trim_right ?b" using take_trailingWhitespaceLen by metis
  then obtain w where w: "blank w" "?b = shown @ w" using trim_right_split by metis
  then have "shown @ kept = shown @ w @ drop (length acc - n) acc"
    using \<open>acc = shown @ kept\<close> by (metis append_assoc append_take_drop_id)
  with w(1) show "\<exists>w. blank w \<and> kept = w @ drop (length acc - n) acc" by auto
qed

lemma hold_back_zero:
  "hold_back acc 0 = (shown, kept) \<Longrightarrow> acc = shown @ kept \<and> blank kept"
  using hold_back_split[of acc 0 shown kept] by auto

lemma splitAtTag_spells:
  assumes "contains sb tag" and "splitAtTag sb tag trimAfter = (before, after, sb')"
  shows "\<exists>w w'. blank w \<and> blank w' \<and> sb = before @ w @ tag @ w' @ sb' \<and> after = sb'"
proof -
  obtain i where i: "index_of tag sb = Some i" using assms(1) by blast
  have e: "sb = take i sb @ tag @ drop (i + length tag) sb"
    using index_of_decomp[OF i] .
  obtain w where w: "blank w" "take i sb = trim_right (take i sb) @ w" using trim_right_split by blast
  obtain w' where w': "blank w'" "drop (i + length tag) sb = w' @ trim_left (drop (i + length tag) sb)"
    using trim_left_split by blast
  have r: "before = trim_right (take i sb)" "after = sb'"
    "sb' = (if trimAfter then trim_left (drop (i + length tag) sb) else drop (i + length tag) sb)"
    using assms(2) by (auto simp: splitAtTag_found[OF i])
  show ?thesis
  proof (cases trimAfter)
    case True
    have "sb = before @ w @ tag @ w' @ sb'" using e w(2) w'(2) r True by (metis append_assoc)
    with w(1) w'(1) r(2) show ?thesis by blast
  next
    case False
    have "sb = before @ w @ tag @ [] @ sb'" using e w(2) r False by (metis append_assoc append_Nil)
    with w(1) r(2) show ?thesis by (intro exI[of _ w] exI[of _ "[]"]) simp
  qed
qed

text \<open>What a parser may hold for a tag: white space and the start of the tag.\<close>

definition may_start :: "string \<Rightarrow> string \<Rightarrow> bool" where
  "may_start tag buf \<longleftrightarrow> (\<exists>w u. blank w \<and> strict_prefix u tag \<and> buf = w @ u)"

lemma prefix_may_start:
  assumes "prefix (trim_left buf) tag" and "\<not> prefix tag (trim_left buf)"
  shows "may_start tag buf"
proof -
  obtain w where "blank w" "buf = w @ trim_left buf" using trim_left_split by blast
  moreover have "strict_prefix (trim_left buf) tag" using assms by (auto simp: strict_prefix_def)
  ultimately show ?thesis unfolding may_start_def by blast
qed

lemma held_strict: "\<not> contains acc tag \<Longrightarrow> tag \<noteq> [] \<Longrightarrow> strict_prefix (held acc tag) tag"
proof -
  assume a: "\<not> contains acc tag" "tag \<noteq> []"
  have "held acc tag \<noteq> tag"
  proof
    assume "held acc tag = tag"
    then have "suffix tag acc" using suffix_held[of acc tag] by simp
    then obtain zs where "acc = zs @ tag" by (auto simp: suffix_def)
    then have "prefix tag (drop (length zs) acc)" by simp
    with index_of_NoneD[of tag acc "length zs"] a(1) show False by (auto simp: option.distinct)
  qed
  with prefix_held[of acc tag] show ?thesis by (simp add: strict_prefix_def)
qed

lemma hold_back_held:
  assumes "hold_back acc (overlap acc tag) = (shown, kept)" and "\<not> contains acc tag" and "tag \<noteq> []"
  shows "acc = shown @ kept" and "may_start tag kept"
  using hold_back_split[OF assms(1) overlap_le] held_strict[OF assms(2,3)]
  by (auto simp: may_start_def held_def)

lemma splitAtTag_before:
  "contains acc tag \<Longrightarrow> splitAtTag acc tag tr = (before, after, sb) \<Longrightarrow> before = trim_right (take (the (index_of tag acc)) acc)"
  by (auto simp: splitAtTag_found)

section \<open>Tags are never shown\<close>

text \<open>
  No occurrence of the tag starts in what was shown, whatever comes after the text that is
  still held.
\<close>

definition clear_of :: "string \<Rightarrow> string \<Rightarrow> string \<Rightarrow> bool" where
  "clear_of tag shown pending \<longleftrightarrow> (\<forall>x i. i < length shown \<longrightarrow> \<not> prefix tag (drop i (shown @ pending @ x)))"

lemma clear_of_Nil [simp]: "clear_of tag [] pending"
  by (simp add: clear_of_def)

lemma clear_of_extend: "clear_of tag shown pending \<Longrightarrow> clear_of tag shown (pending @ t)"
  unfolding clear_of_def by (metis append_assoc)

lemma clear_of_not_contains:
  assumes "clear_of tag shown pending" and "tag \<noteq> []"
  shows "\<not> contains shown tag"
proof
  assume "contains shown tag"
  then obtain i where i: "index_of tag shown = Some i" by blast
  have "prefix tag (drop i shown)" "i < length shown"
    using index_of_SomeD[OF i] index_of_le[OF i] assms(2) by (simp, cases tag, auto)
  then have "prefix tag (drop i (shown @ pending @ []))" by (auto simp: prefix_def)
  with \<open>i < length shown\<close> assms(1) show False unfolding clear_of_def by blast
qed

lemma clear_of_shown:
  assumes "clear_of tag shown (a @ pending)" and "clear_of tag a pending"
  shows "clear_of tag (shown @ a) pending"
  unfolding clear_of_def
proof (intro allI impI)
  fix x i assume i: "i < length (shown @ a)"
  show "\<not> prefix tag (drop i ((shown @ a) @ pending @ x))"
  proof (cases "i < length shown")
    case True
    have "\<not> prefix tag (drop i (shown @ (a @ pending) @ x))" using assms(1) True unfolding clear_of_def by blast
    then show ?thesis by simp
  next
    case False
    then have "i - length shown < length a" using i by simp
    then have "\<not> prefix tag (drop (i - length shown) (a @ pending @ x))" using assms(2) unfolding clear_of_def by blast
    then show ?thesis using False by simp
  qed
qed

lemma hold_back_clear:
  assumes "hold_back acc n = (shown, kept)" and "\<not> contains acc tag" and "overlap acc tag \<le> n" and "n \<le> length acc"
  shows "clear_of tag shown kept"
  unfolding clear_of_def
proof (intro allI impI)
  fix x i assume i: "i < length shown"
  have "length shown \<le> length acc - n"
    using assms(1,4) by (auto simp: hold_back_def Let_def)
  then have "i < length (unheld acc tag)" using i assms(3,4) by (simp add: unheld_def)
  then have "\<not> prefix tag (drop i (acc @ x))" using no_early_occurrence assms(2) by blast
  then show "\<not> prefix tag (drop i (shown @ kept @ x))" using hold_back_split(1)[OF assms(1,4)] by simp
qed

text \<open>Text shown before a tag contains no tag that does not begin before it.\<close>

lemma before_not_contains:
  assumes "clear_of tag shown acc" and "index_of tag acc = None \<or> n \<le> the (index_of tag acc)" and "tag \<noteq> []"
  shows "\<not> contains (shown @ trim_right (take n acc)) tag"
proof
  let ?b = "trim_right (take n acc)"
  obtain w where "take n acc = ?b @ w" using trim_right_split by blast
  then obtain v where v: "acc = ?b @ v" by (metis append_assoc append_take_drop_id)
  have len: "length ?b \<le> n" using \<open>take n acc = ?b @ w\<close> by (metis append_eq_conv_conj length_take min.cobounded2 min.bounded_iff length_append le_add1)
  assume "contains (shown @ ?b) tag"
  then obtain i where i: "index_of tag (shown @ ?b) = Some i" by blast
  have p: "prefix tag (drop i (shown @ ?b))" using index_of_SomeD[OF i] by blast
  show False
  proof (cases "i < length shown")
    case True
    have "prefix tag (drop i (shown @ ?b) @ v)" using p by (rule prefix_prefix)
    then have "prefix tag (drop i (shown @ acc @ []))" using True v by simp
    with assms(1) True show False unfolding clear_of_def by blast
  next
    case False
    let ?j = "i - length shown"
    have "prefix tag (drop ?j ?b)" using p False by simp
    moreover have j: "?j < length ?b" using index_of_le[OF i] assms(3) False by (cases tag) auto
    ultimately have q: "prefix tag (drop ?j acc)" by (subst v) (auto simp: prefix_def)
    then have "index_of tag acc \<noteq> None" using index_of_NoneD by blast
    then obtain k where k: "index_of tag acc = Some k" by blast
    then have "\<not> ?j < k" using index_of_SomeD[OF k] q by blast
    with assms(2) k j len show False by simp
  qed
qed

section \<open>Events\<close>

text \<open>
  The events of the parsers; every parser file declares its own copy of them.  \<open>'c\<close> is the
  raw text of a tool call, or the parsed call.
\<close>

datatype 'c parser_event = EventContent string | EventThinking string | EventToolCall 'c

text \<open>The parsers report text only if there is any.\<close>

definition text_event :: "(string \<Rightarrow> 'e) \<Rightarrow> string \<Rightarrow> 'e list" where
  "text_event ev t = (if t = [] then [] else [ev t])"

fun content_of :: "'c parser_event list \<Rightarrow> string" where
  "content_of [] = []"
| "content_of (EventContent t # es) = t @ content_of es"
| "content_of (_ # es) = content_of es"

fun thinking_of :: "'c parser_event list \<Rightarrow> string" where
  "thinking_of [] = []"
| "thinking_of (EventThinking t # es) = t @ thinking_of es"
| "thinking_of (_ # es) = thinking_of es"

fun calls_of :: "'c parser_event list \<Rightarrow> 'c list" where
  "calls_of [] = []"
| "calls_of (EventToolCall c # es) = c # calls_of es"
| "calls_of (_ # es) = calls_of es"

text \<open>A call that was decoded: its name and arguments, and its index in the response.\<close>

record 'a family_call =
  call_name :: string
  call_args :: 'a
  call_index :: nat

text \<open>Numbering the calls of one \<^verbatim>\<open>Add\<close>.\<close>

fun number_calls :: "nat \<Rightarrow> (string \<times> 'a) list \<Rightarrow> 'a family_call list" where
  "number_calls index [] = []"
| "number_calls index ((name, args) # cs) =
     \<lparr>call_name = name, call_args = args, call_index = index\<rparr> # number_calls (Suc index) cs"

lemma length_number_calls [simp]: "length (number_calls i cs) = length cs"
  by (induction i cs rule: number_calls.induct) auto

lemma number_calls_append: "number_calls i (as @ bs) = number_calls i as @ number_calls (i + length as) bs"
  by (induction i as rule: number_calls.induct) auto

lemma number_calls_index: "map call_index (number_calls i cs) = [i..<i + length cs]"
  by (induction i cs rule: number_calls.induct) (auto simp: upt_conv_Cons simp del: upt_Suc)

text \<open>The content between one tool call and the next.\<close>

fun content_runs :: "'c parser_event list \<Rightarrow> string list" where
  "content_runs [] = [[]]"
| "content_runs (EventContent t # es) = (t @ hd (content_runs es)) # tl (content_runs es)"
| "content_runs (EventThinking t # es) = content_runs es"
| "content_runs (EventToolCall c # es) = [] # content_runs es"

lemma content_runs_nonempty [simp]: "content_runs es \<noteq> []"
  by (induction es rule: content_runs.induct) auto

lemma content_runs_content [simp]:
  "content_runs (es @ [EventContent t]) = butlast (content_runs es) @ [last (content_runs es) @ t]"
proof (induction es rule: content_runs.induct)
  case (2 t' es)
  then show ?case by (cases "content_runs es") auto
qed auto

lemma content_runs_thinking [simp]: "content_runs (es @ [EventThinking t]) = content_runs es"
  by (induction es rule: content_runs.induct) auto

lemma content_runs_call [simp]: "content_runs (es @ [EventToolCall c]) = content_runs es @ [[]]"
proof (induction es rule: content_runs.induct)
  case (2 t' es)
  then show ?case by (cases "content_runs es") auto
qed auto

lemma content_runs_text [simp]:
  "content_runs (es @ text_event EventContent t) = butlast (content_runs es) @ [last (content_runs es) @ t]"
  "content_runs (es @ text_event EventThinking t) = content_runs es"
  by (simp_all add: text_event_def)

lemma of_text_event [simp]:
  "content_of (text_event EventContent t) = t" "thinking_of (text_event EventContent t) = []"
  "content_of (text_event EventThinking t) = []" "thinking_of (text_event EventThinking t) = t"
  "calls_of (text_event EventContent t) = []" "calls_of (text_event EventThinking t) = []"
  by (simp_all add: text_event_def)

lemma content_runs_no_calls: "calls_of es = [] \<Longrightarrow> content_runs es = [content_of es]"
  by (induction es rule: content_runs.induct) auto

lemma runs_insert: "(\<forall>r \<in> set rs. P r) \<Longrightarrow> P r' \<Longrightarrow> \<forall>r \<in> set (butlast rs @ [r']). P r"
  by (auto dest: in_set_butlastD)

text \<open>Every run but the last is followed by a call.\<close>

lemma length_content_runs: "length (content_runs es) = Suc (length (calls_of es))"
  by (induction es rule: content_runs.induct) (auto simp: Suc_le_eq)

lemma concat_content_runs: "concat (content_runs es) = content_of es"
proof (induction es rule: content_runs.induct)
  case (2 t es)
  then show ?case by (cases "content_runs es") auto
qed auto

section \<open>Parsers that take every byte once\<close>

text \<open>
  A grammar of responses: \<open>piece m evs u m'\<close> says that in mode \<open>m\<close> the text \<open>u\<close> can be
  read, reporting \<open>evs\<close> and going to \<open>m'\<close>.  A response is spelled by pieces.
\<close>

inductive spells :: "('m \<Rightarrow> 'e list \<Rightarrow> string \<Rightarrow> 'm \<Rightarrow> bool) \<Rightarrow> 'm \<Rightarrow> 'e list \<Rightarrow> string \<Rightarrow> 'm \<Rightarrow> bool"
  for piece where
  spells_Nil: "spells piece m [] [] m"
| spells_Cons: "piece m evs u m' \<Longrightarrow> spells piece m' evs' v m'' \<Longrightarrow> spells piece m (evs @ evs') (u @ v) m''"

lemma spells_append:
  "spells piece m evs u m' \<Longrightarrow> spells piece m' evs' v m'' \<Longrightarrow> spells piece m (evs @ evs') (u @ v) m''"
proof (induction rule: spells.induct)
  case (spells_Cons m evs u m' evs1 v1 m1)
  have "spells piece m (evs @ (evs1 @ evs')) (u @ (v1 @ v)) m''"
    using spells.spells_Cons[of piece m evs u _ "evs1 @ evs'" "v1 @ v" m''] spells_Cons by blast
  then show ?case by simp
qed simp

lemma spells_one: "piece m evs u m' \<Longrightarrow> spells piece m evs u m'"
  using spells_Cons[OF _ spells_Nil, of piece m evs u m'] by simp

lemma spells_text:
  assumes "\<And>t. t \<noteq> [] \<Longrightarrow> piece m [ev t] t m" and "spells piece m evs u m'"
  shows "spells piece m (text_event ev t @ evs) (t @ u) m'"
  using spells_Cons[OF assms(1) assms(2), of t] assms(2) by (auto simp: text_event_def)

lemma spells_text_only:
  assumes "\<And>t. t \<noteq> [] \<Longrightarrow> piece m [ev t] t m"
  shows "spells piece m (text_event ev t) t m"
  using spells_text[of piece m ev "[]" "[]" m t, OF assms spells_Nil] by simp

text \<open>
  The contract: each step of the parser reads a piece off its buffer, and a step that asks
  for no other call leaves the buffer \<open>settled\<close>: what it still holds cannot be reported yet.
\<close>

locale conserving_parser = eater eat fuel ok
  for eat :: "'s \<Rightarrow> 'e list \<times> bool \<times> 's" and fuel :: "'s \<Rightarrow> nat" and ok :: "'s \<Rightarrow> bool" +
  fixes buffer :: "'s \<Rightarrow> string"
    and mode :: "'s \<Rightarrow> 'm"
    and append :: "string \<Rightarrow> 's \<Rightarrow> 's"
    and piece :: "'m \<Rightarrow> 'e list \<Rightarrow> string \<Rightarrow> 'm \<Rightarrow> bool"
    and settled :: "'s \<Rightarrow> bool"
  assumes eat_piece: "ok s \<Longrightarrow> eat s = (evs, again, s') \<Longrightarrow>
      \<exists>u. buffer s = u @ buffer s' \<and> spells piece (mode s) evs u (mode s')"
    and eat_settled: "ok s \<Longrightarrow> eat s = (evs, False, s') \<Longrightarrow> settled s'"
    and append_state: "buffer (append t s) = buffer s @ t" "mode (append t s) = mode s" "ok s \<Longrightarrow> ok (append t s)"
begin

lemma loop_spells:
  assumes "keep_looping eat s = Some (evs, s')" and "ok s"
  shows "(\<exists>u. buffer s = u @ buffer s' \<and> spells piece (mode s) evs u (mode s')) \<and> settled s' \<and> ok s'"
  using assms
proof (induction "fuel s" arbitrary: s evs rule: less_induct)
  case less
  obtain es again s1 where e: "eat s = (es, again, s1)" by (cases "eat s") auto
  obtain u where u: "buffer s = u @ buffer s1" "spells piece (mode s) es u (mode s1)"
    using eat_piece[OF less.prems(2) e] by blast
  have ok1: "ok s1" using ok_eat[OF less.prems(2) e] .
  show ?case
  proof (cases again)
    case True
    obtain es' s2 where l: "keep_looping eat s1 = Some (es', s2)" using loop_returns[OF ok1] by blast
    have r: "evs = es @ es'" "s' = s2"
      using keep_looping_more[of eat s es s1 es' s2] e True l less.prems(1) by simp_all
    have "fuel s1 < fuel s" using progress[OF less.prems(2)] e True by simp
    moreover have "keep_looping eat s1 = Some (es', s')" using l r(2) by simp
    ultimately obtain v where
      v: "buffer s1 = v @ buffer s'" "spells piece (mode s1) es' v (mode s')" "settled s'" "ok s'"
      using less.hyps ok1 by blast
    have "spells piece (mode s) evs (u @ v) (mode s')" unfolding r(1) by (rule spells_append[OF u(2) v(2)])
    with u(1) v show ?thesis by auto
  next
    case False
    with e less.prems(1) have "evs = es" "s' = s1" by (simp_all add: keep_looping_stop)
    with u eat_settled[OF less.prems(2)] e False ok1 show ?thesis by auto
  qed
qed

text \<open>One chunk, and a list of chunks.\<close>

definition feed :: "'s \<Rightarrow> string \<Rightarrow> 'e list \<times> 's" where
  "feed s t = the (keep_looping eat (append t s))"

lemma feed_defined: "ok s \<Longrightarrow> keep_looping eat (append t s) = Some (feed s t)"
  using loop_returns[OF append_state(3)[of s t]] by (auto simp: feed_def)

lemma feed_spells:
  assumes "ok s" and "feed s t = (evs, s')"
  shows "(\<exists>u. buffer s @ t = u @ buffer s' \<and> spells piece (mode s) evs u (mode s')) \<and> settled s' \<and> ok s'"
  using loop_spells[of "append t s" evs s'] feed_defined[OF assms(1), of t] assms append_state by simp

lemma feed_all_spells:
  assumes "ok s" and "feed_all feed (@) [] s ts = (evs, s')"
  shows "(\<exists>u. buffer s @ concat ts = u @ buffer s' \<and> spells piece (mode s) evs u (mode s')) \<and>
    (ts \<noteq> [] \<longrightarrow> settled s') \<and> ok s'"
  using assms
proof (induction ts arbitrary: s evs)
  case Nil
  then show ?case using spells_Nil[of piece "mode s"] by auto
next
  case (Cons t ts)
  obtain e1 s1 where f: "feed s t = (e1, s1)" by fastforce
  obtain e2 s2 where g: "feed_all feed (@) [] s1 ts = (e2, s2)" by fastforce
  have r: "evs = e1 @ e2" "s' = s2" using Cons.prems(2) f g by simp_all
  obtain u where u: "buffer s @ t = u @ buffer s1" "spells piece (mode s) e1 u (mode s1)" "settled s1" "ok s1"
    using feed_spells[OF Cons.prems(1) f] by blast
  have "feed_all feed (@) [] s1 ts = (e2, s')" using g r(2) by simp
  from Cons.IH[OF u(4) this] obtain v where v: "buffer s1 @ concat ts = v @ buffer s'"
      "spells piece (mode s1) e2 v (mode s')" "ts \<noteq> [] \<longrightarrow> settled s'" "ok s'"
    by blast
  have "buffer s @ concat (t # ts) = (u @ v) @ buffer s'" using u(1) v(1) by (metis append_assoc concat.simps(2))
  moreover have "spells piece (mode s) evs (u @ v) (mode s')" unfolding r(1) by (rule spells_append[OF u(2) v(2)])
  moreover have "settled s'" using u(3) v(3) g r(2) by (cases ts) auto
  ultimately show ?case using v(4) by blast
qed

end

lemma content_of_append [simp]: "content_of (a @ b) = content_of a @ content_of b"
  by (induction a rule: content_of.induct) auto

lemma thinking_of_append [simp]: "thinking_of (a @ b) = thinking_of a @ thinking_of b"
  by (induction a rule: thinking_of.induct) auto

lemma calls_of_append [simp]: "calls_of (a @ b) = calls_of a @ calls_of b"
  by (induction a rule: calls_of.induct) auto

section \<open>A response\<close>

text \<open>
  Thinking up to its closing tag, as in \<^verbatim>\<open>deepseek3.go\<close>, \<^verbatim>\<open>cogito.go\<close> and \<^verbatim>\<open>olmo3_think.go\<close>:
  the events, the new buffer, and whether the tag was found.
\<close>

definition until_close :: "string \<Rightarrow> string \<Rightarrow> 'c parser_event list \<times> string \<times> bool" where
  "until_close tag buf =
     (case cut buf tag of
        (before, Some rest) \<Rightarrow> (text_event EventThinking (trim_right before), trim_left rest, True)
      | (_, None) \<Rightarrow>
          (let (unambiguous, ambiguous) = hold_back buf (overlap buf tag)
           in (text_event EventThinking unambiguous, ambiguous, False)))"

lemma cut_found_split: "cut s tag = (before, Some rest) \<Longrightarrow>
   s = before @ tag @ rest \<and> contains s tag \<and> before = take (the (index_of tag s)) s"
  using index_of_decomp[of tag s] by (auto simp: cut_def split: option.splits)

lemma cut_none_iff: "cut s tag = (before, None) \<longleftrightarrow> \<not> contains s tag \<and> before = s"
  by (auto simp: cut_def split: option.splits)

lemma cut_cases:
  obtains (found) before rest where "cut s tag = (before, Some rest)" | (none) "cut s tag = (s, None)"
  by (cases "index_of tag s") (auto simp: cut_def)

lemma index_of_empty [simp]: "tag \<noteq> [] \<Longrightarrow> index_of tag [] = None"
  by (simp add: index_of_Nil)

lemma may_start_Nil [simp]: "tag \<noteq> [] \<Longrightarrow> may_start tag []"
  by (auto simp: may_start_def strict_prefix_def)

lemma until_close_found:
  assumes "until_close tag buf = (evs, buf', True)"
  shows "\<exists>t w w'. evs = text_event EventThinking t \<and> blank w \<and> blank w' \<and> buf = t @ (w @ tag @ w') @ buf' \<and>
    t = trim_right (take (the (index_of tag buf)) buf)"
proof -
  obtain before rest where c: "cut buf tag = (before, Some rest)" "evs = text_event EventThinking (trim_right before)"
    "buf' = trim_left rest"
    using assms by (auto simp: until_close_def Let_def split: prod.splits option.splits)
  obtain w where w: "blank w" "before = trim_right before @ w" using trim_right_split by blast
  obtain w' where w': "blank w'" "rest = w' @ trim_left rest" using trim_left_split by blast
  have "buf = trim_right before @ (w @ tag @ w') @ buf'"
    using cut_found_split[OF c(1)] w(2) w'(2) c(3) by (metis append_assoc)
  moreover have "trim_right before = trim_right (take (the (index_of tag buf)) buf)" 
    by (rule arg_cong[OF conjunct2[OF conjunct2[OF cut_found_split[OF c(1)]]]])
  ultimately show ?thesis
    by (intro exI[of _ "trim_right before"] exI[of _ w] exI[of _ w'] conjI w(1) w'(1) c(2))
qed

lemma until_close_open:
  assumes "until_close tag buf = (evs, buf', False)" and "tag \<noteq> []"
  shows "\<exists>t. evs = text_event EventThinking t \<and> buf = t @ buf' \<and> may_start tag buf' \<and> clear_of tag t buf'"
proof -
  obtain t where t: "hold_back buf (overlap buf tag) = (t, buf')" "evs = text_event EventThinking t" "\<not> contains buf tag"
    using assms(1) by (auto simp: until_close_def cut_none_iff Let_def split: prod.splits option.splits)
  from hold_back_held[OF t(1,3) assms(2)] hold_back_clear[OF t(1,3) order_refl overlap_le] t(2) show ?thesis by blast
qed

lemma until_close_spells:
  assumes "until_close tag buf = (evs, buf', closed)" and "tag \<noteq> []"
    and "\<And>t. t \<noteq> [] \<Longrightarrow> piece m [EventThinking t] t m"
    and "\<And>w w'. blank w \<Longrightarrow> blank w' \<Longrightarrow> piece m [] (w @ tag @ w') m'"
  shows "\<exists>u. buf = u @ buf' \<and> spells piece m evs u (if closed then m' else m)"
proof (cases closed)
  case True
  then obtain t w w' where r: "evs = text_event EventThinking t" "blank w" "blank w'" "buf = t @ (w @ tag @ w') @ buf'"
    using until_close_found[of tag buf evs buf'] assms(1) by auto
  have "spells piece m (text_event EventThinking t @ []) (t @ (w @ tag @ w')) m'"
    using assms(3) spells_one[of piece, OF assms(4)[OF r(2,3)]] by (rule spells_text)
  then show ?thesis using r True by (intro exI[of _ "t @ w @ tag @ w'"]) simp
next
  case False
  then obtain t where "evs = text_event EventThinking t" "buf = t @ buf'"
    using until_close_open[of tag buf evs buf'] assms(1,2) by auto
  with spells_text_only[of piece m EventThinking t] assms(3) False show ?thesis by auto
qed

lemma until_close_shorter: "until_close tag buf = (evs, buf', True) \<Longrightarrow> tag \<noteq> [] \<Longrightarrow> length buf' < length buf"
  using until_close_found[of tag buf evs buf'] by (cases tag) auto

text \<open>Shown thinking stays clear of the closing tag.\<close>

lemma until_close_clear:
  assumes "until_close tag buf = (evs, buf', closed)" and "tag \<noteq> []" and "clear_of tag (thinking_of h) buf"
  shows "\<not> contains (thinking_of (h @ evs)) tag" and "\<not> closed \<Longrightarrow> clear_of tag (thinking_of (h @ evs)) buf'"
proof -
  show c: "clear_of tag (thinking_of (h @ evs)) buf'" if o: "\<not> closed"
  proof -
    obtain t where t: "evs = text_event EventThinking t" "buf = t @ buf'" "clear_of tag t buf'"
      using until_close_open[of tag buf evs buf'] assms(1,2) o by auto
    with clear_of_shown[of tag "thinking_of h" t buf'] assms(3) show ?thesis by simp
  qed
  show "\<not> contains (thinking_of (h @ evs)) tag"
  proof (cases closed)
    case True
    then obtain t where t: "evs = text_event EventThinking t" "t = trim_right (take (the (index_of tag buf)) buf)"
      using until_close_found[of tag buf evs buf'] assms(1) by auto
    with before_not_contains[OF assms(3) _ assms(2), of "the (index_of tag buf)"] show ?thesis by simp
  next
    case False
    with clear_of_not_contains[OF c assms(2)] show ?thesis by simp
  qed
qed

lemma until_close_calls: "until_close tag buf = (evs, buf', closed) \<Longrightarrow> calls_of evs = [] \<and> content_of evs = []"
  by (auto simp: until_close_def Let_def split: prod.splits option.splits)

lemma cut_spells:
  assumes "cut buf tag = (before, Some rest)"
    and "\<And>t. t \<noteq> [] \<Longrightarrow> piece m [ev t] t m" and "\<And>w. blank w \<Longrightarrow> piece m [] (w @ tag) m'"
  shows "\<exists>u. buf = u @ rest \<and> spells piece m (text_event ev (trim_right before)) u m'"
proof -
  obtain w where w: "blank w" "before = trim_right before @ w" using trim_right_split by blast
  have b: "buf = (trim_right before @ (w @ tag)) @ rest" using conjunct1[OF cut_found_split[OF assms(1)]] w(2) by (metis append_assoc)
  have "spells piece m (text_event ev (trim_right before) @ []) (trim_right before @ (w @ tag)) m'"
    using assms(2) spells_one[of piece, OF assms(3)[OF w(1)]] by (rule spells_text)
  with b show ?thesis by (intro exI[of _ "trim_right before @ (w @ tag)"]) simp
qed

lemma cut_trim_left:
  assumes "cut buf tag = (skipped, Some rest)" and "tag \<noteq> []"
  shows "\<exists>w. blank w \<and> buf = (skipped @ tag @ w) @ trim_left rest" and "length (trim_left rest) < length buf"
proof -
  obtain w where w: "blank w" "rest = w @ trim_left rest" using trim_left_split by blast
  have b: "buf = (skipped @ tag @ w) @ trim_left rest"
    using conjunct1[OF cut_found_split[OF assms(1)]] w(2) by (metis append_assoc)
  with w(1) show "\<exists>w. blank w \<and> buf = (skipped @ tag @ w) @ trim_left rest" by blast
  show "length (trim_left rest) < length buf" by (subst b) (use assms(2) in simp)
qed

lemma cut_rest_shorter:
  assumes "cut buf tag = (before, Some rest)" and "tag \<noteq> []"
  shows "length rest < length buf"
  by (subst conjunct1[OF cut_found_split[OF assms(1)]]) (use assms(2) in simp)

text \<open>The tags of some families hold U+FF5C around the whole and U+2581 between the words.\<close>

definition special_tag :: "string list \<Rightarrow> string" where
  "special_tag ws = ''<'' @ [CHR 0xEF, CHR 0xBD, CHR 0x9C] @ join ws [CHR 0xE2, CHR 0x96, CHR 0x81] @
     [CHR 0xEF, CHR 0xBD, CHR 0x9C] @ ''>''"

lemma special_tag_nonempty [simp]: "special_tag ws \<noteq> []"
  by (simp add: special_tag_def)

text \<open>
  The next tool call between its tags; \<open>None\<close> if there is none or if it cannot be parsed.
\<close>

definition next_call :: "string \<Rightarrow> string \<Rightarrow> (string \<Rightarrow> 'e + 'c) \<Rightarrow> string \<Rightarrow> ('c \<times> string) option" where
  "next_call beginTag endTag parse buf =
     (case cut buf beginTag of
        (_, None) \<Rightarrow> None
      | (_, Some after) \<Rightarrow>
          (case cut after endTag of
             (_, None) \<Rightarrow> None
           | (raw, Some rest) \<Rightarrow>
               (case parse raw of Inl _ \<Rightarrow> None | Inr call \<Rightarrow> Some (call, trim_left rest))))"

lemma next_call_empty [simp]: "b \<noteq> [] \<Longrightarrow> next_call b e parse [] = None"
  by (simp add: next_call_def cut_def)

lemma next_call_Some:
  assumes "next_call b e parse buf = Some (call, rest)"
  shows "\<exists>skipped raw w. buf = (skipped @ b @ raw @ e @ w) @ rest \<and> blank w \<and> parse raw = Inr call"
proof -
  obtain skipped aft raw r where c: "cut buf b = (skipped, Some aft)" "cut aft e = (raw, Some r)" "parse raw = Inr call"
    "rest = trim_left r"
    using assms by (auto simp: next_call_def split: prod.splits option.splits sum.splits)
  obtain w where "blank w" "r = w @ trim_left r" using trim_left_split by blast
  with cut_found_split[OF c(1)] cut_found_split[OF c(2)] c(3,4) show ?thesis by (metis append_assoc)
qed

text \<open>
  How the callers of the interface \<open>Parser\<close> use \<^verbatim>\<open>Add\<close>: chunk after chunk, with a flag that
  tells the last one, until a call fails.
\<close>

type_synonym ('e, 'c) add_result = "'e + (string \<times> string \<times> 'c list)"

fun add_all ::
  "(string \<Rightarrow> bool \<Rightarrow> 's \<Rightarrow> (('e, 'c) add_result \<times> 's) option) \<Rightarrow> (string \<times> bool) list \<Rightarrow> 's
   \<Rightarrow> (('e, 'c) add_result \<times> 's) option" where
  "add_all add [] s = Some (Inr ([], [], []), s)"
| "add_all add ((t, done) # chunks) s =
     (case add t done s of
        None \<Rightarrow> None
      | Some (Inl e, s') \<Rightarrow> Some (Inl e, s')
      | Some (Inr (content, thinking, calls), s') \<Rightarrow>
          (case add_all add chunks s' of
             None \<Rightarrow> None
           | Some (Inl e, s'') \<Rightarrow> Some (Inl e, s'')
           | Some (Inr (content', thinking', calls'), s'') \<Rightarrow>
               Some (Inr (content @ content', thinking @ thinking', calls @ calls'), s'')))"

lemma add_all_Cons_ok:
  assumes "add_all add ((t, d) # chunks) s = Some (Inr (content, thinking, calls), s')"
  obtains c1 t1 k1 s1 c2 t2 k2 where "add t d s = Some (Inr (c1, t1, k1), s1)"
    "add_all add chunks s1 = Some (Inr (c2, t2, k2), s')"
    "content = c1 @ c2" "thinking = t1 @ t2" "calls = k1 @ k2"
  using assms by (auto split: option.splits sum.splits)

lemma add_all_no_error:
  assumes "\<And>t d s. \<exists>r s'. add t d s = Some (Inr r, s')"
  shows "\<exists>r s'. add_all add chunks s = Some (Inr r, s')"
proof (induction chunks arbitrary: s)
  case (Cons c chunks)
  obtain t d where c: "c = (t, d)" by fastforce
  obtain r s1 where a: "add t d s = Some (Inr r, s1)" using assms by blast
  obtain r' s2 where b: "add_all add chunks s1 = Some (Inr r', s2)" using Cons by blast
  show ?case using a b c by (cases r; cases r') auto
qed simp

text \<open>An error stops at the chunk that gave it, after the others were taken.\<close>

lemma add_all_error:
  "add_all add chunks s = Some (Inl e, s') \<Longrightarrow>
    \<exists>before t d after r s1 s2. chunks = before @ (t, d) # after \<and> add_all add before s = Some (Inr r, s1) \<and>
      add t d s1 = Some (Inl e, s2)"
proof (induction chunks arbitrary: s s')
  case (Cons c chunks)
  obtain t d where c: "c = (t, d)" by fastforce
  consider s2 where "add t d s = Some (Inl e, s2)"
    | r s1 where "add t d s = Some (Inr r, s1)" "add_all add chunks s1 = Some (Inl e, s')"
    using Cons.prems unfolding c by (auto split: option.splits sum.splits prod.splits)
  then show ?case
  proof cases
    case 1
    then have "c # chunks = [] @ (t, d) # chunks \<and> add_all add [] s = Some (Inr ([], [], []), s) \<and> add t d s = Some (Inl e, s2)"
      by (simp add: c)
    then show ?thesis by blast
  next
    case (2 r s1)
    from Cons.IH[OF 2(2)] obtain before t' d' after r' s2 s3 where
      i: "chunks = before @ (t', d') # after" "add_all add before s1 = Some (Inr r', s2)" "add t' d' s2 = Some (Inl e, s3)"
      by blast
    obtain c1 t1 k1 c2 t2 k2 where r: "r = (c1, t1, k1)" "r' = (c2, t2, k2)" by (metis prod_cases3)
    have "add_all add ((t, d) # before) s = Some (Inr (c1 @ c2, t1 @ t2, k1 @ k2), s2)"
      using 2(1) i(2) r by simp
    then show ?thesis unfolding c i(1) using i(3) append_Cons by metis
  qed
qed simp

text \<open>
  What \<^verbatim>\<open>Add\<close> promises: it returns; without an error its results are those of pieces that
  spell what it took of the text, its calls are decoded from the raw calls of the pieces, and
  what is left in the buffer is settled.
\<close>

locale adder =
  fixes add :: "string \<Rightarrow> bool \<Rightarrow> 's \<Rightarrow> (('e, 'c) add_result \<times> 's) option"
    and buffer :: "'s \<Rightarrow> string"
    and mode :: "'s \<Rightarrow> 'm"
    and piece :: "'m \<Rightarrow> 'r parser_event list \<Rightarrow> string \<Rightarrow> 'm \<Rightarrow> bool"
    and settled :: "'s \<Rightarrow> bool"
    and decoded :: "'s \<Rightarrow> 'r list \<Rightarrow> 's \<Rightarrow> 'c list \<Rightarrow> bool"
    and hist :: "'r parser_event list \<Rightarrow> 's \<Rightarrow> bool"
    and ok :: "'s \<Rightarrow> bool"
  assumes add_returns: "ok s \<Longrightarrow> \<exists>r s'. add t d s = Some (r, s') \<and> ok s'"
    and add_reads: "ok s \<Longrightarrow> add t d s = Some (Inr (content, thinking, calls), s') \<Longrightarrow>
      (\<exists>evs u. buffer s @ t = u @ buffer s' \<and> spells piece (mode s) evs u (mode s') \<and>
        content = content_of evs \<and> thinking = thinking_of evs \<and> decoded s (calls_of evs) s' calls \<and>
        (\<forall>h. hist h s \<longrightarrow> hist (h @ evs) s')) \<and>
      settled s'"
    and decoded_Nil: "decoded s [] s []"
    and decoded_append: "decoded s as s' xs \<Longrightarrow> decoded s' bs s'' ys \<Longrightarrow> decoded s (as @ bs) s'' (xs @ ys)"
begin

lemma add_all_returns: "ok s \<Longrightarrow> \<exists>r s'. add_all add chunks s = Some (r, s') \<and> ok s'"
proof (induction chunks arbitrary: s)
  case (Cons c chunks)
  obtain t d where c: "c = (t, d)" by fastforce
  obtain r s1 where a: "add t d s = Some (r, s1)" "ok s1" using add_returns[OF Cons.prems] by blast
  obtain r' s2 where b: "add_all add chunks s1 = Some (r', s2)" "ok s2" using Cons.IH[OF a(2)] by blast
  show ?case using a b c by (cases r; cases r') auto
qed simp

lemma add_all_reads:
  assumes "ok s" and "add_all add chunks s = Some (Inr (content, thinking, calls), s')"
  shows "(\<exists>evs u. buffer s @ concat (map fst chunks) = u @ buffer s' \<and> spells piece (mode s) evs u (mode s') \<and>
        content = content_of evs \<and> thinking = thinking_of evs \<and> decoded s (calls_of evs) s' calls \<and>
        (\<forall>h. hist h s \<longrightarrow> hist (h @ evs) s')) \<and>
      (chunks \<noteq> [] \<longrightarrow> settled s')"
  using assms
proof (induction chunks arbitrary: s content thinking calls)
  case Nil
  then show ?case using spells_Nil[of piece "mode s"] decoded_Nil[of s]
    by (intro conjI exI[of _ "[]"]) auto
next
  case (Cons c chunks)
  obtain t d where c: "c = (t, d)" by fastforce
  obtain c1 t1 k1 s1 c2 t2 k2 where a: "add t d s = Some (Inr (c1, t1, k1), s1)"
    and b: "add_all add chunks s1 = Some (Inr (c2, t2, k2), s')"
    and r: "content = c1 @ c2" "thinking = t1 @ t2" "calls = k1 @ k2"
    using Cons.prems(2) unfolding c by (rule add_all_Cons_ok)
  have ok1: "ok s1" using add_returns[OF Cons.prems(1), of t d] a by auto
  obtain e1 u1 where p: "buffer s @ t = u1 @ buffer s1" "spells piece (mode s) e1 u1 (mode s1)"
    "c1 = content_of e1" "t1 = thinking_of e1" "decoded s (calls_of e1) s1 k1" "settled s1"
    "\<forall>h. hist h s \<longrightarrow> hist (h @ e1) s1"
    using add_reads[OF Cons.prems(1) a] by blast
  obtain e2 u2 where q: "buffer s1 @ concat (map fst chunks) = u2 @ buffer s'" "spells piece (mode s1) e2 u2 (mode s')"
    "c2 = content_of e2" "t2 = thinking_of e2" "decoded s1 (calls_of e2) s' k2" "chunks \<noteq> [] \<longrightarrow> settled s'"
    "\<forall>h. hist h s1 \<longrightarrow> hist (h @ e2) s'"
    using Cons.IH[OF ok1 b] by blast
  have "buffer s @ concat (map fst (c # chunks)) = (u1 @ u2) @ buffer s'"
    using p(1) q(1) unfolding c by (metis append_assoc concat.simps(2) list.simps(9) fst_conv)
  moreover have "spells piece (mode s) (e1 @ e2) (u1 @ u2) (mode s')" by (rule spells_append[OF p(2) q(2)])
  moreover have "settled s'" using p(6) q(6) b by (cases chunks) auto
  moreover have "\<forall>h. hist h s \<longrightarrow> hist (h @ (e1 @ e2)) s'" using p(7) q(7) by (metis append_assoc)
  ultimately show ?case using p q r decoded_append[OF p(5) q(5)]
    by (intro conjI exI[of _ "e1 @ e2"] exI[of _ "u1 @ u2"]) simp_all
qed

end

end
