(* ===== verification/Qwen3Parser.thy ===== *)
theory Qwen3Parser
  imports ParserKit
begin

text \<open>
  \<^verbatim>\<open>model/parsers/qwen3.go\<close>: the parser that separates the thinking, the content and the tool
  calls of a Qwen3 model.  The JSON decoder is an argument.
\<close>

section \<open>State and operations\<close>

datatype qwen3_state =
    LookingForThinkingOpen
  | ThinkingStartedEatingWhitespace
  | CollectingThinking
  | ThinkingDoneEatingWhitespace
  | CollectingContent
  | ToolStartedEatingWhitespace
  | CollectingToolContent

definition thinkOpen :: string where "thinkOpen = ''<think>''"
definition thinkClose :: string where "thinkClose = ''</think>''"
definition toolOpen :: string where "toolOpen = ''<tool_call>''"
definition toolClose :: string where "toolClose = ''</tool_call>''"

record qwen3_parser =
  q_state :: qwen3_state
  q_buffer :: string
  q_callIndex :: nat
  q_hasThinkingSupport :: bool
  q_defaultThinking :: bool
  q_maybeOpen :: bool

text \<open>\<open>Init\<close>; the think value is absent or its \<^verbatim>\<open>Bool\<close>.\<close>

definition qwen3_Init :: "bool option \<Rightarrow> qwen3_parser \<Rightarrow> qwen3_parser" where
  "qwen3_Init thinkValue p =
     (let thinkingEnabled = (case thinkValue of None \<Rightarrow> q_defaultThinking p | Some b \<Rightarrow> b);
          on = (q_hasThinkingSupport p \<and> thinkingEnabled)
      in p\<lparr>q_buffer := [], q_callIndex := 0,
           q_state := (if on then CollectingThinking else CollectingContent), q_maybeOpen := on\<rparr>)"

definition qwen3_ThinkingClose :: "qwen3_parser \<Rightarrow> string list" where
  "qwen3_ThinkingClose p = (if q_state p = CollectingThinking then [thinkClose] else [])"

definition qwen3_PreservedTokens :: "string list" where
  "qwen3_PreservedTokens = [thinkOpen, thinkClose, toolOpen, toolClose]"

definition eatWhitespace_to :: "qwen3_state \<Rightarrow> qwen3_parser \<Rightarrow> string parser_event list \<times> bool \<times> qwen3_parser" where
  "eatWhitespace_to nextState p =
     (let trimmed = trim_left (q_buffer p)
      in if trimmed = [] then ([], False, p\<lparr>q_buffer := []\<rparr>)
         else ([], True, p\<lparr>q_state := nextState, q_buffer := trimmed\<rparr>))"

text \<open>Text is shown up to what may be the start of a tag.\<close>

definition qwen3_show ::
  "(string \<Rightarrow> string parser_event) \<Rightarrow> nat \<Rightarrow> qwen3_parser \<Rightarrow> string parser_event list \<times> bool \<times> qwen3_parser" where
  "qwen3_show ev overlapLen p =
     (let (unambiguous, ambiguous) = hold_back (q_buffer p) overlapLen
      in (text_event ev unambiguous, False, p\<lparr>q_buffer := ambiguous\<rparr>))"

text \<open>A tool call starts: the text before its tag is shown.\<close>

definition qwen3_open_tool ::
  "(string \<Rightarrow> string parser_event) \<Rightarrow> qwen3_parser \<Rightarrow> string parser_event list \<times> bool \<times> qwen3_parser" where
  "qwen3_open_tool ev p =
     (let (before, after, sb) = splitAtTag (q_buffer p) toolOpen True
      in (text_event ev before, True,
          p\<lparr>q_buffer := sb,
            q_state := (if after = [] then ToolStartedEatingWhitespace else CollectingToolContent)\<rparr>))"

text \<open>Collecting thinking, once no leading tag can come.\<close>

definition qwen3_thinking :: "qwen3_parser \<Rightarrow> string parser_event list \<times> bool \<times> qwen3_parser" where
  "qwen3_thinking p =
     (let acc = q_buffer p;
          thinkingCloseIdx = index_of thinkClose acc;
          toolOpenIdx = index_of toolOpen acc
      in if toolOpenIdx \<noteq> None \<and> (thinkingCloseIdx = None \<or> the toolOpenIdx < the thinkingCloseIdx)
         then qwen3_open_tool EventThinking p
         else if thinkingCloseIdx \<noteq> None
         then (let (thinking, remaining, sb) = splitAtTag acc thinkClose True
               in (text_event EventThinking thinking, True,
                   p\<lparr>q_buffer := sb,
                     q_state := (if remaining = [] then ThinkingDoneEatingWhitespace else CollectingContent)\<rparr>))
         else qwen3_show EventThinking (max (overlap acc thinkClose) (overlap acc toolOpen)) p)"

definition qwen3_eat :: "qwen3_parser \<Rightarrow> string parser_event list \<times> bool \<times> qwen3_parser" where
  "qwen3_eat p =
     (case q_state p of
        LookingForThinkingOpen \<Rightarrow>
          (let trimmed = trim_left (q_buffer p)
           in if prefix thinkOpen trimmed
              then (let after = trim_left (drop (length thinkOpen) trimmed)
                    in ([], True, p\<lparr>q_buffer := after,
                          q_state := (if after = [] then ThinkingStartedEatingWhitespace else CollectingThinking)\<rparr>))
              else if prefix trimmed thinkOpen then ([], False, p)
              else if trimmed = [] then ([], False, p)
              else ([], True, p\<lparr>q_state := CollectingContent\<rparr>))
      | ThinkingStartedEatingWhitespace \<Rightarrow> eatWhitespace_to CollectingThinking p
      | CollectingThinking \<Rightarrow>
          (if q_maybeOpen p
           then (let trimmed = trim_left (q_buffer p)
                 in if prefix thinkOpen trimmed
                    then (let after = trim_left (drop (length thinkOpen) trimmed)
                          in if after = [] then ([], False, p\<lparr>q_buffer := after\<rparr>)
                             else ([], True, p\<lparr>q_buffer := after, q_maybeOpen := False\<rparr>))
                    else if prefix trimmed thinkOpen then ([], False, p)
                    else qwen3_thinking (p\<lparr>q_maybeOpen := False\<rparr>))
           else qwen3_thinking p)
      | ThinkingDoneEatingWhitespace \<Rightarrow> eatWhitespace_to CollectingContent p
      | CollectingContent \<Rightarrow>
          (if contains (q_buffer p) toolOpen then qwen3_open_tool EventContent p
           else qwen3_show EventContent (overlap (q_buffer p) toolOpen) p)
      | ToolStartedEatingWhitespace \<Rightarrow> eatWhitespace_to CollectingToolContent p
      | CollectingToolContent \<Rightarrow>
          (if contains (q_buffer p) toolClose
           then (let (toolContent, after, sb) = splitAtTag (q_buffer p) toolClose True
                 in ([EventToolCall toolContent], True, p\<lparr>q_buffer := sb, q_state := CollectingContent\<rparr>))
           else ([], False, p)))"

definition parseQwen3ToolCall :: "(string \<Rightarrow> 'e + (string \<times> 'a)) \<Rightarrow> 'e \<Rightarrow> string \<Rightarrow> 'e + (string \<times> 'a)" where
  "parseQwen3ToolCall unmarshal empty_name raw =
     (case unmarshal raw of
        Inl e \<Rightarrow> Inl e
      | Inr (name, args) \<Rightarrow> if name = [] then Inl empty_name else Inr (name, args))"

fun qwen3_calls ::
  "(string \<Rightarrow> 'e + (string \<times> 'a)) \<Rightarrow> 'e \<Rightarrow> nat \<Rightarrow> string list \<Rightarrow> nat \<times> ('e + 'a family_call list)" where
  "qwen3_calls unmarshal empty_name index [] = (index, Inr [])"
| "qwen3_calls unmarshal empty_name index (raw # raws) =
     (case parseQwen3ToolCall unmarshal empty_name raw of
        Inl e \<Rightarrow> (index, Inl e)
      | Inr (name, args) \<Rightarrow>
          (case qwen3_calls unmarshal empty_name (Suc index) raws of
             (index', Inl e) \<Rightarrow> (index', Inl e)
           | (index', Inr calls) \<Rightarrow>
               (index', Inr (\<lparr>call_name = name, call_args = args, call_index = index\<rparr> # calls))))"

definition qwen3_append :: "string \<Rightarrow> qwen3_parser \<Rightarrow> qwen3_parser" where
  "qwen3_append t p = p\<lparr>q_buffer := q_buffer p @ t\<rparr>"

text \<open>
  \<^verbatim>\<open>Add\<close>: content, thinking and calls, or the error of the first call that cannot be decoded;
  it does not look at \<open>done\<close>.  \<open>None\<close> would be a loop that does not end.
\<close>

definition qwen3_Add ::
  "(string \<Rightarrow> 'e + (string \<times> 'a)) \<Rightarrow> 'e \<Rightarrow> string \<Rightarrow> bool \<Rightarrow> qwen3_parser
   \<Rightarrow> (('e + (string \<times> string \<times> 'a family_call list)) \<times> qwen3_parser) option" where
  "qwen3_Add unmarshal empty_name s done p =
     (case keep_looping qwen3_eat (qwen3_append s p) of
        None \<Rightarrow> None
      | Some (events, p') \<Rightarrow>
          (case qwen3_calls unmarshal empty_name (q_callIndex p') (calls_of events) of
             (index, Inl e) \<Rightarrow> Some (Inl e, p'\<lparr>q_callIndex := index\<rparr>)
           | (index, Inr calls) \<Rightarrow>
               Some (Inr (content_of events, thinking_of events, calls), p'\<lparr>q_callIndex := index\<rparr>)))"

section \<open>The grammar of responses\<close>

text \<open>
  Content and thinking are read as they are; white space around tags is dropped; a tool call
  may also start in the middle of thinking; an opening tag that starts the thinking again is
  dropped.
\<close>

inductive qwen3_piece :: "qwen3_state \<Rightarrow> string parser_event list \<Rightarrow> string \<Rightarrow> qwen3_state \<Rightarrow> bool" where
  open_thinking: "blank w \<Longrightarrow> blank w' \<Longrightarrow> m' \<in> {ThinkingStartedEatingWhitespace, CollectingThinking} \<Longrightarrow>
     qwen3_piece LookingForThinkingOpen [] (w @ thinkOpen @ w') m'"
| no_thinking: "qwen3_piece LookingForThinkingOpen [] [] CollectingContent"
| again_thinking: "blank w \<Longrightarrow> blank w' \<Longrightarrow> qwen3_piece CollectingThinking [] (w @ thinkOpen @ w') CollectingThinking"
| thinking: "t \<noteq> [] \<Longrightarrow> qwen3_piece CollectingThinking [EventThinking t] t CollectingThinking"
| close_thinking: "blank w \<Longrightarrow> blank w' \<Longrightarrow> m' \<in> {ThinkingDoneEatingWhitespace, CollectingContent} \<Longrightarrow>
     qwen3_piece CollectingThinking [] (w @ thinkClose @ w') m'"
| content: "t \<noteq> [] \<Longrightarrow> qwen3_piece CollectingContent [EventContent t] t CollectingContent"
| open_tool: "blank w \<Longrightarrow> blank w' \<Longrightarrow> m \<in> {CollectingThinking, CollectingContent} \<Longrightarrow>
     m' \<in> {ToolStartedEatingWhitespace, CollectingToolContent} \<Longrightarrow> qwen3_piece m [] (w @ toolOpen @ w') m'"
| tool: "blank w \<Longrightarrow> blank w' \<Longrightarrow>
     qwen3_piece CollectingToolContent [EventToolCall raw] (raw @ w @ toolClose @ w') CollectingContent"
| eat_white: "blank w \<Longrightarrow> m = m' \<or> (m, m') \<in> {(ThinkingStartedEatingWhitespace, CollectingThinking),
       (ThinkingDoneEatingWhitespace, CollectingContent), (ToolStartedEatingWhitespace, CollectingToolContent)} \<Longrightarrow>
     m \<in> {ThinkingStartedEatingWhitespace, ThinkingDoneEatingWhitespace, ToolStartedEatingWhitespace} \<Longrightarrow>
     qwen3_piece m [] w m'"

definition qwen3_settled :: "qwen3_parser \<Rightarrow> bool" where
  "qwen3_settled p =
     (case q_state p of
        LookingForThinkingOpen \<Rightarrow> may_start thinkOpen (q_buffer p)
      | CollectingThinking \<Rightarrow> may_start thinkClose (q_buffer p) \<or> may_start toolOpen (q_buffer p) \<or>
          (q_maybeOpen p \<and> may_start thinkOpen (q_buffer p))
      | CollectingContent \<Rightarrow> may_start toolOpen (q_buffer p)
      | CollectingToolContent \<Rightarrow> \<not> contains (q_buffer p) toolClose
      | _ \<Rightarrow> q_buffer p = [])"

section \<open>The parser reads the grammar\<close>

definition qwen3_fuel :: "qwen3_parser \<Rightarrow> nat" where
  "qwen3_fuel p = 2 * length (q_buffer p) +
     (if q_state p \<in> {CollectingThinking, CollectingContent, CollectingToolContent} then 0 else 1)"

lemma tags_nonempty [simp]: "thinkOpen \<noteq> []" "thinkClose \<noteq> []" "toolOpen \<noteq> []" "toolClose \<noteq> []"
  by (simp_all add: thinkOpen_def thinkClose_def toolOpen_def toolClose_def)

lemma eatWhitespace_piece:
  assumes "eatWhitespace_to m' p = (evs, cont, p')"
    and "(q_state p, m') \<in> {(ThinkingStartedEatingWhitespace, CollectingThinking),
       (ThinkingDoneEatingWhitespace, CollectingContent), (ToolStartedEatingWhitespace, CollectingToolContent)}"
  shows "\<exists>u. q_buffer p = u @ q_buffer p' \<and> spells qwen3_piece (q_state p) evs u (q_state p')"
    and "cont \<Longrightarrow> qwen3_fuel p' < qwen3_fuel p" and "\<not> cont \<Longrightarrow> qwen3_settled p'"
proof -
  obtain w where w: "blank w" "q_buffer p = w @ trim_left (q_buffer p)" using trim_left_split by blast
  have piece: "qwen3_piece (q_state p) [] w m''" if "m'' = q_state p \<or> m'' = m'" for m''
    by (rule qwen3_piece.eat_white[OF w(1)]) (use assms(2) that in auto)
  have e: "evs = []" "q_buffer p' = trim_left (q_buffer p)" "q_state p' = q_state p \<or> q_state p' = m'"
    "\<not> cont \<Longrightarrow> q_buffer p' = [] \<and> q_state p' = q_state p" "cont \<Longrightarrow> q_state p' = m'"
    using assms(1) by (auto simp: eatWhitespace_to_def Let_def split: if_splits)
  show "\<exists>u. q_buffer p = u @ q_buffer p' \<and> spells qwen3_piece (q_state p) evs u (q_state p')"
    using w(2) spells_one[of qwen3_piece "q_state p" "[]" w "q_state p'"] piece[OF e(3)] e(1,2) by metis
  show "qwen3_fuel p' < qwen3_fuel p" if cont
    using e(2) e(5)[OF that] assms(2) length_trim_left[of "q_buffer p"] by (auto simp: qwen3_fuel_def)
  show "qwen3_settled p'" if "\<not> cont" using e(4)[OF that] assms(2) by (auto simp: qwen3_settled_def)
qed

lemma open_tool_piece:
  assumes "qwen3_open_tool ev p = (evs, cont, p')" and "contains (q_buffer p) toolOpen"
    and "(q_state p, ev) \<in> {(CollectingThinking, EventThinking), (CollectingContent, EventContent)}"
  shows "\<exists>u. q_buffer p = u @ q_buffer p' \<and> spells qwen3_piece (q_state p) evs u (q_state p')"
    and "qwen3_fuel p' < qwen3_fuel p" and cont
proof -
  obtain before after sb where s: "splitAtTag (q_buffer p) toolOpen True = (before, after, sb)" by (metis prod_cases3)
  obtain w w' where w: "blank w" "blank w'" "q_buffer p = before @ w @ toolOpen @ w' @ sb"
    using splitAtTag_spells[OF assms(2) s] by blast
  have e: "evs = text_event ev before" "q_buffer p' = sb"
    "q_state p' \<in> {ToolStartedEatingWhitespace, CollectingToolContent}" cont
    using assms(1) s by (auto simp: qwen3_open_tool_def split: if_splits)
  have "spells qwen3_piece (q_state p) [] (w @ toolOpen @ w') (q_state p')"
    by (intro spells_one qwen3_piece.open_tool) (use w e assms(3) in auto)
  then have "spells qwen3_piece (q_state p) (text_event ev before @ []) (before @ (w @ toolOpen @ w')) (q_state p')"
    by (intro spells_text) (use assms(3) in \<open>auto intro: qwen3_piece.intros\<close>)
  then show "\<exists>u. q_buffer p = u @ q_buffer p' \<and> spells qwen3_piece (q_state p) evs u (q_state p')"
    using w(3) e(1,2) by (intro exI[of _ "before @ (w @ toolOpen @ w')"]) simp
  show "qwen3_fuel p' < qwen3_fuel p" using w(3) e(2) by (simp add: qwen3_fuel_def toolOpen_def)
  show cont by (rule e(4))
qed

lemma show_piece:
  assumes "qwen3_show ev n p = (evs, cont, p')" and "n \<le> length (q_buffer p)"
    and "(q_state p, ev) \<in> {(CollectingThinking, EventThinking), (CollectingContent, EventContent)}"
  shows "\<exists>u. q_buffer p = u @ q_buffer p' \<and> spells qwen3_piece (q_state p) evs u (q_state p')"
    and "\<not> cont" and "q_state p' = q_state p" and "q_maybeOpen p' = q_maybeOpen p"
    and "\<exists>shown. hold_back (q_buffer p) n = (shown, q_buffer p')"
proof -
  obtain shown kept where s: "hold_back (q_buffer p) n = (shown, kept)" by fastforce
  have e: "evs = text_event ev shown" "\<not> cont" "p' = p\<lparr>q_buffer := kept\<rparr>"
    using assms(1) s by (auto simp: qwen3_show_def)
  have "spells qwen3_piece (q_state p) (text_event ev shown) shown (q_state p)"
    by (rule spells_text_only) (use assms(3) in \<open>auto intro: qwen3_piece.intros\<close>)
  then show "\<exists>u. q_buffer p = u @ q_buffer p' \<and> spells qwen3_piece (q_state p) evs u (q_state p')"
    using hold_back_split(1)[OF s assms(2)] e by auto
  show "\<not> cont" "q_state p' = q_state p" "q_maybeOpen p' = q_maybeOpen p"
    "\<exists>shown. hold_back (q_buffer p) n = (shown, q_buffer p')" using e s by simp_all
qed

lemma thinking_piece:
  assumes "qwen3_thinking p = (evs, cont, p')" and st: "q_state p = CollectingThinking"
  shows "\<exists>u. q_buffer p = u @ q_buffer p' \<and> spells qwen3_piece (q_state p) evs u (q_state p')"
    and "cont \<Longrightarrow> qwen3_fuel p' < qwen3_fuel p" and "\<not> cont \<Longrightarrow> qwen3_settled p'"
proof -
  let ?acc = "q_buffer p"
  consider (tool) "contains ?acc toolOpen" "qwen3_thinking p = qwen3_open_tool EventThinking p"
    | (close) "contains ?acc thinkClose" "qwen3_thinking p =
        (let (thinking, remaining, sb) = splitAtTag ?acc thinkClose True
         in (text_event EventThinking thinking, True,
             p\<lparr>q_buffer := sb, q_state := (if remaining = [] then ThinkingDoneEatingWhitespace else CollectingContent)\<rparr>))"
    | (none) "\<not> contains ?acc toolOpen" "\<not> contains ?acc thinkClose"
        "qwen3_thinking p = qwen3_show EventThinking (max (overlap ?acc thinkClose) (overlap ?acc toolOpen)) p"
  proof (cases "contains ?acc toolOpen \<and> (index_of thinkClose ?acc = None \<or> the (index_of toolOpen ?acc) < the (index_of thinkClose ?acc))")
    case True
    then show ?thesis by (intro tool) (auto simp: qwen3_thinking_def Let_def)
  next
    case no_tool: False
    show ?thesis
    proof (cases "contains ?acc thinkClose")
      case True
      show ?thesis by (rule close[OF True]) (use True no_tool in \<open>auto simp: qwen3_thinking_def Let_def\<close>)
    next
      case False
      then show ?thesis by (intro none) (use no_tool in \<open>auto simp: qwen3_thinking_def Let_def\<close>)
    qed
  qed
  then have "(\<exists>u. ?acc = u @ q_buffer p' \<and> spells qwen3_piece (q_state p) evs u (q_state p')) \<and>
      (cont \<longrightarrow> qwen3_fuel p' < qwen3_fuel p) \<and> (\<not> cont \<longrightarrow> qwen3_settled p')"
  proof cases
    case tool
    with open_tool_piece[of EventThinking p evs cont p'] assms show ?thesis by simp
  next
    case close
    obtain before after sb where s: "splitAtTag ?acc thinkClose True = (before, after, sb)" by (metis prod_cases3)
    obtain w w' where w: "blank w" "blank w'" "?acc = before @ w @ thinkClose @ w' @ sb"
      using splitAtTag_spells[OF close(1) s] by blast
    have e: "evs = text_event EventThinking before" "q_buffer p' = sb" cont
      "q_state p' \<in> {ThinkingDoneEatingWhitespace, CollectingContent}"
      using assms(1) close(2) s by (auto split: if_splits)
    have "spells qwen3_piece CollectingThinking [] (w @ thinkClose @ w') (q_state p')"
      by (intro spells_one qwen3_piece.close_thinking) (use w e in auto)
    then have "spells qwen3_piece CollectingThinking (text_event EventThinking before @ []) (before @ (w @ thinkClose @ w')) (q_state p')"
      by (intro spells_text) (auto intro: qwen3_piece.intros)
    then have "\<exists>u. ?acc = u @ q_buffer p' \<and> spells qwen3_piece (q_state p) evs u (q_state p')"
      using w(3) e(1,2) st by (intro exI[of _ "before @ (w @ thinkClose @ w')"]) simp
    moreover have "qwen3_fuel p' < qwen3_fuel p" using w(3) e(2) by (simp add: qwen3_fuel_def thinkClose_def)
    ultimately show ?thesis using e(3) by blast
  next
    case none
    let ?n = "max (overlap ?acc thinkClose) (overlap ?acc toolOpen)"
    have n: "?n \<le> length ?acc" using overlap_le by simp
    note P = show_piece[of EventThinking ?n p evs cont p', OF _ n]
    have s: "qwen3_show EventThinking ?n p = (evs, cont, p')" using none(3) assms(1) by simp
    obtain shown where h: "hold_back ?acc ?n = (shown, q_buffer p')" using P(5)[OF s] st by auto
    have "may_start thinkClose (q_buffer p') \<or> may_start toolOpen (q_buffer p')"
    proof (cases "overlap ?acc toolOpen \<le> overlap ?acc thinkClose")
      case True
      then show ?thesis using hold_back_held(2)[of ?acc thinkClose shown "q_buffer p'"] h none(2) by (simp add: max_def)
    next
      case False
      then show ?thesis using hold_back_held(2)[of ?acc toolOpen shown "q_buffer p'"] h none(1) by (simp add: max_def)
    qed
    then show ?thesis using P(1,2,3)[OF s] st by (auto simp: qwen3_settled_def)
  qed
  then show "\<exists>u. ?acc = u @ q_buffer p' \<and> spells qwen3_piece (q_state p) evs u (q_state p')"
    and "cont \<Longrightarrow> qwen3_fuel p' < qwen3_fuel p" and "\<not> cont \<Longrightarrow> qwen3_settled p'" by blast+
qed

text \<open>A leading opening tag.\<close>

lemma leading_open:
  assumes "prefix thinkOpen (trim_left buf)"
  shows "\<exists>w w'. blank w \<and> blank w' \<and> buf = (w @ thinkOpen @ w') @ trim_left (drop (length thinkOpen) (trim_left buf))"
proof -
  obtain w where w: "blank w" "buf = w @ trim_left buf" using trim_left_split by blast
  obtain rest where r: "trim_left buf = thinkOpen @ rest" using assms by (auto simp: prefix_def)
  obtain w' where w': "blank w'" "rest = w' @ trim_left rest" using trim_left_split by blast
  have "buf = (w @ thinkOpen @ w') @ trim_left (drop (length thinkOpen) (trim_left buf))"
    using w(2) r w'(2) by (metis append_assoc append_eq_conv_conj)
  with w(1) w'(1) show ?thesis by blast
qed

lemma qwen3_eat_ok:
  assumes "qwen3_eat p = (evs, cont, p')"
  shows "(\<exists>u. q_buffer p = u @ q_buffer p' \<and> spells qwen3_piece (q_state p) evs u (q_state p')) \<and>
    (cont \<longrightarrow> qwen3_fuel p' < qwen3_fuel p) \<and> (\<not> cont \<longrightarrow> qwen3_settled p')"
proof (cases "q_state p")
  case LookingForThinkingOpen
  let ?t = "trim_left (q_buffer p)"
  consider (tag) "prefix thinkOpen ?t" | (part) "\<not> prefix thinkOpen ?t" "prefix ?t thinkOpen"
    | (no) "\<not> prefix thinkOpen ?t" "\<not> prefix ?t thinkOpen" by blast
  then show ?thesis
  proof cases
    case tag
    let ?after = "trim_left (drop (length thinkOpen) ?t)"
    have e: "evs = []" cont "q_buffer p' = ?after" "q_state p' \<in> {ThinkingStartedEatingWhitespace, CollectingThinking}"
      using assms LookingForThinkingOpen tag by (auto simp: qwen3_eat_def Let_def split: if_splits)
    obtain w w' where w: "blank w" "blank w'" "q_buffer p = (w @ thinkOpen @ w') @ ?after"
      using leading_open[OF tag] by blast
    have "spells qwen3_piece LookingForThinkingOpen [] (w @ thinkOpen @ w') (q_state p')"
      by (intro spells_one qwen3_piece.open_thinking) (use w e in auto)
    moreover have "length (q_buffer p) = length w + 7 + length w' + length ?after"
      by (subst w(3)) (simp add: thinkOpen_def)
    then have "qwen3_fuel p' < qwen3_fuel p" using e(3) by (simp add: qwen3_fuel_def)
    ultimately show ?thesis using w(3) e LookingForThinkingOpen by metis
  next
    case part
    have "evs = []" "\<not> cont" "p' = p" using assms LookingForThinkingOpen part by (auto simp: qwen3_eat_def Let_def)
    with prefix_may_start[OF part(2,1)] LookingForThinkingOpen show ?thesis
      by (auto simp: qwen3_settled_def intro: spells_Nil)
  next
    case no
    have "?t \<noteq> []" using no(2) by auto
    then have e: "evs = []" cont "p' = p\<lparr>q_state := CollectingContent\<rparr>"
      using assms LookingForThinkingOpen no by (auto simp: qwen3_eat_def Let_def)
    with LookingForThinkingOpen spells_one[of qwen3_piece, OF qwen3_piece.no_thinking] show ?thesis by (auto simp: qwen3_fuel_def)
  qed
next
  case CollectingThinking
  let ?t = "trim_left (q_buffer p)"
  consider (tag) "q_maybeOpen p" "prefix thinkOpen ?t" | (part) "q_maybeOpen p" "\<not> prefix thinkOpen ?t" "prefix ?t thinkOpen"
    | (no) "q_maybeOpen p" "\<not> prefix thinkOpen ?t" "\<not> prefix ?t thinkOpen" | (off) "\<not> q_maybeOpen p" by blast
  then show ?thesis
  proof cases
    case tag
    let ?after = "trim_left (drop (length thinkOpen) ?t)"
    have e: "evs = []" "q_buffer p' = ?after" "q_state p' = CollectingThinking" "\<not> cont \<Longrightarrow> ?after = []"
      using assms CollectingThinking tag by (auto simp: qwen3_eat_def Let_def split: if_splits)
    obtain w w' where w: "blank w" "blank w'" "q_buffer p = (w @ thinkOpen @ w') @ ?after"
      using leading_open[OF tag(2)] by blast
    have "spells qwen3_piece CollectingThinking [] (w @ thinkOpen @ w') CollectingThinking"
      by (intro spells_one qwen3_piece.again_thinking) (use w in auto)
    moreover have "length (q_buffer p) = length w + 7 + length w' + length ?after"
      by (subst w(3)) (simp add: thinkOpen_def)
    then have "qwen3_fuel p' < qwen3_fuel p" using e(2) by (simp add: qwen3_fuel_def)
    moreover have "\<not> cont \<Longrightarrow> qwen3_settled p'" using e by (auto simp: qwen3_settled_def may_start_def thinkClose_def)
    ultimately show ?thesis using w(3) e CollectingThinking by metis
  next
    case part
    have "evs = []" "\<not> cont" "p' = p" using assms CollectingThinking part by (auto simp: qwen3_eat_def Let_def)
    with prefix_may_start[OF part(3,2)] CollectingThinking part(1) show ?thesis
      by (auto simp: qwen3_settled_def intro: spells_Nil)
  next
    case no
    let ?p = "p\<lparr>q_maybeOpen := False\<rparr>"
    have "qwen3_thinking ?p = (evs, cont, p')" using assms CollectingThinking no by (simp add: qwen3_eat_def Let_def)
    moreover have "qwen3_fuel ?p = qwen3_fuel p" by (simp add: qwen3_fuel_def)
    ultimately show ?thesis using thinking_piece[of ?p evs cont p'] CollectingThinking by simp
  next
    case off
    then have "qwen3_thinking p = (evs, cont, p')" using assms CollectingThinking by (simp add: qwen3_eat_def)
    with thinking_piece[of p evs cont p'] CollectingThinking show ?thesis by blast
  qed
next
  case CollectingContent
  show ?thesis
  proof (cases "contains (q_buffer p) toolOpen")
    case True
    with assms CollectingContent have "qwen3_open_tool EventContent p = (evs, cont, p')" by (simp add: qwen3_eat_def)
    with open_tool_piece[of EventContent p evs cont p'] True CollectingContent show ?thesis by simp
  next
    case False
    let ?n = "overlap (q_buffer p) toolOpen"
    have s: "qwen3_show EventContent ?n p = (evs, cont, p')"
      using assms CollectingContent False by (simp add: qwen3_eat_def)
    note P = show_piece[OF s overlap_le]
    obtain shown where h: "hold_back (q_buffer p) ?n = (shown, q_buffer p')" using P(5) CollectingContent by auto
    from hold_back_held(2)[OF h] False have "may_start toolOpen (q_buffer p')" by simp
    then show ?thesis using P(1,2,3) CollectingContent by (auto simp: qwen3_settled_def)
  qed
next
  case CollectingToolContent
  show ?thesis
  proof (cases "contains (q_buffer p) toolClose")
    case True
    obtain before after sb where s: "splitAtTag (q_buffer p) toolClose True = (before, after, sb)" by (metis prod_cases3)
    obtain w w' where w: "blank w" "blank w'" "q_buffer p = before @ w @ toolClose @ w' @ sb"
      using splitAtTag_spells[OF True s] by blast
    have e: "evs = [EventToolCall before]" "q_buffer p' = sb" "q_state p' = CollectingContent"
      using assms CollectingToolContent True s by (auto simp: qwen3_eat_def)
    have "spells qwen3_piece CollectingToolContent evs (before @ w @ toolClose @ w') CollectingContent"
      unfolding e(1) by (intro spells_one qwen3_piece.tool) (use w in auto)
    moreover have "qwen3_fuel p' < qwen3_fuel p" using w(3) e(2) by (simp add: qwen3_fuel_def toolClose_def)
    moreover have cont using assms CollectingToolContent True s by (auto simp: qwen3_eat_def)
    ultimately show ?thesis using w(3) e CollectingToolContent by (metis append_assoc)
  next
    case False
    then have "evs = []" "\<not> cont" "p' = p" using assms CollectingToolContent by (auto simp: qwen3_eat_def)
    with False CollectingToolContent show ?thesis by (auto simp: qwen3_settled_def intro: spells_Nil)
  qed
next
  case ThinkingStartedEatingWhitespace
  with assms have e: "eatWhitespace_to CollectingThinking p = (evs, cont, p')" by (simp add: qwen3_eat_def)
  show ?thesis using eatWhitespace_piece[OF e] ThinkingStartedEatingWhitespace by auto
next
  case ThinkingDoneEatingWhitespace
  with assms have e: "eatWhitespace_to CollectingContent p = (evs, cont, p')" by (simp add: qwen3_eat_def)
  show ?thesis using eatWhitespace_piece[OF e] ThinkingDoneEatingWhitespace by auto
next
  case ToolStartedEatingWhitespace
  with assms have e: "eatWhitespace_to CollectingToolContent p = (evs, cont, p')" by (simp add: qwen3_eat_def)
  show ?thesis using eatWhitespace_piece[OF e] ToolStartedEatingWhitespace by auto
qed

interpretation qwen3: conserving_parser qwen3_eat qwen3_fuel "\<lambda>_. True" q_buffer q_state qwen3_append qwen3_piece qwen3_settled
  by unfold_locales (use qwen3_eat_ok in \<open>auto simp: qwen3_append_def\<close>)

section \<open>Tags are not shown\<close>

text \<open>
  After the events \<open>evs\<close> of a response: what was shown holds no tag of its state, and no tag
  can begin in what was shown last.
\<close>

definition qwen3_tag_free :: "string parser_event list \<Rightarrow> qwen3_parser \<Rightarrow> bool" where
  "qwen3_tag_free evs p \<longleftrightarrow>
     \<not> contains (thinking_of evs) thinkClose \<and> \<not> contains (thinking_of evs) toolOpen \<and>
     (\<forall>r \<in> set (content_runs evs). \<not> contains r toolOpen) \<and>
     (q_state p \<in> {LookingForThinkingOpen, ThinkingStartedEatingWhitespace} \<or>
        q_state p = CollectingThinking \<and> q_maybeOpen p \<longrightarrow> thinking_of evs = []) \<and>
     (q_state p = CollectingThinking \<longrightarrow>
        clear_of thinkClose (thinking_of evs) (q_buffer p) \<and> clear_of toolOpen (thinking_of evs) (q_buffer p)) \<and>
     (q_state p \<in> {LookingForThinkingOpen, ThinkingStartedEatingWhitespace, CollectingThinking, ThinkingDoneEatingWhitespace}
        \<longrightarrow> last (content_runs evs) = []) \<and>
     (q_state p = CollectingContent \<longrightarrow> clear_of toolOpen (last (content_runs evs)) (q_buffer p))"

lemma tag_free_tool:
  assumes "qwen3_tag_free evs p" and "q_state p' \<in> {ToolStartedEatingWhitespace, CollectingToolContent}"
  shows "qwen3_tag_free evs p'"
  using assms(2) by (elim insertE) (use assms(1) in \<open>simp_all add: qwen3_tag_free_def\<close>)

lemma thinking_tag_free:
  assumes "qwen3_thinking p = (evs, cont, p')" and st: "q_state p = CollectingThinking" and "qwen3_tag_free h p"
    and "\<not> q_maybeOpen p"
  shows "qwen3_tag_free (h @ evs) p'"
proof -
  let ?acc = "q_buffer p" and ?t = "thinking_of h"
  have H: "clear_of thinkClose ?t ?acc" "clear_of toolOpen ?t ?acc" "last (content_runs h) = []"
    "\<forall>r \<in> set (content_runs h). \<not> contains r toolOpen"
    using assms(3) st by (auto simp: qwen3_tag_free_def)
  consider (tool) i where "index_of toolOpen ?acc = Some i"
      "index_of thinkClose ?acc = None \<or> i \<le> the (index_of thinkClose ?acc)"
      "qwen3_thinking p = qwen3_open_tool EventThinking p"
    | (close) i where "index_of thinkClose ?acc = Some i"
      "index_of toolOpen ?acc = None \<or> i \<le> the (index_of toolOpen ?acc)"
      "qwen3_thinking p =
        (let (thinking, remaining, sb) = splitAtTag ?acc thinkClose True
         in (text_event EventThinking thinking, True,
             p\<lparr>q_buffer := sb, q_state := (if remaining = [] then ThinkingDoneEatingWhitespace else CollectingContent)\<rparr>))"
    | (none) "\<not> contains ?acc toolOpen" "\<not> contains ?acc thinkClose"
        "qwen3_thinking p = qwen3_show EventThinking (max (overlap ?acc thinkClose) (overlap ?acc toolOpen)) p"
    by (cases "index_of toolOpen ?acc"; cases "index_of thinkClose ?acc") (fastforce simp: qwen3_thinking_def Let_def)+
  then show ?thesis
  proof cases
    case tool
    obtain before after sb where s: "splitAtTag ?acc toolOpen True = (before, after, sb)" by (metis prod_cases3)
    have b: "before = trim_right (take i ?acc)" using splitAtTag_before[OF _ s] tool(1) by simp
    have "evs = text_event EventThinking before" "q_state p' \<in> {ToolStartedEatingWhitespace, CollectingToolContent}"
      using tool(3) assms(1) s by (auto simp: qwen3_open_tool_def split: if_splits)
    moreover have "\<not> contains (?t @ before) thinkClose" "\<not> contains (?t @ before) toolOpen"
      unfolding b using tool(1,2) by (intro before_not_contains H; simp)+
    ultimately show ?thesis using H by (auto simp: qwen3_tag_free_def)
  next
    case close
    obtain before after sb where s: "splitAtTag ?acc thinkClose True = (before, after, sb)" by (metis prod_cases3)
    have b: "before = trim_right (take i ?acc)" using splitAtTag_before[OF _ s] close(1) by simp
    have "evs = text_event EventThinking before" "q_state p' \<in> {ThinkingDoneEatingWhitespace, CollectingContent}"
      using close(3) assms(1) s by (auto split: if_splits)
    moreover have "\<not> contains (?t @ before) thinkClose" "\<not> contains (?t @ before) toolOpen"
      unfolding b using close(1,2) by (intro before_not_contains H; simp)+
    ultimately show ?thesis using H by (auto simp: qwen3_tag_free_def)
  next
    case none
    let ?n = "max (overlap ?acc thinkClose) (overlap ?acc toolOpen)"
    have n: "?n \<le> length ?acc" using overlap_le by simp
    have s: "qwen3_show EventThinking ?n p = (evs, cont, p')" using none(3) assms(1) by simp
    obtain shown kept where h: "hold_back ?acc ?n = (shown, kept)" by fastforce
    have e: "evs = text_event EventThinking shown" "p' = p\<lparr>q_buffer := kept\<rparr>"
      using s h by (auto simp: qwen3_show_def)
    have "clear_of thinkClose (?t @ shown) kept" "clear_of toolOpen (?t @ shown) kept"
      using clear_of_shown H(1,2) hold_back_split(1)[OF h n] hold_back_clear[OF h _ _ n] none(1,2) max.cobounded1 max.cobounded2
      by metis+
    then show ?thesis using H e st assms(4) clear_of_not_contains[of _ "?t @ shown" kept]
      by (simp add: qwen3_tag_free_def)
  qed
qed

lemma qwen3_eat_tag_free:
  assumes "qwen3_eat p = (evs, cont, p')" and H: "qwen3_tag_free h p"
  shows "qwen3_tag_free (h @ evs) p'"
proof (cases "q_state p")
  case LookingForThinkingOpen
  then have "evs = []" "thinking_of h = []" "last (content_runs h) = []"
    "q_state p' \<in> {LookingForThinkingOpen, ThinkingStartedEatingWhitespace, CollectingThinking, CollectingContent}"
    using assms by (auto simp: qwen3_eat_def qwen3_tag_free_def Let_def split: if_splits)
  with H show ?thesis by (auto simp: qwen3_tag_free_def)
next
  case CollectingThinking
  let ?t = "trim_left (q_buffer p)"
  show ?thesis
  proof (cases "q_maybeOpen p \<and> (prefix thinkOpen ?t \<or> prefix ?t thinkOpen)")
    case True
    then have "evs = []" "thinking_of h = []" "q_state p' = CollectingThinking"
      using assms CollectingThinking by (auto simp: qwen3_eat_def qwen3_tag_free_def Let_def split: if_splits)
    with H CollectingThinking show ?thesis by (auto simp: qwen3_tag_free_def)
  next
    case False
    let ?p = "p\<lparr>q_maybeOpen := False\<rparr>"
    have e: "qwen3_thinking (if q_maybeOpen p then ?p else p) = (evs, cont, p')"
      using assms(1) CollectingThinking False by (simp add: qwen3_eat_def Let_def split: if_splits)
    have t: "qwen3_tag_free h ?p" using H unfolding qwen3_tag_free_def by simp
    show ?thesis
    proof (cases "q_maybeOpen p")
      case True
      show ?thesis by (rule thinking_tag_free[of ?p]) (use e t True CollectingThinking in simp_all)
    next
      case False
      show ?thesis by (rule thinking_tag_free[of p]) (use e H False CollectingThinking in simp_all)
    qed
  qed
next
  case CollectingContent
  let ?acc = "q_buffer p" and ?r = "last (content_runs h)"
  have C: "clear_of toolOpen ?r ?acc" "\<forall>r \<in> set (content_runs h). \<not> contains r toolOpen"
    using H CollectingContent by (auto simp: qwen3_tag_free_def)
  show ?thesis
  proof (cases "contains ?acc toolOpen")
    case True
    then obtain i where i: "index_of toolOpen ?acc = Some i" by blast
    obtain before after sb where s: "splitAtTag ?acc toolOpen True = (before, after, sb)" by (metis prod_cases3)
    have b: "before = trim_right (take i ?acc)" using splitAtTag_before[OF True s] i by simp
    have e: "evs = text_event EventContent before" "q_state p' \<in> {ToolStartedEatingWhitespace, CollectingToolContent}"
      using assms(1) True CollectingContent s by (auto simp: qwen3_eat_def qwen3_open_tool_def split: if_splits)
    have "\<not> contains (?r @ before) toolOpen"
      unfolding b using i by (intro before_not_contains C; simp)
    with runs_insert[OF C(2)] have R: "\<forall>r \<in> set (content_runs (h @ evs)). \<not> contains r toolOpen"
      unfolding e(1) content_runs_text by blast
    have T: "thinking_of (h @ evs) = thinking_of h" "\<not> contains (thinking_of h) thinkClose" "\<not> contains (thinking_of h) toolOpen"
      using H e(1) by (simp_all add: qwen3_tag_free_def)
    show ?thesis unfolding qwen3_tag_free_def T(1) using T(2,3) R e(2) by auto
  next
    case False
    let ?n = "overlap ?acc toolOpen"
    obtain shown kept where h: "hold_back ?acc ?n = (shown, kept)" by fastforce
    have e: "evs = text_event EventContent shown" "p' = p\<lparr>q_buffer := kept\<rparr>"
      using assms(1) CollectingContent False h by (auto simp: qwen3_eat_def qwen3_show_def)
    have c: "clear_of toolOpen (?r @ shown) kept"
      using clear_of_shown C(1) hold_back_split(1)[OF h overlap_le] hold_back_clear[OF h False order_refl overlap_le]
      by metis
    have "\<not> contains (?r @ shown) toolOpen" using clear_of_not_contains[OF c] by simp
    with c H runs_insert[OF C(2)] e CollectingContent show ?thesis by (simp add: qwen3_tag_free_def)
  qed
next
  case CollectingToolContent
  then have "(evs = [] \<and> p' = p) \<or> (\<exists>raw. evs = [EventToolCall raw] \<and> q_state p' = CollectingContent)"
    using assms(1) by (auto simp: qwen3_eat_def split: if_splits prod.splits)
  with H CollectingToolContent show ?thesis by (auto simp: qwen3_tag_free_def index_of_Nil toolOpen_def)
next
  case ThinkingStartedEatingWhitespace
  then have "evs = []" "thinking_of h = []" "q_state p' \<in> {ThinkingStartedEatingWhitespace, CollectingThinking}"
    using assms by (auto simp: qwen3_eat_def eatWhitespace_to_def qwen3_tag_free_def Let_def split: if_splits)
  with H ThinkingStartedEatingWhitespace show ?thesis by (auto simp: qwen3_tag_free_def)
next
  case ThinkingDoneEatingWhitespace
  then have "evs = []" "last (content_runs h) = []" "q_state p' \<in> {ThinkingDoneEatingWhitespace, CollectingContent}"
    using assms by (auto simp: qwen3_eat_def eatWhitespace_to_def qwen3_tag_free_def Let_def split: if_splits)
  with H show ?thesis by (auto simp: qwen3_tag_free_def)
next
  case ToolStartedEatingWhitespace
  then have "evs = []" "q_state p' \<in> {ToolStartedEatingWhitespace, CollectingToolContent}"
    using assms(1) by (auto simp: qwen3_eat_def eatWhitespace_to_def Let_def split: if_splits)
  with tag_free_tool[OF H] show ?thesis by simp
qed

section \<open>Responses\<close>


lemma qwen3_eat_keeps_index: "qwen3_eat p = (evs, cont, p') \<Longrightarrow> q_callIndex p' = q_callIndex p"
  by (auto simp: qwen3_eat_def qwen3_thinking_def qwen3_open_tool_def qwen3_show_def eatWhitespace_to_def Let_def
      split: qwen3_state.splits if_splits prod.splits)

text \<open>The calls of a response, numbered on from the index of the parser.\<close>

definition qwen3_decoded ::
  "(string \<Rightarrow> 'e + (string \<times> 'a)) \<Rightarrow> 'e \<Rightarrow> qwen3_parser \<Rightarrow> string list \<Rightarrow> qwen3_parser \<Rightarrow> 'a family_call list \<Rightarrow> bool" where
  "qwen3_decoded f e p raws p' calls \<longleftrightarrow> qwen3_calls f e (q_callIndex p) raws = (q_callIndex p', Inr calls)"

lemma qwen3_Add_split:
  assumes "keep_looping qwen3_eat (qwen3_append t p) = Some (evs, p1)"
  shows "\<exists>n. qwen3_Add f e t d p =
    (case qwen3_calls f e (q_callIndex p) (calls_of evs) of
       (index, Inl er) \<Rightarrow> Some (Inl er, p1\<lparr>q_callIndex := index\<rparr>)
     | (index, Inr calls) \<Rightarrow> Some (Inr (content_of evs, thinking_of evs, calls), p1\<lparr>q_callIndex := index\<rparr>))"
proof -
  have "q_callIndex p1 = q_callIndex (qwen3_append t p)"
    by (rule qwen3.loop_invariant[OF assms, of "\<lambda>s. q_callIndex s = q_callIndex (qwen3_append t p)"])
      (auto dest: qwen3_eat_keeps_index)
  then show ?thesis using assms by (auto simp: qwen3_Add_def qwen3_append_def)
qed


lemma qwen3_settled_index [simp]: "qwen3_settled (p\<lparr>q_callIndex := n\<rparr>) = qwen3_settled p"
  by (cases "q_state p") (simp_all add: qwen3_settled_def)

lemma qwen3_tag_free_index [simp]: "qwen3_tag_free h (p\<lparr>q_callIndex := n\<rparr>) = qwen3_tag_free h p"
  by (simp add: qwen3_tag_free_def)

lemma qwen3_Add_reads:
  assumes "qwen3_Add f e t d p = Some (Inr (content, thinking, calls), p')"
  shows "(\<exists>evs u. q_buffer p @ t = u @ q_buffer p' \<and> spells qwen3_piece (q_state p) evs u (q_state p') \<and>
      content = content_of evs \<and> thinking = thinking_of evs \<and> qwen3_decoded f e p (calls_of evs) p' calls \<and>
      (\<forall>h. qwen3_tag_free h p \<longrightarrow> qwen3_tag_free (h @ evs) p')) \<and>
    qwen3_settled p'"
proof -
  obtain evs p1 where l: "keep_looping qwen3_eat (qwen3_append t p) = Some (evs, p1)"
    using qwen3.loop_returns by blast
  note r = qwen3_Add_split[OF l, of f e d] assms
  have p': "content = content_of evs" "thinking = thinking_of evs" "qwen3_decoded f e p (calls_of evs) p' calls"
    "\<exists>n. p' = p1\<lparr>q_callIndex := n\<rparr>"
    using r by (auto simp: qwen3_decoded_def split: sum.splits prod.splits)
  from qwen3.loop_spells[OF l] obtain u where
    "q_buffer p @ t = u @ q_buffer p1" "spells qwen3_piece (q_state p) evs u (q_state p1)" "qwen3_settled p1"
    by (auto simp: qwen3_append_def)
  moreover have "qwen3_tag_free (h @ evs) p1" if "qwen3_tag_free h p" for h
  proof (rule qwen3.loop_history[OF l, of qwen3_tag_free])
    show "qwen3_tag_free h (qwen3_append t p)"
      using that by (simp add: qwen3_tag_free_def qwen3_append_def clear_of_extend)
  qed (simp_all add: qwen3_eat_tag_free)
  moreover obtain n where "p' = p1\<lparr>q_callIndex := n\<rparr>" using p'(4) by blast
  ultimately show ?thesis using p'(1-3) by (intro conjI exI[of _ evs] exI[of _ u] allI impI) simp_all
qed






section \<open>Properties\<close>






text \<open>
   The parser withholds as little as it can: after every chunk the text that is held is
  white space followed by a proper start of a tag of its state, nothing after a tag, or the
  body of a tool call that is not closed.
\<close>
theorem qwen3_withholds_tag_starts:
  assumes "qwen3_Add unmarshal empty_name t done p = Some (Inr (content, thinking, calls), p')"
  shows "case q_state p' of
      LookingForThinkingOpen \<Rightarrow> may_start thinkOpen (q_buffer p')
    | CollectingThinking \<Rightarrow> may_start thinkClose (q_buffer p') \<or> may_start toolOpen (q_buffer p') \<or>
        (q_maybeOpen p' \<and> may_start thinkOpen (q_buffer p'))
    | CollectingContent \<Rightarrow> may_start toolOpen (q_buffer p')
    | CollectingToolContent \<Rightarrow> \<not> contains (q_buffer p') toolClose
    | _ \<Rightarrow> q_buffer p' = []"
  using qwen3_Add_reads[OF assms] unfolding qwen3_settled_def by blast

section \<open>Examples\<close>

lemmas qwen3_eval = qwen3_eat_def qwen3_thinking_def qwen3_open_tool_def qwen3_show_def hold_back_def eatWhitespace_to_def
  qwen3_Init_def qwen3_append_def text_event_def suffix_def thinkOpen_def thinkClose_def toolOpen_def toolClose_def ascii_eval

text \<open>\<^verbatim>\<open>Add\<close> on a buffer that one step settles.\<close>

lemma qwen3_Add_one:
  assumes "keep_looping qwen3_eat (qwen3_append t p) = Some (evs, p')" and "calls_of evs = []"
  shows "qwen3_Add f e t d p = Some (Inr (content_of evs, thinking_of evs, []), p')"
proof -
  have "p'\<lparr>q_callIndex := q_callIndex p'\<rparr> = p'" by simp
  then show ?thesis using assms by (simp add: qwen3_Add_def)
qed

text \<open>
  What is held when the response ends is never returned: \<^verbatim>\<open>Add\<close> does not look at \<open>done\<close>.
\<close>
theorem qwen3_end_is_lost:
  "\<exists>p'. add_all (qwen3_Add unmarshal empty_name) [(''a <'', True)] (qwen3_Init (Some False) p) = Some (Inr (''a'', [], []), p') \<and>
     q_buffer p' = '' <''"
proof -
  let ?p = "qwen3_Init (Some False) p"
  have l: "keep_looping qwen3_eat (qwen3_append ''a <'' ?p) = Some ([EventContent ''a''], ?p\<lparr>q_buffer := '' <''\<rparr>)"
    by (rule keep_looping_stop) (simp add: qwen3_eval)
  show ?thesis by (simp add: qwen3_Add_one[OF l])
qed

text \<open>
  The comment in \<^verbatim>\<open>eat\<close> says that exactly one leading opening tag is stripped.  When a chunk
  ends at that tag a second one is stripped too, but not when both come in one chunk.
\<close>
theorem qwen3_strips_two_tags:
  assumes "q_hasThinkingSupport p"
  shows "(\<exists>p'. add_all (qwen3_Add unmarshal empty_name) [(''<think>'', False), (''<think>a'', True)] (qwen3_Init (Some True) p)
            = Some (Inr ([], ''a'', []), p')) \<and>
         (\<exists>p'. add_all (qwen3_Add unmarshal empty_name) [(''<think><think>a'', True)] (qwen3_Init (Some True) p)
            = Some (Inr ([], ''<think>a'', []), p'))"
proof -
  let ?p = "qwen3_Init (Some True) p"
  have 1: "keep_looping qwen3_eat (qwen3_append ''<think>'' ?p) = Some ([], ?p)"
    by (rule keep_looping_stop) (simp add: qwen3_eval assms)
  have 2: "keep_looping qwen3_eat (qwen3_append ''<think>a'' ?p) = Some ([] @ [EventThinking ''a''], ?p\<lparr>q_maybeOpen := False\<rparr>)"
    by (rule keep_looping_more[of _ _ _ "?p\<lparr>q_maybeOpen := False, q_buffer := ''a''\<rparr>"])
      (simp_all add: keep_looping_stop qwen3_eval assms)
  have 3: "keep_looping qwen3_eat (qwen3_append ''<think><think>a'' ?p) = Some ([] @ [EventThinking ''<think>a''], ?p\<lparr>q_maybeOpen := False\<rparr>)"
    by (rule keep_looping_more[of _ _ _ "?p\<lparr>q_maybeOpen := False, q_buffer := ''<think>a''\<rparr>"])
      (simp_all add: keep_looping_stop qwen3_eval assms)
  show ?thesis by (simp add: qwen3_Add_one[OF 1] qwen3_Add_one[OF 2] qwen3_Add_one[OF 3])
qed

definition qwen3_example_parser :: qwen3_parser where
  "qwen3_example_parser = \<lparr>q_state = CollectingContent, q_buffer = [], q_callIndex = 0,
     q_hasThinkingSupport = True, q_defaultThinking = True, q_maybeOpen = False\<rparr>"

theorem qwen3_strips_two_tags_witness:
  "q_hasThinkingSupport qwen3_example_parser \<and>
   (\<exists>p'. add_all (qwen3_Add (\<lambda>_. Inl () :: unit + (string \<times> nat)) ()) [(''<think>'', False), (''<think>a'', True)]
      (qwen3_Init (Some True) qwen3_example_parser) = Some (Inr ([], ''a'', []), p'))"
proof -
  have h: "q_hasThinkingSupport qwen3_example_parser" by (simp add: qwen3_example_parser_def)
  from conjunct1[OF qwen3_strips_two_tags[OF h, of "\<lambda>_. Inl () :: unit + (string \<times> nat)" "()"]] h show ?thesis by simp
qed

text \<open>A response with a tag that is cut between chunks, in the state of \<^verbatim>\<open>Init\<close>.\<close>

lemma qwen3_example:
  "\<exists>p'. add_all (qwen3_Add f e) [(''a <tool_'', False), (''call>x'', True)] (qwen3_Init (Some False) p) = Some (Inr (''a'', [], []), p')"
proof -
  let ?p = "qwen3_Init (Some False) p"
  let ?q = "?p\<lparr>q_buffer := '' <tool_''\<rparr>"
  let ?r = "?p\<lparr>q_state := CollectingToolContent, q_buffer := ''x''\<rparr>"
  have 1: "keep_looping qwen3_eat (qwen3_append ''a <tool_'' ?p) = Some ([EventContent ''a''], ?q)"
    by (rule keep_looping_stop) (simp add: qwen3_eval)
  have 2: "keep_looping qwen3_eat (qwen3_append ''call>x'' ?q) = Some ([] @ [], ?r)"
    by (rule keep_looping_more[of _ _ _ ?r]) (simp_all add: keep_looping_stop qwen3_eval)
  show ?thesis by (simp add: qwen3_Add_one[OF 1] qwen3_Add_one[OF 2])
qed

theorem qwen3_withholds_tag_starts_witness:
  "\<exists>p'. qwen3_Add (\<lambda>_. Inl () :: unit + (string \<times> nat)) () ''a <'' True (qwen3_Init (Some False) qwen3_example_parser) =
      Some (Inr (''a'', [], []), p') \<and> q_state p' = CollectingContent \<and> may_start toolOpen (q_buffer p')"
proof -
  let ?p = "qwen3_Init (Some False) qwen3_example_parser"
  have "keep_looping qwen3_eat (qwen3_append ''a <'' ?p) = Some ([EventContent ''a''], ?p\<lparr>q_buffer := '' <''\<rparr>)"
    by (rule keep_looping_stop) (simp add: qwen3_eval)
  then have a: "qwen3_Add (\<lambda>_. Inl () :: unit + (string \<times> nat)) () ''a <'' True ?p = Some (Inr (''a'', [], []), ?p\<lparr>q_buffer := '' <''\<rparr>)"
    by (simp add: qwen3_Add_one)
  have st: "q_state (?p\<lparr>q_buffer := '' <''\<rparr>) = CollectingContent" by (simp add: qwen3_Init_def)
  from qwen3_withholds_tag_starts[OF a] a st show ?thesis by auto
qed

end
