(* ===== verification/DeepSeek3Parser.thy ===== *)
theory DeepSeek3Parser
  imports ParserKit
begin

text \<open>
  \<^verbatim>\<open>model/parsers/deepseek3.go\<close>: the parser that separates the thinking, the content, the tool
  calls and the tool output of a DeepSeek model.  The JSON decoder is an argument.
\<close>

section \<open>State and operations\<close>

datatype deepseek3_state =
    DeepSeekCollectingThinking
  | DeepSeekCollectingContent
  | DeepSeekCollectingToolCalls
  | DeepSeekCollectingToolOutput

definition deepseekThinkingCloseTag :: string where
  "deepseekThinkingCloseTag = ''</think>''"
definition deepseekToolCallsBeginTag :: string where
  "deepseekToolCallsBeginTag = special_tag [''tool'', ''calls'', ''begin'']"
definition deepseekToolCallsEndTag :: string where
  "deepseekToolCallsEndTag = special_tag [''tool'', ''calls'', ''end'']"
definition deepseekToolCallBeginTag :: string where
  "deepseekToolCallBeginTag = special_tag [''tool'', ''call'', ''begin'']"
definition deepseekToolCallEndTag :: string where
  "deepseekToolCallEndTag = special_tag [''tool'', ''call'', ''end'']"
definition deepseekToolSepTag :: string where
  "deepseekToolSepTag = special_tag [''tool'', ''sep'']"
definition deepseekToolOutputBeginTag :: string where
  "deepseekToolOutputBeginTag = special_tag [''tool'', ''output'', ''begin'']"
definition deepseekToolOutputEndTag :: string where
  "deepseekToolOutputEndTag = special_tag [''tool'', ''output'', ''end'']"

record deepseek3_parser =
  d_state :: deepseek3_state
  d_buffer :: string
  d_callIndex :: nat
  d_hasThinkingSupport :: bool

definition deepseek3_ThinkingClose :: "deepseek3_parser \<Rightarrow> string list" where
  "deepseek3_ThinkingClose p = (if d_state p = DeepSeekCollectingThinking then [deepseekThinkingCloseTag] else [])"

definition deepseek3_PreservedTokens :: "string list" where
  "deepseek3_PreservedTokens =
     [deepseekThinkingCloseTag, deepseekToolCallsBeginTag, deepseekToolCallsEndTag, deepseekToolCallBeginTag,
      deepseekToolCallEndTag, deepseekToolSepTag, deepseekToolOutputBeginTag, deepseekToolOutputEndTag]"

text \<open>The last message is absent or its role and content; the think value is absent or its \<^verbatim>\<open>Bool\<close>.\<close>

definition deepseek3_setInitialState :: "(string \<times> string) option \<Rightarrow> bool option \<Rightarrow> deepseek3_parser \<Rightarrow> deepseek3_parser" where
  "deepseek3_setInitialState lastMessage thinkValue p =
     (let prefill = (case lastMessage of None \<Rightarrow> False | Some (role, _) \<Rightarrow> role = ''assistant'');
          thinkingEnabled = (d_hasThinkingSupport p \<and> thinkValue = Some True)
      in if \<not> thinkingEnabled then p\<lparr>d_state := DeepSeekCollectingContent\<rparr>
         else if prefill \<and> snd (the lastMessage) \<noteq> [] then p\<lparr>d_state := DeepSeekCollectingContent\<rparr>
         else p\<lparr>d_state := DeepSeekCollectingThinking\<rparr>)"

definition deepseek3_Init :: "(string \<times> string) option \<Rightarrow> bool option \<Rightarrow> deepseek3_parser \<Rightarrow> deepseek3_parser" where
  "deepseek3_Init lastMessage thinkValue p = deepseek3_setInitialState lastMessage thinkValue (p\<lparr>d_callIndex := 0\<rparr>)"

text \<open>A call is its name and its arguments, around a separator.\<close>

definition deepseek3_parseToolCallContent :: "(string \<Rightarrow> 'e + 'a) \<Rightarrow> 'e \<Rightarrow> string \<Rightarrow> 'e + (string \<times> 'a)" where
  "deepseek3_parseToolCallContent unmarshal invalid_format content =
     (case cut content deepseekToolSepTag of
        (_, None) \<Rightarrow> Inl invalid_format
      | (name, Some argsJSON) \<Rightarrow>
          (case unmarshal (trim_space argsJSON) of
             Inl e \<Rightarrow> Inl e
           | Inr args \<Rightarrow> Inr (trim_space name, args)))"

definition deepseek3_eat ::
  "(string \<Rightarrow> 'e + (string \<times> 'a)) \<Rightarrow> deepseek3_parser \<Rightarrow> (string \<times> 'a) parser_event list \<times> bool \<times> deepseek3_parser" where
  "deepseek3_eat parse p =
     (let buf = d_buffer p in
      if buf = [] then ([], False, p)
      else case d_state p of
        DeepSeekCollectingThinking \<Rightarrow>
          (let (events, rest, closed) = until_close deepseekThinkingCloseTag buf
           in (events, closed,
               p\<lparr>d_buffer := rest,
                 d_state := (if closed then DeepSeekCollectingContent else DeepSeekCollectingThinking)\<rparr>))
      | DeepSeekCollectingContent \<Rightarrow>
          (case cut buf deepseekToolCallsBeginTag of
             (before, Some rest) \<Rightarrow>
               (text_event EventContent (trim_right before), True,
                p\<lparr>d_buffer := rest, d_state := DeepSeekCollectingToolCalls\<rparr>)
           | (_, None) \<Rightarrow>
               (case cut buf deepseekToolOutputBeginTag of
                  (before, Some rest) \<Rightarrow>
                    (text_event EventContent before, True,
                     p\<lparr>d_buffer := rest, d_state := DeepSeekCollectingToolOutput\<rparr>)
                | (_, None) \<Rightarrow> (text_event EventContent buf, False, p\<lparr>d_buffer := []\<rparr>)))
      | DeepSeekCollectingToolCalls \<Rightarrow>
          (case next_call deepseekToolCallBeginTag deepseekToolCallEndTag parse buf of
             Some (call, rest) \<Rightarrow> ([EventToolCall call], True, p\<lparr>d_buffer := rest\<rparr>)
           | None \<Rightarrow>
               (case cut buf deepseekToolCallsEndTag of
                  (_, Some rest) \<Rightarrow> ([], True, p\<lparr>d_buffer := trim_left rest, d_state := DeepSeekCollectingContent\<rparr>)
                | (_, None) \<Rightarrow> ([], False, p)))
      | DeepSeekCollectingToolOutput \<Rightarrow>
          (case cut buf deepseekToolOutputEndTag of
             (toolOutputContent, Some rest) \<Rightarrow>
               (text_event EventContent toolOutputContent, True,
                p\<lparr>d_buffer := rest, d_state := DeepSeekCollectingContent\<rparr>)
           | (_, None) \<Rightarrow> ([], False, p)))"

definition deepseek3_append :: "string \<Rightarrow> deepseek3_parser \<Rightarrow> deepseek3_parser" where
  "deepseek3_append t p = p\<lparr>d_buffer := d_buffer p @ t\<rparr>"

text \<open>\<^verbatim>\<open>Add\<close> never fails; \<open>None\<close> would be a loop that does not end.\<close>

definition deepseek3_Add ::
  "(string \<Rightarrow> 'e + 'a) \<Rightarrow> 'e \<Rightarrow> string \<Rightarrow> bool \<Rightarrow> deepseek3_parser
   \<Rightarrow> (('e, 'a family_call) add_result \<times> deepseek3_parser) option" where
  "deepseek3_Add unmarshal invalid_format s done p =
     (case keep_looping (deepseek3_eat (deepseek3_parseToolCallContent unmarshal invalid_format)) (deepseek3_append s p) of
        None \<Rightarrow> None
      | Some (events, p') \<Rightarrow>
          (let calls = number_calls (d_callIndex p') (calls_of events)
           in Some (Inr (content_of events, thinking_of events, calls),
                    p'\<lparr>d_callIndex := d_callIndex p' + length calls\<rparr>)))"

section \<open>The grammar of responses\<close>

text \<open>
  What is between two calls is dropped, as is all of a block of calls from the first call that
  cannot be parsed up to the end of the block.
\<close>

inductive deepseek3_piece ::
  "(string \<Rightarrow> 'e + (string \<times> 'a)) \<Rightarrow> deepseek3_state \<Rightarrow> (string \<times> 'a) parser_event list \<Rightarrow> string \<Rightarrow> deepseek3_state \<Rightarrow> bool"
  for parse where
  thinking: "t \<noteq> [] \<Longrightarrow>
     deepseek3_piece parse DeepSeekCollectingThinking [EventThinking t] t DeepSeekCollectingThinking"
| close: "blank w \<Longrightarrow> blank w' \<Longrightarrow>
     deepseek3_piece parse DeepSeekCollectingThinking [] (w @ deepseekThinkingCloseTag @ w') DeepSeekCollectingContent"
| content: "t \<noteq> [] \<Longrightarrow>
     deepseek3_piece parse DeepSeekCollectingContent [EventContent t] t DeepSeekCollectingContent"
| open_calls: "blank w \<Longrightarrow>
     deepseek3_piece parse DeepSeekCollectingContent [] (w @ deepseekToolCallsBeginTag) DeepSeekCollectingToolCalls"
| call: "parse raw = Inr c \<Longrightarrow> blank w \<Longrightarrow>
     deepseek3_piece parse DeepSeekCollectingToolCalls [EventToolCall c]
       (skipped @ deepseekToolCallBeginTag @ raw @ deepseekToolCallEndTag @ w) DeepSeekCollectingToolCalls"
| close_calls: "blank w \<Longrightarrow>
     deepseek3_piece parse DeepSeekCollectingToolCalls [] (skipped @ deepseekToolCallsEndTag @ w) DeepSeekCollectingContent"
| open_output: "deepseek3_piece parse DeepSeekCollectingContent [] deepseekToolOutputBeginTag DeepSeekCollectingToolOutput"
| tool_output: "t \<noteq> [] \<Longrightarrow>
     deepseek3_piece parse DeepSeekCollectingToolOutput [EventContent t] t DeepSeekCollectingToolOutput"
| close_output: "deepseek3_piece parse DeepSeekCollectingToolOutput [] deepseekToolOutputEndTag DeepSeekCollectingContent"

definition deepseek3_settled :: "(string \<Rightarrow> 'e + (string \<times> 'a)) \<Rightarrow> deepseek3_parser \<Rightarrow> bool" where
  "deepseek3_settled parse p =
     (case d_state p of
        DeepSeekCollectingThinking \<Rightarrow> may_start deepseekThinkingCloseTag (d_buffer p)
      | DeepSeekCollectingContent \<Rightarrow> d_buffer p = []
      | DeepSeekCollectingToolCalls \<Rightarrow>
          next_call deepseekToolCallBeginTag deepseekToolCallEndTag parse (d_buffer p) = None \<and>
          \<not> contains (d_buffer p) deepseekToolCallsEndTag
      | DeepSeekCollectingToolOutput \<Rightarrow> \<not> contains (d_buffer p) deepseekToolOutputEndTag)"

section \<open>The parser reads the grammar\<close>

lemmas deepseek_tags = deepseekThinkingCloseTag_def deepseekToolCallsBeginTag_def deepseekToolCallsEndTag_def
  deepseekToolCallBeginTag_def deepseekToolCallEndTag_def deepseekToolSepTag_def deepseekToolOutputBeginTag_def
  deepseekToolOutputEndTag_def

lemma deepseek_tags_nonempty [simp]:
  "deepseekThinkingCloseTag \<noteq> []" "deepseekToolCallsBeginTag \<noteq> []" "deepseekToolCallsEndTag \<noteq> []"
  "deepseekToolCallBeginTag \<noteq> []" "deepseekToolOutputBeginTag \<noteq> []" "deepseekToolOutputEndTag \<noteq> []"
  by (simp_all add: deepseek_tags)

lemma deepseek3_eat_ok:
  assumes "deepseek3_eat parse p = (evs, cont, p')"
  shows "(\<exists>u. d_buffer p = u @ d_buffer p' \<and> spells (deepseek3_piece parse) (d_state p) evs u (d_state p')) \<and>
    (cont \<longrightarrow> length (d_buffer p') < length (d_buffer p)) \<and> (\<not> cont \<longrightarrow> deepseek3_settled parse p')"
proof (cases "d_buffer p = []")
  case True
  then have "evs = []" "\<not> cont" "p' = p" using assms by (simp_all add: deepseek3_eat_def)
  then show ?thesis using True spells_Nil by (cases "d_state p") (auto simp: deepseek3_settled_def)
next
  case ne: False
  let ?buf = "d_buffer p"
  show ?thesis
  proof (cases "d_state p")
    case DeepSeekCollectingThinking
    obtain buf' where u: "until_close deepseekThinkingCloseTag ?buf = (evs, buf', cont)"
      "p' = p\<lparr>d_buffer := buf', d_state := (if cont then DeepSeekCollectingContent else DeepSeekCollectingThinking)\<rparr>"
      using assms ne DeepSeekCollectingThinking by (auto simp: deepseek3_eat_def split: prod.splits)
    obtain w where "?buf = w @ buf'" "spells (deepseek3_piece parse) DeepSeekCollectingThinking evs w
        (if cont then DeepSeekCollectingContent else DeepSeekCollectingThinking)"
      using until_close_spells[OF u(1), of "deepseek3_piece parse" DeepSeekCollectingThinking DeepSeekCollectingContent]
      by (auto intro: deepseek3_piece.intros)
    moreover have "\<not> cont \<Longrightarrow> may_start deepseekThinkingCloseTag buf'" using until_close_open[of deepseekThinkingCloseTag ?buf evs buf'] u(1) by auto
    moreover have "cont \<Longrightarrow> length buf' < length ?buf" using until_close_shorter[of deepseekThinkingCloseTag ?buf evs buf'] u(1) by auto
    ultimately show ?thesis using u(2) DeepSeekCollectingThinking by (auto simp: deepseek3_settled_def)
  next
    case DeepSeekCollectingContent
    consider (calls) before rest where "cut ?buf deepseekToolCallsBeginTag = (before, Some rest)"
      | (outp) before rest where "cut ?buf deepseekToolCallsBeginTag = (?buf, None)"
          "cut ?buf deepseekToolOutputBeginTag = (before, Some rest)"
      | (plain) "cut ?buf deepseekToolCallsBeginTag = (?buf, None)" "cut ?buf deepseekToolOutputBeginTag = (?buf, None)"
      by (metis cut_cases)
    then show ?thesis
    proof cases
      case calls
      have e: "evs = text_event EventContent (trim_right before)" cont "d_buffer p' = rest" "d_state p' = DeepSeekCollectingToolCalls"
        using assms ne DeepSeekCollectingContent calls by (auto simp: deepseek3_eat_def)
      with cut_spells[OF calls, of "deepseek3_piece parse", OF deepseek3_piece.content deepseek3_piece.open_calls]
        cut_rest_shorter[OF calls] DeepSeekCollectingContent
      show ?thesis by auto
    next
      case outp
      have e: "evs = text_event EventContent before" cont "d_buffer p' = rest" "d_state p' = DeepSeekCollectingToolOutput"
        using assms ne DeepSeekCollectingContent outp by (auto simp: deepseek3_eat_def)
      have b: "?buf = (before @ deepseekToolOutputBeginTag) @ rest" using conjunct1[OF cut_found_split[OF outp(2)]] by simp
      have "spells (deepseek3_piece parse) DeepSeekCollectingContent (text_event EventContent before @ [])
          (before @ deepseekToolOutputBeginTag) DeepSeekCollectingToolOutput"
        using deepseek3_piece.content spells_one[of "deepseek3_piece parse", OF deepseek3_piece.open_output] by (rule spells_text)
      with b e DeepSeekCollectingContent show ?thesis by fastforce
    next
      case plain
      have "evs = text_event EventContent ?buf" "\<not> cont" "p' = p\<lparr>d_buffer := []\<rparr>"
        using assms ne DeepSeekCollectingContent plain by (auto simp: deepseek3_eat_def)
      with spells_text_only[of "deepseek3_piece parse" DeepSeekCollectingContent EventContent ?buf] deepseek3_piece.content
        DeepSeekCollectingContent
      show ?thesis by (auto simp: deepseek3_settled_def)
    qed
  next
    case DeepSeekCollectingToolCalls
    show ?thesis
    proof (cases "next_call deepseekToolCallBeginTag deepseekToolCallEndTag parse ?buf")
      case (Some r)
      obtain call rest where r: "r = (call, rest)" by fastforce
      have e: "evs = [EventToolCall call]" cont "d_buffer p' = rest" "d_state p' = DeepSeekCollectingToolCalls"
        using assms ne DeepSeekCollectingToolCalls Some r by (auto simp: deepseek3_eat_def)
      obtain skipped raw w where b: "blank w" "parse raw = Inr call"
        "?buf = (skipped @ deepseekToolCallBeginTag @ raw @ deepseekToolCallEndTag @ w) @ rest"
        using next_call_Some[of _ _ parse ?buf call rest] Some r by blast
      have "length rest < length ?buf" unfolding b(3) by simp
      with spells_one[of "deepseek3_piece parse", OF deepseek3_piece.call[of parse raw call w skipped, OF b(2,1)]] b(3) e
        DeepSeekCollectingToolCalls
      show ?thesis by metis
    next
      case None
      show ?thesis
      proof (cases "contains ?buf deepseekToolCallsEndTag")
        case True
        then obtain skipped rest where c: "cut ?buf deepseekToolCallsEndTag = (skipped, Some rest)" by (auto simp: cut_def)
        have e: "evs = []" cont "d_buffer p' = trim_left rest" "d_state p' = DeepSeekCollectingContent"
          using assms ne DeepSeekCollectingToolCalls None c by (auto simp: deepseek3_eat_def)
        obtain w where w: "blank w" "?buf = (skipped @ deepseekToolCallsEndTag @ w) @ trim_left rest"
          using cut_trim_left(1)[OF c] by auto
        from spells_one[of "deepseek3_piece parse", OF deepseek3_piece.close_calls[OF w(1), of parse skipped]] w(2) e
          cut_trim_left(2)[OF c] DeepSeekCollectingToolCalls
        show ?thesis by auto
      next
        case False
        then have "evs = []" "\<not> cont" "p' = p"
          using assms ne DeepSeekCollectingToolCalls None by (auto simp: deepseek3_eat_def cut_def)
        with None False DeepSeekCollectingToolCalls show ?thesis by (auto simp: deepseek3_settled_def intro: spells_Nil)
      qed
    qed
  next
    case DeepSeekCollectingToolOutput
    show ?thesis
    proof (cases "contains ?buf deepseekToolOutputEndTag")
      case True
      then obtain out rest where c: "cut ?buf deepseekToolOutputEndTag = (out, Some rest)" by (auto simp: cut_def)
      have e: "evs = text_event EventContent out" cont "d_buffer p' = rest" "d_state p' = DeepSeekCollectingContent"
        using assms ne DeepSeekCollectingToolOutput c by (auto simp: deepseek3_eat_def)
      have b: "?buf = (out @ deepseekToolOutputEndTag) @ rest" using conjunct1[OF cut_found_split[OF c]] by simp
      have "spells (deepseek3_piece parse) DeepSeekCollectingToolOutput (text_event EventContent out @ [])
          (out @ deepseekToolOutputEndTag) DeepSeekCollectingContent"
        using deepseek3_piece.tool_output spells_one[of "deepseek3_piece parse", OF deepseek3_piece.close_output] by (rule spells_text)
      with b e DeepSeekCollectingToolOutput show ?thesis by fastforce
    next
      case False
      then have "evs = []" "\<not> cont" "p' = p"
        using assms ne DeepSeekCollectingToolOutput by (auto simp: deepseek3_eat_def cut_def)
      with False DeepSeekCollectingToolOutput show ?thesis by (auto simp: deepseek3_settled_def intro: spells_Nil)
    qed
  qed
qed

interpretation deepseek3: conserving_parser "deepseek3_eat parse" "\<lambda>p. length (d_buffer p)" "\<lambda>_. True" d_buffer d_state
    deepseek3_append "deepseek3_piece parse" "deepseek3_settled parse" for parse
  by unfold_locales (auto dest: deepseek3_eat_ok simp: deepseek3_append_def)

section \<open>Responses\<close>

text \<open>Thinking never holds its closing tag.\<close>

definition deepseek3_tag_free :: "(string \<times> 'a) parser_event list \<Rightarrow> deepseek3_parser \<Rightarrow> bool" where
  "deepseek3_tag_free evs p \<longleftrightarrow>
     \<not> contains (thinking_of evs) deepseekThinkingCloseTag \<and>
     (d_state p = DeepSeekCollectingThinking \<longrightarrow> clear_of deepseekThinkingCloseTag (thinking_of evs) (d_buffer p))"

lemma deepseek3_eat_content:
  assumes "deepseek3_eat parse p = (evs, cont, p')" and "d_state p \<noteq> DeepSeekCollectingThinking"
  shows "thinking_of evs = []" and "d_state p' \<noteq> DeepSeekCollectingThinking"
  using assms by (auto simp: deepseek3_eat_def Let_def split: if_splits deepseek3_state.splits option.splits prod.splits)

lemma deepseek3_eat_tag_free:
  assumes "deepseek3_eat parse p = (evs, cont, p')" and H: "deepseek3_tag_free h p"
  shows "deepseek3_tag_free (h @ evs) p'"
proof (cases "d_buffer p = []")
  case True
  with assms show ?thesis by (auto simp: deepseek3_eat_def)
next
  case ne: False
  show ?thesis
  proof (cases "d_state p = DeepSeekCollectingThinking")
    case True
    obtain buf' where u: "until_close deepseekThinkingCloseTag (d_buffer p) = (evs, buf', cont)"
      "p' = p\<lparr>d_buffer := buf', d_state := (if cont then DeepSeekCollectingContent else DeepSeekCollectingThinking)\<rparr>"
      using assms(1) ne True by (auto simp: deepseek3_eat_def split: prod.splits)
    have "clear_of deepseekThinkingCloseTag (thinking_of h) (d_buffer p)" using H True by (simp add: deepseek3_tag_free_def)
    with until_close_clear[OF u(1), of h] u(2) show ?thesis by (auto simp: deepseek3_tag_free_def simp del: thinking_of_append)
  next
    case False
    with deepseek3_eat_content[OF assms(1)] H show ?thesis by (auto simp: deepseek3_tag_free_def)
  qed
qed

definition deepseek3_decoded ::
  "deepseek3_parser \<Rightarrow> (string \<times> 'a) list \<Rightarrow> deepseek3_parser \<Rightarrow> 'a family_call list \<Rightarrow> bool" where
  "deepseek3_decoded p cs p' calls \<longleftrightarrow>
     calls = number_calls (d_callIndex p) cs \<and> d_callIndex p' = d_callIndex p + length cs"

lemma deepseek3_eat_keeps_index: "deepseek3_eat parse p = (evs, cont, p') \<Longrightarrow> d_callIndex p' = d_callIndex p"
  by (auto simp: deepseek3_eat_def Let_def split: if_splits deepseek3_state.splits option.splits prod.splits)

lemma deepseek3_index [simp]:
  "deepseek3_settled parse (p\<lparr>d_callIndex := n\<rparr>) = deepseek3_settled parse p"
  "deepseek3_tag_free h (p\<lparr>d_callIndex := n\<rparr>) = deepseek3_tag_free h p"
  by (cases "d_state p"; simp add: deepseek3_settled_def deepseek3_tag_free_def)+

lemma deepseek3_Add_reads:
  fixes f :: "string \<Rightarrow> 'e + 'a"
  shows "\<exists>evs p' calls u. deepseek3_Add f e t d p = Some (Inr (content_of evs, thinking_of evs, calls), p') \<and>
    d_buffer p @ t = u @ d_buffer p' \<and>
    spells (deepseek3_piece (deepseek3_parseToolCallContent f e)) (d_state p) evs u (d_state p') \<and>
    deepseek3_decoded p (calls_of evs) p' calls \<and>
    (\<forall>h. deepseek3_tag_free h p \<longrightarrow> deepseek3_tag_free (h @ evs) p') \<and>
    deepseek3_settled (deepseek3_parseToolCallContent f e) p'"
proof -
  let ?parse = "deepseek3_parseToolCallContent f e"
  obtain evs p1 where l: "keep_looping (deepseek3_eat ?parse) (deepseek3_append t p) = Some (evs, p1)"
    using deepseek3.loop_returns[OF TrueI, of ?parse "deepseek3_append t p"] by blast
  have i: "d_callIndex p1 = d_callIndex p"
    by (rule deepseek3.loop_invariant[OF l TrueI, of "\<lambda>s. d_callIndex s = d_callIndex p"])
      (auto simp: deepseek3_append_def dest: deepseek3_eat_keeps_index)
  obtain u where u: "d_buffer p @ t = u @ d_buffer p1" "spells (deepseek3_piece ?parse) (d_state p) evs u (d_state p1)"
    "deepseek3_settled ?parse p1"
    using deepseek3.loop_spells[OF l TrueI] by (auto simp: deepseek3_append_def)
  have H: "deepseek3_tag_free (h @ evs) p1" if "deepseek3_tag_free h p" for h
  proof (rule deepseek3.loop_history[OF l TrueI, of deepseek3_tag_free])
    show "deepseek3_tag_free h (deepseek3_append t p)"
      using that by (simp add: deepseek3_tag_free_def deepseek3_append_def clear_of_extend)
  qed (simp add: deepseek3_eat_tag_free)
  let ?calls = "number_calls (d_callIndex p) (calls_of evs)" and ?p' = "p1\<lparr>d_callIndex := d_callIndex p + length (calls_of evs)\<rparr>"
  show ?thesis
    by (rule exI[of _ evs], rule exI[of _ ?p'], rule exI[of _ ?calls], rule exI[of _ u])
      (use l i u H in \<open>simp add: deepseek3_Add_def deepseek3_decoded_def\<close>)
qed

interpretation deepseek3_add: adder "deepseek3_Add f e" d_buffer d_state
    "deepseek3_piece (deepseek3_parseToolCallContent f e)" "deepseek3_settled (deepseek3_parseToolCallContent f e)"
    deepseek3_decoded deepseek3_tag_free "\<lambda>_. True" for f :: "string \<Rightarrow> 'e + 'a" and e
proof unfold_locales
  fix t :: string and d :: bool and p :: deepseek3_parser
  show "\<exists>r p'. deepseek3_Add f e t d p = Some (r, p') \<and> True" using deepseek3_Add_reads[of f e t d p] by auto
next
  fix t :: string and d :: bool and p p' :: deepseek3_parser and content thinking :: string and calls :: "'a family_call list"
  assume "deepseek3_Add f e t d p = Some (Inr (content, thinking, calls), p')"
  with deepseek3_Add_reads[of f e t d p]
  show "(\<exists>evs u. d_buffer p @ t = u @ d_buffer p' \<and>
      spells (deepseek3_piece (deepseek3_parseToolCallContent f e)) (d_state p) evs u (d_state p') \<and>
      content = content_of evs \<and> thinking = thinking_of evs \<and> deepseek3_decoded p (calls_of evs) p' calls \<and>
      (\<forall>h. deepseek3_tag_free h p \<longrightarrow> deepseek3_tag_free (h @ evs) p')) \<and>
    deepseek3_settled (deepseek3_parseToolCallContent f e) p'"
    by auto
qed (auto simp: deepseek3_decoded_def number_calls_append)

section \<open>Properties\<close>

lemma deepseek3_Init_state:
  "d_buffer (deepseek3_Init lm tv p) = d_buffer p" "d_callIndex (deepseek3_Init lm tv p) = 0"
  by (simp_all add: deepseek3_Init_def deepseek3_setInitialState_def Let_def)

text \<open>
   Every response of a DeepSeek model is read without an error, in whatever chunks it
  comes: every byte of the input is taken exactly once, in order, up to what is still held; the
  content, the thinking and the calls are those of a reading by the grammar of responses, the
  calls are numbered from 0, and the thinking never holds its closing tag.
\<close>
theorem deepseek3_response_read:
  fixes f :: "string \<Rightarrow> 'e + 'a"
  shows "\<exists>evs u p'. add_all (deepseek3_Add f invalid) chunks (deepseek3_Init lm tv p) =
        Some (Inr (content_of evs, thinking_of evs, number_calls 0 (calls_of evs)), p') \<and>
      d_buffer p @ concat (map fst chunks) = u @ d_buffer p' \<and>
      spells (deepseek3_piece (deepseek3_parseToolCallContent f invalid)) (d_state (deepseek3_Init lm tv p)) evs u (d_state p') \<and>
      \<not> contains (thinking_of evs) deepseekThinkingCloseTag"
proof -
  let ?p = "deepseek3_Init lm tv p" and ?parse = "deepseek3_parseToolCallContent f invalid"
  have "\<exists>r s'. deepseek3_Add f invalid t d s = Some (Inr r, s')" for t d s using deepseek3_Add_reads[of f invalid t d s] by blast
  then obtain content thinking calls p' where a: "add_all (deepseek3_Add f invalid) chunks ?p = Some (Inr (content, thinking, calls), p')"
    using add_all_no_error[of "deepseek3_Add f invalid" chunks ?p] by (metis prod_cases3)
  obtain evs u where r: "d_buffer ?p @ concat (map fst chunks) = u @ d_buffer p'"
      "spells (deepseek3_piece ?parse) (d_state ?p) evs u (d_state p')"
      "content = content_of evs" "thinking = thinking_of evs" "deepseek3_decoded ?p (calls_of evs) p' calls"
      "\<forall>h. deepseek3_tag_free h ?p \<longrightarrow> deepseek3_tag_free (h @ evs) p'"
    using deepseek3_add.add_all_reads[OF TrueI a] by blast
  have "deepseek3_tag_free [] ?p" by (simp add: deepseek3_tag_free_def)
  with r(6) have "deepseek3_tag_free evs p'" by (metis append_Nil)
  with a r show ?thesis
    by (intro exI[of _ evs] exI[of _ u] exI[of _ p']) (simp add: deepseek3_Init_state deepseek3_decoded_def deepseek3_tag_free_def)
qed

text \<open>In content, a chunk without a whole tag is shown as it is.\<close>

lemma deepseek3_plain_chunk:
  assumes "d_state p = DeepSeekCollectingContent" and "d_buffer p = []"
    and "\<not> contains t deepseekToolCallsBeginTag" and "\<not> contains t deepseekToolOutputBeginTag"
  shows "deepseek3_Add f invalid t d p = Some (Inr (t, [], []), p)"
proof -
  have "deepseek3_eat parse (deepseek3_append t p) = (text_event EventContent t, False, p)" for parse :: "string \<Rightarrow> 'a + (string \<times> 'b)"
    using assms by (auto simp: deepseek3_eat_def deepseek3_append_def Let_def cut_def text_event_def)
  then show ?thesis by (simp add: deepseek3_Add_def keep_looping_stop)
qed

text \<open>
  Content is passed on chunk by chunk: as long as no single chunk holds a whole opening tag,
  everything is shown at once.  So a tag that is cut between two chunks is shown to the user,
  and the tool calls behind it are shown as content.
\<close>
theorem deepseek3_cut_tag_is_content:
  assumes "d_state p = DeepSeekCollectingContent" and "d_buffer p = []"
    and "\<forall>(t, d) \<in> set chunks. \<not> contains t deepseekToolCallsBeginTag \<and> \<not> contains t deepseekToolOutputBeginTag"
  shows "add_all (deepseek3_Add f invalid) chunks p = Some (Inr (concat (map fst chunks), [], []), p)"
  using assms(3)
proof (induction chunks)
  case (Cons c chunks)
  obtain t d where c: "c = (t, d)" by fastforce
  have "deepseek3_Add f invalid t d p = Some (Inr (t, [], []), p)"
    by (rule deepseek3_plain_chunk) (use assms(1,2) Cons.prems c in auto)
  then show ?case using Cons c by simp
qed simp

definition deepseek3_example_parser :: deepseek3_parser where
  "deepseek3_example_parser = \<lparr>d_state = DeepSeekCollectingContent, d_buffer = [], d_callIndex = 0, d_hasThinkingSupport = True\<rparr>"

theorem deepseek3_cut_tag_is_content_witness:
  "add_all (deepseek3_Add (\<lambda>s. Inr s :: unit + string) ())
     [(''<'', False), (tl deepseekToolCallsBeginTag @ ''x'', True)] deepseek3_example_parser =
   Some (Inr (deepseekToolCallsBeginTag @ ''x'', [], []), deepseek3_example_parser)"
proof -
  have e: "concat (map fst [(''<'', False), (tl deepseekToolCallsBeginTag @ ''x'', True)]) = deepseekToolCallsBeginTag @ ''x''"
    by (simp add: deepseek_tags special_tag_def)
  show ?thesis unfolding e[symmetric]
    by (rule deepseek3_cut_tag_is_content)
      (simp_all add: deepseek3_example_parser_def deepseek_tags special_tag_def index_of.simps)
qed

text \<open>
  White space between the closing tag of thinking and the content is dropped only if it comes in
  the same chunk as the tag.
\<close>
theorem deepseek3_space_depends_on_chunks:
  assumes "d_hasThinkingSupport p" and "d_buffer p = []"
  shows "(\<exists>p'. add_all (deepseek3_Add f invalid) [(''a</think>'', False), ('' b'', True)] (deepseek3_Init None (Some True) p) =
           Some (Inr ('' b'', ''a'', []), p')) \<and>
         (\<exists>p'. add_all (deepseek3_Add f invalid) [(''a</think> b'', True)] (deepseek3_Init None (Some True) p) =
           Some (Inr (''b'', ''a'', []), p'))"
proof -
  let ?p = "deepseek3_Init None (Some True) p" and ?parse = "deepseek3_parseToolCallContent f invalid"
  let ?q = "?p\<lparr>d_state := DeepSeekCollectingContent\<rparr>"
  have s: "d_state ?p = DeepSeekCollectingThinking" "d_buffer ?p = []" "d_callIndex ?p = 0"
    using assms by (simp_all add: deepseek3_Init_def deepseek3_setInitialState_def Let_def)
  have 1: "keep_looping (deepseek3_eat ?parse) (deepseek3_append ''a</think>'' ?p) = Some ([EventThinking ''a''] @ [], ?q)"
    by (rule keep_looping_more[of _ _ _ ?q])
      (simp_all add: keep_looping_stop deepseek3_eat_def deepseek3_append_def s until_close_def text_event_def
        deepseekThinkingCloseTag_def ascii_eval)
  have 2: "keep_looping (deepseek3_eat ?parse) (deepseek3_append ''a</think> b'' ?p) =
      Some ([EventThinking ''a''] @ [EventContent ''b''], ?q)"
    by (rule keep_looping_more[of _ _ _ "?q\<lparr>d_buffer := ''b''\<rparr>"])
      (simp_all add: keep_looping_stop deepseek3_eat_def deepseek3_append_def s until_close_def text_event_def
        deepseek_tags special_tag_def ascii_eval)
  have 3: "deepseek3_Add f invalid '' b'' True ?q = Some (Inr ('' b'', [], []), ?q)"
    by (rule deepseek3_plain_chunk) (simp_all add: s deepseek_tags special_tag_def index_of.simps)
  have "?q\<lparr>d_callIndex := 0\<rparr> = ?q" using s(3) by simp
  then show ?thesis using 3 by (simp add: deepseek3_Add_def[of f invalid "''a</think>''"] deepseek3_Add_def[of f invalid "''a</think> b''"] 1 2 s)
qed

theorem deepseek3_space_depends_on_chunks_witness:
  "d_hasThinkingSupport deepseek3_example_parser \<and>
   (\<exists>p'. add_all (deepseek3_Add (\<lambda>s. Inr s :: unit + string) ()) [(''a</think>'', False), ('' b'', True)]
      (deepseek3_Init None (Some True) deepseek3_example_parser) = Some (Inr ('' b'', ''a'', []), p'))"
proof -
  have h: "d_hasThinkingSupport deepseek3_example_parser" "d_buffer deepseek3_example_parser = []"
    by (simp_all add: deepseek3_example_parser_def)
  from conjunct1[OF deepseek3_space_depends_on_chunks[OF h, of "\<lambda>s. Inr s :: unit + string" "()"]] h show ?thesis by simp
qed

text \<open>
  A call that cannot be parsed hides every later call of its block: the search for the next call
  starts at the bad one again, until the end of the block drops them all.
\<close>
theorem deepseek3_bad_call_hides_later:
  assumes "d_state p = DeepSeekCollectingToolCalls" and "d_buffer p = []"
    and "t = deepseekToolCallBeginTag @ raw @ deepseekToolCallEndTag @ later"
    and "cut (raw @ deepseekToolCallEndTag @ later) deepseekToolCallEndTag = (raw, Some later)"
    and "deepseek3_parseToolCallContent f invalid raw = Inl e"
    and "cut t deepseekToolCallsEndTag = (block, Some [])"
  shows "deepseek3_Add f invalid t d p = Some (Inr ([], [], []), p\<lparr>d_state := DeepSeekCollectingContent\<rparr>)"
proof -
  let ?parse = "deepseek3_parseToolCallContent f invalid"
  let ?q = "p\<lparr>d_state := DeepSeekCollectingContent\<rparr>"
  have "cut t deepseekToolCallBeginTag = ([], Some (raw @ deepseekToolCallEndTag @ later))"
    unfolding assms(3) by (simp add: cut_def)
  with assms(4,5) have n: "next_call deepseekToolCallBeginTag deepseekToolCallEndTag ?parse t = None"
    by (simp add: next_call_def)
  have "t \<noteq> []" unfolding assms(3) by simp
  then have "deepseek3_eat ?parse (deepseek3_append t p) = ([], True, ?q)"
    using assms(1,2,6) n by (simp add: deepseek3_eat_def deepseek3_append_def Let_def)
  moreover have "keep_looping (deepseek3_eat ?parse) ?q = Some ([], ?q)"
    by (rule keep_looping_stop) (simp add: deepseek3_eat_def assms(2))
  ultimately have "keep_looping (deepseek3_eat ?parse) (deepseek3_append t p) = Some ([] @ [], ?q)"
    by (rule keep_looping_more)
  then show ?thesis by (simp add: deepseek3_Add_def)
qed

theorem deepseek3_bad_call_hides_later_witness:
  "\<exists>good bad. deepseek3_parseToolCallContent (\<lambda>s. if s = ''1'' then Inr s else Inl ()) () good = Inr (''g'', ''1'') \<and>
    deepseek3_Add (\<lambda>s. if s = ''1'' then Inr s else Inl ()) ()
      (deepseekToolCallBeginTag @ bad @ deepseekToolCallEndTag @
       deepseekToolCallBeginTag @ good @ deepseekToolCallEndTag @ deepseekToolCallsEndTag) True
      (deepseek3_example_parser\<lparr>d_state := DeepSeekCollectingToolCalls\<rparr>) =
    Some (Inr ([], [], []), deepseek3_example_parser)"
proof -
  let ?f = "\<lambda>s. if s = ''1'' then Inr s else Inl ()" and ?p = "deepseek3_example_parser\<lparr>d_state := DeepSeekCollectingToolCalls\<rparr>"
  let ?good = "''g'' @ deepseekToolSepTag @ ''1''" and ?bad = "''f''"
  let ?later = "deepseekToolCallBeginTag @ ?good @ deepseekToolCallEndTag @ deepseekToolCallsEndTag"
  let ?t = "deepseekToolCallBeginTag @ ?bad @ deepseekToolCallEndTag @ ?later"
  have e: "deepseek3_example_parser\<lparr>d_state := DeepSeekCollectingContent\<rparr> = deepseek3_example_parser"
    by (simp add: deepseek3_example_parser_def)
  have "deepseek3_Add ?f () ?t True ?p = Some (Inr ([], [], []), ?p\<lparr>d_state := DeepSeekCollectingContent\<rparr>)"
  proof (rule deepseek3_bad_call_hides_later)
    show "cut (?bad @ deepseekToolCallEndTag @ ?later) deepseekToolCallEndTag = (?bad, Some ?later)"
      by (simp add: cut_def deepseek_tags special_tag_def index_of.simps)
    show "cut ?t deepseekToolCallsEndTag =
      (deepseekToolCallBeginTag @ ?bad @ deepseekToolCallEndTag @ deepseekToolCallBeginTag @ ?good @ deepseekToolCallEndTag, Some [])"
      by (simp add: cut_def deepseek_tags special_tag_def index_of.simps)
    show "deepseek3_parseToolCallContent ?f () ?bad = Inl ()"
      by (simp add: deepseek3_parseToolCallContent_def cut_def deepseek_tags special_tag_def index_of.simps)
  qed (simp_all add: deepseek3_example_parser_def)
  moreover have "deepseek3_parseToolCallContent ?f () ?good = Inr (''g'', ''1'')"
    by (simp add: deepseek3_parseToolCallContent_def cut_def deepseek_tags special_tag_def trim_space_def ascii_eval)
  ultimately show ?thesis using e by (intro exI[of _ ?good] exI[of _ ?bad]) simp
qed

end
