(* ===== verification/CogitoParser.thy ===== *)
theory CogitoParser
  imports ParserKit
begin

text \<open>
  \<^verbatim>\<open>model/parsers/cogito.go\<close>: the parser for Cogito models.  Unlike DeepSeek's, tool output
  is a block of outputs that is dropped, a call names its function behind the separator and holds
  its arguments in a fenced block, and there is no thinking when there are tools.
\<close>

section \<open>State and operations\<close>

datatype cogito_state =
    CogitoCollectingThinking
  | CogitoCollectingContent
  | CogitoCollectingToolCalls
  | CogitoCollectingToolOutput

definition cogitoThinkingCloseTag :: string where
  "cogitoThinkingCloseTag = ''</think>''"
definition cogitoToolCallsBeginTag :: string where
  "cogitoToolCallsBeginTag = special_tag [''tool'', ''calls'', ''begin'']"
definition cogitoToolCallsEndTag :: string where
  "cogitoToolCallsEndTag = special_tag [''tool'', ''calls'', ''end'']"
definition cogitoToolCallBeginTag :: string where
  "cogitoToolCallBeginTag = special_tag [''tool'', ''call'', ''begin'']"
definition cogitoToolCallEndTag :: string where
  "cogitoToolCallEndTag = special_tag [''tool'', ''call'', ''end'']"
definition cogitoToolSepTag :: string where
  "cogitoToolSepTag = special_tag [''tool'', ''sep'']"
definition cogitoToolOutputBeginTag :: string where
  "cogitoToolOutputBeginTag = special_tag [''tool'', ''output'', ''begin'']"
definition cogitoToolOutputEndTag :: string where
  "cogitoToolOutputEndTag = special_tag [''tool'', ''output'', ''end'']"
definition cogitoToolOutputsBeginTag :: string where
  "cogitoToolOutputsBeginTag = special_tag [''tool'', ''outputs'', ''begin'']"
definition cogitoToolOutputsEndTag :: string where
  "cogitoToolOutputsEndTag = special_tag [''tool'', ''outputs'', ''end'']"

record cogito_parser =
  c_state :: cogito_state
  c_buffer :: string
  c_callIndex :: nat

definition cogito_ThinkingClose :: "cogito_parser \<Rightarrow> string list" where
  "cogito_ThinkingClose p = (if c_state p = CogitoCollectingThinking then [cogitoThinkingCloseTag] else [])"

definition cogito_PreservedTokens :: "string list" where
  "cogito_PreservedTokens =
     [cogitoThinkingCloseTag, cogitoToolCallsBeginTag, cogitoToolCallsEndTag, cogitoToolCallBeginTag, cogitoToolCallEndTag,
      cogitoToolSepTag, cogitoToolOutputBeginTag, cogitoToolOutputEndTag, cogitoToolOutputsBeginTag, cogitoToolOutputsEndTag]"

text \<open>The last message is absent or its role and content; the think value is absent or its \<^verbatim>\<open>Bool\<close>.\<close>

definition cogito_setInitialState :: "(string \<times> string) option \<Rightarrow> 't list \<Rightarrow> bool option \<Rightarrow> cogito_parser \<Rightarrow> cogito_parser" where
  "cogito_setInitialState lastMessage tools thinkValue p =
     (let prefill = (case lastMessage of None \<Rightarrow> False | Some (role, _) \<Rightarrow> role = ''assistant'');
          thinkingEnabled = (thinkValue = Some True)
      in if \<not> thinkingEnabled then p\<lparr>c_state := CogitoCollectingContent\<rparr>
         else if prefill \<and> snd (the lastMessage) \<noteq> [] then p\<lparr>c_state := CogitoCollectingContent\<rparr>
         else if 0 < length tools then p\<lparr>c_state := CogitoCollectingContent\<rparr>
         else p\<lparr>c_state := CogitoCollectingThinking\<rparr>)"

definition cogito_Init :: "(string \<times> string) option \<Rightarrow> 't list \<Rightarrow> bool option \<Rightarrow> cogito_parser \<Rightarrow> cogito_parser" where
  "cogito_Init lastMessage tools thinkValue p = cogito_setInitialState lastMessage tools thinkValue (p\<lparr>c_callIndex := 0\<rparr>)"

text \<open>A call: a kind, the separator, the name, and the arguments between fences.\<close>

definition cogito_fence_open :: string where
  "cogito_fence_open = [CHR 0x0A] @ ''```json'' @ [CHR 0x0A]"
definition cogito_fence_close :: string where
  "cogito_fence_close = [CHR 0x0A] @ ''```''"

definition cogito_parseToolCallContent :: "(string \<Rightarrow> 'e + 'a) \<Rightarrow> 'e \<Rightarrow> string \<Rightarrow> 'e + (string \<times> 'a)" where
  "cogito_parseToolCallContent unmarshal invalid_format content =
     (case cut content cogitoToolSepTag of
        (_, None) \<Rightarrow> Inl invalid_format
      | (_, Some nameAndArgs) \<Rightarrow>
          (case cut nameAndArgs cogito_fence_open of
             (_, None) \<Rightarrow> Inl invalid_format
           | (name, Some jsonContent) \<Rightarrow>
               (case cut jsonContent cogito_fence_close of
                  (_, None) \<Rightarrow> Inl invalid_format
                | (argsJSON, Some _) \<Rightarrow>
                    (case unmarshal argsJSON of
                       Inl e \<Rightarrow> Inl e
                     | Inr args \<Rightarrow> Inr (trim_space name, args)))))"

text \<open>The text behind the next tool output, if it is complete.\<close>

definition cogito_skip_output :: "string \<Rightarrow> string option" where
  "cogito_skip_output buf =
     (case cut buf cogitoToolOutputBeginTag of
        (_, None) \<Rightarrow> None
      | (_, Some after) \<Rightarrow>
          (case cut after cogitoToolOutputEndTag of
             (_, None) \<Rightarrow> None
           | (_, Some rest) \<Rightarrow> Some (trim_left rest)))"

definition cogito_eat ::
  "(string \<Rightarrow> 'e + (string \<times> 'a)) \<Rightarrow> cogito_parser \<Rightarrow> (string \<times> 'a) parser_event list \<times> bool \<times> cogito_parser" where
  "cogito_eat parse p =
     (let buf = c_buffer p in
      if buf = [] then ([], False, p)
      else case c_state p of
        CogitoCollectingThinking \<Rightarrow>
          (let (events, rest, closed) = until_close cogitoThinkingCloseTag buf
           in (events, closed,
               p\<lparr>c_buffer := rest, c_state := (if closed then CogitoCollectingContent else CogitoCollectingThinking)\<rparr>))
      | CogitoCollectingContent \<Rightarrow>
          (case cut buf cogitoToolCallsBeginTag of
             (before, Some rest) \<Rightarrow>
               (text_event EventContent (trim_right before), True,
                p\<lparr>c_buffer := rest, c_state := CogitoCollectingToolCalls\<rparr>)
           | (_, None) \<Rightarrow>
               (case cut buf cogitoToolOutputsBeginTag of
                  (before, Some rest) \<Rightarrow>
                    (text_event EventContent (trim_right before), True,
                     p\<lparr>c_buffer := rest, c_state := CogitoCollectingToolOutput\<rparr>)
                | (_, None) \<Rightarrow> (text_event EventContent buf, False, p\<lparr>c_buffer := []\<rparr>)))
      | CogitoCollectingToolCalls \<Rightarrow>
          (case next_call cogitoToolCallBeginTag cogitoToolCallEndTag parse buf of
             Some (call, rest) \<Rightarrow> ([EventToolCall call], True, p\<lparr>c_buffer := rest\<rparr>)
           | None \<Rightarrow>
               (case cut buf cogitoToolCallsEndTag of
                  (_, Some rest) \<Rightarrow> ([], True, p\<lparr>c_buffer := trim_left rest, c_state := CogitoCollectingContent\<rparr>)
                | (_, None) \<Rightarrow> ([], False, p)))
      | CogitoCollectingToolOutput \<Rightarrow>
          (case cogito_skip_output buf of
             Some rest \<Rightarrow> ([], True, p\<lparr>c_buffer := rest\<rparr>)
           | None \<Rightarrow>
               (case cut buf cogitoToolOutputsEndTag of
                  (_, Some rest) \<Rightarrow> ([], True, p\<lparr>c_buffer := trim_left rest, c_state := CogitoCollectingContent\<rparr>)
                | (_, None) \<Rightarrow> ([], False, p))))"

definition cogito_append :: "string \<Rightarrow> cogito_parser \<Rightarrow> cogito_parser" where
  "cogito_append t p = p\<lparr>c_buffer := c_buffer p @ t\<rparr>"

text \<open>\<^verbatim>\<open>Add\<close> never fails; \<open>None\<close> would be a loop that does not end.\<close>

definition cogito_Add ::
  "(string \<Rightarrow> 'e + 'a) \<Rightarrow> 'e \<Rightarrow> string \<Rightarrow> bool \<Rightarrow> cogito_parser
   \<Rightarrow> (('e, 'a family_call) add_result \<times> cogito_parser) option" where
  "cogito_Add unmarshal invalid_format s done p =
     (case keep_looping (cogito_eat (cogito_parseToolCallContent unmarshal invalid_format)) (cogito_append s p) of
        None \<Rightarrow> None
      | Some (events, p') \<Rightarrow>
          (let calls = number_calls (c_callIndex p') (calls_of events)
           in Some (Inr (content_of events, thinking_of events, calls),
                    p'\<lparr>c_callIndex := c_callIndex p' + length calls\<rparr>)))"

section \<open>The grammar of responses\<close>

inductive cogito_piece ::
  "(string \<Rightarrow> 'e + (string \<times> 'a)) \<Rightarrow> cogito_state \<Rightarrow> (string \<times> 'a) parser_event list \<Rightarrow> string \<Rightarrow> cogito_state \<Rightarrow> bool"
  for parse where
  thinking: "t \<noteq> [] \<Longrightarrow> cogito_piece parse CogitoCollectingThinking [EventThinking t] t CogitoCollectingThinking"
| close: "blank w \<Longrightarrow> blank w' \<Longrightarrow>
     cogito_piece parse CogitoCollectingThinking [] (w @ cogitoThinkingCloseTag @ w') CogitoCollectingContent"
| content: "t \<noteq> [] \<Longrightarrow> cogito_piece parse CogitoCollectingContent [EventContent t] t CogitoCollectingContent"
| open_calls: "blank w \<Longrightarrow>
     cogito_piece parse CogitoCollectingContent [] (w @ cogitoToolCallsBeginTag) CogitoCollectingToolCalls"
| call: "parse raw = Inr c \<Longrightarrow> blank w \<Longrightarrow>
     cogito_piece parse CogitoCollectingToolCalls [EventToolCall c]
       (skipped @ cogitoToolCallBeginTag @ raw @ cogitoToolCallEndTag @ w) CogitoCollectingToolCalls"
| close_calls: "blank w \<Longrightarrow>
     cogito_piece parse CogitoCollectingToolCalls [] (skipped @ cogitoToolCallsEndTag @ w) CogitoCollectingContent"
| open_outputs: "blank w \<Longrightarrow>
     cogito_piece parse CogitoCollectingContent [] (w @ cogitoToolOutputsBeginTag) CogitoCollectingToolOutput"
| tool_output: "blank w \<Longrightarrow>
     cogito_piece parse CogitoCollectingToolOutput []
       (skipped @ cogitoToolOutputBeginTag @ out @ cogitoToolOutputEndTag @ w) CogitoCollectingToolOutput"
| close_outputs: "blank w \<Longrightarrow>
     cogito_piece parse CogitoCollectingToolOutput [] (skipped @ cogitoToolOutputsEndTag @ w) CogitoCollectingContent"

definition cogito_settled :: "(string \<Rightarrow> 'e + (string \<times> 'a)) \<Rightarrow> cogito_parser \<Rightarrow> bool" where
  "cogito_settled parse p =
     (case c_state p of
        CogitoCollectingThinking \<Rightarrow> may_start cogitoThinkingCloseTag (c_buffer p)
      | CogitoCollectingContent \<Rightarrow> c_buffer p = []
      | CogitoCollectingToolCalls \<Rightarrow>
          next_call cogitoToolCallBeginTag cogitoToolCallEndTag parse (c_buffer p) = None \<and>
          \<not> contains (c_buffer p) cogitoToolCallsEndTag
      | CogitoCollectingToolOutput \<Rightarrow>
          cogito_skip_output (c_buffer p) = None \<and> \<not> contains (c_buffer p) cogitoToolOutputsEndTag)"

section \<open>The parser reads the grammar\<close>

lemmas cogito_tags = cogitoThinkingCloseTag_def cogitoToolCallsBeginTag_def cogitoToolCallsEndTag_def cogitoToolCallBeginTag_def cogitoToolCallEndTag_def
  cogitoToolSepTag_def cogitoToolOutputBeginTag_def cogitoToolOutputEndTag_def cogitoToolOutputsBeginTag_def cogitoToolOutputsEndTag_def

lemma cogito_tags_nonempty [simp]:
  "cogitoThinkingCloseTag \<noteq> []"
  "cogitoToolCallsBeginTag \<noteq> []"
  "cogitoToolCallsEndTag \<noteq> []"
  "cogitoToolCallBeginTag \<noteq> []"
  "cogitoToolCallEndTag \<noteq> []"
  "cogitoToolSepTag \<noteq> []"
  "cogitoToolOutputBeginTag \<noteq> []"
  "cogitoToolOutputEndTag \<noteq> []"
  "cogitoToolOutputsBeginTag \<noteq> []"
  "cogitoToolOutputsEndTag \<noteq> []"
  by (simp_all add: cogito_tags)

lemma cogito_skip_output_empty [simp]: "cogito_skip_output [] = None"
  by (simp add: cogito_skip_output_def cut_def)

lemma cogito_skip_output_Some:
  assumes "cogito_skip_output buf = Some rest"
  shows "\<exists>skipped out w. buf = (skipped @ cogitoToolOutputBeginTag @ out @ cogitoToolOutputEndTag @ w) @ rest \<and> blank w"
    and "length rest < length buf"
proof -
  obtain skipped aft out r where c: "cut buf cogitoToolOutputBeginTag = (skipped, Some aft)"
    "cut aft cogitoToolOutputEndTag = (out, Some r)" "rest = trim_left r"
    using assms by (auto simp: cogito_skip_output_def split: prod.splits option.splits)
  obtain w where w: "blank w" "aft = (out @ cogitoToolOutputEndTag @ w) @ rest" using cut_trim_left(1)[OF c(2)] c(3) by auto
  have b: "buf = (skipped @ cogitoToolOutputBeginTag @ out @ cogitoToolOutputEndTag @ w) @ rest"
    using conjunct1[OF cut_found_split[OF c(1)]] w(2) by simp
  with w(1) show "\<exists>skipped out w. buf = (skipped @ cogitoToolOutputBeginTag @ out @ cogitoToolOutputEndTag @ w) @ rest \<and> blank w"
    by blast
  show "length rest < length buf" by (subst b) simp
qed

lemma cogito_eat_ok:
  assumes "cogito_eat parse p = (evs, cont, p')"
  shows "(\<exists>u. c_buffer p = u @ c_buffer p' \<and> spells (cogito_piece parse) (c_state p) evs u (c_state p')) \<and>
    (cont \<longrightarrow> length (c_buffer p') < length (c_buffer p)) \<and> (\<not> cont \<longrightarrow> cogito_settled parse p')"
proof (cases "c_buffer p = []")
  case True
  then have "evs = []" "\<not> cont" "p' = p" using assms by (simp_all add: cogito_eat_def)
  then show ?thesis using True spells_Nil by (cases "c_state p") (auto simp: cogito_settled_def)
next
  case ne: False
  let ?buf = "c_buffer p"
  show ?thesis
  proof (cases "c_state p")
    case CogitoCollectingThinking
    obtain buf' where u: "until_close cogitoThinkingCloseTag ?buf = (evs, buf', cont)"
      "p' = p\<lparr>c_buffer := buf', c_state := (if cont then CogitoCollectingContent else CogitoCollectingThinking)\<rparr>"
      using assms ne CogitoCollectingThinking by (auto simp: cogito_eat_def split: prod.splits)
    obtain w where "?buf = w @ buf'" "spells (cogito_piece parse) CogitoCollectingThinking evs w
        (if cont then CogitoCollectingContent else CogitoCollectingThinking)"
      using until_close_spells[OF u(1), of "cogito_piece parse" CogitoCollectingThinking CogitoCollectingContent]
      by (auto intro: cogito_piece.intros)
    moreover have "\<not> cont \<Longrightarrow> may_start cogitoThinkingCloseTag buf'" using until_close_open[of cogitoThinkingCloseTag ?buf evs buf'] u(1) by auto
    moreover have "cont \<Longrightarrow> length buf' < length ?buf" using until_close_shorter[of cogitoThinkingCloseTag ?buf evs buf'] u(1) by auto
    ultimately show ?thesis using u(2) CogitoCollectingThinking by (auto simp: cogito_settled_def)
  next
    case CogitoCollectingContent
    consider (calls) before rest where "cut ?buf cogitoToolCallsBeginTag = (before, Some rest)"
      | (outp) before rest where "cut ?buf cogitoToolCallsBeginTag = (?buf, None)"
          "cut ?buf cogitoToolOutputsBeginTag = (before, Some rest)"
      | (plain) "cut ?buf cogitoToolCallsBeginTag = (?buf, None)" "cut ?buf cogitoToolOutputsBeginTag = (?buf, None)"
      by (metis cut_cases)
    then show ?thesis
    proof cases
      case calls
      have e: "evs = text_event EventContent (trim_right before)" cont "c_buffer p' = rest" "c_state p' = CogitoCollectingToolCalls"
        using assms ne CogitoCollectingContent calls by (auto simp: cogito_eat_def)
      with cut_spells[OF calls, of "cogito_piece parse", OF cogito_piece.content cogito_piece.open_calls]
        cut_rest_shorter[OF calls] CogitoCollectingContent
      show ?thesis by auto
    next
      case outp
      have e: "evs = text_event EventContent (trim_right before)" cont "c_buffer p' = rest" "c_state p' = CogitoCollectingToolOutput"
        using assms ne CogitoCollectingContent outp by (auto simp: cogito_eat_def)
      with cut_spells[OF outp(2), of "cogito_piece parse", OF cogito_piece.content cogito_piece.open_outputs]
        cut_rest_shorter[OF outp(2)] CogitoCollectingContent
      show ?thesis by auto
    next
      case plain
      have "evs = text_event EventContent ?buf" "\<not> cont" "p' = p\<lparr>c_buffer := []\<rparr>"
        using assms ne CogitoCollectingContent plain by (auto simp: cogito_eat_def)
      with spells_text_only[of "cogito_piece parse" CogitoCollectingContent EventContent ?buf] cogito_piece.content
        CogitoCollectingContent
      show ?thesis by (auto simp: cogito_settled_def)
    qed
  next
    case CogitoCollectingToolCalls
    show ?thesis
    proof (cases "next_call cogitoToolCallBeginTag cogitoToolCallEndTag parse ?buf")
      case (Some r)
      obtain call rest where r: "r = (call, rest)" by fastforce
      have e: "evs = [EventToolCall call]" cont "c_buffer p' = rest" "c_state p' = CogitoCollectingToolCalls"
        using assms ne CogitoCollectingToolCalls Some r by (auto simp: cogito_eat_def)
      obtain skipped raw w where b: "blank w" "parse raw = Inr call"
        "?buf = (skipped @ cogitoToolCallBeginTag @ raw @ cogitoToolCallEndTag @ w) @ rest"
        using next_call_Some[of _ _ parse ?buf call rest] Some r by blast
      have "length rest < length ?buf" unfolding b(3) by simp
      with spells_one[of "cogito_piece parse", OF cogito_piece.call[of parse raw call w skipped, OF b(2,1)]] b(3) e
        CogitoCollectingToolCalls
      show ?thesis by metis
    next
      case None
      show ?thesis
      proof (cases "contains ?buf cogitoToolCallsEndTag")
        case True
        then obtain skipped rest where c: "cut ?buf cogitoToolCallsEndTag = (skipped, Some rest)" by (auto simp: cut_def)
        have e: "evs = []" cont "c_buffer p' = trim_left rest" "c_state p' = CogitoCollectingContent"
          using assms ne CogitoCollectingToolCalls None c by (auto simp: cogito_eat_def)
        obtain w where w: "blank w" "?buf = (skipped @ cogitoToolCallsEndTag @ w) @ trim_left rest"
          using cut_trim_left(1)[OF c] by auto
        from spells_one[of "cogito_piece parse", OF cogito_piece.close_calls[OF w(1), of parse skipped]] w(2) e
          cut_trim_left(2)[OF c] CogitoCollectingToolCalls
        show ?thesis by auto
      next
        case False
        then have "evs = []" "\<not> cont" "p' = p"
          using assms ne CogitoCollectingToolCalls None by (auto simp: cogito_eat_def cut_def)
        with None False CogitoCollectingToolCalls show ?thesis by (auto simp: cogito_settled_def intro: spells_Nil)
      qed
    qed
  next
    case CogitoCollectingToolOutput
    show ?thesis
    proof (cases "cogito_skip_output ?buf")
      case (Some rest)
      have e: "evs = []" cont "c_buffer p' = rest" "c_state p' = CogitoCollectingToolOutput"
        using assms ne CogitoCollectingToolOutput Some by (auto simp: cogito_eat_def)
      obtain skipped out w where b: "blank w"
        "?buf = (skipped @ cogitoToolOutputBeginTag @ out @ cogitoToolOutputEndTag @ w) @ rest"
        using cogito_skip_output_Some(1)[OF Some] by auto
      from spells_one[of "cogito_piece parse", OF cogito_piece.tool_output[OF b(1), of parse skipped out]] b(2) e
        cogito_skip_output_Some(2)[OF Some] CogitoCollectingToolOutput
      show ?thesis by auto
    next
      case None
      show ?thesis
      proof (cases "contains ?buf cogitoToolOutputsEndTag")
        case True
        then obtain skipped rest where c: "cut ?buf cogitoToolOutputsEndTag = (skipped, Some rest)" by (auto simp: cut_def)
        have e: "evs = []" cont "c_buffer p' = trim_left rest" "c_state p' = CogitoCollectingContent"
          using assms ne CogitoCollectingToolOutput None c by (auto simp: cogito_eat_def)
        obtain w where w: "blank w" "?buf = (skipped @ cogitoToolOutputsEndTag @ w) @ trim_left rest"
          using cut_trim_left(1)[OF c] by auto
        from spells_one[of "cogito_piece parse", OF cogito_piece.close_outputs[OF w(1), of parse skipped]] w(2) e
          cut_trim_left(2)[OF c] CogitoCollectingToolOutput
        show ?thesis by auto
      next
        case False
        then have "evs = []" "\<not> cont" "p' = p"
          using assms ne CogitoCollectingToolOutput None by (auto simp: cogito_eat_def cut_def)
        with None False CogitoCollectingToolOutput show ?thesis by (auto simp: cogito_settled_def intro: spells_Nil)
      qed
    qed
  qed
qed

interpretation cogito: conserving_parser "cogito_eat parse" "\<lambda>p. length (c_buffer p)" "\<lambda>_. True" c_buffer c_state
    cogito_append "cogito_piece parse" "cogito_settled parse" for parse
  by unfold_locales (auto dest: cogito_eat_ok simp: cogito_append_def)

section \<open>Responses\<close>

text \<open>Thinking never holds its closing tag.\<close>

definition cogito_tag_free :: "(string \<times> 'a) parser_event list \<Rightarrow> cogito_parser \<Rightarrow> bool" where
  "cogito_tag_free evs p \<longleftrightarrow>
     \<not> contains (thinking_of evs) cogitoThinkingCloseTag \<and>
     (c_state p = CogitoCollectingThinking \<longrightarrow> clear_of cogitoThinkingCloseTag (thinking_of evs) (c_buffer p))"

lemma cogito_eat_content:
  assumes "cogito_eat parse p = (evs, cont, p')" and "c_state p \<noteq> CogitoCollectingThinking"
  shows "thinking_of evs = []" and "c_state p' \<noteq> CogitoCollectingThinking"
  using assms by (auto simp: cogito_eat_def Let_def split: if_splits cogito_state.splits option.splits prod.splits)

lemma cogito_eat_tag_free:
  assumes "cogito_eat parse p = (evs, cont, p')" and H: "cogito_tag_free h p"
  shows "cogito_tag_free (h @ evs) p'"
proof (cases "c_buffer p = []")
  case True
  with assms show ?thesis by (auto simp: cogito_eat_def)
next
  case ne: False
  show ?thesis
  proof (cases "c_state p = CogitoCollectingThinking")
    case True
    obtain buf' where u: "until_close cogitoThinkingCloseTag (c_buffer p) = (evs, buf', cont)"
      "p' = p\<lparr>c_buffer := buf', c_state := (if cont then CogitoCollectingContent else CogitoCollectingThinking)\<rparr>"
      using assms(1) ne True by (auto simp: cogito_eat_def split: prod.splits)
    have "clear_of cogitoThinkingCloseTag (thinking_of h) (c_buffer p)" using H True by (simp add: cogito_tag_free_def)
    with until_close_clear[OF u(1), of h] u(2) show ?thesis by (auto simp: cogito_tag_free_def simp del: thinking_of_append)
  next
    case False
    with cogito_eat_content[OF assms(1)] H show ?thesis by (auto simp: cogito_tag_free_def)
  qed
qed

definition cogito_decoded ::
  "cogito_parser \<Rightarrow> (string \<times> 'a) list \<Rightarrow> cogito_parser \<Rightarrow> 'a family_call list \<Rightarrow> bool" where
  "cogito_decoded p cs p' calls \<longleftrightarrow>
     calls = number_calls (c_callIndex p) cs \<and> c_callIndex p' = c_callIndex p + length cs"

lemma cogito_eat_keeps_index: "cogito_eat parse p = (evs, cont, p') \<Longrightarrow> c_callIndex p' = c_callIndex p"
  by (auto simp: cogito_eat_def Let_def split: if_splits cogito_state.splits option.splits prod.splits)

lemma cogito_index [simp]:
  "cogito_settled parse (p\<lparr>c_callIndex := n\<rparr>) = cogito_settled parse p"
  "cogito_tag_free h (p\<lparr>c_callIndex := n\<rparr>) = cogito_tag_free h p"
  by (cases "c_state p"; simp add: cogito_settled_def cogito_tag_free_def)+

lemma cogito_Add_reads:
  fixes f :: "string \<Rightarrow> 'e + 'a"
  shows "\<exists>evs p' calls u. cogito_Add f e t d p = Some (Inr (content_of evs, thinking_of evs, calls), p') \<and>
    c_buffer p @ t = u @ c_buffer p' \<and>
    spells (cogito_piece (cogito_parseToolCallContent f e)) (c_state p) evs u (c_state p') \<and>
    cogito_decoded p (calls_of evs) p' calls \<and>
    (\<forall>h. cogito_tag_free h p \<longrightarrow> cogito_tag_free (h @ evs) p') \<and>
    cogito_settled (cogito_parseToolCallContent f e) p'"
proof -
  let ?parse = "cogito_parseToolCallContent f e"
  obtain evs p1 where l: "keep_looping (cogito_eat ?parse) (cogito_append t p) = Some (evs, p1)"
    using cogito.loop_returns[OF TrueI, of ?parse "cogito_append t p"] by blast
  have i: "c_callIndex p1 = c_callIndex p"
    by (rule cogito.loop_invariant[OF l TrueI, of "\<lambda>s. c_callIndex s = c_callIndex p"])
      (auto simp: cogito_append_def dest: cogito_eat_keeps_index)
  obtain u where u: "c_buffer p @ t = u @ c_buffer p1" "spells (cogito_piece ?parse) (c_state p) evs u (c_state p1)"
    "cogito_settled ?parse p1"
    using cogito.loop_spells[OF l TrueI] by (auto simp: cogito_append_def)
  have H: "cogito_tag_free (h @ evs) p1" if "cogito_tag_free h p" for h
  proof (rule cogito.loop_history[OF l TrueI, of cogito_tag_free])
    show "cogito_tag_free h (cogito_append t p)"
      using that by (simp add: cogito_tag_free_def cogito_append_def clear_of_extend)
  qed (simp add: cogito_eat_tag_free)
  let ?calls = "number_calls (c_callIndex p) (calls_of evs)" and ?p' = "p1\<lparr>c_callIndex := c_callIndex p + length (calls_of evs)\<rparr>"
  show ?thesis
    by (rule exI[of _ evs], rule exI[of _ ?p'], rule exI[of _ ?calls], rule exI[of _ u])
      (use l i u H in \<open>simp add: cogito_Add_def cogito_decoded_def\<close>)
qed

interpretation cogito_add: adder "cogito_Add f e" c_buffer c_state
    "cogito_piece (cogito_parseToolCallContent f e)" "cogito_settled (cogito_parseToolCallContent f e)"
    cogito_decoded cogito_tag_free "\<lambda>_. True" for f :: "string \<Rightarrow> 'e + 'a" and e
proof unfold_locales
  fix t :: string and d :: bool and p :: cogito_parser
  show "\<exists>r p'. cogito_Add f e t d p = Some (r, p') \<and> True" using cogito_Add_reads[of f e t d p] by auto
next
  fix t :: string and d :: bool and p p' :: cogito_parser and content thinking :: string and calls :: "'a family_call list"
  assume "cogito_Add f e t d p = Some (Inr (content, thinking, calls), p')"
  with cogito_Add_reads[of f e t d p]
  show "(\<exists>evs u. c_buffer p @ t = u @ c_buffer p' \<and>
      spells (cogito_piece (cogito_parseToolCallContent f e)) (c_state p) evs u (c_state p') \<and>
      content = content_of evs \<and> thinking = thinking_of evs \<and> cogito_decoded p (calls_of evs) p' calls \<and>
      (\<forall>h. cogito_tag_free h p \<longrightarrow> cogito_tag_free (h @ evs) p')) \<and>
    cogito_settled (cogito_parseToolCallContent f e) p'"
    by auto
qed (auto simp: cogito_decoded_def number_calls_append)

section \<open>Properties\<close>

lemma cogito_Init_state:
  "c_buffer (cogito_Init lm tools tv p) = c_buffer p" "c_callIndex (cogito_Init lm tools tv p) = 0"
  by (simp_all add: cogito_Init_def cogito_setInitialState_def Let_def)

text \<open>
   Every response of a Cogito model is read without an error, in whatever chunks it
  comes: every byte of the input is taken exactly once, in order, up to what is still held; the
  content, the thinking and the calls are those of a reading by the grammar of responses, the
  calls are numbered from 0, and the thinking never holds its closing tag.
\<close>
theorem cogito_response_read:
  fixes f :: "string \<Rightarrow> 'e + 'a"
  shows "\<exists>evs u p'. add_all (cogito_Add f invalid) chunks (cogito_Init lm tools tv p) =
        Some (Inr (content_of evs, thinking_of evs, number_calls 0 (calls_of evs)), p') \<and>
      c_buffer p @ concat (map fst chunks) = u @ c_buffer p' \<and>
      spells (cogito_piece (cogito_parseToolCallContent f invalid)) (c_state (cogito_Init lm tools tv p)) evs u (c_state p') \<and>
      \<not> contains (thinking_of evs) cogitoThinkingCloseTag"
proof -
  let ?p = "cogito_Init lm tools tv p" and ?parse = "cogito_parseToolCallContent f invalid"
  have "\<exists>r s'. cogito_Add f invalid t d s = Some (Inr r, s')" for t d s using cogito_Add_reads[of f invalid t d s] by blast
  then obtain content thinking calls p' where a: "add_all (cogito_Add f invalid) chunks ?p = Some (Inr (content, thinking, calls), p')"
    using add_all_no_error[of "cogito_Add f invalid" chunks ?p] by (metis prod_cases3)
  obtain evs u where r: "c_buffer ?p @ concat (map fst chunks) = u @ c_buffer p'"
      "spells (cogito_piece ?parse) (c_state ?p) evs u (c_state p')"
      "content = content_of evs" "thinking = thinking_of evs" "cogito_decoded ?p (calls_of evs) p' calls"
      "\<forall>h. cogito_tag_free h ?p \<longrightarrow> cogito_tag_free (h @ evs) p'"
    using cogito_add.add_all_reads[OF TrueI a] by blast
  have "cogito_tag_free [] ?p" by (simp add: cogito_tag_free_def)
  with r(6) have "cogito_tag_free evs p'" by (metis append_Nil)
  with a r show ?thesis
    by (intro exI[of _ evs] exI[of _ u] exI[of _ p']) (simp add: cogito_Init_state cogito_decoded_def cogito_tag_free_def)
qed

end
