(* ===== verification/Olmo3ThinkParser.thy ===== *)
theory Olmo3ThinkParser
  imports ParserKit
begin

text \<open>
  \<^verbatim>\<open>model/parsers/olmo3_think.go\<close>: the parser of a model that always thinks first and calls no
  tools.
\<close>

datatype olmo3_state = olmo3CollectingThink | olmo3CollectingContent

definition olmo3ThinkCloseTag :: string where
  "olmo3ThinkCloseTag = ''</think>''"

record olmo3_parser =
  o_state :: olmo3_state
  o_buffer :: string

definition olmo3_ThinkingClose :: "olmo3_parser \<Rightarrow> string list" where
  "olmo3_ThinkingClose p = (if o_state p = olmo3CollectingThink then [olmo3ThinkCloseTag] else [])"

definition olmo3_PreservedTokens :: "string list" where
  "olmo3_PreservedTokens = [olmo3ThinkCloseTag]"

text \<open>The last message is absent or its role and content.\<close>

definition olmo3_Init :: "(string \<times> string) option \<Rightarrow> olmo3_parser \<Rightarrow> olmo3_parser" where
  "olmo3_Init lastMessage p =
     (let prefill = (case lastMessage of None \<Rightarrow> False | Some (role, _) \<Rightarrow> role = ''assistant'')
      in if prefill \<and> snd (the lastMessage) \<noteq> [] then p\<lparr>o_state := olmo3CollectingContent\<rparr>
         else p\<lparr>o_state := olmo3CollectingThink\<rparr>)"

definition olmo3_eat :: "olmo3_parser \<Rightarrow> unit parser_event list \<times> bool \<times> olmo3_parser" where
  "olmo3_eat p =
     (let buf = o_buffer p in
      if buf = [] then ([], False, p)
      else case o_state p of
        olmo3CollectingThink \<Rightarrow>
          (let (events, rest, closed) = until_close olmo3ThinkCloseTag buf
           in (events, closed, p\<lparr>o_buffer := rest, o_state := (if closed then olmo3CollectingContent else olmo3CollectingThink)\<rparr>))
      | olmo3CollectingContent \<Rightarrow> (text_event EventContent buf, False, p\<lparr>o_buffer := []\<rparr>))"

definition olmo3_append :: "string \<Rightarrow> olmo3_parser \<Rightarrow> olmo3_parser" where
  "olmo3_append t p = p\<lparr>o_buffer := o_buffer p @ t\<rparr>"

text \<open>\<^verbatim>\<open>Add\<close> never fails and returns no calls; \<open>None\<close> would be a loop that does not end.\<close>

definition olmo3_Add :: "string \<Rightarrow> bool \<Rightarrow> olmo3_parser \<Rightarrow> ((unit, unit) add_result \<times> olmo3_parser) option" where
  "olmo3_Add s done p =
     (case keep_looping olmo3_eat (olmo3_append s p) of
        None \<Rightarrow> None
      | Some (events, p') \<Rightarrow> Some (Inr (content_of events, thinking_of events, []), p'))"

section \<open>The parser reads the grammar\<close>

inductive olmo3_piece :: "olmo3_state \<Rightarrow> unit parser_event list \<Rightarrow> string \<Rightarrow> olmo3_state \<Rightarrow> bool" where
  thinking: "t \<noteq> [] \<Longrightarrow> olmo3_piece olmo3CollectingThink [EventThinking t] t olmo3CollectingThink"
| close: "blank w \<Longrightarrow> blank w' \<Longrightarrow>
     olmo3_piece olmo3CollectingThink [] (w @ olmo3ThinkCloseTag @ w') olmo3CollectingContent"
| content: "t \<noteq> [] \<Longrightarrow> olmo3_piece olmo3CollectingContent [EventContent t] t olmo3CollectingContent"

definition olmo3_settled :: "olmo3_parser \<Rightarrow> bool" where
  "olmo3_settled p =
     (case o_state p of
        olmo3CollectingThink \<Rightarrow> may_start olmo3ThinkCloseTag (o_buffer p)
      | olmo3CollectingContent \<Rightarrow> o_buffer p = [])"

lemma olmo3_tag_nonempty [simp]: "olmo3ThinkCloseTag \<noteq> []"
  by (simp add: olmo3ThinkCloseTag_def)

lemma olmo3_eat_thinking:
  assumes "olmo3_eat p = (evs, cont, p')" and "o_buffer p \<noteq> []" and "o_state p = olmo3CollectingThink"
  obtains buf' where "until_close olmo3ThinkCloseTag (o_buffer p) = (evs, buf', cont)"
    "p' = p\<lparr>o_buffer := buf', o_state := (if cont then olmo3CollectingContent else olmo3CollectingThink)\<rparr>"
  using assms by (auto simp: olmo3_eat_def split: prod.splits)

lemma olmo3_eat_content:
  assumes "olmo3_eat p = (evs, cont, p')" and "o_state p = olmo3CollectingContent"
  shows "evs = text_event EventContent (o_buffer p)" and "\<not> cont" and "p' = p\<lparr>o_buffer := []\<rparr>"
  using assms by (cases p; auto simp: olmo3_eat_def text_event_def Let_def split: if_splits)+

lemma olmo3_eat_ok:
  assumes "olmo3_eat p = (evs, cont, p')"
  shows "(\<exists>u. o_buffer p = u @ o_buffer p' \<and> spells olmo3_piece (o_state p) evs u (o_state p')) \<and>
    (cont \<longrightarrow> length (o_buffer p') < length (o_buffer p)) \<and> (\<not> cont \<longrightarrow> olmo3_settled p')"
proof (cases "o_state p")
  case olmo3CollectingContent
  with olmo3_eat_content[OF assms]
    spells_text_only[of olmo3_piece olmo3CollectingContent EventContent "o_buffer p", OF olmo3_piece.content]
  show ?thesis by (auto simp: olmo3_settled_def)
next
  case olmo3CollectingThink
  show ?thesis
  proof (cases "o_buffer p = []")
    case True
    then show ?thesis using assms olmo3CollectingThink spells_Nil by (auto simp: olmo3_eat_def olmo3_settled_def)
  next
    case False
    obtain buf' where u: "until_close olmo3ThinkCloseTag (o_buffer p) = (evs, buf', cont)"
      "p' = p\<lparr>o_buffer := buf', o_state := (if cont then olmo3CollectingContent else olmo3CollectingThink)\<rparr>"
      using olmo3_eat_thinking[OF assms False olmo3CollectingThink] by blast
    obtain w where "o_buffer p = w @ buf'" "spells olmo3_piece olmo3CollectingThink evs w
        (if cont then olmo3CollectingContent else olmo3CollectingThink)"
      using until_close_spells[OF u(1), of olmo3_piece olmo3CollectingThink olmo3CollectingContent]
      by (auto intro: olmo3_piece.intros)
    moreover have "\<not> cont \<Longrightarrow> may_start olmo3ThinkCloseTag buf'"
      using until_close_open[of olmo3ThinkCloseTag "o_buffer p" evs buf'] u(1) by auto
    moreover have "cont \<Longrightarrow> length buf' < length (o_buffer p)"
      using until_close_shorter[of olmo3ThinkCloseTag "o_buffer p" evs buf'] u(1) by auto
    ultimately show ?thesis using u(2) olmo3CollectingThink by (auto simp: olmo3_settled_def)
  qed
qed

interpretation olmo3: conserving_parser olmo3_eat "\<lambda>p. length (o_buffer p)" "\<lambda>_. True" o_buffer o_state
    olmo3_append olmo3_piece olmo3_settled
  by unfold_locales (auto dest: olmo3_eat_ok simp: olmo3_append_def)

section \<open>Responses\<close>

definition olmo3_tag_free :: "unit parser_event list \<Rightarrow> olmo3_parser \<Rightarrow> bool" where
  "olmo3_tag_free evs p \<longleftrightarrow>
     calls_of evs = [] \<and> \<not> contains (thinking_of evs) olmo3ThinkCloseTag \<and>
     (o_state p = olmo3CollectingThink \<longrightarrow>
        content_of evs = [] \<and> clear_of olmo3ThinkCloseTag (thinking_of evs) (o_buffer p))"

lemma olmo3_eat_tag_free:
  assumes "olmo3_eat p = (evs, cont, p')" and H: "olmo3_tag_free h p"
  shows "olmo3_tag_free (h @ evs) p'"
proof (cases "o_state p")
  case olmo3CollectingContent
  with olmo3_eat_content[OF assms(1)] H show ?thesis by (auto simp: olmo3_tag_free_def)
next
  case olmo3CollectingThink
  show ?thesis
  proof (cases "o_buffer p = []")
    case True
    with assms show ?thesis by (auto simp: olmo3_eat_def)
  next
    case False
    obtain buf' where u: "until_close olmo3ThinkCloseTag (o_buffer p) = (evs, buf', cont)"
      "p' = p\<lparr>o_buffer := buf', o_state := (if cont then olmo3CollectingContent else olmo3CollectingThink)\<rparr>"
      using olmo3_eat_thinking[OF assms(1) False olmo3CollectingThink] by blast
    have c: "clear_of olmo3ThinkCloseTag (thinking_of h) (o_buffer p)" "calls_of h = []" "content_of h = []"
      using H olmo3CollectingThink by (simp_all add: olmo3_tag_free_def)
    from until_close_clear[OF u(1) _ c(1)] until_close_calls[OF u(1)] c(2,3) u(2)
    show ?thesis by (auto simp: olmo3_tag_free_def simp del: thinking_of_append)
  qed
qed

lemma olmo3_Add_reads:
  "\<exists>evs p' u. olmo3_Add t d p = Some (Inr (content_of evs, thinking_of evs, []), p') \<and>
    o_buffer p @ t = u @ o_buffer p' \<and> spells olmo3_piece (o_state p) evs u (o_state p') \<and>
    (\<forall>h. olmo3_tag_free h p \<longrightarrow> olmo3_tag_free (h @ evs) p') \<and> olmo3_settled p'"
proof -
  obtain evs p' where l: "keep_looping olmo3_eat (olmo3_append t p) = Some (evs, p')"
    using olmo3.loop_returns[OF TrueI, of "olmo3_append t p"] by blast
  have H: "olmo3_tag_free (h @ evs) p'" if "olmo3_tag_free h p" for h
  proof (rule olmo3.loop_history[OF l TrueI, of olmo3_tag_free])
    show "olmo3_tag_free h (olmo3_append t p)"
      using that by (simp add: olmo3_tag_free_def olmo3_append_def clear_of_extend)
  qed (simp add: olmo3_eat_tag_free)
  with olmo3.loop_spells[OF l TrueI] l show ?thesis
    by (auto simp: olmo3_Add_def olmo3_append_def)
qed

interpretation olmo3_add: adder olmo3_Add o_buffer o_state olmo3_piece olmo3_settled
    "\<lambda>_ _ _ calls. calls = []" olmo3_tag_free "\<lambda>_. True"
proof unfold_locales
  fix t :: string and d :: bool and p :: olmo3_parser
  show "\<exists>r p'. olmo3_Add t d p = Some (r, p') \<and> True" using olmo3_Add_reads[of t d p] by auto
next
  fix t :: string and d :: bool and p p' :: olmo3_parser and content thinking :: string and calls :: "unit list"
  assume "olmo3_Add t d p = Some (Inr (content, thinking, calls), p')"
  with olmo3_Add_reads[of t d p]
  show "(\<exists>evs u. o_buffer p @ t = u @ o_buffer p' \<and> spells olmo3_piece (o_state p) evs u (o_state p') \<and>
      content = content_of evs \<and> thinking = thinking_of evs \<and> calls = [] \<and>
      (\<forall>h. olmo3_tag_free h p \<longrightarrow> olmo3_tag_free (h @ evs) p')) \<and> olmo3_settled p'"
    by auto
qed auto

section \<open>The shape of a response\<close>

text \<open>What the grammar reads from thinking on, and from content on.\<close>

lemma olmo3_content_only:
  "spells olmo3_piece m evs u m' \<Longrightarrow> m = olmo3CollectingContent \<Longrightarrow>
   m' = olmo3CollectingContent \<and> thinking_of evs = [] \<and> content_of evs = u"
  by (induction rule: spells.induct) (auto elim: olmo3_piece.cases)

lemma olmo3_reading:
  assumes "spells olmo3_piece m evs u m'" and "m = olmo3CollectingThink"
  shows "m' = olmo3CollectingThink \<and> content_of evs = [] \<and> thinking_of evs = u \<or>
    m' = olmo3CollectingContent \<and>
      (\<exists>w w'. blank w \<and> blank w' \<and> u = thinking_of evs @ w @ olmo3ThinkCloseTag @ w' @ content_of evs)"
  using assms
proof (induction rule: spells.induct)
  case (spells_Cons m evs u m' evs' v m'')
  from spells_Cons.hyps(1)[unfolded spells_Cons.prems] show ?case
  proof cases
    case (thinking)
    then show ?thesis using spells_Cons.IH by auto
  next
    case (close w w')
    then show ?thesis using olmo3_content_only[OF spells_Cons.hyps(2)] by auto
  qed
qed simp

text \<open>
  C22.  The thinking of an Olmo 3 model is separated exactly, in whatever chunks the response
  comes: either the closing tag has not come, and all of the input but what is held is
  thinking; or the input is the thinking, white space, the closing tag, white space, and the
  content, with nothing held, and the thinking does not hold the closing tag.
\<close>
theorem olmo3_separates_response:
  assumes "o_buffer p = []" and "chunks \<noteq> []"
  shows "\<exists>thinking content p'. add_all olmo3_Add chunks (olmo3_Init None p) = Some (Inr (content, thinking, []), p') \<and>
      \<not> contains thinking olmo3ThinkCloseTag \<and>
      (concat (map fst chunks) = thinking @ o_buffer p' \<and> content = [] \<and> may_start olmo3ThinkCloseTag (o_buffer p') \<or>
       (\<exists>w w'. blank w \<and> blank w' \<and> o_buffer p' = [] \<and>
          concat (map fst chunks) = thinking @ w @ olmo3ThinkCloseTag @ w' @ content))"
proof -
  let ?p = "olmo3_Init None p"
  have s: "o_state ?p = olmo3CollectingThink" "o_buffer ?p = []" using assms(1) by (simp_all add: olmo3_Init_def)
  have "\<exists>r s'. olmo3_Add t d s = Some (Inr r, s')" for t d s using olmo3_Add_reads[of t d s] by blast
  then obtain content thinking calls p' where a: "add_all olmo3_Add chunks ?p = Some (Inr (content, thinking, calls), p')"
    using add_all_no_error[of olmo3_Add chunks ?p] by (metis prod_cases3)
  obtain evs u where r: "o_buffer ?p @ concat (map fst chunks) = u @ o_buffer p'"
      "spells olmo3_piece (o_state ?p) evs u (o_state p')" "content = content_of evs" "thinking = thinking_of evs" "calls = []"
      "\<forall>h. olmo3_tag_free h ?p \<longrightarrow> olmo3_tag_free (h @ evs) p'" "olmo3_settled p'"
    using olmo3_add.add_all_reads[OF TrueI a] assms(2) by blast
  have "olmo3_tag_free [] ?p" by (simp add: olmo3_tag_free_def)
  with r(6) have "olmo3_tag_free evs p'" by (metis append_Nil)
  then have t: "\<not> contains thinking olmo3ThinkCloseTag" using r(4) by (simp add: olmo3_tag_free_def)
  from olmo3_reading[OF r(2) s(1)] show ?thesis
  proof
    assume "o_state p' = olmo3CollectingThink \<and> content_of evs = [] \<and> thinking_of evs = u"
    with a r t s(2) show ?thesis by (intro exI[of _ thinking] exI[of _ content] exI[of _ p']) (simp add: olmo3_settled_def)
  next
    assume "o_state p' = olmo3CollectingContent \<and>
      (\<exists>w w'. blank w \<and> blank w' \<and> u = thinking_of evs @ w @ olmo3ThinkCloseTag @ w' @ content_of evs)"
    with a r t s(2) show ?thesis by (intro exI[of _ thinking] exI[of _ content] exI[of _ p']) (auto simp: olmo3_settled_def)
  qed
qed

theorem olmo3_separates_response_witness:
  "\<exists>thinking content p'. add_all olmo3_Add [(''a </th'', False), (''ink> b'', True)]
       (olmo3_Init None \<lparr>o_state = olmo3CollectingThink, o_buffer = []\<rparr>) = Some (Inr (content, thinking, []), p') \<and>
     \<not> contains thinking olmo3ThinkCloseTag"
  using olmo3_separates_response[of "\<lparr>o_state = olmo3CollectingThink, o_buffer = []\<rparr>" "[(''a </th'', False), (''ink> b'', True)]"]
  by fastforce

end
