(* ===== verification/Json.thy ===== *)
theory Json
  imports Main
begin

text \<open>
  A value of Go type \<^verbatim>\<open>any\<close> that was decoded from JSON; the members of an object are in the
  order of the text.
\<close>

datatype json =
    JNull
  | JBool bool
  | JNumber string
  | JString string
  | JArray "json list"
  | JObject "(string \<times> json) list"

end
