(* ===== verification/ToolCalls.thy ===== *)
theory ToolCalls
  imports StreamText Json
begin

text \<open>
  \<^verbatim>\<open>tools/tools.go\<close>: the parser that finds tool calls in the output of a model by the tag of its
  template, and the step of \<^verbatim>\<open>server/routes.go\<close> that uses it.  The JSON decoder is an argument;
  the objects it gives list their members in the order in which Go happens to visit them.
\<close>

section \<open>JSON values\<close>

text \<open>A \<^verbatim>\<open>map[string]any\<close>, which may be nil; a nil map has no members.\<close>

type_synonym json_map = "(string \<times> json) list option"

definition members :: "json_map \<Rightarrow> (string \<times> json) list" where
  "members m = (case m of None \<Rightarrow> [] | Some kvs \<Rightarrow> kvs)"

text \<open>\<^verbatim>\<open>json.Unmarshal\<close> into a map: an error, or a map, nil for \<^verbatim>\<open>null\<close>.\<close>

type_synonym decoder = "string \<Rightarrow> json_map option"

section \<open>Arguments\<close>

definition find_map :: "decoder \<Rightarrow> string \<Rightarrow> (string \<times> json) list \<Rightarrow> json_map option" where
  "find_map unmarshal name obj =
     (case map_of obj name of
        Some (JObject args) \<Rightarrow> Some (Some args)
      | Some (JString s) \<Rightarrow> unmarshal s
      | _ \<Rightarrow> None)"

text \<open>
  \<^verbatim>\<open>findObject\<close>: the arguments in an object, if there are any: those of an object with a name,
  those behind the name of the tool, or those of the first member that has some.
\<close>

function find_object :: "decoder \<Rightarrow> string \<Rightarrow> (string \<times> json) list \<Rightarrow> json_map option"
  and find_in_members :: "decoder \<Rightarrow> string \<Rightarrow> (string \<times> json) list \<Rightarrow> json_map option"
  and find_in_items :: "decoder \<Rightarrow> string \<Rightarrow> json list \<Rightarrow> json_map option" where
  "find_object unmarshal tool obj =
     (if map_of obj ''name'' \<noteq> None
      then (case find_map unmarshal ''arguments'' obj of
              Some args \<Rightarrow> Some args
            | None \<Rightarrow>
                (case find_map unmarshal ''parameters'' obj of
                   Some args \<Rightarrow> Some args
                 | None \<Rightarrow> Some None))
      else (case find_map unmarshal tool obj of
              Some args \<Rightarrow> Some args
            | None \<Rightarrow> find_in_members unmarshal tool obj))"
| "find_in_members unmarshal tool [] = None"
| "find_in_members unmarshal tool ((k, v) # kvs) =
     (case (case v of
              JObject child \<Rightarrow> find_object unmarshal tool child
            | JArray items \<Rightarrow> find_in_items unmarshal tool items
            | _ \<Rightarrow> None) of
        Some result \<Rightarrow> Some result
      | None \<Rightarrow> find_in_members unmarshal tool kvs)"
| "find_in_items unmarshal tool [] = None"
| "find_in_items unmarshal tool (item # items) =
     (case (case item of JObject child \<Rightarrow> find_object unmarshal tool child | _ \<Rightarrow> None) of
        Some result \<Rightarrow> Some result
      | None \<Rightarrow> find_in_items unmarshal tool items)"
  by pat_completeness auto
termination
  by (relation "measure (\<lambda>x. case x of
       Inl (_, _, obj) \<Rightarrow> 2 * size_list (size_prod (\<lambda>_. 0) size) obj + 1
     | Inr (Inl (_, _, kvs)) \<Rightarrow> 2 * size_list (size_prod (\<lambda>_. 0) size) kvs
     | Inr (Inr (_, _, items)) \<Rightarrow> 2 * size_list size items)") auto

text \<open>
  \<^verbatim>\<open>findArguments\<close>: \<open>rest\<close> is what is left of the buffer from \<open>i\<close> on; the result is the map,
  nil if nothing was found, and the position of its closing brace.
\<close>

fun scan_arguments ::
  "decoder \<Rightarrow> string \<Rightarrow> string \<Rightarrow> nat \<Rightarrow> string \<Rightarrow> nat option \<Rightarrow> int \<Rightarrow> bool \<Rightarrow> bool \<Rightarrow> json_map \<times> nat" where
  "scan_arguments unmarshal tool buf i [] start braces inString escaped = (None, 0)"
| "scan_arguments unmarshal tool buf i (c # rest) start braces inString escaped =
     (if escaped then scan_arguments unmarshal tool buf (Suc i) rest start braces inString False
      else if c = CHR 0x5C then scan_arguments unmarshal tool buf (Suc i) rest start braces inString True
      else if c = CHR 0x22 then scan_arguments unmarshal tool buf (Suc i) rest start braces (\<not> inString) escaped
      else if inString then scan_arguments unmarshal tool buf (Suc i) rest start braces inString escaped
      else if c = CHR ''{''
      then scan_arguments unmarshal tool buf (Suc i) rest (if braces = 0 then Some i else start) (braces + 1) inString escaped
      else if c = CHR ''}''
      then (case (if braces - 1 = 0 then start else None) of
              Some s \<Rightarrow>
                (case unmarshal (take (Suc i - s) (drop s buf)) of
                   None \<Rightarrow> scan_arguments unmarshal tool buf (Suc i) rest None (braces - 1) inString escaped
                 | Some data \<Rightarrow>
                     (case find_object unmarshal tool (members data) of
                        Some args \<Rightarrow> (args, i)
                      | None \<Rightarrow> (data, i)))
            | None \<Rightarrow>
                scan_arguments unmarshal tool buf (Suc i) rest start (if braces - 1 < 0 then 0 else braces - 1) inString escaped)
      else scan_arguments unmarshal tool buf (Suc i) rest start braces inString escaped)"

definition findArguments :: "decoder \<Rightarrow> string \<Rightarrow> string \<Rightarrow> json_map \<times> nat" where
  "findArguments unmarshal tool buf = scan_arguments unmarshal tool buf 0 buf None 0 False False"

section \<open>Tools\<close>

text \<open>A name that starts with a proper tail of the buffer may still be coming.\<close>

definition partial_name :: "string list \<Rightarrow> string \<Rightarrow> bool" where
  "partial_name tools buf =
     (let longest = foldl (\<lambda>l t. max l (length t)) 0 tools
      in list_ex (\<lambda>i. list_ex (\<lambda>t. i < length t \<and> prefix (drop (length buf - i) buf) t) tools)
           [1..<Suc (min (length buf) longest)])"

text \<open>One step of the search for the first tool, and the longest of these: the best one so far and its start.\<close>

definition better_tool :: "string \<Rightarrow> (string \<times> nat) option \<Rightarrow> string \<Rightarrow> (string \<times> nat) option" where
  "better_tool buf best name =
     (case index_of name buf of
        None \<Rightarrow> best
      | Some pos \<Rightarrow>
          (case best of
             None \<Rightarrow> Some (name, pos)
           | Some (found, start) \<Rightarrow>
               if start < pos then best
               else if pos = start \<and> length name \<le> length found then best
               else Some (name, pos)))"

text \<open>\<^verbatim>\<open>findTool\<close>: tools are given by their names; the name found and the end of its occurrence.\<close>

definition findTool :: "string list \<Rightarrow> string \<Rightarrow> (string \<times> nat) option" where
  "findTool tools buf =
     (if buf = [] then None
      else if partial_name tools buf then None
      else (case foldl (better_tool buf) None tools of
              None \<Rightarrow> None
            | Some (name, start) \<Rightarrow> Some (name, start + length name)))"

section \<open>The parser\<close>

datatype tools_state = LookingForTag | ToolCalling | ToolsDone

record tools_parser =
  t_tag :: string
  t_tools :: "string list"
  t_state :: tools_state
  t_buffer :: string
  t_n :: nat

record parsed_call =
  pc_name :: string
  pc_args :: "(string \<times> json) list"
  pc_index :: nat

definition new_tools_parser :: "string list \<Rightarrow> string \<Rightarrow> tools_parser" where
  "new_tools_parser tools tag = \<lparr>t_tag = tag, t_tools = tools, t_state = LookingForTag, t_buffer = [], t_n = 0\<rparr>"

text \<open>\<^verbatim>\<open>findTag\<close>: where the tag, or the start of it at the end of the buffer, begins, and whether it is whole.\<close>

definition findTag :: "tools_parser \<Rightarrow> nat option \<times> bool" where
  "findTag p =
     (case index_of (t_tag p) (t_buffer p) of
        Some i \<Rightarrow> (Some i, True)
      | None \<Rightarrow>
          (let k = overlap (t_buffer p) (t_tag p)
           in if 0 < k then (Some (length (t_buffer p) - k), False) else (None, False)))"

definition parseToolCall :: "decoder \<Rightarrow> tools_parser \<Rightarrow> (parsed_call \<times> tools_parser) option" where
  "parseToolCall unmarshal p =
     (case findTool (t_tools p) (t_buffer p) of
        None \<Rightarrow> None
      | Some (tool, end) \<Rightarrow>
          (case findArguments unmarshal tool (t_buffer p) of
             (None, _) \<Rightarrow> None
           | (Some args, i) \<Rightarrow>
               Some (\<lparr>pc_name = tool, pc_args = args, pc_index = t_n p\<rparr>,
                     p\<lparr>t_n := t_n p + 1, t_buffer := drop (max end i) (t_buffer p)\<rparr>)))"

text \<open>\<^verbatim>\<open>done\<close>: whether a closing bracket has brought the count of brackets back to zero.\<close>

fun closed_bracket :: "char \<Rightarrow> char \<Rightarrow> string \<Rightarrow> int \<Rightarrow> bool \<Rightarrow> bool \<Rightarrow> bool" where
  "closed_bracket op cl [] count inString escaped = False"
| "closed_bracket op cl (c # cs) count inString escaped =
     (if escaped then closed_bracket op cl cs count inString False
      else if c = CHR 0x5C then closed_bracket op cl cs count inString True
      else if c = CHR 0x22 then closed_bracket op cl cs count (\<not> inString) escaped
      else if inString then closed_bracket op cl cs count inString escaped
      else if c = op then closed_bracket op cl cs (count + 1) inString escaped
      else if c = cl then (if count - 1 = 0 then True else closed_bracket op cl cs (count - 1) inString escaped)
      else closed_bracket op cl cs count inString escaped)"

definition tools_done :: "tools_parser \<Rightarrow> bool" where
  "tools_done p =
     (if t_tag p = ''{'' then closed_bracket CHR ''{'' CHR ''}'' (t_buffer p) 0 False False
      else if t_tag p = ''['' then closed_bracket CHR ''['' CHR '']'' (t_buffer p) 0 False False
      else False)"

lemma scan_arguments_pos:
  assumes "scan_arguments unmarshal tool buf i rest start braces inString escaped = (Some args, j)"
    and "0 < i \<or> start = None"
  shows "0 < j"
  using assms
proof (induction rest arbitrary: i start braces inString escaped)
  case (Cons c rest)
  show ?case
  proof (cases "scan_arguments unmarshal tool buf i (c # rest) start braces inString escaped =
      (Some args, j) \<and> (\<exists>start' braces' inString' escaped'.
        scan_arguments unmarshal tool buf (Suc i) rest start' braces' inString' escaped' = (Some args, j))")
    case True
    then show ?thesis using Cons.IH by blast
  next
    case False
    with Cons.prems(1) have "j = i" "\<exists>s. (if braces - 1 = 0 then start else None) = Some s"
      by (auto split: if_splits option.splits)
    with Cons.prems(2) show ?thesis by (auto split: if_splits)
  qed
qed simp

lemma findTool_buffer: "findTool tools buf = Some r \<Longrightarrow> buf \<noteq> []"
  by (auto simp: findTool_def split: if_splits)

lemma parseToolCall_shorter:
  assumes "parseToolCall unmarshal p = Some (call, p')"
  shows "length (t_buffer p') < length (t_buffer p)"
proof -
  obtain tool e args i where r: "findTool (t_tools p) (t_buffer p) = Some (tool, e)"
    "findArguments unmarshal tool (t_buffer p) = (Some args, i)" "t_buffer p' = drop (max e i) (t_buffer p)"
    using assms by (auto simp: parseToolCall_def split: option.splits prod.splits)
  have "0 < i" using r(2) scan_arguments_pos unfolding findArguments_def by blast
  with findTool_buffer[OF r(1)] r(3) show ?thesis by simp
qed

function parse_calls :: "decoder \<Rightarrow> tools_parser \<Rightarrow> parsed_call list \<times> tools_parser" where
  "parse_calls unmarshal p =
     (case parseToolCall unmarshal p of
        None \<Rightarrow> ([], p)
      | Some (call, p') \<Rightarrow> (let (calls, p'') = parse_calls unmarshal p' in (call # calls, p'')))"
  by pat_completeness auto
termination
  by (relation "measure (\<lambda>(_, p). length (t_buffer p))") (auto dest: parseToolCall_shorter)

declare parse_calls.simps [simp del]

text \<open>What \<^verbatim>\<open>Add\<close> does once the tag was found.\<close>

definition tools_calling :: "decoder \<Rightarrow> string \<Rightarrow> tools_parser \<Rightarrow> parsed_call list \<times> string \<times> tools_parser" where
  "tools_calling unmarshal content p =
     (let (calls, p') = parse_calls unmarshal p
      in if tools_done p' then (calls, t_buffer p', p'\<lparr>t_state := ToolsDone, t_buffer := []\<rparr>)
         else (calls, content, p'))"

definition tools_Add :: "decoder \<Rightarrow> string \<Rightarrow> tools_parser \<Rightarrow> parsed_call list \<times> string \<times> tools_parser" where
  "tools_Add unmarshal s p =
     (if t_state p = ToolsDone then ([], s, p)
      else
        (let p1 = p\<lparr>t_buffer := t_buffer p @ s\<rparr>
         in if t_state p1 = LookingForTag
            then
              (let (i, found) = findTag p1;
                   (content, p2) =
                     (case i of
                        None \<Rightarrow> (t_buffer p1, p1\<lparr>t_buffer := []\<rparr>)
                      | Some i \<Rightarrow> (take i (t_buffer p1), p1\<lparr>t_buffer := drop i (t_buffer p1)\<rparr>))
               in if (t_tag p2 = ''{'' \<or> t_tag p2 = ''['') \<and> trim_space content \<noteq> []
                  then ([], content @ t_buffer p2, p2\<lparr>t_state := ToolsDone\<rparr>)
                  else if \<not> found then ([], content, p2)
                  else tools_calling unmarshal content (p2\<lparr>t_state := ToolCalling\<rparr>))
            else tools_calling unmarshal [] p1))"

text \<open>\<^verbatim>\<open>Content\<close>: what is left for the user at the end.\<close>

definition tools_Content :: "tools_parser \<Rightarrow> string" where
  "tools_Content p =
     (if 0 < t_n p then []
      else if t_tag p = ''{'' \<or> t_tag p = ''['' then t_buffer p
      else [])"

section \<open>The chat handler\<close>

text \<open>
  What \<^verbatim>\<open>ChatHandler\<close> sends for one chunk of a response without thinking and without log
  probabilities: content and calls, or nothing.
\<close>

definition chat_tools_step ::
  "decoder \<Rightarrow> string \<Rightarrow> bool \<Rightarrow> tools_parser \<Rightarrow> (string \<times> parsed_call list) option \<times> tools_parser" where
  "chat_tools_step unmarshal s done p =
     (let (toolCalls, content, p') = tools_Add unmarshal s p
      in if content \<noteq> [] then (Some (content, []), p')
         else if toolCalls \<noteq> [] then (Some ([], toolCalls), p')
         else if done then (Some (tools_Content p', []), p')
         else (None, p'))"

fun chat_tools_run :: "decoder \<Rightarrow> (string \<times> bool) list \<Rightarrow> tools_parser \<Rightarrow> string \<times> parsed_call list" where
  "chat_tools_run unmarshal [] p = ([], [])"
| "chat_tools_run unmarshal ((s, done) # chunks) p =
     (let (sent, p') = chat_tools_step unmarshal s done p;
          (content, calls) = chat_tools_run unmarshal chunks p'
      in case sent of
           None \<Rightarrow> (content, calls)
         | Some (c, k) \<Rightarrow> (c @ content, k @ calls))"

section \<open>The tool that is found\<close>

text \<open>\<open>better\<close> says that an occurrence is earlier, or longer at the same place.\<close>

definition first_longest :: "string list \<Rightarrow> string \<Rightarrow> string \<Rightarrow> nat \<Rightarrow> bool" where
  "first_longest tools buf name start \<longleftrightarrow>
     name \<in> set tools \<and> index_of name buf = Some start \<and>
     (\<forall>t \<in> set tools. \<forall>q. index_of t buf = Some q \<longrightarrow> start < q \<or> start = q \<and> length t \<le> length name)"

lemma foldl_better:
  assumes "foldl (better_tool buf) None tools = best"
  shows "(best = None \<longrightarrow> (\<forall>t \<in> set tools. index_of t buf = None)) \<and>
    (\<forall>name start. best = Some (name, start) \<longrightarrow> first_longest tools buf name start)"
  using assms
proof (induction tools arbitrary: best rule: rev_induct)
  case (snoc t ts)
  obtain b where b: "foldl (better_tool buf) None ts = b" by blast
  then have best: "best = better_tool buf b t" using snoc.prems by simp
  note ih = snoc.IH[OF b]
  show ?case
  proof (cases "index_of t buf")
    case None
    then have "best = b" using best by (simp add: better_tool_def)
    with ih None show ?thesis by (auto simp: first_longest_def)
  next
    case (Some pos)
    show ?thesis
    proof (cases b)
      case None
      then have "best = Some (t, pos)" using best Some by (simp add: better_tool_def)
      with ih None Some show ?thesis by (auto simp: first_longest_def)
    next
      case b: (Some fs)
      obtain found start where fs: "fs = (found, start)" by fastforce
      have f: "first_longest ts buf found start" using ih b fs by simp
      consider (keep) "best = Some (found, start)" "start < pos \<or> pos = start \<and> length t \<le> length found"
        | (take) "best = Some (t, pos)" "pos < start \<or> pos = start \<and> length found < length t"
        using best Some b fs by (auto simp: better_tool_def not_less le_less split: if_splits)
      then show ?thesis
      proof cases
        case keep
        with f Some show ?thesis by (auto simp: first_longest_def)
      next
        case take
        have "pos < q \<or> pos = q \<and> length u \<le> length t" if "u \<in> set ts" "index_of u buf = Some q" for u q
        proof -
          have "start < q \<or> start = q \<and> length u \<le> length found"
            using f that unfolding first_longest_def by blast
          with take(2) show ?thesis by auto
        qed
        with take(1) Some show ?thesis by (auto simp: first_longest_def)
      qed
    qed
  qed
qed simp

lemma foldl_max_ge:
  fixes tools :: "string list"
  shows "t \<in> set tools \<Longrightarrow> length t \<le> foldl (\<lambda>l t. max l (length t)) n tools"
proof -
  have mono: "n \<le> foldl (\<lambda>l t. max l (length t)) n ts" for n and ts :: "string list"
  proof (induction ts arbitrary: n)
    case (Cons x xs)
    show ?case using Cons[of "max n (length x)"] by simp
  qed simp
  show "t \<in> set tools \<Longrightarrow> length t \<le> foldl (\<lambda>l t. max l (length t)) n tools"
  proof (induction tools arbitrary: n)
    case (Cons x xs)
    then show ?case using mono[of "max n (length x)" xs] by auto
  qed simp
qed

text \<open>The test for a name that may still be coming: some tail of the buffer properly begins a name.\<close>

lemma partial_name_iff:
  "partial_name tools buf \<longleftrightarrow> (\<exists>t \<in> set tools. \<exists>u. u \<noteq> [] \<and> suffix u buf \<and> strict_prefix u t)"
proof
  assume "partial_name tools buf"
  then obtain i t where it: "1 \<le> i" "i \<le> length buf" "t \<in> set tools" "i < length t" "prefix (drop (length buf - i) buf) t"
    by (auto simp: partial_name_def Let_def list_ex_iff simp del: upt_Suc)
  let ?u = "drop (length buf - i) buf"
  have "length ?u = i" using it by simp
  then have "?u \<noteq> []" "?u \<noteq> t" using it by auto
  with it show "\<exists>t \<in> set tools. \<exists>u. u \<noteq> [] \<and> suffix u buf \<and> strict_prefix u t"
    by (intro bexI[of _ t] exI[of _ ?u]) (auto simp: suffix_drop strict_prefix_def)
next
  assume "\<exists>t \<in> set tools. \<exists>u. u \<noteq> [] \<and> suffix u buf \<and> strict_prefix u t"
  then obtain t u where tu: "t \<in> set tools" "u \<noteq> []" "suffix u buf" "strict_prefix u t" by blast
  have l: "length u \<le> length buf" "length u < length t"
    using tu(3,4) by (auto simp: suffix_length_le prefix_length_less)
  moreover have "drop (length buf - length u) buf = u" using tu(3) by (auto simp: suffix_def)
  moreover have "length t \<le> foldl (\<lambda>l t. max l (length t)) 0 tools" using foldl_max_ge[OF tu(1)] .
  ultimately show "partial_name tools buf"
    using tu(1,2,4) unfolding partial_name_def Let_def list_ex_iff
    by (intro bexI[of _ "length u"] bexI[of _ t] conjI) (auto simp: Suc_le_eq strict_prefix_def simp del: upt_Suc)
qed

text \<open>
  C27.  The search for a tool takes the name that occurs first in the buffer, and of the names that
  occur there the longest; it waits while the buffer ends in the beginning of a name, and finds
  nothing only then or when no name occurs.  (The comments of the code speak of the first name of
  the list at the beginning of the buffer, and of the first occurrence of the longest name; the
  code does neither.)
\<close>
theorem find_tool_first_longest:
  "(case findTool tools buf of
      Some (name, end) \<Rightarrow>
        (\<exists>start. end = start + length name \<and> first_longest tools buf name start) \<and>
        \<not> (\<exists>t \<in> set tools. \<exists>u. u \<noteq> [] \<and> suffix u buf \<and> strict_prefix u t)
    | None \<Rightarrow>
        buf = [] \<or> (\<exists>t \<in> set tools. \<exists>u. u \<noteq> [] \<and> suffix u buf \<and> strict_prefix u t) \<or>
        (\<forall>t \<in> set tools. index_of t buf = None))"
proof (cases "findTool tools buf")
  case None
  then show ?thesis using foldl_better[of buf tools None]
    by (auto simp: findTool_def partial_name_iff split: if_splits option.splits)
next
  case (Some r)
  obtain name e where r: "r = (name, e)" by fastforce
  from Some r obtain start where s: "foldl (better_tool buf) None tools = Some (name, start)" "e = start + length name"
    "\<not> partial_name tools buf"
    by (auto simp: findTool_def split: if_splits option.splits)
  with foldl_better[OF s(1)] Some r show ?thesis by (auto simp: partial_name_iff)
qed

theorem find_tool_first_longest_witness:
  "findTool [''get'', ''get_weather''] ''x get_weather('' = Some (''get_weather'', 13) \<and>
   (\<exists>start. 13 = start + length ''get_weather'' \<and>
      first_longest [''get'', ''get_weather''] ''x get_weather('' ''get_weather'' start)"
proof -
  have e: "findTool [''get'', ''get_weather''] ''x get_weather('' = Some (''get_weather'', 13)" by code_simp
  show ?thesis using find_tool_first_longest[where tools = "[''get'', ''get_weather'']" and buf = "''x get_weather(''"]
    unfolding e by simp
qed

section \<open>Calls\<close>

lemma findTool_declared: "findTool tools buf = Some (name, end) \<Longrightarrow> name \<in> set tools"
  using foldl_better[of buf tools] by (fastforce simp: findTool_def first_longest_def split: if_splits option.splits)

lemma parseToolCall_facts:
  assumes "parseToolCall unmarshal p = Some (call, p')"
  shows "pc_name call \<in> set (t_tools p)" and "pc_index call = t_n p" and "t_n p' = Suc (t_n p)"
    and "t_tools p' = t_tools p" and "t_tag p' = t_tag p" and "t_state p' = t_state p"
  using assms by (auto simp: parseToolCall_def findTool_declared split: option.splits prod.splits)

lemma parse_calls_facts:
  "parse_calls unmarshal p = (calls, p') \<Longrightarrow>
   map pc_index calls = [t_n p..<t_n p + length calls] \<and> t_n p' = t_n p + length calls \<and>
   (\<forall>c \<in> set calls. pc_name c \<in> set (t_tools p)) \<and> length calls + length (t_buffer p') \<le> length (t_buffer p) \<and>
   t_tools p' = t_tools p \<and> t_tag p' = t_tag p \<and> t_state p' = t_state p"
proof (induction unmarshal p arbitrary: calls p' rule: parse_calls.induct)
  case (1 unmarshal p)
  show ?case
  proof (cases "parseToolCall unmarshal p")
    case None
    with "1.prems" show ?thesis by (simp add: parse_calls.simps)
  next
    case (Some r)
    obtain call p1 where r: "r = (call, p1)" by fastforce
    obtain cs p2 where rec: "parse_calls unmarshal p1 = (cs, p2)" by fastforce
    have e: "calls = call # cs" "p' = p2" using "1.prems" Some r rec by (simp_all add: parse_calls.simps[of _ p])
    note ih = "1.IH"[OF Some r[symmetric] rec]
    show ?thesis using ih parseToolCall_facts[OF Some[unfolded r]] parseToolCall_shorter[OF Some[unfolded r]]
      by (auto simp: e upt_conv_Cons simp del: upt_Suc)
  qed
qed

lemma tools_Add_facts:
  assumes "tools_Add unmarshal s p = (calls, content, p')"
  shows "map pc_index calls = [t_n p..<t_n p + length calls] \<and> t_n p' = t_n p + length calls \<and>
    (\<forall>c \<in> set calls. pc_name c \<in> set (t_tools p)) \<and> length calls + length (t_buffer p') \<le> length (t_buffer p @ s) \<and>
    t_tools p' = t_tools p \<and> t_tag p' = t_tag p"
proof -
  have calling: "map pc_index calls = [t_n q..<t_n q + length calls] \<and> t_n p' = t_n q + length calls \<and>
    (\<forall>c \<in> set calls. pc_name c \<in> set (t_tools q)) \<and> length calls + length (t_buffer p') \<le> length (t_buffer q) \<and>
    t_tools p' = t_tools q \<and> t_tag p' = t_tag q"
    if "tools_calling unmarshal c q = (calls, content, p')" for c q
  proof -
    obtain cs q' where q': "parse_calls unmarshal q = (cs, q')" by fastforce
    from parse_calls_facts[OF this] that q' show ?thesis by (auto simp: tools_calling_def Let_def split: if_splits)
  qed
  show ?thesis
    using assms calling
    by (fastforce simp: tools_Add_def Let_def split: if_splits option.splits prod.splits)
qed

text \<open>A response: \<^verbatim>\<open>Add\<close> for each chunk.\<close>

fun tools_run :: "decoder \<Rightarrow> string list \<Rightarrow> tools_parser \<Rightarrow> parsed_call list \<times> string \<times> tools_parser" where
  "tools_run unmarshal [] p = ([], [], p)"
| "tools_run unmarshal (s # ss) p =
     (let (calls, content, p1) = tools_Add unmarshal s p; (calls', content', p2) = tools_run unmarshal ss p1
      in (calls @ calls', content @ content', p2))"

lemma tools_run_facts:
  "tools_run unmarshal ss p = (calls, content, p') \<Longrightarrow>
   map pc_index calls = [t_n p..<t_n p + length calls] \<and> t_n p' = t_n p + length calls \<and>
   (\<forall>c \<in> set calls. pc_name c \<in> set (t_tools p)) \<and> length calls + length (t_buffer p') \<le> length (t_buffer p @ concat ss)"
proof (induction ss arbitrary: p calls content p')
  case (Cons s ss)
  obtain c1 k1 p1 where a: "tools_Add unmarshal s p = (c1, k1, p1)" by (metis prod_cases3)
  obtain c2 k2 p2 where b: "tools_run unmarshal ss p1 = (c2, k2, p2)" by (metis prod_cases3)
  have e: "calls = c1 @ c2" "p' = p2" using Cons.prems a b by simp_all
  from Cons.IH[OF b] tools_Add_facts[OF a] show ?case
    using upt_add_eq_append[of "t_n p" "t_n p + length c1" "length c2"] by (auto simp: e add.assoc)
qed simp

text \<open>
  C16.  However a response is cut into chunks, its calls name declared tools only, they are
  numbered from 0, and each takes at least one byte of the input.
\<close>
theorem tool_calls_declared_and_numbered:
  "case tools_run unmarshal chunks (new_tools_parser tools tag) of
     (calls, content, p') \<Rightarrow>
       map pc_index calls = [0..<length calls] \<and> t_n p' = length calls \<and> (\<forall>c \<in> set calls. pc_name c \<in> set tools) \<and>
       length calls + length (t_buffer p') \<le> length (concat chunks)"
proof -
  obtain calls content p' where r: "tools_run unmarshal chunks (new_tools_parser tools tag) = (calls, content, p')"
    by (metis prod_cases3)
  from tools_run_facts[OF this] show ?thesis unfolding r by (simp add: new_tools_parser_def)
qed

section \<open>Content before the tag\<close>

lemma tools_no_done: "t_tag p \<noteq> ''{'' \<Longrightarrow> t_tag p \<noteq> ''['' \<Longrightarrow> \<not> tools_done p"
  by (simp add: tools_done_def)

lemma tools_calling_content:
  assumes "tools_calling unmarshal c p = (calls, content, p')" and "t_tag p \<noteq> ''{''" "t_tag p \<noteq> ''[''"
  shows "content = c \<and> t_tag p' = t_tag p \<and> t_state p' = t_state p"
proof -
  obtain cs q where q: "parse_calls unmarshal p = (cs, q)" by fastforce
  from parse_calls_facts[OF this] assms q show ?thesis
    using tools_no_done[of q] by (auto simp: tools_calling_def)
qed

lemma tools_run_calling:
  "t_state p = ToolCalling \<Longrightarrow> t_tag p \<noteq> ''{'' \<Longrightarrow> t_tag p \<noteq> ''['' \<Longrightarrow> fst (snd (tools_run unmarshal ss p)) = []"
proof (induction ss arbitrary: p)
  case (Cons s ss)
  obtain c1 k1 p1 where a: "tools_Add unmarshal s p = (c1, k1, p1)" by (metis prod_cases3)
  then have b: "tools_calling unmarshal [] (p\<lparr>t_buffer := t_buffer p @ s\<rparr>) = (c1, k1, p1)"
    using Cons.prems(1) by (simp add: tools_Add_def Let_def)
  have "k1 = []" "t_tag p1 = t_tag p" "t_state p1 = ToolCalling"
    using tools_calling_content[OF b] Cons.prems by simp_all
  with Cons.IH[of p1] Cons.prems a show ?case by (simp add: split_def Let_def)
qed simp

definition before_tag :: "string \<Rightarrow> string \<Rightarrow> string" where
  "before_tag tag input =
     (case index_of tag input of
        Some i \<Rightarrow> take i input
      | None \<Rightarrow> take (length input - overlap input tag) input)"

lemma tools_run_content:
  assumes "t_state p = LookingForTag" and "t_tag p \<noteq> ''{''" "t_tag p \<noteq> ''[''"
    and "index_of (t_tag p) x = None" and "t_buffer p = held x (t_tag p)"
  shows "unheld x (t_tag p) @ fst (snd (tools_run unmarshal ss p)) = before_tag (t_tag p) (x @ concat ss)"
  using assms
proof (induction ss arbitrary: p x)
  case Nil
  then show ?case by (simp add: before_tag_def unheld_def)
next
  case (Cons s ss)
  let ?tag = "t_tag p" and ?b = "held x (t_tag p) @ s"
  have i: "index_of ?tag (x @ s) = map_option ((+) (length (unheld x ?tag))) (index_of ?tag ?b)"
    by (rule index_of_append_unheld[OF Cons.prems(4)])
  have xs: "x @ s = unheld x ?tag @ ?b" by (metis append_assoc unheld_held)
  show ?case
  proof (cases "index_of ?tag ?b")
    case (Some k)
    let ?q = "p\<lparr>t_buffer := drop k ?b, t_state := ToolCalling\<rparr>"
    obtain c1 k1 p1 where q: "tools_calling unmarshal (take k ?b) ?q = (c1, k1, p1)" by (metis prod_cases3)
    have a: "tools_Add unmarshal s p = (c1, k1, p1)"
      using Cons.prems q Some by (simp add: tools_Add_def Let_def findTag_def)
    have e: "k1 = take k ?b" "t_tag p1 = ?tag" "t_state p1 = ToolCalling"
      using tools_calling_content[OF q] Cons.prems by simp_all
    then have "fst (snd (tools_run unmarshal ss p1)) = []" using tools_run_calling Cons.prems by metis
    then have "fst (snd (tools_run unmarshal (s # ss) p)) = take k ?b" using a e(1) by (simp add: split_def Let_def)
    moreover have idx: "index_of ?tag (x @ s @ concat ss) = Some (length (unheld x ?tag) + k)"
      using index_of_append_same[of ?tag "x @ s" "length (unheld x ?tag) + k" "concat ss"] i Some by simp
    moreover have "take (length (unheld x ?tag) + k) (x @ s @ concat ss) = unheld x ?tag @ take k ?b"
    proof -
      have "k \<le> length ?b" using index_of_le[OF Some] by simp
      moreover have "x @ s @ concat ss = unheld x ?tag @ ?b @ concat ss" using xs by (metis append_assoc)
      moreover have "take (length u + k) (u @ b @ y) = u @ take k b" if "k \<le> length b" for u b y :: string
        using that by simp
      ultimately show ?thesis by metis
    qed
    ultimately show ?thesis by (simp add: before_tag_def)
  next
    case None
    let ?q = "p\<lparr>t_buffer := held ?b ?tag\<rparr>"
    have a: "tools_Add unmarshal s p = ([], unheld ?b ?tag, ?q)"
    proof (cases "0 < overlap ?b ?tag")
      case True
      then show ?thesis using Cons.prems None by (simp add: tools_Add_def Let_def findTag_def unheld_def held_def)
    next
      case False
      then have "held ?b ?tag = []" "unheld ?b ?tag = ?b" by (simp_all add: unheld_def held_def)
      with False show ?thesis using Cons.prems None by (simp add: tools_Add_def Let_def findTag_def)
    qed
    have "unheld (x @ s) ?tag @ fst (snd (tools_run unmarshal ss ?q)) = before_tag ?tag ((x @ s) @ concat ss)"
      using Cons.IH[of ?q "x @ s"] Cons.prems i None held_append[of x s ?tag] by simp
    then show ?thesis using a unheld_append[of x s ?tag] by (simp add: split_def Let_def)
  qed
qed

text \<open>
  C26.  What \<^verbatim>\<open>Add\<close> of the tool parser gives as content does not depend on the chunks.  With a tag that
  is not empty and not a single bracket, it is the text before the first tag; without a tag in the
  text, it is all of the text but the longest end that may start one, which is held.
\<close>
theorem tools_content_before_tag:
  assumes "tag \<noteq> []" and "tag \<noteq> ''{''" and "tag \<noteq> ''[''"
  shows "fst (snd (tools_run unmarshal chunks (new_tools_parser tools tag))) =
    (case index_of tag (concat chunks) of
       Some i \<Rightarrow> take i (concat chunks)
     | None \<Rightarrow> take (length (concat chunks) - overlap (concat chunks) tag) (concat chunks))"
  using tools_run_content[of "new_tools_parser tools tag" "[]" unmarshal chunks] assms
  by (simp add: new_tools_parser_def index_of_Nil before_tag_def unheld_def held_def)

theorem tools_content_before_tag_witness:
  "fst (snd (tools_run (\<lambda>_. None) [''a <'', ''t'', ''>{'', ''<t>b''] (new_tools_parser [''f''] ''<t>''))) = ''a ''"
  using tools_content_before_tag[of "''<t>''" "\<lambda>_. None" "[''a <'', ''t'', ''>{'', ''<t>b'']" "[''f'']"]
  by (simp add: index_of.simps)

section \<open>What the chat handler loses and repeats\<close>

definition example_call :: string where
  "example_call = ''{'' @ [CHR 0x22] @ ''name'' @ [CHR 0x22] @ '':'' @ [CHR 0x22] @ ''f'' @ [CHR 0x22] @ '','' @
     [CHR 0x22] @ ''arguments'' @ [CHR 0x22] @ '':{}}''"

definition example_decoder :: decoder where
  "example_decoder s =
     (if s = example_call then Some (Some [(''name'', JString ''f''), (''arguments'', JObject [])]) else None)"

theorem tool_calls_declared_and_numbered_witness:
  "\<exists>p'. tools_run example_decoder [''Hi <t>'', example_call, example_call] (new_tools_parser [''f''] ''<t>'') =
      ([\<lparr>pc_name = ''f'', pc_args = [], pc_index = 0\<rparr>, \<lparr>pc_name = ''f'', pc_args = [], pc_index = 1\<rparr>], ''Hi '', p') \<and>
    t_n p' = 2"
proof -
  let ?r = "tools_run example_decoder [''Hi <t>'', example_call, example_call] (new_tools_parser [''f''] ''<t>'')"
  let ?c = "[\<lparr>pc_name = ''f'', pc_args = [], pc_index = 0\<rparr>, \<lparr>pc_name = ''f'', pc_args = [], pc_index = 1\<rparr>]"
  have "fst ?r = ?c \<and> fst (snd ?r) = ''Hi ''" by code_simp
  then obtain p' where r: "?r = (?c, ''Hi '', p')" by (metis prod.collapse)
  show ?thesis
    using tool_calls_declared_and_numbered[where unmarshal = example_decoder and
        chunks = "[''Hi <t>'', example_call, example_call]" and tools = "[''f'']" and tag = "''<t>''"]
    unfolding r by simp
qed

text \<open>
  A chunk that brings both content and tool calls: \<^verbatim>\<open>Add\<close> returns both, but the handler takes
  the content only.  The same response in two chunks keeps its call.
\<close>
theorem chat_loses_call_behind_content:
  "chat_tools_run example_decoder [(''Hi <t>'' @ example_call, False), ([], True)] (new_tools_parser [''f''] ''<t>'') =
     (''Hi '', []) \<and>
   chat_tools_run example_decoder [(''Hi <t>'', False), (example_call, False), ([], True)] (new_tools_parser [''f''] ''<t>'') =
     (''Hi '', [\<lparr>pc_name = ''f'', pc_args = [], pc_index = 0\<rparr>])"
  by code_simp

text \<open>The general rule behind it.\<close>

theorem chat_drops_calls_with_content:
  assumes "tools_Add unmarshal s p = (calls, content, p')" and "content \<noteq> []"
  shows "chat_tools_step unmarshal s done p = (Some (content, []), p')"
  using assms by (simp add: chat_tools_step_def)

text \<open>
  With a bracket as the tag, text before the first bracket ends the search, and all of the chunk
  is content; but the part from the bracket on stays in the buffer and is sent again at the end.
\<close>
theorem chat_repeats_text_with_bracket:
  assumes "tag = ''{'' \<or> tag = ''[''" and "hd tag \<notin> set x" and "trim_space x \<noteq> []"
  shows "chat_tools_run unmarshal [(x @ tag @ y, False), ([], True)] (new_tools_parser tools tag) =
    (x @ tag @ y @ tag @ y, [])"
proof -
  let ?p = "new_tools_parser tools tag"
  have tag: "tag \<noteq> []" using assms(1) by auto
  have "index_of tag (x @ tag @ y) = Some (length x)"
    using index_of_skip[OF assms(2) tag, of "tag @ y"] by simp
  then have a: "tools_Add unmarshal (x @ tag @ y) ?p = ([], x @ tag @ y, ?p\<lparr>t_buffer := tag @ y, t_state := ToolsDone\<rparr>)"
    using assms(1,3) by (auto simp: tools_Add_def new_tools_parser_def findTag_def Let_def)
  have "chat_tools_step unmarshal (x @ tag @ y) False ?p = (Some (x @ tag @ y, []), ?p\<lparr>t_buffer := tag @ y, t_state := ToolsDone\<rparr>)"
    using a tag by (simp add: chat_tools_step_def)
  moreover have "chat_tools_step unmarshal [] True (?p\<lparr>t_buffer := tag @ y, t_state := ToolsDone\<rparr>) =
      (Some (tag @ y, []), ?p\<lparr>t_buffer := tag @ y, t_state := ToolsDone\<rparr>)"
    using assms(1) by (auto simp: chat_tools_step_def tools_Add_def tools_Content_def new_tools_parser_def)
  ultimately show ?thesis by simp
qed

theorem chat_repeats_text_with_bracket_witness:
  "chat_tools_run (\<lambda>_. None) [(''f() {}'', False), ([], True)] (new_tools_parser [] ''{'') = (''f() {}{}'', [])"
  using chat_repeats_text_with_bracket[of "''{''" "''f() ''" "\<lambda>_. None" "''}''" "[]"]
  by (simp add: trim_space_def trim_left_ascii is_space_def trim_right.simps decode_last_rune_def)

text \<open>
  With another tag, an end of the response that could have started a tag is never sent.
\<close>
theorem chat_loses_partial_tag:
  "chat_tools_run unmarshal [(''a <'', False), ([], True)] (new_tools_parser tools ''<t>'') = (''a '', [])"
proof -
  let ?p = "new_tools_parser tools ''<t>''"
  have 1: "chat_tools_step unmarshal ''a <'' False ?p = (Some (''a '', []), ?p\<lparr>t_buffer := ''<''\<rparr>)"
    by (simp add: chat_tools_step_def tools_Add_def new_tools_parser_def findTag_def Let_def index_of.simps overlap_def suffix_def)
  have 2: "chat_tools_step unmarshal [] True (?p\<lparr>t_buffer := ''<''\<rparr>) = (Some ([], []), ?p\<lparr>t_buffer := ''<''\<rparr>)"
    by (simp add: chat_tools_step_def tools_Add_def tools_Content_def new_tools_parser_def findTag_def Let_def index_of.simps
        overlap_def suffix_def)
  show ?thesis using 1 2 by simp
qed

end
