(* ===== verification/ChatPrompt.thy ===== *)
theory ChatPrompt
  imports StreamText
begin

text \<open>
  \<^verbatim>\<open>server/prompt.go\<close>: the prompt of a chat: which messages are kept when the context is too
  short, and the tags that stand for images.  The renderers, the templates and the tokenizer are
  arguments.
\<close>

section \<open>Messages and media\<close>

text \<open>A message; what the prompt code does not look at is \<open>msg_rest\<close>.\<close>

record 'x chat_message =
  msg_role :: string
  msg_content :: string
  msg_images :: "string list"
  msg_rest :: 'x

record chat_model =
  cm_projectors :: bool
  cm_families :: "string list"
  cm_renderer :: string

record 'k media =
  media_id :: nat
  media_data :: string
  media_kind :: 'k

datatype 'e chat_error = TooManyImages | ChatFailed 'e

definition image_marker :: string where
  "image_marker = ''[img]''"

definition image_tag :: "nat \<Rightarrow> string" where
  "image_tag i = ''[img-'' @ show_nat i @ '']''"

text \<open>The loop over the images of one message; \<open>n\<close> is the number of media so far.\<close>

fun place_tags :: "bool \<Rightarrow> nat \<Rightarrow> string list \<Rightarrow> string \<Rightarrow> string \<Rightarrow> string \<times> string" where
  "place_tags hasRenderer n [] before prompt = (before, prompt)"
| "place_tags hasRenderer n (i # images) before prompt =
     (if hasRenderer then place_tags hasRenderer (Suc n) images before prompt
      else if \<not> contains prompt image_marker
           then place_tags hasRenderer (Suc n) images (before @ image_tag n) prompt
           else place_tags hasRenderer (Suc n) images before (replace_first prompt image_marker (image_tag n)))"

definition new_media :: "(string \<Rightarrow> 'k) \<Rightarrow> nat \<Rightarrow> string list \<Rightarrow> 'k media list" where
  "new_media detect n images =
     map (\<lambda>(id, i). \<lparr>media_id = id, media_data = i, media_kind = detect i\<rparr>) (zip [n..<n + length images] images)"

text \<open>The loop over the messages; \<open>n\<close> is the number of media so far.\<close>

fun tag_messages ::
  "(string \<Rightarrow> 'k) \<Rightarrow> chat_model \<Rightarrow> bool \<Rightarrow> nat \<Rightarrow> 'x chat_message list \<Rightarrow> 'e chat_error + ('x chat_message list \<times> 'k media list)" where
  "tag_messages detect m clearImages n [] = Inr ([], [])"
| "tag_messages detect m clearImages n (msg # msgs) =
     (if ''mllama'' \<in> set (cm_families m) \<and> 1 < length (msg_images msg) then Inl TooManyImages
      else
        (let hasRenderer = (cm_renderer m \<noteq> []);
             (before, prompt) = place_tags hasRenderer n (msg_images msg) [] (msg_content msg);
             msg1 = (if hasRenderer then msg else msg\<lparr>msg_content := before @ prompt\<rparr>);
             msg2 = (if clearImages then msg1\<lparr>msg_images := []\<rparr> else msg1)
         in case tag_messages detect m clearImages (n + length (msg_images msg)) msgs of
              Inl e \<Rightarrow> Inl e
            | Inr (msgs', media) \<Rightarrow> Inr (msg2 # msgs', new_media detect n (msg_images msg) @ media)))"

definition imageTaggedMessages ::
  "(string \<Rightarrow> 'k) \<Rightarrow> chat_model \<Rightarrow> 'x chat_message list \<Rightarrow> nat \<Rightarrow> bool \<Rightarrow> 'e chat_error + ('x chat_message list \<times> 'k media list)" where
  "imageTaggedMessages detect m msgs start clearImages =
     (case tag_messages detect m clearImages 0 (drop start msgs) of
        Inl e \<Rightarrow> Inl e
      | Inr (tagged, media) \<Rightarrow> Inr (take start msgs @ tagged, media))"

section \<open>The prompt\<close>

text \<open>The values a template is executed with, besides messages and tools.\<close>

record think_values =
  tv_think :: bool
  tv_level :: string
  tv_set :: bool

text \<open>\<open>think\<close> is absent or its \<^verbatim>\<open>Bool\<close> and \<^verbatim>\<open>String\<close>.\<close>

definition renderPrompt ::
  "('x chat_message list \<Rightarrow> 't \<Rightarrow> (bool \<times> string) option \<Rightarrow> 'e + string) \<Rightarrow>
   ('x chat_message list \<Rightarrow> 't \<Rightarrow> think_values \<Rightarrow> 'e + string) \<Rightarrow>
   chat_model \<Rightarrow> 't \<Rightarrow> (bool \<times> string) option \<Rightarrow> 'x chat_message list \<Rightarrow> 'e + string" where
  "renderPrompt renderer template m tools think msgs =
     (if cm_renderer m \<noteq> [] then renderer msgs tools think
      else template msgs tools
        (case think of
           None \<Rightarrow> \<lparr>tv_think = False, tv_level = [], tv_set = False\<rparr>
         | Some (b, s) \<Rightarrow> \<lparr>tv_think = b, tv_level = s, tv_set = True\<rparr>))"

definition system_messages :: "'x chat_message list \<Rightarrow> nat \<Rightarrow> 'x chat_message list" where
  "system_messages msgs i = filter (\<lambda>msg. msg_role msg = ''system'') (take i msgs)"

text \<open>The length that is compared with the context when the messages from \<open>i\<close> on are kept.\<close>

definition chat_length ::
  "('x chat_message list \<Rightarrow> 'e + string) \<Rightarrow> (string \<Rightarrow> 'e + 't list) \<Rightarrow> chat_model \<Rightarrow> 'x chat_message list \<Rightarrow> nat \<Rightarrow> 'e + nat" where
  "chat_length render tokenize m msgs i =
     (case render (system_messages msgs i @ drop i msgs) of
        Inl e \<Rightarrow> Inl e
      | Inr p \<Rightarrow>
          (case tokenize p of
             Inl e \<Rightarrow> Inl e
           | Inr s \<Rightarrow>
               Inr (length s + (if cm_projectors m then sum_list (map (\<lambda>msg. 768 * length (msg_images msg)) (drop i msgs)) else 0))))"

text \<open>The loop that removes messages from the front: the first message kept, and the system messages before it.\<close>

function chat_start ::
  "('x chat_message list \<Rightarrow> 'e + string) \<Rightarrow> (string \<Rightarrow> 'e + 't list) \<Rightarrow> chat_model \<Rightarrow> int \<Rightarrow> 'x chat_message list \<Rightarrow> nat
   \<Rightarrow> 'e + (nat \<times> 'x chat_message list)" where
  "chat_start render tokenize m numCtx msgs i =
     (if length msgs \<le> i then Inr (0, [])
      else
        (case chat_length render tokenize m msgs i of
           Inl e \<Rightarrow> Inl e
         | Inr ctxLen \<Rightarrow>
             if int ctxLen \<le> numCtx then Inr (i, system_messages msgs i)
             else if i = length msgs - 1 then Inr (i, system_messages msgs i)
             else chat_start render tokenize m numCtx msgs (Suc i)))"
  by pat_completeness auto
termination
  by (relation "measure (\<lambda>(_, _, _, _, msgs, i). length msgs - i)") auto

declare chat_start.simps [simp del]

definition chatPrompt ::
  "('x chat_message list \<Rightarrow> 'e + string) \<Rightarrow> (string \<Rightarrow> 'e + 't list) \<Rightarrow> (string \<Rightarrow> 'k) \<Rightarrow> chat_model \<Rightarrow> int \<Rightarrow>
   'x chat_message list \<Rightarrow> bool \<Rightarrow> 'e chat_error + (string \<times> 'k media list)" where
  "chatPrompt render tokenize detect m numCtx msgs trunc =
     (case (if trunc then chat_start render tokenize m numCtx msgs 0 else Inr (0, [])) of
        Inl e \<Rightarrow> Inl (ChatFailed e)
      | Inr (currMsgIdx, system) \<Rightarrow>
          (case imageTaggedMessages detect m msgs currMsgIdx False of
             Inl e \<Rightarrow> Inl e
           | Inr (renderMsgs, media) \<Rightarrow>
               (case render (system @ drop currMsgIdx renderMsgs) of
                  Inl e \<Rightarrow> Inl (ChatFailed e)
                | Inr p \<Rightarrow> Inr (p, media))))"

section \<open>Truncation\<close>

lemma chat_start_spec:
  assumes "chat_start render tokenize m numCtx msgs i = Inr (k, system)" and "i < length msgs"
  shows "i \<le> k \<and> k < length msgs \<and> system = system_messages msgs k \<and>
    (k = length msgs - 1 \<or> (\<exists>n. chat_length render tokenize m msgs k = Inr n \<and> int n \<le> numCtx)) \<and>
    (\<forall>j. i \<le> j \<and> j < k \<longrightarrow> (\<exists>n. chat_length render tokenize m msgs j = Inr n \<and> numCtx < int n))"
  using assms
proof (induction render tokenize m numCtx msgs i rule: chat_start.induct)
  case (1 render tokenize m numCtx msgs i)
  obtain n where n: "chat_length render tokenize m msgs i = Inr n"
    using "1.prems" by (auto simp: chat_start.simps[of _ _ _ _ _ i] split: sum.splits)
  show ?case
  proof (cases "int n \<le> numCtx \<or> i = length msgs - 1")
    case True
    then show ?thesis using "1.prems" n by (auto simp: chat_start.simps[of _ _ _ _ _ i] split: if_splits)
  next
    case False
    then have "chat_start render tokenize m numCtx msgs (Suc i) = Inr (k, system)" "Suc i < length msgs"
      using "1.prems" n by (auto simp: chat_start.simps[of _ _ _ _ _ i])
    with "1.IH"[of n] "1.prems"(2) n False
    have r: "Suc i \<le> k \<and> k < length msgs \<and> system = system_messages msgs k \<and>
        (k = length msgs - 1 \<or> (\<exists>n. chat_length render tokenize m msgs k = Inr n \<and> int n \<le> numCtx)) \<and>
        (\<forall>j. Suc i \<le> j \<and> j < k \<longrightarrow> (\<exists>n. chat_length render tokenize m msgs j = Inr n \<and> numCtx < int n))"
      by auto
    moreover have "\<exists>n. chat_length render tokenize m msgs j = Inr n \<and> numCtx < int n" if "i \<le> j" "j < k" for j
      using r that n False by (cases "j = i") auto
    ultimately show ?thesis by simp
  qed
qed

lemma tag_messages_length:
  "tag_messages detect m c n msgs = Inr (msgs', media) \<Longrightarrow> length msgs' = length msgs"
  by (induction detect m c n msgs arbitrary: msgs' media rule: tag_messages.induct)
    (auto simp: Let_def split: if_splits prod.splits sum.splits)

text \<open>
  C17.  Truncation keeps the latest message and every system message, and drops no more than it
  must: the prompt is rendered from the system messages before some message \<open>k\<close>, in their
  order, and all messages from \<open>k\<close> on, with their image tags; what is kept fits the context,
  or is the last message; and with one message more, for every longer suffix, it did not fit.
\<close>
theorem chat_prompt_truncates_minimally:
  fixes render :: "'x chat_message list \<Rightarrow> 'e + string"
  assumes "chatPrompt render tokenize detect m numCtx msgs True = Inr (p, media)" and "msgs \<noteq> []"
  shows "\<exists>k kept. k < length msgs \<and>
    tag_messages detect m False 0 (drop k msgs) = (Inr (kept, media) :: 'e chat_error + _) \<and> length kept = length msgs - k \<and>
    render (filter (\<lambda>msg. msg_role msg = ''system'') (take k msgs) @ kept) = Inr p \<and>
    (k = length msgs - 1 \<or> (\<exists>n. chat_length render tokenize m msgs k = Inr n \<and> int n \<le> numCtx)) \<and>
    (\<forall>j < k. \<exists>n. chat_length render tokenize m msgs j = Inr n \<and> numCtx < int n)"
proof -
  obtain k system where s: "chat_start render tokenize m numCtx msgs 0 = Inr (k, system)"
    using assms(1) by (auto simp: chatPrompt_def split: sum.splits)
  from chat_start_spec[OF this] assms(2)
  have k: "k < length msgs" "system = system_messages msgs k"
    "k = length msgs - 1 \<or> (\<exists>n. chat_length render tokenize m msgs k = Inr n \<and> int n \<le> numCtx)"
    "\<forall>j < k. \<exists>n. chat_length render tokenize m msgs j = Inr n \<and> numCtx < int n"
    by simp_all
  obtain kept where t: "tag_messages detect m False 0 (drop k msgs) = (Inr (kept, media) :: 'e chat_error + _)"
    "render (system @ kept) = Inr p"
    using assms(1) s k(1) by (auto simp: chatPrompt_def imageTaggedMessages_def split: sum.splits)
  show ?thesis
    using k t tag_messages_length[OF t(1)] by (intro exI[of _ k] exI[of _ kept]) (simp add: system_messages_def)
qed

definition example_message :: "string \<Rightarrow> string \<Rightarrow> unit chat_message" where
  "example_message role content = \<lparr>msg_role = role, msg_content = content, msg_images = [], msg_rest = ()\<rparr>"

definition example_render :: "unit chat_message list \<Rightarrow> unit + string" where
  "example_render msgs = Inr (concat (map msg_content msgs))"

theorem chat_prompt_truncates_minimally_witness:
  "\<exists>p media k kept.
     chatPrompt example_render (\<lambda>s. Inr s) (\<lambda>_. ()) \<lparr>cm_projectors = False, cm_families = [], cm_renderer = []\<rparr> 3
       [example_message ''system'' ''s'', example_message ''user'' ''abc'', example_message ''user'' ''de''] True = Inr (p, media) \<and>
     p = ''sde'' \<and> k = (2 :: nat) \<and> example_render ([example_message ''system'' ''s''] @ kept) = Inr p"
proof -
  let ?m = "\<lparr>cm_projectors = False, cm_families = [], cm_renderer = []\<rparr>"
  let ?msgs = "[example_message ''system'' ''s'', example_message ''user'' ''abc'', example_message ''user'' ''de'']"
  let ?prompt = "chatPrompt example_render (\<lambda>s. Inr s) (\<lambda>_. ()) ?m 3 ?msgs True"
  have a: "?prompt = Inr (''sde'', [])"
    by (simp add: chatPrompt_def chat_start.simps chat_length_def system_messages_def example_message_def example_render_def
        imageTaggedMessages_def new_media_def numeral_2_eq_2)
  have n: "?msgs \<noteq> []" by simp
  obtain k kept where k: "k < length ?msgs"
    "example_render (filter (\<lambda>msg. msg_role msg = ''system'') (take k ?msgs) @ kept) = Inr ''sde''"
    "k = length ?msgs - 1 \<or> (\<exists>n. chat_length example_render (\<lambda>s. Inr s) ?m ?msgs k = Inr n \<and> int n \<le> 3)"
    using chat_prompt_truncates_minimally[OF a n] by blast
  have "k = 2"
    using k(1,3) by (auto simp: chat_length_def system_messages_def example_message_def example_render_def less_Suc_eq numeral_2_eq_2)
  with a k(2) show ?thesis by (intro exI conjI) (auto simp: numeral_2_eq_2 example_message_def)
qed

section \<open>Image tags\<close>

text \<open>Text in which no marker starts, whatever follows.\<close>

definition no_marker_in :: "string \<Rightarrow> bool" where
  "no_marker_in u \<longleftrightarrow> (\<forall>x j. j < length u \<longrightarrow> \<not> prefix image_marker (drop j (u @ x)))"

lemma index_of_after:
  assumes "\<And>j. j < length u \<Longrightarrow> \<not> prefix sep (drop j (u @ x))"
  shows "index_of sep (u @ x) = map_option ((+) (length u)) (index_of sep x)"
  using assms
proof (induction u)
  case Nil
  then show ?case by (simp add: option.map_ident)
next
  case (Cons c u)
  have "\<not> prefix sep (drop j (u @ x))" if "j < length u" for j using Cons.prems[of "Suc j"] that by simp
  then have "index_of sep (u @ x) = map_option ((+) (length u)) (index_of sep x)" by (rule Cons.IH)
  moreover have "\<not> prefix sep (c # u @ x)" using Cons.prems[of 0] by simp
  ultimately show ?case by (simp add: index_of_Cons option.map_comp comp_def)
qed

lemma index_of_no_marker: "no_marker_in u \<Longrightarrow> index_of image_marker (u @ x) = map_option ((+) (length u)) (index_of image_marker x)"
  by (rule index_of_after) (auto simp: no_marker_in_def)

lemma show_nat_chars: "c \<in> set (show_nat n) \<Longrightarrow> 48 \<le> byte_val c \<and> byte_val c \<le> 57"
proof (induction n rule: show_nat.induct)
  case (1 n)
  then show ?case by (cases "n < 10") (auto simp: show_nat.simps[of n] byte_val_digit)
qed

lemma no_bracket_in_number: "CHR ''['' \<notin> set (show_nat n)"
  using show_nat_chars[of "CHR ''[''" n] by auto

lemma marker_not_across:
  assumes "d \<noteq> []" and "\<not> prefix ''[img]'' d"
  shows "\<not> prefix ''[img]'' (d @ CHR ''['' # y)"
  using assms by (auto simp: prefix_def append_eq_Cons_conv)

lemma no_marker_in_tag:
  assumes "\<not> contains p image_marker"
  shows "no_marker_in (p @ image_tag n)"
  unfolding no_marker_in_def
proof (intro allI impI notI)
  fix x j assume j: "j < length (p @ image_tag n)" and m: "prefix image_marker (drop j ((p @ image_tag n) @ x))"
  show False
  proof (cases "j < length p")
    case True
    let ?d = "drop j p"
    have d: "prefix ''[img]'' (?d @ CHR ''['' # tl (image_tag n) @ x)" and ne: "?d \<noteq> []"
      using m True by (simp_all add: image_marker_def image_tag_def)
    have "\<not> prefix ''[img]'' ?d" using assms index_of_NoneD[of image_marker p j] by (simp add: image_marker_def)
    with d marker_not_across[OF ne] show False by blast
  next
    case False
    then have "prefix image_marker (drop (j - length p) (image_tag n @ x))" using m by simp
    then have h: "prefix ''[img]'' (drop (j - length p) (''[img-'' @ show_nat n @ '']'' @ x))"
      by (simp add: image_marker_def image_tag_def)
    let ?t = "''img-'' @ show_nat n @ '']''"
    have k: "j - length p < Suc (length ?t)" using j False by (simp add: image_tag_def)
    show False
    proof (cases "j - length p")
      case 0
      with h show False by simp
    next
      case (Suc i)
      then have i: "i < length ?t" using k by simp
      obtain t where t: "t = ?t" by blast
      have "drop (Suc i) (''[img-'' @ show_nat n @ '']'' @ x) = drop i (t @ x)" unfolding t by simp
      then have "prefix ''[img]'' (drop i (t @ x))" using h Suc by metis
      then have "hd (drop i (t @ x)) = CHR ''[''" by (cases "drop i (t @ x)") auto
      moreover have "hd (drop i (t @ x)) = t ! i" using i unfolding t[symmetric] by (simp add: hd_drop_conv_nth nth_append)
      moreover have "t ! i \<in> set t" using i nth_mem unfolding t[symmetric] by blast
      ultimately show False using no_bracket_in_number[of n] t by auto
    qed
  qed
qed

lemma no_marker_in_append:
  assumes "no_marker_in a" and "no_marker_in b"
  shows "no_marker_in (a @ b)"
  unfolding no_marker_in_def
proof (intro allI impI)
  fix x j assume j: "j < length (a @ b)"
  show "\<not> prefix image_marker (drop j ((a @ b) @ x))"
  proof (cases "j < length a")
    case True
    with assms(1) have "\<not> prefix image_marker (drop j (a @ (b @ x)))" unfolding no_marker_in_def by blast
    then show ?thesis by simp
  next
    case False
    with j have "j - length a < length b" by simp
    with assms(2) have "\<not> prefix image_marker (drop (j - length a) (b @ x))" unfolding no_marker_in_def by blast
    with False show ?thesis by simp
  qed
qed

lemma before_marker:
  assumes "index_of image_marker s = Some i"
  shows "\<not> contains (take i s) image_marker"
proof
  assume "contains (take i s) image_marker"
  then obtain j where j: "index_of image_marker (take i s) = Some j" by blast
  then have "index_of image_marker (take i s @ drop i s) = Some j" by (rule index_of_append_same)
  then have "j = i" using assms by simp
  with index_of_le[OF j] show False by (simp add: image_marker_def)
qed

text \<open>The parts of a text around its markers, with tags for the first markers.\<close>

fun interleave_tags :: "string list \<Rightarrow> string list \<Rightarrow> string" where
  "interleave_tags parts [] = join parts image_marker"
| "interleave_tags [] (t # ts) = []"
| "interleave_tags [p] (t # ts) = p"
| "interleave_tags (p # q # ps) (t # ts) = p @ t @ interleave_tags (q # ps) ts"

lemma interleave_tags_one [simp]: "interleave_tags [s] ts = s"
  by (cases ts) simp_all

definition tagged_content :: "nat \<Rightarrow> nat \<Rightarrow> string \<Rightarrow> string" where
  "tagged_content n images content =
     (let parts = split_on image_marker content; tags = map image_tag [n..<n + images]
      in concat (drop (length parts - 1) tags) @ interleave_tags parts tags)"

lemma place_tags_spec:
  assumes "no_marker_in u"
  shows "place_tags False n images before (u @ s) =
    (let parts = split_on image_marker s; tags = map image_tag [n..<n + length images]
     in (before @ concat (drop (length parts - 1) tags), u @ interleave_tags parts tags))"
  using assms
proof (induction images arbitrary: n before u s)
  case Nil
  then show ?case by (simp add: Let_def join_split image_marker_def)
next
  case (Cons i images)
  have up: "[n..<n + length (i # images)] = n # [Suc n..<Suc n + length images]"
    by (simp add: upt_conv_Cons del: upt_Suc)
  show ?case
  proof (cases "index_of image_marker s")
    case None
    then have "\<not> contains (u @ s) image_marker" using index_of_no_marker[OF Cons.prems] by simp
    moreover have "split_on image_marker s = [s]" using None by (simp add: split_on.simps image_marker_def)
    ultimately show ?thesis using Cons.IH[OF Cons.prems, of "Suc n" "before @ image_tag n" s] up
      by (simp add: Let_def del: upt_Suc)
  next
    case (Some k)
    let ?r = "drop (k + length image_marker) s" and ?u = "u @ take k s @ image_tag n"
    have i: "index_of image_marker (u @ s) = Some (length u + k)" using index_of_no_marker[OF Cons.prems] Some by simp
    then have "replace_first (u @ s) image_marker (image_tag n) = ?u @ ?r" by (simp add: replace_first_def)
    then have e: "place_tags False n (i # images) before (u @ s) = place_tags False (Suc n) images before (?u @ ?r)"
      using i by simp
    have sp: "split_on image_marker s = take k s # split_on image_marker ?r"
      using split_head_tail(1)[of image_marker s k] Some by (simp add: image_marker_def)
    obtain q ps where q: "split_on image_marker ?r = q # ps"
      using split_on_nonempty[of image_marker ?r] by (cases "split_on image_marker ?r") (auto simp: image_marker_def)
    have "no_marker_in ?u" using no_marker_in_append[OF Cons.prems no_marker_in_tag[OF before_marker[OF Some]]] .
    then show ?thesis unfolding e up sp q by (subst Cons.IH) (simp_all add: Let_def q del: upt_Suc)
  qed
qed

lemma new_media_fields [simp]:
  "map media_id (new_media detect n images) = [n..<n + length images]"
  "map media_data (new_media detect n images) = images"
  "length (new_media detect n images) = length images"
proof -
  have "map media_id (new_media detect n images) = map fst (zip [n..<n + length images] images)"
    "map media_data (new_media detect n images) = map snd (zip [n..<n + length images] images)"
    by (simp_all add: new_media_def comp_def split_def)
  then show "map media_id (new_media detect n images) = [n..<n + length images]"
    "map media_data (new_media detect n images) = images" by simp_all
  show "length (new_media detect n images) = length images" by (simp add: new_media_def)
qed

lemma place_tags_content:
  "place_tags False n images [] content = (before, prompt) \<Longrightarrow> before @ prompt = tagged_content n (length images) content"
  using place_tags_spec[of "[]" n images "[]" content] by (auto simp: tagged_content_def Let_def no_marker_in_def)

text \<open>With a renderer of its own the model places its images itself, and the text stays as it is.\<close>

definition content_after :: "chat_model \<Rightarrow> nat \<Rightarrow> nat \<Rightarrow> string \<Rightarrow> string" where
  "content_after m n images content = (if cm_renderer m = [] then tagged_content n images content else content)"

lemma tag_messages_spec:
  assumes "tag_messages detect m c n msgs = (Inr (tagged, media) :: 'e chat_error + _)"
  shows "map media_id media = [n..<n + length media] \<and>
    map media_data media = concat (map msg_images msgs) \<and> length tagged = length msgs \<and>
    (\<forall>k < length msgs. msg_role (tagged ! k) = msg_role (msgs ! k) \<and>
       msg_images (tagged ! k) = (if c then [] else msg_images (msgs ! k)) \<and>
       msg_content (tagged ! k) =
       content_after m (n + length (concat (map msg_images (take k msgs)))) (length (msg_images (msgs ! k))) (msg_content (msgs ! k)))"
  using assms
proof (induction msgs arbitrary: n tagged media)
  case (Cons msg msgs)
  obtain b q where pt: "place_tags (cm_renderer m \<noteq> []) n (msg_images msg) [] (msg_content msg) = (b, q)" by fastforce
  obtain msgs' media' where r: "tag_messages detect m c (n + length (msg_images msg)) msgs = (Inr (msgs', media') :: 'e chat_error + _)"
    using Cons.prems pt by (auto simp: Let_def split: if_splits sum.splits)
  define msg1 where "msg1 = (if cm_renderer m \<noteq> [] then msg else msg\<lparr>msg_content := b @ q\<rparr>)"
  have t: "tagged = (if c then msg1\<lparr>msg_images := []\<rparr> else msg1) # msgs'" "media = new_media detect n (msg_images msg) @ media'"
    using Cons.prems pt r by (auto simp: Let_def msg1_def split: if_splits)
  have ih: "map media_id media' = [n + length (msg_images msg)..<n + length (msg_images msg) + length media']"
    "map media_data media' = concat (map msg_images msgs)" "length msgs' = length msgs"
    "\<forall>k < length msgs. msg_role (msgs' ! k) = msg_role (msgs ! k) \<and>
       msg_images (msgs' ! k) = (if c then [] else msg_images (msgs ! k)) \<and>
       msg_content (msgs' ! k) = content_after m (n + length (msg_images msg) + length (concat (map msg_images (take k msgs))))
         (length (msg_images (msgs ! k))) (msg_content (msgs ! k))"
    using Cons.IH[OF r] by auto
  have "map media_id media = [n..<n + length media]"
    unfolding t(2) map_append ih(1) new_media_fields
    using upt_add_eq_append[of n "n + length (msg_images msg)" "length media'"] by (simp add: t(2) add.assoc)
  moreover have "msg_role msg1 = msg_role msg" "msg_images msg1 = msg_images msg"
    "msg_content msg1 = content_after m n (length (msg_images msg)) (msg_content msg)"
    using place_tags_content pt by (auto simp: msg1_def content_after_def)
  ultimately show ?case using ih(2-4) by (auto simp: t nth_Cons less_Suc_eq_0_disj add.assoc split: nat.splits)
qed simp

text \<open>
  C28.  Images keep their order and their place.  When the messages are
  tagged without an error, the media are numbered from 0 in the order of the messages from \<open>start\<close> on.  For a model
  without a renderer of its own, in each of these messages the first markers \<^verbatim>\<open>[img]\<close> are replaced
  by the tags of its images in order, the tags without a marker come before the text, and nothing
  else of the text changes; for a model with a renderer no text changes.  Roles are kept, and so
  are the images, unless they are to be cleared; messages before \<open>start\<close> are untouched.
\<close>
theorem images_are_tagged_in_order:
  assumes "imageTaggedMessages detect m msgs start clearImages = (Inr (tagged, media) :: 'e chat_error + _)"
    and "start \<le> length msgs"
  shows "map media_id media = [0..<length media] \<and>
    map media_data media = concat (map msg_images (drop start msgs)) \<and>
    take start tagged = take start msgs \<and> length tagged = length msgs \<and>
    (\<forall>k. start \<le> k \<and> k < length msgs \<longrightarrow>
       msg_role (tagged ! k) = msg_role (msgs ! k) \<and>
       msg_images (tagged ! k) = (if clearImages then [] else msg_images (msgs ! k)) \<and>
       msg_content (tagged ! k) =
         (if cm_renderer m = []
          then tagged_content (length (concat (map msg_images (take (k - start) (drop start msgs)))))
                 (length (msg_images (msgs ! k))) (msg_content (msgs ! k))
          else msg_content (msgs ! k)))"
proof -
  obtain kept where k: "tag_messages detect m clearImages 0 (drop start msgs) = (Inr (kept, media) :: 'e chat_error + _)" "tagged = take start msgs @ kept"
    using assms(1) by (auto simp: imageTaggedMessages_def split: sum.splits)
  note s = tag_messages_spec[OF k(1)]
  have "msg_role (tagged ! i) = msg_role (msgs ! i) \<and>
      msg_images (tagged ! i) = (if clearImages then [] else msg_images (msgs ! i)) \<and>
      msg_content (tagged ! i) = content_after m (length (concat (map msg_images (take (i - start) (drop start msgs)))))
           (length (msg_images (msgs ! i))) (msg_content (msgs ! i))" if "start \<le> i" "i < length msgs" for i
  proof -
    have "tagged ! i = kept ! (i - start)" using that assms(2) by (simp add: k(2) nth_append)
    moreover have "drop start msgs ! (i - start) = msgs ! i" "i - start < length (drop start msgs)" using that by simp_all
    ultimately show ?thesis using s by (metis add_0)
  qed
  with s assms(2) k(2) show ?thesis by (auto simp: content_after_def)
qed

lemma show_numbers: "show_nat 0 = ''0''" "show_nat 1 = ''1''" "show_nat (Suc 0) = ''1''"
  by code_simp+

theorem images_are_tagged_in_order_witness:
  "\<exists>tagged media :: unit media list.
     imageTaggedMessages (\<lambda>_. ()) \<lparr>cm_projectors = True, cm_families = [], cm_renderer = []\<rparr>
       [\<lparr>msg_role = ''user'', msg_content = ''a[img]b'', msg_images = [''x'', ''y''], msg_rest = ()\<rparr>] 0 False =
       (Inr (tagged, media) :: unit chat_error + _) \<and>
     map media_id media = [0, 1] \<and> msg_content (tagged ! 0) = ''[img-1]a[img-0]b''"
proof -
  let ?m = "\<lparr>cm_projectors = True, cm_families = [], cm_renderer = []\<rparr>"
  let ?msg = "\<lparr>msg_role = ''user'', msg_content = ''a[img]b'', msg_images = [''x'', ''y''], msg_rest = ()\<rparr>"
  have pt: "place_tags False 0 [''x'', ''y''] [] ''a[img]b'' = (''[img-1]'', ''a[img-0]b'')"
    by (simp add: replace_first_def index_of.simps image_marker_def image_tag_def show_numbers)
  have a: "imageTaggedMessages (\<lambda>_. ()) ?m [?msg] 0 False =
      (Inr ([?msg\<lparr>msg_content := ''[img-1]a[img-0]b''\<rparr>], new_media (\<lambda>_. ()) 0 [''x'', ''y'']) :: unit chat_error + _)"
    using pt by (simp add: imageTaggedMessages_def)
  have "tagged_content 0 2 ''a[img]b'' = ''[img-1]a[img-0]b''"
    by (simp add: tagged_content_def Let_def split_on.simps index_of.simps image_marker_def image_tag_def show_numbers
        upt_rec numeral_2_eq_2)
  with images_are_tagged_in_order[OF a] a show ?thesis by (auto simp: upt_rec numeral_2_eq_2)
qed

end
