(* ===== verification/BpeHeap.thy ===== *)
theory BpeHeap
  imports Main "HOL-Library.Multiset"
begin

text \<open>
  The heap of candidate merges of \<^verbatim>\<open>mlxrunner/tokenizer/tokenizer_bpe.go\<close>: a list in which the
  parent of position \<open>i\<close> is at \<open>(i - 1) div 2\<close>.  It implements a multiset of pairs from which a
  pair of least rank, and of these the leftmost, is taken.
\<close>

section \<open>The heap of the program\<close>

record bpe_pair =
  bp_left :: nat
  bp_right :: nat
  bp_rank :: int
  bp_value :: string

definition pair_less :: "bpe_pair \<Rightarrow> bpe_pair \<Rightarrow> bool" where
  "pair_less p q \<longleftrightarrow> bp_rank p < bp_rank q \<or> (bp_rank p = bp_rank q \<and> bp_left p < bp_left q)"

definition swap_at :: "'a list \<Rightarrow> nat \<Rightarrow> nat \<Rightarrow> 'a list" where
  "swap_at h i j = h[i := h ! j, j := h ! i]"

text \<open>The loop of \<^verbatim>\<open>push\<close>.\<close>

fun sift_up :: "bpe_pair list \<Rightarrow> nat \<Rightarrow> bpe_pair list" where
  "sift_up h i =
     (if 0 < i
      then (let parent = (i - 1) div 2
            in if \<not> pair_less (h ! i) (h ! parent) then h
               else sift_up (swap_at h i parent) parent)
      else h)"

declare sift_up.simps [simp del]

definition heap_push :: "bpe_pair list \<Rightarrow> bpe_pair \<Rightarrow> bpe_pair list" where
  "heap_push h pair = sift_up (h @ [pair]) (length (h @ [pair]) - 1)"

text \<open>The loop of \<^verbatim>\<open>pop\<close>.\<close>

function sift_down :: "bpe_pair list \<Rightarrow> nat \<Rightarrow> bpe_pair list" where
  "sift_down h i =
     (if 2 * i + 1 < length h
      then (let child0 = 2 * i + 1;
                child = (if child0 + 1 < length h \<and> pair_less (h ! (child0 + 1)) (h ! child0) then child0 + 1 else child0)
            in if \<not> pair_less (h ! child) (h ! i) then h
               else sift_down (swap_at h i child) child)
      else h)"
  by pat_completeness auto
termination
  by (relation "measure (\<lambda>(h, i). length h - i)") (auto simp: swap_at_def Let_def split: if_splits)

declare sift_down.simps [simp del]

definition heap_pop :: "bpe_pair list \<Rightarrow> bpe_pair list \<times> bpe_pair" where
  "heap_pop h =
     (let pair = h ! 0; last = length h - 1
      in (sift_down (take last (h[0 := h ! last])) 0, pair))"

section \<open>Heap order\<close>

abbreviation pair_le :: "bpe_pair \<Rightarrow> bpe_pair \<Rightarrow> bool" where
  "pair_le p q \<equiv> \<not> pair_less q p"

lemma pair_le_trans: "pair_le p q \<Longrightarrow> pair_le q r \<Longrightarrow> pair_le p r"
  by (auto simp: pair_less_def)

lemma pair_less_le: "pair_less p q \<Longrightarrow> pair_le p q"
  by (auto simp: pair_less_def)

definition is_heap :: "bpe_pair list \<Rightarrow> bool" where
  "is_heap h \<longleftrightarrow> (\<forall>i < length h. 0 < i \<longrightarrow> pair_le (h ! ((i - 1) div 2)) (h ! i))"

lemma is_heapD: "is_heap h \<Longrightarrow> i < length h \<Longrightarrow> 0 < i \<Longrightarrow> pair_le (h ! ((i - 1) div 2)) (h ! i)"
  by (simp add: is_heap_def)

lemma heap_root_least: "is_heap h \<Longrightarrow> i < length h \<Longrightarrow> pair_le (h ! 0) (h ! i)"
proof (induction i rule: less_induct)
  case (less i)
  show ?case
  proof (cases "i = 0")
    case False
    then have "(i - 1) div 2 < i" by simp
    with less False have "pair_le (h ! 0) (h ! ((i - 1) div 2))" by simp
    with is_heapD[OF less.prems] False show ?thesis using pair_le_trans by blast
  qed (simp add: pair_less_def)
qed

lemma length_swap_at [simp]: "length (swap_at h i j) = length h"
  by (simp add: swap_at_def)

lemma nth_swap_at:
  "i < length h \<Longrightarrow> j < length h \<Longrightarrow> k < length h \<Longrightarrow>
   swap_at h i j ! k = (if k = j then h ! i else if k = i then h ! j else h ! k)"
  by (simp add: swap_at_def nth_list_update)

lemma mset_swap_at [simp]: "i < length h \<Longrightarrow> j < length h \<Longrightarrow> mset (swap_at h i j) = mset h"
  by (simp add: swap_at_def mset_swap)

text \<open>In order but for the pair at \<open>i\<close>, which may be less than its parent, or greater than its children.\<close>

definition heap_but_up :: "bpe_pair list \<Rightarrow> nat \<Rightarrow> bool" where
  "heap_but_up h i \<longleftrightarrow>
     (\<forall>j < length h. 0 < j \<longrightarrow> j \<noteq> i \<longrightarrow> pair_le (h ! ((j - 1) div 2)) (h ! j)) \<and>
     (\<forall>j < length h. 0 < j \<longrightarrow> (j - 1) div 2 = i \<longrightarrow> 0 < i \<longrightarrow> pair_le (h ! ((i - 1) div 2)) (h ! j))"

definition heap_but_down :: "bpe_pair list \<Rightarrow> nat \<Rightarrow> bool" where
  "heap_but_down h i \<longleftrightarrow>
     (\<forall>j < length h. 0 < j \<longrightarrow> (j - 1) div 2 \<noteq> i \<longrightarrow> pair_le (h ! ((j - 1) div 2)) (h ! j)) \<and>
     (\<forall>j < length h. 0 < j \<longrightarrow> (j - 1) div 2 = i \<longrightarrow> 0 < i \<longrightarrow> pair_le (h ! ((i - 1) div 2)) (h ! j))"

lemma sift_up_heap: "i < length h \<Longrightarrow> heap_but_up h i \<Longrightarrow> is_heap (sift_up h i) \<and> mset (sift_up h i) = mset h"
proof (induction h i rule: sift_up.induct)
  case (1 h i)
  define u where "u = (i - 1) div 2"
  consider (root) "i = 0" | (stop) "0 < i" "pair_le (h ! u) (h ! i)" | (go) "0 < i" "pair_less (h ! i) (h ! u)"
    by blast
  then show ?case
  proof cases
    case root
    with 1 show ?thesis by (auto simp: sift_up.simps[of h 0] is_heap_def heap_but_up_def)
  next
    case stop
    then have "sift_up h i = h" by (simp add: sift_up.simps[of h i] u_def)
    moreover have "is_heap h" using stop "1.prems"(2) by (auto simp: is_heap_def heap_but_up_def u_def)
    ultimately show ?thesis by simp
  next
    case go
    let ?h = "swap_at h i u"
    have p: "u < i" "u < length h" using go(1) "1.prems"(1) by (simp_all add: u_def)
    note nth = nth_swap_at[OF "1.prems"(1) p(2)]
    have a: "\<And>j. j < length h \<Longrightarrow> 0 < j \<Longrightarrow> j \<noteq> i \<Longrightarrow> pair_le (h ! ((j - 1) div 2)) (h ! j)"
      and b: "\<And>j. j < length h \<Longrightarrow> 0 < j \<Longrightarrow> (j - 1) div 2 = i \<Longrightarrow> pair_le (h ! u) (h ! j)"
      using "1.prems"(2) go(1) by (simp_all add: heap_but_up_def u_def)
    have lt: "pair_le (h ! i) (h ! u)" using pair_less_le[OF go(2)] .
    have "heap_but_up ?h u"
      unfolding heap_but_up_def length_swap_at
    proof (intro conjI allI impI)
      fix j assume j: "j < length h" "0 < j" "j \<noteq> u"
      have q: "(j - 1) div 2 < length h" using j by linarith
      show "pair_le (?h ! ((j - 1) div 2)) (?h ! j)"
      proof (cases "j = i")
        case True
        have "?h ! ((j - 1) div 2) = h ! i" "?h ! j = h ! u"
          using True p nth[OF "1.prems"(1)] nth[OF p(2)] u_def by simp_all
        then show ?thesis using lt by simp
      next
        case False
        consider "(j - 1) div 2 = u" | "(j - 1) div 2 = i" | "(j - 1) div 2 \<noteq> u" "(j - 1) div 2 \<noteq> i" by blast
        then show ?thesis
        proof cases
          case 1
          with a[OF j(1,2) False] lt have "pair_le (h ! i) (h ! j)" using pair_le_trans by metis
          with 1 j False p show ?thesis by (simp add: nth[OF p(2)] nth[OF j(1)])
        next
          case 2
          with b[OF j(1,2)] j False p show ?thesis by (simp add: nth[OF "1.prems"(1)] nth[OF j(1)])
        next
          case 3
          with a[OF j(1,2) False] j False show ?thesis by (simp add: nth[OF q] nth[OF j(1)] del: One_nat_def)
        qed
      qed
    next
      fix j assume j: "j < length h" "0 < j" "(j - 1) div 2 = u" "0 < u"
      have pp: "(u - 1) div 2 < length h" "(u - 1) div 2 \<noteq> u" "(u - 1) div 2 \<noteq> i" using j(4) p by linarith+
      have up: "pair_le (h ! ((u - 1) div 2)) (h ! u)" using a[OF p(2) j(4)] p(1) by blast
      show "pair_le (?h ! ((u - 1) div 2)) (?h ! j)"
      proof (cases "j = i")
        case True
        then show ?thesis using up pp p "1.prems"(1) by (simp add: nth[OF pp(1)] nth[OF "1.prems"(1)] del: One_nat_def)
      next
        case False
        have "j \<noteq> u" using j(2,3) by linarith
        have "pair_le (h ! ((u - 1) div 2)) (h ! j)" using up a[OF j(1,2) False] pair_le_trans unfolding j(3) by blast
        with False \<open>j \<noteq> u\<close> pp show ?thesis by (simp add: nth[OF pp(1)] nth[OF j(1)] del: One_nat_def)
      qed
    qed
    moreover have "sift_up h i = sift_up ?h u" using go by (simp add: sift_up.simps[of h i] u_def Let_def)
    ultimately show ?thesis using "1.IH"[OF go(1) u_def] go(2) p "1.prems"(1) by simp
  qed
qed

lemma sift_down_heap: "heap_but_down h i \<Longrightarrow> is_heap (sift_down h i) \<and> mset (sift_down h i) = mset h"
proof (induction h i rule: sift_down.induct)
  case (1 h i)
  let ?l = "2 * i + 1"
  define c where "c = (if ?l + 1 < length h \<and> pair_less (h ! (?l + 1)) (h ! ?l) then ?l + 1 else ?l)"
  have child: "(j - 1) div 2 = i \<longleftrightarrow> j = ?l \<or> j = ?l + 1" if "0 < j" for j using that by linarith
  have a: "\<And>j. j < length h \<Longrightarrow> 0 < j \<Longrightarrow> (j - 1) div 2 \<noteq> i \<Longrightarrow> pair_le (h ! ((j - 1) div 2)) (h ! j)"
    and b: "\<And>j. j < length h \<Longrightarrow> 0 < j \<Longrightarrow> (j - 1) div 2 = i \<Longrightarrow> 0 < i \<Longrightarrow> pair_le (h ! ((i - 1) div 2)) (h ! j)"
    using "1.prems" by (simp_all add: heap_but_down_def)
  show ?case
  proof (cases "?l < length h")
    case False
    then have "sift_down h i = h" by (simp add: sift_down.simps[of h i])
    moreover have "is_heap h" unfolding is_heap_def
    proof (intro allI impI)
      fix j assume j: "j < length h" "0 < j"
      with False have "(j - 1) div 2 \<noteq> i" using child[of j] by linarith
      then show "pair_le (h ! ((j - 1) div 2)) (h ! j)" using a j by blast
    qed
    ultimately show ?thesis by simp
  next
    case l: True
    have c: "c < length h" "(c - 1) div 2 = i" "0 < c" "i < c" using l by (auto simp: c_def)
    have least: "pair_le (h ! c) (h ! j)" if jl: "j < length h" "0 < j" "(j - 1) div 2 = i" for j
    proof -
      consider "j = ?l" | "j = ?l + 1" using jl(2,3) child[of j] by blast
      then show ?thesis
      proof cases
        case 1
        then show ?thesis by (auto simp: c_def pair_less_def)
      next
        case 2
        then show ?thesis using jl(1) by (auto simp: c_def pair_less_def)
      qed
    qed
    have eq: "sift_down h i = (if pair_le (h ! i) (h ! c) then h else sift_down (swap_at h i c) c)"
      using l by (simp add: sift_down.simps[of h i] c_def Let_def)
    show ?thesis
    proof (cases "pair_le (h ! i) (h ! c)")
      case True
      have "is_heap h" unfolding is_heap_def
      proof (intro allI impI)
        fix j assume j: "j < length h" "0 < j"
        show "pair_le (h ! ((j - 1) div 2)) (h ! j)"
          by (cases "(j - 1) div 2 = i") (use a[OF j] least[OF j] True pair_le_trans in \<open>auto\<close>)
      qed
      with True show ?thesis by (simp add: eq)
    next
      case go: False
      let ?h = "swap_at h i c"
      have i: "i < length h" using c by simp
      note nth = nth_swap_at[OF i c(1)]
      have lt: "pair_le (h ! c) (h ! i)" using go pair_less_le by blast
      have "heap_but_down ?h c" unfolding heap_but_down_def length_swap_at
      proof (intro conjI allI impI)
        fix j assume j: "j < length h" "0 < j" "(j - 1) div 2 \<noteq> c"
        have q: "(j - 1) div 2 < length h" using j by linarith
        consider (below) "(j - 1) div 2 = i" | (at) "j = i" "(j - 1) div 2 \<noteq> i" | (off) "(j - 1) div 2 \<noteq> i" "j \<noteq> i"
          by blast
        then show "pair_le (?h ! ((j - 1) div 2)) (?h ! j)"
        proof cases
          case below
          have "j \<noteq> i" using below j(2) by linarith
          with below lt least[OF j(1,2) below] c show ?thesis by (simp add: nth[OF i] nth[OF j(1)] del: One_nat_def)
        next
          case at
          have "(i - 1) div 2 < length h" using i by linarith
          with b[OF c(1,3,2)] j c(4) at show ?thesis by (simp add: nth[OF i] nth[OF \<open>(i - 1) div 2 < length h\<close>] del: One_nat_def)
        next
          case off
          with c(2) have "j \<noteq> c" by blast
          with a[OF j(1,2) off(1)] off j(3) show ?thesis by (simp add: nth[OF q] nth[OF j(1)] del: One_nat_def)
        qed
      next
        fix j assume j: "j < length h" "0 < j" "(j - 1) div 2 = c" "0 < c"
        have "j \<noteq> c" "j \<noteq> i" using j c(4) by linarith+
        moreover have "pair_le (h ! c) (h ! j)" using a[OF j(1,2)] j(3) c(4) by simp
        ultimately show "pair_le (?h ! ((c - 1) div 2)) (?h ! j)" using c(2,4) by (simp add: nth[OF i] nth[OF j(1)])
      qed
      with "1.IH"[OF l refl c_def] go eq i c(1) show ?thesis by simp
    qed
  qed
qed

section \<open>The contract of the heap\<close>

text \<open>
  What the merge loop needs of a queue of candidates: it holds what was pushed, and a pop takes
  one out that none precedes.
\<close>

locale candidate_queue =
  fixes less :: "'p \<Rightarrow> 'p \<Rightarrow> bool"
    and push :: "'q \<Rightarrow> 'p \<Rightarrow> 'q"
    and pop :: "'q \<Rightarrow> 'q \<times> 'p"
    and valid :: "'q \<Rightarrow> bool"
    and elems :: "'q \<Rightarrow> 'p multiset"
  assumes push_valid: "valid q \<Longrightarrow> valid (push q p)"
    and push_elems: "valid q \<Longrightarrow> elems (push q p) = add_mset p (elems q)"
    and pop_valid: "valid q \<Longrightarrow> elems q \<noteq> {#} \<Longrightarrow> valid (fst (pop q))"
    and pop_elems: "valid q \<Longrightarrow> elems q \<noteq> {#} \<Longrightarrow> elems q = add_mset (snd (pop q)) (elems (fst (pop q)))"
    and pop_least: "valid q \<Longrightarrow> elems q \<noteq> {#} \<Longrightarrow> p \<in># elems q \<Longrightarrow> \<not> less p (snd (pop q))"
begin

text \<open>Pushing the candidate of a place, if it has one.\<close>

definition push_option :: "'p option \<Rightarrow> 'q \<Rightarrow> 'q" where
  "push_option c q = (case c of None \<Rightarrow> q | Some p \<Rightarrow> push q p)"

lemma push_option_valid: "valid q \<Longrightarrow> valid (push_option c q)"
  by (simp add: push_option_def push_valid split: option.splits)

lemma push_option_members: "valid q \<Longrightarrow> p \<in># elems (push_option c q) \<longleftrightarrow> c = Some p \<or> p \<in># elems q"
  by (auto simp: push_option_def push_elems split: option.splits)

lemma pop_cases:
  assumes "valid q" and "elems q \<noteq> {#}"
  obtains q' p where "pop q = (q', p)" "valid q'" "elems q = add_mset p (elems q')" "\<And>r. r \<in># elems q \<Longrightarrow> \<not> less r p"
proof -
  obtain q' p where r: "pop q = (q', p)" by fastforce
  show ?thesis
    using that[OF r] pop_valid[OF assms] pop_elems[OF assms] pop_least[OF assms] unfolding r by simp
qed

end

lemma heap_push_correct: "is_heap h \<Longrightarrow> is_heap (heap_push h p) \<and> mset (heap_push h p) = add_mset p (mset h)"
proof -
  assume h: "is_heap h"
  have "heap_but_up (h @ [p]) (length h)"
    unfolding heap_but_up_def
  proof (intro conjI allI impI)
    fix j assume j: "j < length (h @ [p])" "0 < j" "j \<noteq> length h"
    then have "j < length h" by simp
    moreover from this have "(j - 1) div 2 < length h" by linarith
    ultimately show "pair_le ((h @ [p]) ! ((j - 1) div 2)) ((h @ [p]) ! j)" using is_heapD[OF h] j(2) by (simp add: nth_append)
  next
    fix j assume "j < length (h @ [p])" "0 < j" "(j - 1) div 2 = length h"
    then have False by (cases h) auto
    then show "pair_le ((h @ [p]) ! ((length h - 1) div 2)) ((h @ [p]) ! j)" ..
  qed
  with sift_up_heap[of "length h" "h @ [p]"] show ?thesis by (simp add: heap_push_def)
qed

lemma heap_pop_correct:
  assumes "is_heap h" and "h \<noteq> []"
  shows "is_heap (fst (heap_pop h))" and "mset h = add_mset (snd (heap_pop h)) (mset (fst (heap_pop h)))"
    and "p \<in> set h \<Longrightarrow> pair_le (snd (heap_pop h)) p"
proof -
  let ?r = "take (length h - 1) (h[0 := h ! (length h - 1)])"
  have nth: "?r ! j = h ! j" if "0 < j" "j < length h - 1" for j using that by simp
  have "heap_but_down ?r 0" unfolding heap_but_down_def
  proof (intro conjI allI impI)
    fix j assume j: "j < length ?r" "0 < j" "(j - 1) div 2 \<noteq> 0"
    then have k: "j < length h - 1" by simp
    then have "0 < (j - 1) div 2" "(j - 1) div 2 < length h - 1" using j(3) by linarith+
    with is_heapD[OF assms(1), of j] j(2) k show "pair_le (?r ! ((j - 1) div 2)) (?r ! j)" by (simp only: nth) simp
  qed simp
  note s = sift_down_heap[OF this]
  show "is_heap (fst (heap_pop h))" using s by (simp add: heap_pop_def Let_def)
  have "mset h = add_mset (h ! 0) (mset ?r)"
  proof (cases h rule: rev_cases)
    case (snoc ys y)
    then show ?thesis by (cases ys) (simp_all add: nth_append)
  qed (use assms in simp)
  then show "mset h = add_mset (snd (heap_pop h)) (mset (fst (heap_pop h)))" using s by (simp add: heap_pop_def Let_def)
  show "pair_le (snd (heap_pop h)) p" if "p \<in> set h"
    using heap_root_least[OF assms(1)] that by (auto simp: heap_pop_def Let_def in_set_conv_nth)
qed

interpretation bpe_heap: candidate_queue pair_less heap_push heap_pop is_heap mset
proof unfold_locales
  show "is_heap h \<Longrightarrow> is_heap (heap_push h p)" "is_heap h \<Longrightarrow> mset (heap_push h p) = add_mset p (mset h)" for h p
    using heap_push_correct by blast+
  fix h assume h: "is_heap h" "mset h \<noteq> {#}"
  then have "h \<noteq> []" by simp
  note c = heap_pop_correct[OF h(1) this]
  show "is_heap (fst (heap_pop h))" "mset h = add_mset (snd (heap_pop h)) (mset (fst (heap_pop h)))" by (fact c(1), fact c(2))
  show "\<not> pair_less p (snd (heap_pop h))" if "p \<in># mset h" for p using c(3) that by simp
qed

end
