(* ===== verification/BpeMerge.thy ===== *)
theory BpeMerge
  imports BpeHeap GoRunes
begin

text \<open>
  \<^verbatim>\<open>mlxrunner/tokenizer/tokenizer_bpe.go\<close>: a text is cut into runes, and neighbours are merged
  as the ranks of the vocabulary say.  The program keeps a doubly linked list in an array and a
  heap of candidates that may be out of date; the result is shown to be that of the plain
  algorithm, which merges a pair of lowest rank, the leftmost of these, until none is left.
\<close>

section \<open>The vocabulary\<close>

record vocabulary =
  v_Values :: "string list"
  v_Reverse :: "string \<Rightarrow> int option"
  v_Merges :: "string \<Rightarrow> int option"
  v_BOS :: int
  v_EOS :: "int list"
  v_PAD :: int
  v_AddBOS :: bool
  v_AddEOS :: bool
  v_byteTokens :: "int list"

datatype tokenizer_type = TokenizerBPE | TokenizerSentencePiece

section \<open>Merging\<close>

record bpe_node =
  n_start :: nat
  n_prev :: int
  n_next :: nat
  n_token :: string

text \<open>One node for each rune.\<close>

function bpe_nodes :: "string \<Rightarrow> nat \<Rightarrow> nat \<Rightarrow> bpe_node list" where
  "bpe_nodes s offset i =
     (if s = [] then []
      else \<lparr>n_start = offset, n_prev = int i - 1, n_next = i + 1, n_token = take (rune_len (fst (decode_rune s))) s\<rparr>
        # bpe_nodes (drop (snd (decode_rune s)) s) (offset + snd (decode_rune s)) (i + 1))"
  by pat_completeness auto
termination
  by (relation "measure (\<lambda>(s, _, _). length s)") auto

declare bpe_nodes.simps [simp del]

text \<open>The candidate of two nodes, if the vocabulary merges them.\<close>

definition pairwise :: "vocabulary \<Rightarrow> string \<Rightarrow> bpe_node list \<Rightarrow> int \<Rightarrow> nat \<Rightarrow> bpe_pair option" where
  "pairwise v encoded nodes left right =
     (if left < 0 \<or> length nodes \<le> right then None
      else
        (let l = nodes ! nat left; r = nodes ! right
         in if n_token l = [] \<or> n_token r = [] then None
            else (case v_Merges v (n_token l @ '' '' @ n_token r) of
                    None \<Rightarrow> None
                  | Some rank \<Rightarrow>
                      (let val = take (n_start r + length (n_token r) - n_start l) (drop (n_start l) encoded)
                       in if v_Reverse v val = None then None
                          else Some \<lparr>bp_left = nat left, bp_right = right, bp_rank = rank, bp_value = val\<rparr>))))"

definition push_pair :: "bpe_pair option \<Rightarrow> bpe_pair list \<Rightarrow> bpe_pair list" where
  "push_pair c pairs = (case c of None \<Rightarrow> pairs | Some pair \<Rightarrow> heap_push pairs pair)"

definition first_pairs :: "vocabulary \<Rightarrow> string \<Rightarrow> bpe_node list \<Rightarrow> bpe_pair list" where
  "first_pairs v encoded nodes =
     foldl (\<lambda>pairs i. push_pair (pairwise v encoded nodes (int i) (i + 1)) pairs) [] [0..<length nodes - 1]"

text \<open>The nodes of a candidate become one.\<close>

definition merge_nodes :: "bpe_pair \<Rightarrow> bpe_node list \<Rightarrow> bpe_node list" where
  "merge_nodes pair nodes =
     (let l = bp_left pair; r = bp_right pair; right = nodes ! r;
          nodes1 = nodes[l := (nodes ! l)\<lparr>n_token := bp_value pair\<rparr>];
          nodes2 = nodes1[r := (nodes1 ! r)\<lparr>n_token := []\<rparr>];
          nodes3 = nodes2[l := (nodes2 ! l)\<lparr>n_next := n_next right\<rparr>]
      in if n_next right < length nodes3
         then nodes3[n_next right := (nodes3 ! n_next right)\<lparr>n_prev := int l\<rparr>]
         else nodes3)"

definition live_count :: "bpe_node list \<Rightarrow> nat" where
  "live_count nodes = length (filter (\<lambda>s. s \<noteq> []) (map n_token nodes))"

lemma live_count_simps [simp]:
  "live_count [] = 0" "live_count (n # nodes) = (if n_token n = [] then 0 else 1) + live_count nodes"
  by (simp_all add: live_count_def)

lemma live_count_update:
  "i < length nodes \<Longrightarrow> live_count (nodes[i := n]) + (if n_token (nodes ! i) = [] then 0 else 1) =
    live_count nodes + (if n_token n = [] then 0 else 1)"
proof (induction nodes arbitrary: i)
  case (Cons m nodes)
  then show ?case by (cases i) auto
qed simp

lemma live_count_merge:
  assumes "bp_left p < length nodes" and "bp_right p < length nodes" and "n_token (nodes ! bp_left p) \<noteq> []"
    and "n_token (nodes ! bp_right p) \<noteq> []"
  shows "live_count (merge_nodes p nodes) < live_count nodes"
proof -
  let ?l = "bp_left p" and ?r = "bp_right p"
  let ?n1 = "nodes[?l := (nodes ! ?l)\<lparr>n_token := bp_value p\<rparr>]"
  let ?n2 = "?n1[?r := (?n1 ! ?r)\<lparr>n_token := []\<rparr>]"
  let ?n3 = "?n2[?l := (?n2 ! ?l)\<lparr>n_next := n_next (nodes ! ?r)\<rparr>]"
  have 1: "live_count ?n1 \<le> live_count nodes" "?l = ?r \<or> n_token (?n1 ! ?r) \<noteq> []"
    using live_count_update[OF assms(1), of "(nodes ! ?l)\<lparr>n_token := bp_value p\<rparr>"] assms by (auto split: if_splits)
  have 2: "live_count ?n2 < live_count nodes"
  proof (cases "?l = ?r")
    case True
    then have "?n2 = nodes[?l := (nodes ! ?l)\<lparr>n_token := []\<rparr>]" using assms by simp
    then show ?thesis using live_count_update[OF assms(1), of "(nodes ! ?l)\<lparr>n_token := []\<rparr>"] assms(3) by simp
  next
    case False
    have "?r < length ?n1" using assms by simp
    from live_count_update[OF this, of "(?n1 ! ?r)\<lparr>n_token := []\<rparr>"] 1 False show ?thesis by (simp split: if_splits)
  qed
  have 3: "live_count ?n3 = live_count ?n2"
    using live_count_update[of ?l ?n2 "(?n2 ! ?l)\<lparr>n_next := n_next (nodes ! ?r)\<rparr>"] assms(1) by (simp split: if_splits)
  have "live_count (?n3[j := (?n3 ! j)\<lparr>n_prev := int ?l\<rparr>]) = live_count ?n3" if "j < length ?n3" for j
    using live_count_update[OF that, of "(?n3 ! j)\<lparr>n_prev := int ?l\<rparr>"] by (simp split: if_splits)
  with 2 3 show ?thesis by (simp add: merge_nodes_def Let_def)
qed

lemma length_sift_down [simp]: "length (sift_down h i) = length h"
proof (induction h i rule: sift_down.induct)
  case (1 h i)
  define child where "child = (if 2 * i + 1 + 1 < length h \<and> pair_less (h ! (2 * i + 1 + 1)) (h ! (2 * i + 1)) then 2 * i + 1 + 1 else 2 * i + 1)"
  have "sift_down h i = (if 2 * i + 1 < length h \<and> pair_less (h ! child) (h ! i) then sift_down (swap_at h i child) child else h)"
    unfolding child_def by (simp add: sift_down.simps[of h i] Let_def)
  with "1.IH"[OF _ refl child_def] show ?case by simp
qed

lemma heap_pop_length: "pairs \<noteq> [] \<Longrightarrow> (pairs1, pair) = heap_pop pairs \<Longrightarrow> length pairs1 < length pairs"
  by (auto simp: heap_pop_def Let_def)

text \<open>
  The loop: candidates that no longer hold are dropped, others are merged and the two new
  neighbourhoods are looked at.  A candidate out of bounds would be a panic.
\<close>

function bpe_loop :: "vocabulary \<Rightarrow> string \<Rightarrow> bpe_node list \<Rightarrow> bpe_pair list \<Rightarrow> bpe_node list option" where
  "bpe_loop v encoded nodes pairs =
     (if pairs = [] then Some nodes
      else
        (let (pairs1, pair) = heap_pop pairs
         in if length nodes \<le> bp_left pair \<or> length nodes \<le> bp_right pair then None
            else
              (let left = nodes ! bp_left pair; right = nodes ! bp_right pair
               in if n_token left = [] \<or> n_token right = [] then bpe_loop v encoded nodes pairs1
                  else if n_next left \<noteq> bp_right pair \<or> n_prev right \<noteq> int (bp_left pair) then bpe_loop v encoded nodes pairs1
                  else if n_token left @ n_token right \<noteq> bp_value pair then bpe_loop v encoded nodes pairs1
                  else
                    (let nodes' = merge_nodes pair nodes; l = bp_left pair;
                         pairs2 = push_pair (pairwise v encoded nodes' (n_prev (nodes' ! l)) l) pairs1;
                         pairs3 = push_pair (pairwise v encoded nodes' (int l) (n_next (nodes' ! l))) pairs2
                     in bpe_loop v encoded nodes' pairs3))))"
  by pat_completeness auto

termination
proof (relation "measures [\<lambda>(_, _, nodes, _). live_count nodes, \<lambda>(_, _, _, pairs). length pairs]", goal_cases)
  case 1
  show ?case by simp
qed (auto simp: not_le intro!: live_count_merge intro: heap_pop_length)

declare bpe_loop.simps [simp del]

section \<open>Tokens\<close>

definition decodeByteLevelRune :: "nat \<Rightarrow> nat option" where
  "decodeByteLevelRune r =
     (if r \<le> 0xFF then Some r
      else if r = 0x0100 then Some 0
      else if r = 0x0143 then Some 0xAD
      else if 0x0100 < r \<and> r \<le> 0x0120 then Some (r - 0x0100)
      else if 0x0120 < r \<and> r \<le> 0x0142 then Some (r - 0x00A2)
      else None)"

definition appendByteFallback :: "tokenizer_type \<Rightarrow> vocabulary \<Rightarrow> int list \<Rightarrow> string \<Rightarrow> int list" where
  "appendByteFallback typ v ids token =
     ids @ filter (\<lambda>tid. 0 \<le> tid)
       (case typ of
          TokenizerBPE \<Rightarrow> map ((!) (v_byteTokens v)) (List.map_filter decodeByteLevelRune (runes_of token))
        | TokenizerSentencePiece \<Rightarrow> map (\<lambda>b. v_byteTokens v ! byte_val b) token)"

fun node_ids :: "tokenizer_type \<Rightarrow> vocabulary \<Rightarrow> int list \<Rightarrow> string list \<Rightarrow> int list" where
  "node_ids typ v ids [] = ids"
| "node_ids typ v ids (token # tokens) =
     (if token = [] then node_ids typ v ids tokens
      else (case v_Reverse v token of
              Some tid \<Rightarrow> node_ids typ v (ids @ [tid]) tokens
            | None \<Rightarrow> node_ids typ v (appendByteFallback typ v ids token) tokens))"

definition repair_utf8 :: "string \<Rightarrow> string" where
  "repair_utf8 s = (if valid_utf8 s then s else concat (map encode_rune (runes_of s)))"

definition encodeBPEMerge :: "tokenizer_type \<Rightarrow> vocabulary \<Rightarrow> string \<Rightarrow> int list \<Rightarrow> int list option" where
  "encodeBPEMerge typ v s ids =
     (if s = [] then Some ids
      else
        (let encoded = repair_utf8 s; nodes = bpe_nodes encoded 0 0
         in case bpe_loop v encoded nodes (first_pairs v encoded nodes) of
              None \<Rightarrow> None
            | Some nodes' \<Rightarrow> Some (node_ids typ v ids (map n_token nodes'))))"


section \<open>The plain algorithm\<close>

text \<open>The rank at which the vocabulary merges two tokens into one.\<close>

definition merge_rank :: "vocabulary \<Rightarrow> string \<Rightarrow> string \<Rightarrow> int option" where
  "merge_rank v a b =
     (case v_Merges v (a @ '' '' @ b) of
        None \<Rightarrow> None
      | Some rank \<Rightarrow> if v_Reverse v (a @ b) = None then None else Some rank)"

text \<open>The leftmost pair of lowest rank: its rank and position.\<close>

fun best_merge :: "vocabulary \<Rightarrow> nat \<Rightarrow> string list \<Rightarrow> (int \<times> nat) option" where
  "best_merge v k (a # b # ts) =
     (case merge_rank v a b of
        None \<Rightarrow> best_merge v (Suc k) (b # ts)
      | Some rank \<Rightarrow>
          (case best_merge v (Suc k) (b # ts) of
             Some (rank', j) \<Rightarrow> if rank' < rank then Some (rank', j) else Some (rank, k)
           | None \<Rightarrow> Some (rank, k)))"
| "best_merge v k ts = None"

definition merge_at :: "nat \<Rightarrow> 'a list list \<Rightarrow> 'a list list" where
  "merge_at k ts = take k ts @ (ts ! k @ ts ! Suc k) # drop (Suc (Suc k)) ts"

lemma best_merge_None: "best_merge v k ts = None \<longleftrightarrow> (\<forall>j. Suc j < length ts \<longrightarrow> merge_rank v (ts ! j) (ts ! Suc j) = None)"
proof (induction v k ts rule: best_merge.induct)
  case (1 v k a b ts)
  have "(\<forall>j. Suc j < length (a # b # ts) \<longrightarrow> merge_rank v ((a # b # ts) ! j) ((a # b # ts) ! Suc j) = None) \<longleftrightarrow>
    merge_rank v a b = None \<and> (\<forall>j. Suc j < length (b # ts) \<longrightarrow> merge_rank v ((b # ts) ! j) ((b # ts) ! Suc j) = None)"
    (is "?all \<longleftrightarrow> ?first \<and> ?rest")
  proof (intro iffI conjI allI impI)
    assume ?all
    from this[rule_format, of 0] show ?first by simp
    fix j assume "Suc j < length (b # ts)"
    with \<open>?all\<close>[rule_format, of "Suc j"] show "merge_rank v ((b # ts) ! j) ((b # ts) ! Suc j) = None" by simp
  next
    fix j assume "?first \<and> ?rest" "Suc j < length (a # b # ts)"
    then show "merge_rank v ((a # b # ts) ! j) ((a # b # ts) ! Suc j) = None" by (cases j) auto
  qed
  with 1 show ?case by (auto split: option.splits if_splits)
qed auto

lemma best_merge_Some:
  "best_merge v k ts = Some (rank, j) \<Longrightarrow>
   k \<le> j \<and> Suc (j - k) < length ts \<and> merge_rank v (ts ! (j - k)) (ts ! Suc (j - k)) = Some rank \<and>
   (\<forall>i r. Suc i < length ts \<longrightarrow> merge_rank v (ts ! i) (ts ! Suc i) = Some r \<longrightarrow> rank < r \<or> rank = r \<and> j - k \<le> i)"
proof (induction v k ts arbitrary: rank j rule: best_merge.induct)
  case (1 v k a b ts)
  show ?case
  proof (cases "best_merge v (Suc k) (b # ts)")
    case None
    then have n: "\<forall>i. Suc i < length (b # ts) \<longrightarrow> merge_rank v ((b # ts) ! i) ((b # ts) ! Suc i) = None"
      by (simp only: best_merge_None)
    from None "1.prems" have m: "merge_rank v a b = Some rank" "j = k" by (auto split: option.splits)
    moreover have "rank < r \<or> rank = r \<and> 0 \<le> i"
      if "Suc i < length (a # b # ts)" "merge_rank v ((a # b # ts) ! i) ((a # b # ts) ! Suc i) = Some r" for i r
      using that n m by (cases i) auto
    ultimately show ?thesis by auto
  next
    case (Some p)
    obtain rank' j' where p: "best_merge v (Suc k) (b # ts) = Some (rank', j')" using Some by (cases p) auto
    have ih: "Suc k \<le> j' \<and> Suc (j' - Suc k) < length (b # ts) \<and>
        merge_rank v ((b # ts) ! (j' - Suc k)) ((b # ts) ! Suc (j' - Suc k)) = Some rank' \<and>
        (\<forall>i r. Suc i < length (b # ts) \<longrightarrow> merge_rank v ((b # ts) ! i) ((b # ts) ! Suc i) = Some r \<longrightarrow>
          rank' < r \<or> rank' = r \<and> j' - Suc k \<le> i)"
      using "1.IH" p by (cases "merge_rank v a b") auto
    have s: "j' - k = Suc (j' - Suc k)" using conjunct1[OF ih] by linarith
    show ?thesis
    proof (cases "\<exists>r0. merge_rank v a b = Some r0 \<and> r0 \<le> rank'")
      case True
      then obtain r0 where r0: "merge_rank v a b = Some r0" "r0 \<le> rank'" by blast
      with p "1.prems" have "rank = r0" "j = k" by auto
      moreover have "r0 < r \<or> r0 = r \<and> 0 \<le> i"
        if "Suc i < length (a # b # ts)" "merge_rank v ((a # b # ts) ! i) ((a # b # ts) ! Suc i) = Some r" for i r
      proof (cases i)
        case (Suc i')
        then have "Suc i' < length (b # ts)" "merge_rank v ((b # ts) ! i') ((b # ts) ! Suc i') = Some r" using that by simp_all
        with ih have "rank' < r \<or> rank' = r" by blast
        with r0(2) show ?thesis by auto
      qed (use that r0 in auto)
      ultimately show ?thesis using r0(1) by auto
    next
      case False
      with p "1.prems" have e: "rank = rank'" "j = j'" by (auto split: option.splits if_splits)
      have "rank' < r \<or> rank' = r \<and> j' - k \<le> i"
        if "Suc i < length (a # b # ts)" "merge_rank v ((a # b # ts) ! i) ((a # b # ts) ! Suc i) = Some r" for i r
      proof (cases i)
        case 0
        with that(2) False show ?thesis by auto
      next
        case (Suc i')
        then have "Suc i' < length (b # ts)" "merge_rank v ((b # ts) ! i') ((b # ts) ! Suc i') = Some r" using that by simp_all
        with ih have "rank' < r \<or> rank' = r \<and> j' - Suc k \<le> i'" by blast
        with Suc s show ?thesis by simp
      qed
      with e ih s show ?thesis by auto
    qed
  qed
qed auto

lemma length_merge_at: "Suc k < length ts \<Longrightarrow> Suc (length (merge_at k ts)) = length ts"
  by (simp add: merge_at_def)

function bpe_reference :: "vocabulary \<Rightarrow> string list \<Rightarrow> string list" where
  "bpe_reference v ts =
     (case best_merge v 0 ts of
        None \<Rightarrow> ts
      | Some (_, k) \<Rightarrow> bpe_reference v (merge_at k ts))"
  by pat_completeness auto
termination
  by (relation "measure (\<lambda>(_, ts). length ts)") (auto dest!: best_merge_Some length_merge_at)

declare bpe_reference.simps [simp del]

lemma concat_merge_at: "Suc k < length ts \<Longrightarrow> concat (merge_at k ts) = concat ts"
proof -
  assume k: "Suc k < length ts"
  have "ts = take k ts @ ts ! k # ts ! Suc k # drop (Suc (Suc k)) ts"
    using k by (metis Cons_nth_drop_Suc Suc_lessD append_take_drop_id)
  then have "concat ts = concat (take k ts @ ts ! k # ts ! Suc k # drop (Suc (Suc k)) ts)" by (rule arg_cong)
  then show ?thesis by (simp add: merge_at_def)
qed

end
