(* ===== verification/BpeCorrect.thy ===== *)
theory BpeCorrect
  imports BpeMerge
begin

text \<open>
  The merge loop of \<open>BpeMerge\<close> computes what the plain algorithm does: the linked list holds the
  tokens of the plain algorithm, and the heap every pair that can be merged, among pairs that are
  out of date.
\<close>

section \<open>The tokens of the linked list\<close>

definition live :: "bpe_node list \<Rightarrow> nat list" where
  "live nodes = filter (\<lambda>i. n_token (nodes ! i) \<noteq> []) [0..<length nodes]"

definition tokens_of :: "bpe_node list \<Rightarrow> string list" where
  "tokens_of nodes = map (\<lambda>i. n_token (nodes ! i)) (live nodes)"

definition linked :: "bpe_node list \<Rightarrow> bool" where
  "linked nodes \<longleftrightarrow>
     (\<forall>k < length (live nodes).
        (let n = nodes ! (live nodes ! k)
         in n_next n = (if Suc k < length (live nodes) then live nodes ! Suc k else length nodes) \<and>
            n_prev n = (if k = 0 then -1 else int (live nodes ! (k - 1))) \<and>
            n_start n = length (concat (take k (tokens_of nodes)))))"

lemma tokens_of_filter: "tokens_of nodes = filter (\<lambda>s. s \<noteq> []) (map n_token nodes)"
proof -
  have "map n_token nodes = map (\<lambda>i. n_token (nodes ! i)) [0..<length nodes]"
    by (rule nth_equalityI) simp_all
  then show ?thesis by (simp add: tokens_of_def live_def filter_map comp_def)
qed

lemma length_tokens_of [simp]: "length (tokens_of nodes) = length (live nodes)"
  by (simp add: tokens_of_def)

lemma nth_tokens_of: "k < length (live nodes) \<Longrightarrow> tokens_of nodes ! k = n_token (nodes ! (live nodes ! k))"
  by (simp add: tokens_of_def)

lemma live_nth: "k < length (live nodes) \<Longrightarrow> live nodes ! k < length nodes \<and> n_token (nodes ! (live nodes ! k)) \<noteq> []"
  using nth_mem[of k "live nodes"] by (simp add: live_def)

lemma live_less: "j < k \<Longrightarrow> k < length (live nodes) \<Longrightarrow> live nodes ! j < live nodes ! k"
  using sorted_wrt_nth_less[of "(<)" "live nodes" j k] by (simp add: live_def sorted_wrt_filter)

lemma live_inj: "j < length (live nodes) \<Longrightarrow> k < length (live nodes) \<Longrightarrow> live nodes ! j = live nodes ! k \<longleftrightarrow> j = k"
  using live_less[of j k nodes] live_less[of k j nodes] by (cases j k rule: linorder_cases) auto

lemma live_index:
  assumes "i < length nodes" and "n_token (nodes ! i) \<noteq> []"
  obtains k where "k < length (live nodes)" "live nodes ! k = i"
proof -
  have "i \<in> set (live nodes)" using assms by (simp add: live_def)
  with that show ?thesis by (auto simp: in_set_conv_nth)
qed

lemma linkedD:
  assumes "linked nodes" and "k < length (live nodes)"
  shows "n_next (nodes ! (live nodes ! k)) = (if Suc k < length (live nodes) then live nodes ! Suc k else length nodes)"
    and "n_prev (nodes ! (live nodes ! k)) = (if k = 0 then -1 else int (live nodes ! (k - 1)))"
    and "n_start (nodes ! (live nodes ! k)) = length (concat (take k (tokens_of nodes)))"
  using assms by (simp_all add: linked_def Let_def)

lemma node_start_step:
  assumes "linked nodes" and "Suc k < length (live nodes)"
  shows "n_start (nodes ! (live nodes ! Suc k)) = n_start (nodes ! (live nodes ! k)) + length (tokens_of nodes ! k)"
  using assms by (simp add: linkedD(3) take_Suc_conv_app_nth)

section \<open>Candidates\<close>

abbreviation candidate_at :: "bpe_node list \<Rightarrow> nat \<Rightarrow> int \<Rightarrow> bpe_pair" where
  "candidate_at nodes k rank \<equiv>
     \<lparr>bp_left = live nodes ! k, bp_right = live nodes ! Suc k, bp_rank = rank,
      bp_value = tokens_of nodes ! k @ tokens_of nodes ! Suc k\<rparr>"

lemma pairwise_live:
  assumes "linked nodes" and "concat (tokens_of nodes) = encoded" and "Suc k < length (live nodes)"
  shows "pairwise v encoded nodes (int (live nodes ! k)) (live nodes ! Suc k) =
    map_option (candidate_at nodes k) (merge_rank v (tokens_of nodes ! k) (tokens_of nodes ! Suc k))"
proof -
  let ?l = "live nodes ! k" and ?r = "live nodes ! Suc k" and ?ts = "tokens_of nodes"
  note l = live_nth[of k nodes] and r = live_nth[OF assms(3)]
  have t: "n_token (nodes ! ?l) = ?ts ! k" "n_token (nodes ! ?r) = ?ts ! Suc k" using assms(3) by (simp_all add: nth_tokens_of)
  have s: "n_start (nodes ! ?l) = length (concat (take k ?ts))" "n_start (nodes ! ?r) = length (concat (take k ?ts)) + length (?ts ! k)"
    using linkedD(3)[OF assms(1), of k] node_start_step[OF assms(1,3)] assms(3) by simp_all
  have "?ts = take k ?ts @ ?ts ! k # ?ts ! Suc k # drop (Suc (Suc k)) ?ts"
    using assms(3) by (metis Cons_nth_drop_Suc Suc_lessD append_take_drop_id length_tokens_of)
  then have "concat ?ts = concat (take k ?ts @ ?ts ! k # ?ts ! Suc k # drop (Suc (Suc k)) ?ts)" by (rule arg_cong)
  then have e: "encoded = concat (take k ?ts) @ (?ts ! k @ ?ts ! Suc k) @ concat (drop (Suc (Suc k)) ?ts)"
    using assms(2) by simp
  have "take (n_start (nodes ! ?r) + length (?ts ! Suc k) - n_start (nodes ! ?l)) (drop (n_start (nodes ! ?l)) encoded) =
      ?ts ! k @ ?ts ! Suc k"
    unfolding s by (subst e) simp
  moreover have "?ts ! k \<noteq> []" "?ts ! Suc k \<noteq> []" using l r assms(3) t by auto
  ultimately show ?thesis
    using r by (auto simp: pairwise_def Let_def t merge_rank_def split: option.splits)
qed

text \<open>
  A pair in the heap: it was a candidate of two tokens when it was pushed; these still are the
  tokens there when it is not out of date, since the places where tokens start do not change.
\<close>

definition pair_ok :: "vocabulary \<Rightarrow> bpe_node list \<Rightarrow> bpe_pair \<Rightarrow> bool" where
  "pair_ok v nodes p \<longleftrightarrow>
     bp_left p < bp_right p \<and> bp_right p < length nodes \<and>
     (\<exists>a b. bp_value p = a @ b \<and> n_start (nodes ! bp_right p) = n_start (nodes ! bp_left p) + length a \<and>
        merge_rank v a b = Some (bp_rank p))"

definition current :: "bpe_node list \<Rightarrow> bpe_pair \<Rightarrow> bool" where
  "current nodes p \<longleftrightarrow>
     n_token (nodes ! bp_left p) \<noteq> [] \<and> n_token (nodes ! bp_right p) \<noteq> [] \<and>
     n_next (nodes ! bp_left p) = bp_right p \<and> n_prev (nodes ! bp_right p) = int (bp_left p) \<and>
     n_token (nodes ! bp_left p) @ n_token (nodes ! bp_right p) = bp_value p"

lemma candidate_ok:
  assumes "linked nodes" and "Suc k < length (live nodes)" and "merge_rank v (tokens_of nodes ! k) (tokens_of nodes ! Suc k) = Some rank"
  shows "pair_ok v nodes (candidate_at nodes k rank)" and "current nodes (candidate_at nodes k rank)"
proof -
  note l = live_nth[of k nodes] and r = live_nth[OF assms(2)]
  show "pair_ok v nodes (candidate_at nodes k rank)"
    using assms node_start_step[OF assms(1,2)] live_less[OF lessI assms(2)] r unfolding pair_ok_def by auto
  show "current nodes (candidate_at nodes k rank)"
    using assms(2) l r linkedD(1)[OF assms(1), of k] linkedD(2)[OF assms(1,2)] by (simp add: current_def nth_tokens_of)
qed

lemma current_candidate:
  assumes "linked nodes" and "pair_ok v nodes p" and "current nodes p"
  obtains k where "Suc k < length (live nodes)" "p = candidate_at nodes k (bp_rank p)"
    "merge_rank v (tokens_of nodes ! k) (tokens_of nodes ! Suc k) = Some (bp_rank p)"
proof -
  have b: "bp_left p < length nodes" "bp_right p < length nodes" using assms(2) by (auto simp: pair_ok_def)
  obtain k where k: "k < length (live nodes)" "live nodes ! k = bp_left p"
    using live_index[OF b(1)] assms(3) by (auto simp: current_def)
  have n: "n_next (nodes ! (live nodes ! k)) = bp_right p" using assms(3) k by (simp add: current_def)
  then have s: "Suc k < length (live nodes)" "live nodes ! Suc k = bp_right p"
    using linkedD(1)[OF assms(1) k(1)] b(2) by (auto split: if_splits)
  have t: "n_token (nodes ! bp_left p) = tokens_of nodes ! k" "n_token (nodes ! bp_right p) = tokens_of nodes ! Suc k"
    using k s by (simp_all add: nth_tokens_of)
  obtain a c where ac: "bp_value p = a @ c" "n_start (nodes ! bp_right p) = n_start (nodes ! bp_left p) + length a"
    "merge_rank v a c = Some (bp_rank p)"
    using assms(2) by (auto simp: pair_ok_def)
  have "length a = length (tokens_of nodes ! k)" using node_start_step[OF assms(1) s(1)] ac(2) k(2) s(2) by simp
  moreover have "a @ c = tokens_of nodes ! k @ tokens_of nodes ! Suc k" using assms(3) t ac(1) by (simp add: current_def)
  ultimately have "a = tokens_of nodes ! k" "c = tokens_of nodes ! Suc k" by simp_all
  with that[OF s(1)] ac k s show ?thesis by simp
qed


section \<open>One merge\<close>

lemma filter_except_nth:
  "distinct xs \<Longrightarrow> k < length xs \<Longrightarrow> filter (\<lambda>x. x \<noteq> xs ! k) xs = take k xs @ drop (Suc k) xs"
proof (induction xs arbitrary: k)
  case (Cons x xs)
  show ?case
  proof (cases k)
    case 0
    with Cons.prems show ?thesis by (auto intro!: filter_True)
  next
    case (Suc j)
    with Cons show ?thesis by auto
  qed
qed simp

lemma length_merge_nodes [simp]: "length (merge_nodes p nodes) = length nodes"
  by (simp add: merge_nodes_def Let_def)

lemma merge_nodes_nth:
  assumes "linked nodes" and "Suc k < length (live nodes)" and "p = candidate_at nodes k rank" and "i < length nodes"
  shows "merge_nodes p nodes ! i =
    (if i = bp_left p then (nodes ! i)\<lparr>n_token := bp_value p, n_next := n_next (nodes ! bp_right p)\<rparr>
     else if i = bp_right p then (nodes ! i)\<lparr>n_token := []\<rparr>
     else if i = n_next (nodes ! bp_right p) then (nodes ! i)\<lparr>n_prev := int (bp_left p)\<rparr>
     else nodes ! i)"
proof -
  let ?l = "live nodes ! k" and ?r = "live nodes ! Suc k" and ?n = "n_next (nodes ! (live nodes ! Suc k))"
  have lr: "?l < ?r" "?r < length nodes" using live_less[OF lessI assms(2)] live_nth[OF assms(2)] by simp_all
  have "?r < ?n"
    using linkedD(1)[OF assms(1,2)] live_less[of "Suc k" "Suc (Suc k)" nodes] lr(2) by (auto split: if_splits)
  with lr assms(3,4) show ?thesis
    by (cases "?n < length nodes") (auto simp: merge_nodes_def Let_def nth_list_update)
qed

lemma live_merge_nodes:
  assumes "linked nodes" and "Suc k < length (live nodes)" and "p = candidate_at nodes k rank"
  shows "live (merge_nodes p nodes) = take (Suc k) (live nodes) @ drop (Suc (Suc k)) (live nodes)"
proof -
  have l: "n_token (nodes ! (live nodes ! k)) \<noteq> []" using live_nth[of k nodes] assms(2) by simp
  have "live (merge_nodes p nodes) = filter (\<lambda>i. n_token (nodes ! i) \<noteq> [] \<and> i \<noteq> live nodes ! Suc k) [0..<length nodes]"
    unfolding live_def[of "merge_nodes p nodes"] length_merge_nodes
  proof (rule filter_cong[OF refl])
    fix i assume "i \<in> set [0..<length nodes]"
    then have i: "i < length nodes" by simp
    have "bp_left p = live nodes ! k" "bp_right p = live nodes ! Suc k" "bp_value p \<noteq> []"
      using l assms(2,3) by (simp_all add: nth_tokens_of)
    with l show "n_token (merge_nodes p nodes ! i) \<noteq> [] \<longleftrightarrow> n_token (nodes ! i) \<noteq> [] \<and> i \<noteq> live nodes ! Suc k"
      using live_less[OF lessI assms(2)] live_nth[OF assms(2)] by (auto simp: merge_nodes_nth[OF assms i])
  qed
  also have "\<dots> = filter (\<lambda>i. i \<noteq> live nodes ! Suc k) (live nodes)" by (simp add: live_def conj_commute)
  also have "\<dots> = take (Suc k) (live nodes) @ drop (Suc (Suc k)) (live nodes)"
    by (rule filter_except_nth[OF _ assms(2)]) (simp add: live_def)
  finally show ?thesis .
qed

lemma nth_live_merge:
  assumes "linked nodes" and "Suc k < length (live nodes)" and "p = candidate_at nodes k rank" and "Suc j < length (live nodes)"
  shows "live (merge_nodes p nodes) ! j = (if j \<le> k then live nodes ! j else live nodes ! Suc j)"
  using assms(2,4) by (simp add: live_merge_nodes[OF assms(1-3)] nth_append min_def)

lemma length_live_merge:
  assumes "linked nodes" and "Suc k < length (live nodes)" and "p = candidate_at nodes k rank"
  shows "Suc (length (live (merge_nodes p nodes))) = length (live nodes)"
  using assms(2) by (simp add: live_merge_nodes[OF assms])

lemma tokens_merge_nodes:
  assumes "linked nodes" and "Suc k < length (live nodes)" and "p = candidate_at nodes k rank"
  shows "tokens_of (merge_nodes p nodes) = merge_at k (tokens_of nodes)"
proof (rule nth_equalityI)
  show "length (tokens_of (merge_nodes p nodes)) = length (merge_at k (tokens_of nodes))"
    using length_live_merge[OF assms] length_merge_at[of k "tokens_of nodes"] assms(2) by simp
  fix j assume "j < length (tokens_of (merge_nodes p nodes))"
  then have j: "j < length (live (merge_nodes p nodes))" "Suc j < length (live nodes)" using length_live_merge[OF assms] by simp_all
  let ?i = "if j \<le> k then j else Suc j"
  have i: "?i < length (live nodes)" "?i \<noteq> Suc k" using j(2) by simp_all
  have "tokens_of (merge_nodes p nodes) ! j = n_token (merge_nodes p nodes ! (live nodes ! ?i))"
    using j by (simp add: nth_tokens_of nth_live_merge[OF assms])
  also have "\<dots> = (if ?i = k then bp_value p else tokens_of nodes ! ?i)"
    using live_nth[OF i(1)] live_inj[OF i(1), of k] live_inj[OF i(1) assms(2)] i assms(2)
    by (simp only: merge_nodes_nth[OF assms]) (auto simp: assms(3) nth_tokens_of)
  also have "\<dots> = merge_at k (tokens_of nodes) ! j"
    using j(2) assms(2) by (auto simp: merge_at_def nth_append assms(3) nth_Cons' min_def)
  finally show "tokens_of (merge_nodes p nodes) ! j = merge_at k (tokens_of nodes) ! j" .
qed

lemma start_merge_nodes:
  assumes "linked nodes" and "Suc k < length (live nodes)" and "p = candidate_at nodes k rank" and "i < length nodes"
  shows "n_start (merge_nodes p nodes ! i) = n_start (nodes ! i)"
  by (simp add: merge_nodes_nth[OF assms])

lemma concat_take_merge_at:
  assumes "Suc k < length ts"
  shows "concat (take j (merge_at k ts)) = concat (take (if j \<le> k then j else Suc j) ts)"
proof (cases "j \<le> k")
  case True
  then show ?thesis using assms by (simp add: merge_at_def min_def)
next
  case False
  have "take (Suc j) ts = take k ts @ ts ! k # ts ! Suc k # take (j - Suc k) (drop (Suc (Suc k)) ts)"
  proof -
    have "ts = take k ts @ ts ! k # ts ! Suc k # drop (Suc (Suc k)) ts"
      using assms by (metis Cons_nth_drop_Suc Suc_lessD append_take_drop_id)
    then have "take (Suc j) ts = take (Suc j) (take k ts @ ts ! k # ts ! Suc k # drop (Suc (Suc k)) ts)" by (rule arg_cong)
    also have "\<dots> = take k ts @ ts ! k # ts ! Suc k # take (j - Suc k) (drop (Suc (Suc k)) ts)"
      using False assms by (simp add: take_Cons' Suc_diff_le)
    finally show ?thesis .
  qed
  moreover have "take j (merge_at k ts) = take k ts @ (ts ! k @ ts ! Suc k) # take (j - Suc k) (drop (Suc (Suc k)) ts)"
    using False assms by (simp add: merge_at_def take_Cons')
  ultimately show ?thesis using False by simp
qed

lemma linked_merge_nodes:
  assumes "linked nodes" and "Suc k < length (live nodes)" and "p = candidate_at nodes k rank"
  shows "linked (merge_nodes p nodes)"
  unfolding linked_def
proof (intro allI impI)
  fix j assume j0: "j < length (live (merge_nodes p nodes))"
  let ?L = "live nodes" and ?i = "if j \<le> k then j else Suc j"
  have j: "Suc j < length ?L" using j0 length_live_merge[OF assms] by simp
  have i: "?i < length ?L" "?i \<noteq> Suc k" using j by simp_all
  have at: "live (merge_nodes p nodes) ! j = ?L ! ?i" using nth_live_merge[OF assms j] by simp
  have nx: "n_next (nodes ! (?L ! Suc k)) = (if Suc (Suc k) < length ?L then ?L ! Suc (Suc k) else length nodes)"
    using linkedD(1)[OF assms(1,2)] .
  have node: "merge_nodes p nodes ! (?L ! ?i) =
      (if ?i = k then (nodes ! (?L ! ?i))\<lparr>n_token := bp_value p, n_next := n_next (nodes ! (?L ! Suc k))\<rparr>
       else if ?i = Suc (Suc k) then (nodes ! (?L ! ?i))\<lparr>n_prev := int (?L ! k)\<rparr> else nodes ! (?L ! ?i))"
  proof -
    have "?L ! ?i = n_next (nodes ! (?L ! Suc k)) \<longleftrightarrow> ?i = Suc (Suc k)"
      using nx i(1) live_nth[OF i(1)] live_inj[OF i(1), of "Suc (Suc k)"] by (auto split: if_splits)
    moreover have "bp_left p = ?L ! k" "bp_right p = ?L ! Suc k" using assms(3) by simp_all
    moreover have "?L ! ?i = ?L ! k \<longleftrightarrow> ?i = k" "?L ! ?i \<noteq> ?L ! Suc k"
      using live_inj[OF i(1), of k] live_inj[OF i(1) assms(2)] i(2) assms(2) by simp_all
    ultimately show ?thesis using merge_nodes_nth[OF assms conjunct1[OF live_nth[OF i(1)]]] by metis
  qed
  have next': "n_next (merge_nodes p nodes ! (?L ! ?i)) =
      (if Suc j < length (live (merge_nodes p nodes)) then live (merge_nodes p nodes) ! Suc j else length nodes)"
  proof -
    have "n_next (merge_nodes p nodes ! (?L ! ?i)) = n_next (nodes ! (?L ! (if ?i = k then Suc k else ?i)))"
      using node i by auto
    also have "\<dots> = (if Suc (Suc j) < length ?L then ?L ! (if Suc j \<le> k then Suc j else Suc (Suc j)) else length nodes)"
      using linkedD(1)[OF assms(1), of "if ?i = k then Suc k else ?i"] i assms(2) by (auto split: if_splits)
    finally show ?thesis using nth_live_merge[OF assms, of "Suc j"] length_live_merge[OF assms] by auto
  qed
  have prev': "n_prev (merge_nodes p nodes ! (?L ! ?i)) = (if j = 0 then -1 else int (live (merge_nodes p nodes) ! (j - 1)))"
  proof -
    have "n_prev (merge_nodes p nodes ! (?L ! ?i)) = (if ?i = Suc (Suc k) then int (?L ! k) else n_prev (nodes ! (?L ! ?i)))"
      using node by auto
    also have "\<dots> = (if j = 0 then -1 else int (?L ! (if j - 1 \<le> k then j - 1 else j)))"
      using linkedD(2)[OF assms(1) i(1)] i(2) by (auto split: if_splits)
    finally show ?thesis using nth_live_merge[OF assms, of "j - 1"] j by auto
  qed
  have start': "n_start (merge_nodes p nodes ! (?L ! ?i)) = length (concat (take j (tokens_of (merge_nodes p nodes))))"
    using linkedD(3)[OF assms(1) i(1)] start_merge_nodes[OF assms] live_nth[OF i(1)] concat_take_merge_at[of k "tokens_of nodes" j] assms(2)
    by (simp add: tokens_merge_nodes[OF assms])
  show "let n = merge_nodes p nodes ! (live (merge_nodes p nodes) ! j)
        in n_next n = (if Suc j < length (live (merge_nodes p nodes)) then live (merge_nodes p nodes) ! Suc j else length (merge_nodes p nodes)) \<and>
           n_prev n = (if j = 0 then -1 else int (live (merge_nodes p nodes) ! (j - 1))) \<and>
           n_start n = length (concat (take j (tokens_of (merge_nodes p nodes))))"
    unfolding Let_def at length_merge_nodes using next' prev' start' by blast
qed


section \<open>The loop\<close>

definition loop_inv :: "vocabulary \<Rightarrow> string \<Rightarrow> bpe_node list \<Rightarrow> bpe_pair list \<Rightarrow> bool" where
  "loop_inv v encoded nodes pairs \<longleftrightarrow>
     linked nodes \<and> concat (tokens_of nodes) = encoded \<and> is_heap pairs \<and> (\<forall>p \<in> set pairs. pair_ok v nodes p) \<and>
     (\<forall>k rank. Suc k < length (live nodes) \<longrightarrow> merge_rank v (tokens_of nodes ! k) (tokens_of nodes ! Suc k) = Some rank \<longrightarrow>
        candidate_at nodes k rank \<in> set pairs)"

lemma push_pair_option: "push_pair c pairs = bpe_heap.push_option c pairs"
  by (simp add: push_pair_def bpe_heap.push_option_def)

lemmas push_pair_heap = bpe_heap.push_option_valid[folded push_pair_option]
lemmas push_pair_set = bpe_heap.push_option_members[folded push_pair_option, unfolded set_mset_mset]

lemma pair_ok_merge:
  assumes "linked nodes" and "Suc k < length (live nodes)" and "p = candidate_at nodes k rank" and "pair_ok v nodes q"
  shows "pair_ok v (merge_nodes p nodes) q"
  using assms(4) unfolding pair_ok_def length_merge_nodes by (auto simp: start_merge_nodes[OF assms(1-3)])

text \<open>After a merge the two neighbourhoods of the new token are looked at; all other candidates are in the heap.\<close>

lemma loop_inv_merge:
  assumes inv: "loop_inv v encoded nodes pairs" and k: "Suc k < length (live nodes)" and p: "p = candidate_at nodes k rank"
    and heap: "is_heap pairs1" and sub: "mset pairs = add_mset p (mset pairs1)"
  defines "nodes' \<equiv> merge_nodes p nodes" and "l \<equiv> bp_left p"
  shows "loop_inv v encoded nodes'
    (push_pair (pairwise v encoded nodes' (int l) (n_next (nodes' ! l)))
      (push_pair (pairwise v encoded nodes' (n_prev (nodes' ! l)) l) pairs1))"
proof -
  have lk: "linked nodes" and cc: "concat (tokens_of nodes) = encoded"
    and ok: "\<And>q. q \<in> set pairs \<Longrightarrow> pair_ok v nodes q"
    and cov: "\<And>j r. Suc j < length (live nodes) \<Longrightarrow> merge_rank v (tokens_of nodes ! j) (tokens_of nodes ! Suc j) = Some r \<Longrightarrow>
        candidate_at nodes j r \<in> set pairs"
    using inv by (auto simp: loop_inv_def)
  note m = lk k p
  have lk': "linked nodes'" unfolding nodes'_def by (rule linked_merge_nodes[OF m])
  have cc': "concat (tokens_of nodes') = encoded"
    using cc concat_merge_at[of k "tokens_of nodes"] k by (simp add: nodes'_def tokens_merge_nodes[OF m])
  have len: "Suc (length (live nodes')) = length (live nodes)" unfolding nodes'_def by (rule length_live_merge[OF m])
  have at: "live nodes' ! j = (if j \<le> k then live nodes ! j else live nodes ! Suc j)" if "j < length (live nodes')" for j
    unfolding nodes'_def using nth_live_merge[OF m, of j] that len by simp
  have lk0: "live nodes' ! k = l" and kk: "k < length (live nodes')" using at[of k] k len by (simp_all add: l_def p)
  let ?prev = "pairwise v encoded nodes' (n_prev (nodes' ! l)) l" and ?next = "pairwise v encoded nodes' (int l) (n_next (nodes' ! l))"
  have prev: "?prev = (if k = 0 then None else map_option (candidate_at nodes' (k - 1)) (merge_rank v (tokens_of nodes' ! (k - 1)) (tokens_of nodes' ! k)))"
  proof (cases "k = 0")
    case True
    then show ?thesis using linkedD(2)[OF lk' kk] lk0 by (simp add: pairwise_def)
  next
    case False
    then show ?thesis
      using linkedD(2)[OF lk' kk] lk0 kk pairwise_live[OF lk' cc', of "k - 1" v] by simp
  qed
  have "next": "?next = (if Suc k < length (live nodes') then map_option (candidate_at nodes' k) (merge_rank v (tokens_of nodes' ! k) (tokens_of nodes' ! Suc k)) else None)"
  proof (cases "Suc k < length (live nodes')")
    case True
    then show ?thesis using linkedD(1)[OF lk' kk] lk0 pairwise_live[OF lk' cc' True, of v] by simp
  next
    case False
    then show ?thesis using linkedD(1)[OF lk' kk] lk0 by (simp add: pairwise_def nodes'_def)
  qed
  let ?pairs = "push_pair ?next (push_pair ?prev pairs1)"
  have mem: "q \<in> set ?pairs \<longleftrightarrow> ?next = Some q \<or> ?prev = Some q \<or> q \<in> set pairs1" for q
    using heap by (simp add: push_pair_set push_pair_heap)
  have set1: "set pairs = insert p (set pairs1)" using sub by (metis set_mset_add_mset_insert set_mset_mset)
  have "pair_ok v nodes' q" if "q \<in> set ?pairs" for q
  proof -
    consider "?next = Some q" | "?prev = Some q" | "q \<in> set pairs1" using \<open>q \<in> set ?pairs\<close> mem by blast
    then show ?thesis
    proof cases
      case 1
      then show ?thesis using candidate_ok(1)[OF lk', of k v] by (auto simp: "next" split: if_splits)
    next
      case 2
      then show ?thesis using candidate_ok(1)[OF lk', of "k - 1" v] kk by (auto simp: prev split: if_splits)
    next
      case 3
      then show ?thesis using pair_ok_merge[OF m ok] set1 unfolding nodes'_def by blast
    qed
  qed
  moreover have "candidate_at nodes' j r \<in> set ?pairs"
    if j: "Suc j < length (live nodes')" and r: "merge_rank v (tokens_of nodes' ! j) (tokens_of nodes' ! Suc j) = Some r" for j r
  proof -
    consider (next_) "j = k" | (prev_) "Suc j = k" | (old) "j \<noteq> k" "Suc j \<noteq> k" by blast
    then show ?thesis
    proof cases
      case next_
      then show ?thesis using j r mem "next" by simp
    next
      case prev_
      then show ?thesis using r mem prev by auto
    next
      case old
      let ?i = "if j \<le> k then j else Suc j"
      have i: "Suc ?i < length (live nodes)" "?i \<noteq> k" "?i \<noteq> Suc k" "Suc ?i \<noteq> k" using j old len by auto
      have l1: "live nodes' ! j = live nodes ! ?i" "live nodes' ! Suc j = live nodes ! Suc ?i"
        using at[of j] at[of "Suc j"] j old by auto
      have t1: "tokens_of nodes' ! j = tokens_of nodes ! ?i" "tokens_of nodes' ! Suc j = tokens_of nodes ! Suc ?i"
        using i k old by (auto simp: nodes'_def tokens_merge_nodes[OF m] merge_at_def nth_append nth_Cons' min_def)
      have "candidate_at nodes ?i r \<in> set pairs" using cov[OF i(1)] r t1 by simp
      moreover have "candidate_at nodes ?i r \<noteq> p" using live_inj[of ?i nodes k] i k by (auto simp: p)
      ultimately show ?thesis using mem set1 l1 t1 by simp
    qed
  qed
  ultimately show ?thesis using lk' cc' heap by (simp add: loop_inv_def push_pair_heap)
qed


lemma loop_inv_drop:
  assumes "loop_inv v encoded nodes pairs" and "is_heap pairs1" and "mset pairs = add_mset p (mset pairs1)" and "\<not> current nodes p"
  shows "loop_inv v encoded nodes pairs1"
proof -
  have set1: "set pairs = insert p (set pairs1)" using assms(3) by (metis set_mset_add_mset_insert set_mset_mset)
  have "candidate_at nodes k rank \<in> set pairs1"
    if "Suc k < length (live nodes)" "merge_rank v (tokens_of nodes ! k) (tokens_of nodes ! Suc k) = Some rank" for k rank
  proof -
    have "candidate_at nodes k rank \<in> set pairs" using assms(1) that by (simp add: loop_inv_def)
    moreover have "candidate_at nodes k rank \<noteq> p" using candidate_ok(2)[OF _ that] assms(1,4) by (auto simp: loop_inv_def)
    ultimately show ?thesis using set1 by blast
  qed
  with assms(1,2) set1 show ?thesis by (simp add: loop_inv_def)
qed

text \<open>A candidate that is not out of date when it is taken is the one the plain algorithm merges.\<close>

lemma least_is_best:
  assumes inv: "loop_inv v encoded nodes pairs" and k: "Suc k < length (live nodes)" and p: "p = candidate_at nodes k (bp_rank p)"
    and rank: "merge_rank v (tokens_of nodes ! k) (tokens_of nodes ! Suc k) = Some (bp_rank p)"
    and least: "\<And>q. q \<in> set pairs \<Longrightarrow> pair_le p q"
  shows "best_merge v 0 (tokens_of nodes) = Some (bp_rank p, k)"
proof -
  let ?ts = "tokens_of nodes"
  obtain r j where b: "best_merge v 0 ?ts = Some (r, j)"
    using best_merge_None[of v 0 ?ts] k rank by (cases "best_merge v 0 ?ts") auto
  note s = best_merge_Some[OF b]
  then have j: "Suc j < length (live nodes)" "merge_rank v (?ts ! j) (?ts ! Suc j) = Some r" by simp_all
  then have "candidate_at nodes j r \<in> set pairs" using inv by (simp add: loop_inv_def)
  from least[OF this] have "bp_rank p < r \<or> bp_rank p = r \<and> bp_left p \<le> live nodes ! j" by (auto simp: pair_less_def)
  moreover have "r < bp_rank p \<or> r = bp_rank p \<and> j \<le> k" using s k rank by (metis diff_zero length_tokens_of)
  ultimately have "r = bp_rank p" "j \<le> k" "bp_left p \<le> live nodes ! j" by auto
  moreover have "bp_left p = live nodes ! k" using p by (metis bpe_pair.select_convs(1))
  ultimately have "j = k" using live_less[of j k nodes] k by (cases "j = k") auto
  with b \<open>r = bp_rank p\<close> show ?thesis by simp
qed

lemma bpe_loop_reference:
  "loop_inv v encoded nodes pairs \<Longrightarrow>
   \<exists>nodes'. bpe_loop v encoded nodes pairs = Some nodes' \<and> tokens_of nodes' = bpe_reference v (tokens_of nodes)"
proof (induction v encoded nodes pairs rule: bpe_loop.induct)
  case (1 v encoded nodes pairs)
  note inv = "1.prems"
  show ?case
  proof (cases "pairs = []")
    case True
    have "best_merge v 0 (tokens_of nodes) = None"
      unfolding best_merge_None using inv True by (fastforce simp: loop_inv_def)
    with True show ?thesis by (simp add: bpe_loop.simps[of v encoded nodes] bpe_reference.simps[of v "tokens_of nodes"])
  next
    case False
    have "is_heap pairs" "mset pairs \<noteq> {#}" using inv False by (simp_all add: loop_inv_def)
    then obtain pairs1 p where pop: "heap_pop pairs = (pairs1, p)" and h: "is_heap pairs1" "mset pairs = add_mset p (mset pairs1)"
      and least: "\<And>q. q \<in># mset pairs \<Longrightarrow> pair_le p q"
      using bpe_heap.pop_cases by metis
    have "p \<in> set pairs" using h(2) by (metis set_mset_mset union_single_eq_member)
    then have ok: "pair_ok v nodes p" and lk: "linked nodes" using inv by (simp_all add: loop_inv_def)
    then have b: "\<not> (length nodes \<le> bp_left p \<or> length nodes \<le> bp_right p)" by (auto simp: pair_ok_def)
    note ih = "1.IH"[OF False pop[symmetric] refl b refl refl]
    show ?thesis
    proof (cases "current nodes p")
      case cur: False
      note drop = loop_inv_drop[OF inv h cur]
      have "bpe_loop v encoded nodes pairs = bpe_loop v encoded nodes pairs1"
        using False pop b cur by (auto simp: bpe_loop.simps[of v encoded nodes pairs] current_def Let_def)
      with ih(1-3) drop cur show ?thesis unfolding current_def by metis
    next
      case cur: True
      obtain k where k: "Suc k < length (live nodes)" and p: "p = candidate_at nodes k (bp_rank p)"
        and rank: "merge_rank v (tokens_of nodes ! k) (tokens_of nodes ! Suc k) = Some (bp_rank p)"
        using current_candidate[OF lk ok cur] by metis
      let ?nodes = "merge_nodes p nodes"
      let ?pairs = "push_pair (pairwise v encoded ?nodes (int (bp_left p)) (n_next (?nodes ! bp_left p)))
        (push_pair (pairwise v encoded ?nodes (n_prev (?nodes ! bp_left p)) (bp_left p)) pairs1)"
      have best: "best_merge v 0 (tokens_of nodes) = Some (bp_rank p, k)"
        using least_is_best[OF inv k p rank] least by simp
      have "bpe_loop v encoded nodes pairs = bpe_loop v encoded ?nodes ?pairs"
        using False pop b cur by (simp add: bpe_loop.simps[of v encoded nodes pairs] current_def Let_def)
      moreover have "\<exists>nodes'. bpe_loop v encoded ?nodes ?pairs = Some nodes' \<and> tokens_of nodes' = bpe_reference v (tokens_of ?nodes)"
        using ih(4) cur loop_inv_merge[OF inv k p h] by (simp add: current_def)
      moreover have "bpe_reference v (tokens_of ?nodes) = bpe_reference v (tokens_of nodes)"
        using best by (simp add: tokens_merge_nodes[OF lk k p] bpe_reference.simps[of v "tokens_of nodes"])
      ultimately show ?thesis by metis
    qed
  qed
qed

section \<open>The start\<close>

lemma length_bpe_nodes: "length (bpe_nodes s offset i) = length (explode_runes s)"
  by (induction s offset i rule: bpe_nodes.induct) (simp add: bpe_nodes.simps[of _ _ _] explode_runes.simps)

lemma bpe_nodes_nth:
  "valid_utf8 s \<Longrightarrow> k < length (explode_runes s) \<Longrightarrow>
   bpe_nodes s offset i ! k =
     \<lparr>n_start = offset + length (concat (take k (explode_runes s))), n_prev = int (i + k) - 1, n_next = i + k + 1,
      n_token = explode_runes s ! k\<rparr>"
proof (induction s offset i arbitrary: k rule: bpe_nodes.induct)
  case (1 s offset i)
  show ?case
  proof (cases "s = []")
    case True
    with "1.prems" show ?thesis by (simp add: explode_runes.simps)
  next
    case False
    let ?w = "snd (decode_rune s)"
    note v = valid_utf8D[OF "1.prems"(1) False]
    then have w: "rune_len (fst (decode_rune s)) = ?w" using decode_rune_valid(2)[of s "fst (decode_rune s)" ?w] False by simp
    have le: "?w \<le> length s" using decode_rune_width[OF False] by (metis prod.collapse)
    have e: "explode_runes s = take ?w s # explode_runes (drop ?w s)" using False by (subst explode_runes.simps) simp
    have n: "bpe_nodes s offset i = \<lparr>n_start = offset, n_prev = int i - 1, n_next = i + 1, n_token = take ?w s\<rparr>
        # bpe_nodes (drop ?w s) (offset + ?w) (i + 1)"
      using False w by (subst bpe_nodes.simps) simp
    show ?thesis
    proof (cases k)
      case 0
      then show ?thesis by (simp add: n e)
    next
      case (Suc j)
      with "1.IH"[OF False, of j] v "1.prems"(2) le show ?thesis by (simp add: n e)
    qed
  qed
qed

lemma explode_runes_Nil [simp]: "explode_runes [] = []"
  by (subst explode_runes.simps) simp

lemma explode_runes_Cons:
  "s \<noteq> [] \<Longrightarrow> explode_runes s = take (snd (decode_rune s)) s # explode_runes (drop (snd (decode_rune s)) s)"
  by (subst explode_runes.simps) simp

lemma explode_runes_nonempty: "x \<in> set (explode_runes s) \<Longrightarrow> x \<noteq> []"
proof (induction s rule: explode_runes.induct)
  case (1 s)
  show ?case
  proof (cases "s = []")
    case False
    then have "take (snd (decode_rune s)) s \<noteq> []" using decode_rune_width_pos[OF False] by simp
    moreover have "x = take (snd (decode_rune s)) s \<or> x \<in> set (explode_runes (drop (snd (decode_rune s)) s))"
      using "1.prems" unfolding explode_runes_Cons[OF False] by simp
    ultimately show ?thesis using "1.IH"[OF False] by metis
  qed (use "1.prems" in simp)
qed

lemma concat_explode_runes: "concat (explode_runes s) = s"
proof (induction s rule: explode_runes.induct)
  case (1 s)
  show ?case
  proof (cases "s = []")
    case False
    with "1.IH"[OF False] show ?thesis by (simp add: explode_runes_Cons)
  qed simp
qed

lemma start_nodes:
  assumes "valid_utf8 s"
  shows "live (bpe_nodes s 0 0) = [0..<length (explode_runes s)]" and "tokens_of (bpe_nodes s 0 0) = explode_runes s"
    and "linked (bpe_nodes s 0 0)"
proof -
  let ?n = "bpe_nodes s 0 0" and ?ts = "explode_runes s"
  have tok: "n_token (?n ! i) = ?ts ! i" if "i < length ?ts" for i using bpe_nodes_nth[OF assms that] by simp
  have "?ts ! i \<noteq> []" if "i < length ?ts" for i using explode_runes_nonempty[OF nth_mem[OF that]] .
  then show live: "live ?n = [0..<length ?ts]"
    unfolding live_def length_bpe_nodes using tok by (intro filter_True) simp
  show toks: "tokens_of ?n = ?ts"
    unfolding tokens_of_def live by (rule nth_equalityI) (simp_all add: tok)
  show "linked ?n"
    unfolding linked_def live toks Let_def using bpe_nodes_nth[OF assms] by (auto simp: length_bpe_nodes not_less le_Suc_eq)
qed

lemma first_pairs_fold:
  "is_heap pairs \<Longrightarrow>
   is_heap (foldl (\<lambda>pairs i. push_pair (f i) pairs) pairs is) \<and>
   set (foldl (\<lambda>pairs i. push_pair (f i) pairs) pairs is) = set pairs \<union> {p. \<exists>i \<in> set is. f i = Some p}"
  by (induction "is" arbitrary: pairs) (auto simp: push_pair_heap push_pair_set)

lemma start_inv:
  assumes "valid_utf8 s"
  shows "loop_inv v s (bpe_nodes s 0 0) (first_pairs v s (bpe_nodes s 0 0))"
proof -
  let ?n = "bpe_nodes s 0 0" and ?ts = "explode_runes s"
  note st = start_nodes[OF assms]
  have cc: "concat (tokens_of ?n) = s" by (simp add: st concat_explode_runes)
  have pw: "pairwise v s ?n (int i) (i + 1) = map_option (candidate_at ?n i) (merge_rank v (tokens_of ?n ! i) (tokens_of ?n ! Suc i))"
    if "i < length ?ts - 1" for i
    using pairwise_live[OF st(3) cc, of i v] that by (simp add: st(1))
  have h: "is_heap []" by (simp add: is_heap_def)
  have f: "is_heap (first_pairs v s ?n)" "set (first_pairs v s ?n) = {p. \<exists>i < length ?ts - 1. pairwise v s ?n (int i) (i + 1) = Some p}"
    using first_pairs_fold[OF h, of "\<lambda>i. pairwise v s ?n (int i) (i + 1)" "[0..<length ?n - 1]"]
    by (auto simp: first_pairs_def length_bpe_nodes)
  have "pair_ok v ?n p" if "p \<in> set (first_pairs v s ?n)" for p
  proof -
    from \<open>p \<in> set (first_pairs v s ?n)\<close> obtain i where i: "i < length ?ts - 1" "pairwise v s ?n (int i) (i + 1) = Some p"
      unfolding f(2) by blast
    then obtain rank where "merge_rank v (tokens_of ?n ! i) (tokens_of ?n ! Suc i) = Some rank" "p = candidate_at ?n i rank"
      unfolding pw[OF i(1)] by auto
    with i(1) candidate_ok(1)[OF st(3), of i v rank] show ?thesis by (simp add: st(1))
  qed
  moreover have "candidate_at ?n k rank \<in> set (first_pairs v s ?n)"
    if "Suc k < length (live ?n)" "merge_rank v (tokens_of ?n ! k) (tokens_of ?n ! Suc k) = Some rank" for k rank
  proof -
    have k: "k < length ?ts - 1" using that(1) by (simp add: st(1))
    then have "pairwise v s ?n (int k) (k + 1) = Some (candidate_at ?n k rank)" using pw[OF k] that(2) by simp
    with k show ?thesis unfolding f(2) by blast
  qed
  ultimately show ?thesis using cc st(3) f(1) by (simp add: loop_inv_def)
qed

section \<open>Tokens\<close>

definition token_ids :: "tokenizer_type \<Rightarrow> vocabulary \<Rightarrow> string \<Rightarrow> int list" where
  "token_ids typ v token = (case v_Reverse v token of Some tid \<Rightarrow> [tid] | None \<Rightarrow> appendByteFallback typ v [] token)"

lemma node_ids_tokens: "node_ids typ v ids tokens = ids @ concat (map (token_ids typ v) (filter (\<lambda>s. s \<noteq> []) tokens))"
  by (induction tokens arbitrary: ids)
    (auto simp: token_ids_def appendByteFallback_def split: option.splits)

lemma repair_valid: "valid_utf8 (repair_utf8 s)"
  using valid_utf8_encode[of "runes_of s"] runes_of_valid by (auto simp: repair_utf8_def)

lemma encodeBPEMerge_reference:
  "encodeBPEMerge typ v s ids =
     Some (ids @ concat (map (token_ids typ v) (bpe_reference v (explode_runes (repair_utf8 s)))))"
proof (cases "s = []")
  case True
  have "best_merge v 0 [] = None" by simp
  with True show ?thesis by (simp add: encodeBPEMerge_def repair_utf8_def explode_runes.simps bpe_reference.simps)
next
  case False
  let ?e = "repair_utf8 s"
  obtain nodes' where "bpe_loop v ?e (bpe_nodes ?e 0 0) (first_pairs v ?e (bpe_nodes ?e 0 0)) = Some nodes'"
    "tokens_of nodes' = bpe_reference v (explode_runes ?e)"
    using bpe_loop_reference[OF start_inv[OF repair_valid]] start_nodes(2)[OF repair_valid] by metis
  with False show ?thesis
    by (simp add: encodeBPEMerge_def Let_def node_ids_tokens tokens_of_filter)
qed

text \<open>
  C5.  The tokens of a text are those of the plain algorithm: starting from the runes of the text, a
  pair of neighbours of the lowest rank, the leftmost of these, is merged until the vocabulary
  merges no two neighbours.  The heap and the linked list never run out of bounds.
\<close>
theorem bpe_merge_is_lowest_rank_first:
  "encodeBPEMerge typ v s ids =
     Some (ids @ concat (map (token_ids typ v) (bpe_reference v (explode_runes (repair_utf8 s)))))"
  by (rule encodeBPEMerge_reference)

end
