(* ===== verification/AddedTokens.thy ===== *)
theory AddedTokens
  imports GoStrings "HOL-Library.AList"
begin

text \<open>
  \<^verbatim>\<open>mlxrunner/tokenizer/tokenizer_added.go\<close>: the byte trie of added tokens.  It splits a text as the
  plain search does that tries every token at every position and takes the longest.
\<close>

section \<open>The trie\<close>

datatype matcher = Matcher (m_children: "(char \<times> matcher) list") (m_token: string)

definition empty_matcher :: matcher where
  "empty_matcher = Matcher [] []"

fun add_path :: "string \<Rightarrow> string \<Rightarrow> matcher \<Rightarrow> matcher" where
  "add_path [] token m = Matcher (m_children m) (if m_token m = [] then token else m_token m)"
| "add_path (c # cs) token m =
     Matcher
       (AList.update c (add_path cs token (case map_of (m_children m) c of None \<Rightarrow> empty_matcher | Some m' \<Rightarrow> m')) (m_children m))
       (m_token m)"

definition matcher_add :: "string \<Rightarrow> string \<Rightarrow> matcher \<Rightarrow> matcher" where
  "matcher_add pattern token m = (if pattern = [] then m else add_path pattern token m)"

section \<open>Splitting\<close>

record encode_chunk =
  ch_text :: string
  ch_isSpecial :: bool

text \<open>The walk from one position: the end of the longest token so far, relative to the start, and its content.\<close>

fun walk :: "matcher \<Rightarrow> string \<Rightarrow> nat \<Rightarrow> nat \<times> string \<Rightarrow> nat \<times> string" where
  "walk node [] j best = best"
| "walk node (c # cs) j best =
     (case map_of (m_children node) c of
        None \<Rightarrow> best
      | Some node' \<Rightarrow> walk node' cs (j + 1) (if m_token node' \<noteq> [] then (j + 1, m_token node') else best))"

lemma walk_end: "walk node s j best = (e, t) \<Longrightarrow> (e, t) = best \<or> j < e"
proof (induction node s j best rule: walk.induct)
  case (2 node c cs j best)
  then show ?case by (fastforce split: option.splits if_splits)
qed simp

function split_from :: "matcher \<Rightarrow> string \<Rightarrow> nat \<Rightarrow> nat \<Rightarrow> encode_chunk list" where
  "split_from m s start i =
     (if i < length s
      then (let (end, token) = walk m (drop i s) 0 (0, [])
            in if token = [] then split_from m s start (i + 1)
               else (if start < i then [\<lparr>ch_text = take (i - start) (drop start s), ch_isSpecial = False\<rparr>] else [])
                 @ \<lparr>ch_text = token, ch_isSpecial = True\<rparr> # split_from m s (i + end) (i + end))
      else (if start < length s then [\<lparr>ch_text = drop start s, ch_isSpecial = False\<rparr>] else []))"
  by pat_completeness auto
termination
proof (relation "measure (\<lambda>(_, s, _, i). length s - i)", goal_cases)
  case (3 m s start i x e t)
  then have "(e, t) = (0, []) \<or> 0 < e" using walk_end[of m "drop i s" 0 "(0, [])" e t] by simp
  with 3 show ?case by auto
qed auto

declare split_from.simps [simp del]

definition matcher_split :: "matcher \<Rightarrow> string \<Rightarrow> encode_chunk list" where
  "matcher_split m s =
     (if s = [] then []
      else if m_children m = [] then [\<lparr>ch_text = s, ch_isSpecial = False\<rparr>]
      else split_from m s 0 0)"

section \<open>What the trie holds\<close>

fun token_at :: "string \<Rightarrow> matcher \<Rightarrow> string" where
  "token_at [] m = m_token m"
| "token_at (c # cs) m = (case map_of (m_children m) c of None \<Rightarrow> [] | Some m' \<Rightarrow> token_at cs m')"

lemma token_at_empty [simp]: "token_at p empty_matcher = []"
  by (cases p) (simp_all add: empty_matcher_def)

lemma token_at_add: "token_at p (add_path q token m) = (if p = q \<and> token_at p m = [] then token else token_at p m)"
proof (induction q arbitrary: p m)
  case Nil
  show ?case by (cases p) auto
next
  case (Cons c q)
  show ?case
  proof (cases p)
    case (Cons d p')
    show ?thesis
    proof (cases "d = c")
      case True
      then show ?thesis unfolding Cons using Cons.IH
        by (cases "map_of (m_children m) c") (auto simp: update_conv')
    qed (simp add: Cons update_conv')
  qed simp
qed

lemma m_token_add: "m_token (add_path q token m) = (if q = [] \<and> m_token m = [] then token else m_token m)"
  using token_at_add[of "[]" q token m] by auto

text \<open>The tokens were added in the order of a list of patterns and tokens.\<close>

definition build_matcher :: "(string \<times> string) list \<Rightarrow> matcher" where
  "build_matcher ps = foldl (\<lambda>m (p, t). matcher_add p t m) empty_matcher ps"

lemma token_at_build:
  assumes "\<forall>(p, t) \<in> set ps. t \<noteq> []"
  shows "token_at p (build_matcher ps) = (if p = [] then [] else case map_of ps p of None \<Rightarrow> [] | Some t \<Rightarrow> t)"
  using assms
proof (induction ps rule: rev_induct)
  case Nil
  show ?case by (simp add: build_matcher_def)
next
  case (snoc x ps)
  obtain q t where x: "x = (q, t)" by fastforce
  have b: "build_matcher (ps @ [(q, t)]) = matcher_add q t (build_matcher ps)" by (simp add: build_matcher_def)
  have ne: "t' \<noteq> []" if "map_of ps p = Some t'" for p t' using map_of_SomeD[OF that] snoc.prems by auto
  have ih: "token_at p (build_matcher ps) = (if p = [] then [] else case map_of ps p of None \<Rightarrow> [] | Some t \<Rightarrow> t)"
    using snoc by auto
  show ?case
    using ih snoc.prems ne[of p] unfolding x b by (auto simp: matcher_add_def token_at_add m_token_add map_add_def split: option.splits)
qed

lemma walk_longest:
  "walk m s j best =
     (case filter (\<lambda>n. token_at (take n s) m \<noteq> []) [1..<Suc (length s)] of
        [] \<Rightarrow> best
      | ns \<Rightarrow> (j + last ns, token_at (take (last ns) s) m))"
proof (induction m s j best rule: walk.induct)
  case (2 node c cs j best)
  have shift: "[1..<Suc (length (c # cs))] = 1 # map Suc [1..<Suc (length cs)]"
    by (simp add: map_Suc_upt upt_conv_Cons del: upt_Suc)
  show ?case
  proof (cases "map_of (m_children node) c")
    case None
    then have "filter (\<lambda>n. token_at (take n (c # cs)) node \<noteq> []) [1..<Suc (length (c # cs))] = []"
      unfolding shift by (auto simp: filter_empty_conv)
    with None show ?thesis by simp
  next
    case (Some node')
    let ?ns = "filter (\<lambda>n. token_at (take n cs) node' \<noteq> []) [1..<Suc (length cs)]"
    have f: "filter (\<lambda>n. token_at (take n (c # cs)) node \<noteq> []) [1..<Suc (length (c # cs))] =
        (if m_token node' \<noteq> [] then [1] else []) @ map Suc ?ns"
      unfolding shift using Some by (simp add: filter_map comp_def)
    show ?thesis
    proof (cases "?ns = []")
      case True
      with 2[OF Some] Some show ?thesis unfolding f by simp
    next
      case False
      then have "last (map Suc ?ns) = Suc (last ?ns)" by (simp add: last_map)
      with 2[OF Some] Some False show ?thesis unfolding f by (auto split: list.splits)
    qed
  qed
qed simp

section \<open>The plain search\<close>

text \<open>The longest pattern that a text starts with, and the token it was added for first.\<close>

definition longest_pattern :: "(string \<times> string) list \<Rightarrow> string \<Rightarrow> (nat \<times> string) option" where
  "longest_pattern ps s =
     (let ms = filter (\<lambda>(p, _). p \<noteq> [] \<and> prefix p s) ps
      in if ms = [] then None
         else (let n = Max (set (map (length \<circ> fst) ms)) in Some (n, the (map_of ps (take n s)))))"

function plain_split :: "(string \<times> string) list \<Rightarrow> string \<Rightarrow> nat \<Rightarrow> nat \<Rightarrow> encode_chunk list" where
  "plain_split ps s start i =
     (if i < length s
      then (case longest_pattern ps (drop i s) of
              None \<Rightarrow> plain_split ps s start (i + 1)
            | Some (n, token) \<Rightarrow>
                (if start < i then [\<lparr>ch_text = take (i - start) (drop start s), ch_isSpecial = False\<rparr>] else [])
                @ \<lparr>ch_text = token, ch_isSpecial = True\<rparr> # plain_split ps s (i + n) (i + n))
      else (if start < length s then [\<lparr>ch_text = drop start s, ch_isSpecial = False\<rparr>] else []))"
  by pat_completeness auto

lemma longest_patternD:
  assumes "longest_pattern ps s = Some (n, t)"
  shows "0 < n" and "n \<le> length s" and "map_of ps (take n s) = Some t"
    and "(p, u) \<in> set ps \<Longrightarrow> p \<noteq> [] \<Longrightarrow> prefix p s \<Longrightarrow> length p \<le> n"
proof -
  let ?ms = "filter (\<lambda>(p, _). p \<noteq> [] \<and> prefix p s) ps"
  have ne: "?ms \<noteq> []" and n: "n = Max (set (map (length \<circ> fst) ?ms))" and t: "t = the (map_of ps (take n s))"
    using assms by (auto simp: longest_pattern_def Let_def split: if_splits)
  have "n \<in> set (map (length \<circ> fst) ?ms)" unfolding n by (intro Max_in) (simp_all only: finite_set set_empty map_is_Nil_conv ne not_False_eq_True)
  then obtain p u where p: "(p, u) \<in> set ps" "p \<noteq> []" "prefix p s" "n = length p" by auto
  show "0 < n" "n \<le> length s" using p by (auto dest: prefix_length_le)
  have "take n s = p" using p by (simp add: prefix_take_iff)
  then obtain w where "map_of ps (take n s) = Some w" using p(1) by (metis weak_map_of_SomeI)
  with t show "map_of ps (take n s) = Some t" by simp
  show "length p \<le> n" if "(p, u) \<in> set ps" "p \<noteq> []" "prefix p s" for p u
    unfolding n using that by (intro Max_ge) force+
qed

termination plain_split
proof (relation "measure (\<lambda>(_, s, _, i). length s - i)", goal_cases)
  case (3 ps s start i r n t)
  then show ?case using longest_patternD(1)[of ps "drop i s" n t] by simp
qed auto

declare plain_split.simps [simp del]

lemma walk_plain:
  assumes "\<forall>(p, t) \<in> set ps. t \<noteq> []"
  shows "walk (build_matcher ps) s 0 (0, []) = (case longest_pattern ps s of None \<Rightarrow> (0, []) | Some r \<Rightarrow> r)"
proof -
  let ?m = "build_matcher ps" and ?ns = "filter (\<lambda>n. token_at (take n s) (build_matcher ps) \<noteq> []) [1..<Suc (length s)]"
  have has: "token_at (take n s) ?m \<noteq> [] \<longleftrightarrow> map_of ps (take n s) \<noteq> None" if "0 < n" "n \<le> length s" for n
    using that assms by (auto simp: token_at_build split: option.splits dest: map_of_SomeD)
  show ?thesis
  proof (cases "longest_pattern ps s")
    case None
    then have none: "\<not> (p \<noteq> [] \<and> prefix p s)" if "(p, t) \<in> set ps" for p t
      using that by (auto simp: longest_pattern_def Let_def filter_empty_conv split: if_splits)
    have "?ns = []"
    proof (rule filter_False, intro ballI notI)
      fix n assume "n \<in> set [1..<Suc (length s)]" "token_at (take n s) ?m \<noteq> []"
      then have n: "0 < n" "n \<le> length s" "token_at (take n s) ?m \<noteq> []" by (simp_all del: upt_Suc)
      then obtain t where "(take n s, t) \<in> set ps" using has[of n] by (auto dest: map_of_SomeD)
      moreover have "take n s \<noteq> []" using n by auto
      ultimately show False using none[of "take n s" t] by (simp add: take_is_prefix)
    qed
    with None show ?thesis by (simp add: walk_longest)
  next
    case (Some r)
    obtain n t where r: "r = (n, t)" by fastforce
    note d = longest_patternD[OF Some[unfolded r]]
    have mem: "n \<in> set ?ns" using d has[of n] by (simp del: upt_Suc)
    moreover have "k \<le> n" if "k \<in> set ?ns" for k
    proof -
      have "map_of ps (take k s) \<noteq> None" "0 < k" "k \<le> length s"
        using \<open>k \<in> set ?ns\<close> has[of k] by (simp_all del: upt_Suc)
      then obtain u where "(take k s, u) \<in> set ps" "take k s \<noteq> []" by (fastforce dest: map_of_SomeD)
      from d(4)[OF this take_is_prefix] \<open>k \<le> length s\<close> show ?thesis by simp
    qed
    moreover have "sorted ?ns" by (intro sorted_wrt_filter sorted_upt)
    ultimately have "last ?ns = n"
      by (metis last_in_set length_pos_if_in_set length_greater_0_conv le_antisym last_conv_nth in_set_conv_nth
          sorted_nth_mono Suc_pred' less_Suc_eq_le diff_less zero_less_one)
    moreover have "?ns \<noteq> []" using mem by (metis empty_iff empty_set)
    moreover have "token_at (take n s) ?m = t" using d by (auto simp: token_at_build[OF assms])
    ultimately show ?thesis unfolding walk_longest Some r by (auto split: list.splits)
  qed
qed

lemma split_from_plain:
  "\<forall>(p, t) \<in> set ps. t \<noteq> [] \<Longrightarrow> split_from (build_matcher ps) s start i = plain_split ps s start i"
proof (induction ps s start i rule: plain_split.induct)
  case (1 ps s start i)
  note w = walk_plain[OF "1.prems", of "drop i s"]
  show ?case
  proof (cases "i < length s")
    case i: True
    show ?thesis
    proof (cases "longest_pattern ps (drop i s)")
      case None
      with w i "1.IH"(1)[OF i None "1.prems"] show ?thesis
        by (simp add: split_from.simps[of _ s start i] plain_split.simps[of ps s start i])
    next
      case (Some r)
      obtain n t where r: "r = (n, t)" by fastforce
      have "t \<noteq> []" using longest_patternD(3)[OF Some[unfolded r]] "1.prems" by (auto dest: map_of_SomeD)
      with w i Some r "1.IH"(2)[OF i Some r[symmetric] "1.prems"] show ?thesis
        by (simp add: split_from.simps[of _ s start i] plain_split.simps[of ps s start i])
    qed
  qed (simp add: split_from.simps[of _ s start i] plain_split.simps[of ps s start i])
qed

lemma build_matcher_no_children:
  assumes "m_children (build_matcher ps) = []" and "\<forall>(p, t) \<in> set ps. t \<noteq> []"
  shows "longest_pattern ps s = None"
proof (cases "longest_pattern ps s")
  case (Some r)
  obtain n t where r: "r = (n, t)" by fastforce
  note d = longest_patternD[OF Some[unfolded r]]
  have "token_at (take n s) (build_matcher ps) = t" using d by (auto simp: token_at_build[OF assms(2)])
  moreover obtain c cs where "take n s = c # cs" using d by (cases "take n s") auto
  ultimately have "t = []" using assms(1) by simp
  with d(3) assms(2) show ?thesis by (auto dest: map_of_SomeD)
qed

lemma plain_split_none:
  assumes "\<And>i. longest_pattern ps (drop i s) = None"
  shows "plain_split ps s start i = (if start < length s then [\<lparr>ch_text = drop start s, ch_isSpecial = False\<rparr>] else [])"
  using assms by (induction ps s start i rule: plain_split.induct) (subst plain_split.simps, simp)

lemma matcher_split_plain:
  assumes "\<forall>(p, t) \<in> set ps. t \<noteq> []"
  shows "matcher_split (build_matcher ps) s = plain_split ps s 0 0"
proof -
  consider "s = []" | "s \<noteq> []" "m_children (build_matcher ps) = []" | "s \<noteq> []" "m_children (build_matcher ps) \<noteq> []" by blast
  then show ?thesis
  proof cases
    case 1
    then show ?thesis by (simp add: matcher_split_def plain_split.simps[of ps "[]"])
  next
    case 2
    then show ?thesis
      using plain_split_none[of ps s 0 0] build_matcher_no_children[OF 2(2) assms] by (simp add: matcher_split_def)
  next
    case 3
    then show ?thesis using split_from_plain[OF assms] by (simp add: matcher_split_def)
  qed
qed

text \<open>
  C23.  The trie of added tokens finds what trying every token at every place does: it splits a
  text at the earliest places where a token occurs, takes the longest token there, and returns
  the content it was added with.
\<close>
theorem added_tokens_longest_at_earliest:
  assumes "\<forall>(p, t) \<in> set ps. t \<noteq> []"
  shows "matcher_split (build_matcher ps) s = plain_split ps s 0 0"
  using assms by (rule matcher_split_plain)

text \<open>Nothing of the text is lost: where tokens are added under their own content, the chunks spell it.\<close>

lemma plain_split_spells:
  "\<forall>(p, t) \<in> set ps. p = t \<Longrightarrow> start \<le> i \<Longrightarrow> concat (map ch_text (plain_split ps s start i)) = drop start s"
proof (induction ps s start i rule: plain_split.induct)
  case (1 ps s start i)
  show ?case
  proof (cases "i < length s")
    case i: True
    show ?thesis
    proof (cases "longest_pattern ps (drop i s)")
      case None
      with i "1.IH"(1)[OF i None "1.prems"(1)] "1.prems"(2) show ?thesis by (simp add: plain_split.simps[of ps s start i])
    next
      case (Some r)
      obtain n t where r: "r = (n, t)" by fastforce
      note d = longest_patternD[OF Some[unfolded r]]
      have t: "t = take n (drop i s)" using d(3) "1.prems"(1) by (auto dest: map_of_SomeD)
      have "drop start s = take (i - start) (drop start s) @ take n (drop i s) @ drop (i + n) s"
        using "1.prems"(2) by (metis append_take_drop_id drop_drop le_add_diff_inverse2 add.commute)
      with i Some r t "1.IH"(2)[OF i Some r[symmetric] "1.prems"(1)] "1.prems"(2) show ?thesis
        by (auto simp: plain_split.simps[of ps s start i])
    qed
  next
    case False
    with "1.prems" show ?thesis by (simp add: plain_split.simps[of ps s start i])
  qed
qed

lemma plain_split_special:
  "c \<in> set (plain_split ps s start i) \<Longrightarrow> ch_isSpecial c \<Longrightarrow> \<exists>p. (p, ch_text c) \<in> set ps"
proof (induction ps s start i rule: plain_split.induct)
  case (1 ps s start i)
  show ?case
  proof (cases "i < length s")
    case i: True
    show ?thesis
    proof (cases "longest_pattern ps (drop i s)")
      case None
      with i "1.IH"(1)[OF i None] "1.prems" show ?thesis by (simp add: plain_split.simps[of ps s start i])
    next
      case (Some r)
      obtain n t where r: "r = (n, t)" by fastforce
      note d = longest_patternD[OF Some[unfolded r]]
      show ?thesis
        using i Some r "1.IH"(2)[OF i Some r[symmetric]] "1.prems" map_of_SomeD[OF d(3)]
        by (auto simp: plain_split.simps[of ps s start i] split: if_splits)
    qed
  next
    case False
    with "1.prems" show ?thesis by (auto simp: plain_split.simps[of ps s start i] split: if_splits)
  qed
qed

theorem added_tokens_longest_at_earliest_witness:
  "matcher_split (build_matcher [(''<a>'', ''<a>''), (''<a><b>'', ''<a><b>'')]) ''x<a>y<a><b>'' =
     [\<lparr>ch_text = ''x'', ch_isSpecial = False\<rparr>, \<lparr>ch_text = ''<a>'', ch_isSpecial = True\<rparr>,
      \<lparr>ch_text = ''y'', ch_isSpecial = False\<rparr>, \<lparr>ch_text = ''<a><b>'', ch_isSpecial = True\<rparr>] \<and>
   plain_split [(''<a>'', ''<a>''), (''<a><b>'', ''<a><b>'')] ''x<a>y<a><b>'' 0 0 =
     matcher_split (build_matcher [(''<a>'', ''<a>''), (''<a><b>'', ''<a><b>'')]) ''x<a>y<a><b>''"
  using added_tokens_longest_at_earliest[of "[(''<a>'', ''<a>''), (''<a><b>'', ''<a><b>'')]" "''x<a>y<a><b>''"]
  by (intro conjI) (code_simp, simp)

end
