(* ===== verification/Pretokenizer.thy ===== *)
theory Pretokenizer
  imports GoRunes
begin

text \<open>
  \<^verbatim>\<open>mlxrunner/tokenizer/tokenizer_pretokenizer.go\<close>: one stage of the splitting that comes before the
  merges.  The regular expression is an argument: where it matches first in a text, and whether
  its group of trailing white space took part.
\<close>

section \<open>Matches\<close>

type_synonym regexp = "string \<Rightarrow> (nat \<times> nat \<times> bool) option"

record pretokenizer =
  pt_re :: "regexp option"
  pt_whitespaceGroup :: bool
  pt_rightDigits :: bool
  pt_behavior :: string
  pt_invert :: bool
  pt_prefixSpace :: bool

text \<open>Groups of three digits, counted from the right: \<open>missing\<close> runes are missing to the end of the group that started at \<open>cursor\<close>.\<close>

function digit_groups :: "string \<Rightarrow> nat \<Rightarrow> nat \<Rightarrow> nat \<Rightarrow> (nat \<times> nat) list" where
  "digit_groups s pos cursor missing =
     (if s = [] then []
      else
        (let (r, w) = decode_rune s
         in if missing - 1 = 0
            then (cursor, pos + rune_len r) # digit_groups (drop w s) (pos + w) (pos + rune_len r) 3
            else digit_groups (drop w s) (pos + w) cursor (missing - 1)))"
  by pat_completeness auto
termination
proof (relation "measure (\<lambda>(s, _). length s)", goal_cases)
  case (2 s pos cursor missing x r w)
  then show ?case using drop_width_shorter[of s] by (cases s) (auto dest: arg_cong[of _ _ snd])
next
  case (3 s pos cursor missing x r w)
  then show ?case using drop_width_shorter[of s] by (cases s) (auto dest: arg_cong[of _ _ snd])
qed simp

declare digit_groups.simps [simp del]

text \<open>A run of white space before other text leaves its last rune to that text.\<close>

definition backtrack :: "pretokenizer \<Rightarrow> bool \<Rightarrow> string \<Rightarrow> nat \<Rightarrow> nat \<Rightarrow> nat" where
  "backtrack p ws text start end =
     (if pt_whitespaceGroup p \<and> ws \<and> end < length text
      then (let width = snd (decode_last_rune (take (end - start) (drop start text)))
            in if width < end - start then end - width else end)
      else end)"

text \<open>\<^verbatim>\<open>matches\<close>: the spans that are yielded; \<open>word\<close> tells the runes of words.\<close>

partial_function (option) pre_matches ::
  "pretokenizer \<Rightarrow> regexp \<Rightarrow> (nat \<Rightarrow> bool) \<Rightarrow> string \<Rightarrow> nat \<Rightarrow> (nat \<times> nat) list option" where
  "pre_matches p re word text offset =
     (if offset < length text
      then (case re (drop offset text) of
              None \<Rightarrow> Some []
            | Some (s0, e0, ws) \<Rightarrow>
                (let start = offset + s0; end = offset + e0; matched = take (end - start) (drop start text)
                 in if pt_rightDigits p
                    then (let spans =
                            (if end = length text \<or> \<not> word (fst (decode_rune (drop end text)))
                             then (let count = length (runes_of matched)
                                   in digit_groups matched start start (if count mod 3 = 0 then 3 else count mod 3))
                             else [])
                          in Option.bind (pre_matches p re word text end) (\<lambda>rest. Some (spans @ rest)))
                    else (let end' = backtrack p ws text start end
                          in Option.bind (pre_matches p re word text end') (\<lambda>rest. Some ((start, end') # rest)))))
      else Some [])"

section \<open>Splitting\<close>

record split_state =
  sp_result :: "string list"
  sp_pending :: string
  sp_previous :: bool

definition append_last :: "string list \<Rightarrow> string \<Rightarrow> string list" where
  "append_last xs s = butlast xs @ [last xs @ s]"

definition emit_piece :: "string \<Rightarrow> string \<Rightarrow> bool \<Rightarrow> split_state \<Rightarrow> split_state" where
  "emit_piece behavior text delimiter st =
     (let st' =
        (if behavior = ''Removed'' then (if delimiter then st else st\<lparr>sp_result := sp_result st @ [text]\<rparr>)
         else if behavior = ''MergedWithPrevious''
         then (if delimiter \<and> \<not> sp_previous st \<and> sp_result st \<noteq> []
               then st\<lparr>sp_result := append_last (sp_result st) text\<rparr>
               else st\<lparr>sp_result := sp_result st @ [text]\<rparr>)
         else if behavior = ''MergedWithNext''
         then (if delimiter
               then st\<lparr>sp_result := (if sp_pending st \<noteq> [] then sp_result st @ [sp_pending st] else sp_result st),
                       sp_pending := text\<rparr>
               else st\<lparr>sp_result := sp_result st @ [sp_pending st @ text], sp_pending := []\<rparr>)
         else if behavior = ''Contiguous''
         then (if sp_result st \<noteq> [] \<and> delimiter = sp_previous st
               then st\<lparr>sp_result := append_last (sp_result st) text\<rparr>
               else st\<lparr>sp_result := sp_result st @ [text]\<rparr>)
         else st\<lparr>sp_result := sp_result st @ [text]\<rparr>)
      in st'\<lparr>sp_previous := delimiter\<rparr>)"

fun emit_spans :: "pretokenizer \<Rightarrow> string \<Rightarrow> nat \<Rightarrow> (nat \<times> nat) list \<Rightarrow> split_state \<Rightarrow> nat \<times> split_state" where
  "emit_spans p text offset [] st = (offset, st)"
| "emit_spans p text offset ((start, end) # spans) st =
     (let st1 = (if offset < start then emit_piece (pt_behavior p) (take (start - offset) (drop offset text)) (pt_invert p) st else st)
      in emit_spans p text end spans (emit_piece (pt_behavior p) (take (end - start) (drop start text)) (\<not> pt_invert p) st1))"

definition pre_split :: "pretokenizer \<Rightarrow> (nat \<Rightarrow> bool) \<Rightarrow> string \<Rightarrow> string list option" where
  "pre_split p word text0 =
     (if text0 = [] then Some []
      else
        (let text = (if pt_prefixSpace p \<and> \<not> prefix '' '' text0 then '' '' @ text0 else text0)
         in case pt_re p of
              None \<Rightarrow> Some [text]
            | Some re \<Rightarrow>
                (case pre_matches p re word text 0 of
                   None \<Rightarrow> None
                 | Some spans \<Rightarrow>
                     (let (offset, st) = emit_spans p text 0 spans \<lparr>sp_result = [], sp_pending = [], sp_previous = False\<rparr>;
                          st1 = (if offset < length text then emit_piece (pt_behavior p) (drop offset text) (pt_invert p) st else st)
                      in Some (if sp_pending st1 \<noteq> [] then sp_result st1 @ [sp_pending st1] else sp_result st1)))))"

section \<open>Nothing is lost\<close>

text \<open>
  What the program relies on of a regular expression: matches lie in the text and are not empty
  (\<^verbatim>\<open>compileSplit\<close> refuses expressions that match the empty text), and digits are valid text.
\<close>

definition sound_regexp :: "pretokenizer \<Rightarrow> regexp \<Rightarrow> bool" where
  "sound_regexp p re \<longleftrightarrow>
     (\<forall>t s e ws. re t = Some (s, e, ws) \<longrightarrow>
        s < e \<and> e \<le> length t \<and> (pt_rightDigits p \<longrightarrow> valid_utf8 (take (e - s) (drop s t))))"

text \<open>Spans in order, from \<open>offset\<close> to \<open>n\<close>.\<close>

fun ordered_spans :: "nat \<Rightarrow> (nat \<times> nat) list \<Rightarrow> nat \<Rightarrow> bool" where
  "ordered_spans offset [] n \<longleftrightarrow> offset \<le> n"
| "ordered_spans offset ((start, end) # spans) n \<longleftrightarrow> offset \<le> start \<and> start \<le> end \<and> ordered_spans end spans n"

lemma ordered_spans_append:
  "ordered_spans a xs b \<Longrightarrow> ordered_spans b ys c \<Longrightarrow> ordered_spans a (xs @ ys) c"
proof (induction a xs b rule: ordered_spans.induct)
  case (1 a b)
  then show ?case by (cases ys) auto
qed auto

lemma ordered_spans_weaken: "ordered_spans a xs b \<Longrightarrow> b \<le> c \<Longrightarrow> ordered_spans a xs c"
  by (induction a xs b rule: ordered_spans.induct) auto

lemma digit_groups_ordered:
  "valid_utf8 s \<Longrightarrow> cursor \<le> pos \<Longrightarrow> ordered_spans cursor (digit_groups s pos cursor missing) (pos + length s)"
proof (induction s pos cursor missing rule: digit_groups.induct)
  case (1 s pos cursor missing)
  show ?case
  proof (cases "s = []")
    case True
    with "1.prems" show ?thesis by (simp add: digit_groups.simps[of "[]"])
  next
    case False
    obtain r w where d: "decode_rune s = (r, w)" by fastforce
    have v: "(r, w) \<noteq> (rune_error, 1)" "valid_utf8 (drop w s)" using valid_utf8D[OF "1.prems"(1) False] d by simp_all
    have w: "rune_len r = w" "w \<le> length s" using decode_rune_valid(2)[OF d False v(1)] decode_rune_width[OF False d] by simp_all
    have e: "digit_groups s pos cursor missing =
        (if missing - 1 = 0 then (cursor, pos + w) # digit_groups (drop w s) (pos + w) (pos + w) 3
         else digit_groups (drop w s) (pos + w) cursor (missing - 1))"
      using False d w(1) by (subst digit_groups.simps) simp
    show ?thesis
      using "1.IH"(1)[OF False d[symmetric]] "1.IH"(2)[OF False d[symmetric]] v w "1.prems"(2) unfolding e
      by (cases "missing - 1 = 0") simp_all
  qed
qed

lemma pre_matches_ordered:
  assumes "sound_regexp p re" and "offset \<le> length text"
  shows "\<exists>spans. pre_matches p re word text offset = Some spans \<and> ordered_spans offset spans (length text)"
  using assms(2)
proof (induction "length text - offset" arbitrary: offset rule: less_induct)
  case less
  show ?case
  proof (cases "offset < length text \<and> re (drop offset text) \<noteq> None")
    case False
    then show ?thesis using less.prems by (subst pre_matches.simps) (auto split: option.splits)
  next
    case True
    then obtain s0 e0 ws where re: "re (drop offset text) = Some (s0, e0, ws)" by (metis option.exhaust prod_cases3)
    have m: "s0 < e0" "e0 \<le> length text - offset" "pt_rightDigits p \<longrightarrow> valid_utf8 (take (e0 - s0) (drop (offset + s0) text))"
      using assms(1)[unfolded sound_regexp_def, rule_format, OF re] by (simp_all add: add.commute)
    let ?s = "offset + s0" and ?e = "offset + e0"
    let ?m = "take (?e - ?s) (drop ?s text)"
    have lm: "length ?m = e0 - s0" using m(1,2) True by simp
    have lt: "length text - ?e < length text - offset" "?e \<le> length text" using m(1,2) True by auto
    show ?thesis
    proof (cases "pt_rightDigits p")
      case digits: True
      obtain rest where rest: "pre_matches p re word text ?e = Some rest" "ordered_spans ?e rest (length text)"
        using less.hyps[OF lt] by blast
      let ?k = "if length (runes_of ?m) mod 3 = 0 then 3 else length (runes_of ?m) mod 3"
      let ?spans = "if ?e = length text \<or> \<not> word (fst (decode_rune (drop ?e text))) then digit_groups ?m ?s ?s ?k else []"
      have "ordered_spans ?s (digit_groups ?m ?s ?s ?k) ?e"
        using digit_groups_ordered[of ?m ?s ?s ?k] m(3) digits lm m(1) by simp
      then have "ordered_spans offset ?spans ?e" using m(1) by (cases "digit_groups ?m ?s ?s ?k") auto
      from ordered_spans_append[OF this rest(2)] have "ordered_spans offset (?spans @ rest) (length text)" .
      moreover have "pre_matches p re word text offset = Some (?spans @ rest)"
        using rest(1) True re digits by (subst pre_matches.simps) (simp add: Let_def)
      ultimately show ?thesis by blast
    next
      case False
      let ?stop = "backtrack p ws text ?s ?e"
      have e: "?s < ?stop" "?stop \<le> ?e" using m(1) by (auto simp: backtrack_def Let_def)
      have le: "offset \<le> ?s" "?e \<le> length text" "offset < length text" using m True by simp_all
      have "length text - x < length text - offset \<and> x \<le> length text" if "?s < x" "x \<le> ?e" for x
        using that le by linarith
      from this[OF e] have lts: "length text - ?stop < length text - offset" "?stop \<le> length text" by blast+
      obtain rest where rest: "pre_matches p re word text ?stop = Some rest" "ordered_spans ?stop rest (length text)"
        using less.hyps[OF lts] by blast
      have "pre_matches p re word text offset = Option.bind (pre_matches p re word text ?stop) (\<lambda>rest. Some ((?s, ?stop) # rest))"
        using True re False by (subst pre_matches.simps) (simp add: Let_def)
      then have "pre_matches p re word text offset = Some ((?s, ?stop) # rest)" unfolding rest(1) by simp
      moreover have "ordered_spans offset ((?s, ?stop) # rest) (length text)"
        unfolding ordered_spans.simps(2) using rest(2) e(1) le(1) by (metis less_imp_le)
      ultimately show ?thesis by blast
    qed
  qed
qed

definition emitted :: "split_state \<Rightarrow> string" where
  "emitted st = concat (sp_result st) @ sp_pending st"

lemma concat_append_last: "xs \<noteq> [] \<Longrightarrow> concat (append_last xs s) = concat xs @ s"
  by (cases xs rule: rev_cases) (simp_all add: append_last_def)

lemma emit_keeps:
  assumes "b \<noteq> ''Removed''" and "b = ''MergedWithNext'' \<or> sp_pending st = []"
  shows "emitted (emit_piece b text d st) = emitted st @ text" and "b = ''MergedWithNext'' \<or> sp_pending (emit_piece b text d st) = []"
  using assms by (auto simp: emit_piece_def emitted_def Let_def concat_append_last)

lemma emit_spans_keeps:
  "pt_behavior p \<noteq> ''Removed'' \<Longrightarrow> ordered_spans offset spans (length text) \<Longrightarrow> (pt_behavior p = ''MergedWithNext'' \<or> sp_pending st = []) \<Longrightarrow>
    emitted st = take offset text \<Longrightarrow> emit_spans p text offset spans st = (offset', st') \<Longrightarrow>
    offset' \<le> length text \<and> emitted st' = take offset' text \<and> (pt_behavior p = ''MergedWithNext'' \<or> sp_pending st' = [])"
proof (induction p "text" offset spans st rule: emit_spans.induct)
  case (2 p "text" offset start e spans st)
  let ?st1 = "if offset < start then emit_piece (pt_behavior p) (take (start - offset) (drop offset text)) (pt_invert p) st else st"
  let ?st2 = "emit_piece (pt_behavior p) (take (e - start) (drop start text)) (\<not> pt_invert p) ?st1"
  have o: "offset \<le> start" "start \<le> e" "ordered_spans e spans (length text)" using "2.prems"(2) by simp_all
  have t: "take offset text @ take (start - offset) (drop offset text) = take start text"
    "take start text @ take (e - start) (drop start text) = take e text"
    using o by (simp_all add: take_add[symmetric])
  have 1: "emitted ?st1 = take start text" "pt_behavior p = ''MergedWithNext'' \<or> sp_pending ?st1 = []"
    using emit_keeps[OF "2.prems"(1,3)] "2.prems"(3,4) o(1) t(1) by (auto split: if_splits)
  have 2: "emitted ?st2 = take e text" "pt_behavior p = ''MergedWithNext'' \<or> sp_pending ?st2 = []"
    using emit_keeps[OF "2.prems"(1) 1(2)] 1(1) t(2) by (auto split: if_splits)
  show ?case using "2.IH"[OF refl "2.prems"(1) o(3) 2(2,1)] "2.prems"(5) by (simp add: Let_def)
qed simp

lemma pre_split_keeps:
  assumes "pt_behavior p \<noteq> ''Removed''" and "\<forall>re. pt_re p = Some re \<longrightarrow> sound_regexp p re"
  shows "\<exists>pieces. pre_split p word text = Some pieces \<and>
    concat pieces = (if text \<noteq> [] \<and> pt_prefixSpace p \<and> \<not> prefix '' '' text then '' '' @ text else text)"
proof (cases "text = [] \<or> pt_re p = None")
  case True
  then show ?thesis by (auto simp: pre_split_def)
next
  case False
  then obtain re where re: "pt_re p = Some re" and ne: "text \<noteq> []" by auto
  let ?t = "if pt_prefixSpace p \<and> \<not> prefix '' '' text then '' '' @ text else text"
  let ?st = "\<lparr>sp_result = [], sp_pending = [], sp_previous = False\<rparr>"
  obtain spans where m: "pre_matches p re word ?t 0 = Some spans" "ordered_spans 0 spans (length ?t)"
    using pre_matches_ordered[of p re 0 ?t word] assms(2) re by auto
  obtain offset st where e: "emit_spans p ?t 0 spans ?st = (offset, st)" by fastforce
  have st: "offset \<le> length ?t" "emitted st = take offset ?t" "pt_behavior p = ''MergedWithNext'' \<or> sp_pending st = []"
    using emit_spans_keeps[OF assms(1) m(2) _ _ e] by (simp_all add: emitted_def)
  let ?st1 = "if offset < length ?t then emit_piece (pt_behavior p) (drop offset ?t) (pt_invert p) st else st"
  have "emitted ?st1 = ?t" using emit_keeps(1)[OF assms(1) st(3)] st(1,2) by (auto split: if_splits)
  then show ?thesis
    using ne re m(1) e by (auto simp: pre_split_def Let_def emitted_def)
qed


text \<open>
  C24.  A stage of the pretokenizer that does not remove delimiters ends and only cuts: the pieces
  spell the text, with the space in front that the stage may add.
\<close>
theorem pretokenizer_keeps_text:
  assumes "pt_behavior p \<noteq> ''Removed''" and "\<forall>re. pt_re p = Some re \<longrightarrow> sound_regexp p re"
  shows "\<exists>pieces. pre_split p word text = Some pieces \<and>
    concat pieces = (if text \<noteq> [] \<and> pt_prefixSpace p \<and> \<not> prefix '' '' text then '' '' @ text else text)"
  using assms by (rule pre_split_keeps)

text \<open>An expression that matches single spaces, as an example.\<close>

definition space_regexp :: regexp where
  "space_regexp t = map_option (\<lambda>i. (i, i + 1, False)) (index_of '' '' t)"

definition space_stage :: pretokenizer where
  "space_stage = \<lparr>pt_re = Some space_regexp, pt_whitespaceGroup = False, pt_rightDigits = False,
     pt_behavior = ''MergedWithNext'', pt_invert = False, pt_prefixSpace = True\<rparr>"

lemma space_regexp_sound: "sound_regexp space_stage space_regexp"
  by (auto simp: sound_regexp_def space_regexp_def space_stage_def dest: index_of_le)

declare pre_matches.simps [code]

theorem pretokenizer_keeps_text_witness:
  "pre_split space_stage (\<lambda>_. False) ''a b'' = Some ['' a'', '' b''] \<and>
   (\<exists>pieces. pre_split space_stage (\<lambda>_. False) ''a b'' = Some pieces \<and> concat pieces = '' a b'')"
proof (intro conjI)
  show "pre_split space_stage (\<lambda>_. False) ''a b'' = Some ['' a'', '' b'']" by code_simp
  have "pt_behavior space_stage \<noteq> ''Removed''" "\<forall>re. pt_re space_stage = Some re \<longrightarrow> sound_regexp space_stage re"
    using space_regexp_sound by (simp_all add: space_stage_def)
  from pretokenizer_keeps_text[OF this, of "\<lambda>_. False" "''a b''"]
  show "\<exists>pieces. pre_split space_stage (\<lambda>_. False) ''a b'' = Some pieces \<and> concat pieces = '' a b''"
    by (simp add: space_stage_def)
qed

end
