(* ===== verification/Tokenizer.thy ===== *)
theory Tokenizer
  imports BpeCorrect AddedTokens Pretokenizer
begin

text \<open>
  \<^verbatim>\<open>mlxrunner/tokenizer/\<close>: encoding texts to tokens and decoding tokens to texts, around the
  merges of \<open>BpeMerge\<close>.  The Unicode normalisation NFC and the Unicode classes are arguments.
\<close>

section \<open>Bytes and runes\<close>

text \<open>\<^verbatim>\<open>byteToRune\<close>: the rune that stands for a byte in byte-level tokens.\<close>

definition byteToRune :: "nat \<Rightarrow> nat" where
  "byteToRune b =
     (if b = 0xAD then 0x0143
      else if b \<le> 0x20 then b + 0x0100
      else if 0x7F \<le> b \<and> b \<le> 0xA0 then b + 0x00A2
      else b)"

definition byte_level :: "string \<Rightarrow> string" where
  "byte_level s = concat (map (\<lambda>c. encode_rune (byteToRune (byte_val c))) s)"

text \<open>The mark U+2581 that stands for a space, and \<^verbatim>\<open>strings.ReplaceAll\<close>.\<close>

definition space_mark :: string where
  "space_mark = encode_rune 0x2581"

definition replace_all :: "string \<Rightarrow> string \<Rightarrow> string \<Rightarrow> string" where
  "replace_all s old new = join (split_on old s) new"

section \<open>The tokenizer\<close>

record metaspace =
  ms_PrependScheme :: string
  ms_Split :: bool

record tokenizer =
  tk_vocab :: vocabulary
  tk_pretokenizer :: "pretokenizer list option"
  tk_specialTokens :: "string \<Rightarrow> int option"
  tk_specialTokenMatcher :: matcher
  tk_normalizedTokenMatcher :: matcher
  tk_typ :: tokenizer_type
  tk_normalizeNFC :: bool
  tk_normalizeSpaces :: bool
  tk_ignoreMerges :: bool
  tk_metaspace :: "metaspace option"

definition normalize :: "(string \<Rightarrow> string) \<Rightarrow> tokenizer \<Rightarrow> string \<Rightarrow> string" where
  "normalize nfc t s =
     (let s1 = (if tk_normalizeNFC t then nfc s else s)
      in if tk_normalizeSpaces t then replace_all s1 '' '' space_mark else s1)"

definition encodeChunkInto :: "tokenizer \<Rightarrow> string \<Rightarrow> int list \<Rightarrow> int list option" where
  "encodeChunkInto t s ids =
     (if s = [] then Some ids
      else
        (let encoded = (if tk_typ t = TokenizerSentencePiece then replace_all s '' '' space_mark else byte_level s)
         in if tk_ignoreMerges t \<or> length (runes_of encoded) = 1
            then (case v_Reverse (tk_vocab t) encoded of
                    Some tid \<Rightarrow> Some (ids @ [tid])
                  | None \<Rightarrow> encodeBPEMerge (tk_typ t) (tk_vocab t) encoded ids)
            else encodeBPEMerge (tk_typ t) (tk_vocab t) encoded ids))"

definition appendEncodedChunk :: "tokenizer \<Rightarrow> int list \<Rightarrow> encode_chunk \<Rightarrow> int list option" where
  "appendEncodedChunk t ids c =
     (if ch_isSpecial c
      then (case tk_specialTokens t (ch_text c) of Some tid \<Rightarrow> Some (ids @ [tid]) | None \<Rightarrow> Some ids)
      else encodeChunkInto t (ch_text c) ids)"

text \<open>Cutting before each space mark but the first rune: \<open>cur\<close> is the piece so far.\<close>

function mark_pieces :: "string \<Rightarrow> string \<Rightarrow> string list" where
  "mark_pieces cur s =
     (if s = [] then [cur]
      else
        (let (r, w) = decode_rune s
         in if r = 0x2581 \<and> cur \<noteq> [] then cur # mark_pieces (take w s) (drop w s)
            else mark_pieces (cur @ take w s) (drop w s)))"
  by pat_completeness auto
termination
proof (relation "measure (\<lambda>(_, s). length s)", goal_cases)
  case (2 cur s x r w)
  then show ?case using drop_width_shorter[of s] by (cases s) (auto dest: arg_cong[of _ _ snd])
next
  case (3 cur s x r w)
  then show ?case using drop_width_shorter[of s] by (cases s) (auto dest: arg_cong[of _ _ snd])
qed simp

declare mark_pieces.simps [simp del]

text \<open>The stages of the pretokenizer, one after the other on all pieces.\<close>

fun split_each :: "pretokenizer \<Rightarrow> (nat \<Rightarrow> bool) \<Rightarrow> string list \<Rightarrow> string list option" where
  "split_each p word [] = Some []"
| "split_each p word (s # ss) =
     (case pre_split p word s of
        None \<Rightarrow> None
      | Some pieces \<Rightarrow> map_option ((@) pieces) (split_each p word ss))"

fun split_stages :: "pretokenizer list \<Rightarrow> (nat \<Rightarrow> bool) \<Rightarrow> string list \<Rightarrow> string list option" where
  "split_stages [] word parts = Some parts"
| "split_stages (p # ps) word parts =
     (case split_each p word parts of None \<Rightarrow> None | Some parts' \<Rightarrow> split_stages ps word parts')"

definition forEachPartChunk :: "(nat \<Rightarrow> bool) \<Rightarrow> tokenizer \<Rightarrow> string \<Rightarrow> string list option" where
  "forEachPartChunk word t part =
     (case tk_pretokenizer t of
        None \<Rightarrow>
          (case tk_metaspace t of
             Some m \<Rightarrow> Some (if ms_Split m then mark_pieces [] part else [part])
           | None \<Rightarrow> Some [part])
      | Some stages \<Rightarrow> split_stages stages word [part])"

section \<open>Encoding\<close>

definition mark_spaces :: "metaspace \<Rightarrow> nat \<Rightarrow> string \<Rightarrow> string" where
  "mark_spaces m i s =
     (let s1 = replace_all s '' '' space_mark
      in if (ms_PrependScheme m = ''always'' \<or> (ms_PrependScheme m = ''first'' \<and> i = 0)) \<and> \<not> prefix space_mark s1
         then space_mark @ s1 else s1)"

text \<open>The parts of a text: added tokens and what is between them, normalised.\<close>

definition encode_parts :: "(string \<Rightarrow> string) \<Rightarrow> tokenizer \<Rightarrow> string \<Rightarrow> encode_chunk list" where
  "encode_parts nfc t s =
     (let parts = map (\<lambda>c. if ch_isSpecial c then c else c\<lparr>ch_text := normalize nfc t (ch_text c)\<rparr>)
                    (matcher_split (tk_specialTokenMatcher t) s);
          parts1 =
            (if m_children (tk_normalizedTokenMatcher t) \<noteq> []
             then concat (map (\<lambda>c. if ch_isSpecial c then [c] else matcher_split (tk_normalizedTokenMatcher t) (ch_text c)) parts)
             else parts)
      in case tk_metaspace t of
           None \<Rightarrow> parts1
         | Some m \<Rightarrow>
             map (\<lambda>(i, c). if ch_isSpecial c then c else c\<lparr>ch_text := mark_spaces m i (ch_text c)\<rparr>) (zip [0..<length parts1] parts1))"

fun all_chunks :: "(nat \<Rightarrow> bool) \<Rightarrow> tokenizer \<Rightarrow> encode_chunk list \<Rightarrow> encode_chunk list option" where
  "all_chunks word t [] = Some []"
| "all_chunks word t (c # cs) =
     (if ch_isSpecial c then map_option ((#) c) (all_chunks word t cs)
      else (case forEachPartChunk word t (ch_text c) of
              None \<Rightarrow> None
            | Some pieces \<Rightarrow> map_option ((@) (map (\<lambda>x. \<lparr>ch_text = x, ch_isSpecial = False\<rparr>) pieces)) (all_chunks word t cs)))"

fun encode_chunks :: "tokenizer \<Rightarrow> int list \<Rightarrow> encode_chunk list \<Rightarrow> int list option" where
  "encode_chunks t ids [] = Some ids"
| "encode_chunks t ids (c # cs) =
     (case appendEncodedChunk t ids c of None \<Rightarrow> None | Some ids' \<Rightarrow> encode_chunks t ids' cs)"

text \<open>The chunks each of \<open>numWorkers\<close> workers encodes.\<close>

definition worker_chunks :: "nat \<Rightarrow> 'c list \<Rightarrow> 'c list list" where
  "worker_chunks numWorkers cs =
     (let chunksPer = (length cs + numWorkers - 1) div numWorkers
      in map (\<lambda>i. let start = i * chunksPer; end = min (start + chunksPer) (length cs)
                  in if end \<le> start then [] else take (end - start) (drop start cs))
           [0..<numWorkers])"

fun encode_workers :: "tokenizer \<Rightarrow> encode_chunk list list \<Rightarrow> int list option" where
  "encode_workers t [] = Some []"
| "encode_workers t (cs # css) =
     (case encode_chunks t [] cs of None \<Rightarrow> None | Some r \<Rightarrow> map_option ((@) r) (encode_workers t css))"

definition add_bos :: "tokenizer \<Rightarrow> bool \<Rightarrow> int list \<Rightarrow> int list" where
  "add_bos t addBOS ids = (if addBOS \<and> 0 \<le> v_BOS (tk_vocab t) then v_BOS (tk_vocab t) # ids else ids)"

text \<open>\<^verbatim>\<open>Encode\<close>; \<open>procs\<close> is what \<^verbatim>\<open>GOMAXPROCS\<close> answers.\<close>

definition Encode ::
  "nat \<Rightarrow> (string \<Rightarrow> string) \<Rightarrow> (nat \<Rightarrow> bool) \<Rightarrow> tokenizer \<Rightarrow> string \<Rightarrow> bool \<Rightarrow> int list option" where
  "Encode procs nfc word t s addBOS =
     map_option (add_bos t addBOS)
       (case all_chunks word t (encode_parts nfc t s) of
          None \<Rightarrow> None
        | Some chunks \<Rightarrow>
            if length s < 4 * 1024 \<or> procs = 1 then encode_chunks t [] chunks
            else
              (let numWorkers = min procs (length chunks)
               in if numWorkers < 2 \<or> length chunks < numWorkers * 8 then encode_chunks t [] chunks
                  else encode_workers t (worker_chunks numWorkers chunks)))"

section \<open>Decoding\<close>

definition hex_value :: "char \<Rightarrow> nat option" where
  "hex_value c =
     (let b = byte_val c
      in if 48 \<le> b \<and> b \<le> 57 then Some (b - 48)
         else if 97 \<le> b \<and> b \<le> 102 then Some (b - 87)
         else if 65 \<le> b \<and> b \<le> 70 then Some (b - 55)
         else None)"

text \<open>A token like \<^verbatim>\<open><0x0D>\<close> stands for a byte.\<close>

definition byte_token :: "string \<Rightarrow> char option" where
  "byte_token token =
     (case token of
        [a, b, c, d, e, f] \<Rightarrow>
          if a = CHR ''<'' \<and> b = CHR ''0'' \<and> c = CHR ''x'' \<and> f = CHR ''>''
          then (case (hex_value d, hex_value e) of (Some x, Some y) \<Rightarrow> Some (char_of (16 * x + y)) | _ \<Rightarrow> None)
          else None
      | _ \<Rightarrow> None)"

definition decode_byte_rune :: "nat \<Rightarrow> string" where
  "decode_byte_rune r =
     (if r = 0x0100 then []
      else if r = 0x0143 then [char_of (0xAD :: nat)]
      else if 0x0100 < r \<and> r \<le> 0x0120 then [char_of (r - 0x0100)]
      else if 0x0120 < r \<and> r \<le> 0x0142 then [char_of (r - 0x00A2)]
      else [char_of r])"

definition decode_token :: "tokenizer_type \<Rightarrow> string \<Rightarrow> string" where
  "decode_token typ token =
     (case typ of
        TokenizerSentencePiece \<Rightarrow>
          (let token' = replace_all token space_mark '' ''
           in case byte_token token' of Some c \<Rightarrow> [c] | None \<Rightarrow> token')
      | TokenizerBPE \<Rightarrow> concat (map decode_byte_rune (runes_of token)))"

text \<open>\<^verbatim>\<open>Decode\<close>: identifiers beyond the vocabulary are skipped, a negative one panics.\<close>

fun Decode :: "tokenizer \<Rightarrow> int list \<Rightarrow> string option" where
  "Decode t [] = Some []"
| "Decode t (tid # ids) =
     (if int (length (v_Values (tk_vocab t))) \<le> tid then Decode t ids
      else if tid < 0 then None
      else map_option ((@) (decode_token (tk_typ t) (v_Values (tk_vocab t) ! nat tid))) (Decode t ids))"


section \<open>Workers\<close>

lemma encodeChunkInto_ids: "encodeChunkInto t s ids = map_option ((@) ids) (encodeChunkInto t s [])"
  by (simp add: encodeChunkInto_def Let_def encodeBPEMerge_reference split: option.splits)

lemma appendEncodedChunk_ids: "appendEncodedChunk t ids c = map_option ((@) ids) (appendEncodedChunk t [] c)"
  by (simp add: appendEncodedChunk_def encodeChunkInto_ids[of t _ ids] split: option.splits)

lemma encode_chunks_ids: "encode_chunks t ids cs = map_option ((@) ids) (encode_chunks t [] cs)"
proof (induction cs arbitrary: ids)
  case (Cons c cs)
  show ?case
  proof (cases "appendEncodedChunk t [] c")
    case (Some x)
    then have "appendEncodedChunk t ids c = Some (ids @ x)" using appendEncodedChunk_ids[of t ids c] by simp
    with Some show ?thesis using Cons.IH[of "ids @ x"] Cons.IH[of x] by (simp add: option.map_comp comp_def)
  qed (use appendEncodedChunk_ids[of t ids c] in simp)
qed simp

lemma encode_chunks_append:
  "encode_chunks t [] (xs @ ys) =
     (case encode_chunks t [] xs of None \<Rightarrow> None | Some r \<Rightarrow> map_option ((@) r) (encode_chunks t [] ys))"
proof -
  have "encode_chunks t ids (xs @ ys) = (case encode_chunks t ids xs of None \<Rightarrow> None | Some r \<Rightarrow> encode_chunks t r ys)" for ids
    by (induction xs arbitrary: ids) (auto split: option.splits)
  from this[of "[]"] show ?thesis by (auto intro: encode_chunks_ids split: option.splits)
qed

lemma encode_workers_concat: "encode_workers t css = encode_chunks t [] (concat css)"
  by (induction css) (auto simp: encode_chunks_append split: option.splits)

lemma concat_slices: "concat (map (\<lambda>i. take k (drop (i * k) xs)) [0..<n]) = take (n * k) xs"
proof (induction n)
  case (Suc n)
  have "take (Suc n * k) xs = take (n * k) xs @ take k (drop (n * k) xs)"
    using take_add[of "n * k" k xs] by (simp add: add.commute)
  with Suc show ?case by simp
qed simp

lemma concat_worker_chunks:
  assumes "0 < n"
  shows "concat (worker_chunks n cs) = cs"
proof -
  let ?k = "(length cs + n - 1) div n"
  have "(let start = i * ?k; end = min (start + ?k) (length cs) in if end \<le> start then [] else take (end - start) (drop start cs)) =
      take ?k (drop (i * ?k) cs)" for i
    by (cases "i * ?k + ?k \<le> length cs") (auto simp: Let_def min_def)
  then have "concat (worker_chunks n cs) = take (n * ?k) cs"
    unfolding worker_chunks_def Let_def using concat_slices[of ?k cs n] by simp
  moreover have "length cs \<le> n * ?k"
  proof -
    have "length cs + n - 1 = n * ?k + (length cs + n - 1) mod n" by simp
    moreover have "(length cs + n - 1) mod n < n" using assms by simp
    ultimately show ?thesis using assms by linarith
  qed
  ultimately show ?thesis by simp
qed

text \<open>
  C25.  The number of processors does not matter: workers that encode the chunks of a text in parallel
  give what encoding them one after the other gives.
\<close>
theorem encode_workers_irrelevant:
  "Encode procs nfc word t s addBOS = Encode 1 nfc word t s addBOS"
  by (auto simp: Encode_def Let_def encode_workers_concat concat_worker_chunks split: option.splits)

section \<open>Round trips\<close>

text \<open>What a loaded vocabulary is relied on for: identifiers name their tokens, and every byte has one.\<close>

definition vocab_inverse :: "vocabulary \<Rightarrow> bool" where
  "vocab_inverse v \<longleftrightarrow>
     (\<forall>token tid. v_Reverse v token = Some tid \<longrightarrow>
        0 \<le> tid \<and> tid < int (length (v_Values v)) \<and> v_Values v ! nat tid = token)"

definition byte_complete :: "vocabulary \<Rightarrow> bool" where
  "byte_complete v \<longleftrightarrow> (\<forall>b < 256. v_Reverse v (encode_rune (byteToRune b)) \<noteq> None)"

lemma byteToRune_valid: "b < 256 \<Longrightarrow> valid_rune (byteToRune b)"
  by (simp add: byteToRune_def valid_rune_def)

lemma decode_byteToRune: "b < 256 \<Longrightarrow> decode_byte_rune (byteToRune b) = (if b = 0 then [] else [char_of b])"
  by (auto simp: byteToRune_def decode_byte_rune_def)

lemma byte_val_bound: "byte_val c < 256"
  by (metis mod_less_divisor of_char_mod_256 zero_less_numeral)

lemma byte_level_runes: "byte_level s = concat (map encode_rune (map (\<lambda>c. byteToRune (byte_val c)) s))"
  by (simp add: byte_level_def comp_def)

lemma byte_level_valid: "\<forall>r \<in> set (map (\<lambda>c. byteToRune (byte_val c)) s). valid_rune r"
  using byteToRune_valid byte_val_bound by auto

lemma decode_byte_level: "decode_token TokenizerBPE (byte_level s) = filter (\<lambda>c. c \<noteq> CHR 0x00) s"
proof -
  have "decode_byte_rune (byteToRune (byte_val c)) = (if c = CHR 0x00 then [] else [c])" for c
  proof -
    have "c = CHR 0x00 \<longleftrightarrow> byte_val c = 0" using of_char_eq_iff[of c "CHR 0x00", where 'a = nat] by simp
    then show ?thesis using decode_byteToRune[OF byte_val_bound[of c]] by simp
  qed
  then have "concat (map (decode_byte_rune \<circ> (\<lambda>c. byteToRune (byte_val c))) s) = filter (\<lambda>c. c \<noteq> CHR 0x00) s"
    by (induction s) auto
  then show ?thesis
    unfolding decode_token_def byte_level_runes runes_of_encode[OF byte_level_valid] by simp
qed

lemma explode_encode_runes: "\<forall>r \<in> set rs. valid_rune r \<Longrightarrow> explode_runes (concat (map encode_rune rs)) = map encode_rune rs"
proof (induction rs)
  case (Cons r rs)
  have "decode_rune (encode_rune r @ concat (map encode_rune rs)) = (r, length (encode_rune r))"
    using decode_encode_rune[of r] length_encode_rune[of r] Cons.prems by simp
  then show ?case using Cons by (simp add: explode_runes_Cons)
qed simp

lemma bpe_reference_all:
  "\<forall>x \<in> set ts. P x \<Longrightarrow> (\<And>a b. P a \<Longrightarrow> P b \<Longrightarrow> v_Reverse v (a @ b) \<noteq> None \<Longrightarrow> P (a @ b)) \<Longrightarrow>
   (\<forall>x \<in> set (bpe_reference v ts). P x) \<and> concat (bpe_reference v ts) = concat ts"
proof (induction v ts rule: bpe_reference.induct)
  case (1 v ts)
  show ?case
  proof (cases "best_merge v 0 ts")
    case None
    with "1.prems" show ?thesis by (simp add: bpe_reference.simps[of v ts])
  next
    case (Some p)
    obtain rank k where p: "p = (rank, k)" by fastforce
    have k: "Suc k < length ts" "merge_rank v (ts ! k) (ts ! Suc k) = Some rank"
      using best_merge_Some[OF Some[unfolded p]] by simp_all
    have "P (ts ! k @ ts ! Suc k)"
      using k "1.prems" by (auto simp: merge_rank_def split: option.splits if_splits)
    then have "\<forall>x \<in> set (merge_at k ts). P x"
      using "1.prems"(1) by (auto simp: merge_at_def dest: in_set_takeD in_set_dropD)
    from "1.IH"[OF Some p[symmetric] this "1.prems"(2)] show ?thesis
      using Some p k(1) by (simp add: bpe_reference.simps[of v ts] concat_merge_at)
  qed
qed

lemma Decode_append: "Decode t (xs @ ys) = (case Decode t xs of None \<Rightarrow> None | Some a \<Rightarrow> map_option ((@) a) (Decode t ys))"
proof (induction xs)
  case Nil
  show ?case by (cases "Decode t ys") simp_all
next
  case (Cons x xs)
  then show ?case by (cases "Decode t ys") (auto split: option.splits)
qed

lemma Decode_value:
  assumes "vocab_inverse (tk_vocab t)" and "v_Reverse (tk_vocab t) token = Some tid"
  shows "Decode t [tid] = Some (decode_token (tk_typ t) token)"
proof -
  have "0 \<le> tid" "tid < int (length (v_Values (tk_vocab t)))" "v_Values (tk_vocab t) ! nat tid = token"
    using assms unfolding vocab_inverse_def by blast+
  then show ?thesis by simp
qed

lemma decode_token_append:
  "whole_runes a \<Longrightarrow> decode_token TokenizerBPE (a @ b) = decode_token TokenizerBPE a @ decode_token TokenizerBPE b"
  by (simp add: decode_token_def runes_of_append)

lemma Decode_tokens:
  assumes "vocab_inverse (tk_vocab t)" and "tk_typ t = TokenizerBPE"
  shows "\<forall>x \<in> set toks. whole_runes x \<and> v_Reverse (tk_vocab t) x \<noteq> None \<Longrightarrow>
    Decode t (concat (map (token_ids TokenizerBPE (tk_vocab t)) toks)) = Some (decode_token TokenizerBPE (concat toks))"
proof (induction toks)
  case Nil
  show ?case by (simp add: decode_token_def)
next
  case (Cons x toks)
  then obtain tid where x: "v_Reverse (tk_vocab t) x = Some tid" by auto
  have "concat (map (token_ids TokenizerBPE (tk_vocab t)) (x # toks)) =
      [tid] @ concat (map (token_ids TokenizerBPE (tk_vocab t)) toks)"
    by (simp add: token_ids_def x)
  with Decode_value[OF assms(1) x] Cons assms(2) show ?case
    by (simp only: Decode_append) (simp add: decode_token_append del: Decode.simps(2))
qed

lemma encodeChunk_roundtrip:
  assumes "vocab_inverse (tk_vocab t)" and "byte_complete (tk_vocab t)" and "tk_typ t = TokenizerBPE"
  shows "\<exists>ids. encodeChunkInto t s [] = Some ids \<and> Decode t ids = Some (filter (\<lambda>c. c \<noteq> CHR 0x00) s)"
proof (cases "s = []")
  case False
  let ?v = "tk_vocab t" and ?e = "byte_level s"
  have merge: "\<exists>ids. encodeBPEMerge TokenizerBPE ?v ?e [] = Some ids \<and> Decode t ids = Some (filter (\<lambda>c. c \<noteq> CHR 0x00) s)"
  proof -
    let ?ts = "explode_runes ?e"
    have r: "repair_utf8 ?e = ?e"
      using valid_utf8_encode[OF byte_level_valid[of s]] by (simp add: repair_utf8_def byte_level_runes)
    have ts: "?ts = map encode_rune (map (\<lambda>c. byteToRune (byte_val c)) s)"
      using explode_encode_runes[OF byte_level_valid[of s]] by (simp add: byte_level_runes)
    have "\<forall>x \<in> set ?ts. whole_runes x \<and> v_Reverse ?v x \<noteq> None"
      using full_encode_rune(2) byteToRune_valid byte_val_bound assms(2) by (auto simp: ts byte_complete_def)
    from bpe_reference_all[OF this, where v = ?v]
    have "(\<forall>x \<in> set (bpe_reference ?v ?ts). whole_runes x \<and> v_Reverse ?v x \<noteq> None) \<and> concat (bpe_reference ?v ?ts) = ?e"
      by (simp add: whole_runes_append concat_explode_runes)
    with Decode_tokens[OF assms(1,3), of "bpe_reference ?v ?ts"] show ?thesis
      by (simp add: encodeBPEMerge_reference r decode_byte_level)
  qed
  show ?thesis
  proof (cases "(tk_ignoreMerges t \<or> length (runes_of ?e) = 1) \<and> v_Reverse ?v ?e \<noteq> None")
    case True
    then obtain tid where tid: "v_Reverse ?v ?e = Some tid" by auto
    with True False assms(3) have "encodeChunkInto t s [] = Some [tid]" by (auto simp: encodeChunkInto_def)
    with Decode_value[OF assms(1) tid] assms(3) show ?thesis by (simp add: decode_byte_level del: Decode.simps(2))
  next
    case no: False
    then have "encodeChunkInto t s [] = encodeBPEMerge TokenizerBPE ?v ?e []"
      using False assms(3) unfolding encodeChunkInto_def Let_def by (auto split: option.split)
    with merge show ?thesis by simp
  qed
qed (simp add: encodeChunkInto_def)


text \<open>Added tokens that decoding gives back: printable ones, in the vocabulary under their own content.\<close>

definition added_tokens_ok :: "tokenizer \<Rightarrow> (string \<times> string) list \<Rightarrow> bool" where
  "added_tokens_ok t ps \<longleftrightarrow>
     (\<forall>(p, c) \<in> set ps. p = c \<and> c \<noteq> [] \<and> (\<forall>x \<in> set c. x \<noteq> CHR 0x00 \<and> byte_val x < 0x80) \<and>
        (\<exists>tid. tk_specialTokens t c = Some tid \<and> 0 \<le> tid \<and> tid < int (length (v_Values (tk_vocab t))) \<and>
           v_Values (tk_vocab t) ! nat tid = c))"

text \<open>A byte-level tokenizer that neither normalises nor removes text.\<close>

definition lossless :: "tokenizer \<Rightarrow> bool" where
  "lossless t \<longleftrightarrow>
     tk_typ t = TokenizerBPE \<and> vocab_inverse (tk_vocab t) \<and> byte_complete (tk_vocab t) \<and>
     \<not> tk_normalizeNFC t \<and> \<not> tk_normalizeSpaces t \<and> tk_metaspace t = None \<and>
     (\<forall>stages. tk_pretokenizer t = Some stages \<longrightarrow>
        (\<forall>p \<in> set stages. pt_behavior p \<noteq> ''Removed'' \<and> \<not> pt_prefixSpace p \<and> (\<forall>re. pt_re p = Some re \<longrightarrow> sound_regexp p re)))"

lemma ascii_runes: "\<forall>x \<in> set s. byte_val x < 0x80 \<Longrightarrow> runes_of s = map byte_val s"
proof (induction s)
  case (Cons x s)
  then show ?case by (subst runes_of.simps) (simp add: decode_rune_ascii)
qed simp

lemma decode_token_ascii:
  assumes "\<forall>x \<in> set s. byte_val x < 0x80"
  shows "decode_token TokenizerBPE s = s"
proof -
  have "concat (map (decode_byte_rune \<circ> byte_val) s) = s"
    using assms by (induction s) (simp_all add: decode_byte_rune_def)
  then show ?thesis by (simp add: decode_token_def ascii_runes[OF assms])
qed

lemma split_each_keeps:
  "pt_behavior p \<noteq> ''Removed'' \<Longrightarrow> \<not> pt_prefixSpace p \<Longrightarrow> \<forall>re. pt_re p = Some re \<longrightarrow> sound_regexp p re \<Longrightarrow>
   \<exists>pieces. split_each p word parts = Some pieces \<and> concat pieces = concat parts"
proof (induction parts)
  case (Cons s ss)
  obtain pieces where "pre_split p word s = Some pieces" "concat pieces = s"
    using pre_split_keeps[OF Cons.prems(1,3), of word s] Cons.prems(2) by auto
  moreover obtain rest where "split_each p word ss = Some rest" "concat rest = concat ss" using Cons by blast
  ultimately show ?case by simp
qed simp

lemma split_stages_keeps:
  "\<forall>p \<in> set stages. pt_behavior p \<noteq> ''Removed'' \<and> \<not> pt_prefixSpace p \<and> (\<forall>re. pt_re p = Some re \<longrightarrow> sound_regexp p re) \<Longrightarrow>
   \<exists>pieces. split_stages stages word parts = Some pieces \<and> concat pieces = concat parts"
proof (induction stages arbitrary: parts)
  case (Cons p stages)
  then obtain parts' where p: "split_each p word parts = Some parts'" "concat parts' = concat parts"
    using split_each_keeps[of p word parts] by auto
  with Cons.IH[of parts'] Cons.prems show ?case by auto
qed simp

lemma pieces_of_part:
  assumes "lossless t"
  shows "\<exists>pieces. forEachPartChunk word t part = Some pieces \<and> concat pieces = part"
proof (cases "tk_pretokenizer t")
  case None
  with assms show ?thesis by (simp add: forEachPartChunk_def lossless_def)
next
  case (Some stages)
  with assms have s: "\<forall>p \<in> set stages. pt_behavior p \<noteq> ''Removed'' \<and> \<not> pt_prefixSpace p \<and> (\<forall>re. pt_re p = Some re \<longrightarrow> sound_regexp p re)"
    by (simp add: lossless_def)
  from split_stages_keeps[OF s, of word "[part]"] Some show ?thesis by (simp add: forEachPartChunk_def)
qed

text \<open>A chunk whose tokens decode to its text.\<close>

definition chunk_decodes :: "tokenizer \<Rightarrow> encode_chunk \<Rightarrow> bool" where
  "chunk_decodes t c \<longleftrightarrow>
     (\<exists>ids. appendEncodedChunk t [] c = Some ids \<and> Decode t ids = Some (filter (\<lambda>c. c \<noteq> CHR 0x00) (ch_text c)))"

lemma special_decodes:
  assumes "lossless t" and "added_tokens_ok t ps" and "(p, ch_text c) \<in> set ps" and "ch_isSpecial c"
  shows "chunk_decodes t c"
proof -
  obtain tid where tid: "tk_specialTokens t (ch_text c) = Some tid" "0 \<le> tid" "tid < int (length (v_Values (tk_vocab t)))"
      "v_Values (tk_vocab t) ! nat tid = ch_text c"
    and ascii: "\<forall>x \<in> set (ch_text c). x \<noteq> CHR 0x00 \<and> byte_val x < 0x80"
    using bspec[OF assms(2)[unfolded added_tokens_ok_def] assms(3)] that unfolding prod.case by blast
  have "filter (\<lambda>c. c \<noteq> CHR 0x00) (ch_text c) = ch_text c" using ascii by (intro filter_True) auto
  with tid ascii assms(1,4) show ?thesis
    by (simp add: chunk_decodes_def appendEncodedChunk_def lossless_def decode_token_ascii)
qed

lemma text_decodes: "lossless t \<Longrightarrow> \<not> ch_isSpecial c \<Longrightarrow> chunk_decodes t c"
  using encodeChunk_roundtrip[of t "ch_text c"] by (simp add: chunk_decodes_def appendEncodedChunk_def lossless_def)

lemma chunks_decode:
  "\<forall>c \<in> set cs. chunk_decodes t c \<Longrightarrow>
   \<exists>ids. encode_chunks t [] cs = Some ids \<and> Decode t ids = Some (filter (\<lambda>c. c \<noteq> CHR 0x00) (concat (map ch_text cs)))"
proof (induction cs)
  case (Cons c cs)
  obtain x where x: "appendEncodedChunk t [] c = Some x" "Decode t x = Some (filter (\<lambda>c. c \<noteq> CHR 0x00) (ch_text c))"
    using Cons.prems by (auto simp: chunk_decodes_def)
  moreover obtain y where "encode_chunks t [] cs = Some y"
      "Decode t y = Some (filter (\<lambda>c. c \<noteq> CHR 0x00) (concat (map ch_text cs)))"
    using Cons by auto
  ultimately show ?case using encode_chunks_ids[of t x cs] by (simp add: Decode_append)
qed simp

lemma all_chunks_keep:
  assumes "lossless t" and "\<forall>c \<in> set cs. ch_isSpecial c \<longrightarrow> chunk_decodes t c"
  shows "\<exists>chunks. all_chunks word t cs = Some chunks \<and> (\<forall>c \<in> set chunks. chunk_decodes t c) \<and>
    concat (map ch_text chunks) = concat (map ch_text cs)"
  using assms(2)
proof (induction cs)
  case (Cons c cs)
  then obtain chunks where ih: "all_chunks word t cs = Some chunks" "\<forall>c \<in> set chunks. chunk_decodes t c"
    "concat (map ch_text chunks) = concat (map ch_text cs)" by auto
  show ?case
  proof (cases "ch_isSpecial c")
    case True
    with ih Cons.prems show ?thesis by simp
  next
    case False
    obtain pieces where p: "forEachPartChunk word t (ch_text c) = Some pieces" "concat pieces = ch_text c"
      using pieces_of_part[OF assms(1)] by blast
    let ?cs = "map (\<lambda>x. \<lparr>ch_text = x, ch_isSpecial = False\<rparr>) pieces"
    have "\<forall>c \<in> set ?cs. chunk_decodes t c" using text_decodes[OF assms(1)] by auto
    moreover have "concat (map ch_text ?cs) = ch_text c" using p(2) by (simp add: comp_def)
    ultimately show ?thesis using False p ih by (auto simp: comp_def)
  qed
qed simp

lemma matcher_chunks:
  assumes "lossless t" and "added_tokens_ok t ps"
  shows "concat (map ch_text (matcher_split (build_matcher ps) s)) = s"
    and "\<forall>c \<in> set (matcher_split (build_matcher ps) s). ch_isSpecial c \<longrightarrow> chunk_decodes t c"
proof -
  have ps: "\<forall>(p, c) \<in> set ps. c \<noteq> []" "\<forall>(p, c) \<in> set ps. p = c" using assms(2) by (fastforce simp: added_tokens_ok_def)+
  note e = matcher_split_plain[OF ps(1), of s]
  show "concat (map ch_text (matcher_split (build_matcher ps) s)) = s"
    unfolding e using plain_split_spells[OF ps(2), of 0 0 s] by simp
  show "\<forall>c \<in> set (matcher_split (build_matcher ps) s). ch_isSpecial c \<longrightarrow> chunk_decodes t c"
    unfolding e using plain_split_special special_decodes[OF assms] by blast
qed

lemma lossless_roundtrip:
  assumes "lossless t" and "tk_specialTokenMatcher t = build_matcher ps" and "added_tokens_ok t ps"
    and "tk_normalizedTokenMatcher t = build_matcher qs" and "added_tokens_ok t qs"
  shows "\<exists>ids. Encode procs nfc word t s False = Some ids \<and> Decode t ids = Some (filter (\<lambda>c. c \<noteq> CHR 0x00) s)"
proof -
  have n: "normalize nfc t x = x" for x using assms(1) by (simp add: normalize_def lossless_def)
  let ?parts = "matcher_split (build_matcher ps) s"
  have parts: "map (\<lambda>c. if ch_isSpecial c then c else c\<lparr>ch_text := normalize nfc t (ch_text c)\<rparr>) ?parts = ?parts"
    by (rule map_idI) (simp add: n)
  note p = matcher_chunks[OF assms(1,3)] and q = matcher_chunks[OF assms(1,5)]
  have "concat (map ch_text (encode_parts nfc t s)) = s \<and>
    (\<forall>c \<in> set (encode_parts nfc t s). ch_isSpecial c \<longrightarrow> chunk_decodes t c)"
  proof (cases "m_children (build_matcher qs) = []")
    case True
    with assms(1,2,4) p parts show ?thesis by (simp add: encode_parts_def lossless_def)
  next
    case False
    let ?f = "\<lambda>c. if ch_isSpecial c then [c] else matcher_split (build_matcher qs) (ch_text c)"
    have e: "encode_parts nfc t s = concat (map ?f ?parts)"
      unfolding encode_parts_def assms(2,4) Let_def parts using False assms(1) by (simp add: lossless_def)
    have "concat (map ch_text (concat (map ?f cs))) = concat (map ch_text cs)" for cs
      by (induction cs) (auto simp: q)
    with p(1) have "concat (map ch_text (encode_parts nfc t s)) = s" by (simp add: e)
    moreover have "\<forall>c \<in> set (encode_parts nfc t s). ch_isSpecial c \<longrightarrow> chunk_decodes t c"
      using p(2) q(2) unfolding e by (auto split: if_splits)
    ultimately show ?thesis by blast
  qed
  then obtain chunks where c: "all_chunks word t (encode_parts nfc t s) = Some chunks" "\<forall>c \<in> set chunks. chunk_decodes t c"
    "concat (map ch_text chunks) = s"
    using all_chunks_keep[OF assms(1), of "encode_parts nfc t s" word] by auto
  from chunks_decode[OF c(2)] obtain ids where
    ids: "encode_chunks t [] chunks = Some ids" "Decode t ids = Some (filter (\<lambda>c. c \<noteq> CHR 0x00) s)"
    unfolding c(3) by blast
  then have "Encode procs nfc word t s False = Some ids"
    using c(1) by (auto simp: Encode_def Let_def encode_workers_concat concat_worker_chunks add_bos_def)
  with ids(2) show ?thesis by blast
qed

text \<open>
   What a byte-level tokenizer that does not normalise encodes, it decodes: for every text and any number
  of processors, encoding succeeds, and decoding the tokens gives the text without its NUL bytes,
  which \<^verbatim>\<open>Decode\<close> omits.
\<close>
theorem encode_decode_roundtrip:
  assumes "lossless t" and "tk_specialTokenMatcher t = build_matcher ps" and "added_tokens_ok t ps"
    and "tk_normalizedTokenMatcher t = build_matcher qs" and "added_tokens_ok t qs"
  shows "\<exists>ids. Encode procs nfc word t s False = Some ids \<and> Decode t ids = Some (filter (\<lambda>c. c \<noteq> CHR 0x00) s)"
  using assms by (rule lossless_roundtrip)

section \<open>Examples\<close>

definition example_values :: "string list" where
  "example_values = map (\<lambda>b. encode_rune (byteToRune b)) [0..<256] @ [''ab'', ''<x>'']"

definition example_vocab :: vocabulary where
  "example_vocab =
     \<lparr>v_Values = example_values, v_Reverse = map_of (zip example_values (map int [0..<258])),
      v_Merges = [''a b'' \<mapsto> 0], v_BOS = -1, v_EOS = [], v_PAD = -1, v_AddBOS = False, v_AddEOS = False,
      v_byteTokens = replicate 256 (-1)\<rparr>"

definition example_tokenizer :: tokenizer where
  "example_tokenizer =
     \<lparr>tk_vocab = example_vocab, tk_pretokenizer = Some [space_stage\<lparr>pt_prefixSpace := False\<rparr>],
      tk_specialTokens = [''<x>'' \<mapsto> 257], tk_specialTokenMatcher = build_matcher [(''<x>'', ''<x>'')],
      tk_normalizedTokenMatcher = build_matcher [], tk_typ = TokenizerBPE, tk_normalizeNFC = False,
      tk_normalizeSpaces = False, tk_ignoreMerges = False, tk_metaspace = None\<rparr>"

lemma length_example_values: "length example_values = 258"
  by (simp add: example_values_def)

lemma example_vocab_ok: "vocab_inverse example_vocab" "byte_complete example_vocab"
proof -
  have "0 \<le> tid \<and> tid < 258 \<and> example_values ! nat tid = token"
    if "map_of (zip example_values (map int [0..<258])) token = Some tid" for token tid
  proof -
    from map_of_SomeD[OF that] obtain i where "i < 258" "token = example_values ! i" "tid = int i"
      by (auto simp: set_zip length_example_values)
    then show ?thesis by simp
  qed
  then show "vocab_inverse example_vocab" by (auto simp: vocab_inverse_def example_vocab_def length_example_values)
  have "map_of (zip example_values (map int [0..<258])) (encode_rune (byteToRune b)) \<noteq> None" if "b < 256" for b
  proof -
    have "length example_values = length (map int [0..<258])" by (simp add: length_example_values)
    moreover have "encode_rune (byteToRune b) \<in> set example_values" using that by (simp add: example_values_def)
    ultimately show ?thesis by (metis map_of_zip_is_None)
  qed
  then show "byte_complete example_vocab" by (simp add: byte_complete_def example_vocab_def)
qed

lemma example_tokenizer_lossless: "lossless example_tokenizer"
proof -
  have "sound_regexp (space_stage\<lparr>pt_prefixSpace := False\<rparr>) space_regexp"
    using space_regexp_sound by (simp add: sound_regexp_def space_stage_def)
  then show ?thesis
    using example_vocab_ok by (simp add: lossless_def example_tokenizer_def space_stage_def)
qed

theorem encode_decode_roundtrip_witness:
  "\<exists>ids. Encode 4 (\<lambda>s. s) (\<lambda>_. False) example_tokenizer ''ab <x>ba'' False = Some ids \<and>
     Decode example_tokenizer ids = Some ''ab <x>ba''"
proof -
  have v: "example_values ! 257 = ''<x>''"
    using nth_append_length_plus[of "map (\<lambda>b. encode_rune (byteToRune b)) [0..<256]" "[''ab'', ''<x>'']" 1]
    by (simp add: example_values_def)
  have s: "tk_specialTokens example_tokenizer ''<x>'' = Some 257" "v_Values (tk_vocab example_tokenizer) = example_values"
    by (simp_all add: example_tokenizer_def example_vocab_def)
  have "added_tokens_ok example_tokenizer [(''<x>'', ''<x>'')]"
    unfolding added_tokens_ok_def s(2) using s(1) v by (simp add: length_example_values)
  moreover have "added_tokens_ok example_tokenizer []" by (simp add: added_tokens_ok_def)
  moreover have "tk_specialTokenMatcher example_tokenizer = build_matcher [(''<x>'', ''<x>'')]"
    "tk_normalizedTokenMatcher example_tokenizer = build_matcher []"
    by (simp_all add: example_tokenizer_def)
  ultimately have "\<exists>ids. Encode 4 (\<lambda>s. s) (\<lambda>_. False) example_tokenizer ''ab <x>ba'' False = Some ids \<and>
      Decode example_tokenizer ids = Some (filter (\<lambda>c. c \<noteq> CHR 0x00) ''ab <x>ba'')"
    by (intro encode_decode_roundtrip example_tokenizer_lossless)
  moreover have "filter (\<lambda>c. c \<noteq> CHR 0x00) ''ab <x>ba'' = ''ab <x>ba''" by simp
  ultimately show ?thesis by (simp only:)
qed

text \<open>
  Decoding an added token keeps the low byte of every rune: content that is not ASCII, as in the tags of
  DeepSeek models with their U+FF5C, comes out as other text.
\<close>
theorem decode_garbles_added_token:
  assumes "tk_typ t = TokenizerBPE" and "v_Values (tk_vocab t) = [encode_rune 0xFF5C @ ''User'' @ encode_rune 0xFF5C]"
  shows "Decode t [0] = Some ([CHR 0x5C] @ ''User'' @ [CHR 0x5C])"
proof -
  have "decode_token TokenizerBPE (encode_rune 0xFF5C @ ''User'' @ encode_rune 0xFF5C) = [CHR 0x5C] @ ''User'' @ [CHR 0x5C]"
  proof -
    have "runes_of (encode_rune 0xFF5C) = [0xFF5C]" "whole_runes (encode_rune 0xFF5C)"
      using runes_of_encode[of "[0xFF5C]"] full_encode_rune(2)[of "0xFF5C"] by (simp_all add: valid_rune_def)
    moreover have "char_of (0xFF5C :: nat) = CHR 0x5C"
    proof -
      have "char_of ((0xFF5C :: nat) mod 256) = char_of (0xFF5C :: nat)" by (rule char_of_mod_256)
      moreover have "(0xFF5C :: nat) mod 256 = 92" by simp
      moreover have "char_of (92 :: nat) = CHR 0x5C" by code_simp
      ultimately show ?thesis by (simp only:)
    qed
    moreover have "whole_runes ''User''" by (intro ascii_whole_runes) simp
    ultimately show ?thesis
      using decode_token_ascii[of "''User''"]
      by (simp only: decode_token_append) (simp add: decode_token_def decode_byte_rune_def)
  qed
  moreover have "Decode t [0] = Some (decode_token TokenizerBPE (encode_rune 0xFF5C @ ''User'' @ encode_rune 0xFF5C))"
    unfolding Decode.simps assms by simp
  ultimately show ?thesis by simp
qed

end
