(* ===== verification/TokenizerLoad.thy ===== *)
theory TokenizerLoad
  imports Tokenizer
begin

text \<open>
  \<^verbatim>\<open>mlxrunner/tokenizer/tokenizer_load.go\<close>: how a tokenizer is built from a parsed
  \<^verbatim>\<open>tokenizer.json\<close>.  The vocabulary is a list in the order in which Go happens to visit the map;
  the stages of the pretokenizer come compiled.
\<close>

section \<open>The parsed file\<close>

record raw_added =
  ra_ID :: int
  ra_Content :: string
  ra_Special :: bool
  ra_Normalized :: bool

datatype raw_merges = NoMerges | MergeStrings "string list" | MergeArrays "string list list"

record raw_normalizer =
  rn_Type :: string
  rn_Pattern :: "string option"
  rn_Content :: string

record raw_pre =
  rp_Type :: string
  rp_Replacement :: string
  rp_PrependScheme :: string
  rp_Split :: bool

record raw_tokenizer =
  rt_Type :: string
  rt_IgnoreMerges :: bool
  rt_Vocab :: "(string \<times> int) list"
  rt_Merges :: raw_merges
  rt_PreTokenizer :: raw_pre
  rt_Normalizer :: raw_normalizer
  rt_Decoder :: "(string \<times> (string \<times> string) list) option"
  rt_AddedTokens :: "raw_added list"

datatype 'e load_error =
    UnsupportedModel string
  | BadMergePair nat
  | BadIndex int
  | UnsupportedMetaspace raw_pre
  | BadPretokenizer 'e

section \<open>Loading\<close>

fun join_pairs :: "string list list \<Rightarrow> 'e load_error + string list" where
  "join_pairs [] = Inr []"
| "join_pairs (pair # pairs) =
     (case pair of
        [a, b] \<Rightarrow> (case join_pairs pairs of Inl e \<Rightarrow> Inl e | Inr ms \<Rightarrow> Inr ((a @ '' '' @ b) # ms))
      | _ \<Rightarrow> Inl (BadMergePair (length pair)))"

definition merge_strings :: "raw_merges \<Rightarrow> 'e load_error + string list" where
  "merge_strings m = (case m of NoMerges \<Rightarrow> Inr [] | MergeStrings ms \<Rightarrow> Inr ms | MergeArrays pairs \<Rightarrow> join_pairs pairs)"

text \<open>Storing a token under its identifier; the table grows as needed, a negative index panics.\<close>

definition set_value :: "string list \<Rightarrow> int \<Rightarrow> string \<Rightarrow> 'e load_error + string list" where
  "set_value vals tid token =
     (if tid < 0 then Inl (BadIndex tid)
      else (let vals' = (if int (length vals) \<le> tid then vals @ replicate (nat tid + 1 - length vals) [] else vals)
            in Inr (vals'[nat tid := token])))"

fun set_values :: "string list \<Rightarrow> (string \<times> int) list \<Rightarrow> 'e load_error + string list" where
  "set_values vals [] = Inr vals"
| "set_values vals ((token, tid) # rest) =
     (case set_value vals tid token of Inl e \<Rightarrow> Inl e | Inr vals' \<Rightarrow> set_values vals' rest)"

definition merge_ranks :: "string list \<Rightarrow> string \<Rightarrow> int option" where
  "merge_ranks ms = foldl (\<lambda>m (i, merge). m(merge \<mapsto> int i)) (\<lambda>_. None) (zip [0..<length ms] ms)"

text \<open>Added tokens: each nonempty content is stored and looked up as a special token.\<close>

definition added_pairs :: "raw_added list \<Rightarrow> (string \<times> int) list" where
  "added_pairs added = map (\<lambda>a. (ra_Content a, ra_ID a)) (filter (\<lambda>a. ra_Content a \<noteq> []) added)"

definition special_tokens :: "raw_added list \<Rightarrow> string \<Rightarrow> int option" where
  "special_tokens added = foldl (\<lambda>m (content, tid). m(content \<mapsto> tid)) (\<lambda>_. None) (added_pairs added)"

definition hex_upper :: "nat \<Rightarrow> char" where
  "hex_upper n = char_of (if n < 10 then 48 + n else 55 + n)"

definition byteTokens :: "(string \<Rightarrow> int option) \<Rightarrow> int list" where
  "byteTokens reverse =
     map (\<lambda>b. case reverse (''<0x'' @ [hex_upper (b div 16), hex_upper (b mod 16)] @ ''>'') of
                Some tid \<Rightarrow> tid
              | None \<Rightarrow> -1) [0..<256]"

definition detectSentencePiece :: "(string \<times> (string \<times> string) list) option \<Rightarrow> bool" where
  "detectSentencePiece decoder =
     (case decoder of
        None \<Rightarrow> False
      | Some (kind, decoders) \<Rightarrow> kind = ''Sequence'' \<and> list_ex (\<lambda>(k, pat). k = ''Replace'' \<and> pat = space_mark) decoders)"

text \<open>The patterns of the two matchers: special tokens come first.\<close>

definition matcher_pairs :: "(string \<Rightarrow> string) \<Rightarrow> bool \<Rightarrow> raw_added list \<Rightarrow> (string \<times> string) list" where
  "matcher_pairs norm normalized added =
     map (\<lambda>a. (if normalized then norm (ra_Content a) else ra_Content a, ra_Content a))
       (filter (\<lambda>a. ra_Normalized a = normalized) (filter ra_Special added @ filter (\<lambda>a. \<not> ra_Special a) added))"

definition load_metaspace :: "raw_pre \<Rightarrow> 'e load_error + metaspace option" where
  "load_metaspace pre =
     (if rp_Type pre = ''Metaspace''
      then (if rp_Replacement pre \<noteq> space_mark \<or>
               (rp_PrependScheme pre \<noteq> ''always'' \<and> rp_PrependScheme pre \<noteq> ''first'' \<and> rp_PrependScheme pre \<noteq> ''never'')
            then Inl (UnsupportedMetaspace pre)
            else Inr (Some \<lparr>ms_PrependScheme = rp_PrependScheme pre, ms_Split = rp_Split pre\<rparr>))
      else Inr None)"

text \<open>The tokenizer of the parsed parts; the matchers hold the added tokens as it normalises them.\<close>

definition assemble ::
  "(string \<Rightarrow> string) \<Rightarrow> raw_tokenizer \<Rightarrow> string list \<Rightarrow> string list \<Rightarrow> metaspace option \<Rightarrow> tokenizer_type \<Rightarrow>
   pretokenizer list option \<Rightarrow> tokenizer" where
  "assemble nfc raw merges vals ms typ pre =
     (let reverse = map_of (rt_Vocab raw);
          n = rt_Normalizer raw;
          t = \<lparr>tk_vocab = \<lparr>v_Values = vals, v_Reverse = reverse, v_Merges = merge_ranks merges, v_BOS = -1,
                  v_EOS = [], v_PAD = -1, v_AddBOS = False, v_AddEOS = False, v_byteTokens = byteTokens reverse\<rparr>,
                tk_pretokenizer = pre, tk_specialTokens = special_tokens (rt_AddedTokens raw),
                tk_specialTokenMatcher = empty_matcher, tk_normalizedTokenMatcher = empty_matcher,
                tk_typ = typ, tk_normalizeNFC = (rn_Type n = ''NFC''),
                tk_normalizeSpaces = (rn_Type n = ''Replace'' \<and> rn_Pattern n = Some '' '' \<and> rn_Content n = space_mark),
                tk_ignoreMerges = rt_IgnoreMerges raw, tk_metaspace = ms\<rparr>
      in t\<lparr>tk_specialTokenMatcher := build_matcher (matcher_pairs (normalize nfc t) False (rt_AddedTokens raw)),
            tk_normalizedTokenMatcher := build_matcher (matcher_pairs (normalize nfc t) True (rt_AddedTokens raw))\<rparr>)"

definition load_tokenizer ::
  "(string \<Rightarrow> string) \<Rightarrow> 'e + pretokenizer list \<Rightarrow> raw_tokenizer \<Rightarrow> 'e load_error + tokenizer" where
  "load_tokenizer nfc stages raw =
     (if rt_Type raw \<noteq> ''BPE'' then Inl (UnsupportedModel (rt_Type raw))
      else
        (case merge_strings (rt_Merges raw) of
           Inl e \<Rightarrow> Inl e
         | Inr merges \<Rightarrow>
             (case set_values (replicate (length (rt_Vocab raw)) []) (rt_Vocab raw @ added_pairs (rt_AddedTokens raw)) of
                Inl e \<Rightarrow> Inl e
              | Inr vals \<Rightarrow>
                  (case load_metaspace (rt_PreTokenizer raw) of
                     Inl e \<Rightarrow> Inl e
                   | Inr ms \<Rightarrow>
                       (let typ = (if detectSentencePiece (rt_Decoder raw) \<or> ms \<noteq> None then TokenizerSentencePiece else TokenizerBPE)
                        in case (if typ = TokenizerBPE then map_sum BadPretokenizer Some stages else Inr None) of
                             Inl e \<Rightarrow> Inl e
                           | Inr pre \<Rightarrow> Inr (assemble nfc raw merges vals ms typ pre))))))"

section \<open>The table of tokens\<close>

lemma set_value_facts:
  assumes "set_value vals tid token = (Inr vals' :: 'e load_error + _)"
  shows "0 \<le> tid \<and> tid < int (length vals') \<and> length vals \<le> length vals' \<and> vals' ! nat tid = token \<and>
    (\<forall>i. i < length vals \<longrightarrow> i \<noteq> nat tid \<longrightarrow> vals' ! i = vals ! i)"
  using assms by (auto simp: set_value_def Let_def nth_append nth_list_update split: if_splits)

lemma set_values_facts:
  fixes vals' :: "string list"
  shows "set_values vals ps = (Inr vals' :: 'e load_error + _) \<Longrightarrow>
   length vals \<le> length vals' \<and>
   (\<forall>i < length vals. i \<notin> (nat \<circ> snd) ` set ps \<longrightarrow> vals' ! i = vals ! i) \<and>
   (\<forall>(token, tid) \<in> set ps. 0 \<le> tid \<and> tid < int (length vals') \<and>
      (\<exists>token'. (token', tid) \<in> set ps \<and> vals' ! nat tid = token'))"
proof (induction ps arbitrary: vals)
  case (Cons p rest)
  obtain token tid where p: "p = (token, tid)" by fastforce
  obtain v where v: "set_value vals tid token = (Inr v :: 'e load_error + _)" and r: "set_values v rest = (Inr vals' :: 'e load_error + _)"
    using Cons.prems by (auto simp: p split: sum.splits)
  note f = set_value_facts[OF v] and ih = Cons.IH[OF r]
  have "0 \<le> tid \<and> tid < int (length vals') \<and> (\<exists>token'. (token', tid) \<in> set ((token, tid) # rest) \<and> vals' ! nat tid = token')"
  proof (cases "\<exists>token'. (token', tid) \<in> set rest")
    case True
    with ih show ?thesis by fastforce
  next
    case False
    have "nat tid \<notin> (nat \<circ> snd) ` set rest"
    proof
      assume "nat tid \<in> (nat \<circ> snd) ` set rest"
      then obtain token' tid' where t: "(token', tid') \<in> set rest" "nat tid' = nat tid" by fastforce
      with ih have "0 \<le> tid'" by fastforce
      with t f False show False by (metis eq_nat_nat_iff)
    qed
    with ih f have "vals' ! nat tid = token" by (simp add: nat_less_iff)
    with ih f show ?thesis by auto
  qed
  moreover have "vals' ! i = vals ! i" if "i < length vals" "i \<notin> (nat \<circ> snd) ` set ((token, tid) # rest)" for i
    using that ih f by auto
  moreover have "length vals \<le> length vals'" using ih f by simp
  moreover have "0 \<le> tid' \<and> tid' < int (length vals') \<and> (\<exists>token'. (token', tid') \<in> set (p # rest) \<and> vals' ! nat tid' = token')"
    if "(t, tid') \<in> set rest" for t tid'
    using conjunct2[OF conjunct2[OF ih]] that by fastforce
  ultimately show ?case unfolding p by (intro conjI ballI) (auto simp del: ex_simps)
qed simp

text \<open>No two entries of the file claim an identifier for different tokens.\<close>

definition ids_unique :: "raw_tokenizer \<Rightarrow> bool" where
  "ids_unique raw \<longleftrightarrow>
     (\<forall>(x, i) \<in> set (rt_Vocab raw @ added_pairs (rt_AddedTokens raw)).
        \<forall>(y, j) \<in> set (rt_Vocab raw @ added_pairs (rt_AddedTokens raw)). i = j \<longrightarrow> x = y)"

lemma assemble_values: "v_Values (tk_vocab (assemble nfc raw merges vals ms typ pre)) = vals"
  by (simp add: assemble_def Let_def)

lemma load_tokenizer_cases:
  assumes "load_tokenizer nfc stages raw = (Inr t :: 'e load_error + _)"
  obtains merges vals ms pre where "merge_strings (rt_Merges raw) = (Inr merges :: 'e load_error + _)"
    "set_values (replicate (length (rt_Vocab raw)) []) (rt_Vocab raw @ added_pairs (rt_AddedTokens raw)) = (Inr vals :: 'e load_error + _)"
    "load_metaspace (rt_PreTokenizer raw) = (Inr ms :: 'e load_error + _)"
    "if detectSentencePiece (rt_Decoder raw) \<or> ms \<noteq> None then t = assemble nfc raw merges vals ms TokenizerSentencePiece None
     else map_sum BadPretokenizer Some stages = Inr pre \<and> t = assemble nfc raw merges vals ms TokenizerBPE pre"
proof -
  let ?merges = "merge_strings (rt_Merges raw) :: 'e load_error + _"
  let ?vals = "set_values (replicate (length (rt_Vocab raw)) []) (rt_Vocab raw @ added_pairs (rt_AddedTokens raw)) :: 'e load_error + _"
  let ?ms = "load_metaspace (rt_PreTokenizer raw) :: 'e load_error + _"
  have bpe: "rt_Type raw = ''BPE''" using assms by (rule_tac ccontr) (simp add: load_tokenizer_def)
  obtain merges where m: "?merges = Inr merges"
    using assms bpe by (cases ?merges) (simp_all add: load_tokenizer_def)
  obtain vals where v: "?vals = Inr vals"
    using assms bpe m by (cases ?vals) (simp_all add: load_tokenizer_def)
  obtain ms where ms: "?ms = Inr ms"
    using assms bpe m v by (cases ?ms) (simp_all add: load_tokenizer_def)
  show ?thesis
  proof (cases "detectSentencePiece (rt_Decoder raw) \<or> ms \<noteq> None")
    case True
    then have "t = assemble nfc raw merges vals ms TokenizerSentencePiece None"
      using assms bpe m v ms by (auto simp: load_tokenizer_def)
    with that[OF m v ms] True show ?thesis by simp
  next
    case False
    then obtain pre where "map_sum BadPretokenizer Some stages = (Inr pre :: 'e load_error + _)"
        "t = assemble nfc raw merges vals ms TokenizerBPE pre"
      using assms bpe m v ms by (auto simp: load_tokenizer_def split: sum.splits)
    with that[OF m v ms] False show ?thesis by simp
  qed
qed

lemma loaded_value:
  assumes "load_tokenizer nfc stages raw = Inr t" and "ids_unique raw"
    and "(token, tid) \<in> set (rt_Vocab raw @ added_pairs (rt_AddedTokens raw))"
  shows "0 \<le> tid \<and> tid < int (length (v_Values (tk_vocab t))) \<and> v_Values (tk_vocab t) ! nat tid = token"
proof -
  let ?ps = "rt_Vocab raw @ added_pairs (rt_AddedTokens raw)"
  have "set_values (replicate (length (rt_Vocab raw)) []) ?ps = (Inr (v_Values (tk_vocab t)) :: 'a load_error + _)"
    by (rule load_tokenizer_cases[OF assms(1)]) (auto simp: assemble_values split: if_splits)
  from set_values_facts[OF this] assms(3) obtain token' where
    "0 \<le> tid" "tid < int (length (v_Values (tk_vocab t)))" "(token', tid) \<in> set ?ps" "v_Values (tk_vocab t) ! nat tid = token'"
    by fastforce
  moreover have "token' = token" using assms(2,3) \<open>(token', tid) \<in> set ?ps\<close> unfolding ids_unique_def by fastforce
  ultimately show ?thesis by simp
qed

lemma foldl_map_upd:
  "foldl (\<lambda>m (content, tid). m(content \<mapsto> tid)) m0 ps c = (case map_of (rev ps) c of Some tid \<Rightarrow> Some tid | None \<Rightarrow> m0 c)"
  by (induction ps arbitrary: m0) (auto simp: map_add_def split: option.splits)

lemma special_tokens_content:
  assumes "a \<in> set added" and "ra_Content a \<noteq> []"
  shows "\<exists>tid. special_tokens added (ra_Content a) = Some tid \<and> (ra_Content a, tid) \<in> set (added_pairs added)"
proof -
  have "(ra_Content a, ra_ID a) \<in> set (rev (added_pairs added))" using assms by (auto simp: added_pairs_def)
  then obtain tid where "map_of (rev (added_pairs added)) (ra_Content a) = Some tid" by (metis weak_map_of_SomeI)
  with map_of_SomeD[OF this] show ?thesis by (auto simp: special_tokens_def foldl_map_upd)
qed

text \<open>A file of a byte-level tokenizer without normalisation whose added tokens are printable.\<close>

definition plain_file :: "raw_tokenizer \<Rightarrow> bool" where
  "plain_file raw \<longleftrightarrow>
     ids_unique raw \<and> \<not> detectSentencePiece (rt_Decoder raw) \<and> rp_Type (rt_PreTokenizer raw) \<noteq> ''Metaspace'' \<and>
     rn_Type (rt_Normalizer raw) \<noteq> ''NFC'' \<and> rn_Type (rt_Normalizer raw) \<noteq> ''Replace'' \<and>
     (\<forall>b < 256. encode_rune (byteToRune b) \<in> fst ` set (rt_Vocab raw)) \<and>
     (\<forall>a \<in> set (rt_AddedTokens raw).
        ra_Content a \<noteq> [] \<and> (\<forall>x \<in> set (ra_Content a). x \<noteq> CHR 0x00 \<and> byte_val x < 0x80))"

lemma loaded_fields:
  assumes "load_tokenizer nfc (Inr stages) raw = (Inr t :: 'e load_error + _)" and "plain_file raw"
  shows "tk_typ t = TokenizerBPE" and "v_Reverse (tk_vocab t) = map_of (rt_Vocab raw)" and "tk_metaspace t = None"
    and "\<not> tk_normalizeNFC t" and "\<not> tk_normalizeSpaces t" and "tk_pretokenizer t = Some stages"
    and "tk_specialTokens t = special_tokens (rt_AddedTokens raw)"
    and "\<exists>norm. tk_specialTokenMatcher t = build_matcher (matcher_pairs norm False (rt_AddedTokens raw))"
    and "tk_normalizedTokenMatcher t = build_matcher (matcher_pairs (\<lambda>s. s) True (rt_AddedTokens raw))"
proof -
  have n: "rn_Type (rt_Normalizer raw) \<noteq> ''NFC''" "rn_Type (rt_Normalizer raw) \<noteq> ''Replace''" "\<not> detectSentencePiece (rt_Decoder raw)"
    and ms: "load_metaspace (rt_PreTokenizer raw) = (Inr None :: 'e load_error + _)"
    using assms(2) by (simp_all add: plain_file_def load_metaspace_def)
  have norm: "normalize nfc t' = (\<lambda>s. s)" if "\<not> tk_normalizeNFC t'" "\<not> tk_normalizeSpaces t'" for t'
    using that by (auto simp: normalize_def)
  obtain merges vals where t: "t = assemble nfc raw merges vals None TokenizerBPE (Some stages)"
    by (rule load_tokenizer_cases[OF assms(1)]) (use ms n(3) that in \<open>auto split: if_splits\<close>)
  show "tk_typ t = TokenizerBPE" "v_Reverse (tk_vocab t) = map_of (rt_Vocab raw)" "tk_metaspace t = None"
    "\<not> tk_normalizeNFC t" "\<not> tk_normalizeSpaces t" "tk_pretokenizer t = Some stages"
    "tk_specialTokens t = special_tokens (rt_AddedTokens raw)"
    "\<exists>norm. tk_specialTokenMatcher t = build_matcher (matcher_pairs norm False (rt_AddedTokens raw))"
    "tk_normalizedTokenMatcher t = build_matcher (matcher_pairs (\<lambda>s. s) True (rt_AddedTokens raw))"
    using n by (auto simp: t assemble_def Let_def norm)
qed

text \<open>
  C6.  A tokenizer loaded from a plain byte-level file keeps texts: whatever order the vocabulary is
  visited in, encoding and then decoding a text gives it back without its NUL bytes.  The file is
  plain: every byte has a token, identifiers are used once, the added tokens are non-empty ASCII
  text without NUL, there is no NFC or replacing normalizer, no SentencePiece decoder and no
  Metaspace stage; no stage of the pretokenizer removes text or adds a space; and the matches of
  their regular expressions are, as documented, spans of the text in order.
\<close>
theorem loaded_tokenizer_roundtrip:
  assumes "load_tokenizer nfc (Inr stages) raw = (Inr t :: 'e load_error + _)" and "plain_file raw"
    and "\<forall>p \<in> set stages. pt_behavior p \<noteq> ''Removed'' \<and> \<not> pt_prefixSpace p \<and> (\<forall>re. pt_re p = Some re \<longrightarrow> sound_regexp p re)"
  shows "\<exists>ids. Encode procs nfc word t s False = Some ids \<and> Decode t ids = Some (filter (\<lambda>c. c \<noteq> CHR 0x00) s)"
proof -
  let ?added = "rt_AddedTokens raw"
  note f = loaded_fields[OF assms(1,2)]
  have u: "ids_unique raw" using assms(2) by (simp add: plain_file_def)
  have "vocab_inverse (tk_vocab t)"
    using loaded_value[OF assms(1) u] map_of_SomeD[of "rt_Vocab raw"] by (auto simp: vocab_inverse_def f(2))
  moreover have "byte_complete (tk_vocab t)"
    using assms(2) by (auto simp: byte_complete_def f(2) plain_file_def map_of_eq_None_iff)
  ultimately have l: "lossless t" using f assms(3) by (auto simp: lossless_def)
  have ok: "\<exists>tid. tk_specialTokens t c = Some tid \<and> 0 \<le> tid \<and> tid < int (length (v_Values (tk_vocab t))) \<and> v_Values (tk_vocab t) ! nat tid = c"
    if ac: "a \<in> set ?added" "c = ra_Content a" for a c
  proof -
    have "ra_Content a \<noteq> []" using ac(1) assms(2) by (simp add: plain_file_def)
    then obtain tid where tid: "special_tokens ?added c = Some tid" "(c, tid) \<in> set (added_pairs ?added)"
      using special_tokens_content[OF ac(1)] ac(2) by blast
    with loaded_value[OF assms(1) u, of c tid] f(7) show ?thesis by auto
  qed
  have printable: "c \<noteq> [] \<and> (\<forall>x \<in> set c. x \<noteq> CHR 0x00 \<and> byte_val x < 0x80)" if "a \<in> set ?added" "c = ra_Content a" for a c
    using that assms(2) by (simp add: plain_file_def)
  obtain norm where sm: "tk_specialTokenMatcher t = build_matcher (matcher_pairs norm False ?added)" using f(8) by blast
  have gen: "added_tokens_ok t ps" if ps: "\<forall>(p, c) \<in> set ps. p = c \<and> (\<exists>a \<in> set ?added. c = ra_Content a)" for ps
    unfolding added_tokens_ok_def
  proof (rule ballI)
    fix x assume x: "x \<in> set ps"
    obtain p c where pc: "x = (p, c)" by fastforce
    with bspec[OF ps x] obtain a where a: "p = c" "a \<in> set ?added" "c = ra_Content a" by auto
    from ok[OF a(2,3)] printable[OF a(2,3)] a(1)
    show "case x of (p, c) \<Rightarrow> p = c \<and> c \<noteq> [] \<and> (\<forall>x \<in> set c. x \<noteq> CHR 0x00 \<and> byte_val x < 0x80) \<and>
        (\<exists>tid. tk_specialTokens t c = Some tid \<and> 0 \<le> tid \<and> tid < int (length (v_Values (tk_vocab t))) \<and>
           v_Values (tk_vocab t) ! nat tid = c)"
      unfolding pc prod.case by blast
  qed
  have "added_tokens_ok t (matcher_pairs norm False ?added)" "added_tokens_ok t (matcher_pairs (\<lambda>s. s) True ?added)"
    by (intro gen; auto simp: matcher_pairs_def)+
  from lossless_roundtrip[OF l sm this(1) f(9) this(2)] show ?thesis .
qed


section \<open>An example\<close>

definition example_file :: raw_tokenizer where
  "example_file =
     \<lparr>rt_Type = ''BPE'', rt_IgnoreMerges = False,
      rt_Vocab = zip (map (\<lambda>b. encode_rune (byteToRune b)) [0..<256] @ [''ab'']) (map int [0..<257]),
      rt_Merges = MergeArrays [[''a'', ''b'']],
      rt_PreTokenizer = \<lparr>rp_Type = ''Split'', rp_Replacement = [], rp_PrependScheme = [], rp_Split = False\<rparr>,
      rt_Normalizer = \<lparr>rn_Type = [], rn_Pattern = None, rn_Content = []\<rparr>, rt_Decoder = None,
      rt_AddedTokens = [\<lparr>ra_ID = 257, ra_Content = ''<x>'', ra_Special = True, ra_Normalized = False\<rparr>]\<rparr>"

lemma set_values_total:
  "\<forall>(x, i) \<in> set ps. 0 \<le> i \<Longrightarrow> \<exists>vals'. set_values vals ps = (Inr vals' :: unit load_error + string list)"
proof (induction ps arbitrary: vals)
  case (Cons p ps)
  obtain x i where p: "p = (x, i)" by fastforce
  with Cons.prems obtain v where "set_value vals i x = (Inr v :: unit load_error + string list)" by (simp add: set_value_def)
  with Cons p show ?case by auto
qed simp

lemma example_vocab_pairs:
  "(x, i) \<in> set (rt_Vocab example_file) \<longleftrightarrow>
   (\<exists>k < 257. i = int k \<and> x = (map (\<lambda>b. encode_rune (byteToRune b)) [0..<256] @ [''ab'']) ! k)"
  unfolding example_file_def raw_tokenizer.simps set_zip by auto

lemma example_file_added: "added_pairs (rt_AddedTokens example_file) = [(''<x>'', 257)]"
  by (simp add: added_pairs_def example_file_def)

lemma example_file_plain: "plain_file example_file"
proof -
  let ?vs = "map (\<lambda>b. encode_rune (byteToRune b)) [0..<256] @ [''ab'']"
  have "ids_unique example_file"
    unfolding ids_unique_def set_append example_file_added
    by (auto simp: example_vocab_pairs simp del: upt_Suc)
  moreover have "encode_rune (byteToRune b) \<in> fst ` set (rt_Vocab example_file)" if "b < 256" for b
  proof -
    have "(?vs ! b, int b) \<in> set (rt_Vocab example_file)" using that by (auto simp: example_vocab_pairs)
    moreover have "?vs ! b = encode_rune (byteToRune b)" using that by (simp add: nth_append)
    ultimately show ?thesis by force
  qed
  ultimately show ?thesis unfolding plain_file_def by (simp add: example_file_def detectSentencePiece_def)
qed

theorem loaded_tokenizer_roundtrip_witness:
  "\<exists>t ids. load_tokenizer (\<lambda>s. s) (Inr [space_stage\<lparr>pt_prefixSpace := False\<rparr>]) example_file = (Inr t :: unit load_error + _) \<and>
     Encode 1 (\<lambda>s. s) (\<lambda>_. False) t ''ab <x>ba'' False = Some ids \<and> Decode t ids = Some ''ab <x>ba''"
proof -
  let ?stages = "[space_stage\<lparr>pt_prefixSpace := False\<rparr>]"
  have "\<forall>(x, i) \<in> set (rt_Vocab example_file @ added_pairs (rt_AddedTokens example_file)). 0 \<le> i"
    unfolding set_append example_file_added by (auto simp: example_vocab_pairs)
  from set_values_total[OF this] obtain vals where
    "set_values (replicate (length (rt_Vocab example_file)) []) (rt_Vocab example_file @ added_pairs (rt_AddedTokens example_file)) =
      (Inr vals :: unit load_error + _)" by blast
  then obtain t where t: "load_tokenizer (\<lambda>s. s) (Inr ?stages) example_file = (Inr t :: unit load_error + _)"
    unfolding load_tokenizer_def
    by (simp add: example_file_def merge_strings_def load_metaspace_def detectSentencePiece_def del: upt_Suc)
  have "\<forall>p \<in> set ?stages. pt_behavior p \<noteq> ''Removed'' \<and> \<not> pt_prefixSpace p \<and> (\<forall>re. pt_re p = Some re \<longrightarrow> sound_regexp p re)"
    using space_regexp_sound by (simp add: space_stage_def sound_regexp_def)
  from loaded_tokenizer_roundtrip[OF t example_file_plain this, of 1 "\<lambda>_. False" "''ab <x>ba''"] t
  show ?thesis by simp
qed

end
