(* ===== verification/ApiMessages.thy ===== *)
theory ApiMessages
  imports GoStrings Json
begin

text \<open>
  The messages of the chat API (\<^verbatim>\<open>api/types.go\<close>) as the compatibility layers read and build
  them: tool calls with their ordered arguments, messages, and the responses of a stream with
  their counts of tokens.  A value of Go type \<^verbatim>\<open>any\<close> that was decoded from JSON is a \<open>json\<close>;
  the members of an object are in the order of the text.
\<close>

text \<open>\<^verbatim>\<open>ToolCallFunctionArguments\<close>: \<^term>\<open>None\<close> is the zero value, without a map.\<close>

type_synonym call_arguments = "(string \<times> json) list option"

definition newArguments :: call_arguments where
  "newArguments = Some []"

record api_call =
  ac_ID :: string
  ac_Index :: int
  ac_Name :: string
  ac_Arguments :: call_arguments

record api_message =
  am_Role :: string
  am_Content :: string
  am_Thinking :: string
  am_Images :: "string list"
  am_ToolCalls :: "api_call list"
  am_ToolName :: string
  am_ToolCallID :: string

record metrics =
  mt_PromptEvalCount :: int
  mt_PromptEvalCachedCount :: "int option"
  mt_EvalCount :: int

record chat_response =
  cr_Model :: string
  cr_Message :: api_message
  cr_Done :: bool
  cr_DoneReason :: string
  cr_Metrics :: metrics

definition plain_message :: "string \<Rightarrow> string \<Rightarrow> api_message" where
  "plain_message role content =
     \<lparr>am_Role = role, am_Content = content, am_Thinking = [], am_Images = [], am_ToolCalls = [],
      am_ToolName = [], am_ToolCallID = []\<rparr>"

section \<open>Ordered maps\<close>

text \<open>\<^verbatim>\<open>internal/orderedmap\<close>: a key that is set again keeps its place.\<close>

fun om_set :: "'k \<Rightarrow> 'v \<Rightarrow> ('k \<times> 'v) list \<Rightarrow> ('k \<times> 'v) list" where
  "om_set k v [] = [(k, v)]"
| "om_set k v ((k', v') # m) = (if k' = k then (k, v) # m else (k', v') # om_set k v m)"

definition arguments_Get :: "call_arguments \<Rightarrow> string \<Rightarrow> json option" where
  "arguments_Get t key = (case t of None \<Rightarrow> None | Some om \<Rightarrow> map_of om key)"

definition arguments_Set :: "string \<Rightarrow> json \<Rightarrow> call_arguments \<Rightarrow> call_arguments" where
  "arguments_Set key value t = Some (om_set key value (case t of None \<Rightarrow> [] | Some om \<Rightarrow> om))"

definition arguments_Len :: "call_arguments \<Rightarrow> nat" where
  "arguments_Len t = (case t of None \<Rightarrow> 0 | Some om \<Rightarrow> length om)"

lemma om_set_get: "map_of (om_set k v m) = (map_of m)(k \<mapsto> v)"
  by (induction m rule: om_set.induct) auto

lemma om_set_keys:
  "map fst (om_set k v m) = (if k \<in> set (map fst m) then map fst m else map fst m @ [k])"
  by (induction k v m rule: om_set.induct) auto

lemma arguments_Get_Set: "arguments_Get (arguments_Set key value t) = (arguments_Get t)(key \<mapsto> value)"
  by (auto simp: arguments_Get_def arguments_Set_def om_set_get split: option.splits)

end
