(* ===== verification/AnthropicStream.thy ===== *)
theory AnthropicStream
  imports ApiMessages
begin

text \<open>
  The conversion of chat responses to messages of the Anthropic API (\<^verbatim>\<open>anthropic/anthropic.go\<close>):
  a whole response at once, and a stream of responses as a stream of events that a client
  accumulates.
\<close>

section \<open>Responses\<close>

record usage =
  us_InputTokens :: int
  us_CacheReadInputTokens :: "int option"
  us_OutputTokens :: int

definition intValue :: "int option \<Rightarrow> int" where
  "intValue v = (case v of None \<Rightarrow> 0 | Some i \<Rightarrow> i)"

definition UsageFromMetrics :: "metrics \<Rightarrow> usage" where
  "UsageFromMetrics m =
     (let total = max 0 (mt_PromptEvalCount m);
          cached = (case mt_PromptEvalCachedCount m of None \<Rightarrow> None | Some n \<Rightarrow> Some (min (max 0 n) total))
      in \<lparr>us_InputTokens = total - intValue cached, us_CacheReadInputTokens = cached, us_OutputTokens = mt_EvalCount m\<rparr>)"

record image_source =
  is_Type :: string
  is_MediaType :: string
  is_Data :: string

text \<open>What a field of type \<^verbatim>\<open>any\<close> of a block can hold.\<close>

record web_search_result =
  ws_Type :: string
  ws_URL :: string
  ws_Title :: string

datatype block_content = ContentJson json | ContentResults "web_search_result list" | ContentError string

text \<open>\<^verbatim>\<open>ContentBlock\<close>, without the fields for citations and signatures, which nothing reads.\<close>

record content_block =
  cb_Type :: string
  cb_Text :: "string option"
  cb_Source :: "image_source option"
  cb_ID :: string
  cb_Name :: string
  cb_Input :: call_arguments
  cb_ToolUseID :: string
  cb_Content :: block_content
  cb_Thinking :: "string option"

definition empty_block :: "string \<Rightarrow> content_block" where
  "empty_block ty =
     \<lparr>cb_Type = ty, cb_Text = None, cb_Source = None, cb_ID = [], cb_Name = [], cb_Input = None,
      cb_ToolUseID = [], cb_Content = ContentJson JNull, cb_Thinking = None\<rparr>"

record messages_response =
  mr_ID :: string
  mr_Model :: string
  mr_Content :: "content_block list"
  mr_StopReason :: string
  mr_Usage :: usage

definition mapStopReason :: "string \<Rightarrow> bool \<Rightarrow> string" where
  "mapStopReason reason hasToolCalls =
     (if hasToolCalls then ''tool_use''
      else if reason = ''stop'' then ''end_turn''
      else if reason = ''length'' then ''max_tokens''
      else if reason \<noteq> [] then ''stop_sequence'' else [])"

definition call_block :: "api_call \<Rightarrow> content_block" where
  "call_block tc = (empty_block ''tool_use'')\<lparr>cb_ID := ac_ID tc, cb_Name := ac_Name tc, cb_Input := ac_Arguments tc\<rparr>"

definition response_blocks :: "api_message \<Rightarrow> content_block list" where
  "response_blocks m =
     (if am_Thinking m \<noteq> [] then [(empty_block ''thinking'')\<lparr>cb_Thinking := Some (am_Thinking m)\<rparr>] else [])
   @ (if am_Content m \<noteq> [] then [(empty_block ''text'')\<lparr>cb_Text := Some (am_Content m)\<rparr>] else [])
   @ map call_block (am_ToolCalls m)"

definition ToMessagesResponse :: "string \<Rightarrow> chat_response \<Rightarrow> messages_response" where
  "ToMessagesResponse mid r =
     \<lparr>mr_ID = mid, mr_Model = cr_Model r, mr_Content = response_blocks (cr_Message r),
      mr_StopReason = mapStopReason (cr_DoneReason r) (am_ToolCalls (cr_Message r) \<noteq> []),
      mr_Usage = UsageFromMetrics (cr_Metrics r)\<rparr>"

section \<open>The stream converter\<close>

datatype delta = TextDelta string | JsonDelta string | ThinkingDelta string

datatype stream_event =
    MessageStart string string usage
  | BlockStart nat content_block
  | BlockDelta nat delta
  | BlockStop nat
  | MessageDelta string usage
  | MessageStop

record stream_converter =
  sc_ID :: string
  sc_Model :: string
  sc_firstWrite :: bool
  sc_contentIndex :: nat
  sc_inputTokens :: int
  sc_cacheReadTokens :: "int option"
  sc_outputTokens :: int
  sc_estimatedInputTokens :: int
  sc_thinkingStarted :: bool
  sc_thinkingDone :: bool
  sc_textStarted :: bool
  sc_toolCallsSent :: "string set"

definition NewStreamConverter :: "string \<Rightarrow> string \<Rightarrow> int \<Rightarrow> stream_converter" where
  "NewStreamConverter mid model estimated =
     \<lparr>sc_ID = mid, sc_Model = model, sc_firstWrite = True, sc_contentIndex = 0, sc_inputTokens = 0,
      sc_cacheReadTokens = None, sc_outputTokens = 0, sc_estimatedInputTokens = estimated,
      sc_thinkingStarted = False, sc_thinkingDone = False, sc_textStarted = False, sc_toolCallsSent = {}\<rparr>"

text \<open>Each part of \<^verbatim>\<open>Process\<close> appends events and changes the converter.\<close>

type_synonym emits = "stream_event list \<times> stream_converter"

definition and_then :: "emits \<Rightarrow> (stream_converter \<Rightarrow> emits) \<Rightarrow> emits" where
  "and_then x f = (let (es, c) = x; (es', c') = f c in (es @ es', c'))"

lemma and_then_simps [simp]:
  "fst (and_then x f) = fst x @ fst (f (snd x))" "snd (and_then x f) = snd (f (snd x))"
  by (simp_all add: and_then_def split: prod.split)

definition first_write :: "chat_response \<Rightarrow> stream_converter \<Rightarrow> emits" where
  "first_write r c =
     (if \<not> sc_firstWrite c then ([], c)
      else
        (let u = UsageFromMetrics (cr_Metrics r);
             input = (if us_InputTokens u = 0 \<and> intValue (us_CacheReadInputTokens u) = 0 \<and> sc_estimatedInputTokens c > 0
                      then sc_estimatedInputTokens c else us_InputTokens u);
             c' = c\<lparr>sc_firstWrite := False, sc_inputTokens := input, sc_cacheReadTokens := us_CacheReadInputTokens u\<rparr>
         in ([MessageStart (sc_ID c) (sc_Model c)
                \<lparr>us_InputTokens = input, us_CacheReadInputTokens = us_CacheReadInputTokens u, us_OutputTokens = 0\<rparr>], c')))"

definition close_text :: "stream_converter \<Rightarrow> emits" where
  "close_text c =
     (if sc_textStarted c
      then ([BlockStop (sc_contentIndex c)], c\<lparr>sc_contentIndex := sc_contentIndex c + 1, sc_textStarted := False\<rparr>)
      else ([], c))"

definition close_thinking :: "stream_converter \<Rightarrow> emits" where
  "close_thinking c =
     (if sc_thinkingStarted c \<and> \<not> sc_thinkingDone c
      then ([BlockStop (sc_contentIndex c)], c\<lparr>sc_thinkingDone := True, sc_contentIndex := sc_contentIndex c + 1\<rparr>)
      else ([], c))"

definition start_thinking :: "stream_converter \<Rightarrow> emits" where
  "start_thinking c =
     (if sc_thinkingStarted c then ([], c)
      else ([BlockStart (sc_contentIndex c) ((empty_block ''thinking'')\<lparr>cb_Thinking := Some []\<rparr>)],
            c\<lparr>sc_thinkingStarted := True\<rparr>))"

definition start_text :: "stream_converter \<Rightarrow> emits" where
  "start_text c =
     (if sc_textStarted c then ([], c)
      else ([BlockStart (sc_contentIndex c) ((empty_block ''text'')\<lparr>cb_Text := Some []\<rparr>)], c\<lparr>sc_textStarted := True\<rparr>))"

definition process_thinking :: "string \<Rightarrow> stream_converter \<Rightarrow> emits" where
  "process_thinking t c =
     (if t \<noteq> [] \<and> \<not> sc_thinkingDone c
      then and_then (and_then (close_text c) start_thinking) (\<lambda>c. ([BlockDelta (sc_contentIndex c) (ThinkingDelta t)], c))
      else ([], c))"

definition process_content :: "string \<Rightarrow> stream_converter \<Rightarrow> emits" where
  "process_content s c =
     (if s \<noteq> []
      then and_then (and_then (close_thinking c) start_text) (\<lambda>c. ([BlockDelta (sc_contentIndex c) (TextDelta s)], c))
      else ([], c))"

text \<open>One tool call; \<open>marshal\<close> is the JSON encoder of the arguments.\<close>

definition send_call :: "(call_arguments \<Rightarrow> string option) \<Rightarrow> api_call \<Rightarrow> stream_converter \<Rightarrow> emits" where
  "send_call marshal tc c =
     (case marshal (ac_Arguments tc) of
        None \<Rightarrow> ([], c)
      | Some argsJSON \<Rightarrow>
          ([BlockStart (sc_contentIndex c)
              ((empty_block ''tool_use'')\<lparr>cb_ID := ac_ID tc, cb_Name := ac_Name tc, cb_Input := newArguments\<rparr>),
            BlockDelta (sc_contentIndex c) (JsonDelta argsJSON),
            BlockStop (sc_contentIndex c)],
           c\<lparr>sc_toolCallsSent := insert (ac_ID tc) (sc_toolCallsSent c), sc_contentIndex := sc_contentIndex c + 1\<rparr>))"

definition process_call :: "(call_arguments \<Rightarrow> string option) \<Rightarrow> api_call \<Rightarrow> stream_converter \<Rightarrow> emits" where
  "process_call marshal tc c =
     (if ac_ID tc \<in> sc_toolCallsSent c then ([], c)
      else and_then (and_then (close_thinking c) close_text) (send_call marshal tc))"

fun process_calls :: "(call_arguments \<Rightarrow> string option) \<Rightarrow> api_call list \<Rightarrow> stream_converter \<Rightarrow> emits" where
  "process_calls marshal [] c = ([], c)"
| "process_calls marshal (tc # tcs) c = and_then (process_call marshal tc c) (process_calls marshal tcs)"

definition process_done :: "chat_response \<Rightarrow> stream_converter \<Rightarrow> emits" where
  "process_done r c =
     (if \<not> cr_Done r then ([], c)
      else
        (let u = UsageFromMetrics (cr_Metrics r);
             c' = c\<lparr>sc_inputTokens := us_InputTokens u, sc_cacheReadTokens := us_CacheReadInputTokens u,
                    sc_outputTokens := us_OutputTokens u\<rparr>
         in ((if sc_textStarted c then [BlockStop (sc_contentIndex c)]
              else if sc_thinkingStarted c \<and> \<not> sc_thinkingDone c then [BlockStop (sc_contentIndex c)] else [])
             @ [MessageDelta (mapStopReason (cr_DoneReason r) (sc_toolCallsSent c \<noteq> {})) u, MessageStop], c')))"

definition process_message :: "(call_arguments \<Rightarrow> string option) \<Rightarrow> api_message \<Rightarrow> stream_converter \<Rightarrow> emits" where
  "process_message marshal m c =
     and_then (and_then (process_thinking (am_Thinking m) c) (process_content (am_Content m)))
       (process_calls marshal (am_ToolCalls m))"

definition Process :: "(call_arguments \<Rightarrow> string option) \<Rightarrow> chat_response \<Rightarrow> stream_converter \<Rightarrow> emits" where
  "Process marshal r c =
     and_then (and_then (first_write r c) (process_message marshal (cr_Message r))) (process_done r)"

fun process_all :: "(call_arguments \<Rightarrow> string option) \<Rightarrow> chat_response list \<Rightarrow> stream_converter \<Rightarrow> emits" where
  "process_all marshal [] c = ([], c)"
| "process_all marshal (r # rs) c = and_then (Process marshal r c) (process_all marshal rs)"

section \<open>A client\<close>

text \<open>
  A client of the protocol: a block opens with the next index, takes deltas of its type and
  closes before the next one opens; anything else is an error.  A block of another type, or a
  call that opens with its arguments, is kept as it is.
\<close>

datatype received = is_thinking: GotThinking string | is_text: GotText string | is_call: GotCall string string string
  | is_other: GotBlock content_block

type_synonym client = "received list \<times> bool"

definition opened :: "content_block \<Rightarrow> received option" where
  "opened b =
     (if cb_Type b = ''thinking'' then map_option GotThinking (cb_Thinking b)
      else if cb_Type b = ''text'' then map_option GotText (cb_Text b)
      else if cb_Type b = ''tool_use'' \<and> cb_Input b = newArguments then Some (GotCall (cb_ID b) (cb_Name b) []) else Some (GotBlock b))"

fun grown :: "received \<Rightarrow> delta \<Rightarrow> received option" where
  "grown (GotThinking s) (ThinkingDelta t) = Some (GotThinking (s @ t))"
| "grown (GotText s) (TextDelta t) = Some (GotText (s @ t))"
| "grown (GotCall i n s) (JsonDelta t) = Some (GotCall i n (s @ t))"
| "grown _ _ = None"

fun client_step :: "stream_event \<Rightarrow> client \<Rightarrow> client option" where
  "client_step (BlockStart i b) (xs, isopen) =
     (if \<not> isopen \<and> i = length xs then map_option (\<lambda>x. (xs @ [x], True)) (opened b) else None)"
| "client_step (BlockDelta i d) (xs, isopen) =
     (if isopen \<and> Suc i = length xs then map_option (\<lambda>x. (butlast xs @ [x], True)) (grown (last xs) d) else None)"
| "client_step (BlockStop i) (xs, isopen) = (if isopen \<and> Suc i = length xs then Some (xs, False) else None)"
| "client_step _ _ = None"

fun client_run :: "stream_event list \<Rightarrow> client \<Rightarrow> client option" where
  "client_run [] cl = Some cl"
| "client_run (e # es) cl = Option.bind (client_step e cl) (client_run es)"

lemma client_run_append: "client_run (es @ es') cl = Option.bind (client_run es cl) (client_run es')"
  by (induction es arbitrary: cl) (auto split: Option.bind_split)

section \<open>What the client receives\<close>

text \<open>
  The blocks, described without the converter: text and thinking grow the last block if it is
  of their kind, thinking that comes after other blocks is only taken once, and a call whose id
  has come before is not repeated.
\<close>

definition ids_of :: "received list \<Rightarrow> string set" where
  "ids_of bl = {i. \<exists>n s. GotCall i n s \<in> set bl}"

definition add_thinking :: "string \<Rightarrow> received list \<Rightarrow> received list" where
  "add_thinking t bl =
     (if t = [] then bl
      else if bl \<noteq> [] \<and> is_thinking (last bl) then butlast bl @ [the (grown (last bl) (ThinkingDelta t))]
      else if \<exists>x \<in> set bl. is_thinking x then bl
      else bl @ [GotThinking t])"

definition add_text :: "string \<Rightarrow> received list \<Rightarrow> received list" where
  "add_text s bl =
     (if s = [] then bl
      else if bl \<noteq> [] \<and> is_text (last bl) then butlast bl @ [the (grown (last bl) (TextDelta s))]
      else bl @ [GotText s])"

definition add_call :: "(call_arguments \<Rightarrow> string option) \<Rightarrow> api_call \<Rightarrow> received list \<Rightarrow> received list" where
  "add_call marshal tc bl =
     (if ac_ID tc \<in> ids_of bl then bl else bl @ [GotCall (ac_ID tc) (ac_Name tc) (the (marshal (ac_Arguments tc)))])"

definition add_message :: "(call_arguments \<Rightarrow> string option) \<Rightarrow> api_message \<Rightarrow> received list \<Rightarrow> received list" where
  "add_message marshal m bl = fold (add_call marshal) (am_ToolCalls m) (add_text (am_Content m) (add_thinking (am_Thinking m) bl))"

text \<open>The converter and the client agree on the open block and its index.\<close>

definition thinking_open :: "stream_converter \<Rightarrow> bool" where
  "thinking_open c \<longleftrightarrow> sc_thinkingStarted c \<and> \<not> sc_thinkingDone c"

definition in_step :: "stream_converter \<Rightarrow> client \<Rightarrow> bool" where
  "in_step c cl \<longleftrightarrow>
     sc_contentIndex c + (if snd cl then 1 else 0) = length (fst cl) \<and>
     snd cl = (sc_textStarted c \<or> thinking_open c) \<and> \<not> (sc_textStarted c \<and> thinking_open c) \<and>
     (sc_textStarted c \<longrightarrow> fst cl \<noteq> [] \<and> is_text (last (fst cl))) \<and>
     (thinking_open c \<longrightarrow> fst cl \<noteq> [] \<and> is_thinking (last (fst cl))) \<and>
     sc_toolCallsSent c = ids_of (fst cl)"

text \<open>The converter knows all that its description needs; true as long as all arguments can be encoded.\<close>

definition informed :: "stream_converter \<Rightarrow> received list \<Rightarrow> bool" where
  "informed c bl \<longleftrightarrow>
     (sc_thinkingStarted c \<longleftrightarrow> (\<exists>x \<in> set bl. is_thinking x)) \<and> (sc_thinkingDone c \<longrightarrow> sc_thinkingStarted c) \<and>
     (bl \<noteq> [] \<and> is_text (last bl) \<longrightarrow> sc_textStarted c) \<and> (bl \<noteq> [] \<and> is_thinking (last bl) \<longrightarrow> thinking_open c)"

definition tracks :: "(received list \<Rightarrow> received list) \<Rightarrow> (stream_converter \<Rightarrow> emits) \<Rightarrow> bool \<Rightarrow> bool" where
  "tracks g f encodable \<longleftrightarrow>
     (\<forall>c cl. in_step c cl \<longrightarrow>
        (\<exists>cl'. client_run (fst (f c)) cl = Some cl' \<and> in_step (snd (f c)) cl' \<and>
           sc_firstWrite (snd (f c)) = sc_firstWrite c \<and>
           (encodable \<and> informed c (fst cl) \<longrightarrow> informed (snd (f c)) (fst cl') \<and> fst cl' = g (fst cl))))"

lemma tracks_and_then:
  assumes "tracks g f e" and "tracks h k e"
  shows "tracks (\<lambda>bl. h (g bl)) (\<lambda>c. and_then (f c) k) e"
  unfolding tracks_def
proof (intro allI impI)
  fix c cl assume i: "in_step c cl"
  from assms(1) i obtain cl1 where 1: "client_run (fst (f c)) cl = Some cl1" "in_step (snd (f c)) cl1"
    "sc_firstWrite (snd (f c)) = sc_firstWrite c"
    "e \<and> informed c (fst cl) \<longrightarrow> informed (snd (f c)) (fst cl1) \<and> fst cl1 = g (fst cl)"
    unfolding tracks_def by metis
  from assms(2) 1(2) obtain cl2 where 2: "client_run (fst (k (snd (f c)))) cl1 = Some cl2" "in_step (snd (k (snd (f c)))) cl2"
    "sc_firstWrite (snd (k (snd (f c)))) = sc_firstWrite (snd (f c))"
    "e \<and> informed (snd (f c)) (fst cl1) \<longrightarrow> informed (snd (k (snd (f c)))) (fst cl2) \<and> fst cl2 = h (fst cl1)"
    unfolding tracks_def by metis
  show "\<exists>cl'. client_run (fst (and_then (f c) k)) cl = Some cl' \<and> in_step (snd (and_then (f c) k)) cl' \<and>
      sc_firstWrite (snd (and_then (f c) k)) = sc_firstWrite c \<and>
      (e \<and> informed c (fst cl) \<longrightarrow> informed (snd (and_then (f c) k)) (fst cl') \<and> fst cl' = h (g (fst cl)))"
    using 1 2 by (intro exI[of _ cl2]) (auto simp: client_run_append)
qed

lemma grown_thinking: "is_thinking x \<Longrightarrow> \<exists>s. x = GotThinking s \<and> grown x (ThinkingDelta t) = Some (GotThinking (s @ t))"
  by (cases x) simp_all

lemma grown_text: "is_text x \<Longrightarrow> \<exists>s. x = GotText s \<and> grown x (TextDelta t) = Some (GotText (s @ t))"
  by (cases x) simp_all

lemma ids_of_simps [simp]:
  "ids_of [] = {}" "ids_of (bl @ [GotThinking s]) = ids_of bl" "ids_of (bl @ [GotText s]) = ids_of bl"
  "ids_of (bl @ [GotCall i n s]) = insert i (ids_of bl)"
  by (auto simp: ids_of_def)

lemma ids_of_butlast: "bl \<noteq> [] \<Longrightarrow> \<not> is_call (last bl) \<Longrightarrow> ids_of (butlast bl) = ids_of bl"
  by (cases bl rule: rev_cases) (auto simp: ids_of_def)

lemma tracks_thinking: "tracks (add_thinking t) (process_thinking t) e"
  unfolding tracks_def
proof (intro allI impI)
  fix c cl assume i: "in_step c cl"
  obtain bl isopen where cl: "cl = (bl, isopen)" by fastforce
  let ?g = "\<exists>cl'. client_run (fst (process_thinking t c)) cl = Some cl' \<and> in_step (snd (process_thinking t c)) cl' \<and>
      sc_firstWrite (snd (process_thinking t c)) = sc_firstWrite c \<and>
      (e \<and> informed c (fst cl) \<longrightarrow> informed (snd (process_thinking t c)) (fst cl') \<and> fst cl' = add_thinking t (fst cl))"
  show ?g
  proof (cases "t = [] \<or> sc_thinkingDone c")
    case True
    with i cl show ?thesis
      by (auto simp: process_thinking_def informed_def thinking_open_def add_thinking_def)
  next
    case False
    then have t: "t \<noteq> []" "\<not> sc_thinkingDone c" by auto
    show ?thesis
    proof (cases "sc_thinkingStarted c")
      case True
      with i t cl obtain bs s where bl: "bl = bs @ [GotThinking s]" and o: isopen "Suc (sc_contentIndex c) = length bl" "\<not> sc_textStarted c"
        "sc_toolCallsSent c = ids_of bl"
        by (cases bl rule: rev_cases) (auto simp: in_step_def thinking_open_def is_thinking_def)
      have p: "process_thinking t c = ([BlockDelta (sc_contentIndex c) (ThinkingDelta t)], c)"
        using t o True by (simp add: process_thinking_def close_text_def start_thinking_def and_then_def)
      show ?thesis unfolding p cl
        by (rule exI[of _ "(bs @ [GotThinking (s @ t)], True)"])
          (use o True t in \<open>simp add: bl in_step_def informed_def thinking_open_def add_thinking_def\<close>)
    next
      case False
      let ?i = "length bl"
      have o: "isopen = sc_textStarted c" "sc_contentIndex c + (if isopen then 1 else 0) = length bl" "sc_toolCallsSent c = ids_of bl"
        using i False by (auto simp: cl in_step_def thinking_open_def split: if_splits)
      have p: "fst (process_thinking t c) = (if sc_textStarted c then [BlockStop (sc_contentIndex c)] else []) @
          [BlockStart ?i ((empty_block ''thinking'')\<lparr>cb_Thinking := Some []\<rparr>), BlockDelta ?i (ThinkingDelta t)]"
        "snd (process_thinking t c) = c\<lparr>sc_contentIndex := ?i, sc_textStarted := False, sc_thinkingStarted := True\<rparr>"
        using t o False by (auto simp: process_thinking_def close_text_def start_thinking_def split: if_splits intro!: stream_converter.equality)
      have r: "client_run (fst (process_thinking t c)) cl = Some (bl @ [GotThinking t], True)"
        using o unfolding p cl by (auto simp: opened_def empty_block_def split: if_splits)
      show ?thesis unfolding r
        by (rule exI[of _ "(bl @ [GotThinking t], True)"])
          (use o False t in \<open>auto simp: p cl in_step_def informed_def thinking_open_def add_thinking_def\<close>)
    qed
  qed
qed

lemma tracks_text: "tracks (add_text s) (process_content s) e"
  unfolding tracks_def
proof (intro allI impI)
  fix c cl assume i: "in_step c cl"
  obtain bl isopen where cl: "cl = (bl, isopen)" by fastforce
  show "\<exists>cl'. client_run (fst (process_content s c)) cl = Some cl' \<and> in_step (snd (process_content s c)) cl' \<and>
      sc_firstWrite (snd (process_content s c)) = sc_firstWrite c \<and>
      (e \<and> informed c (fst cl) \<longrightarrow> informed (snd (process_content s c)) (fst cl') \<and> fst cl' = add_text s (fst cl))"
  proof (cases "s = []")
    case True
    with i cl show ?thesis by (auto simp: process_content_def add_text_def)
  next
    case s: False
    show ?thesis
    proof (cases "sc_textStarted c")
      case True
      with i cl obtain bs u where bl: "bl = bs @ [GotText u]" and o: isopen "Suc (sc_contentIndex c) = length bl" "\<not> thinking_open c"
        "sc_toolCallsSent c = ids_of bl"
        by (cases bl rule: rev_cases) (auto simp: in_step_def is_text_def)
      have p: "process_content s c = ([BlockDelta (sc_contentIndex c) (TextDelta s)], c)"
        using s o(3) True by (simp add: process_content_def close_thinking_def start_text_def thinking_open_def and_then_def)
      show ?thesis unfolding p cl
        by (rule exI[of _ "(bs @ [GotText (u @ s)], True)"])
          (use o True s in \<open>auto simp: bl in_step_def informed_def add_text_def\<close>)
    next
      case False
      let ?i = "length bl"
      have o: "isopen = thinking_open c" "sc_contentIndex c + (if isopen then 1 else 0) = length bl" "sc_toolCallsSent c = ids_of bl"
        using i False by (auto simp: cl in_step_def split: if_splits)
      have p: "fst (process_content s c) = (if thinking_open c then [BlockStop (sc_contentIndex c)] else []) @
          [BlockStart ?i ((empty_block ''text'')\<lparr>cb_Text := Some []\<rparr>), BlockDelta ?i (TextDelta s)]"
        "snd (process_content s c) = c\<lparr>sc_contentIndex := ?i, sc_textStarted := True, sc_thinkingDone := sc_thinkingDone c \<or> thinking_open c\<rparr>"
        using s o False by (auto simp: process_content_def close_thinking_def start_text_def thinking_open_def split: if_splits
            intro!: stream_converter.equality)
      have r: "client_run (fst (process_content s c)) cl = Some (bl @ [GotText s], True)"
        using o unfolding p cl by (auto simp: opened_def empty_block_def split: if_splits)
      show ?thesis unfolding r
        by (rule exI[of _ "(bl @ [GotText s], True)"])
          (use o False s in \<open>auto simp: p cl in_step_def informed_def thinking_open_def add_text_def\<close>)
    qed
  qed
qed

lemma tracks_call:
  assumes "e \<Longrightarrow> marshal (ac_Arguments tc) \<noteq> None"
  shows "tracks (add_call marshal tc) (process_call marshal tc) e"
  unfolding tracks_def
proof (intro allI impI)
  fix c cl assume i: "in_step c cl"
  obtain bl isopen where cl: "cl = (bl, isopen)" by fastforce
  let ?p = "process_call marshal tc c"
  show "\<exists>cl'. client_run (fst ?p) cl = Some cl' \<and> in_step (snd ?p) cl' \<and> sc_firstWrite (snd ?p) = sc_firstWrite c \<and>
      (e \<and> informed c (fst cl) \<longrightarrow> informed (snd ?p) (fst cl') \<and> fst cl' = add_call marshal tc (fst cl))"
  proof (cases "ac_ID tc \<in> sc_toolCallsSent c")
    case True
    with i cl show ?thesis by (auto simp: process_call_def add_call_def in_step_def)
  next
    case False
    define c1 where "c1 = snd (and_then (close_thinking c) close_text)"
    have o: "isopen = (sc_textStarted c \<or> thinking_open c)" "sc_contentIndex c + (if isopen then 1 else 0) = length bl" "sc_toolCallsSent c = ids_of bl"
      "\<not> (sc_textStarted c \<and> thinking_open c)"
      using i by (auto simp: cl in_step_def split: if_splits)
    have open1: "\<not> thinking_open c \<or> \<not> sc_textStarted c" using o by blast
    have closed: "fst (and_then (close_thinking c) close_text) = (if isopen then [BlockStop (sc_contentIndex c)] else [])"
      "sc_contentIndex c1 = length bl" "\<not> sc_textStarted c1" "\<not> thinking_open c1" "sc_thinkingStarted c1 = sc_thinkingStarted c"
      "sc_thinkingDone c1 \<longrightarrow> sc_thinkingDone c \<or> sc_thinkingStarted c" "sc_toolCallsSent c1 = ids_of bl"
      "sc_firstWrite c1 = sc_firstWrite c"
      using o open1 unfolding c1_def
      by (auto simp: close_thinking_def close_text_def thinking_open_def split: if_splits)
    have p: "fst ?p = (if isopen then [BlockStop (sc_contentIndex c)] else []) @ fst (send_call marshal tc c1)"
      "snd ?p = snd (send_call marshal tc c1)"
      using False closed(1) by (simp_all add: process_call_def c1_def)
    have r: "client_run (if isopen then [BlockStop (sc_contentIndex c)] else []) cl = Some (bl, False)"
      using o(2) by (auto simp: cl split: if_splits)
    have run: "client_run (fst ?p) cl = client_run (fst (send_call marshal tc c1)) (bl, False)"
      unfolding p(1) client_run_append r by simp
    show ?thesis
    proof (cases "marshal (ac_Arguments tc)")
      case None
      then show ?thesis using assms closed(2-) unfolding p(2) run
        by (intro exI[of _ "(bl, False)"]) (auto simp: send_call_def in_step_def)
    next
      case (Some args)
      have sent: "client_run (fst (send_call marshal tc c1)) (bl, False) = Some (bl @ [GotCall (ac_ID tc) (ac_Name tc) args], False)"
        by (simp add: send_call_def Some closed(2) opened_def empty_block_def)
      show ?thesis using closed(2-) False o(3) Some unfolding p(2) run sent
        by (intro exI[of _ "(bl @ [GotCall (ac_ID tc) (ac_Name tc) args], False)"])
          (auto simp: send_call_def in_step_def informed_def thinking_open_def add_call_def cl)
    qed
  qed
qed

lemma tracks_id: "tracks (\<lambda>bl. bl) (\<lambda>c. ([], c)) e"
  by (simp add: tracks_def)

lemma tracks_calls:
  "(e \<Longrightarrow> \<forall>tc \<in> set tcs. marshal (ac_Arguments tc) \<noteq> None) \<Longrightarrow> tracks (fold (add_call marshal) tcs) (process_calls marshal tcs) e"
proof (induction tcs)
  case Nil
  then show ?case using tracks_id by (simp add: id_def fun_eq_iff)
next
  case (Cons tc tcs)
  from Cons have "tracks (\<lambda>bl. fold (add_call marshal) tcs (add_call marshal tc bl))
      (\<lambda>c. and_then (process_call marshal tc c) (process_calls marshal tcs)) e"
    by (intro tracks_and_then tracks_call) auto
  then show ?case by (simp add: comp_def)
qed

lemma tracks_message:
  assumes "e \<Longrightarrow> \<forall>tc \<in> set (am_ToolCalls m). marshal (ac_Arguments tc) \<noteq> None"
  shows "tracks (add_message marshal m) (process_message marshal m) e"
  unfolding add_message_def process_message_def
  by (intro tracks_and_then tracks_calls tracks_thinking tracks_text assms)

section \<open>The stream as a whole\<close>

text \<open>Behind the first event the parts of a response are its message and its end.\<close>

definition start_event :: "stream_converter \<Rightarrow> chat_response \<Rightarrow> stream_event" where
  "start_event c r =
     (let u = UsageFromMetrics (cr_Metrics r);
          input = (if us_InputTokens u = 0 \<and> intValue (us_CacheReadInputTokens u) = 0 \<and> sc_estimatedInputTokens c > 0
                   then sc_estimatedInputTokens c else us_InputTokens u)
      in MessageStart (sc_ID c) (sc_Model c)
           \<lparr>us_InputTokens = input, us_CacheReadInputTokens = us_CacheReadInputTokens u, us_OutputTokens = 0\<rparr>)"

lemma first_write_simps:
  "fst (first_write r c) = (if sc_firstWrite c then [start_event c r] else [])"
  "sc_firstWrite (snd (first_write r c)) = False"
  "in_step (snd (first_write r c)) cl = in_step c cl" "informed (snd (first_write r c)) bl = informed c bl"
  by (auto simp: first_write_def start_event_def in_step_def informed_def thinking_open_def Let_def)

lemma message_run:
  assumes "in_step c cl" and "e \<Longrightarrow> \<forall>tc \<in> set (am_ToolCalls (cr_Message r)). marshal (ac_Arguments tc) \<noteq> None"
  obtains cl' where
    "client_run (fst (process_message marshal (cr_Message r) (snd (first_write r c)))) cl = Some cl'"
    "in_step (snd (process_message marshal (cr_Message r) (snd (first_write r c)))) cl'"
    "\<not> sc_firstWrite (snd (process_message marshal (cr_Message r) (snd (first_write r c))))"
    "e \<and> informed c (fst cl) \<longrightarrow> informed (snd (process_message marshal (cr_Message r) (snd (first_write r c)))) (fst cl') \<and>
       fst cl' = add_message marshal (cr_Message r) (fst cl)"
proof -
  have "in_step (snd (first_write r c)) cl" using assms(1) by (simp add: first_write_simps)
  with tracks_message[of e "cr_Message r" marshal, OF assms(2)] that show thesis
    unfolding tracks_def by (metis first_write_simps(2,4))
qed

definition encodable :: "(call_arguments \<Rightarrow> string option) \<Rightarrow> chat_response list \<Rightarrow> bool" where
  "encodable marshal rs \<longleftrightarrow> (\<forall>r \<in> set rs. \<forall>tc \<in> set (am_ToolCalls (cr_Message r)). marshal (ac_Arguments tc) \<noteq> None)"

definition received_blocks :: "(call_arguments \<Rightarrow> string option) \<Rightarrow> chat_response list \<Rightarrow> received list \<Rightarrow> received list" where
  "received_blocks marshal rs bl = fold (\<lambda>r. add_message marshal (cr_Message r)) rs bl"

lemma process_done_run:
  assumes "in_step c cl" and "cr_Done r"
  shows "\<exists>es. fst (process_done r c) =
      es @ [MessageDelta (mapStopReason (cr_DoneReason r) (ids_of (fst cl) \<noteq> {})) (UsageFromMetrics (cr_Metrics r)), MessageStop] \<and>
    client_run es cl = Some (fst cl, False)"
proof -
  obtain bl isopen where cl: "cl = (bl, isopen)" by fastforce
  show ?thesis
    by (rule exI[of _ "if isopen then [BlockStop (sc_contentIndex c)] else []"])
      (use assms in \<open>auto simp: cl process_done_def in_step_def thinking_open_def Let_def split: if_splits\<close>)
qed

lemma stream_run:
  assumes "\<forall>r \<in> set rs. \<not> cr_Done r" and "cr_Done r" and "in_step c cl"
  shows "\<exists>es bl. fst (process_all marshal (rs @ [r]) c) =
      (if sc_firstWrite c then [start_event c (hd (rs @ [r]))] else []) @ es @
      [MessageDelta (mapStopReason (cr_DoneReason r) (ids_of bl \<noteq> {})) (UsageFromMetrics (cr_Metrics r)), MessageStop] \<and>
    client_run es cl = Some (bl, False) \<and>
    (encodable marshal (rs @ [r]) \<and> informed c (fst cl) \<longrightarrow> bl = received_blocks marshal (rs @ [r]) (fst cl))"
  using assms(1,3)
proof (induction rs arbitrary: c cl)
  case Nil
  obtain cl' where p: "client_run (fst (process_message marshal (cr_Message r) (snd (first_write r c)))) cl = Some cl'"
    "in_step (snd (process_message marshal (cr_Message r) (snd (first_write r c)))) cl'"
    "encodable marshal [r] \<and> informed c (fst cl) \<longrightarrow> fst cl' = add_message marshal (cr_Message r) (fst cl)"
    using message_run[OF Nil(2), of "encodable marshal [r]" r marshal] by (metis encodable_def list.set_intros(1))
  from process_done_run[OF p(2) assms(2)] obtain es where d: "fst (process_done r (snd (process_message marshal (cr_Message r) (snd (first_write r c))))) =
      es @ [MessageDelta (mapStopReason (cr_DoneReason r) (ids_of (fst cl') \<noteq> {})) (UsageFromMetrics (cr_Metrics r)), MessageStop]"
    "client_run es cl' = Some (fst cl', False)" by blast
  let ?es = "fst (process_message marshal (cr_Message r) (snd (first_write r c))) @ es"
  show ?case
    by (rule exI[of _ ?es], rule exI[of _ "fst cl'"])
      (use p(1,3) d in \<open>simp add: Process_def first_write_simps client_run_append received_blocks_def\<close>)
next
  case (Cons r1 rs)
  let ?c1 = "snd (process_message marshal (cr_Message r1) (snd (first_write r1 c)))"
  have nodone: "process_done r1 ?c1 = ([], ?c1)" using Cons.prems(1) by (simp add: process_done_def)
  obtain cl' where p: "client_run (fst (process_message marshal (cr_Message r1) (snd (first_write r1 c)))) cl = Some cl'"
    "in_step ?c1 cl'" "\<not> sc_firstWrite ?c1"
    "encodable marshal (r1 # rs @ [r]) \<and> informed c (fst cl) \<longrightarrow>
       informed ?c1 (fst cl') \<and> fst cl' = add_message marshal (cr_Message r1) (fst cl)"
    using message_run[OF Cons.prems(2), of "encodable marshal (r1 # rs @ [r])" r1 marshal] by (metis encodable_def list.set_intros(1))
  from Cons.IH[OF _ p(2)] Cons.prems(1) obtain es bl where h: "fst (process_all marshal (rs @ [r]) ?c1) =
      es @ [MessageDelta (mapStopReason (cr_DoneReason r) (ids_of bl \<noteq> {})) (UsageFromMetrics (cr_Metrics r)), MessageStop]"
    "client_run es cl' = Some (bl, False)"
    "encodable marshal (rs @ [r]) \<and> informed ?c1 (fst cl') \<longrightarrow> bl = received_blocks marshal (rs @ [r]) (fst cl')"
    using p(3) by auto
  let ?es = "fst (process_message marshal (cr_Message r1) (snd (first_write r1 c))) @ es"
  have e: "encodable marshal (r1 # rs @ [r]) \<Longrightarrow> encodable marshal (rs @ [r])" by (simp add: encodable_def)
  show ?case
    by (rule exI[of _ ?es], rule exI[of _ bl])
      (use p(1,4) h e nodone in \<open>auto simp: Process_def first_write_simps client_run_append received_blocks_def\<close>)
qed

lemma new_converter_in_step:
  "in_step (NewStreamConverter mid model est) ([], False)" "informed (NewStreamConverter mid model est) []"
  "sc_firstWrite (NewStreamConverter mid model est)"
  by (simp_all add: NewStreamConverter_def in_step_def informed_def thinking_open_def)

text \<open>
  C9.  A stream is well formed: whatever the responses hold and however they are cut, the
  events are one start, then blocks that a client of the protocol accepts, all closed, then one
  delta with the stop reason and the usage of the last response, and the stop.  The blocks are
  those that the description above gives, provided that the arguments of the calls can be
  encoded, and the stop reason says whether a call was sent.
\<close>

theorem anthropic_stream_well_formed:
  assumes "\<forall>r \<in> set rs. \<not> cr_Done r" and "cr_Done r"
  shows "\<exists>u es bl. fst (process_all marshal (rs @ [r]) (NewStreamConverter mid model est)) =
      MessageStart mid model u # es @
      [MessageDelta (mapStopReason (cr_DoneReason r) (ids_of bl \<noteq> {})) (UsageFromMetrics (cr_Metrics r)), MessageStop] \<and>
    client_run es ([], False) = Some (bl, False) \<and>
    (encodable marshal (rs @ [r]) \<longrightarrow> bl = received_blocks marshal (rs @ [r]) [])"
proof -
  have "\<exists>u. start_event (NewStreamConverter mid model est) (hd (rs @ [r])) = MessageStart mid model u"
    by (simp add: start_event_def NewStreamConverter_def Let_def)
  with stream_run[OF assms new_converter_in_step(1), of marshal mid model est] new_converter_in_step(2,3)[of mid model est]
  show ?thesis by fastforce
qed

section \<open>The stream and the whole response\<close>

text \<open>The response of which the stream holds the parts.\<close>

definition whole_message :: "api_message list \<Rightarrow> api_message" where
  "whole_message ms =
     (plain_message ''assistant'' (concat (map am_Content ms)))
       \<lparr>am_Thinking := concat (map am_Thinking ms), am_ToolCalls := concat (map am_ToolCalls ms)\<rparr>"

definition whole_response :: "chat_response list \<Rightarrow> chat_response" where
  "whole_response rs = (last rs)\<lparr>cr_Message := whole_message (map cr_Message rs)\<rparr>"

datatype piece = Think string | Say string | Call api_call

fun phase :: "piece \<Rightarrow> nat" where
  "phase (Think t) = 0"
| "phase (Say s) = 1"
| "phase (Call tc) = 2"

definition pieces :: "api_message \<Rightarrow> piece list" where
  "pieces m = (if am_Thinking m \<noteq> [] then [Think (am_Thinking m)] else []) @ (if am_Content m \<noteq> [] then [Say (am_Content m)] else [])
     @ map Call (am_ToolCalls m)"

text \<open>Thinking comes before content, and content before calls; no id is used twice.\<close>

definition in_phases :: "chat_response list \<Rightarrow> bool" where
  "in_phases rs \<longleftrightarrow>
     (let ps = concat (map (pieces \<circ> cr_Message) rs)
      in sorted (map phase ps) \<and> distinct (map ac_ID (am_ToolCalls (whole_message (map cr_Message rs)))))"

fun add_piece :: "(call_arguments \<Rightarrow> string option) \<Rightarrow> piece \<Rightarrow> received list \<Rightarrow> received list" where
  "add_piece marshal (Think t) bl = add_thinking t bl"
| "add_piece marshal (Say s) bl = add_text s bl"
| "add_piece marshal (Call tc) bl = add_call marshal tc bl"

fun thoughts :: "piece list \<Rightarrow> string" where
  "thoughts [] = []" | "thoughts (Think t # ps) = t @ thoughts ps" | "thoughts (_ # ps) = thoughts ps"

fun sayings :: "piece list \<Rightarrow> string" where
  "sayings [] = []" | "sayings (Say s # ps) = s @ sayings ps" | "sayings (_ # ps) = sayings ps"

fun calls_in :: "piece list \<Rightarrow> api_call list" where
  "calls_in [] = []" | "calls_in (Call c # ps) = c # calls_in ps" | "calls_in (_ # ps) = calls_in ps"

definition received_of :: "(call_arguments \<Rightarrow> string option) \<Rightarrow> content_block \<Rightarrow> received" where
  "received_of marshal b =
     (if cb_Type b = ''thinking'' then GotThinking (the (cb_Thinking b))
      else if cb_Type b = ''text'' then GotText (the (cb_Text b))
      else GotCall (cb_ID b) (cb_Name b) (the (marshal (cb_Input b))))"

definition blocks_of :: "(call_arguments \<Rightarrow> string option) \<Rightarrow> string \<Rightarrow> string \<Rightarrow> api_call list \<Rightarrow> received list" where
  "blocks_of marshal t s tcs = (if t \<noteq> [] then [GotThinking t] else []) @ (if s \<noteq> [] then [GotText s] else [])
     @ map (\<lambda>tc. GotCall (ac_ID tc) (ac_Name tc) (the (marshal (ac_Arguments tc)))) tcs"

lemma pieces_append [simp]:
  "thoughts (ps @ qs) = thoughts ps @ thoughts qs" "sayings (ps @ qs) = sayings ps @ sayings qs"
  "calls_in (ps @ qs) = calls_in ps @ calls_in qs"
  by (induction ps rule: thoughts.induct; simp; fail) (induction ps rule: sayings.induct; simp; fail | induction ps rule: calls_in.induct; simp; fail)+

lemma add_pieces_message: "fold (add_piece marshal) (pieces m) bl = add_message marshal m bl"
proof -
  have "fold (add_piece marshal) (map Call tcs) bl = fold (add_call marshal) tcs bl" for tcs bl
    by (induction tcs arbitrary: bl) simp_all
  then show ?thesis by (simp add: pieces_def add_message_def add_thinking_def add_text_def)
qed

lemma received_blocks_pieces:
  "received_blocks marshal rs bl = fold (add_piece marshal) (concat (map (pieces \<circ> cr_Message) rs)) bl"
  by (induction rs arbitrary: bl) (simp_all add: received_blocks_def add_pieces_message)

lemma pieces_parts:
  "thoughts (pieces m) = am_Thinking m" "sayings (pieces m) = am_Content m" "calls_in (pieces m) = am_ToolCalls m"
proof -
  have "thoughts (map Call tcs) = []" "sayings (map Call tcs) = []" "calls_in (map Call tcs) = tcs" for tcs
    by (induction tcs) simp_all
  then show "thoughts (pieces m) = am_Thinking m" "sayings (pieces m) = am_Content m" "calls_in (pieces m) = am_ToolCalls m"
    by (simp_all add: pieces_def)
qed

lemma no_sayings: "\<forall>p \<in> set ps. phase p \<le> 0 \<Longrightarrow> sayings ps = []" "\<forall>p \<in> set ps. phase p \<le> 1 \<Longrightarrow> calls_in ps = []"
  by (induction ps rule: sayings.induct; simp)+

lemma ids_of_blocks: "ids_of (blocks_of marshal t s tcs) = ac_ID ` set tcs"
  by (auto simp: ids_of_def blocks_of_def)

lemma blocks_in_phases:
  assumes "sorted (map phase ps)" and "distinct (map ac_ID (calls_in ps))" and "Think [] \<notin> set ps" and "Say [] \<notin> set ps"
  shows "fold (add_piece marshal) ps [] = blocks_of marshal (thoughts ps) (sayings ps) (calls_in ps)"
  using assms
proof (induction ps rule: rev_induct)
  case Nil
  then show ?case by (simp add: blocks_of_def)
next
  case (snoc p ps)
  have s: "\<forall>q \<in> set ps. phase q \<le> phase p" "fold (add_piece marshal) ps [] = blocks_of marshal (thoughts ps) (sayings ps) (calls_in ps)"
    using snoc by (auto simp: sorted_append)
  show ?case
  proof (cases p)
    case (Think t)
    then have "sayings ps = []" "calls_in ps = []" using s(1) no_sayings[of ps] by auto
    with s(2) Think snoc.prems(3) show ?thesis by (simp add: add_thinking_def blocks_of_def)
  next
    case (Say u)
    then have "calls_in ps = []" using s(1) no_sayings(2)[of ps] by auto
    with s(2) Say snoc.prems(4) show ?thesis by (simp add: add_text_def blocks_of_def)
  next
    case (Call tc)
    with snoc.prems(2) have "ac_ID tc \<notin> ac_ID ` set (calls_in ps)" by simp
    with s(2) Call show ?thesis by (simp add: add_call_def ids_of_blocks) (simp add: blocks_of_def)
  qed
qed

lemma whole_pieces:
  "thoughts (concat (map (pieces \<circ> cr_Message) rs)) = am_Thinking (whole_message (map cr_Message rs))"
  "sayings (concat (map (pieces \<circ> cr_Message) rs)) = am_Content (whole_message (map cr_Message rs))"
  "calls_in (concat (map (pieces \<circ> cr_Message) rs)) = am_ToolCalls (whole_message (map cr_Message rs))"
  by (induction rs) (simp_all add: whole_message_def plain_message_def pieces_parts)

lemma received_of_response:
  "map (received_of marshal) (response_blocks m) = blocks_of marshal (am_Thinking m) (am_Content m) (am_ToolCalls m)"
  by (simp add: response_blocks_def blocks_of_def received_of_def empty_block_def call_block_def)

text \<open>
  C13.  Streaming does not change a response that comes in phases.  When in the parts of a response
  all thinking comes before all text and all text before the calls, the calls have ids of their own
  and their arguments can be encoded, and only the last part is marked done: a client that
  accumulates the events has the blocks, the stop reason and the usage that the response would
  have had as a whole.
\<close>

theorem anthropic_stream_equals_response:
  assumes "\<forall>r \<in> set rs. \<not> cr_Done r" and "cr_Done r" and "encodable marshal (rs @ [r])" and "in_phases (rs @ [r])"
  shows "\<exists>u es. fst (process_all marshal (rs @ [r]) (NewStreamConverter mid model est)) =
      MessageStart mid model u # es @
      [MessageDelta (mr_StopReason (ToMessagesResponse mid (whole_response (rs @ [r]))))
         (mr_Usage (ToMessagesResponse mid (whole_response (rs @ [r])))), MessageStop] \<and>
    client_run es ([], False) =
      Some (map (received_of marshal) (mr_Content (ToMessagesResponse mid (whole_response (rs @ [r])))), False)"
proof -
  let ?ps = "concat (map (pieces \<circ> cr_Message) (rs @ [r]))" and ?m = "whole_message (map cr_Message (rs @ [r]))"
  from stream_run[OF assms(1,2) new_converter_in_step(1), of marshal mid model est] new_converter_in_step(2,3)[of mid model est] assms(3)
  obtain es where e: "fst (process_all marshal (rs @ [r]) (NewStreamConverter mid model est)) =
      start_event (NewStreamConverter mid model est) (hd (rs @ [r])) # es @
      [MessageDelta (mapStopReason (cr_DoneReason r) (ids_of (received_blocks marshal (rs @ [r]) []) \<noteq> {}))
        (UsageFromMetrics (cr_Metrics r)), MessageStop]"
    "client_run es ([], False) = Some (received_blocks marshal (rs @ [r]) [], False)"
    by auto
  have "Think [] \<notin> set (pieces m) \<and> Say [] \<notin> set (pieces m)" for m by (auto simp: pieces_def)
  then have "Think [] \<notin> set ?ps" "Say [] \<notin> set ?ps" by auto
  with assms(4) have "received_blocks marshal (rs @ [r]) [] = blocks_of marshal (am_Thinking ?m) (am_Content ?m) (am_ToolCalls ?m)"
    unfolding received_blocks_pieces in_phases_def Let_def whole_pieces[symmetric] by (blast intro: blocks_in_phases)
  moreover have "\<exists>u. start_event (NewStreamConverter mid model est) (hd (rs @ [r])) = MessageStart mid model u"
    by (simp add: start_event_def NewStreamConverter_def Let_def)
  ultimately show ?thesis using e
    by (auto simp: ToMessagesResponse_def whole_response_def received_of_response ids_of_blocks)
qed

definition example_part :: "string \<Rightarrow> string \<Rightarrow> api_call list \<Rightarrow> bool \<Rightarrow> chat_response" where
  "example_part thinking content tcs fin =
     \<lparr>cr_Model = ''m'', cr_Message = (plain_message ''assistant'' content)\<lparr>am_Thinking := thinking, am_ToolCalls := tcs\<rparr>,
      cr_Done = fin, cr_DoneReason = (if fin then ''stop'' else []),
      cr_Metrics = \<lparr>mt_PromptEvalCount = 7, mt_PromptEvalCachedCount = Some 2, mt_EvalCount = 3\<rparr>\<rparr>"

definition example_stream_call :: api_call where
  "example_stream_call = \<lparr>ac_ID = ''call_1'', ac_Index = 0, ac_Name = ''look'', ac_Arguments = newArguments\<rparr>"

definition example_marshal :: "call_arguments \<Rightarrow> string option" where
  "example_marshal args = Some ''{}''"

definition example_parts :: "chat_response list" where
  "example_parts = [example_part ''hm'' [] [] False, example_part ''m'' ''Yes'' [] False]"

lemma example_parts_facts:
  "\<forall>r \<in> set example_parts. \<not> cr_Done r" "cr_Done (example_part [] ''.'' [example_stream_call] True)"
  "encodable example_marshal (example_parts @ [example_part [] ''.'' [example_stream_call] True])"
  "in_phases (example_parts @ [example_part [] ''.'' [example_stream_call] True])"
  by (simp_all add: example_parts_def example_part_def encodable_def example_marshal_def in_phases_def pieces_def plain_message_def
      whole_message_def Let_def)

theorem anthropic_stream_well_formed_witness:
  "\<exists>es bl. fst (process_all example_marshal (example_parts @ [example_part [] ''.'' [example_stream_call] True]) (NewStreamConverter ''i'' ''m'' 0)) =
      MessageStart ''i'' ''m'' \<lparr>us_InputTokens = 5, us_CacheReadInputTokens = Some 2, us_OutputTokens = 0\<rparr> # es @
      [MessageDelta ''tool_use'' \<lparr>us_InputTokens = 5, us_CacheReadInputTokens = Some 2, us_OutputTokens = 3\<rparr>, MessageStop] \<and>
    client_run es ([], False) = Some (bl, False)"
proof -
  from anthropic_stream_well_formed[OF example_parts_facts(1,2), of example_marshal "''i''" "''m''" 0]
  obtain u es bl where h: "fst (process_all example_marshal (example_parts @ [example_part [] ''.'' [example_stream_call] True]) (NewStreamConverter ''i'' ''m'' 0)) =
      MessageStart ''i'' ''m'' u # es @ [MessageDelta (mapStopReason ''stop'' (ids_of bl \<noteq> {}))
        (UsageFromMetrics (cr_Metrics (example_part [] ''.'' [example_stream_call] True))), MessageStop]"
    "client_run es ([], False) = Some (bl, False)"
    "bl = received_blocks example_marshal (example_parts @ [example_part [] ''.'' [example_stream_call] True]) []"
    using example_parts_facts(3) by (auto simp: example_part_def)
  have "bl = [GotThinking ''hmm'', GotText ''Yes.'', GotCall ''call_1'' ''look'' ''{}'']"
    unfolding h(3) by (simp add: received_blocks_def example_parts_def example_part_def add_message_def plain_message_def add_thinking_def
        add_text_def add_call_def ids_of_def example_stream_call_def example_marshal_def)
  then have "ids_of bl \<noteq> {}" by (simp add: ids_of_def)
  moreover have "u = \<lparr>us_InputTokens = 5, us_CacheReadInputTokens = Some 2, us_OutputTokens = 0\<rparr>"
    using h(1) by (simp add: example_parts_def Process_def first_write_def example_part_def UsageFromMetrics_def intValue_def
        NewStreamConverter_def Let_def)
  ultimately show ?thesis using h(1,2)
    by (simp add: mapStopReason_def example_part_def UsageFromMetrics_def intValue_def Let_def)
qed

theorem anthropic_stream_equals_response_witness:
  "\<exists>es. client_run es ([], False) = Some ([GotThinking ''hmm'', GotText ''Yes.'', GotCall ''call_1'' ''look'' ''{}''], False) \<and>
    (\<exists>u. fst (process_all example_marshal (example_parts @ [example_part [] ''.'' [example_stream_call] True]) (NewStreamConverter ''i'' ''m'' 0)) =
      MessageStart ''i'' ''m'' u # es @
      [MessageDelta ''tool_use'' \<lparr>us_InputTokens = 5, us_CacheReadInputTokens = Some 2, us_OutputTokens = 3\<rparr>, MessageStop])"
  using anthropic_stream_equals_response[OF example_parts_facts, of "''i''" "''m''" 0]
  by (auto simp: ToMessagesResponse_def whole_response_def example_parts_def example_part_def whole_message_def plain_message_def
      response_blocks_def received_of_def empty_block_def call_block_def example_stream_call_def example_marshal_def mapStopReason_def
      UsageFromMetrics_def intValue_def Let_def)

text \<open>Thinking that comes behind content, after other thinking, is lost in a stream, and kept in a whole response.\<close>

theorem later_thinking_is_lost:
  "received_blocks marshal [example_part ''a'' [] [] False, example_part [] ''b'' [] False, example_part ''c'' [] [] True] [] =
     [GotThinking ''a'', GotText ''b'']"
  "am_Thinking (cr_Message (whole_response [example_part ''a'' [] [] False, example_part [] ''b'' [] False, example_part ''c'' [] [] True])) = ''ac''"
  by (simp_all add: received_blocks_def add_message_def add_thinking_def add_text_def example_part_def plain_message_def
      whole_response_def whole_message_def)

end
