(* ===== verification/AnthropicRequest.thy ===== *)
theory AnthropicRequest
  imports AnthropicStream GoRunes ApiTypes
begin

text \<open>
  Requests of the Anthropic API as requests of the chat API (\<^verbatim>\<open>anthropic/anthropic.go\<close>):
  the conversion of messages, tools and options, and the estimate of the tokens of a request.
  The decoders of JSON schemas and of base64 and the encoder of JSON are parameters.
\<close>

section \<open>Lower case\<close>

text \<open>\<^verbatim>\<open>strings.ToLower\<close>; \<open>lower\<close> is the Unicode table.\<close>

definition ascii_lower :: "char \<Rightarrow> char" where
  "ascii_lower c = (if 65 \<le> byte_val c \<and> byte_val c \<le> 90 then char_of (byte_val c + 32) else c)"

definition lower_string :: "(nat \<Rightarrow> nat) \<Rightarrow> string \<Rightarrow> string" where
  "lower_string lower s =
     (if \<forall>c \<in> set s. byte_val c < 0x80 then map ascii_lower s
      else concat (map (\<lambda>r. encode_rune (lower r)) (runes_of s)))"

section \<open>Messages\<close>

datatype 'e convert_error =
    MissingSource
  | NotBase64 string
  | BadBase64 'e
  | MissingToolUseID
  | MissingToolUseName
  | BadResultSource
  | BadSchema string 'e

definition resolveImageSource :: "(string \<Rightarrow> 'e + string) \<Rightarrow> image_source \<Rightarrow> 'e convert_error + string" where
  "resolveImageSource decode64 source =
     (if is_Type source \<noteq> ''base64'' then Inl (NotBase64 (is_Type source))
      else (case decode64 (is_Data source) of Inl e \<Rightarrow> Inl (BadBase64 e) | Inr img \<Rightarrow> Inr img))"

text \<open>The last member of an object with a key, and its value if it is a string.\<close>

definition member :: "(string \<times> json) list \<Rightarrow> string \<Rightarrow> json option" where
  "member obj key = map_of (rev obj) key"

fun as_string :: "json option \<Rightarrow> string option" where
  "as_string (Some (JString s)) = Some s"
| "as_string _ = None"

definition string_or_empty :: "(string \<times> json) list \<Rightarrow> string \<Rightarrow> string" where
  "string_or_empty obj key = (case as_string (member obj key) of None \<Rightarrow> [] | Some s \<Rightarrow> s)"

fun result_items ::
  "(string \<Rightarrow> 'e + string) \<Rightarrow> json list \<Rightarrow> string \<times> string list \<Rightarrow> 'e convert_error + (string \<times> string list)" where
  "result_items decode64 [] acc = Inr acc"
| "result_items decode64 (JObject cb # items) (text, images) =
     (if member cb ''type'' = Some (JString ''text'')
      then result_items decode64 items
             ((case as_string (member cb ''text'') of Some t \<Rightarrow> text @ t | None \<Rightarrow> text), images)
      else if member cb ''type'' = Some (JString ''image'')
      then (case member cb ''source'' of
              Some (JObject raw) \<Rightarrow>
                (case resolveImageSource decode64
                    \<lparr>is_Type = string_or_empty raw ''type'', is_MediaType = string_or_empty raw ''media_type'',
                     is_Data = string_or_empty raw ''data''\<rparr> of
                   Inl e \<Rightarrow> Inl e
                 | Inr img \<Rightarrow> result_items decode64 items (text, images @ [img]))
            | _ \<Rightarrow> Inl BadResultSource)
      else result_items decode64 items (text, images))"
| "result_items decode64 (_ # items) acc = result_items decode64 items acc"

fun convertToolResultContent ::
  "(string \<Rightarrow> 'e + string) \<Rightarrow> block_content \<Rightarrow> 'e convert_error + (string \<times> string list)" where
  "convertToolResultContent decode64 (ContentJson (JString c)) = Inr (c, [])"
| "convertToolResultContent decode64 (ContentJson (JArray c)) = result_items decode64 c ([], [])"
| "convertToolResultContent decode64 _ = Inr ([], [])"

definition search_error :: "string \<Rightarrow> string" where
  "search_error errorCode =
     (if errorCode = [] then ''web_search_tool_result_error'' else ''web_search_tool_result_error: '' @ errorCode)"

definition search_line :: "string \<Rightarrow> string \<Rightarrow> string" where
  "search_line title url = ''- '' @ title @ '': '' @ url @ [CHR 0x0A]"

fun search_items :: "json list \<Rightarrow> string \<Rightarrow> string" where
  "search_items [] acc = acc"
| "search_items (JObject item # items) acc =
     (if member item ''type'' = Some (JString ''web_search_result'')
      then search_items items (acc @ search_line (string_or_empty item ''title'') (string_or_empty item ''url''))
      else if member item ''type'' = Some (JString ''web_search_tool_result_error'')
      then search_error (string_or_empty item ''error_code'')
      else search_items items acc)"
| "search_items (_ # items) acc = search_items items acc"

definition encode_or_empty :: "(json \<Rightarrow> string option) \<Rightarrow> json \<Rightarrow> string" where
  "encode_or_empty encode c = (case encode c of None \<Rightarrow> [] | Some s \<Rightarrow> s)"

fun formatWebSearchToolResultContent :: "(json \<Rightarrow> string option) \<Rightarrow> block_content \<Rightarrow> string" where
  "formatWebSearchToolResultContent encode (ContentJson (JString c)) = c"
| "formatWebSearchToolResultContent encode (ContentResults c) =
     concat (map (\<lambda>item. search_line (ws_Title item) (ws_URL item)) (filter (\<lambda>item. ws_Type item = ''web_search_result'') c))"
| "formatWebSearchToolResultContent encode (ContentJson (JArray c)) = search_items c []"
| "formatWebSearchToolResultContent encode (ContentJson (JObject c)) =
     (if member c ''type'' = Some (JString ''web_search_tool_result_error'')
      then search_error (string_or_empty c ''error_code'') else encode_or_empty encode (JObject c))"
| "formatWebSearchToolResultContent encode (ContentError errorCode) = search_error errorCode"
| "formatWebSearchToolResultContent encode (ContentJson c) = encode_or_empty encode c"

record message_param =
  mp_Role :: string
  mp_Content :: "content_block list"

text \<open>What the loop over the blocks collects.\<close>

record collected =
  co_text :: string
  co_images :: "string list"
  co_toolCalls :: "api_call list"
  co_thinking :: string
  co_toolResults :: "api_message list"

definition block_call :: "content_block \<Rightarrow> api_call" where
  "block_call b = \<lparr>ac_ID = cb_ID b, ac_Index = 0, ac_Name = cb_Name b, ac_Arguments = cb_Input b\<rparr>"

definition tool_message :: "string \<Rightarrow> string list \<Rightarrow> string \<Rightarrow> api_message" where
  "tool_message content images callID = (plain_message ''tool'' content)\<lparr>am_Images := images, am_ToolCallID := callID\<rparr>"

definition convert_block ::
  "(string \<Rightarrow> 'e + string) \<Rightarrow> (json \<Rightarrow> string option) \<Rightarrow> content_block \<Rightarrow> collected \<Rightarrow> 'e convert_error + collected" where
  "convert_block decode64 encode b st =
     (if cb_Type b = ''text''
      then Inr (st\<lparr>co_text := co_text st @ (case cb_Text b of None \<Rightarrow> [] | Some t \<Rightarrow> t)\<rparr>)
      else if cb_Type b = ''image''
      then (case cb_Source b of
              None \<Rightarrow> Inl MissingSource
            | Some source \<Rightarrow>
                (case resolveImageSource decode64 source of
                   Inl e \<Rightarrow> Inl e
                 | Inr decoded \<Rightarrow> Inr (st\<lparr>co_images := co_images st @ [decoded]\<rparr>)))
      else if cb_Type b = ''tool_use''
      then (if cb_ID b = [] then Inl MissingToolUseID
            else if cb_Name b = [] then Inl MissingToolUseName
            else Inr (st\<lparr>co_toolCalls := co_toolCalls st @ [block_call b]\<rparr>))
      else if cb_Type b = ''tool_result''
      then (case convertToolResultContent decode64 (cb_Content b) of
              Inl e \<Rightarrow> Inl e
            | Inr (content, images) \<Rightarrow>
                Inr (st\<lparr>co_toolResults := co_toolResults st @ [tool_message content images (cb_ToolUseID b)]\<rparr>))
      else if cb_Type b = ''thinking''
      then Inr (case cb_Thinking b of None \<Rightarrow> st | Some t \<Rightarrow> st\<lparr>co_thinking := t\<rparr>)
      else if cb_Type b = ''server_tool_use''
      then Inr (st\<lparr>co_toolCalls := co_toolCalls st @ [block_call b]\<rparr>)
      else if cb_Type b = ''web_search_tool_result''
      then Inr (st\<lparr>co_toolResults := co_toolResults st @
             [tool_message (formatWebSearchToolResultContent encode (cb_Content b)) [] (cb_ToolUseID b)]\<rparr>)
      else Inr st)"

fun convert_blocks ::
  "(string \<Rightarrow> 'e + string) \<Rightarrow> (json \<Rightarrow> string option) \<Rightarrow> content_block list \<Rightarrow> collected \<Rightarrow> 'e convert_error + collected" where
  "convert_blocks decode64 encode [] st = Inr st"
| "convert_blocks decode64 encode (b # bs) st =
     (case convert_block decode64 encode b st of Inl e \<Rightarrow> Inl e | Inr st' \<Rightarrow> convert_blocks decode64 encode bs st')"

definition own_message :: "string \<Rightarrow> collected \<Rightarrow> api_message list" where
  "own_message role st =
     (if co_text st \<noteq> [] \<or> co_images st \<noteq> [] \<or> co_toolCalls st \<noteq> [] \<or> co_thinking st \<noteq> []
      then [(plain_message role (co_text st))\<lparr>am_Images := co_images st, am_ToolCalls := co_toolCalls st,
              am_Thinking := co_thinking st\<rparr>]
      else [])"

definition convertMessage ::
  "(nat \<Rightarrow> nat) \<Rightarrow> (string \<Rightarrow> 'e + string) \<Rightarrow> (json \<Rightarrow> string option) \<Rightarrow> message_param \<Rightarrow> 'e convert_error + api_message list" where
  "convertMessage lower decode64 encode msg =
     (let role = lower_string lower (mp_Role msg)
      in case convert_blocks decode64 encode (mp_Content msg)
           \<lparr>co_text = [], co_images = [], co_toolCalls = [], co_thinking = [], co_toolResults = []\<rparr> of
           Inl e \<Rightarrow> Inl e
         | Inr st \<Rightarrow>
             Inr ((if role = ''user'' \<and> co_toolResults st \<noteq> [] then co_toolResults st else [])
                @ own_message role st
                @ (if role \<noteq> ''user'' \<or> co_toolResults st = [] then co_toolResults st else [])))"

section \<open>Requests\<close>

record tool_property =
  pr_Type :: "string list"
  pr_Description :: string
  pr_more :: "(string \<times> json) list"

record tool_parameters =
  tp_Type :: string
  tp_Required :: "string list"
  tp_Properties :: "(string \<times> tool_property) list"
  tp_more :: "(string \<times> json) list"

record api_tool =
  at_Name :: string
  at_Description :: string
  at_Parameters :: tool_parameters

record anthropic_tool =
  an_Type :: string
  an_Name :: string
  an_Description :: string
  an_InputSchema :: string

definition web_search_type :: "string \<Rightarrow> bool" where
  "web_search_type ty \<longleftrightarrow> prefix ''web_search'' ty"

definition no_parameters :: tool_parameters where
  "no_parameters = \<lparr>tp_Type = [], tp_Required = [], tp_Properties = [], tp_more = []\<rparr>"

definition convertTool :: "(string \<Rightarrow> 'e + tool_parameters) \<Rightarrow> anthropic_tool \<Rightarrow> 'e convert_error + (api_tool \<times> bool)" where
  "convertTool schema t =
     (if web_search_type (an_Type t)
      then Inr (\<lparr>at_Name = ''web_search'',
                 at_Description = ''Search the web for current information. Use this to find up-to-date information about any topic.'',
                 at_Parameters = \<lparr>tp_Type = ''object'', tp_Required = [''query''],
                   tp_Properties = om_set ''query''
                     \<lparr>pr_Type = [''string''], pr_Description = ''The search query to look up on the web'', pr_more = []\<rparr> [],
                   tp_more = []\<rparr>\<rparr>, True)
      else
        (case (if an_InputSchema t \<noteq> [] then schema (an_InputSchema t) else Inr no_parameters) of
           Inl e \<Rightarrow> Inl (BadSchema (an_Name t) e)
         | Inr params \<Rightarrow> Inr (\<lparr>at_Name = an_Name t, at_Description = an_Description t, at_Parameters = params\<rparr>, False)))"

text \<open>Numbers that are only passed on are of type \<open>'f\<close>.\<close>

datatype 'f option_value = OptInt int | OptFloat 'f | OptStrings "string list"

record 'f messages_request =
  rq_Model :: string
  rq_MaxTokens :: int
  rq_Messages :: "message_param list"
  rq_System :: json
  rq_Stream :: bool
  rq_Temperature :: "'f option"
  rq_TopP :: "'f option"
  rq_TopK :: "int option"
  rq_StopSequences :: "string list"
  rq_Tools :: "anthropic_tool list"
  rq_Thinking :: "string option"
  rq_Effort :: "string option"

record 'f chat_request =
  ch_Model :: string
  ch_Messages :: "api_message list"
  ch_Options :: "string \<Rightarrow> 'f option_value option"
  ch_Stream :: bool
  ch_Tools :: "api_tool list"
  ch_Think :: think_value

fun system_text :: "json list \<Rightarrow> string" where
  "system_text [] = []"
| "system_text (JObject b # bs) =
     (if member b ''type'' = Some (JString ''text'') then string_or_empty b ''text'' else []) @ system_text bs"
| "system_text (_ # bs) = system_text bs"

definition system_message :: "json \<Rightarrow> api_message list" where
  "system_message sys =
     (let content = (case sys of JString t \<Rightarrow> t | JArray bs \<Rightarrow> system_text bs | _ \<Rightarrow> [])
      in if content \<noteq> [] then [plain_message ''system'' content] else [])"

fun convert_messages ::
  "(nat \<Rightarrow> nat) \<Rightarrow> (string \<Rightarrow> 'e + string) \<Rightarrow> (json \<Rightarrow> string option) \<Rightarrow> message_param list \<Rightarrow> 'e convert_error + api_message list" where
  "convert_messages lower decode64 encode [] = Inr []"
| "convert_messages lower decode64 encode (m # ms) =
     (case convertMessage lower decode64 encode m of
        Inl e \<Rightarrow> Inl e
      | Inr converted \<Rightarrow>
          (case convert_messages lower decode64 encode ms of Inl e \<Rightarrow> Inl e | Inr rest \<Rightarrow> Inr (converted @ rest)))"

fun convert_tools ::
  "(string \<Rightarrow> 'e + tool_parameters) \<Rightarrow> bool \<Rightarrow> anthropic_tool list \<Rightarrow> 'e convert_error + api_tool list" where
  "convert_tools schema builtin [] = Inr []"
| "convert_tools schema builtin (t # ts) =
     (if builtin \<and> \<not> web_search_type (an_Type t) \<and> an_Name t = ''web_search'' then convert_tools schema builtin ts
      else (case convertTool schema t of
              Inl e \<Rightarrow> Inl e
            | Inr (tool, _) \<Rightarrow>
                (case convert_tools schema builtin ts of Inl e \<Rightarrow> Inl e | Inr rest \<Rightarrow> Inr (tool # rest))))"

definition request_options :: "'f messages_request \<Rightarrow> string \<Rightarrow> 'f option_value option" where
  "request_options r =
     (let o1 = Map.empty(''num_predict'' \<mapsto> OptInt (rq_MaxTokens r));
          o2 = (case rq_Temperature r of None \<Rightarrow> o1 | Some x \<Rightarrow> o1(''temperature'' \<mapsto> OptFloat x));
          o3 = (case rq_TopP r of None \<Rightarrow> o2 | Some x \<Rightarrow> o2(''top_p'' \<mapsto> OptFloat x));
          o4 = (case rq_TopK r of None \<Rightarrow> o3 | Some x \<Rightarrow> o3(''top_k'' \<mapsto> OptInt x))
      in if rq_StopSequences r \<noteq> [] then o4(''stop'' \<mapsto> OptStrings (rq_StopSequences r)) else o4)"

text \<open>\<^verbatim>\<open>ValidateLegacyThinking\<close> of \<^verbatim>\<open>api/types.go\<close>: whether there is no error.\<close>

definition legacy_thinking_ok :: "think_value \<Rightarrow> bool" where
  "legacy_thinking_ok think \<longleftrightarrow>
     (if \<not> ThinkValue_IsString think then True else ThinkValue_String think \<in> {''low'', ''medium'', ''high'', ''max''})"

text \<open>The thinking value; \<open>descriptor\<close> is the optional argument.\<close>

definition request_think ::
  "(nat \<Rightarrow> nat) \<Rightarrow> thinking option option \<Rightarrow> 'f messages_request \<Rightarrow> think_value" where
  "request_think lower descriptor r =
     (let t1 = (if rq_Thinking r = Some ''enabled'' then Some (AnyBool True) else None);
          t2 = (if rq_Thinking r = Some ''disabled'' then Some (AnyBool False) else t1)
      in case rq_Effort r of
           None \<Rightarrow> t2
         | Some effort \<Rightarrow>
             if t2 \<noteq> None then t2
             else if (case descriptor of None \<Rightarrow> False | Some d \<Rightarrow> Thinking_Valid d)
             then (if effort \<noteq> [] then Some (AnyString effort) else None)
             else
               (let low = lower_string lower (trim_space effort);
                    mapped = (if low = ''xhigh'' then ''high'' else low)
                in if legacy_thinking_ok (Some (AnyString mapped)) then Some (AnyString mapped) else None))"

definition FromMessagesRequest ::
  "(nat \<Rightarrow> nat) \<Rightarrow> (string \<Rightarrow> 'e + string) \<Rightarrow> (json \<Rightarrow> string option) \<Rightarrow> (string \<Rightarrow> 'e + tool_parameters) \<Rightarrow>
   thinking option option \<Rightarrow> 'f messages_request \<Rightarrow> 'e convert_error + 'f chat_request" where
  "FromMessagesRequest lower decode64 encode schema descriptor r =
     (case convert_messages lower decode64 encode (rq_Messages r) of
        Inl e \<Rightarrow> Inl e
      | Inr messages \<Rightarrow>
          (case convert_tools schema (\<exists>t \<in> set (rq_Tools r). web_search_type (an_Type t)) (rq_Tools r) of
             Inl e \<Rightarrow> Inl e
           | Inr tools \<Rightarrow>
               Inr \<lparr>ch_Model = rq_Model r, ch_Messages = system_message (rq_System r) @ messages,
                    ch_Options = request_options r, ch_Stream = rq_Stream r, ch_Tools = tools,
                    ch_Think = request_think lower descriptor r\<rparr>))"

section \<open>Estimates\<close>

text \<open>
  \<^verbatim>\<open>countContentBlock\<close>; \<open>encode_block\<close> is the JSON encoder of blocks, \<open>decode_block\<close> the way
  of a JSON value through the encoder and the decoder of blocks.
\<close>

definition countContentBlock :: "(content_block \<Rightarrow> string option) \<Rightarrow> content_block \<Rightarrow> int" where
  "countContentBlock encode_block b =
     (case cb_Text b of None \<Rightarrow> 0 | Some t \<Rightarrow> int (length t))
   + (case cb_Thinking b of None \<Rightarrow> 0 | Some t \<Rightarrow> int (length t))
   + (if cb_Type b = ''tool_use'' \<or> cb_Type b = ''tool_result''
      then (case encode_block b of None \<Rightarrow> 0 | Some data \<Rightarrow> int (length data)) else 0)"

definition count_blocks :: "(content_block \<Rightarrow> string option) \<Rightarrow> content_block list \<Rightarrow> int" where
  "count_blocks encode_block bs = sum_list (map (countContentBlock encode_block) bs)"

definition countAnyContent ::
  "(content_block \<Rightarrow> string option) \<Rightarrow> (json \<Rightarrow> content_block option) \<Rightarrow> (json \<Rightarrow> string option) \<Rightarrow> json \<Rightarrow> int" where
  "countAnyContent encode_block decode_block encode content =
     (case content of
        JNull \<Rightarrow> 0
      | JString s \<Rightarrow> int (length s)
      | JArray items \<Rightarrow>
          sum_list (map (\<lambda>item. case decode_block item of None \<Rightarrow> 0 | Some b \<Rightarrow> countContentBlock encode_block b) items)
      | _ \<Rightarrow> (case encode content of None \<Rightarrow> 0 | Some data \<Rightarrow> int (length data)))"

definition EstimateInputTokens ::
  "(content_block \<Rightarrow> string option) \<Rightarrow> (json \<Rightarrow> content_block option) \<Rightarrow> (json \<Rightarrow> string option) \<Rightarrow> 'f messages_request \<Rightarrow> int" where
  "EstimateInputTokens encode_block decode_block encode req =
     (let totalLen = countAnyContent encode_block decode_block encode (rq_System req)
            + sum_list (map (\<lambda>m. int (length (mp_Role m)) + count_blocks encode_block (mp_Content m)) (rq_Messages req))
            + sum_list (map (\<lambda>t. int (length (an_Name t)) + int (length (an_Description t)) + int (length (an_InputSchema t)))
                (rq_Tools req));
          tokens = totalLen div 4
      in if tokens = 0 \<and> (rq_Messages req \<noteq> [] \<or> rq_System req \<noteq> JNull) then 1 else tokens)"

section \<open>What comes back\<close>

text \<open>A block of a response is collected as the part of the message it was made of.\<close>

lemma collect_calls:
  "\<forall>tc \<in> set tcs. ac_ID tc \<noteq> [] \<and> ac_Name tc \<noteq> [] \<Longrightarrow>
   convert_blocks decode64 encode (map call_block tcs) st =
     Inr (st\<lparr>co_toolCalls := co_toolCalls st @ map (\<lambda>tc. tc\<lparr>ac_Index := 0\<rparr>) tcs\<rparr>)"
  by (induction tcs arbitrary: st)
    (simp_all add: convert_block_def call_block_def empty_block_def block_call_def)

lemma convert_blocks_append:
  "convert_blocks decode64 encode (bs @ cs) st =
     (case convert_blocks decode64 encode bs st of Inl e \<Rightarrow> Inl e | Inr st' \<Rightarrow> convert_blocks decode64 encode cs st')"
  by (induction bs arbitrary: st) (auto split: sum.splits)

lemma lower_assistant [simp]: "lower_string lower ''assistant'' = ''assistant''"
  by (simp add: lower_string_def ascii_lower_def)

text \<open>
  C19.  A response that a client sends back in its next request becomes the message it was made
  of: the conversion of the blocks of an assistant message gives that message again, with its
  thinking, content and calls, as one message.
\<close>

theorem assistant_turn_roundtrip:
  assumes "am_Role m = ''assistant''" and "am_Images m = []" and "am_ToolName m = []" and "am_ToolCallID m = []"
    and "am_Content m \<noteq> [] \<or> am_ToolCalls m \<noteq> [] \<or> am_Thinking m \<noteq> []"
    and "\<forall>tc \<in> set (am_ToolCalls m). ac_ID tc \<noteq> [] \<and> ac_Name tc \<noteq> []"
  shows "convertMessage lower decode64 encode
      \<lparr>mp_Role = ''assistant'', mp_Content = mr_Content (ToMessagesResponse mid (r\<lparr>cr_Message := m\<rparr>))\<rparr> =
    Inr [m\<lparr>am_ToolCalls := map (\<lambda>tc. tc\<lparr>ac_Index := 0\<rparr>) (am_ToolCalls m)\<rparr>]"
proof -
  have "convert_blocks decode64 encode (response_blocks m)
      \<lparr>co_text = [], co_images = [], co_toolCalls = [], co_thinking = [], co_toolResults = []\<rparr> =
    Inr \<lparr>co_text = am_Content m, co_images = [], co_toolCalls = map (\<lambda>tc. tc\<lparr>ac_Index := 0\<rparr>) (am_ToolCalls m),
      co_thinking = am_Thinking m, co_toolResults = []\<rparr>"
    unfolding response_blocks_def
    by (simp add: convert_blocks_append collect_calls[OF assms(6)] convert_block_def empty_block_def)
  with assms show ?thesis
    by (cases m) (auto simp: convertMessage_def ToMessagesResponse_def own_message_def plain_message_def)
qed

theorem assistant_turn_roundtrip_witness:
  "\<exists>m. am_Content m = ''Yes'' \<and> am_ToolCalls m = [example_stream_call] \<and>
    convertMessage (\<lambda>r. r) (\<lambda>s. Inl ()) (\<lambda>j. None)
      \<lparr>mp_Role = ''assistant'', mp_Content = mr_Content (ToMessagesResponse ''i'' ((example_part [] [] [] True)\<lparr>cr_Message := m\<rparr>))\<rparr> = Inr [m]"
  by (rule exI[of _ "(plain_message ''assistant'' ''Yes'')\<lparr>am_ToolCalls := [example_stream_call]\<rparr>"])
    (use assistant_turn_roundtrip[of "(plain_message ''assistant'' ''Yes'')\<lparr>am_ToolCalls := [example_stream_call]\<rparr>" "\<lambda>r. r"
        "\<lambda>s. Inl ()" "\<lambda>j. None" "''i''" "example_part [] [] [] True"] in \<open>simp add: plain_message_def example_stream_call_def\<close>)

text \<open>
  Only the last thinking block of a message is kept, while text blocks are joined.
\<close>

theorem earlier_thinking_is_lost:
  "convertMessage lower decode64 encode
     \<lparr>mp_Role = ''assistant'',
      mp_Content = [(empty_block ''thinking'')\<lparr>cb_Thinking := Some ''a''\<rparr>, (empty_block ''thinking'')\<lparr>cb_Thinking := Some ''b''\<rparr>]\<rparr> =
   Inr [(plain_message ''assistant'' [])\<lparr>am_Thinking := ''b''\<rparr>]"
  by (simp add: convertMessage_def convert_block_def empty_block_def own_message_def plain_message_def)

section \<open>Errors\<close>

definition bad_source :: "(string \<Rightarrow> 'e + string) \<Rightarrow> image_source \<Rightarrow> bool" where
  "bad_source decode64 source \<longleftrightarrow> is_Type source \<noteq> ''base64'' \<or> (\<exists>e. decode64 (is_Data source) = Inl e)"

definition bad_item :: "(string \<Rightarrow> 'e + string) \<Rightarrow> json \<Rightarrow> bool" where
  "bad_item decode64 item \<longleftrightarrow>
     (\<exists>cb. item = JObject cb \<and> member cb ''type'' = Some (JString ''image'') \<and>
        (\<forall>raw. member cb ''source'' = Some (JObject raw) \<longrightarrow>
           bad_source decode64 \<lparr>is_Type = string_or_empty raw ''type'', is_MediaType = string_or_empty raw ''media_type'',
             is_Data = string_or_empty raw ''data''\<rparr>))"

definition bad_block :: "(string \<Rightarrow> 'e + string) \<Rightarrow> content_block \<Rightarrow> bool" where
  "bad_block decode64 b \<longleftrightarrow>
     cb_Type b = ''image'' \<and> (\<forall>source. cb_Source b = Some source \<longrightarrow> bad_source decode64 source) \<or>
     cb_Type b = ''tool_use'' \<and> (cb_ID b = [] \<or> cb_Name b = []) \<or>
     cb_Type b = ''tool_result'' \<and> (\<exists>items. cb_Content b = ContentJson (JArray items) \<and> (\<exists>i \<in> set items. bad_item decode64 i))"

lemma resolve_fails: "isl (resolveImageSource decode64 source) \<longleftrightarrow> bad_source decode64 source"
  by (auto simp: resolveImageSource_def bad_source_def split: sum.splits)

lemma result_items_fails: "isl (result_items decode64 items acc) \<longleftrightarrow> (\<exists>i \<in> set items. bad_item decode64 i)"
proof (induction items arbitrary: acc)
  case (Cons i items)
  obtain t im where acc: "acc = (t, im)" by fastforce
  show ?case
  proof (cases i)
    case (JObject cb)
    have r: "isl (resolveImageSource decode64 s) \<longleftrightarrow> bad_source decode64 s" for s by (rule resolve_fails)
    consider (t) "member cb ''type'' = Some (JString ''text'')" | (im) "member cb ''type'' = Some (JString ''image'')"
      | (other) "member cb ''type'' \<noteq> Some (JString ''text'')" "member cb ''type'' \<noteq> Some (JString ''image'')" by blast
    then show ?thesis
    proof cases
      case im
      show ?thesis
      proof (cases "\<exists>raw. member cb ''source'' = Some (JObject raw)")
        case True
        then obtain raw where raw: "member cb ''source'' = Some (JObject raw)" by blast
        let ?s = "\<lparr>is_Type = string_or_empty raw ''type'', is_MediaType = string_or_empty raw ''media_type'', is_Data = string_or_empty raw ''data''\<rparr>"
        show ?thesis using im raw Cons.IH r[of ?s] unfolding acc JObject
          by (cases "resolveImageSource decode64 ?s") (auto simp: bad_item_def)
      next
        case False
        with im show ?thesis unfolding acc JObject by (auto simp: bad_item_def split: option.splits json.splits)
      qed
    qed (use Cons.IH in \<open>auto simp: acc JObject bad_item_def\<close>)
  qed (use Cons.IH in \<open>auto simp: bad_item_def\<close>)
qed simp

lemma result_content_fails:
  "isl (convertToolResultContent decode64 c) \<longleftrightarrow> (\<exists>items. c = ContentJson (JArray items) \<and> (\<exists>i \<in> set items. bad_item decode64 i))"
proof (cases c)
  case (ContentJson j)
  then show ?thesis by (cases j) (simp_all add: result_items_fails)
qed simp_all

lemma convert_block_fails: "isl (convert_block decode64 encode b st) \<longleftrightarrow> bad_block decode64 b"
proof -
  have i: "isl (case cb_Source b of None \<Rightarrow> Inl MissingSource
      | Some source \<Rightarrow> (case resolveImageSource decode64 source of Inl e \<Rightarrow> Inl e | Inr decoded \<Rightarrow> Inr (f decoded))) \<longleftrightarrow>
    (\<forall>source. cb_Source b = Some source \<longrightarrow> bad_source decode64 source)" for f :: "string \<Rightarrow> collected"
  proof (cases "cb_Source b")
    case (Some source)
    with resolve_fails[of decode64 source] show ?thesis by (cases "resolveImageSource decode64 source") auto
  qed simp
  have r: "isl (case convertToolResultContent decode64 (cb_Content b) of Inl e \<Rightarrow> Inl e
      | Inr (content, images) \<Rightarrow> Inr (f content images)) \<longleftrightarrow>
    (\<exists>items. cb_Content b = ContentJson (JArray items) \<and> (\<exists>i \<in> set items. bad_item decode64 i))" for f :: "string \<Rightarrow> string list \<Rightarrow> collected"
    using result_content_fails[of decode64 "cb_Content b"] by (cases "convertToolResultContent decode64 (cb_Content b)") auto
  show ?thesis unfolding convert_block_def bad_block_def by (simp add: i r)
qed

lemma convert_blocks_fails: "isl (convert_blocks decode64 encode bs st) \<longleftrightarrow> (\<exists>b \<in> set bs. bad_block decode64 b)"
proof (induction bs arbitrary: st)
  case (Cons b bs)
  show ?case using convert_block_fails[of decode64 encode b st] Cons.IH
    by (cases "convert_block decode64 encode b st") auto
qed simp

lemma convert_messages_fails:
  "isl (convert_messages lower decode64 encode ms) \<longleftrightarrow> (\<exists>m \<in> set ms. \<exists>b \<in> set (mp_Content m). bad_block decode64 b)"
proof (induction ms)
  case (Cons m ms)
  have "isl (convertMessage lower decode64 encode m) \<longleftrightarrow> (\<exists>b \<in> set (mp_Content m). bad_block decode64 b)"
    using convert_blocks_fails[of decode64 encode "mp_Content m"
        "\<lparr>co_text = [], co_images = [], co_toolCalls = [], co_thinking = [], co_toolResults = []\<rparr>"]
    by (cases "convert_blocks decode64 encode (mp_Content m)
        \<lparr>co_text = [], co_images = [], co_toolCalls = [], co_thinking = [], co_toolResults = []\<rparr>") (auto simp: convertMessage_def Let_def)
  with Cons show ?case
    by (cases "convertMessage lower decode64 encode m"; cases "convert_messages lower decode64 encode ms") auto
qed simp

lemma convert_tools_fails:
  "isl (convert_tools schema builtin ts) \<longleftrightarrow>
     (\<exists>t \<in> set ts. \<not> web_search_type (an_Type t) \<and> \<not> (builtin \<and> an_Name t = ''web_search'') \<and>
        an_InputSchema t \<noteq> [] \<and> isl (schema (an_InputSchema t)))"
proof (induction ts)
  case (Cons t ts)
  have "isl (convertTool schema t) \<longleftrightarrow> \<not> web_search_type (an_Type t) \<and> an_InputSchema t \<noteq> [] \<and> isl (schema (an_InputSchema t))"
    by (auto simp: convertTool_def split: sum.splits)
  with Cons show ?case
    by (cases "convertTool schema t"; cases "convert_tools schema builtin ts") auto
qed simp

text \<open>
  C32.  A request is refused exactly when it has a bad block, an image without base64 data, a
  tool use without id or name or a tool result with a bad image, or a tool that is not dropped
  and whose schema cannot be decoded.
\<close>

theorem anthropic_request_refused_iff:
  "isl (FromMessagesRequest lower decode64 encode schema descriptor r) \<longleftrightarrow>
     (\<exists>m \<in> set (rq_Messages r). \<exists>b \<in> set (mp_Content m). bad_block decode64 b) \<or>
     (\<exists>t \<in> set (rq_Tools r). \<not> web_search_type (an_Type t) \<and>
        \<not> ((\<exists>t' \<in> set (rq_Tools r). web_search_type (an_Type t')) \<and> an_Name t = ''web_search'') \<and>
        an_InputSchema t \<noteq> [] \<and> isl (schema (an_InputSchema t)))"
  using convert_messages_fails[of lower decode64 encode "rq_Messages r"]
    convert_tools_fails[of schema "\<exists>t \<in> set (rq_Tools r). web_search_type (an_Type t)" "rq_Tools r"]
  by (auto simp: FromMessagesRequest_def split: sum.splits)

end
