(* ===== verification/AnthropicSearch.thy ===== *)
theory AnthropicSearch
  imports AnthropicStream
begin

text \<open>
  Web search for the Anthropic API (\<^verbatim>\<open>middleware/anthropic.go\<close>, \<^verbatim>\<open>web_search.go\<close>,
  \<^verbatim>\<open>metrics.go\<close>): the writer passes the chunks of a response through the stream converter until
  one calls \<^verbatim>\<open>web_search\<close>; from there on the searches run beside the generation, and their
  result ends the stream.  The search service and the follow-up chat are parameters, which may
  answer each loop differently.
\<close>

section \<open>Counts of tokens\<close>

definition addOptionalInts :: "int option \<Rightarrow> int option \<Rightarrow> int option" where
  "addOptionalInts a b = (if a = None \<and> b = None then None else Some (intValue a + intValue b))"

definition maxOptionalInts :: "int option \<Rightarrow> int option \<Rightarrow> int option" where
  "maxOptionalInts a b = (if a = None \<and> b = None then None else Some (max (intValue a) (intValue b)))"

section \<open>The loop of searches\<close>

record search_result =
  sr_Title :: string
  sr_URL :: string
  sr_Content :: string

record search_request =
  sq_id :: string
  sq_Model :: string
  sq_Tools :: "(string \<times> int) list"
  sq_Messages :: "api_message list"
  sq_estimated :: int

definition findWebSearchToolCall :: "api_call list \<Rightarrow> api_call option" where
  "findWebSearchToolCall tcs = find (\<lambda>tc. ac_Name tc = ''web_search'') tcs"

definition extractQueryFromToolCall :: "api_call \<Rightarrow> string" where
  "extractQueryFromToolCall tc =
     (case arguments_Get (ac_Arguments tc) ''query'' of Some (JString q) \<Rightarrow> q | _ \<Rightarrow> [])"

definition buildWebSearchAssistantMessage :: "chat_response \<Rightarrow> api_call \<Rightarrow> api_message" where
  "buildWebSearchAssistantMessage r tc =
     (plain_message ''assistant'' (am_Content (cr_Message r)))\<lparr>am_ToolCalls := [tc], am_Thinking := am_Thinking (cr_Message r)\<rparr>"

definition queryArgs :: "string \<Rightarrow> call_arguments" where
  "queryArgs query = arguments_Set ''query'' (JString query) newArguments"

definition serverToolUseID :: "string \<Rightarrow> string" where
  "serverToolUseID mid = ''srvtoolu_'' @ (if prefix ''msg_'' mid then drop 4 mid else mid)"

definition loopServerToolUseID :: "string \<Rightarrow> nat \<Rightarrow> string" where
  "loopServerToolUseID mid loop = (if loop \<le> 1 then serverToolUseID mid else serverToolUseID mid @ ''_'' @ show_nat loop)"

definition search_use :: "string \<Rightarrow> string \<Rightarrow> content_block" where
  "search_use toolUseID query =
     (empty_block ''server_tool_use'')\<lparr>cb_ID := toolUseID, cb_Name := ''web_search'', cb_Input := queryArgs query\<rparr>"

definition search_answer :: "string \<Rightarrow> block_content \<Rightarrow> content_block" where
  "search_answer toolUseID content = (empty_block ''web_search_tool_result'')\<lparr>cb_ToolUseID := toolUseID, cb_Content := content\<rparr>"

definition ConvertOllamaToAnthropicResults :: "search_result list \<Rightarrow> web_search_result list" where
  "ConvertOllamaToAnthropicResults rs =
     map (\<lambda>r. \<lparr>ws_Type = ''web_search_result'', ws_URL = sr_URL r, ws_Title = sr_Title r\<rparr>) rs"

definition formatWebSearchResults :: "search_result list \<Rightarrow> string" where
  "formatWebSearchResults rs =
     concat (map (\<lambda>r. ''Title: '' @ sr_Title r @ [CHR 0x0A] @ ''URL: '' @ sr_URL r @ [CHR 0x0A]
        @ (if sr_Content r \<noteq> [] then ''Content: '' @ sr_Content r @ [CHR 0x0A] else []) @ [CHR 0x0A]) rs)"

record loop_error =
  le_code :: string
  le_query :: string
  le_usage :: usage

definition add_usage :: "usage \<Rightarrow> usage \<Rightarrow> usage" where
  "add_usage u f =
     \<lparr>us_InputTokens = us_InputTokens u + us_InputTokens f,
      us_CacheReadInputTokens = addOptionalInts (us_CacheReadInputTokens u) (us_CacheReadInputTokens f),
      us_OutputTokens = us_OutputTokens u + us_OutputTokens f\<rparr>"

definition max_loops :: "(string \<times> int) list \<Rightarrow> nat" where
  "max_loops tools =
     foldl (\<lambda>n (ty, uses). if prefix ''web_search'' ty \<and> uses > 0 then min n (nat uses) else n) 10 tools"

definition combineServerAndFinalContent :: "search_request \<Rightarrow> content_block list \<Rightarrow> chat_response \<Rightarrow> usage \<Rightarrow> messages_response" where
  "combineServerAndFinalContent q serverContent r u =
     (let converted = ToMessagesResponse (sq_id q) r
      in \<lparr>mr_ID = sq_id q, mr_Model = sq_Model q, mr_Content = serverContent @ mr_Content converted,
          mr_StopReason = mr_StopReason converted, mr_Usage = u\<rparr>)"

text \<open>The loop over the numbers of the searches that are left.\<close>

fun search_loop ::
  "(nat \<Rightarrow> string \<Rightarrow> 'e + search_result list) \<Rightarrow> (nat \<Rightarrow> api_message list \<Rightarrow> 'e + chat_response) \<Rightarrow> search_request \<Rightarrow>
   nat list \<Rightarrow> nat \<Rightarrow> api_message list \<Rightarrow> chat_response \<Rightarrow> api_call \<Rightarrow> usage \<Rightarrow> content_block list \<Rightarrow>
   loop_error + messages_response" where
  "search_loop search followup q [] maxLoops msgs r tc u content =
     (let useID = loopServerToolUseID (sq_id q) (maxLoops + 1)
      in Inr \<lparr>mr_ID = sq_id q, mr_Model = sq_Model q,
              mr_Content = content @ [search_use useID (extractQueryFromToolCall tc), search_answer useID (ContentError ''max_uses_exceeded'')],
              mr_StopReason = ''end_turn'', mr_Usage = u\<rparr>)"
| "search_loop search followup q (loop # loops) maxLoops msgs r tc u content =
     (let query = extractQueryFromToolCall tc
      in if query = [] then Inl \<lparr>le_code = ''invalid_request'', le_query = [], le_usage = u\<rparr>
         else (case search loop query of
                 Inl _ \<Rightarrow> Inl \<lparr>le_code = ''unavailable'', le_query = query, le_usage = u\<rparr>
               | Inr results \<Rightarrow>
                   (let useID = loopServerToolUseID (sq_id q) loop;
                        content' = content @ [search_use useID query,
                          search_answer useID (ContentResults (ConvertOllamaToAnthropicResults results))];
                        msgs' = msgs @ [buildWebSearchAssistantMessage r tc,
                          (plain_message ''tool'' (formatWebSearchResults results))\<lparr>am_ToolCallID := ac_ID tc\<rparr>]
                    in case followup loop msgs' of
                         Inl _ \<Rightarrow> Inl \<lparr>le_code = ''api_error'', le_query = query, le_usage = u\<rparr>
                       | Inr r' \<Rightarrow>
                           (let u' = add_usage u (UsageFromMetrics (cr_Metrics r'))
                            in case findWebSearchToolCall (am_ToolCalls (cr_Message r')) of
                                 None \<Rightarrow> Inr (combineServerAndFinalContent q content' r' u')
                               | Some tc' \<Rightarrow> search_loop search followup q loops maxLoops msgs' r' tc' u' content'))))"

definition runWebSearchLoop ::
  "(nat \<Rightarrow> string \<Rightarrow> 'e + search_result list) \<Rightarrow> (nat \<Rightarrow> api_message list \<Rightarrow> 'e + chat_response) \<Rightarrow> search_request \<Rightarrow>
   chat_response \<Rightarrow> api_call \<Rightarrow> usage \<Rightarrow> loop_error + messages_response" where
  "runWebSearchLoop search followup q r tc u =
     (let maxLoops = max_loops (sq_Tools q)
      in search_loop search followup q [1..<maxLoops + 1] maxLoops (sq_Messages q) r tc u [])"

section \<open>The writer\<close>

record search_writer =
  sw_converter :: stream_converter
  sw_terminalSent :: bool
  sw_observed :: metrics
  sw_loopInFlight :: bool
  sw_loopBase :: usage
  sw_loopResult :: "(loop_error + messages_response) option"
  sw_messageStarted :: bool
  sw_hasOpenBlock :: bool
  sw_openBlockIndex :: nat
  sw_nextIndex :: nat

definition new_search_writer :: "search_request \<Rightarrow> search_writer" where
  "new_search_writer q =
     \<lparr>sw_converter = NewStreamConverter (sq_id q) (sq_Model q) (sq_estimated q), sw_terminalSent = False,
      sw_observed = \<lparr>mt_PromptEvalCount = 0, mt_PromptEvalCachedCount = None, mt_EvalCount = 0\<rparr>, sw_loopInFlight = False,
      sw_loopBase = \<lparr>us_InputTokens = 0, us_CacheReadInputTokens = None, us_OutputTokens = 0\<rparr>, sw_loopResult = None,
      sw_messageStarted = False, sw_hasOpenBlock = False, sw_openBlockIndex = 0, sw_nextIndex = 0\<rparr>"

definition recordObservedUsage :: "metrics \<Rightarrow> search_writer \<Rightarrow> search_writer" where
  "recordObservedUsage m w =
     w\<lparr>sw_observed :=
        \<lparr>mt_PromptEvalCount = max (mt_PromptEvalCount m) (mt_PromptEvalCount (sw_observed w)),
         mt_PromptEvalCachedCount = maxOptionalInts (mt_PromptEvalCachedCount (sw_observed w)) (mt_PromptEvalCachedCount m),
         mt_EvalCount = max (mt_EvalCount m) (mt_EvalCount (sw_observed w))\<rparr>\<rparr>"

definition currentObservedUsage :: "search_writer \<Rightarrow> usage" where
  "currentObservedUsage w = UsageFromMetrics (sw_observed w)"

definition usageWithObservedMetrics :: "search_writer \<Rightarrow> metrics \<Rightarrow> usage" where
  "usageWithObservedMetrics w m =
     UsageFromMetrics
       \<lparr>mt_PromptEvalCount = max (mt_PromptEvalCount m) (mt_PromptEvalCount (sw_observed w)),
        mt_PromptEvalCachedCount = maxOptionalInts (mt_PromptEvalCachedCount m) (mt_PromptEvalCachedCount (sw_observed w)),
        mt_EvalCount = max (mt_EvalCount m) (mt_EvalCount (sw_observed w))\<rparr>"

definition applyObservedUsageDelta :: "search_writer \<Rightarrow> usage \<Rightarrow> usage" where
  "applyObservedUsageDelta w u =
     (let observed = currentObservedUsage w;
          delta = us_InputTokens observed - us_InputTokens (sw_loopBase w);
          deltaCached = max 0 (intValue (us_CacheReadInputTokens observed) - intValue (us_CacheReadInputTokens (sw_loopBase w)));
          deltaOut = mt_EvalCount (sw_observed w) - us_OutputTokens (sw_loopBase w)
      in \<lparr>us_InputTokens = us_InputTokens u + (if delta > 0 then delta else 0),
          us_CacheReadInputTokens =
            (if us_CacheReadInputTokens observed = None then us_CacheReadInputTokens u
             else addOptionalInts (us_CacheReadInputTokens u) (Some deltaCached)),
          us_OutputTokens = us_OutputTokens u + (if deltaOut > 0 then deltaOut else 0)\<rparr>)"

text \<open>What the writer notes of an event that it passes through.\<close>

fun note_event :: "stream_event \<Rightarrow> search_writer \<Rightarrow> search_writer" where
  "note_event (MessageStart _ _ _) w = w\<lparr>sw_messageStarted := True\<rparr>"
| "note_event (BlockStart i _) w =
     w\<lparr>sw_hasOpenBlock := True, sw_openBlockIndex := i,
       sw_nextIndex := (if i + 1 > sw_nextIndex w then i + 1 else sw_nextIndex w)\<rparr>"
| "note_event (BlockStop i) w =
     w\<lparr>sw_hasOpenBlock := (if sw_hasOpenBlock w \<and> sw_openBlockIndex w = i then False else sw_hasOpenBlock w),
       sw_nextIndex := (if i + 1 > sw_nextIndex w then i + 1 else sw_nextIndex w)\<rparr>"
| "note_event MessageStop w = w\<lparr>sw_terminalSent := True\<rparr>"
| "note_event _ w = w"

type_synonym writes = "stream_event list \<times> search_writer"

definition writePassthroughStreamChunk :: "(call_arguments \<Rightarrow> string option) \<Rightarrow> chat_response \<Rightarrow> search_writer \<Rightarrow> writes" where
  "writePassthroughStreamChunk marshal r w =
     (let (events, c) = Process marshal r (sw_converter w) in (events, fold note_event events (w\<lparr>sw_converter := c\<rparr>)))"

definition ensureStreamMessageStart :: "search_request \<Rightarrow> usage \<Rightarrow> search_writer \<Rightarrow> writes" where
  "ensureStreamMessageStart q u w =
     (if sw_messageStarted w then ([], w)
      else
        (let input = (if us_InputTokens u = 0 \<and> intValue (us_CacheReadInputTokens u) = 0 then sq_estimated q else us_InputTokens u)
         in ([MessageStart (sq_id q) (sq_Model q)
               \<lparr>us_InputTokens = input, us_CacheReadInputTokens = us_CacheReadInputTokens u, us_OutputTokens = 0\<rparr>],
             w\<lparr>sw_messageStarted := True\<rparr>)))"

definition closeOpenStreamBlock :: "search_writer \<Rightarrow> writes" where
  "closeOpenStreamBlock w =
     (if \<not> sw_hasOpenBlock w then ([], w)
      else ([BlockStop (sw_openBlockIndex w)],
            w\<lparr>sw_nextIndex := (if sw_openBlockIndex w + 1 > sw_nextIndex w then sw_openBlockIndex w + 1 else sw_nextIndex w),
              sw_hasOpenBlock := False\<rparr>))"

definition block_events :: "nat \<Rightarrow> content_block \<Rightarrow> stream_event list" where
  "block_events i b =
     (if cb_Type b = ''text''
      then [BlockStart i ((empty_block ''text'')\<lparr>cb_Text := Some []\<rparr>),
            BlockDelta i (TextDelta (case cb_Text b of None \<Rightarrow> [] | Some t \<Rightarrow> t))]
      else [BlockStart i b]) @ [BlockStop i]"

fun writeStreamContentBlocks :: "content_block list \<Rightarrow> search_writer \<Rightarrow> writes" where
  "writeStreamContentBlocks [] w = ([], w)"
| "writeStreamContentBlocks (b # bs) w =
     (let (es, w') = writeStreamContentBlocks bs (w\<lparr>sw_nextIndex := sw_nextIndex w + 1\<rparr>)
      in (block_events (sw_nextIndex w) b @ es, w'))"

definition writeTerminalResponse :: "search_request \<Rightarrow> messages_response \<Rightarrow> search_writer \<Rightarrow> writes" where
  "writeTerminalResponse q response w =
     (if sw_terminalSent w then ([], w)
      else
        (let (es1, w1) = ensureStreamMessageStart q (mr_Usage response) w;
             (es2, w2) = closeOpenStreamBlock w1;
             (es3, w3) = writeStreamContentBlocks (mr_Content response) w2
         in (es1 @ es2 @ es3 @ [MessageDelta (mr_StopReason response) (mr_Usage response), MessageStop],
             w3\<lparr>sw_terminalSent := True\<rparr>)))"

definition webSearchErrorResponse :: "search_request \<Rightarrow> string \<Rightarrow> string \<Rightarrow> usage \<Rightarrow> messages_response" where
  "webSearchErrorResponse q errorCode query u =
     (let useID = serverToolUseID (sq_id q)
      in \<lparr>mr_ID = sq_id q, mr_Model = sq_Model q,
          mr_Content = [search_use useID query, search_answer useID (ContentError errorCode)],
          mr_StopReason = ''end_turn'', mr_Usage = u\<rparr>)"

definition writeLoopResult :: "search_request \<Rightarrow> search_writer \<Rightarrow> writes" where
  "writeLoopResult q w =
     (case sw_loopResult w of
        None \<Rightarrow> writeTerminalResponse q (webSearchErrorResponse q ''api_error'' [] (currentObservedUsage w)) w
      | Some result \<Rightarrow>
          (let w' = w\<lparr>sw_loopResult := None, sw_loopInFlight := False\<rparr>
           in case result of
                Inl e \<Rightarrow> writeTerminalResponse q
                  (webSearchErrorResponse q (le_code e) (le_query e) (applyObservedUsageDelta w' (le_usage e))) w'
              | Inr response \<Rightarrow>
                  writeTerminalResponse q (response\<lparr>mr_Usage := applyObservedUsageDelta w' (mr_Usage response)\<rparr>) w'))"

definition startLoopWorker ::
  "(usage \<Rightarrow> loop_error + messages_response) \<Rightarrow> chat_response \<Rightarrow> search_writer \<Rightarrow> search_writer" where
  "startLoopWorker run r w =
     (if sw_loopInFlight w then w
      else
        (let u = usageWithObservedMetrics w (cr_Metrics r)
         in w\<lparr>sw_loopBase := u, sw_loopInFlight := True, sw_loopResult := Some (run u)\<rparr>))"

text \<open>\<^verbatim>\<open>Write\<close> of a streaming writer, with a chunk that was decoded.\<close>

definition search_write ::
  "(call_arguments \<Rightarrow> string option) \<Rightarrow> (nat \<Rightarrow> string \<Rightarrow> 'e + search_result list) \<Rightarrow>
   (nat \<Rightarrow> api_message list \<Rightarrow> 'e + chat_response) \<Rightarrow> search_request \<Rightarrow> chat_response \<Rightarrow> search_writer \<Rightarrow> writes" where
  "search_write marshal search followup q r w =
     (if sw_terminalSent w then ([], w)
      else
        (let w1 = recordObservedUsage (cr_Metrics r) w
         in if sw_loopInFlight w1
            then (if \<not> cr_Done r then ([], w1) else writeLoopResult q w1)
            else (case findWebSearchToolCall (am_ToolCalls (cr_Message r)) of
                    None \<Rightarrow> writePassthroughStreamChunk marshal r w1
                  | Some tc \<Rightarrow>
                      (let w2 = startLoopWorker (runWebSearchLoop search followup q r tc) r w1
                       in if cr_Done r then writeLoopResult q w2 else ([], w2)))))"

fun search_write_all ::
  "(call_arguments \<Rightarrow> string option) \<Rightarrow> (nat \<Rightarrow> string \<Rightarrow> 'e + search_result list) \<Rightarrow>
   (nat \<Rightarrow> api_message list \<Rightarrow> 'e + chat_response) \<Rightarrow> search_request \<Rightarrow> chat_response list \<Rightarrow> search_writer \<Rightarrow> writes" where
  "search_write_all marshal search followup q [] w = ([], w)"
| "search_write_all marshal search followup q (r # rs) w =
     (let (es, w1) = search_write marshal search followup q r w;
          (es', w2) = search_write_all marshal search followup q rs w1
      in (es @ es', w2))"

section \<open>The writer keeps step with the client\<close>

definition agree :: "search_writer \<Rightarrow> client \<Rightarrow> bool" where
  "agree w cl \<longleftrightarrow>
     sw_nextIndex w = length (fst cl) \<and> sw_hasOpenBlock w = snd cl \<and> (snd cl \<longrightarrow> Suc (sw_openBlockIndex w) = length (fst cl))"

definition quiet :: "search_writer \<Rightarrow> search_writer \<Rightarrow> bool" where
  "quiet w w' \<longleftrightarrow> sw_converter w' = sw_converter w \<and> sw_terminalSent w' = sw_terminalSent w \<and>
     sw_loopInFlight w' = sw_loopInFlight w \<and> sw_loopResult w' = sw_loopResult w \<and> sw_messageStarted w' = sw_messageStarted w"

lemma note_step:
  assumes "client_step e cl = Some cl'" and "agree w cl"
  shows "agree (note_event e w) cl' \<and> quiet w (note_event e w)"
proof -
  obtain xs isopen where cl: "cl = (xs, isopen)" by fastforce
  show ?thesis using assms unfolding cl
    by (cases e) (auto simp: agree_def quiet_def split: if_splits)
qed

lemma note_run:
  "client_run es cl = Some cl' \<Longrightarrow> agree w cl \<Longrightarrow> agree (fold note_event es w) cl' \<and> quiet w (fold note_event es w)"
proof (induction es arbitrary: cl w)
  case Nil
  then show ?case by (simp add: quiet_def)
next
  case (Cons e es)
  from Cons.prems(1) obtain cl1 where 1: "client_step e cl = Some cl1" "client_run es cl1 = Some cl'"
    by (auto split: Option.bind_splits)
  from note_step[OF 1(1) Cons.prems(2)] Cons.IH[OF 1(2), of "note_event e w"] show ?case by (auto simp: quiet_def)
qed

definition sendable :: "content_block list \<Rightarrow> bool" where
  "sendable bs \<longleftrightarrow> (\<forall>b \<in> set bs. cb_Type b = ''text'' \<or> opened b \<noteq> None)"

lemma send_blocks:
  "sendable bs \<Longrightarrow> sw_nextIndex w = length bl \<Longrightarrow>
   \<exists>bl'. client_run (fst (writeStreamContentBlocks bs w)) (bl, False) = Some (bl', False) \<and>
     sw_nextIndex (snd (writeStreamContentBlocks bs w)) = length bl'"
proof (induction bs arbitrary: w bl)
  case (Cons b bs)
  obtain x where x: "client_run (block_events (sw_nextIndex w) b) (bl, False) = Some (bl @ [x], False)"
  proof (cases "cb_Type b = ''text''")
    case True
    with Cons.prems(2) that show ?thesis by (simp add: block_events_def opened_def empty_block_def)
  next
    case False
    with Cons.prems(1) obtain y where "opened b = Some y" by (auto simp: sendable_def)
    with False Cons.prems(2) that show ?thesis by (simp add: block_events_def)
  qed
  have "sendable bs" using Cons.prems(1) by (simp add: sendable_def)
  from Cons.IH[OF this, of "w\<lparr>sw_nextIndex := sw_nextIndex w + 1\<rparr>" "bl @ [x]"] Cons.prems(2) x show ?case
    by (auto simp: client_run_append split: prod.split)
qed simp

definition wrote_all :: "search_request \<Rightarrow> stream_event list \<Rightarrow> bool" where
  "wrote_all q es \<longleftrightarrow> (\<exists>u mid bl stop u'. es = MessageStart (sq_id q) (sq_Model q) u # mid @ [MessageDelta stop u', MessageStop] \<and>
     client_run mid ([], False) = Some (bl, False))"

text \<open>What was written so far, when nothing ended it: nothing, or a start and blocks the client accepted.\<close>

definition wrote :: "search_request \<Rightarrow> stream_event list \<Rightarrow> client \<Rightarrow> search_writer \<Rightarrow> bool" where
  "wrote q es cl w \<longleftrightarrow>
     (if sw_messageStarted w then \<exists>u mid. es = MessageStart (sq_id q) (sq_Model q) u # mid \<and> client_run mid ([], False) = Some cl
      else es = [] \<and> cl = ([], False)) \<and>
     \<not> sw_terminalSent w \<and> agree w cl"

lemma terminal_writes:
  assumes "wrote q es cl w" and "sendable (mr_Content response)"
  shows "wrote_all q (es @ fst (writeTerminalResponse q response w))" and "sw_terminalSent (snd (writeTerminalResponse q response w))"
proof -
  obtain bl isopen where cl: "cl = (bl, isopen)" by fastforce
  let ?w1 = "snd (ensureStreamMessageStart q (mr_Usage response) w)" and ?e1 = "fst (ensureStreamMessageStart q (mr_Usage response) w)"
  let ?w2 = "snd (closeOpenStreamBlock ?w1)" and ?e2 = "fst (closeOpenStreamBlock ?w1)"
  have "\<exists>u mid. es @ ?e1 = MessageStart (sq_id q) (sq_Model q) u # mid \<and> client_run mid ([], False) = Some cl"
    using assms(1) by (auto simp: wrote_def ensureStreamMessageStart_def Let_def split: if_splits)
  then obtain u mid where m: "es @ ?e1 = MessageStart (sq_id q) (sq_Model q) u # mid" "client_run mid ([], False) = Some cl" by blast
  have a: "agree ?w1 cl" using assms(1) by (simp add: wrote_def agree_def ensureStreamMessageStart_def Let_def)
  then have c: "client_run ?e2 cl = Some (bl, False)" "sw_nextIndex ?w2 = length bl"
    by (auto simp: agree_def closeOpenStreamBlock_def cl)
  from send_blocks[OF assms(2) c(2)] obtain bl' where
    b: "client_run (fst (writeStreamContentBlocks (mr_Content response) ?w2)) (bl, False) = Some (bl', False)" by blast
  have t: "\<not> sw_terminalSent w" using assms(1) by (simp add: wrote_def)
  have e: "es @ fst (writeTerminalResponse q response w) =
      MessageStart (sq_id q) (sq_Model q) u # (mid @ ?e2 @ fst (writeStreamContentBlocks (mr_Content response) ?w2)) @
      [MessageDelta (mr_StopReason response) (mr_Usage response), MessageStop]"
    using t m(1) unfolding append_assoc[symmetric] append_Cons[symmetric] m(1)[symmetric]
    by (simp add: writeTerminalResponse_def Let_def split: prod.split)
  have "client_run (mid @ ?e2 @ fst (writeStreamContentBlocks (mr_Content response) ?w2)) ([], False) = Some (bl', False)"
    by (simp add: client_run_append m(2) c(1) b)
  with e show "wrote_all q (es @ fst (writeTerminalResponse q response w))" unfolding wrote_all_def by blast
  show "sw_terminalSent (snd (writeTerminalResponse q response w))"
    by (simp add: writeTerminalResponse_def t Let_def split: prod.split)
qed

lemma sendable_response: "sendable (response_blocks m)"
  by (auto simp: sendable_def response_blocks_def opened_def empty_block_def call_block_def)

lemma sendable_simps [simp]:
  "sendable []" "sendable (bs @ cs) \<longleftrightarrow> sendable bs \<and> sendable cs"
  "sendable (search_use i query # bs) \<longleftrightarrow> sendable bs" "sendable (search_answer i content # bs) \<longleftrightarrow> sendable bs"
  by (auto simp: sendable_def search_use_def search_answer_def opened_def empty_block_def)

lemma sendable_loop:
  "search_loop search followup q loops n msgs r tc u content = Inr response \<Longrightarrow> sendable content \<Longrightarrow> sendable (mr_Content response)"
proof (induction loops arbitrary: msgs r tc u content)
  case Nil
  then show ?case by (auto simp: Let_def)
next
  case (Cons loop loops)
  from Cons.prems show ?case
    by (auto simp: Let_def combineServerAndFinalContent_def ToMessagesResponse_def sendable_response
        split: if_splits sum.splits option.splits dest!: Cons.IH)
qed

definition result_sendable :: "loop_error + messages_response \<Rightarrow> bool" where
  "result_sendable result \<longleftrightarrow> (\<forall>response. result = Inr response \<longrightarrow> sendable (mr_Content response))"

lemma run_sendable: "result_sendable (runWebSearchLoop search followup q r tc u)"
  unfolding result_sendable_def runWebSearchLoop_def Let_def by (metis sendable_loop sendable_simps(1))

lemma loop_result_writes:
  assumes "wrote q es cl w" and "\<forall>result. sw_loopResult w = Some result \<longrightarrow> result_sendable result"
  shows "wrote_all q (es @ fst (writeLoopResult q w))" and "sw_terminalSent (snd (writeLoopResult q w))"
proof -
  have err: "sendable (mr_Content (webSearchErrorResponse q code query u))" for code query u
    by (simp add: webSearchErrorResponse_def Let_def)
  have w': "wrote q es cl (w\<lparr>sw_loopResult := None, sw_loopInFlight := False\<rparr>)" using assms(1) by (simp add: wrote_def agree_def)
  show "wrote_all q (es @ fst (writeLoopResult q w))"
    using assms terminal_writes(1)[OF assms(1) err] terminal_writes(1)[OF w' err] terminal_writes(1)[OF w']
    by (auto simp: writeLoopResult_def result_sendable_def Let_def split: option.split sum.split)
  show "sw_terminalSent (snd (writeLoopResult q w))"
    using assms terminal_writes(2)[OF assms(1) err] terminal_writes(2)[OF w' err] terminal_writes(2)[OF w']
    by (auto simp: writeLoopResult_def result_sendable_def Let_def split: option.split sum.split)
qed

section \<open>Streams with searches\<close>

text \<open>The converter and the writer between two chunks, while no search runs.\<close>

definition passing :: "search_request \<Rightarrow> stream_event list \<Rightarrow> search_writer \<Rightarrow> bool" where
  "passing q es w \<longleftrightarrow>
     (\<exists>cl. wrote q es cl w \<and>
        (if sw_loopInFlight w then \<exists>result. sw_loopResult w = Some result \<and> result_sendable result
         else in_step (sw_converter w) cl \<and> sc_firstWrite (sw_converter w) = (\<not> sw_messageStarted w) \<and>
           sc_ID (sw_converter w) = sq_id q \<and> sc_Model (sw_converter w) = sq_Model q))"

lemma process_names:
  "sc_ID (snd (Process marshal r c)) = sc_ID c \<and> sc_Model (snd (Process marshal r c)) = sc_Model c"
proof -
  have t: "sc_ID (snd (process_thinking t c)) = sc_ID c \<and> sc_Model (snd (process_thinking t c)) = sc_Model c" for t c
    by (simp add: process_thinking_def close_text_def start_thinking_def)
  have s: "sc_ID (snd (process_content t c)) = sc_ID c \<and> sc_Model (snd (process_content t c)) = sc_Model c" for t c
    by (simp add: process_content_def close_thinking_def start_text_def)
  have k: "sc_ID (snd (process_call marshal tc c)) = sc_ID c \<and> sc_Model (snd (process_call marshal tc c)) = sc_Model c" for tc c
    by (simp add: process_call_def close_thinking_def close_text_def send_call_def split: option.split)
  have ks: "sc_ID (snd (process_calls marshal tcs c)) = sc_ID c \<and> sc_Model (snd (process_calls marshal tcs c)) = sc_Model c" for tcs c
    by (induction tcs arbitrary: c) (simp_all add: k)
  show ?thesis
    by (simp add: Process_def process_message_def t s ks process_done_def first_write_def Let_def)
qed

text \<open>One chunk through the converter, from \<open>stream_run\<close>.\<close>

lemma start_names: "\<exists>u. start_event c r = MessageStart (sc_ID c) (sc_Model c) u"
  by (simp add: start_event_def Let_def)

lemma process_more:
  assumes "in_step c cl" and "\<not> cr_Done r"
  obtains es cl' where "fst (Process marshal r c) = (if sc_firstWrite c then [start_event c r] else []) @ es"
    "client_run es cl = Some cl'" "in_step (snd (Process marshal r c)) cl'" "\<not> sc_firstWrite (snd (Process marshal r c))"
proof -
  obtain cl' where p: "client_run (fst (process_message marshal (cr_Message r) (snd (first_write r c)))) cl = Some cl'"
    "in_step (snd (process_message marshal (cr_Message r) (snd (first_write r c)))) cl'"
    "\<not> sc_firstWrite (snd (process_message marshal (cr_Message r) (snd (first_write r c))))"
    using message_run[OF assms(1), of False r marshal] by metis
  show thesis
    by (rule that[OF _ p(1)]) (use p assms(2) in \<open>simp_all add: Process_def process_done_def first_write_simps\<close>)
qed

lemma process_end:
  assumes "in_step c cl" and "cr_Done r"
  obtains es bl stop u where "fst (Process marshal r c) = (if sc_firstWrite c then [start_event c r] else []) @ es @ [MessageDelta stop u, MessageStop]"
    "client_run es cl = Some (bl, False)"
proof -
  have "\<forall>r \<in> set []. \<not> cr_Done r" by simp
  from stream_run[OF this assms(2,1), of marshal] that show thesis
    by (simp only: append_Nil list.sel process_all.simps and_then_simps fst_conv append_Nil2) blast
qed

lemma passing_started:
  assumes "wrote q es cl w" and "sc_firstWrite c = (\<not> sw_messageStarted w)" and "sc_ID c = sq_id q" and "sc_Model c = sq_Model q"
    and "client_run mid cl = Some cl'"
  shows "wrote q (es @ (if sc_firstWrite c then [start_event c r] else []) @ mid) cl'
    (fold note_event ((if sc_firstWrite c then [start_event c r] else []) @ mid) (w\<lparr>sw_converter := c'\<rparr>))"
proof -
  obtain u where u: "start_event c r = MessageStart (sq_id q) (sq_Model q) u"
    using start_names[of c r] assms(3,4) by auto
  define pre where "pre = (if sc_firstWrite c then [start_event c r] else [])"
  define w1 where "w1 = fold note_event pre (w\<lparr>sw_converter := c'\<rparr>)"
  have a: "agree w1 cl" "sw_messageStarted w1" "\<not> sw_terminalSent w1"
    using assms(1,2) by (auto simp: wrote_def agree_def u w1_def pre_def)
  obtain u' mid0 where m: "es @ pre = MessageStart (sq_id q) (sq_Model q) u' # mid0" "client_run mid0 ([], False) = Some cl"
    using assms(1,2) u by (auto simp: wrote_def pre_def split: if_splits)
  have r: "client_run (mid0 @ mid) ([], False) = Some cl'" by (simp add: client_run_append m(2) assms(5))
  have e: "es @ pre @ mid = MessageStart (sq_id q) (sq_Model q) u' # mid0 @ mid"
    using m(1) by (metis append_assoc append_Cons)
  have "fold note_event (pre @ mid) (w\<lparr>sw_converter := c'\<rparr>) = fold note_event mid w1" by (simp add: w1_def)
  with note_run[OF assms(5) a(1)] a(2,3) r show ?thesis unfolding pre_def[symmetric] wrote_def e by (auto simp: quiet_def)
qed

lemma passthrough_more:
  assumes "wrote q es cl w" and "in_step (sw_converter w) cl" and "sc_firstWrite (sw_converter w) = (\<not> sw_messageStarted w)"
    and "sc_ID (sw_converter w) = sq_id q" and "sc_Model (sw_converter w) = sq_Model q" and "\<not> sw_loopInFlight w" and "\<not> cr_Done r"
  shows "passing q (es @ fst (writePassthroughStreamChunk marshal r w)) (snd (writePassthroughStreamChunk marshal r w))"
proof -
  obtain mid cl' where p: "fst (Process marshal r (sw_converter w)) = (if sc_firstWrite (sw_converter w) then [start_event (sw_converter w) r] else []) @ mid"
    "client_run mid cl = Some cl'" "in_step (snd (Process marshal r (sw_converter w))) cl'" "\<not> sc_firstWrite (snd (Process marshal r (sw_converter w)))"
    using process_more[OF assms(2,7)] by metis
  let ?c = "snd (Process marshal r (sw_converter w))" and ?pre = "if sc_firstWrite (sw_converter w) then [start_event (sw_converter w) r] else []"
  let ?w = "fold note_event (?pre @ mid) (w\<lparr>sw_converter := ?c\<rparr>)"
  have w: "wrote q (es @ ?pre @ mid) cl' ?w" by (rule passing_started[OF assms(1,3-5) p(2)])
  obtain u where u: "start_event (sw_converter w) r = MessageStart (sq_id q) (sq_Model q) u"
    using start_names[of "sw_converter w" r] assms(4,5) by auto
  let ?w1 = "fold note_event ?pre (w\<lparr>sw_converter := ?c\<rparr>)"
  have "agree ?w1 cl" "sw_converter ?w1 = ?c" "\<not> sw_loopInFlight ?w1" "sw_messageStarted ?w1"
    using assms(1,3,6) by (auto simp: wrote_def agree_def u)
  with note_run[OF p(2), of ?w1] have q: "sw_converter ?w = ?c" "\<not> sw_loopInFlight ?w" "sw_messageStarted ?w"
    by (auto simp: quiet_def)
  have "writePassthroughStreamChunk marshal r w = (?pre @ mid, ?w)"
    unfolding writePassthroughStreamChunk_def Let_def p(1)[symmetric] by (simp add: case_prod_beta)
  moreover from q(3) have "sw_messageStarted ?w \<longleftrightarrow> True" by (rule eqTrueI)
  ultimately show ?thesis
    unfolding passing_def using w q(1,2) p(3,4) process_names[of marshal r "sw_converter w"] assms(4,5)
    by (intro exI[of _ cl'] conjI) (simp_all only: fst_conv snd_conv if_False simp_thms)
qed

lemma passthrough_done:
  assumes "wrote q es cl w" and "in_step (sw_converter w) cl" and "sc_firstWrite (sw_converter w) = (\<not> sw_messageStarted w)"
    and "sc_ID (sw_converter w) = sq_id q" and "sc_Model (sw_converter w) = sq_Model q" and "cr_Done r"
  shows "wrote_all q (es @ fst (writePassthroughStreamChunk marshal r w))" and "sw_terminalSent (snd (writePassthroughStreamChunk marshal r w))"
proof -
  let ?pre = "if sc_firstWrite (sw_converter w) then [start_event (sw_converter w) r] else []"
  obtain mid bl stop u where p:
    "fst (Process marshal r (sw_converter w)) = ?pre @ mid @ [MessageDelta stop u, MessageStop]" "client_run mid cl = Some (bl, False)"
    using process_end[OF assms(2,6)] by metis
  have e: "fst (writePassthroughStreamChunk marshal r w) = ?pre @ mid @ [MessageDelta stop u, MessageStop]"
    unfolding writePassthroughStreamChunk_def Let_def by (simp add: case_prod_beta p(1))
  have "wrote q (es @ ?pre @ mid) (bl, False) (fold note_event (?pre @ mid) (w\<lparr>sw_converter := sw_converter w\<rparr>))"
    by (rule passing_started[OF assms(1,3-5) p(2)])
  moreover have "sw_messageStarted (fold note_event (?pre @ mid) (w\<lparr>sw_converter := sw_converter w\<rparr>))"
  proof -
    obtain u where u: "start_event (sw_converter w) r = MessageStart (sq_id q) (sq_Model q) u"
      using start_names[of "sw_converter w" r] assms(4,5) by auto
    have "agree (fold note_event ?pre (w\<lparr>sw_converter := sw_converter w\<rparr>)) cl" "sw_messageStarted (fold note_event ?pre (w\<lparr>sw_converter := sw_converter w\<rparr>))"
      using assms(1,3) by (auto simp: wrote_def agree_def u)
    with note_run[OF p(2)] show ?thesis unfolding fold_append comp_apply by (auto simp: quiet_def)
  qed
  ultimately obtain u' mid' where "es @ ?pre @ mid = MessageStart (sq_id q) (sq_Model q) u' # mid'" "client_run mid' ([], False) = Some (bl, False)"
    unfolding wrote_def by auto
  then show "wrote_all q (es @ fst (writePassthroughStreamChunk marshal r w))"
    unfolding wrote_all_def e by (intro exI conjI) (auto simp flip: append_assoc)
  show "sw_terminalSent (snd (writePassthroughStreamChunk marshal r w))"
    unfolding writePassthroughStreamChunk_def Let_def by (simp add: case_prod_beta p(1))
qed

lemma recorded_fields [simp]:
  "sw_converter (recordObservedUsage m w) = sw_converter w" "sw_terminalSent (recordObservedUsage m w) = sw_terminalSent w"
  "sw_loopInFlight (recordObservedUsage m w) = sw_loopInFlight w" "sw_loopResult (recordObservedUsage m w) = sw_loopResult w"
  "sw_messageStarted (recordObservedUsage m w) = sw_messageStarted w" "agree (recordObservedUsage m w) cl = agree w cl"
  "wrote q es cl (recordObservedUsage m w) = wrote q es cl w"
  by (simp_all add: recordObservedUsage_def agree_def wrote_def)

lemma started_fields [simp]:
  "\<not> sw_loopInFlight w \<Longrightarrow> sw_loopInFlight (startLoopWorker run r w)"
  "wrote q es cl (startLoopWorker run r w) = wrote q es cl w"
  by (auto simp: startLoopWorker_def wrote_def agree_def Let_def)

lemma started_result: "\<not> sw_loopInFlight w \<Longrightarrow> \<exists>u. sw_loopResult (startLoopWorker run r w) = Some (run u)"
  by (auto simp: startLoopWorker_def Let_def)

lemma write_more:
  assumes "passing q es w" and "\<not> cr_Done r"
  shows "passing q (es @ fst (search_write marshal search followup q r w)) (snd (search_write marshal search followup q r w))"
proof -
  let ?w1 = "recordObservedUsage (cr_Metrics r) w"
  from assms(1) obtain cl where cl: "wrote q es cl w"
    "if sw_loopInFlight w then \<exists>result. sw_loopResult w = Some result \<and> result_sendable result
     else in_step (sw_converter w) cl \<and> sc_firstWrite (sw_converter w) = (\<not> sw_messageStarted w) \<and>
       sc_ID (sw_converter w) = sq_id q \<and> sc_Model (sw_converter w) = sq_Model q"
    unfolding passing_def by blast
  have t: "\<not> sw_terminalSent w" using cl(1) by (simp add: wrote_def)
  show ?thesis
  proof (cases "sw_loopInFlight w")
    case True
    then have "search_write marshal search followup q r w = ([], ?w1)" using t assms(2) by (simp add: search_write_def Let_def)
    moreover have "passing q es ?w1" using cl True unfolding passing_def by (intro exI[of _ cl]) auto
    ultimately show ?thesis by simp
  next
    case False
    note c = cl(2)[unfolded if_not_P[OF False]]
    show ?thesis
    proof (cases "findWebSearchToolCall (am_ToolCalls (cr_Message r))")
      case None
      then have "search_write marshal search followup q r w = writePassthroughStreamChunk marshal r ?w1"
        using t False by (simp add: search_write_def Let_def)
      with passthrough_more[of q es cl ?w1 r marshal] cl(1) c False assms(2) show ?thesis by simp
    next
      case (Some tc)
      let ?w2 = "startLoopWorker (runWebSearchLoop search followup q r tc) r ?w1"
      have e: "search_write marshal search followup q r w = ([], ?w2)"
        using t False Some assms(2) by (simp add: search_write_def Let_def)
      obtain u where "sw_loopResult ?w2 = Some (runWebSearchLoop search followup q r tc u)"
        using started_result[of ?w1 "runWebSearchLoop search followup q r tc" r] False by auto
      then have "passing q es ?w2" using cl(1) False run_sendable unfolding passing_def by (intro exI[of _ cl]) auto
      then show ?thesis by (simp add: e)
    qed
  qed
qed

lemma write_done:
  assumes "passing q es w" and "cr_Done r"
  shows "wrote_all q (es @ fst (search_write marshal search followup q r w))" (is ?a)
    and "sw_terminalSent (snd (search_write marshal search followup q r w))" (is ?b)
proof -
  let ?w1 = "recordObservedUsage (cr_Metrics r) w"
  from assms(1) obtain cl where cl: "wrote q es cl w"
    "if sw_loopInFlight w then \<exists>result. sw_loopResult w = Some result \<and> result_sendable result
     else in_step (sw_converter w) cl \<and> sc_firstWrite (sw_converter w) = (\<not> sw_messageStarted w) \<and>
       sc_ID (sw_converter w) = sq_id q \<and> sc_Model (sw_converter w) = sq_Model q"
    unfolding passing_def by blast
  have t: "\<not> sw_terminalSent w" using cl(1) by (simp add: wrote_def)
  have "?a \<and> ?b"
  proof (cases "sw_loopInFlight w")
    case True
    then have e: "search_write marshal search followup q r w = writeLoopResult q ?w1"
      using t assms(2) by (simp add: search_write_def Let_def)
    have "\<forall>result. sw_loopResult ?w1 = Some result \<longrightarrow> result_sendable result" using cl(2) True by auto
    with loop_result_writes[of q es cl ?w1] cl(1) show ?thesis by (simp add: e)
  next
    case False
    note c = cl(2)[unfolded if_not_P[OF False]]
    show ?thesis
    proof (cases "findWebSearchToolCall (am_ToolCalls (cr_Message r))")
      case None
      then have "search_write marshal search followup q r w = writePassthroughStreamChunk marshal r ?w1"
        using t False by (simp add: search_write_def Let_def)
      with passthrough_done[of q es cl ?w1 r marshal] cl(1) c assms(2) show ?thesis by simp
    next
      case (Some tc)
      let ?w2 = "startLoopWorker (runWebSearchLoop search followup q r tc) r ?w1"
      have e: "search_write marshal search followup q r w = writeLoopResult q ?w2"
        using t False Some assms(2) by (simp add: search_write_def Let_def)
      obtain u where "sw_loopResult ?w2 = Some (runWebSearchLoop search followup q r tc u)"
        using started_result[of ?w1 "runWebSearchLoop search followup q r tc" r] False by auto
      then have "\<forall>result. sw_loopResult ?w2 = Some result \<longrightarrow> result_sendable result" using run_sendable by auto
      with loop_result_writes[of q es cl ?w2] cl(1) show ?thesis by (simp add: e)
    qed
  qed
  then show ?a and ?b by blast+
qed

lemma write_after: "sw_terminalSent w \<Longrightarrow> search_write_all marshal search followup q rs w = ([], w)"
  by (induction rs) (simp_all add: search_write_def)

lemma write_chunks:
  assumes "\<forall>r \<in> set rs. \<not> cr_Done r" and "cr_Done r" and "passing q es w"
  shows "wrote_all q (es @ fst (search_write_all marshal search followup q (rs @ r # late) w))"
  using assms(1,3)
proof (induction rs arbitrary: es w)
  case Nil
  from write_done(1)[OF Nil(2) assms(2), of marshal search followup]
  show ?case by (simp add: case_prod_beta write_after[OF write_done(2)[OF Nil(2) assms(2)]])
next
  case (Cons r1 rs)
  from Cons.IH[OF _ write_more[OF Cons.prems(2), of r1 marshal search followup]] Cons.prems(1) show ?case
    by (simp add: case_prod_beta)
qed

lemma new_writer_passing: "passing q [] (new_search_writer q)"
  by (auto simp: passing_def wrote_def agree_def new_search_writer_def new_converter_in_step NewStreamConverter_def in_step_def
      thinking_open_def ids_of_def)

text \<open>
  C18.  A stream stays well formed when a search takes it over: whatever chunks come, whenever
  one calls for a search and however the searches and the follow-up chats end, the events are one
  start, blocks that the client accepts, numbered on from those already sent and all closed, and
  one end; and what comes after the last chunk changes nothing.
\<close>

theorem search_stream_well_formed:
  assumes "\<forall>r \<in> set rs. \<not> cr_Done r" and "cr_Done r"
  shows "\<exists>u es bl stop u'. fst (search_write_all marshal search followup q (rs @ r # late) (new_search_writer q)) =
      MessageStart (sq_id q) (sq_Model q) u # es @ [MessageDelta stop u', MessageStop] \<and>
    client_run es ([], False) = Some (bl, False)"
  using write_chunks[OF assms new_writer_passing, of q marshal search followup late] by (simp add: wrote_all_def)

definition example_search_request :: search_request where
  "example_search_request = \<lparr>sq_id = ''msg_1'', sq_Model = ''m'', sq_Tools = [(''web_search_20250305'', 1)], sq_Messages = [], sq_estimated = 4\<rparr>"

definition example_search_call :: api_call where
  "example_search_call = \<lparr>ac_ID = ''call_2'', ac_Index = 0, ac_Name = ''web_search'', ac_Arguments = queryArgs ''go''\<rparr>"

theorem search_stream_well_formed_witness:
  "\<exists>u es bl stop u'. fst (search_write_all example_marshal (\<lambda>n s. Inl ()) (\<lambda>n ms. Inl ()) example_search_request
       ([example_part [] ''Wait'' [] False, example_part [] [] [example_search_call] False] @ example_part [] [] [] True # [])
       (new_search_writer example_search_request)) =
      MessageStart ''msg_1'' ''m'' u # es @ [MessageDelta stop u', MessageStop] \<and>
    client_run es ([], False) = Some (bl, False)"
proof -
  have "\<forall>r \<in> set [example_part [] ''Wait'' [] False, example_part [] [] [example_search_call] False]. \<not> cr_Done r"
    "cr_Done (example_part [] [] [] True)" by (simp_all add: example_part_def)
  from search_stream_well_formed[OF this, of example_marshal "\<lambda>n s. Inl ()" "\<lambda>n ms. Inl ()" example_search_request "[]"]
  show ?thesis by (simp add: example_search_request_def)
qed

section \<open>The number of searches\<close>

text \<open>Searches and their results in pairs with one id each.\<close>

definition search_pairs :: "string \<Rightarrow> nat \<Rightarrow> content_block list \<Rightarrow> bool" where
  "search_pairs mid n content \<longleftrightarrow>
     (\<exists>qs cs. content = concat (map (\<lambda>i. [search_use (loopServerToolUseID mid (i + 1)) (qs i), search_answer (loopServerToolUseID mid (i + 1)) (cs i)]) [0..<n]))"

lemma search_pairs_more:
  assumes "search_pairs mid n content"
  shows "search_pairs mid (Suc n) (content @ [search_use (loopServerToolUseID mid (Suc n)) x, search_answer (loopServerToolUseID mid (Suc n)) c])"
proof -
  obtain qs cs where e: "content = concat (map (\<lambda>i. [search_use (loopServerToolUseID mid (i + 1)) (qs i), search_answer (loopServerToolUseID mid (i + 1)) (cs i)]) [0..<n])"
    using assms unfolding search_pairs_def by blast
  show ?thesis unfolding search_pairs_def e
    by (intro exI[of _ "qs(n := x)"] exI[of _ "cs(n := c)"])
      (simp, rule arg_cong[where f = concat], rule map_cong, auto)
qed

lemma search_loop_pairs:
  "search_loop search followup q [Suc n..<maxLoops + 1] maxLoops msgs r tc u content = Inr response \<Longrightarrow>
   search_pairs (sq_id q) n content \<Longrightarrow> n \<le> maxLoops \<Longrightarrow>
   \<exists>k ps rest. n < k \<and> k \<le> maxLoops + 1 \<and> mr_Content response = ps @ rest \<and> search_pairs (sq_id q) k ps \<and>
     (\<forall>b \<in> set rest. cb_Type b \<noteq> ''server_tool_use'' \<and> cb_Type b \<noteq> ''web_search_tool_result'')"
proof (induction "maxLoops - n" arbitrary: n msgs r tc u content)
  case 0
  then have n: "n = maxLoops" by simp
  show ?case using 0(2) search_pairs_more[OF 0(3)] unfolding n
    by (intro exI[of _ "Suc maxLoops"] exI[of _ "mr_Content response"] exI[of _ "[]"]) (auto simp: Let_def)
next
  case (Suc d)
  then have m: "d = maxLoops - Suc n" "Suc n \<le> maxLoops" by arith+
  then have l: "[Suc n..<maxLoops + 1] = Suc n # [Suc (Suc n)..<maxLoops + 1]" by (simp add: upt_conv_Cons del: upt_Suc)
  let ?query = "extractQueryFromToolCall tc" and ?useID = "loopServerToolUseID (sq_id q) (Suc n)"
  from Suc(3) obtain results where results: "?query \<noteq> []" "search (Suc n) ?query = Inr results"
    unfolding l by (auto simp: Let_def split: if_splits sum.splits)
  define content' where "content' = content @ [search_use ?useID ?query, search_answer ?useID (ContentResults (ConvertOllamaToAnthropicResults results))]"
  define msgs' where "msgs' = msgs @ [buildWebSearchAssistantMessage r tc,
    (plain_message ''tool'' (formatWebSearchResults results))\<lparr>am_ToolCallID := ac_ID tc\<rparr>]"
  from Suc(3) results obtain r' where r': "followup (Suc n) msgs' = Inr r'"
    unfolding l msgs'_def by (auto simp: Let_def split: sum.splits)
  have p: "search_pairs (sq_id q) (Suc n) content'" unfolding content'_def by (rule search_pairs_more[OF Suc(4)])
  show ?case
  proof (cases "findWebSearchToolCall (am_ToolCalls (cr_Message r'))")
    case None
    with Suc(3) results r' have "mr_Content response = content' @ response_blocks (cr_Message r')"
      unfolding l msgs'_def content'_def
      by (auto simp: Let_def combineServerAndFinalContent_def ToMessagesResponse_def)
    moreover have "\<forall>b \<in> set (response_blocks (cr_Message r')). cb_Type b \<noteq> ''server_tool_use'' \<and> cb_Type b \<noteq> ''web_search_tool_result''"
      by (auto simp: response_blocks_def empty_block_def call_block_def)
    ultimately show ?thesis using p Suc.prems(3) Suc.hyps(2)
      by (intro exI[of _ "Suc n"] exI[of _ content'] exI[of _ "response_blocks (cr_Message r')"]) auto
  next
    case (Some tc')
    with Suc(3) results r' have "search_loop search followup q [Suc (Suc n)..<maxLoops + 1] maxLoops msgs' r' tc'
        (add_usage u (UsageFromMetrics (cr_Metrics r'))) content' = Inr response"
      unfolding l msgs'_def content'_def by (simp add: Let_def)
    from Suc(1)[OF m(1) this p m(2)] show ?thesis by (auto dest: Suc_lessD)
  qed
qed

lemma max_loops_bounds:
  "max_loops tools \<le> 10" "(ty, uses) \<in> set tools \<Longrightarrow> prefix ''web_search'' ty \<Longrightarrow> uses > 0 \<Longrightarrow> int (max_loops tools) \<le> uses"
proof -
  let ?f = "\<lambda>n (ty, uses). if prefix ''web_search'' ty \<and> uses > 0 then min n (nat uses) else n"
  have d: "foldl ?f n ts \<le> n" for n ts
  proof (induction ts arbitrary: n)
    case (Cons t ts)
    obtain ty uses where "t = (ty, uses)" by fastforce
    with Cons.IH[of "min n (nat uses)"] Cons.IH[of n] show ?case by simp
  qed simp
  show "max_loops tools \<le> 10" unfolding max_loops_def by (rule d)
  have "int (foldl ?f n ts) \<le> uses" if "(ty, uses) \<in> set ts" "prefix ''web_search'' ty" "uses > 0" for n ts ty uses
    using that
  proof (induction ts arbitrary: n)
    case (Cons t ts)
    show ?case
    proof (cases "t = (ty, uses)")
      case True
      with d[of "min n (nat uses)" ts] Cons.prems(2,3) show ?thesis by (simp add: le_nat_iff)
    next
      case False
      with Cons show ?thesis by simp
    qed
  qed simp
  then show "int (max_loops tools) \<le> uses" if "(ty, uses) \<in> set tools" "prefix ''web_search'' ty" "uses > 0" for ty uses
    using that unfolding max_loops_def by blast
qed

lemma search_ids_inj: "inj_on (loopServerToolUseID mid) {1..}"
proof (rule inj_onI)
  fix a b assume "a \<in> {1..}" "b \<in> {1::nat..}" "loopServerToolUseID mid a = loopServerToolUseID mid b"
  then show "a = b" by (auto simp: loopServerToolUseID_def split: if_splits dest: show_nat_inj)
qed

text \<open>
   C33. The loop of searches is bounded: a response that comes out of it starts with searches and
  their results in pairs, each pair with an id of its own, at most one more than the loops that
  are allowed, which are at most ten and no more than any tool of the request allows; no other
  block is a search or a result.
\<close>

theorem search_loop_bounded:
  assumes "runWebSearchLoop search followup q r tc u = Inr response"
  shows "(\<exists>k ps rest. 0 < k \<and> k \<le> max_loops (sq_Tools q) + 1 \<and> mr_Content response = ps @ rest \<and>
       search_pairs (sq_id q) k ps \<and> (\<forall>b \<in> set rest. cb_Type b \<noteq> ''server_tool_use'' \<and> cb_Type b \<noteq> ''web_search_tool_result'')) \<and>
    max_loops (sq_Tools q) \<le> 10 \<and>
    (\<forall>(ty, uses) \<in> set (sq_Tools q). prefix ''web_search'' ty \<and> uses > 0 \<longrightarrow> int (max_loops (sq_Tools q)) \<le> uses) \<and>
    inj_on (loopServerToolUseID (sq_id q)) {1..}"
proof -
  have "search_pairs (sq_id q) 0 []" by (simp add: search_pairs_def)
  with search_loop_pairs[of search followup q 0 "max_loops (sq_Tools q)" "sq_Messages q" r tc u "[]" response] assms
  have "\<exists>k ps rest. 0 < k \<and> k \<le> max_loops (sq_Tools q) + 1 \<and> mr_Content response = ps @ rest \<and>
      search_pairs (sq_id q) k ps \<and> (\<forall>b \<in> set rest. cb_Type b \<noteq> ''server_tool_use'' \<and> cb_Type b \<noteq> ''web_search_tool_result'')"
    by (simp add: runWebSearchLoop_def Let_def)
  with max_loops_bounds search_ids_inj show ?thesis by auto
qed

theorem search_loop_bounded_witness:
  "\<exists>response k ps rest.
     runWebSearchLoop (\<lambda>n s. Inr []) (\<lambda>n ms. (Inr (example_part [] ''Done'' [] True) :: unit + chat_response)) example_search_request
       (example_part [] [] [example_search_call] True) example_search_call
       \<lparr>us_InputTokens = 0, us_CacheReadInputTokens = None, us_OutputTokens = 0\<rparr> = Inr response \<and>
     mr_Content response = ps @ rest \<and> 0 < k \<and> k \<le> 2 \<and> search_pairs ''msg_1'' k ps"
proof -
  let ?run = "runWebSearchLoop (\<lambda>n s. Inr []) (\<lambda>n ms. (Inr (example_part [] ''Done'' [] True) :: unit + chat_response)) example_search_request
       (example_part [] [] [example_search_call] True) example_search_call
       \<lparr>us_InputTokens = 0, us_CacheReadInputTokens = None, us_OutputTokens = 0\<rparr>"
  have m: "max_loops (sq_Tools example_search_request) = 1" by (simp add: max_loops_def example_search_request_def)
  have q: "extractQueryFromToolCall example_search_call = ''go''"
    by (simp add: extractQueryFromToolCall_def example_search_call_def queryArgs_def arguments_Get_Set)
  have "\<exists>response. ?run = Inr response"
    by (simp add: runWebSearchLoop_def m q Let_def example_part_def plain_message_def findWebSearchToolCall_def)
  then obtain response where r: "?run = Inr response" by blast
  have i: "sq_id example_search_request = ''msg_1''" by (simp add: example_search_request_def)
  from search_loop_bounded[OF r] obtain k ps rest where "0 < k" "k \<le> 1 + 1" "mr_Content response = ps @ rest" "search_pairs ''msg_1'' k ps"
    unfolding m i by blast
  with r show ?thesis by (intro exI[of _ response] exI[of _ k] exI[of _ ps] exI[of _ rest]) simp
qed

text \<open>The text of the chunk that calls for a search is never sent.\<close>

theorem search_chunk_text_is_lost:
  assumes "\<not> sw_terminalSent w" and "\<not> sw_loopInFlight w" and "findWebSearchToolCall (am_ToolCalls (cr_Message r)) = Some tc"
    and "\<not> cr_Done r"
  shows "fst (search_write marshal search followup q r w) = []"
  using assms by (simp add: search_write_def Let_def)

end
