(* ===== verification/AgentText.thy ===== *)
theory AgentText
  imports GoRunes ApiMessages
begin

text \<open>
  Sizes and truncation of the texts of an agent session (\<^verbatim>\<open>agent/session.go\<close>,
  \<^verbatim>\<open>agent/compactor.go\<close>): the estimate of tokens, the truncation of long texts to their head
  and tail, and tool messages that are sized to a budget.
\<close>

section \<open>Tokens\<close>

definition ApproximateTokens :: "int \<Rightarrow> int" where
  "ApproximateTokens n = (if n \<le> 0 then 0 else max 1 ((n + 3) div 4))"

definition rune_count :: "string \<Rightarrow> int" where
  "rune_count s = int (length (runes_of s))"

definition estimateCompactionTokens :: "string \<Rightarrow> int" where
  "estimateCompactionTokens s =
     (let t = trim_space s in if t = [] then 0 else ApproximateTokens (rune_count t))"

text \<open>The tokens of a message; \<open>show_args\<close> is \<^verbatim>\<open>String\<close> of the arguments of a call.\<close>

definition message_tokens :: "(call_arguments \<Rightarrow> string) \<Rightarrow> api_message \<Rightarrow> int" where
  "message_tokens show_args m =
     estimateCompactionTokens (am_Role m) + estimateCompactionTokens (am_Content m)
   + estimateCompactionTokens (am_Thinking m) + estimateCompactionTokens (am_ToolName m)
   + estimateCompactionTokens (am_ToolCallID m)
   + sum_list (map (\<lambda>c. estimateCompactionTokens (ac_Name c) + estimateCompactionTokens (show_args (ac_Arguments c)))
       (am_ToolCalls m))"

definition estimateMessagesTokens :: "(call_arguments \<Rightarrow> string) \<Rightarrow> api_message list \<Rightarrow> int" where
  "estimateMessagesTokens show_args ms = sum_list (map (message_tokens show_args) ms)"

section \<open>Truncation\<close>

definition show_int :: "int \<Rightarrow> string" where
  "show_int n = (if n < 0 then ''-'' @ show_nat (nat (- n)) else show_nat (nat n))"

record truncate_config =
  tr_MaxRunes :: int
  tr_HeadTail :: bool
  tr_HeadPct :: int
  tr_Label :: string
  tr_Hint :: string
  tr_FullOmissionPrefix :: string

definition truncHint :: "string \<Rightarrow> string" where
  "truncHint hint =
     (let h = trim_space hint
      in if h = [] then [] else '' '' @ (if suffix ''.'' h then h else h @ ''.''))"

definition newlines :: string where
  "newlines = [CHR 0x0A, CHR 0x0A]"

definition TruncMarker :: "string \<Rightarrow> int \<Rightarrow> int \<Rightarrow> int \<Rightarrow> bool \<Rightarrow> string \<Rightarrow> string" where
  "TruncMarker label head tail omitted headTail hint =
     newlines @ ''['' @ label @ '' truncated: ''
   @ (if headTail
      then ''showing first ~'' @ show_int (ApproximateTokens head) @ '' tokens and last ~''
         @ show_int (ApproximateTokens tail) @ '' tokens; ''
      else ''showing first ~'' @ show_int (ApproximateTokens head) @ '' tokens; '')
   @ ''omitted ~'' @ show_int (ApproximateTokens omitted) @ '' tokens.'' @ truncHint hint @ '']''
   @ (if headTail then newlines else [])"

definition of_runes :: "nat list \<Rightarrow> string" where
  "of_runes rs = concat (map encode_rune rs)"

definition Truncate :: "string \<Rightarrow> truncate_config \<Rightarrow> string" where
  "Truncate content cfg =
     (let runes = runes_of content; total = int (length runes); m = tr_MaxRunes cfg
      in if m \<le> 0
         then tr_FullOmissionPrefix cfg @ '' omitted ~'' @ show_int (ApproximateTokens total) @ '' tokens.''
            @ truncHint (tr_Hint cfg) @ '']''
         else if total \<le> m then content
         else if \<not> tr_HeadTail cfg
         then of_runes (take (nat m) runes)
            @ TruncMarker (tr_Label cfg) m 0 (total - m) False (tr_Hint cfg)
         else
           (let head = m * tr_HeadPct cfg div 100; tail = m - head; omitted = total - head - tail
            in of_runes (take (nat head) runes)
             @ TruncMarker (tr_Label cfg) head tail omitted True (tr_Hint cfg)
             @ of_runes (drop (length runes - nat tail) runes)))"

definition toolOutputFullOmissionPrefix :: string where
  "toolOutputFullOmissionPrefix = ''[tool output truncated: output omitted because the context is full;''"

definition toolOutputFullyOmitted :: "string \<Rightarrow> bool" where
  "toolOutputFullyOmitted content \<longleftrightarrow> prefix toolOutputFullOmissionPrefix content"

definition tool_config :: "int \<Rightarrow> truncate_config" where
  "tool_config maxRunes =
     \<lparr>tr_MaxRunes = maxRunes, tr_HeadTail = True, tr_HeadPct = 75, tr_Label = ''tool output'',
      tr_Hint = ''Use a narrower command, line range, or search query if more detail is needed.'',
      tr_FullOmissionPrefix = toolOutputFullOmissionPrefix\<rparr>"

definition truncateToolResultContentTo :: "string \<Rightarrow> int \<Rightarrow> string" where
  "truncateToolResultContentTo content maxRunes = Truncate content (tool_config maxRunes)"

definition maxToolResultRunes :: int where
  "maxToolResultRunes = 60000"

definition truncateToolResultContent :: "string \<Rightarrow> string" where
  "truncateToolResultContent content = truncateToolResultContentTo content maxToolResultRunes"

definition sanitizeMessageForRun :: "api_message \<Rightarrow> api_message" where
  "sanitizeMessageForRun m =
     (if am_Role m = ''tool'' then m\<lparr>am_Content := truncateToolResultContent (am_Content m)\<rparr> else m)"

definition truncateCompactionSummary :: "string \<Rightarrow> string" where
  "truncateCompactionSummary summary =
     Truncate summary \<lparr>tr_MaxRunes = 16 * 1024, tr_HeadTail = False, tr_HeadPct = 0, tr_Label = ''summary'', tr_Hint = [],
       tr_FullOmissionPrefix = []\<rparr>"

section \<open>Tool messages\<close>

definition toolMessageWithLimit :: "string \<Rightarrow> string \<Rightarrow> string \<Rightarrow> int \<Rightarrow> api_message" where
  "toolMessageWithLimit toolName toolCallID content maxRunes =
     (plain_message ''tool'' (truncateToolResultContentTo content maxRunes))
       \<lparr>am_ToolName := toolName, am_ToolCallID := toolCallID\<rparr>"

definition toolMessage :: "string \<Rightarrow> string \<Rightarrow> string \<Rightarrow> api_message" where
  "toolMessage toolName toolCallID content = toolMessageWithLimit toolName toolCallID content maxToolResultRunes"

definition smallContextToolResultLimitRunes :: "int \<Rightarrow> int" where
  "smallContextToolResultLimitRunes contextWindow =
     (if contextWindow > 0 \<and> contextWindow \<le> 4096 then 3200
      else if contextWindow > 0 \<and> contextWindow \<le> 8192 then 6000 else 0)"

definition toolMessageWithBudget ::
  "(call_arguments \<Rightarrow> string) \<Rightarrow> int \<Rightarrow> string \<Rightarrow> string \<Rightarrow> string \<Rightarrow> int \<Rightarrow> int \<Rightarrow> api_message" where
  "toolMessageWithBudget show_args contextWindow toolName toolCallID content baseTokens budgetTokens =
     (let limit = smallContextToolResultLimitRunes contextWindow;
          maxRunes = (if limit > 0 then min maxToolResultRunes limit else maxToolResultRunes);
          msg = toolMessageWithLimit toolName toolCallID content maxRunes
      in if budgetTokens \<le> 0 then msg
         else if baseTokens + estimateMessagesTokens show_args [msg] < budgetTokens then msg
         else
           (let overheadTokens = estimateMessagesTokens show_args
                  [(plain_message ''tool'' [])\<lparr>am_ToolName := toolName, am_ToolCallID := toolCallID\<rparr>];
                availableRunes = (budgetTokens - baseTokens - overheadTokens - 64) * 4;
                maxRunes' = min maxRunes (max 0 availableRunes)
            in msg\<lparr>am_Content := truncateToolResultContentTo content maxRunes'\<rparr>))"

section \<open>Runes of parts\<close>

lemma decode_rune_before_start:
  assumes "a \<noteq> []" and "b \<noteq> []" and "rune_start (hd b)"
  shows "decode_rune (a @ b) = decode_rune a"
proof -
  obtain c0 a' where a: "a = c0 # a'" using assms(1) by (cases a) auto
  obtain d b' where b: "b = d # b'" using assms(2) by (cases b) auto
  have n: "\<not> is_cont (byte_val d)" using assms(3) by (simp add: b rune_start_def)
  then have n2: "\<not> is_second x (byte_val d)" for x
    by (auto simp: is_second_def is_cont_def accept_lo_def accept_hi_def split: if_splits)
  consider "a' = []" | c1 where "a' = [c1]" | c1 c2 where "a' = [c1, c2]" | c1 c2 c3 t where "a' = c1 # c2 # c3 # t"
    by (metis list.exhaust)
  then show ?thesis by cases (auto simp: a b decode_rune_def Let_def n n2 split: list.splits)
qed

lemma runes_of_at_start:
  assumes "rune_start (hd b)" shows "runes_of (a @ b) = runes_of a @ runes_of b"
proof (cases "b = []")
  case False
  show ?thesis
  proof (induction a rule: runes_of.induct)
    case (1 a)
    show ?case
    proof (cases "a = []")
      case ne: False
      have "snd (decode_rune a) \<le> length a" using decode_rune_width[OF ne] by (metis prod.collapse)
      then show ?thesis using "1.IH"[OF ne] ne decode_rune_before_start[OF ne False assms]
        by (simp add: runes_of.simps[of "a @ b"] runes_of.simps[of a])
    qed simp
  qed
qed simp

lemma runes_of_ascii: "\<forall>c \<in> set s. byte_val c < 0x80 \<Longrightarrow> runes_of s = map byte_val s"
  by (induction s) (simp_all add: runes_of.simps[of "_ # _"] decode_rune_ascii)

lemma decode_rune_start: "s \<noteq> [] \<Longrightarrow> fst (decode_rune s) \<noteq> rune_error \<Longrightarrow> rune_start (hd s)"
  by (cases s) (auto simp: decode_rune_def rune_start_def is_cont_def seq_len_def Let_def split: if_splits)

lemma last_space_start:
  assumes "s \<noteq> []" and "is_space (fst (decode_last_rune s))"
  shows "rune_start (hd (drop (length s - snd (decode_last_rune s)) s))"
proof (cases "byte_val (last s) < 0x80")
  case True
  then show ?thesis using assms(1)
    by (cases s rule: rev_cases) (auto simp: decode_last_rune_def rune_start_def is_cont_def)
next
  case False
  let ?d = "drop (length s - last_rune_len s) s"
  obtain r w where d: "decode_rune ?d = (r, w)" by fastforce
  have ne: "fst (decode_last_rune s) \<noteq> rune_error" using assms(2) by auto
  then have "w = last_rune_len s" "fst (decode_last_rune s) = r" "snd (decode_last_rune s) = w"
    using False assms(1) d by (auto simp: decode_last_rune_def Let_def split: if_splits)
  moreover have "?d \<noteq> []" using ne d calculation by auto
  ultimately show ?thesis using decode_rune_start[of ?d] ne d by simp
qed

lemma rune_count_trim_left: "rune_count (trim_left s) \<le> rune_count s"
proof (induction s rule: trim_left.induct)
  case (1 s)
  show ?case
  proof (cases "s \<noteq> [] \<and> is_space (fst (decode_rune s))")
    case True
    then show ?thesis using "1.IH" by (simp add: rune_count_def trim_left_space runes_of.simps[of s])
  next
    case False
    then show ?thesis by (cases "s = []") (auto simp: trim_left_nospace)
  qed
qed

lemma rune_count_trim_right: "rune_count (trim_right s) \<le> rune_count s"
proof (induction s rule: trim_right.induct)
  case (1 s)
  show ?case
  proof (cases "s \<noteq> [] \<and> is_space (fst (decode_last_rune s))")
    case True
    let ?k = "length s - snd (decode_last_rune s)"
    have "runes_of s = runes_of (take ?k s) @ runes_of (drop ?k s)"
      using runes_of_at_start[of "drop ?k s" "take ?k s"] last_space_start[of s] True by simp
    then show ?thesis using "1.IH" True by (simp add: rune_count_def trim_right_space)
  next
    case False
    then show ?thesis by (cases "s = []") (auto simp: trim_right_nospace)
  qed
qed

lemma rune_count_trim_space: "rune_count (trim_space s) \<le> rune_count s"
  unfolding trim_space_def by (rule order.trans[OF rune_count_trim_right rune_count_trim_left])

section \<open>Bounds\<close>

lemma tokens_le: "0 \<le> n \<Longrightarrow> m \<le> 4 * n \<Longrightarrow> ApproximateTokens m \<le> n"
  by (auto simp: ApproximateTokens_def)

lemma tokens_nonneg: "0 \<le> ApproximateTokens m"
  unfolding ApproximateTokens_def by (cases "m \<le> 0") (simp_all add: pos_imp_zdiv_nonneg_iff)

lemma estimate_le: "0 \<le> n \<Longrightarrow> rune_count s \<le> 4 * n \<Longrightarrow> estimateCompactionTokens s \<le> n"
  using rune_count_trim_space[of s] by (auto simp: estimateCompactionTokens_def Let_def intro: tokens_le)

lemma estimate_nonneg: "0 \<le> estimateCompactionTokens s"
  by (simp add: estimateCompactionTokens_def Let_def tokens_nonneg)

lemma show_nat_ascii: "c \<in> set (show_nat n) \<Longrightarrow> byte_val c < 0x80"
proof (induction n rule: show_nat.induct)
  case (1 n)
  show ?case
  proof (cases "n < 10")
    case True
    with "1.prems" show ?thesis by (subst (asm) show_nat.simps) (simp add: byte_val_digit)
  next
    case False
    with "1.prems" have "c \<in> set (show_nat (n div 10)) \<or> c = digit_char (n mod 10)" by (subst (asm) show_nat.simps) auto
    with "1.IH"[OF False] show ?thesis by (auto simp: byte_val_digit)
  qed
qed

lemma length_show_nat: "0 < k \<Longrightarrow> n < 10 ^ k \<Longrightarrow> length (show_nat n) \<le> k"
proof (induction n arbitrary: k rule: show_nat.induct)
  case (1 n)
  show ?case
  proof (cases "n < 10")
    case False
    with "1.prems" obtain j where k: "k = Suc j" "0 < j" by (cases k; cases "k - 1") auto
    then have "n div 10 < 10 ^ j" using "1.prems"(2) by (simp add: less_mult_imp_div_less mult.commute)
    with "1.IH"[OF False _ this] k False show ?thesis by (subst show_nat.simps) simp
  next
    case True
    with "1.prems" show ?thesis by (subst show_nat.simps) simp
  qed
qed

lemma tokens_digits:
  assumes "0 \<le> m" and "m < 2 ^ 63"
  shows "length (show_int (ApproximateTokens m)) \<le> 20" and "\<forall>c \<in> set (show_int (ApproximateTokens m)). byte_val c < 0x80"
proof -
  have "(m + 3) div 4 \<le> m" if "0 < m" using that by presburger
  then have "ApproximateTokens m \<le> m" using assms(1) by (auto simp: ApproximateTokens_def)
  then have "nat (ApproximateTokens m) < 10 ^ 20" using assms(2) by simp
  then show "length (show_int (ApproximateTokens m)) \<le> 20"
    using tokens_nonneg[of m] length_show_nat[of 20 "nat (ApproximateTokens m)"] by (simp add: show_int_def)
  show "\<forall>c \<in> set (show_int (ApproximateTokens m)). byte_val c < 0x80"
    using tokens_nonneg[of m] by (auto simp: show_int_def dest: show_nat_ascii)
qed

abbreviation toolHint :: string where
  "toolHint \<equiv> ''Use a narrower command, line range, or search query if more detail is needed.''"

lemma trim_space_word:
  "printable c \<Longrightarrow> printable d \<Longrightarrow> trim_space (c # u @ [d]) = c # u @ [d]" "printable c \<Longrightarrow> trim_space [c] = [c]"
  using trim_right_printable[of d "c # u"] trim_right_printable[of c "[]"] by (simp_all add: trim_space_def trim_left_printable)

lemma truncHint_tool: "truncHint toolHint = '' '' @ toolHint"
  using trim_space_word(1)[of "CHR ''U''" "CHR ''.''" "butlast (tl toolHint)"]
  by (simp add: truncHint_def printable_def suffix_def)

lemma tool_marker:
  assumes "0 \<le> h" "h < 2 ^ 63" "0 \<le> t" "t < 2 ^ 63" "0 \<le> omitted" "omitted < 2 ^ 63"
  shows "rune_count (TruncMarker ''tool output'' h t omitted True toolHint) \<le> 256"
    and "\<forall>c \<in> set (TruncMarker ''tool output'' h t omitted True toolHint). byte_val c < 0x80"
proof -
  note d = tokens_digits[OF assms(1,2)] tokens_digits[OF assms(3,4)] tokens_digits[OF assms(5,6)]
  show a: "\<forall>c \<in> set (TruncMarker ''tool output'' h t omitted True toolHint). byte_val c < 0x80"
    using d(2,4,6) by (simp add: TruncMarker_def newlines_def truncHint_tool ball_Un)
  show "rune_count (TruncMarker ''tool output'' h t omitted True toolHint) \<le> 256"
    unfolding rune_count_def runes_of_ascii[OF a]
    using d(1,3,5) by (simp add: TruncMarker_def newlines_def truncHint_tool)
qed

lemma of_runes_take_drop:
  "whole_runes (of_runes (take n (runes_of s)))" "runes_of (of_runes (take n (runes_of s))) = take n (runes_of s)"
  "runes_of (of_runes (drop n (runes_of s))) = drop n (runes_of s)"
proof -
  have v: "\<forall>r \<in> set (runes_of s). valid_rune r" by (simp add: runes_of_valid)
  then have t: "\<forall>r \<in> set (take n (runes_of s)). valid_rune r" "\<forall>r \<in> set (drop n (runes_of s)). valid_rune r"
    by (auto dest: in_set_takeD in_set_dropD)
  show "runes_of (of_runes (take n (runes_of s))) = take n (runes_of s)"
    "runes_of (of_runes (drop n (runes_of s))) = drop n (runes_of s)"
    unfolding of_runes_def using t by (simp_all add: runes_of_encode)
  show "whole_runes (of_runes (take n (runes_of s)))"
    unfolding of_runes_def using t(1) by (simp add: valid_utf8_encode valid_utf8_whole_runes)
qed

text \<open>The runes of a truncated tool output: its head, the marker and its tail.\<close>

lemma truncated_runes:
  assumes "0 < m" and "m < rune_count s" and "rune_count s < 2 ^ 63"
  defines "h \<equiv> m * 75 div 100"
  shows "\<exists>M. runes_of (truncateToolResultContentTo s m) =
      take (nat h) (runes_of s) @ map byte_val M @ drop (length (runes_of s) - nat (m - h)) (runes_of s)
    \<and> M = TruncMarker ''tool output'' h (m - h) (rune_count s - m) True toolHint
    \<and> int (length M) \<le> 256"
proof -
  have h: "0 \<le> h" "h \<le> m" "h < 2 ^ 63" "m - h < 2 ^ 63" using assms by auto
  let ?M = "TruncMarker ''tool output'' h (m - h) (rune_count s - m) True toolHint"
  note mk = tool_marker[of h "m - h" "rune_count s - m"]
  have a: "\<forall>c \<in> set ?M. byte_val c < 0x80" using mk(2) h assms by simp
  have "rune_count ?M \<le> 256" using mk(1) h assms by simp
  then have l: "int (length ?M) \<le> 256" unfolding rune_count_def[of ?M] runes_of_ascii[OF a] by simp
  have "runes_of (truncateToolResultContentTo s m) =
      runes_of (of_runes (take (nat h) (runes_of s)) @ ?M @ of_runes (drop (length (runes_of s) - nat (m - h)) (runes_of s)))"
    using assms(1,2) by (simp add: truncateToolResultContentTo_def Truncate_def tool_config_def Let_def rune_count_def h_def)
  also have "\<dots> = take (nat h) (runes_of s) @ map byte_val ?M @ drop (length (runes_of s) - nat (m - h)) (runes_of s)"
    by (simp add: runes_of_append of_runes_take_drop ascii_whole_runes[OF a] runes_of_ascii[OF a])
  finally show ?thesis by (intro exI[of _ ?M] conjI refl l)
qed

lemma omitted_count:
  assumes "rune_count s < 2 ^ 63" shows "rune_count (truncateToolResultContentTo s 0) \<le> 256"
proof -
  let ?n = "int (length (runes_of s))"
  note d = tokens_digits[of ?n]
  have n: "0 \<le> ?n" "?n < 2 ^ 63" using assms by (simp_all add: rune_count_def)
  have e: "truncateToolResultContentTo s 0 =
      tr_FullOmissionPrefix (tool_config 0) @ '' omitted ~'' @ show_int (ApproximateTokens ?n) @ '' tokens.'' @ '' '' @ toolHint @ '']''"
    using truncHint_tool by (simp add: truncateToolResultContentTo_def Truncate_def tool_config_def Let_def)
  have a: "\<forall>c \<in> set (truncateToolResultContentTo s 0). byte_val c < 0x80"
    unfolding e using d(2)[OF n] by (simp add: tool_config_def toolOutputFullOmissionPrefix_def ball_Un)
  show ?thesis unfolding rune_count_def runes_of_ascii[OF a] using d(1)[OF n] by (simp add: e tool_config_def toolOutputFullOmissionPrefix_def)
qed

lemma truncated_count:
  assumes "0 \<le> m" and "rune_count s < 2 ^ 63"
  shows "rune_count (truncateToolResultContentTo s m) \<le> m + 256"
proof -
  consider "m = 0" | "0 < m" "m < rune_count s" | "0 < m" "rune_count s \<le> m" using assms(1) by linarith
  then show ?thesis
  proof cases
    case 1
    then show ?thesis using omitted_count[OF assms(2)] by simp
  next
    case 2
    from truncated_runes[OF this assms(2)] obtain M where
      "runes_of (truncateToolResultContentTo s m) = take (nat (m * 75 div 100)) (runes_of s) @ map byte_val M
         @ drop (length (runes_of s) - nat (m - m * 75 div 100)) (runes_of s)" and "int (length M) \<le> 256" by blast
    with 2 show ?thesis by (auto simp: rune_count_def)
  next
    case 3
    then show ?thesis
      by (simp add: truncateToolResultContentTo_def Truncate_def tool_config_def Let_def rune_count_def)
  qed
qed

lemma truncated_short: "0 < m \<Longrightarrow> rune_count s \<le> m \<Longrightarrow> truncateToolResultContentTo s m = s"
  by (simp add: truncateToolResultContentTo_def Truncate_def tool_config_def Let_def rune_count_def)

section \<open>Properties\<close>

text \<open>
  C34.  A tool message is sized to its budget.  With a positive budget, and whatever the tool
  returned (of fewer than 2^63 runes), the history and the
  message together exceed neither the budget nor, when the history leaves less than that, the
  history with an empty tool message and the 64 tokens reserved for the marker of a truncation.
  So they stay within the budget whenever it has room for the reserve; with less room left the
  marker alone may exceed it, by 64 tokens at most over what was there.
\<close>

theorem tool_message_fits_budget:
  fixes baseTokens budget :: int
  assumes "rune_count content < 2 ^ 63" and "0 < budget"
  shows "baseTokens + estimateMessagesTokens show_args [toolMessageWithBudget show_args window name i content baseTokens budget]
    \<le> max budget
        (baseTokens + estimateMessagesTokens show_args [(plain_message ''tool'' [])\<lparr>am_ToolName := name, am_ToolCallID := i\<rparr>] + 64)"
proof -
  let ?over = "estimateMessagesTokens show_args [(plain_message ''tool'' [])\<lparr>am_ToolName := name, am_ToolCallID := i\<rparr>]"
  let ?max = "if smallContextToolResultLimitRunes window > 0 then min maxToolResultRunes (smallContextToolResultLimitRunes window)
    else maxToolResultRunes"
  let ?msg = "toolMessageWithLimit name i content ?max"
  have e: "estimateMessagesTokens show_args [?msg\<lparr>am_Content := c\<rparr>] = ?over + estimateCompactionTokens c" for c
    by (simp add: estimateMessagesTokens_def message_tokens_def toolMessageWithLimit_def plain_message_def
        estimateCompactionTokens_def[of "[]"] trim_space_def)
  show ?thesis
  proof (cases "baseTokens + estimateMessagesTokens show_args [?msg] < budget")
    case True
    then show ?thesis using assms(2) by (simp add: toolMessageWithBudget_def Let_def)
  next
    case False
    let ?avail = "(budget - baseTokens - ?over - 64) * 4"
    let ?c = "truncateToolResultContentTo content (min ?max (max 0 ?avail))"
    have "0 \<le> min ?max (max 0 ?avail)"
      by (simp add: smallContextToolResultLimitRunes_def maxToolResultRunes_def)
    from truncated_count[OF this assms(1)] have "rune_count ?c \<le> min ?max (max 0 ?avail) + 256" .
    also have "\<dots> \<le> max 0 ?avail + 256" by (intro add_right_mono min.cobounded2)
    also have "\<dots> \<le> 4 * max 64 (budget - baseTokens - ?over)" by (auto simp: max_def)
    finally have k: "estimateCompactionTokens ?c \<le> max 64 (budget - baseTokens - ?over)"
      by (intro estimate_le) simp_all
    have "toolMessageWithBudget show_args window name i content baseTokens budget = ?msg\<lparr>am_Content := ?c\<rparr>"
      using False assms(2) by (simp add: toolMessageWithBudget_def Let_def)
    then have "estimateMessagesTokens show_args [toolMessageWithBudget show_args window name i content baseTokens budget] =
        ?over + estimateCompactionTokens ?c"
      by (simp only: e)
    with k show ?thesis by linarith
  qed
qed

theorem tool_message_fits_budget_witness:
  "estimateMessagesTokens (\<lambda>_. []) [toolMessageWithBudget (\<lambda>_. []) 4096 ''ls'' ''1'' (replicate 4000 CHR ''a'') 0 100] \<le> 100"
proof -
  have a: "runes_of (replicate n CHR ''a'') = replicate n 97" for n by (subst runes_of_ascii) simp_all
  have t: "trim_space [CHR ''1''] = ''1''" "trim_space ''ls'' = ''ls''" "trim_space ''tool'' = ''tool''" "trim_space [] = []"
    using trim_space_word(1)[of "CHR ''l''" "CHR ''s''" "[]"] trim_space_word(1)[of "CHR ''t''" "CHR ''l''" "''oo''"]
      trim_space_word(2)[of "CHR ''1''"]
    by (simp_all add: printable_def trim_space_def)
  have "estimateMessagesTokens (\<lambda>_. []) [(plain_message ''tool'' [])\<lparr>am_ToolName := ''ls'', am_ToolCallID := ''1''\<rparr>] = 3"
    by (simp add: estimateMessagesTokens_def message_tokens_def plain_message_def estimateCompactionTokens_def t
        rune_count_def runes_of_ascii ApproximateTokens_def)
  then show ?thesis
    using tool_message_fits_budget[of "replicate 4000 CHR ''a''" 100 0 "\<lambda>_. []" 4096 "''ls''" "''1''"]
    by (simp add: rune_count_def a)
qed

text \<open>
  An output that was truncated is longer than the limit by its marker, so it is truncated again
  whenever a run or a request takes it up: the same head and tail are kept, but the marker then
  tells the length of the former marker, at most 256 runes, instead of what was left out.
\<close>

theorem truncation_forgets_omitted:
  assumes "60000 < rune_count s" and "rune_count s < 2 ^ 63"
  shows "\<exists>n. 0 < n \<and> n \<le> 256
    \<and> runes_of (truncateToolResultContent s) =
        take 45000 (runes_of s) @ map byte_val (TruncMarker ''tool output'' 45000 15000 (rune_count s - 60000) True toolHint)
          @ drop (length (runes_of s) - 15000) (runes_of s)
    \<and> runes_of (truncateToolResultContent (truncateToolResultContent s)) =
        take 45000 (runes_of s) @ map byte_val (TruncMarker ''tool output'' 45000 15000 n True toolHint)
          @ drop (length (runes_of s) - 15000) (runes_of s)"
proof -
  let ?M = "TruncMarker ''tool output'' 45000 15000 (rune_count s - 60000) True toolHint"
  let ?t = "truncateToolResultContent s" and ?n = "length (runes_of s)"
  from truncated_runes[OF _ assms(1,2)] have t: "runes_of ?t = take 45000 (runes_of s) @ map byte_val ?M @ drop (?n - 15000) (runes_of s)"
    and l: "int (length ?M) \<le> 256"
    by (auto simp: truncateToolResultContent_def maxToolResultRunes_def)
  have p: "0 < length ?M" by (simp add: TruncMarker_def newlines_def)
  have n: "60000 < ?n" using assms(1) by (simp add: rune_count_def)
  have c: "rune_count ?t = 60000 + int (length ?M)" using n by (simp add: rune_count_def[of ?t] t)
  have "runes_of (truncateToolResultContent ?t) = take 45000 (runes_of ?t)
      @ map byte_val (TruncMarker ''tool output'' 45000 15000 (int (length ?M)) True toolHint)
      @ drop (length (runes_of ?t) - 15000) (runes_of ?t)"
    using truncated_runes[of 60000 ?t] l p unfolding truncateToolResultContent_def maxToolResultRunes_def
    by (simp add: c[unfolded truncateToolResultContent_def maxToolResultRunes_def])
  moreover have "take 45000 (runes_of ?t) = take 45000 (runes_of s)" using n by (simp add: t)
  moreover have "drop (length (runes_of ?t) - 15000) (runes_of ?t) = drop (?n - 15000) (runes_of s)" using n by (simp add: t)
  ultimately show ?thesis using t l p by (intro exI[of _ "int (length ?M)"] conjI) simp_all
qed

text \<open>The marker of a compaction stays at the start of a text that is truncated.\<close>

lemma truncate_keeps_prefix:
  assumes "prefix p s" and "\<forall>c \<in> set p. byte_val c < 0x80" and "length p \<le> 45000"
  shows "prefix p (truncateToolResultContent s)"
proof (cases "60000 < rune_count s")
  case True
  obtain r where s: "s = p @ r" using assms(1) by (auto simp: prefix_def)
  have "take 45000 (runes_of s) = map byte_val p @ take (45000 - length p) (runes_of r)"
    using assms(2,3) by (simp add: s runes_of_append ascii_whole_runes runes_of_ascii)
  moreover have "of_runes (map byte_val p) = p"
    using assms(2) by (induction p) (simp_all add: of_runes_def encode_rune_def)
  ultimately have "prefix p (of_runes (take 45000 (runes_of s)))" by (simp add: of_runes_def)
  then show ?thesis using True
    by (simp add: truncateToolResultContent_def truncateToolResultContentTo_def Truncate_def tool_config_def Let_def
        maxToolResultRunes_def rune_count_def)
next
  case False
  with assms(1) show ?thesis by (simp add: truncateToolResultContent_def maxToolResultRunes_def truncated_short)
qed

end
