(* ===== verification/AgentCompact.thy ===== *)
theory AgentCompact
  imports Complex_Main AgentText
begin

text \<open>
  Compaction of the history of an agent session (\<^verbatim>\<open>agent/compactor.go\<close>): the messages that
  stand for a summary, the split of a history, and the compactor that asks a model for the
  summary.  The chat client, the JSON encoder and the scaling of the context window by a
  floating-point threshold are parameters.
\<close>

section \<open>Summaries\<close>

definition CompactionSummaryMessagePrefix :: string where
  "CompactionSummaryMessagePrefix = ''Conversation summary:'' @ [CHR 0x0A]"

definition CompactionToolName :: string where
  "CompactionToolName = ''summary''"

definition CompactionToolCallID :: string where
  "CompactionToolCallID = ''ollama_compaction''"

definition CompactionContinueInstruction :: string where
  "CompactionContinueInstruction =
     ''continue the task in progress. the history has been compacted, do not mention compaction to the user''"

definition compactionSummaryMessageForTask :: "string \<Rightarrow> bool \<Rightarrow> string" where
  "compactionSummaryMessageForTask summary continueTask =
     (let content = CompactionSummaryMessagePrefix @ trim_space summary
      in if continueTask then trim_space content @ newlines @ CompactionContinueInstruction else content)"

definition CompactionSummaryMessages :: "string \<Rightarrow> bool \<Rightarrow> api_message list" where
  "CompactionSummaryMessages summary continueTask =
     [(plain_message ''assistant'' [])\<lparr>am_ToolCalls :=
        [\<lparr>ac_ID = CompactionToolCallID, ac_Index = 0, ac_Name = CompactionToolName, ac_Arguments = None\<rparr>]\<rparr>,
      (plain_message ''tool'' (compactionSummaryMessageForTask summary continueTask))
        \<lparr>am_ToolName := CompactionToolName, am_ToolCallID := CompactionToolCallID\<rparr>]"

definition isCompactionToolName :: "string \<Rightarrow> bool" where
  "isCompactionToolName name \<longleftrightarrow> name = CompactionToolName"

definition isCompactionSummary :: "api_message \<Rightarrow> bool" where
  "isCompactionSummary m \<longleftrightarrow>
     (am_Role m = ''user'' \<or> am_Role m = ''system'' \<or> (am_Role m = ''tool'' \<and> isCompactionToolName (am_ToolName m)))
     \<and> prefix CompactionSummaryMessagePrefix (am_Content m)"

definition isCompactionToolCall :: "api_message \<Rightarrow> bool" where
  "isCompactionToolCall m \<longleftrightarrow>
     am_Role m = ''assistant'' \<and> list_ex (\<lambda>c. isCompactionToolName (ac_Name c)) (am_ToolCalls m)"

definition IsCompactionToolResult :: "api_message \<Rightarrow> bool" where
  "IsCompactionToolResult m \<longleftrightarrow>
     am_Role m = ''tool'' \<and> (isCompactionToolName (am_ToolName m) \<or> am_ToolCallID m = CompactionToolCallID)"

definition without_prefix :: "string \<Rightarrow> string \<Rightarrow> string" where
  "without_prefix p s = (if prefix p s then drop (length p) s else s)"

definition without_suffix :: "string \<Rightarrow> string \<Rightarrow> string" where
  "without_suffix p s = (if suffix p s then take (length s - length p) s else s)"

definition CompactionSummaryText :: "string \<Rightarrow> string" where
  "CompactionSummaryText content =
     trim_space (without_suffix CompactionContinueInstruction (trim_space (without_prefix CompactionSummaryMessagePrefix content)))"

definition CompactionSummaryContent :: "api_message \<Rightarrow> string option" where
  "CompactionSummaryContent m = (if isCompactionSummary m then Some (CompactionSummaryText (am_Content m)) else None)"

section \<open>The split of a history\<close>

text \<open>The latest summary and the messages that are no part of a summary.\<close>

fun split_candidates :: "string \<Rightarrow> api_message list \<Rightarrow> string \<times> api_message list" where
  "split_candidates prev [] = (prev, [])"
| "split_candidates prev [m] =
     (if isCompactionSummary m then (CompactionSummaryText (am_Content m), [])
      else if isCompactionToolCall m then (prev, []) else (prev, [m]))"
| "split_candidates prev (m # n # ms) =
     (if isCompactionSummary m then split_candidates (CompactionSummaryText (am_Content m)) (n # ms)
      else if isCompactionToolCall m
      then (if isCompactionSummary n then split_candidates (CompactionSummaryText (am_Content n)) ms
            else split_candidates prev (n # ms))
      else (let (p, cs) = split_candidates prev (n # ms) in (p, m # cs)))"

definition system_start :: "api_message \<Rightarrow> bool" where
  "system_start m \<longleftrightarrow> am_Role m = ''system'' \<and> \<not> isCompactionSummary m"

definition userTurnIndexes :: "api_message list \<Rightarrow> nat list" where
  "userTurnIndexes cs = rev (filter (\<lambda>i. am_Role (cs ! i) = ''user'') [0..<length cs])"

definition kept_turns :: "int \<Rightarrow> nat \<Rightarrow> nat" where
  "kept_turns keepUserTurns turns =
     (let keep = (if keepUserTurns < 0 then 3 else keepUserTurns)
      in nat (if int turns \<le> keep then int turns - 1 else keep))"

record history_split =
  sp_prefix :: "api_message list"
  sp_previousSummary :: string
  sp_archive :: "api_message list"
  sp_suffix :: "api_message list"
  sp_keptUserTurns :: nat
  sp_ok :: bool

definition splitCompactionMessages :: "api_message list \<Rightarrow> int \<Rightarrow> history_split" where
  "splitCompactionMessages messages keepUserTurns =
     (let (previousSummary, candidates) = split_candidates [] (dropWhile system_start messages);
          turns = userTurnIndexes candidates;
          kept = kept_turns keepUserTurns (length turns);
          suffixStart = (if kept > 0 then turns ! (kept - 1) else length candidates)
      in if suffixStart = 0
         then \<lparr>sp_prefix = takeWhile system_start messages, sp_previousSummary = previousSummary, sp_archive = [],
               sp_suffix = [], sp_keptUserTurns = kept, sp_ok = False\<rparr>
         else \<lparr>sp_prefix = takeWhile system_start messages, sp_previousSummary = previousSummary,
               sp_archive = take suffixStart candidates, sp_suffix = drop suffixStart candidates,
               sp_keptUserTurns = kept, sp_ok = True\<rparr>)"

section \<open>The prompt for a summary\<close>

text \<open>\<open>marshal\<close> is \<^verbatim>\<open>json.MarshalIndent\<close> of the messages.\<close>

definition renderCompactionPrompt ::
  "(api_message list \<Rightarrow> string + string) \<Rightarrow> string \<Rightarrow> api_message list \<Rightarrow> string + string" where
  "renderCompactionPrompt marshal previousSummary messages =
     (case marshal messages of
        Inl e \<Rightarrow> Inl (''marshal compaction messages: '' @ e)
      | Inr payload \<Rightarrow>
          Inr ((if trim_space previousSummary \<noteq> []
                then ''Previous summary:'' @ [CHR 0x0A] @ trim_space previousSummary @ newlines else [])
               @ ''Messages to archive as JSON:'' @ [CHR 0x0A] @ payload))"

definition largestCompactionContentMessage :: "api_message list \<Rightarrow> nat option" where
  "largestCompactionContentMessage messages =
     fst (fold (\<lambda>i (idx, size). let n = length (runes_of (am_Content (messages ! i)))
                 in if n > size then (Some i, n) else (idx, size)) [0..<length messages] (None, 0))"

fun fit_messages :: "(api_message list \<Rightarrow> string + string) \<Rightarrow> int \<Rightarrow> nat \<Rightarrow> api_message list \<Rightarrow> api_message list" where
  "fit_messages render maxTokens 0 fitted = fitted"
| "fit_messages render maxTokens (Suc n) fitted =
     (case render fitted of
        Inl e \<Rightarrow> fitted
      | Inr body \<Rightarrow>
          if estimateCompactionTokens body \<le> maxTokens then fitted
          else (case largestCompactionContentMessage fitted of
                  None \<Rightarrow> fitted
                | Some idx \<Rightarrow>
                    (let overageTokens = estimateCompactionTokens body - maxTokens;
                         currentRunes = rune_count (am_Content (fitted ! idx));
                         nextRunes = currentRunes - overageTokens * 4 - 256;
                         nextRunes' = (if nextRunes \<ge> currentRunes then currentRunes div 2 else nextRunes)
                     in fit_messages render maxTokens n
                          (fitted[idx := (fitted ! idx)\<lparr>am_Content :=
                             truncateToolResultContentTo (am_Content (fitted ! idx)) nextRunes'\<rparr>]))))"

definition fitCompactionMessagesToBudget ::
  "(api_message list \<Rightarrow> string + string) \<Rightarrow> string \<Rightarrow> api_message list \<Rightarrow> int \<Rightarrow> api_message list" where
  "fitCompactionMessagesToBudget marshal previousSummary messages maxTokens =
     (if maxTokens \<le> 0 then messages
      else fit_messages (renderCompactionPrompt marshal previousSummary) maxTokens 16 messages)"

definition compactionPrompt ::
  "(api_message list \<Rightarrow> string + string) \<Rightarrow> string \<Rightarrow> api_message list \<Rightarrow> int \<Rightarrow> string + string" where
  "compactionPrompt marshal previousSummary archive maxTokens =
     renderCompactionPrompt marshal previousSummary
       (fitCompactionMessagesToBudget marshal previousSummary
          (map (\<lambda>m. m\<lparr>am_Thinking := [], am_Images := []\<rparr>) archive) maxTokens)"

section \<open>Estimates\<close>

text \<open>
  What the estimate of a request takes from outside: the JSON text of its messages, tools and
  format, the text of its tools, and the check that a format is JSON.
\<close>

record estimator =
  es_show_args :: "call_arguments \<Rightarrow> string"
  es_marshal :: "api_message list \<Rightarrow> string option \<Rightarrow> string option"
  es_tools :: string
  es_json_valid :: "string \<Rightarrow> bool"

definition sanitizeMessagesForRequest :: "api_message list \<Rightarrow> api_message list" where
  "sanitizeMessagesForRequest messages = map sanitizeMessageForRun messages"

definition sanitizeMessagesForEstimate :: "api_message list \<Rightarrow> api_message list" where
  "sanitizeMessagesForEstimate messages = map (\<lambda>m. m\<lparr>am_Images := []\<rparr>) (sanitizeMessagesForRequest messages)"

definition compactionFormatForEstimate :: "(string \<Rightarrow> bool) \<Rightarrow> string \<Rightarrow> string option" where
  "compactionFormatForEstimate json_valid format =
     (let f = trim_space format
      in if f = [] then None
         else if f = ''json'' then Some ([CHR 0x22] @ ''json'' @ [CHR 0x22])
         else if \<not> json_valid f then None else Some f)"

definition estimateCompactionRequestTokens :: "estimator \<Rightarrow> string \<Rightarrow> string \<Rightarrow> api_message list \<Rightarrow> int" where
  "estimateCompactionRequestTokens es systemPrompt format messages =
     (let requestMessages = (if trim_space systemPrompt \<noteq> [] then [plain_message ''system'' (trim_space systemPrompt)] else [])
            @ sanitizeMessagesForEstimate messages
      in case es_marshal es requestMessages (compactionFormatForEstimate (es_json_valid es) format) of
           Some data \<Rightarrow> estimateCompactionTokens data
         | None \<Rightarrow> estimateMessagesTokens (es_show_args es) requestMessages
             + estimateCompactionTokens (es_tools es) + estimateCompactionTokens format)"

section \<open>Options\<close>

text \<open>
  The values of an option that count as a number: integers, floating-point numbers and the
  answer of \<^verbatim>\<open>Int64\<close> of a number in a text.
\<close>

datatype runtime_option = IntValue int | FloatValue rat | NumberValue int | OtherValue

definition toward_zero :: "rat \<Rightarrow> int" where
  "toward_zero q = (if q < 0 then - \<lfloor>- q\<rfloor> else \<lfloor>q\<rfloor>)"

type_synonym options = "(string \<times> runtime_option) list"

definition intOption :: "options \<Rightarrow> string \<Rightarrow> int" where
  "intOption options key =
     (case map_of options key of
        Some (IntValue v) \<Rightarrow> v
      | Some (FloatValue q) \<Rightarrow> toward_zero q
      | Some (NumberValue n) \<Rightarrow> n
      | _ \<Rightarrow> 0)"

definition ResolveContextWindowTokens :: "options \<Rightarrow> int \<Rightarrow> int" where
  "ResolveContextWindowTokens options configured =
     (if intOption options ''num_ctx'' > 0 then intOption options ''num_ctx''
      else if configured > 0 then configured else 32768)"

section \<open>The compactor\<close>

text \<open>
  \<open>co_scale w\<close> is \<^verbatim>\<open>int(float64(w) * threshold)\<close> of the resolved threshold; \<open>co_Client\<close>
  tells whether there is a client.
\<close>

record simple_compactor =
  co_Client :: bool
  co_ContextWindowTokens :: int
  co_KeepUserTurns :: int
  co_scale :: "int \<Rightarrow> int"

record compaction_request =
  rq_SystemPrompt :: string
  rq_Messages :: "api_message list"
  rq_Format :: string
  rq_LatestPromptEvalCount :: int
  rq_Options :: options
  rq_Force :: bool
  rq_ContinueTask :: bool
  rq_KeepUserTurns :: "int option"
  rq_Think :: "json option"

record compaction_result =
  rs_Messages :: "api_message list"
  rs_Compacted :: bool
  rs_Due :: bool
  rs_Summary :: string
  rs_Reason :: string

text \<open>An error: its text, code and message where it is a \<^verbatim>\<open>StatusError\<close>, and whether it is a cancellation.\<close>

record go_error =
  ge_text :: string
  ge_status :: "(int \<times> string) option"
  ge_canceled :: bool

definition contextWindowTokens :: "simple_compactor \<Rightarrow> options \<Rightarrow> int" where
  "contextWindowTokens c options = ResolveContextWindowTokens options (co_ContextWindowTokens c)"

definition shouldCompact :: "estimator \<Rightarrow> simple_compactor \<Rightarrow> compaction_request \<Rightarrow> bool" where
  "shouldCompact es c req =
     (let threshold = co_scale c (contextWindowTokens c (rq_Options req))
      in if threshold \<le> 0 then False
         else if rq_LatestPromptEvalCount req > 0 \<and> rq_LatestPromptEvalCount req \<ge> threshold then True
         else estimateCompactionRequestTokens es (rq_SystemPrompt req) (rq_Format req) (rq_Messages req) \<ge> threshold)"

definition ShouldCompact :: "estimator \<Rightarrow> simple_compactor \<Rightarrow> compaction_request \<Rightarrow> string option" where
  "ShouldCompact es c req =
     (if rq_Force req then Some ''force''
      else if shouldCompact es c req
      then (let threshold = co_scale c (contextWindowTokens c (rq_Options req))
            in if rq_LatestPromptEvalCount req > 0 \<and> rq_LatestPromptEvalCount req \<ge> threshold
               then Some ''prompt_eval'' else Some ''estimate'')
      else None)"

definition keepUserTurns :: "simple_compactor \<Rightarrow> options \<Rightarrow> int" where
  "keepUserTurns c options =
     (let w = contextWindowTokens c options
      in if w > 0 \<and> w < 16000 then 0
         else if co_KeepUserTurns c > 0 then co_KeepUserTurns c else 3)"

definition compactionSystemPrompt :: string where
  "compactionSystemPrompt =
     ''Summarize the archived part of an Ollama agent conversation. Preserve user goals, decisions, files, commands, tool results, and unresolved tasks needed to continue. Omit private reasoning and return only the summary.''"

definition compactionPromptBodyBudgetTokens :: "simple_compactor \<Rightarrow> options \<Rightarrow> int" where
  "compactionPromptBodyBudgetTokens c options =
     (let threshold = co_scale c (contextWindowTokens c options)
      in if threshold \<le> 0 then 0
         else (let budget = threshold - (estimateCompactionTokens ''system'' + estimateCompactionTokens compactionSystemPrompt)
                     - estimateCompactionTokens ''user''
               in if budget \<le> 0 then 0 else budget))"

text \<open>
  The client answers a request with the responses of a stream and perhaps an error.  Of the
  at most three requests of a compaction each is given its number.
\<close>

type_synonym summary_chat = "nat \<Rightarrow> json option \<Rightarrow> api_message list \<Rightarrow> chat_response list \<times> go_error option"

definition summarize ::
  "(api_message list \<Rightarrow> string + string) \<Rightarrow> summary_chat \<Rightarrow> simple_compactor \<Rightarrow> nat \<Rightarrow> compaction_request \<Rightarrow> json option
   \<Rightarrow> string \<Rightarrow> api_message list \<Rightarrow> go_error + string" where
  "summarize marshal chat c k req think previousSummary archive =
     (case compactionPrompt marshal previousSummary archive (compactionPromptBodyBudgetTokens c (rq_Options req)) of
        Inl e \<Rightarrow> Inl \<lparr>ge_text = e, ge_status = None, ge_canceled = False\<rparr>
      | Inr body \<Rightarrow>
          (case chat k think [plain_message ''system'' compactionSystemPrompt, plain_message ''user'' body] of
             (_, Some e) \<Rightarrow> Inl e
           | (rs, None) \<Rightarrow> Inr (concat (map (\<lambda>r. am_Content (cr_Message r)) rs))))"

definition isUnsupportedCompactionThinkError :: "(string \<Rightarrow> string) \<Rightarrow> go_error \<Rightarrow> bool" where
  "isUnsupportedCompactionThinkError lower e =
     (let t = lower (ge_text e)
      in if \<not> contains t ''think'' then False
         else if ge_status e \<noteq> None \<and> fst (the (ge_status e)) \<noteq> 0 then fst (the (ge_status e)) = 400
         else contains t ''does not support'' \<or> contains t ''not supported'' \<or> contains t ''unsupported'')"

definition summarizeEmptyFallback ::
  "(string \<Rightarrow> string) \<Rightarrow> (api_message list \<Rightarrow> string + string) \<Rightarrow> summary_chat \<Rightarrow> simple_compactor \<Rightarrow> compaction_request
   \<Rightarrow> string \<Rightarrow> api_message list \<Rightarrow> go_error + string" where
  "summarizeEmptyFallback lower marshal chat c req previousSummary archive =
     (case summarize marshal chat c 1 req (Some (JBool False)) previousSummary archive of
        Inr summary \<Rightarrow> Inr summary
      | Inl e \<Rightarrow>
          if \<not> isUnsupportedCompactionThinkError lower e then Inl e
          else if rq_Think req = None then Inr []
          else summarize marshal chat c 2 req None previousSummary archive)"

text \<open>The result of \<^verbatim>\<open>MaybeCompact\<close> and its error.\<close>

definition MaybeCompact ::
  "(string \<Rightarrow> string) \<Rightarrow> (api_message list \<Rightarrow> string + string) \<Rightarrow> estimator \<Rightarrow> summary_chat \<Rightarrow> simple_compactor
   \<Rightarrow> compaction_request \<Rightarrow> compaction_result \<times> go_error option" where
  "MaybeCompact lower marshal es chat c req =
     (let due = rq_Force req \<or> shouldCompact es c req;
          result = \<lparr>rs_Messages = rq_Messages req, rs_Compacted = False, rs_Due = due, rs_Summary = [], rs_Reason = []\<rparr>
      in if \<not> due then (result, None)
         else if \<not> co_Client c then (result\<lparr>rs_Reason := ''compaction is unavailable''\<rparr>, None)
         else
           (let keep = (case rq_KeepUserTurns req of None \<Rightarrow> keepUserTurns c (rq_Options req) | Some k \<Rightarrow> k);
                sp = splitCompactionMessages (rq_Messages req) keep
            in if \<not> sp_ok sp \<or> sp_archive sp = [] then (result\<lparr>rs_Reason := ''nothing to compact''\<rparr>, None)
               else
                 (case summarize marshal chat c 0 req (rq_Think req) (sp_previousSummary sp) (sp_archive sp) of
                    Inl e \<Rightarrow> (result\<lparr>rs_Reason := ge_text e\<rparr>, Some e)
                  | Inr s0 \<Rightarrow>
                      (let s1 = truncateCompactionSummary (trim_space s0)
                       in case (if s1 = []
                                then (case summarizeEmptyFallback lower marshal chat c req (sp_previousSummary sp) (sp_archive sp) of
                                        Inl e \<Rightarrow> Inl e
                                      | Inr s2 \<Rightarrow> Inr (truncateCompactionSummary (trim_space s2)))
                                else Inr s1) of
                            Inl e \<Rightarrow> (result\<lparr>rs_Reason := ge_text e\<rparr>, Some e)
                          | Inr summary \<Rightarrow>
                              if summary = [] then (result\<lparr>rs_Reason := ''summary was empty''\<rparr>, None)
                              else (result\<lparr>rs_Messages := sp_prefix sp
                                        @ CompactionSummaryMessages summary (rq_ContinueTask req) @ sp_suffix sp,
                                      rs_Compacted := True, rs_Summary := summary\<rparr>, None)))))"

section \<open>Trimmed text\<close>

lemma trim_right_boundary: "\<exists>q. s = trim_right s @ q \<and> (q = [] \<or> rune_start (hd q))"
proof (induction s rule: trim_right.induct)
  case (1 s)
  show ?case
  proof (cases "s \<noteq> [] \<and> is_space (fst (decode_last_rune s))")
    case True
    let ?k = "length s - snd (decode_last_rune s)"
    obtain q where q: "take ?k s = trim_right (take ?k s) @ q" "q = [] \<or> rune_start (hd q)" using "1.IH" True by auto
    have "drop ?k s \<noteq> []" 
      using decode_last_rune_width[of s "fst (decode_last_rune s)" "snd (decode_last_rune s)"] True by (cases s) auto
    then have "rune_start (hd (q @ drop ?k s))" using q(2) last_space_start[of s] True by (cases q) auto
    moreover have "s = trim_right s @ q @ drop ?k s"
      using q(1) True append_take_drop_id[of ?k s] trim_right_space[of s] by (metis append_assoc)
    ultimately show ?thesis by blast
  next
    case False
    then show ?thesis by (cases "s = []") (auto simp: trim_right_nospace)
  qed
qed

lemma trim_right_last: "trim_right s \<noteq> [] \<Longrightarrow> \<not> is_space (fst (decode_last_rune (trim_right s)))"
proof (induction s rule: trim_right.induct)
  case (1 s)
  then show ?case
    by (cases "s \<noteq> [] \<and> is_space (fst (decode_last_rune s))") (auto simp: trim_right_space trim_right_nospace)
qed

definition trimmed :: "string \<Rightarrow> bool" where
  "trimmed t \<longleftrightarrow> t = [] \<or> \<not> is_space (fst (decode_rune t)) \<and> \<not> is_space (fst (decode_last_rune t))"

lemma trimmed_trim_space: "trimmed (trim_space s)"
proof (cases "trim_space s = []")
  case False
  let ?l = "trim_left s"
  obtain q where q: "?l = trim_right ?l @ q" "q = [] \<or> rune_start (hd q)" using trim_right_boundary by blast
  have "decode_rune (trim_right ?l) = decode_rune ?l"
    using q decode_rune_before_start[of "trim_right ?l" q] False by (cases "q = []") (simp_all add: trim_space_def)
  moreover have "?l \<noteq> []" using False by (auto simp: trim_space_def)
  ultimately show ?thesis using trim_left_head[of s] trim_right_last[of ?l] False by (simp add: trimmed_def trim_space_def)
qed (simp add: trimmed_def)

lemma trim_space_trimmed: "trimmed t \<Longrightarrow> trim_space t = t"
  by (auto simp: trimmed_def trim_space_def trim_left_nospace trim_right_nospace)

lemma trim_space_idem [simp]: "trim_space (trim_space s) = trim_space s"
  by (rule trim_space_trimmed[OF trimmed_trim_space])

lemma last_rune_len_tail:
  assumes "m = length t" and "last_rune_len (b @ t) \<le> m" and "last_rune_len (b @ t) \<le> 4" and "b \<noteq> []"
  shows "last_rune_len t = last_rune_len (b @ t)"
proof -
  define n where "n = length (b @ t)"
  define A where "A j \<longleftrightarrow> rune_start ((b @ t) ! (n - j))" for j
  define B where "B j \<longleftrightarrow> rune_start (t ! (m - j))" for j
  have AB: "A j = B j" if "j \<le> m" "0 < j" for j
  proof -
    have "length b + length t - j = length b + (m - j)" using that assms(1) by simp
    then show ?thesis by (simp add: A_def B_def n_def nth_append)
  qed
  have n: "m < n" using assms(1,4) by (simp add: n_def)
  have K: "last_rune_len (b @ t) =
      (if n \<ge> 2 \<and> A 2 then 2 else if n \<ge> 3 \<and> A 3 then 3 else if n \<ge> 4 \<and> A 4 then 4 else min n 5)"
    by (simp only: last_rune_len_def Let_def n_def A_def)
  have T: "last_rune_len t =
      (if m \<ge> 2 \<and> B 2 then 2 else if m \<ge> 3 \<and> B 3 then 3 else if m \<ge> 4 \<and> B 4 then 4 else min m 5)"
    by (simp only: last_rune_len_def Let_def assms(1) B_def)
  consider "n \<ge> 2" "A 2" | "n \<ge> 3" "\<not> A 2" "A 3" | "n \<ge> 4" "\<not> A 2" "\<not> A 3" "A 4"
    | "last_rune_len (b @ t) = min n 5"
    unfolding K by (cases "A 2"; cases "A 3"; cases "A 4"; cases "n \<ge> 4"; cases "n \<ge> 3"; cases "n \<ge> 2") simp_all
  then show ?thesis
  proof cases
    case 4
    with n assms(2,3) show ?thesis by simp
  qed (use assms(2) K T AB[of 2] AB[of 3] AB[of 4] in simp_all)
qed

lemma last_rune_after_ascii:
  assumes "t \<noteq> []" and "byte_val c < 0x80" and "is_space (fst (decode_last_rune (a @ c # t)))"
  shows "is_space (fst (decode_last_rune t))"
proof (cases "byte_val (last t) < 0x80")
  case True
  then show ?thesis using assms by (simp add: decode_last_rune_def)
next
  case False
  let ?s = "a @ c # t" and ?k = "last_rune_len (a @ c # t)"
  let ?d = "drop (length ?s - ?k) ?s"
  obtain r w where d: "decode_rune ?d = (r, w)" by fastforce
  have ne: "fst (decode_last_rune ?s) \<noteq> rune_error" using assms(3) by auto
  then have w: "w = ?k" "fst (decode_last_rune ?s) = r"
    using False assms(1) d by (auto simp: decode_last_rune_def Let_def split: if_splits)
  have k: "?k \<le> length t"
  proof (rule ccontr)
    assume n: "\<not> ?k \<le> length t"
    let ?j = "?k - length t - 1"
    have le: "?k \<le> length ?s" by (auto simp: last_rune_len_def Let_def)
    then have c: "?d ! ?j = c" "?j < length ?d" using n by (auto simp: nth_append)
    show False
    proof (cases "?j = 0")
      case True
      then have "hd ?d = c" using c by (simp add: hd_conv_nth)
      then have "decode_rune ?d = (byte_val c, 1)" using c(2) assms(2) decode_rune_ascii[of c "tl ?d"] by (cases ?d) auto
      with d w(1) n assms(1) show False by (cases t) auto
    next
      case j: False
      have "128 \<le> byte_val (?d ! ?j)" using d j w(1) n by (intro decode_rune_cont[of ?d r w]) auto
      with c assms(2) show False by simp
    qed
  qed
  have le4: "w \<le> 4" using decode_rune_width[of ?d r w] d assms(1) by (cases "?d = []") auto
  have eq: "last_rune_len t = ?k"
    using last_rune_len_tail[of "length t" t "a @ [c]"] k le4 w(1) by simp
  have "drop (length t - ?k) t = ?d" using k by (simp add: Suc_diff_le)
  then show ?thesis using d w False assms by (simp add: decode_last_rune_def Let_def eq)
qed

lemma trimmed_after_ascii:
  assumes "trimmed t" and "t \<noteq> []" and "byte_val c < 0x80" and "\<not> is_space (fst (decode_rune (a @ c # t)))"
  shows "trimmed (a @ c # t)"
  using assms last_rune_after_ascii[OF assms(2,3)] by (auto simp: trimmed_def)

section \<open>A summary can be read back\<close>

lemma trim_space_newlines:
  assumes "trimmed t" and "t \<noteq> []" shows "trim_space (t @ newlines) = t"
proof -
  have "trim_left (t @ newlines) = t @ newlines"
    using assms decode_rune_before_start[of t newlines]
    by (intro trim_left_nospace) (simp add: trimmed_def newlines_def rune_start_def is_cont_def)
  moreover have "trim_right (t @ newlines) = t"
  proof -
    have "trim_right (u @ [CHR 0x0A]) = trim_right u" for u
      by (subst trim_right_space) (simp_all add: decode_last_rune_def is_space_def)
    from this[of "t @ [CHR 0x0A]"] this[of t] show ?thesis
      using assms by (simp add: newlines_def trimmed_def trim_right_nospace)
  qed
  ultimately show ?thesis by (simp add: trim_space_def)
qed

lemma summary_content:
  assumes "trim_space s \<noteq> []"
  shows "compactionSummaryMessageForTask s b =
    CompactionSummaryMessagePrefix @ trim_space s @ (if b then newlines @ CompactionContinueInstruction else [])"
proof -
  have "trimmed (CompactionSummaryMessagePrefix @ trim_space s)"
    using trimmed_after_ascii[OF trimmed_trim_space assms, of "CHR 0x0A" "''Conversation summary:''"]
    by (simp add: CompactionSummaryMessagePrefix_def decode_rune_ascii is_space_def)
  then show ?thesis by (simp add: compactionSummaryMessageForTask_def Let_def trim_space_trimmed)
qed

lemma summary_text_roundtrip:
  assumes "trim_space s \<noteq> []" and "b \<or> \<not> suffix CompactionContinueInstruction (trim_space s)"
  shows "CompactionSummaryText (compactionSummaryMessageForTask s b) = trim_space s"
proof (cases b)
  case True
  let ?t = "trim_space s" and ?i = CompactionContinueInstruction
  have i: "?i = butlast ?i @ [CHR ''r'']" "?i \<noteq> []" by (simp_all add: CompactionContinueInstruction_def)
  have "trim_space (?t @ newlines @ ?i) = ?t @ newlines @ ?i"
  proof -
    have "decode_rune (?t @ newlines @ ?i) = decode_rune ?t"
      using assms(1) by (intro decode_rune_before_start) (simp_all add: newlines_def rune_start_def is_cont_def)
    then have "trim_left (?t @ newlines @ ?i) = ?t @ newlines @ ?i"
      using trimmed_trim_space[of s] assms(1) by (intro trim_left_nospace) (simp add: trimmed_def)
    moreover have "trim_right ((?t @ newlines @ butlast ?i) @ [CHR ''r'']) = (?t @ newlines @ butlast ?i) @ [CHR ''r'']"
      by (rule trim_right_printable) (simp add: printable_def)
    ultimately show ?thesis using i(1) by (simp add: trim_space_def)
  qed
  moreover have "suffix ?i (?t @ newlines @ ?i)" by (simp add: suffix_def)
  ultimately show ?thesis using True assms(1) trim_space_newlines[OF trimmed_trim_space assms(1)]
    by (simp add: summary_content CompactionSummaryText_def without_prefix_def without_suffix_def)
next
  case False
  then show ?thesis using assms
    by (simp add: summary_content CompactionSummaryText_def without_prefix_def without_suffix_def)
qed

section \<open>Conversations\<close>

text \<open>
  A history in order: every call is answered by a tool message of its own, in the order of the
  calls, right after them; there are no other tool messages; and a call of the tool
  \<^verbatim>\<open>summary\<close> is the mark of a compaction.
\<close>

definition answers :: "api_message \<Rightarrow> api_call \<Rightarrow> bool" where
  "answers t c \<longleftrightarrow> am_Role t = ''tool'' \<and> am_ToolName t = ac_Name c \<and> am_ToolCallID t = ac_ID c \<and> am_ToolCalls t = []"

function conversation :: "api_message list \<Rightarrow> bool" where
  "conversation [] = True"
| "conversation (m # ms) =
     (am_Role m \<noteq> ''tool'' \<and> (am_ToolCalls m \<noteq> [] \<longrightarrow> am_Role m = ''assistant'')
      \<and> list_all2 answers (take (length (am_ToolCalls m)) ms) (am_ToolCalls m)
      \<and> (isCompactionToolCall m \<longrightarrow> length (am_ToolCalls m) = 1 \<and> isCompactionSummary (hd ms))
      \<and> conversation (drop (length (am_ToolCalls m)) ms))"
  by pat_completeness auto
termination by (relation "measure length") auto

lemma conversation_append: "conversation a \<Longrightarrow> conversation b \<Longrightarrow> conversation (a @ b)"
proof (induction a rule: conversation.induct)
  case (2 m ms)
  let ?n = "length (am_ToolCalls m)"
  have l: "?n \<le> length ms" using "2.prems"(1) by (auto dest: list_all2_lengthD)
  then have "isCompactionToolCall m \<longrightarrow> hd (ms @ b) = hd ms" using "2.prems"(1) by (cases ms) auto
  with 2 l show ?case by simp
qed simp

text \<open>A history can be cut before any message that is no answer.\<close>

lemma conversation_cut:
  assumes "conversation (a @ m # b)" and "am_Role m \<noteq> ''tool''"
  shows "conversation a \<and> conversation (m # b)"
  using assms(1)
proof (induction a rule: conversation.induct)
  case (2 k ms)
  let ?n = "length (am_ToolCalls k)"
  have all: "list_all2 answers (take ?n (ms @ m # b)) (am_ToolCalls k)" using "2.prems" by simp
  have l: "?n \<le> length ms"
  proof (rule ccontr)
    assume "\<not> ?n \<le> length ms"
    then have "take ?n (ms @ m # b) ! length ms = m" "length ms < length (take ?n (ms @ m # b))" by (simp_all add: nth_append)
    with all have "answers m (am_ToolCalls k ! length ms)" by (metis list_all2_nthD)
    with assms(2) show False by (simp add: answers_def)
  qed
  then have "isCompactionToolCall k \<longrightarrow> hd (ms @ m # b) = hd ms" using "2.prems" by (cases ms) auto
  moreover have "conversation (drop ?n ms @ m # b)" "take ?n (ms @ m # b) = take ?n ms" using "2.prems" l by simp_all
  ultimately show ?case using "2.IH" "2.prems" all unfolding append_Cons conversation.simps(2) by metis
qed simp

section \<open>What a split keeps\<close>

lemma split_candidates_Cons:
  "split_candidates prev (m # ms) =
     (if isCompactionSummary m then split_candidates (CompactionSummaryText (am_Content m)) ms
      else if isCompactionToolCall m
      then (if ms \<noteq> [] \<and> isCompactionSummary (hd ms)
            then split_candidates (CompactionSummaryText (am_Content (hd ms))) (tl ms) else split_candidates prev ms)
      else (fst (split_candidates prev ms), m # snd (split_candidates prev ms)))"
  by (cases ms) (simp_all split: prod.splits)

lemma split_candidates_plain:
  "\<forall>m \<in> set cs. \<not> isCompactionSummary m \<and> \<not> isCompactionToolCall m \<Longrightarrow>
   split_candidates prev (cs @ ms) = (fst (split_candidates prev ms), cs @ snd (split_candidates prev ms))"
  by (induction cs) (simp_all add: split_candidates_Cons)

lemma split_candidates_none:
  "m \<in> set (snd (split_candidates prev ms)) \<Longrightarrow> \<not> isCompactionSummary m \<and> \<not> isCompactionToolCall m"
proof (induction prev ms rule: split_candidates.induct)
  case (3 prev a n ms)
  then show ?case by (auto split: if_splits prod.splits)
qed (auto split: if_splits)

lemma summary_needs_role: "isCompactionSummary m \<Longrightarrow> am_Role m \<noteq> ''assistant''"
  by (auto simp: isCompactionSummary_def)

lemma answers_are_plain:
  assumes "list_all2 answers ts cs" and "\<not> list_ex (\<lambda>c. isCompactionToolName (ac_Name c)) cs" and "t \<in> set ts"
  shows "\<not> isCompactionSummary t \<and> \<not> isCompactionToolCall t"
proof -
  obtain c where "c \<in> set cs" "answers t c" using assms(1,3) by (metis in_set_conv_nth list_all2_conv_all_nth)
  then show ?thesis using assms(2) by (auto simp: answers_def isCompactionSummary_def isCompactionToolCall_def list_ex_iff)
qed

lemma conversation_candidates: "conversation ms \<Longrightarrow> conversation (snd (split_candidates prev ms))"
proof (induction ms arbitrary: prev rule: conversation.induct)
  case (2 m ms)
  let ?n = "length (am_ToolCalls m)"
  note c = "2.prems"[unfolded conversation.simps(2)]
  consider "isCompactionSummary m" | "\<not> isCompactionSummary m" "isCompactionToolCall m"
    | "\<not> isCompactionSummary m" "\<not> isCompactionToolCall m" by blast
  then show ?case
  proof cases
    case 1
    then have "?n = 0" using c summary_needs_role by auto
    then show ?thesis using "2.IH"[of "CompactionSummaryText (am_Content m)"] c 1 by (simp add: split_candidates_Cons)
  next
    case 2
    then have n: "?n = 1" "isCompactionSummary (hd ms)" using c by simp_all
    obtain t ts where ms: "ms = t # ts" using c n by (cases ms) auto
    have "conversation (drop ?n ms)" using c by blast
    then have "conversation (snd (split_candidates (CompactionSummaryText (am_Content t)) ts))"
      using "2.IH"[of "CompactionSummaryText (am_Content t)"] n(1) ms by simp
    then show ?thesis using n 2 ms by (simp add: split_candidates_Cons)
  next
    case 3
    let ?r = "drop ?n ms"
    have l: "?n \<le> length ms" using c by (auto dest: list_all2_lengthD)
    have nc: "\<not> list_ex (\<lambda>c. isCompactionToolName (ac_Name c)) (am_ToolCalls m)"
    proof (cases "am_ToolCalls m = []")
      case False
      with c have "am_Role m = ''assistant''" by simp
      with 3(2) show ?thesis by (simp add: isCompactionToolCall_def)
    qed simp
    have "split_candidates prev ms = (fst (split_candidates prev ?r), take ?n ms @ snd (split_candidates prev ?r))"
    proof -
      have a: "list_all2 answers (take ?n ms) (am_ToolCalls m)" using c by blast
      have "\<forall>t \<in> set (take ?n ms). \<not> isCompactionSummary t \<and> \<not> isCompactionToolCall t"
        by (intro ballI answers_are_plain[OF a nc])
      from split_candidates_plain[OF this, of prev ?r] show ?thesis unfolding append_take_drop_id .
    qed
    then have e: "snd (split_candidates prev (m # ms)) = m # take ?n ms @ snd (split_candidates prev ?r)"
      using 3 by (simp add: split_candidates_Cons)
    have r: "conversation (snd (split_candidates prev ?r))" using "2.IH"[of prev] c by blast
    have t: "take ?n (take ?n ms @ cs) = take ?n ms" "drop ?n (take ?n ms @ cs) = cs" for cs using l by simp_all
    show ?thesis unfolding e conversation.simps(2) t using c r 3(2) by blast
  qed
qed simp

lemma conversation_system: "conversation ms \<Longrightarrow> conversation (takeWhile system_start ms) \<and> conversation (dropWhile system_start ms)"
proof (induction ms rule: conversation.induct)
  case (2 m ms)
  show ?case
  proof (cases "system_start m")
    case True
    with "2.prems" have "am_ToolCalls m = []" by (auto simp: system_start_def)
    with 2 True show ?thesis by (auto simp: system_start_def isCompactionToolCall_def)
  qed (use "2.prems" in simp)
qed simp

lemma userTurnIndexes_Cons:
  "userTurnIndexes (m # cs) = map Suc (userTurnIndexes cs) @ (if am_Role m = ''user'' then [0] else [])"
proof -
  have "[0..<length (m # cs)] = 0 # map Suc [0..<length cs]" by (simp add: map_Suc_upt upt_conv_Cons del: upt_Suc)
  then show ?thesis by (simp add: userTurnIndexes_def filter_map o_def rev_map del: upt_Suc)
qed

lemma userTurnIndexes_Nil [simp]: "userTurnIndexes [] = []"
  by (simp add: userTurnIndexes_def)

abbreviation user_turns :: "api_message list \<Rightarrow> nat" where
  "user_turns cs \<equiv> length (filter (\<lambda>m. am_Role m = ''user'') cs)"

lemma userTurnIndexes_count:
  "length (userTurnIndexes cs) = user_turns cs"
  "k < length (userTurnIndexes cs) \<Longrightarrow> userTurnIndexes cs ! k < length cs
     \<and> am_Role (cs ! (userTurnIndexes cs ! k)) = ''user'' \<and> user_turns (drop (userTurnIndexes cs ! k) cs) = Suc k"
proof -
  show l: "length (userTurnIndexes cs) = user_turns cs" for cs
    by (induction cs) (simp_all add: userTurnIndexes_Cons)
  show "k < length (userTurnIndexes cs) \<Longrightarrow> userTurnIndexes cs ! k < length cs
     \<and> am_Role (cs ! (userTurnIndexes cs ! k)) = ''user'' \<and> user_turns (drop (userTurnIndexes cs ! k) cs) = Suc k"
  proof (induction cs)
    case (Cons m cs)
    show ?case
    proof (cases "k < length (userTurnIndexes cs)")
      case True
      then show ?thesis using Cons.IH by (simp add: userTurnIndexes_Cons nth_append)
    next
      case False
      with Cons.prems have "am_Role m = ''user''" "k = length (userTurnIndexes cs)"
        by (auto simp: userTurnIndexes_Cons split: if_splits)
      then show ?thesis by (simp add: userTurnIndexes_Cons nth_append l)
    qed
  qed simp
qed

lemma kept_turns_less: "kept_turns k n \<noteq> 0 \<Longrightarrow> kept_turns k n - 1 < n"
  by (auto simp: kept_turns_def Let_def split: if_splits)

text \<open>A split that can be made.\<close>

lemma split_made:
  assumes "sp_ok (splitCompactionMessages messages keep)"
  defines "sp \<equiv> splitCompactionMessages messages keep"
    and "cs \<equiv> snd (split_candidates [] (dropWhile system_start messages))"
  shows "sp_prefix sp = takeWhile system_start messages" and "cs = sp_archive sp @ sp_suffix sp"
    and "sp_archive sp \<noteq> []" and "sp_suffix sp = [] \<or> am_Role (hd (sp_suffix sp)) = ''user''"
    and "user_turns (sp_suffix sp) = kept_turns keep (user_turns cs)"
proof -
  let ?k = "kept_turns keep (length (userTurnIndexes cs))"
  let ?i = "if ?k > 0 then userTurnIndexes cs ! (?k - 1) else length cs"
  have ok: "?i \<noteq> 0" using assms(1) by (auto simp: splitCompactionMessages_def cs_def Let_def split: if_splits prod.splits)
  then have sp: "sp_prefix sp = takeWhile system_start messages" "sp_archive sp = take ?i cs" "sp_suffix sp = drop ?i cs"
    by (auto simp: sp_def splitCompactionMessages_def cs_def Let_def split: if_splits prod.splits)
  show "sp_prefix sp = takeWhile system_start messages" by (rule sp)
  show "cs = sp_archive sp @ sp_suffix sp" by (simp add: sp)
  have i: "?i \<le> length cs" "?k > 0 \<Longrightarrow> ?i < length cs \<and> am_Role (cs ! ?i) = ''user'' \<and> user_turns (drop ?i cs) = ?k"
    using userTurnIndexes_count(2)[of "?k - 1" cs] kept_turns_less[of keep "length (userTurnIndexes cs)"] by auto
  show "sp_archive sp \<noteq> []" using ok i(1) by (auto simp: sp)
  show "sp_suffix sp = [] \<or> am_Role (hd (sp_suffix sp)) = ''user''" unfolding sp using i by (cases "?k > 0") (simp_all add: hd_drop_conv_nth)
  show "user_turns (sp_suffix sp) = kept_turns keep (user_turns cs)" unfolding sp using i(2) userTurnIndexes_count(1)[of cs] by (cases "?k > 0") simp_all
qed

section \<open>What a compaction does\<close>

lemma trim_space_ends: "printable c \<Longrightarrow> trim_space (u @ [c]) \<noteq> []"
proof -
  assume c: "printable c"
  have "\<exists>v. trim_left (u @ [c]) = v @ [c]"
  proof (induction u rule: length_induct)
    case (1 u)
    let ?s = "u @ [c]"
    show ?case
    proof (cases "is_space (fst (decode_rune ?s))")
      case True
      obtain r w where d: "decode_rune ?s = (r, w)" by fastforce
      have w: "1 \<le> w" "w \<le> length ?s" using decode_rune_width[OF _ d] by auto
      have "w \<le> length u"
      proof (rule ccontr)
        assume "\<not> w \<le> length u"
        show False
        proof (cases u)
          case Nil
          then show False using True c trim_left_printable[OF c, of "[]"] trim_left_head[of "[c]"] by simp
        next
          case (Cons a u')
          then have "128 \<le> byte_val (?s ! length u)" using d \<open>\<not> w \<le> length u\<close> by (intro decode_rune_cont) auto
          with c show False by (simp add: printable_def)
        qed
      qed
      then have "drop w ?s = drop w u @ [c]" by simp
      moreover have "length (drop w u) < length u" using w \<open>w \<le> length u\<close> by simp
      ultimately show ?thesis using "1.IH" True d by (simp add: trim_left_space)
    qed (simp add: trim_left_nospace)
  qed
  then show ?thesis using trim_right_printable[OF c] by (auto simp: trim_space_def)
qed

lemma summary_stays_text:
  assumes "truncateCompactionSummary (trim_space s) \<noteq> []"
  shows "trim_space (truncateCompactionSummary (trim_space s)) \<noteq> []"
proof (cases "rune_count (trim_space s) \<le> 16384")
  case True
  then show ?thesis using assms by (auto simp: truncateCompactionSummary_def Truncate_def Let_def rune_count_def)
next
  case False
  then have "\<exists>u. truncateCompactionSummary (trim_space s) = u @ '']''"
    by (simp add: truncateCompactionSummary_def Truncate_def Let_def rune_count_def TruncMarker_def)
  then show ?thesis using trim_space_ends[of "CHR '']''"] by (auto simp: printable_def)
qed

lemma compacted_made:
  assumes "MaybeCompact lower marshal es chat c req = (r, e)"
  shows "if rs_Compacted r
    then e = None \<and> trim_space (rs_Summary r) \<noteq> []
      \<and> (\<exists>keep. let sp = splitCompactionMessages (rq_Messages req) keep
           in sp_ok sp \<and> keep = (case rq_KeepUserTurns req of None \<Rightarrow> keepUserTurns c (rq_Options req) | Some k \<Rightarrow> k)
            \<and> rs_Messages r = sp_prefix sp @ CompactionSummaryMessages (rs_Summary r) (rq_ContinueTask req) @ sp_suffix sp)
    else rs_Messages r = rq_Messages req"
proof -
  have t: "truncateCompactionSummary (trim_space s) \<noteq> [] \<Longrightarrow> trim_space (truncateCompactionSummary (trim_space s)) \<noteq> []" for s
    by (rule summary_stays_text)
  show ?thesis
    using assms unfolding MaybeCompact_def Let_def
    by (auto split: if_splits sum.splits option.splits simp: t)
qed

lemma isCompactionSummary_pair:
  "trim_space s \<noteq> [] \<Longrightarrow> isCompactionSummary ((plain_message ''tool'' (compactionSummaryMessageForTask s b))
     \<lparr>am_ToolName := CompactionToolName, am_ToolCallID := i\<rparr>)"
  by (simp add: isCompactionSummary_def plain_message_def isCompactionToolName_def summary_content)

lemma conversation_pair: "trim_space s \<noteq> [] \<Longrightarrow> conversation (CompactionSummaryMessages s b)"
  using isCompactionSummary_pair[of s CompactionToolCallID b]
  by (simp add: CompactionSummaryMessages_def plain_message_def answers_def isCompactionToolCall_def isCompactionToolName_def)

lemma compaction_keeps:
  assumes "conversation (rq_Messages req)"
  shows "conversation (rs_Messages (fst (MaybeCompact lower marshal es chat c req)))"
proof -
  obtain r e where m: "MaybeCompact lower marshal es chat c req = (r, e)" by fastforce
  show ?thesis
  proof (cases "rs_Compacted r")
    case True
    with compacted_made[OF m] obtain keep where sp: "sp_ok (splitCompactionMessages (rq_Messages req) keep)"
      and r: "rs_Messages r = sp_prefix (splitCompactionMessages (rq_Messages req) keep)
        @ CompactionSummaryMessages (rs_Summary r) (rq_ContinueTask req) @ sp_suffix (splitCompactionMessages (rq_Messages req) keep)"
      and t: "trim_space (rs_Summary r) \<noteq> []" by (auto simp: Let_def)
    let ?sp = "splitCompactionMessages (rq_Messages req) keep"
    note s = split_made[OF sp]
    have "conversation (sp_archive ?sp @ sp_suffix ?sp)"
      using conversation_candidates[of "dropWhile system_start (rq_Messages req)" "[]"] conversation_system[OF assms] s(2) by simp
    then have "conversation (sp_suffix ?sp)"
      using s(4) conversation_cut[of "sp_archive ?sp" "hd (sp_suffix ?sp)" "tl (sp_suffix ?sp)"] by (cases "sp_suffix ?sp") auto
    then show ?thesis using conversation_system[OF assms] conversation_pair[OF t] s(1)
      by (simp add: m r conversation_append)
  next
    case False
    then show ?thesis using compacted_made[OF m] assms by (simp add: m)
  qed
qed

text \<open>What a session relies on: whatever it does, a compactor leaves a history in order.\<close>

locale history_compactor =
  fixes compact :: "compaction_request \<Rightarrow> compaction_result \<times> go_error option"
  assumes keeps_conversation: "conversation (rq_Messages req) \<Longrightarrow> conversation (rs_Messages (fst (compact req)))"
begin

lemma compacted_append:
  "conversation (rq_Messages req) \<Longrightarrow> conversation ms \<Longrightarrow> conversation (rs_Messages (fst (compact req)) @ ms)"
  by (rule conversation_append[OF keeps_conversation])

end

interpretation simple: history_compactor "MaybeCompact lower marshal es chat c" for lower marshal es chat c
  by unfold_locales (rule compaction_keeps)

text \<open>
  C12.  A compaction keeps the system messages at the start and the latest user turns, as many
  as asked for but never all, with everything after them, and puts the summary between; when
  its result is split again, exactly this summary and these messages are read back.
\<close>

theorem compaction_read_back:
  assumes "MaybeCompact lower marshal es chat c req = (r, e)" and "rs_Compacted r" and "rq_ContinueTask req"
  shows "\<exists>archive suffix.
      snd (split_candidates [] (dropWhile system_start (rq_Messages req))) = archive @ suffix \<and> archive \<noteq> []
    \<and> (suffix = [] \<or> am_Role (hd suffix) = ''user'')
    \<and> user_turns suffix = kept_turns (case rq_KeepUserTurns req of None \<Rightarrow> keepUserTurns c (rq_Options req) | Some k \<Rightarrow> k)
        (user_turns (archive @ suffix))
    \<and> rs_Messages r = takeWhile system_start (rq_Messages req) @ CompactionSummaryMessages (rs_Summary r) True @ suffix
    \<and> split_candidates [] (dropWhile system_start (rs_Messages r)) = (trim_space (rs_Summary r), suffix)"
proof -
  from compacted_made[OF assms(1)] assms(2,3) obtain keep where
    sp: "sp_ok (splitCompactionMessages (rq_Messages req) keep)"
    and k: "keep = (case rq_KeepUserTurns req of None \<Rightarrow> keepUserTurns c (rq_Options req) | Some k \<Rightarrow> k)"
    and r: "rs_Messages r = sp_prefix (splitCompactionMessages (rq_Messages req) keep)
        @ CompactionSummaryMessages (rs_Summary r) True @ sp_suffix (splitCompactionMessages (rq_Messages req) keep)"
    and t: "trim_space (rs_Summary r) \<noteq> []" by (auto simp: Let_def)
  let ?sp = "splitCompactionMessages (rq_Messages req) keep" and ?s = "rs_Summary r"
  note s = split_made[OF sp]
  have w: "dropWhile system_start (rs_Messages r) = CompactionSummaryMessages ?s True @ sp_suffix ?sp"
    unfolding r s(1) by (subst dropWhile_append2) (auto dest: set_takeWhileD simp: CompactionSummaryMessages_def system_start_def plain_message_def)
  have plain: "\<forall>m \<in> set (sp_suffix ?sp). \<not> isCompactionSummary m \<and> \<not> isCompactionToolCall m"
    using split_candidates_none[of _ "[]" "dropWhile system_start (rq_Messages req)"] unfolding s(2) by auto
  have "split_candidates p (sp_suffix ?sp) = (p, sp_suffix ?sp)" for p
    using split_candidates_plain[OF plain, of p "[]"] by simp
  moreover have "isCompactionToolCall (hd (CompactionSummaryMessages ?s True))"
    "\<not> isCompactionSummary (hd (CompactionSummaryMessages ?s True))"
    by (simp_all add: CompactionSummaryMessages_def isCompactionToolCall_def isCompactionToolName_def isCompactionSummary_def plain_message_def)
  moreover note isCompactionSummary_pair[OF t, of CompactionToolCallID True] summary_text_roundtrip[OF t, of True]
  ultimately have "split_candidates [] (CompactionSummaryMessages ?s True @ sp_suffix ?sp) = (trim_space ?s, sp_suffix ?sp)"
    by (simp add: CompactionSummaryMessages_def split_candidates_Cons plain_message_def)
  then show ?thesis using s r w k by (intro exI[of _ "sp_archive ?sp"] exI[of _ "sp_suffix ?sp"]) simp
qed

definition example_reply :: "string \<Rightarrow> chat_response" where
  "example_reply text = \<lparr>cr_Model = [], cr_Message = plain_message ''assistant'' text, cr_Done = True, cr_DoneReason = ''stop'',
     cr_Metrics = \<lparr>mt_PromptEvalCount = 0, mt_PromptEvalCachedCount = None, mt_EvalCount = 0\<rparr>\<rparr>"

definition example_estimator :: estimator where
  "example_estimator = \<lparr>es_show_args = (\<lambda>_. []), es_marshal = (\<lambda>_ _. None), es_tools = [], es_json_valid = (\<lambda>_. False)\<rparr>"

definition example_compactor :: simple_compactor where
  "example_compactor = \<lparr>co_Client = True, co_ContextWindowTokens = 0, co_KeepUserTurns = 1, co_scale = (\<lambda>_. 0)\<rparr>"

definition example_history :: "api_message list" where
  "example_history = [plain_message ''system'' ''Be brief'', plain_message ''user'' ''Hi'', plain_message ''assistant'' ''Hello'',
     plain_message ''user'' ''Why'']"

definition example_compaction :: compaction_request where
  "example_compaction = \<lparr>rq_SystemPrompt = [], rq_Messages = example_history, rq_Format = [], rq_LatestPromptEvalCount = 0,
     rq_Options = [], rq_Force = True, rq_ContinueTask = True, rq_KeepUserTurns = None, rq_Think = None\<rparr>"

lemma example_split:
  "splitCompactionMessages example_history 1 = \<lparr>sp_prefix = [example_history ! 0], sp_previousSummary = [],
     sp_archive = [example_history ! 1, example_history ! 2], sp_suffix = [example_history ! 3], sp_keptUserTurns = 1, sp_ok = True\<rparr>"
  by (simp add: splitCompactionMessages_def example_history_def system_start_def plain_message_def isCompactionSummary_def
      isCompactionToolCall_def userTurnIndexes_Cons kept_turns_def CompactionSummaryMessagePrefix_def)

lemma example_compacted:
  "MaybeCompact (\<lambda>s. s) (\<lambda>_. Inr []) example_estimator (\<lambda>_ _ _. ([example_reply ''Hi''], None)) example_compactor example_compaction
    = (\<lparr>rs_Messages = [example_history ! 0] @ CompactionSummaryMessages ''Hi'' True @ [example_history ! 3],
        rs_Compacted = True, rs_Due = True, rs_Summary = ''Hi'', rs_Reason = []\<rparr>, None)"
proof -
  have t: "trim_space ''Hi'' = ''Hi''" "trim_space [] = []"
    using trim_space_word(1)[of "CHR ''H''" "CHR ''i''" "[]"] by (simp_all add: printable_def trim_space_def)
  have u: "truncateCompactionSummary ''Hi'' = ''Hi''"
    by (simp add: truncateCompactionSummary_def Truncate_def Let_def runes_of_ascii)
  have k: "keepUserTurns example_compactor [] = 1"
    by (simp add: keepUserTurns_def example_compactor_def contextWindowTokens_def ResolveContextWindowTokens_def intOption_def)
  show ?thesis
    by (simp add: MaybeCompact_def example_compaction_def example_compactor_def[THEN arg_cong[of _ _ co_Client]] k
        example_split summarize_def compactionPrompt_def renderCompactionPrompt_def fitCompactionMessagesToBudget_def
        compactionPromptBodyBudgetTokens_def example_compactor_def[THEN arg_cong[of _ _ co_scale]]
        example_reply_def plain_message_def t u Let_def)
qed

theorem compaction_read_back_witness:
  "\<exists>archive suffix. snd (split_candidates [] (dropWhile system_start example_history)) = archive @ suffix \<and> archive \<noteq> []
    \<and> user_turns suffix = kept_turns (keepUserTurns example_compactor []) (user_turns (archive @ suffix))"
  using compaction_read_back[OF example_compacted] by (auto simp: example_compaction_def)

text \<open>
  A user message that starts as a summary does is taken for one: it leaves the history.
\<close>

lemma user_message_taken_for_summary:
  assumes "am_Role m = ''user''" and "prefix CompactionSummaryMessagePrefix (am_Content m)"
  shows "m \<notin> set (snd (split_candidates prev ms))"
  using assms split_candidates_none[of m prev ms] by (auto simp: isCompactionSummary_def)

text \<open>
  A model that itself calls a tool \<^verbatim>\<open>summary\<close>, as it sees done in a compacted history, loses the
  call in the next compaction but not the answer to it, which then stands without a call.
\<close>

lemma summary_call_leaves_orphan:
  defines "user \<equiv> plain_message ''user''"
    and "call \<equiv> (plain_message ''assistant'' [])\<lparr>am_ToolCalls := [\<lparr>ac_ID = ''1'', ac_Index = 0, ac_Name = ''summary'', ac_Arguments = None\<rparr>]\<rparr>"
    and "answer \<equiv> (plain_message ''tool'' ''Error: unknown tool: summary'')\<lparr>am_ToolName := ''summary'', am_ToolCallID := ''1''\<rparr>"
  shows "sp_suffix (splitCompactionMessages [user ''a'', user ''b'', call, answer, user ''c''] 3) = [user ''b'', answer, user ''c'']"
    and "list_all2 answers [answer] (am_ToolCalls call)" and "\<not> conversation [user ''b'', answer, user ''c'']"
  by (simp_all add: splitCompactionMessages_def assms system_start_def plain_message_def isCompactionSummary_def
      isCompactionToolCall_def isCompactionToolName_def CompactionToolName_def userTurnIndexes_Cons kept_turns_def
      CompactionSummaryMessagePrefix_def answers_def)

end
