(* ===== verification/AgentRun.thy ===== *)
theory AgentRun
  imports AgentCompact ModelRef "HOL-Library.Char_ord" "HOL-Library.List_Lexorder"
begin

text \<open>
  A run of an agent session (\<^verbatim>\<open>agent/session.go\<close>, \<^verbatim>\<open>agent/approval.go\<close>, \<^verbatim>\<open>agent/registry.go\<close>,
  \<^verbatim>\<open>agent/skill_activation.go\<close>): rounds of a model that answers and calls tools, the approval
  of calls, their execution, and compaction in between.

  The session keeps a log of what it did.  Everything outside, that is the chat client, the
  event sinks, the user who approves, the tools and the context that may be canceled at any
  time, is a function of the log, so an answer may depend on all that happened before.
\<close>

section \<open>Approvals\<close>

record approval_call =
  pc_ToolCallID :: string
  pc_ToolName :: string
  pc_Args :: call_arguments
  pc_ApprovalScope :: string

record approval =
  ap_Allow :: bool
  ap_AllowAll :: bool
  ap_AllowScopes :: "string list"
  ap_Reason :: string

record approval_state =
  as_allowAll :: bool
  as_scopes :: "string set"

text \<open>\<^verbatim>\<open>ApprovalState.Set\<close> with a map, of which only the scopes that map to true are taken.\<close>

definition approval_Set :: "bool \<Rightarrow> (string \<times> bool) list \<Rightarrow> approval_state" where
  "approval_Set allowAll scopes = \<lparr>as_allowAll = allowAll, as_scopes = set (map fst (filter snd scopes))\<rparr>"

definition GrantAll :: "approval_state \<Rightarrow> approval_state" where
  "GrantAll s = s\<lparr>as_allowAll := True\<rparr>"

definition AllGranted :: "approval_state \<Rightarrow> bool" where
  "AllGranted s \<longleftrightarrow> as_allowAll s"

definition Allows :: "approval_state \<Rightarrow> string \<Rightarrow> bool" where
  "Allows s scope \<longleftrightarrow> as_allowAll s \<or> scope \<in> as_scopes s"

definition GrantScopes :: "string list \<Rightarrow> approval_state \<Rightarrow> approval_state" where
  "GrantScopes scopes s = s\<lparr>as_scopes := as_scopes s \<union> set (filter (\<lambda>x. x \<noteq> []) (map trim_space scopes))\<rparr>"

definition approval_Apply :: "approval \<Rightarrow> approval_state \<Rightarrow> bool \<times> approval_state" where
  "approval_Apply result s =
     (let s1 = (if ap_AllowAll result then s\<lparr>as_allowAll := True\<rparr> else s)
      in if ap_AllowScopes result \<noteq> [] then (True, GrantScopes (ap_AllowScopes result) s1)
         else (ap_AllowAll result, s1))"

section \<open>Tools\<close>

text \<open>A tool with the interfaces it implements: \<^verbatim>\<open>ApprovalRequired\<close> and \<^verbatim>\<open>ScopedTool\<close>.\<close>

record agent_tool =
  to_RequiresApproval :: "(call_arguments \<Rightarrow> bool) option"
  to_ApprovalScope :: "(call_arguments \<Rightarrow> string) option"

type_synonym registry = "(string \<times> agent_tool) list"

definition registry_Register :: "string \<Rightarrow> agent_tool \<Rightarrow> registry \<Rightarrow> registry" where
  "registry_Register name tool r = om_set name tool r"

definition registry_Get :: "registry option \<Rightarrow> string \<Rightarrow> agent_tool option" where
  "registry_Get r name = (case r of None \<Rightarrow> None | Some m \<Rightarrow> map_of m name)"

definition registry_Names :: "registry option \<Rightarrow> string list" where
  "registry_Names r = (case r of None \<Rightarrow> [] | Some m \<Rightarrow> sort (map fst m))"

definition ToolRequiresApproval :: "agent_tool \<Rightarrow> call_arguments \<Rightarrow> bool" where
  "ToolRequiresApproval tool args = (case to_RequiresApproval tool of None \<Rightarrow> False | Some f \<Rightarrow> f args)"

definition toolApprovalScope :: "agent_tool \<Rightarrow> string \<Rightarrow> call_arguments \<Rightarrow> string" where
  "toolApprovalScope tool toolName args = (case to_ApprovalScope tool of None \<Rightarrow> trim_space toolName | Some f \<Rightarrow> f args)"

record tool_result =
  tr_Content :: string
  tr_WorkingDir :: string

section \<open>The session and what surrounds it\<close>

datatype event =
    EvThinkingDelta string
  | EvMessageDelta string
  | EvToolCallDetected "api_call list"
  | EvToolStarted string string string call_arguments
  | EvToolFinished string string string string call_arguments string string
  | EvCompactionStarted string
  | EvCompacted "api_message list" string string
  | EvCompactionSkipped string string
  | EvRunFinished string
  | EvError string

datatype ctx_error = Canceled | DeadlineExceeded

text \<open>A request for a round; its tools are given by their names.\<close>

record run_request =
  rr_Model :: string
  rr_Messages :: "api_message list"
  rr_Format :: string
  rr_Options :: options
  rr_Think :: "json option"
  rr_Tools :: "string list"

datatype action =
    Chatted run_request
  | Emitted event
  | CtxRead "ctx_error option"
  | Prompted "approval_call list" "go_error + approval"
  | Executed api_call string
  | CompactorAsked compaction_request

record session =
  se_Tools :: "registry option"
  se_DisableTools :: bool
  se_prompter :: bool
  se_ApprovalState :: approval_state
  se_WorkingDir :: string
  se_log :: "action list"

text \<open>
  A compactor as the session sees it; \<open>cm_threshold\<close> is its context window times its threshold,
  as an integer.
\<close>

record compactor =
  cm_MaybeCompact :: "action list \<Rightarrow> compaction_request \<Rightarrow> compaction_result \<times> go_error option"
  cm_ShouldCompact :: "compaction_request \<Rightarrow> string option"
  cm_window :: "options \<Rightarrow> int"
  cm_threshold :: "options \<Rightarrow> int"

record env =
  en_chat :: "action list \<Rightarrow> run_request \<Rightarrow> chat_response list \<times> go_error option"
  en_sinks :: "action list \<Rightarrow> event \<Rightarrow> go_error option"
  en_ctx :: "action list \<Rightarrow> ctx_error option"
  en_prompt :: "action list \<Rightarrow> approval_call list \<Rightarrow> go_error + approval"
  en_exec :: "action list \<Rightarrow> api_call \<Rightarrow> string \<Rightarrow> go_error + tool_result"
  en_Getwd :: "action list \<Rightarrow> string option"
  en_canonical :: "action list \<Rightarrow> string \<Rightarrow> string option"
  en_skill :: "string \<Rightarrow> go_error + (string \<times> string)"
  en_uuid :: string
  en_estimator :: estimator
  en_Compactor :: "compactor option"

record run_options =
  ro_Model :: string
  ro_SystemPrompt :: string
  ro_Messages :: "api_message list"
  ro_NewMessages :: "api_message list"
  ro_Format :: string
  ro_Options :: options
  ro_Think :: "json option"
  ro_SkillName :: string
  ro_MaxToolRounds :: int

text \<open>A step of the session: an error or a value, and the session after it.\<close>

type_synonym 'a act = "session \<Rightarrow> (go_error + 'a) \<times> session"

definition give :: "'a \<Rightarrow> 'a act" where
  "give x s = (Inr x, s)"

definition fail :: "go_error \<Rightarrow> 'a act" where
  "fail e s = (Inl e, s)"

definition andThen :: "'a act \<Rightarrow> ('a \<Rightarrow> 'b act) \<Rightarrow> 'b act" where
  "andThen f g s = (case f s of (Inl e, s1) \<Rightarrow> (Inl e, s1) | (Inr x, s1) \<Rightarrow> g x s1)"

definition logged :: "action \<Rightarrow> session \<Rightarrow> session" where
  "logged a s = s\<lparr>se_log := se_log s @ [a]\<rparr>"

definition plain_error :: "string \<Rightarrow> go_error" where
  "plain_error t = \<lparr>ge_text = t, ge_status = None, ge_canceled = False\<rparr>"

definition session_emit :: "env \<Rightarrow> event \<Rightarrow> unit act" where
  "session_emit env ev s =
     (case en_sinks env (se_log s) ev of
        None \<Rightarrow> (Inr (), logged (Emitted ev) s)
      | Some e \<Rightarrow> (Inl e, logged (Emitted ev) s))"

text \<open>An session_emit whose error is ignored.\<close>

definition emit_only :: "env \<Rightarrow> event \<Rightarrow> unit act" where
  "emit_only env ev s = (Inr (), snd (session_emit env ev s))"

definition ctx_Err :: "env \<Rightarrow> ctx_error option act" where
  "ctx_Err env s = (let c = en_ctx env (se_log s) in (Inr c, logged (CtxRead c) s))"

definition emitIgnoringCanceled :: "env \<Rightarrow> event \<Rightarrow> unit act" where
  "emitIgnoringCanceled env ev s =
     (case session_emit env ev s of
        (Inr u, s1) \<Rightarrow> (Inr u, s1)
      | (Inl e, s1) \<Rightarrow> andThen (ctx_Err env) (\<lambda>c. if c \<noteq> None then give () else fail e) s1)"

definition availableTools :: "session \<Rightarrow> string list" where
  "availableTools s = registry_Names (se_Tools s)"

definition run_window :: "env \<Rightarrow> run_options \<Rightarrow> int" where
  "run_window env opts = (case en_Compactor env of None \<Rightarrow> 0 | Some c \<Rightarrow> cm_window c (ro_Options opts))"

definition compactionThresholdTokens :: "env \<Rightarrow> run_options \<Rightarrow> int" where
  "compactionThresholdTokens env opts =
     (if run_window env opts \<le> 0 then 0
      else (case en_Compactor env of None \<Rightarrow> 0 | Some c \<Rightarrow> max 0 (cm_threshold c (ro_Options opts))))"

definition estimateRunPromptTokens :: "env \<Rightarrow> run_options \<Rightarrow> api_message list \<Rightarrow> int" where
  "estimateRunPromptTokens env opts messages =
     estimateCompactionRequestTokens (en_estimator env) (ro_SystemPrompt opts) (ro_Format opts) messages"

definition message_cost :: "env \<Rightarrow> api_message \<Rightarrow> int" where
  "message_cost env m = estimateMessagesTokens (es_show_args (en_estimator env)) [m]"

definition toolMessageForContext :: "env \<Rightarrow> run_options \<Rightarrow> string \<Rightarrow> string \<Rightarrow> string \<Rightarrow> int \<Rightarrow> api_message" where
  "toolMessageForContext env opts toolName toolCallID content baseTokens =
     toolMessageWithBudget (es_show_args (en_estimator env)) (run_window env opts) toolName toolCallID content baseTokens
       (compactionThresholdTokens env opts)"

definition toolMessageForPostCompactionContext :: "env \<Rightarrow> run_options \<Rightarrow> string \<Rightarrow> string \<Rightarrow> string \<Rightarrow> int \<Rightarrow> api_message" where
  "toolMessageForPostCompactionContext env opts toolName toolCallID content baseTokens =
     toolMessageWithBudget (es_show_args (en_estimator env)) (run_window env opts) toolName toolCallID content baseTokens
       (run_window env opts)"

section \<open>Working directory\<close>

definition currentWorkingDir :: "env \<Rightarrow> string act" where
  "currentWorkingDir env s =
     (if se_WorkingDir s \<noteq> [] then (Inr (se_WorkingDir s), s)
      else (case en_Getwd env (se_log s) of
              None \<Rightarrow> (Inr [], s)
            | Some wd \<Rightarrow> (Inr wd, s\<lparr>se_WorkingDir := wd\<rparr>)))"

text \<open>\<open>en_canonical\<close> is \<^verbatim>\<open>canonicalSessionPath\<close>, which asks the file system.\<close>

definition applyToolWorkingDir :: "env \<Rightarrow> string \<Rightarrow> bool act" where
  "applyToolWorkingDir env next_dir =
     (let n = trim_space next_dir
      in if n = [] then give False
         else andThen (currentWorkingDir env) (\<lambda>current s.
           (case en_canonical env (se_log s) n of
              None \<Rightarrow> (Inr False, s)
            | Some a \<Rightarrow> if current = a then (Inr False, s) else (Inr True, s\<lparr>se_WorkingDir := a\<rparr>))))"

section \<open>Authorization\<close>

definition needsApproval :: "session \<Rightarrow> agent_tool \<Rightarrow> string \<Rightarrow> call_arguments \<Rightarrow> bool" where
  "needsApproval s tool name args \<longleftrightarrow>
     ToolRequiresApproval tool args \<and> \<not> Allows (se_ApprovalState s) (toolApprovalScope tool name args)"

definition approval_entry :: "agent_tool \<Rightarrow> api_call \<Rightarrow> approval_call" where
  "approval_entry tool call =
     \<lparr>pc_ToolCallID = ac_ID call, pc_ToolName = ac_Name call, pc_Args = ac_Arguments call,
      pc_ApprovalScope = toolApprovalScope tool (ac_Name call) (ac_Arguments call)\<rparr>"

definition approval_request :: "session \<Rightarrow> api_call list \<Rightarrow> approval_call list" where
  "approval_request s calls =
     concat (map (\<lambda>call. case registry_Get (se_Tools s) (ac_Name call) of
         None \<Rightarrow> []
       | Some tool \<Rightarrow> if needsApproval s tool (ac_Name call) (ac_Arguments call) then [approval_entry tool call] else []) calls)"

definition applyApproval :: "approval \<Rightarrow> session \<Rightarrow> approval \<times> session" where
  "applyApproval result s =
     (let (granted, st) = approval_Apply result (se_ApprovalState s)
      in (if granted then result\<lparr>ap_Allow := True\<rparr> else result, s\<lparr>se_ApprovalState := st\<rparr>))"

definition authorizeToolCalls :: "env \<Rightarrow> approval_call list \<Rightarrow> approval act" where
  "authorizeToolCalls env calls s =
     (if calls = [] \<or> AllGranted (se_ApprovalState s)
      then (Inr \<lparr>ap_Allow = True, ap_AllowAll = False, ap_AllowScopes = [], ap_Reason = []\<rparr>, s)
      else if \<not> se_prompter s
      then (Inr \<lparr>ap_Allow = False, ap_AllowAll = False, ap_AllowScopes = [],
                 ap_Reason = ''Tool execution requires approval, but no approval prompter is available.''\<rparr>, s)
      else (let answer = en_prompt env (se_log s) calls; s1 = logged (Prompted calls answer) s
            in case answer of
                 Inl e \<Rightarrow> (Inl e, s1)
               | Inr result \<Rightarrow> (let (result', s2) = applyApproval result s1 in (Inr result', s2))))"

section \<open>Batches of tool calls\<close>

datatype batch_stop = NotStopped | BatchDenied | BatchCanceled

record overflow =
  ov_toolName :: string
  ov_toolCallID :: string
  ov_content :: string

record batch =
  ba_messages :: "api_message list"
  ba_stop :: batch_stop
  ba_overflows :: "overflow list"

definition batch_cons :: "api_message \<Rightarrow> overflow list \<Rightarrow> batch \<Rightarrow> batch" where
  "batch_cons m os b = b\<lparr>ba_messages := m # ba_messages b, ba_overflows := os @ ba_overflows b\<rparr>"

fun skipToolCalls :: "env \<Rightarrow> string \<Rightarrow> api_call list \<Rightarrow> api_message list act" where
  "skipToolCalls env content [] = give []"
| "skipToolCalls env content (call # calls) =
     (let msg = toolMessage (ac_Name call) (ac_ID call) content
      in andThen (emitIgnoringCanceled env (EvToolFinished ''skipped'' (ac_ID call) (ac_Name call) [] (ac_Arguments call)
                    (am_Content msg) (am_Content msg)))
           (\<lambda>_. andThen (skipToolCalls env content calls) (\<lambda>ms. give (msg # ms))))"

definition canceled_text :: string where
  "canceled_text = ''Tool execution skipped because the run was canceled.''"

text \<open>The rest of a batch that is canceled.\<close>

definition cancel_batch :: "env \<Rightarrow> api_call list \<Rightarrow> batch act" where
  "cancel_batch env calls =
     andThen (skipToolCalls env canceled_text calls)
       (\<lambda>ms. give \<lparr>ba_messages = ms, ba_stop = BatchCanceled, ba_overflows = []\<rparr>)"

fun disabledToolCalls :: "env \<Rightarrow> run_options \<Rightarrow> int \<Rightarrow> api_call list \<Rightarrow> batch act" where
  "disabledToolCalls env opts tokens [] = give \<lparr>ba_messages = [], ba_stop = NotStopped, ba_overflows = []\<rparr>"
| "disabledToolCalls env opts tokens (call # calls) =
     (let msg = toolMessageForContext env opts (ac_Name call) (ac_ID call) ''Tool execution disabled.'' tokens
      in andThen (emitIgnoringCanceled env (EvToolFinished ''disabled'' (ac_ID call) (ac_Name call) [] (ac_Arguments call)
                    (am_Content msg) (am_Content msg)))
           (\<lambda>_. andThen (disabledToolCalls env opts (tokens + message_cost env msg) calls) (\<lambda>b. give (batch_cons msg [] b))))"

fun deniedToolCalls :: "env \<Rightarrow> run_options \<Rightarrow> string \<Rightarrow> int \<Rightarrow> api_call list \<Rightarrow> batch act" where
  "deniedToolCalls env opts content tokens [] = give \<lparr>ba_messages = [], ba_stop = BatchDenied, ba_overflows = []\<rparr>"
| "deniedToolCalls env opts content tokens (call # calls) =
     (let msg = toolMessageForContext env opts (ac_Name call) (ac_ID call) content tokens
      in andThen (session_emit env (EvToolFinished ''denied'' (ac_ID call) (ac_Name call) [] (ac_Arguments call)
                    (am_Content msg) (am_Content msg)))
           (\<lambda>_. andThen (deniedToolCalls env opts content (tokens + message_cost env msg) calls) (\<lambda>b. give (batch_cons msg [] b))))"

definition registry_Execute :: "env \<Rightarrow> api_call \<Rightarrow> string \<Rightarrow> tool_result act" where
  "registry_Execute env call dir s =
     (case registry_Get (se_Tools s) (ac_Name call) of
        None \<Rightarrow> (Inl (plain_error (''unknown tool: '' @ ac_Name call)), s)
      | Some tool \<Rightarrow> (en_exec env (se_log s) call dir, logged (Executed call dir) s))"

text \<open>The error of a call as a value, since a failed call does not end the batch.\<close>

definition attempt :: "'a act \<Rightarrow> (go_error + 'a) act" where
  "attempt f s = (case f s of (r, s1) \<Rightarrow> (Inr r, s1))"

definition overflow_of :: "api_call \<Rightarrow> api_message \<Rightarrow> string \<Rightarrow> overflow list" where
  "overflow_of call msg content =
     (if toolOutputFullyOmitted (am_Content msg)
      then [\<lparr>ov_toolName = ac_Name call, ov_toolCallID = ac_ID call, ov_content = content\<rparr>] else [])"

text \<open>The content and the message of a call to a tool that is not registered, and of a call that was executed.\<close>

definition unknown_tool :: "env \<Rightarrow> run_options \<Rightarrow> int \<Rightarrow> api_call \<Rightarrow> (string \<times> api_message) act" where
  "unknown_tool env opts tokens call =
     (let content = ''Error: unknown tool: '' @ ac_Name call;
          msg = toolMessageForContext env opts (ac_Name call) (ac_ID call) content tokens
      in andThen (session_emit env (EvToolFinished ''failed'' (ac_ID call) (ac_Name call) [] (ac_Arguments call)
                    (am_Content msg) (''unknown tool: '' @ ac_Name call)))
           (\<lambda>_. give (content, msg)))"

definition settle_call ::
  "env \<Rightarrow> run_options \<Rightarrow> string \<Rightarrow> int \<Rightarrow> api_call \<Rightarrow> go_error + tool_result \<Rightarrow> (string \<times> api_message) act" where
  "settle_call env opts dir tokens call outcome =
     (case outcome of
        Inl e \<Rightarrow>
          (let content = ''Error: '' @ ge_text e;
               msg = toolMessageForContext env opts (ac_Name call) (ac_ID call) content tokens
           in andThen (emitIgnoringCanceled env (EvToolFinished ''failed'' (ac_ID call) (ac_Name call) [] (ac_Arguments call)
                         (am_Content msg) (ge_text e)))
                (\<lambda>_. give (content, msg)))
      | Inr result \<Rightarrow>
          andThen (applyToolWorkingDir env (tr_WorkingDir result)) (\<lambda>moved s.
            (let content = tr_Content result;
                 msg = toolMessageForContext env opts (ac_Name call) (ac_ID call) content tokens;
                 event_dir = (if moved then se_WorkingDir s else dir)
             in andThen (emitIgnoringCanceled env (EvToolFinished ''done'' (ac_ID call) (ac_Name call) event_dir
                           (ac_Arguments call) (am_Content msg) []))
                  (\<lambda>_. give (content, msg)) s)))"

fun run_plans :: "env \<Rightarrow> run_options \<Rightarrow> string \<Rightarrow> int \<Rightarrow> (api_call \<times> agent_tool option) list \<Rightarrow> batch act" where
  "run_plans env opts dir tokens [] = give \<lparr>ba_messages = [], ba_stop = NotStopped, ba_overflows = []\<rparr>"
| "run_plans env opts dir tokens ((call, tool) # plans) =
     andThen (ctx_Err env) (\<lambda>c.
       if c \<noteq> None then cancel_batch env (call # map fst plans)
       else if tool = None
       then andThen (unknown_tool env opts tokens call) (\<lambda>(content, msg).
            andThen (run_plans env opts dir (tokens + message_cost env msg) plans)
              (\<lambda>b. give (batch_cons msg (overflow_of call msg content) b)))
       else andThen (session_emit env (EvToolStarted (ac_ID call) (ac_Name call) dir (ac_Arguments call))) (\<lambda>_.
            andThen (attempt (registry_Execute env call dir)) (\<lambda>outcome.
            andThen (settle_call env opts dir tokens call outcome) (\<lambda>(content, msg).
            andThen (ctx_Err env) (\<lambda>c.
            andThen (if c \<noteq> None then cancel_batch env (map fst plans)
                     else run_plans env opts dir (tokens + message_cost env msg) plans)
              (\<lambda>b. give (batch_cons msg (overflow_of call msg content) b)))))))"

definition executeToolCalls :: "env \<Rightarrow> run_options \<Rightarrow> api_message list \<Rightarrow> api_call list \<Rightarrow> batch act" where
  "executeToolCalls env opts messages calls =
     (let tokens = estimateRunPromptTokens env opts messages
      in andThen (currentWorkingDir env) (\<lambda>dir s.
        (let plans = map (\<lambda>call. (call, registry_Get (se_Tools s) (ac_Name call))) calls;
             request = approval_request s calls
         in if request = [] then run_plans env opts dir tokens plans s
            else andThen (attempt (authorizeToolCalls env request)) (\<lambda>answer.
              (case answer of
                 Inl e \<Rightarrow> andThen (ctx_Err env) (\<lambda>c. if c \<noteq> None then cancel_batch env calls else fail e)
               | Inr result \<Rightarrow>
                   if \<not> ap_Allow result
                   then deniedToolCalls env opts (if ap_Reason result = [] then ''Tool execution denied.'' else ap_Reason result)
                          tokens calls
                   else run_plans env opts dir tokens plans)) s)))"

section \<open>A round of the model\<close>

definition messageEmpty :: "api_message \<Rightarrow> bool" where
  "messageEmpty m \<longleftrightarrow> am_Content m = [] \<and> am_Thinking m = [] \<and> am_ToolCalls m = []"

definition buildChatRequest :: "run_options \<Rightarrow> api_message list \<Rightarrow> string list \<Rightarrow> run_request" where
  "buildChatRequest opts messages tools =
     \<lparr>rr_Model = ro_Model opts,
      rr_Messages = (if trim_space (ro_SystemPrompt opts) \<noteq> [] then [plain_message ''system'' (ro_SystemPrompt opts)] else [])
        @ sanitizeMessagesForRequest messages,
      rr_Format = (if ro_Format opts = ''json'' then [CHR 0x22] @ ro_Format opts @ [CHR 0x22] else ro_Format opts),
      rr_Options = ro_Options opts, rr_Think = ro_Think opts, rr_Tools = tools\<rparr>"

definition emit_if :: "bool \<Rightarrow> env \<Rightarrow> event \<Rightarrow> unit act" where
  "emit_if b env ev = (if b then session_emit env ev else give ())"

text \<open>
  The responses of a stream, received one by one: the message so far, the latest response, and
  the error of a sink that ended the stream.
\<close>

fun receive :: "env \<Rightarrow> chat_response list \<Rightarrow> api_message \<Rightarrow> chat_response \<Rightarrow> session
    \<Rightarrow> (api_message \<times> chat_response \<times> go_error option) \<times> session" where
  "receive env [] assistant latest s = ((assistant, latest, None), s)"
| "receive env (response # rs) assistant latest s =
     (let m = cr_Message response;
          a0 = (if am_Role m \<noteq> [] then assistant\<lparr>am_Role := am_Role m\<rparr> else assistant)
      in if messageEmpty m then receive env rs a0 response s
         else
           (let a1 = a0\<lparr>am_Thinking := am_Thinking a0 @ am_Thinking m\<rparr>
            in case emit_if (am_Thinking m \<noteq> []) env (EvThinkingDelta (am_Thinking m)) s of
                 (Inl e, s1) \<Rightarrow> ((a1, latest, Some e), s1)
               | (Inr _, s1) \<Rightarrow>
                   (let a2 = a1\<lparr>am_Content := am_Content a1 @ am_Content m\<rparr>
                    in case emit_if (am_Content m \<noteq> []) env (EvMessageDelta (am_Content m)) s1 of
                         (Inl e, s2) \<Rightarrow> ((a2, latest, Some e), s2)
                       | (Inr _, s2) \<Rightarrow>
                           (let a3 = a2\<lparr>am_ToolCalls := am_ToolCalls a2 @ am_ToolCalls m\<rparr>
                            in case emit_if (am_ToolCalls m \<noteq> []) env (EvToolCallDetected (am_ToolCalls m)) s2 of
                                 (Inl e, s3) \<Rightarrow> ((a3, latest, Some e), s3)
                               | (Inr _, s3) \<Rightarrow> receive env rs a3 response s3))))"

definition isContextCanceledError :: "env \<Rightarrow> go_error \<Rightarrow> bool act" where
  "isContextCanceledError env e =
     (if ge_canceled e then give True
      else andThen (ctx_Err env) (\<lambda>c. give (c = Some Canceled \<and> contains (ge_text e) ''context canceled'')))"

text \<open>
  The latest response is kept on every path.  The calls that wait are those of the message: the
  code collects both from the same responses.
\<close>

definition chatRound :: "env \<Rightarrow> run_options \<Rightarrow> api_message list \<Rightarrow> chat_response \<Rightarrow> session
    \<Rightarrow> (chat_response \<times> (go_error + (api_message \<times> bool))) \<times> session" where
  "chatRound env opts messages latest s =
     (let tools = (if se_DisableTools s then [] else availableTools s);
          req = buildChatRequest opts messages tools;
          (rs, e) = en_chat env (se_log s) req;
          ((assistant, latest', e'), s1) = receive env rs (plain_message ''assistant'' []) latest (logged (Chatted req) s)
      in case (if e' = None then e else e') of
           None \<Rightarrow> ((latest', Inr (assistant, False)), s1)
         | Some x \<Rightarrow>
             (case isContextCanceledError env x s1 of
                (Inr True, s2) \<Rightarrow> ((latest', Inr (assistant, True)), s2)
              | (_, s2) \<Rightarrow> ((latest', Inl x), s2)))"

section \<open>Compaction in a run\<close>

definition CompactionSkippedMessage :: "string \<Rightarrow> string" where
  "CompactionSkippedMessage reason =
     (let r = trim_space reason in if r = [] then ''compaction could not run'' else r)"

definition compactionRequest :: "run_options \<Rightarrow> api_message list \<Rightarrow> chat_response \<Rightarrow> compaction_request" where
  "compactionRequest opts messages latest =
     \<lparr>rq_SystemPrompt = ro_SystemPrompt opts, rq_Messages = messages, rq_Format = ro_Format opts,
      rq_LatestPromptEvalCount = mt_PromptEvalCount (cr_Metrics latest), rq_Options = ro_Options opts,
      rq_Force = False, rq_ContinueTask = True, rq_KeepUserTurns = None, rq_Think = ro_Think opts\<rparr>"

definition prompt_budget_error :: "string \<Rightarrow> string \<Rightarrow> int \<Rightarrow> int \<Rightarrow> go_error" where
  "prompt_budget_error before after estimated window =
     plain_error (before @ '' (~'' @ show_int estimated @ ''/'' @ show_int window @ '' tokens). '' @ after)"

definition check_budget :: "env \<Rightarrow> run_options \<Rightarrow> api_message list \<Rightarrow> string \<Rightarrow> string \<Rightarrow> go_error option" where
  "check_budget env opts messages before after =
     (let window = run_window env opts; estimated = estimateRunPromptTokens env opts messages
      in if window \<le> 0 \<or> estimated < window then None else Some (prompt_budget_error before after estimated window))"

definition checkPreflightPromptBudget :: "env \<Rightarrow> run_options \<Rightarrow> api_message list \<Rightarrow> go_error option" where
  "checkPreflightPromptBudget env opts messages =
     check_budget env opts messages ''prompt is too large for the current context''
       ''Reduce the system prompt or message history, compact the conversation, or use a model with a larger context''"

definition checkPostCompactionPromptBudget :: "env \<Rightarrow> run_options \<Rightarrow> api_message list \<Rightarrow> go_error option" where
  "checkPostCompactionPromptBudget env opts messages =
     check_budget env opts messages ''history is still too large after compaction''
       ''Start a fresh request, reduce the system prompt or history, or use a model with a larger context''"

text \<open>The messages after a compaction, whether a skip was reported, and an error.\<close>

type_synonym compacted = "api_message list \<times> bool \<times> go_error option"

definition skip_compaction :: "env \<Rightarrow> api_message list \<Rightarrow> bool \<Rightarrow> string \<Rightarrow> compaction_result \<Rightarrow> compacted act" where
  "skip_compaction env messages skipNotified trigger result =
     (if rs_Due result \<and> \<not> skipNotified
      then andThen (emit_only env (EvCompactionSkipped trigger (CompactionSkippedMessage (rs_Reason result))))
             (\<lambda>_. give (messages, True, None))
      else give (messages, skipNotified, None))"

definition ask_compactor :: "compactor \<Rightarrow> compaction_request \<Rightarrow> (compaction_result \<times> go_error option) act" where
  "ask_compactor c req s = (Inr (cm_MaybeCompact c (se_log s) req), logged (CompactorAsked req) s)"

definition maybeCompact :: "env \<Rightarrow> run_options \<Rightarrow> api_message list \<Rightarrow> chat_response \<Rightarrow> bool \<Rightarrow> compacted act" where
  "maybeCompact env opts messages latest skipNotified =
     (case en_Compactor env of
        None \<Rightarrow> give (messages, skipNotified, None)
      | Some c \<Rightarrow>
          (let req = compactionRequest opts messages latest;
               trigger = (case cm_ShouldCompact c req of None \<Rightarrow> [] | Some t \<Rightarrow> t)
           in andThen (if trigger \<noteq> [] then emit_only env (EvCompactionStarted trigger) else give ()) (\<lambda>_.
              andThen (ask_compactor c req) (\<lambda>(result, e).
              if e \<noteq> None
              then skip_compaction env messages skipNotified (if trigger = [] then ''error'' else trigger) result
              else if \<not> rs_Compacted result
              then skip_compaction env messages skipNotified (if trigger = [] then ''due'' else trigger) result
              else andThen (emit_only env (EvCompacted (rs_Messages result) trigger (rs_Summary result)))
                     (\<lambda>_. give (rs_Messages result, skipNotified,
                        checkPostCompactionPromptBudget env opts (rs_Messages result)))))))"

text \<open>The tool messages of the batch again, each with its full content where it was left out.\<close>

fun refit :: "env \<Rightarrow> run_options \<Rightarrow> overflow list \<Rightarrow> int \<Rightarrow> api_message list \<Rightarrow> api_message list" where
  "refit env opts overflows tokens [] = []"
| "refit env opts overflows tokens (m # ms) =
     (let found = find (\<lambda>ov. ov_toolCallID ov = am_ToolCallID m) (rev overflows);
          content = (case found of None \<Rightarrow> am_Content m | Some ov \<Rightarrow> ov_content ov);
          toolName = (case found of None \<Rightarrow> am_ToolName m
            | Some ov \<Rightarrow> if ov_toolName ov \<noteq> [] then ov_toolName ov else am_ToolName m);
          r = toolMessageForPostCompactionContext env opts toolName (am_ToolCallID m) content tokens
      in r # refit env opts overflows (tokens + message_cost env r) ms)"

definition compactForToolOutputOverflow ::
  "env \<Rightarrow> run_options \<Rightarrow> api_message list \<Rightarrow> chat_response \<Rightarrow> api_message \<Rightarrow> api_message list \<Rightarrow> overflow list \<Rightarrow> bool
   \<Rightarrow> compacted act" where
  "compactForToolOutputOverflow env opts messages latest assistant toolMessages overflows skipNotified =
     (case en_Compactor env of
        None \<Rightarrow> give (messages, skipNotified, None)
      | Some c \<Rightarrow>
          (let req = (compactionRequest opts messages latest)\<lparr>rq_Force := True, rq_KeepUserTurns := Some 0\<rparr>
           in andThen (emit_only env (EvCompactionStarted ''tool_output'')) (\<lambda>_.
              andThen (ask_compactor c req) (\<lambda>(result, e).
              if e \<noteq> None \<or> \<not> rs_Compacted result
              then skip_compaction env messages skipNotified ''tool_output'' result
              else
                (let base = rs_Messages result @ (if messageEmpty assistant then [] else [assistant]);
                     ms = base @ refit env opts overflows (estimateRunPromptTokens env opts base) toolMessages
                 in andThen (emit_only env (EvCompacted ms ''tool_output'' (rs_Summary result)))
                      (\<lambda>_. give (ms, skipNotified, checkPostCompactionPromptBudget env opts ms)))))))"

section \<open>The run\<close>

datatype run_phase = PhaseModel | PhaseTools | PhaseCompact | PhaseDone

record run_finish =
  fi_status :: string
  fi_ignoreCanceled :: bool
  fi_err :: "go_error option"

record run_state =
  rt_phase :: run_phase
  rt_messages :: "api_message list"
  rt_latest :: chat_response
  rt_assistant :: api_message
  rt_canceled :: bool
  rt_toolBatch :: "batch option"
  rt_consecutiveModelErrors :: int
  rt_toolRounds :: int
  rt_maxToolRounds :: int
  rt_skipNotified :: bool
  rt_finish :: run_finish

definition finishWith :: "string \<Rightarrow> bool \<Rightarrow> go_error option \<Rightarrow> run_state \<Rightarrow> run_state" where
  "finishWith status ignoreCanceled err st =
     st\<lparr>rt_finish := \<lparr>fi_status = status, fi_ignoreCanceled = ignoreCanceled, fi_err = err\<rparr>, rt_phase := PhaseDone\<rparr>"

definition finishDone :: "run_state \<Rightarrow> run_state" where
  "finishDone = finishWith ''done'' False None"

definition finishDenied :: "run_state \<Rightarrow> run_state" where
  "finishDenied = finishWith ''denied'' False None"

definition finishCanceled :: "run_state \<Rightarrow> run_state" where
  "finishCanceled = finishWith ''canceled'' True None"

definition finishError :: "go_error \<Rightarrow> run_state \<Rightarrow> run_state" where
  "finishError e = finishWith [] False (Some e)"

text \<open>An error is reported to the sinks, whatever they say, and returned.\<close>

definition or_report :: "env \<Rightarrow> 'a act \<Rightarrow> 'a act" where
  "or_report env f s =
     (case f s of
        (Inl e, s1) \<Rightarrow> (Inl e, snd (session_emit env (EvError (ge_text e)) s1))
      | (Inr x, s1) \<Rightarrow> (Inr x, s1))"

definition retry_message :: "string \<Rightarrow> api_message" where
  "retry_message e = plain_message ''user''
     (''Your previous response caused an error: '' @ e @ newlines @ ''Please try again with a valid response.'')"

definition limit_text :: "int \<Rightarrow> string" where
  "limit_text n = ''Tool execution skipped because the max tool-round limit of '' @ show_int n
     @ '' was reached. Send another message to continue.''"

definition limit_error :: "int \<Rightarrow> go_error" where
  "limit_error n = plain_error (''tool round limit reached after '' @ show_int n @ '' rounds; send another message to continue'')"

text \<open>What follows on an answer of the model; the calls that wait are those of the message.\<close>

definition after_answer :: "env \<Rightarrow> run_options \<Rightarrow> run_state \<Rightarrow> run_state act" where
  "after_answer env opts st s =
     (let calls = am_ToolCalls (rt_assistant st)
      in if calls = [] then give (st\<lparr>rt_toolBatch := None, rt_phase := PhaseCompact\<rparr>) s
         else if rt_canceled st
         then andThen (or_report env (skipToolCalls env canceled_text calls))
                (\<lambda>skipped. give (finishCanceled (st\<lparr>rt_messages := rt_messages st @ skipped\<rparr>))) s
         else if se_DisableTools s
         then andThen (or_report env (disabledToolCalls env opts (estimateRunPromptTokens env opts (rt_messages st)) calls))
                (\<lambda>b. give (st\<lparr>rt_messages := rt_messages st @ ba_messages b, rt_toolBatch := Some b, rt_phase := PhaseCompact\<rparr>)) s
         else if se_Tools s = None then give (finishDone st) s
         else if rt_maxToolRounds st \<ge> 0 \<and> rt_toolRounds st \<ge> rt_maxToolRounds st
         then andThen (or_report env (skipToolCalls env (limit_text (rt_maxToolRounds st)) calls))
                (\<lambda>ms. andThen (emit_only env (EvError (ge_text (limit_error (rt_maxToolRounds st)))))
                  (\<lambda>_. give (finishError (limit_error (rt_maxToolRounds st)) (st\<lparr>rt_messages := rt_messages st @ ms\<rparr>)))) s
         else give (st\<lparr>rt_phase := PhaseTools\<rparr>) s)"

definition runModelStep :: "env \<Rightarrow> run_options \<Rightarrow> run_state \<Rightarrow> run_state act" where
  "runModelStep env opts st s =
     (let ((latest, outcome), s1) = chatRound env opts (rt_messages st) (rt_latest st) s;
          st1 = st\<lparr>rt_latest := latest\<rparr>
      in case outcome of
           Inl e \<Rightarrow>
             (case ge_status e of
                Some (code, text) \<Rightarrow>
                  if code \<ge> 500 \<and> rt_consecutiveModelErrors st < 2
                  then give (st1\<lparr>rt_consecutiveModelErrors := rt_consecutiveModelErrors st + 1,
                               rt_messages := rt_messages st @ [retry_message text]\<rparr>) s1
                  else or_report env (fail e) s1
              | None \<Rightarrow> or_report env (fail e) s1)
         | Inr (assistant, canceled) \<Rightarrow>
             after_answer env opts
               (st1\<lparr>rt_consecutiveModelErrors := 0, rt_assistant := assistant, rt_canceled := canceled,
                  rt_messages := rt_messages st @ (if messageEmpty assistant then [] else [assistant])\<rparr>) s1)"

definition runToolStep :: "env \<Rightarrow> run_options \<Rightarrow> run_state \<Rightarrow> run_state act" where
  "runToolStep env opts st =
     andThen (or_report env (executeToolCalls env opts (rt_messages st) (am_ToolCalls (rt_assistant st))))
       (\<lambda>b. give (st\<lparr>rt_messages := rt_messages st @ ba_messages b, rt_toolBatch := Some b, rt_phase := PhaseCompact\<rparr>))"

definition next_round :: "run_state \<Rightarrow> run_state" where
  "next_round st = st\<lparr>rt_toolRounds := rt_toolRounds st + 1, rt_assistant := plain_message [] [], rt_toolBatch := None,
     rt_phase := PhaseModel\<rparr>"

definition runCompactionStep :: "env \<Rightarrow> run_options \<Rightarrow> run_state \<Rightarrow> run_state act" where
  "runCompactionStep env opts st =
     andThen
       (case rt_toolBatch st of
          Some b \<Rightarrow>
            if ba_overflows b \<noteq> []
            then compactForToolOutputOverflow env opts (rt_messages st) (rt_latest st) (rt_assistant st) (ba_messages b)
                   (ba_overflows b) (rt_skipNotified st)
            else maybeCompact env opts (rt_messages st) (rt_latest st) (rt_skipNotified st)
        | None \<Rightarrow> maybeCompact env opts (rt_messages st) (rt_latest st) (rt_skipNotified st))
       (\<lambda>(ms, notified, err).
          let st1 = st\<lparr>rt_messages := ms, rt_skipNotified := notified\<rparr>
          in case err of
               Some e \<Rightarrow> andThen (emit_only env (EvError (ge_text e))) (\<lambda>_. give (finishError e st1))
             | None \<Rightarrow>
                 give (case rt_toolBatch st of
                         None \<Rightarrow> if rt_canceled st then finishCanceled st1 else finishDone st1
                       | Some b \<Rightarrow>
                           (case ba_stop b of
                              BatchDenied \<Rightarrow> finishDenied st1
                            | BatchCanceled \<Rightarrow> finishCanceled st1
                            | NotStopped \<Rightarrow> next_round st1)))"

record run_result =
  re_Messages :: "api_message list"
  re_Latest :: chat_response
  re_WorkingDir :: string

definition finishRun :: "env \<Rightarrow> run_state \<Rightarrow> (run_result \<times> go_error option) act" where
  "finishRun env st =
     andThen (if fi_status (rt_finish st) = [] then give ()
              else if fi_ignoreCanceled (rt_finish st) then emitIgnoringCanceled env (EvRunFinished (fi_status (rt_finish st)))
              else session_emit env (EvRunFinished (fi_status (rt_finish st))))
       (\<lambda>_ s. (Inr (\<lparr>re_Messages = rt_messages st, re_Latest = rt_latest st, re_WorkingDir = se_WorkingDir s\<rparr>,
                  fi_err (rt_finish st)), s))"

text \<open>The loop over the phases; \<^term>\<open>None\<close> when the steps allowed are used up.\<close>

definition run_step :: "env \<Rightarrow> run_options \<Rightarrow> run_state \<Rightarrow> run_state act" where
  "run_step env opts st =
     (case rt_phase st of
        PhaseModel \<Rightarrow> runModelStep env opts st
      | PhaseTools \<Rightarrow> runToolStep env opts st
      | PhaseCompact \<Rightarrow> runCompactionStep env opts st
      | PhaseDone \<Rightarrow> give st)"

fun agent_loop :: "nat \<Rightarrow> env \<Rightarrow> run_options \<Rightarrow> run_state \<Rightarrow> session
    \<Rightarrow> ((go_error + (run_result \<times> go_error option)) \<times> session) option" where
  "agent_loop 0 env opts st s = None"
| "agent_loop (Suc n) env opts st s =
     (if rt_phase st = PhaseDone then Some (finishRun env st s)
      else (case run_step env opts st s of
              (Inl e, s1) \<Rightarrow> Some (Inl e, s1)
            | (Inr st1, s1) \<Rightarrow> agent_loop n env opts st1 s1))"

definition resolvedMaxToolRounds :: "string \<Rightarrow> int \<Rightarrow> int" where
  "resolvedMaxToolRounds model value =
     (if value \<noteq> 0 then value else if HasExplicitCloudSource model then - 1 else 100)"

definition validateRun :: "run_options \<Rightarrow> go_error option" where
  "validateRun opts = (if ro_Model opts = [] then Some (plain_error ''agent session requires a model'') else None)"

definition buildRunMessages :: "env \<Rightarrow> run_options \<Rightarrow> api_message list act" where
  "buildRunMessages env opts =
     (let messages = map sanitizeMessageForRun (ro_Messages opts) @ map sanitizeMessageForRun (ro_NewMessages opts)
      in case checkPreflightPromptBudget env opts messages of
           Some e \<Rightarrow> or_report env (fail e)
         | None \<Rightarrow> give messages)"

text \<open>
  A skill that the user names: a call and its answer in the history, as if the model had made
  it.  \<open>en_skill\<close> loads the skill and gives its name and content.
\<close>

definition activateSkill :: "env \<Rightarrow> run_options \<Rightarrow> api_message list act" where
  "activateSkill env opts =
     (let name = trim_space (ro_SkillName opts)
      in if name = [] then give []
         else andThen (ctx_Err env) (\<lambda>c.
           case c of
             Some e \<Rightarrow> fail \<lparr>ge_text = (if e = Canceled then ''context canceled'' else ''context deadline exceeded''),
                          ge_status = None, ge_canceled = (e = Canceled)\<rparr>
           | None \<Rightarrow>
               (case en_skill env name of
                  Inl e \<Rightarrow> fail e
                | Inr (skill, content) \<Rightarrow>
                    (let args = arguments_Set ''name'' (JString skill) newArguments;
                         call = \<lparr>ac_ID = ''call_skill_'' @ en_uuid env, ac_Index = 0, ac_Name = ''skill'', ac_Arguments = args\<rparr>;
                         result = (plain_message ''tool'' content)\<lparr>am_ToolName := ''skill'', am_ToolCallID := ac_ID call\<rparr>
                     in andThen (session_emit env (EvToolCallDetected [call])) (\<lambda>_.
                        andThen (currentWorkingDir env) (\<lambda>dir.
                        andThen (session_emit env (EvToolStarted (ac_ID call) ''skill'' dir args)) (\<lambda>_.
                        andThen (currentWorkingDir env) (\<lambda>dir'.
                        andThen (emitIgnoringCanceled env (EvToolFinished ''done'' (ac_ID call) ''skill'' dir' args content [])) (\<lambda>_.
                        give [(plain_message ''assistant'' [])\<lparr>am_ToolCalls := [call]\<rparr>, result])))))))))"

definition zero_response :: chat_response where
  "zero_response = \<lparr>cr_Model = [], cr_Message = plain_message [] [], cr_Done = False, cr_DoneReason = [],
     cr_Metrics = \<lparr>mt_PromptEvalCount = 0, mt_PromptEvalCachedCount = None, mt_EvalCount = 0\<rparr>\<rparr>"

definition start_state :: "run_options \<Rightarrow> api_message list \<Rightarrow> run_state" where
  "start_state opts messages =
     \<lparr>rt_phase = PhaseModel, rt_messages = messages, rt_latest = zero_response, rt_assistant = plain_message [] [],
      rt_canceled = False, rt_toolBatch = None, rt_consecutiveModelErrors = 0, rt_toolRounds = 0,
      rt_maxToolRounds = resolvedMaxToolRounds (ro_Model opts) (ro_MaxToolRounds opts), rt_skipNotified = False,
      rt_finish = \<lparr>fi_status = [], fi_ignoreCanceled = False, fi_err = None\<rparr>\<rparr>"

text \<open>The messages of a run before its first round.\<close>

definition start_messages :: "env \<Rightarrow> run_options \<Rightarrow> api_message list act" where
  "start_messages env opts =
     (case validateRun opts of
        Some e \<Rightarrow> fail e
      | None \<Rightarrow>
          andThen (buildRunMessages env opts) (\<lambda>messages.
          andThen (or_report env (activateSkill env opts)) (\<lambda>activated.
          if activated = [] then give messages
          else (case checkPreflightPromptBudget env opts (messages @ activated) of
                  Some e \<Rightarrow> or_report env (fail e)
                | None \<Rightarrow> give (messages @ activated)))))"

definition Run :: "nat \<Rightarrow> env \<Rightarrow> run_options \<Rightarrow> session
    \<Rightarrow> ((go_error + (run_result \<times> go_error option)) \<times> session) option" where
  "Run n env opts s =
     (case start_messages env opts s of
        (Inl e, s1) \<Rightarrow> Some (Inl e, s1)
      | (Inr messages, s1) \<Rightarrow> agent_loop n env opts (start_state opts messages) s1)"

section \<open>The simple compactor in a session\<close>

definition as_compactor ::
  "(string \<Rightarrow> string) \<Rightarrow> (api_message list \<Rightarrow> string + string) \<Rightarrow> estimator \<Rightarrow> (action list \<Rightarrow> summary_chat) \<Rightarrow> simple_compactor
   \<Rightarrow> compactor" where
  "as_compactor lower marshal es chat c =
     \<lparr>cm_MaybeCompact = (\<lambda>h. MaybeCompact lower marshal es (chat h) c),
      cm_ShouldCompact = ShouldCompact es c,
      cm_window = contextWindowTokens c,
      cm_threshold = (\<lambda>options. co_scale c (contextWindowTokens c options))\<rparr>"

end
