(* ===== verification/AgentSafety.thy ===== *)
theory AgentSafety
  imports AgentRun
begin

text \<open>
  What a run may execute: the log of a session is followed through every step, and each
  execution in it is matched with the permission it needs.
\<close>

section \<open>Quiet steps\<close>

text \<open>
  Most steps only report, ask the context or read: they change no permission and execute,
  prompt and chat nothing.
\<close>

fun quiet_action :: "action \<Rightarrow> bool" where
  "quiet_action (Executed call dir) = False"
| "quiet_action (Prompted calls answer) = False"
| "quiet_action (Chatted req) = False"
| "quiet_action a = True"

definition quietly :: "session \<Rightarrow> session \<Rightarrow> bool" where
  "quietly s s' \<longleftrightarrow> se_Tools s' = se_Tools s \<and> se_DisableTools s' = se_DisableTools s \<and> se_prompter s' = se_prompter s
     \<and> se_ApprovalState s' = se_ApprovalState s \<and> (\<exists>b. se_log s' = se_log s @ b \<and> (\<forall>a \<in> set b. quiet_action a))"

definition quiet_act :: "'a act \<Rightarrow> bool" where
  "quiet_act f \<longleftrightarrow> (\<forall>s. quietly s (snd (f s)))"

named_theorems quiet_rules

lemma quietly_refl [simp, intro]: "quietly s s"
  by (simp add: quietly_def)

lemma quietly_trans: "quietly s t \<Longrightarrow> quietly t u \<Longrightarrow> quietly s u"
  unfolding quietly_def by force

lemma quietly_logged: "quiet_action a \<Longrightarrow> quietly s (logged a s)"
  by (simp add: quietly_def logged_def)

lemma quietly_dir: "quietly s (s\<lparr>se_WorkingDir := d\<rparr>)"
  by (simp add: quietly_def)

lemma quietD: "quiet_act f \<Longrightarrow> f s = (r, s') \<Longrightarrow> quietly s s'"
  by (metis quiet_act_def snd_conv)

lemma quietI: "(\<And>s r s'. f s = (r, s') \<Longrightarrow> quietly s s') \<Longrightarrow> quiet_act f"
  unfolding quiet_act_def by (metis prod.collapse)

lemma quiet_give [quiet_rules]: "quiet_act (give x)"
  by (simp add: quiet_act_def give_def)

lemma quiet_fail [quiet_rules]: "quiet_act (fail e)"
  by (simp add: quiet_act_def fail_def)

lemma quiet_andThen [quiet_rules]:
  assumes "quiet_act f" and "\<And>x. quiet_act (g x)" shows "quiet_act (andThen f g)"
proof (rule quietI)
  fix s r s' assume r: "andThen f g s = (r, s')"
  obtain x s1 where f: "f s = (x, s1)" by fastforce
  show "quietly s s'"
  proof (cases x)
    case (Inl e)
    with r f quietD[OF assms(1) f] show ?thesis by (simp add: andThen_def)
  next
    case (Inr v)
    with r f have "g v s1 = (r, s')" by (simp add: andThen_def)
    from quietly_trans[OF quietD[OF assms(1) f] quietD[OF assms(2) this]] show ?thesis .
  qed
qed

lemma quiet_if [quiet_rules]: "(b \<Longrightarrow> quiet_act f) \<Longrightarrow> (\<not> b \<Longrightarrow> quiet_act g) \<Longrightarrow> quiet_act (if b then f else g)"
  by simp

lemma quiet_choice: "quiet_act f \<Longrightarrow> quiet_act g \<Longrightarrow> quiet_act (\<lambda>s. if b s then f s else g s)"
  by (simp add: quiet_act_def)

lemma quiet_emit [quiet_rules]: "quiet_act (session_emit env ev)"
  by (simp add: quiet_act_def session_emit_def quietly_logged split: option.splits)

lemma quiet_emit_only [quiet_rules]: "quiet_act (emit_only env ev)"
  using quiet_emit by (simp add: quiet_act_def emit_only_def)

lemma quiet_ctx [quiet_rules]: "quiet_act (ctx_Err env)"
  by (simp add: quiet_act_def ctx_Err_def Let_def quietly_logged)

lemma quiet_emitIgnoring [quiet_rules]: "quiet_act (emitIgnoringCanceled env ev)"
proof (rule quietI)
  fix s r s' assume r: "emitIgnoringCanceled env ev s = (r, s')"
  obtain x s1 where f: "session_emit env ev s = (x, s1)" by fastforce
  note q = quietD[OF quiet_emit f]
  show "quietly s s'"
  proof (cases x)
    case (Inl e)
    have h: "quiet_act (andThen (ctx_Err env) (\<lambda>c. if c \<noteq> None then give () else fail e))" by (intro quiet_rules)
    have "andThen (ctx_Err env) (\<lambda>c. if c \<noteq> None then give () else fail e) s1 = (r, s')"
      using r f Inl by (simp add: emitIgnoringCanceled_def)
    from quietly_trans[OF q quietD[OF h this]] show ?thesis .
  next
    case (Inr u)
    with r f q show ?thesis by (simp add: emitIgnoringCanceled_def)
  qed
qed

lemma quiet_report [quiet_rules]:
  assumes "quiet_act f" shows "quiet_act (or_report env f)"
proof (rule quietI)
  fix s r s' assume r: "or_report env f s = (r, s')"
  obtain x s1 where f: "f s = (x, s1)" by fastforce
  note q = quietD[OF assms f]
  have e: "quietly s1 (snd (session_emit env ev s1))" for ev using quiet_emit by (simp add: quiet_act_def)
  show "quietly s s'" using r f q quietly_trans[OF q e] by (cases x) (auto simp: or_report_def)
qed

lemma quiet_attempt [quiet_rules]: "quiet_act f \<Longrightarrow> quiet_act (attempt f)"
  by (rule quietI) (auto simp: attempt_def dest: quietD split: prod.splits)

lemma quiet_currentWorkingDir [quiet_rules]: "quiet_act (currentWorkingDir env)"
  by (simp add: quiet_act_def currentWorkingDir_def quietly_dir split: option.splits)

lemma quiet_applyToolWorkingDir [quiet_rules]: "quiet_act (applyToolWorkingDir env d)"
proof -
  have "quiet_act (\<lambda>s. case en_canonical env (se_log s) n of None \<Rightarrow> (Inr False, s)
      | Some a \<Rightarrow> if current = a then (Inr False, s) else (Inr True, s\<lparr>se_WorkingDir := a\<rparr>))" for n current
    by (simp add: quiet_act_def quietly_dir split: option.splits)
  then show ?thesis unfolding applyToolWorkingDir_def Let_def by (intro quiet_rules)
qed

lemma quiet_skip [quiet_rules]: "quiet_act (skipToolCalls env content calls)"
  by (induction calls) (simp_all add: quiet_rules Let_def)

lemma quiet_cancel [quiet_rules]: "quiet_act (cancel_batch env calls)"
  unfolding cancel_batch_def by (intro quiet_rules)

lemma quiet_disabled [quiet_rules]: "quiet_act (disabledToolCalls env opts tokens calls)"
  by (induction calls arbitrary: tokens) (simp_all add: quiet_rules Let_def)

lemma quiet_denied [quiet_rules]: "quiet_act (deniedToolCalls env opts content tokens calls)"
  by (induction calls arbitrary: tokens) (simp_all add: quiet_rules Let_def)

lemma quiet_ask [quiet_rules]: "quiet_act (ask_compactor c req)"
  by (simp add: quiet_act_def ask_compactor_def quietly_logged)

lemma quiet_skip_compaction [quiet_rules]: "quiet_act (skip_compaction env ms n t r)"
  unfolding skip_compaction_def by (intro quiet_rules)

lemma quiet_compaction [quiet_rules]:
  "quiet_act (maybeCompact env opts ms latest n)" "quiet_act (compactForToolOutputOverflow env opts ms latest a tms os n)"
  unfolding maybeCompact_def compactForToolOutputOverflow_def Let_def
  by (auto split: option.splits intro!: quiet_rules)

lemma quiet_compaction_step: "quiet_act (runCompactionStep env opts st)"
  unfolding runCompactionStep_def Let_def by (auto split: option.splits intro!: quiet_rules)

lemma quiet_after_answer: "quiet_act (after_answer env opts st)"
proof -
  have "quiet_act (\<lambda>s. after_answer env opts st s)"
    unfolding after_answer_def Let_def by (intro quiet_choice quiet_rules)
  then show ?thesis by simp
qed

lemma quiet_start: "quiet_act (start_messages env opts)"
  unfolding start_messages_def buildRunMessages_def activateSkill_def Let_def
  by (auto split: option.splits sum.splits intro!: quiet_rules)

lemma quiet_finish: "quiet_act (finishRun env st)"
  unfolding finishRun_def by (intro quiet_rules) (simp add: quiet_act_def)

section \<open>The runs of a session\<close>

text \<open>
  Where a run may be: at a state, or ended with an error or a result; every step of a run that
  goes on is included.
\<close>

inductive run_reaches :: "env \<Rightarrow> run_options \<Rightarrow> session \<Rightarrow> run_state option \<Rightarrow> session \<Rightarrow> bool" for env opts s0 where
  starts: "start_messages env opts s0 = (Inr ms, s) \<Longrightarrow> run_reaches env opts s0 (Some (start_state opts ms)) s"
| refused: "start_messages env opts s0 = (Inl e, s) \<Longrightarrow> run_reaches env opts s0 None s"
| steps: "run_reaches env opts s0 (Some st) s \<Longrightarrow> rt_phase st \<noteq> PhaseDone \<Longrightarrow> run_step env opts st s = (Inr st1, s1)
    \<Longrightarrow> run_reaches env opts s0 (Some st1) s1"
| breaks: "run_reaches env opts s0 (Some st) s \<Longrightarrow> rt_phase st \<noteq> PhaseDone \<Longrightarrow> run_step env opts st s = (Inl e, s1)
    \<Longrightarrow> run_reaches env opts s0 None s1"
| finishes: "run_reaches env opts s0 (Some st) s \<Longrightarrow> rt_phase st = PhaseDone \<Longrightarrow> finishRun env st s = (r, s1)
    \<Longrightarrow> run_reaches env opts s0 None s1"

lemma loop_reaches:
  "run_reaches env opts s0 (Some st) s \<Longrightarrow> agent_loop n env opts st s = Some (r, s1) \<Longrightarrow> run_reaches env opts s0 None s1"
proof (induction n arbitrary: st s)
  case (Suc n)
  show ?case
  proof (cases "rt_phase st = PhaseDone")
    case True
    with Suc.prems show ?thesis by (auto intro: finishes)
  next
    case False
    obtain x s2 where x: "run_step env opts st s = (x, s2)" by fastforce
    show ?thesis
    proof (cases x)
      case (Inl e)
      with x have "run_step env opts st s = (Inl e, s2)" by simp
      from breaks[OF Suc.prems(1) False this] Suc.prems(2) show ?thesis using False x Inl by auto
    next
      case (Inr st1)
      with x have "run_step env opts st s = (Inr st1, s2)" by simp
      from Suc.IH[OF steps[OF Suc.prems(1) False this]] Suc.prems(2) show ?thesis using False x Inr by auto
    qed
  qed
qed simp

lemma Run_reaches: "Run n env opts s0 = Some (r, s1) \<Longrightarrow> run_reaches env opts s0 None s1"
  by (auto simp: Run_def split: prod.splits sum.splits intro: refused dest: loop_reaches[OF starts])

section \<open>Permission\<close>

text \<open>The permissions after the answers of a log, and the answers that permit their batch.\<close>

definition granted :: "approval_state \<Rightarrow> action list \<Rightarrow> approval_state" where
  "granted a0 h = foldl (\<lambda>st a. case a of Prompted calls (Inr r) \<Rightarrow> snd (approval_Apply r st) | _ \<Rightarrow> st) a0 h"

definition says_yes :: "approval \<Rightarrow> bool" where
  "says_yes r \<longleftrightarrow> ap_Allow r \<or> ap_AllowAll r \<or> ap_AllowScopes r \<noteq> []"

definition permitted :: "registry option \<Rightarrow> approval_state \<Rightarrow> action list \<Rightarrow> api_call \<Rightarrow> bool" where
  "permitted tools a0 h call \<longleftrightarrow>
     (case registry_Get tools (ac_Name call) of
        None \<Rightarrow> False
      | Some tool \<Rightarrow>
          \<not> ToolRequiresApproval tool (ac_Arguments call)
          \<or> Allows (granted a0 h) (toolApprovalScope tool (ac_Name call) (ac_Arguments call))
          \<or> (\<exists>calls r. Prompted calls (Inr r) \<in> set h \<and> approval_entry tool call \<in> set calls \<and> says_yes r))"

definition lawful :: "registry option \<Rightarrow> approval_state \<Rightarrow> action list \<Rightarrow> bool" where
  "lawful tools a0 h \<longleftrightarrow> (\<forall>a call dir b. h = a @ Executed call dir # b \<longrightarrow> permitted tools a0 a call)"

lemma granted_append: "granted a0 (a @ b) = granted (granted a0 a) b"
  by (simp add: granted_def)

lemma granted_quiet: "\<forall>a \<in> set b. quiet_action a \<Longrightarrow> granted a0 b = a0"
proof (induction b)
  case (Cons a b)
  then have "granted a0 [a] = a0" by (cases a) (simp_all add: granted_def)
  with Cons granted_append[of a0 "[a]" b] show ?case by simp
qed (simp add: granted_def)

lemma approval_Apply_mono: "Allows st scope \<Longrightarrow> Allows (snd (approval_Apply r st)) scope"
  by (auto simp: approval_Apply_def Allows_def GrantScopes_def Let_def)

lemma granted_mono: "Allows a0 scope \<Longrightarrow> Allows (granted a0 h) scope"
proof (induction h arbitrary: a0)
  case (Cons a h)
  have "Allows (granted a0 [a]) scope"
    using Cons.prems approval_Apply_mono[OF Cons.prems] by (cases a) (auto simp: granted_def split: sum.splits)
  with Cons.IH granted_append[of a0 "[a]" h] show ?case by simp
qed (simp add: granted_def)

lemma permitted_mono: "permitted tools a0 h call \<Longrightarrow> permitted tools a0 (h @ b) call"
proof -
  assume p: "permitted tools a0 h call"
  then obtain tool where t: "registry_Get tools (ac_Name call) = Some tool" by (auto simp: permitted_def split: option.splits)
  have "Prompted calls (Inr r) \<in> set h \<Longrightarrow> Prompted calls (Inr r) \<in> set (h @ b)" for calls r by simp
  with p show ?thesis unfolding permitted_def t option.case granted_append using granted_mono by blast
qed

lemma lawful_snoc:
  "lawful tools a0 (h @ [a]) \<longleftrightarrow> lawful tools a0 h \<and> (\<forall>call dir. a = Executed call dir \<longrightarrow> permitted tools a0 h call)"
proof (intro iffI conjI allI impI)
  assume l: "lawful tools a0 (h @ [a])"
  show "lawful tools a0 h" unfolding lawful_def
  proof (intro allI impI)
    fix x call dir b assume "h = x @ Executed call dir # b"
    then have "h @ [a] = x @ Executed call dir # (b @ [a])" by simp
    with l show "permitted tools a0 x call" unfolding lawful_def by blast
  qed
  show "permitted tools a0 h call" if "a = Executed call dir" for call dir
    using l that unfolding lawful_def by blast
next
  assume l: "lawful tools a0 h \<and> (\<forall>call dir. a = Executed call dir \<longrightarrow> permitted tools a0 h call)"
  show "lawful tools a0 (h @ [a])" unfolding lawful_def
  proof (intro allI impI)
    fix x call dir b assume e: "h @ [a] = x @ Executed call dir # b"
    show "permitted tools a0 x call"
    proof (cases b rule: rev_cases)
      case Nil
      with e l show ?thesis by simp
    next
      case (snoc b' a')
      with e have "h = x @ Executed call dir # b'" by simp
      with l show ?thesis unfolding lawful_def by blast
    qed
  qed
qed

lemma lawful_quiet: "lawful tools a0 h \<Longrightarrow> \<forall>a \<in> set b. quiet_action a \<Longrightarrow> lawful tools a0 (h @ b)"
proof (induction b rule: rev_induct)
  case (snoc a b)
  then show ?case using lawful_snoc[of tools a0 "h @ b" a] by auto
qed simp

text \<open>The invariant of a session: its permissions are those of its log, and its log is lawful.\<close>

definition in_law :: "registry option \<Rightarrow> approval_state \<Rightarrow> session \<Rightarrow> bool" where
  "in_law tools a0 s \<longleftrightarrow> se_Tools s = tools \<and> se_ApprovalState s = granted a0 (se_log s) \<and> lawful tools a0 (se_log s)"

lemma quietly_in_law: "quietly s s' \<Longrightarrow> in_law tools a0 s \<Longrightarrow> in_law tools a0 s'"
  by (auto simp: quietly_def in_law_def granted_append granted_quiet lawful_quiet)

lemma quietly_permitted: "quietly s s' \<Longrightarrow> permitted tools a0 (se_log s) call \<Longrightarrow> permitted tools a0 (se_log s') call"
  by (auto simp: quietly_def permitted_mono)

text \<open>A step that starts where \<open>P\<close> holds and ends in the law.\<close>

definition lawfully :: "registry option \<Rightarrow> approval_state \<Rightarrow> (session \<Rightarrow> bool) \<Rightarrow> 'a act \<Rightarrow> bool" where
  "lawfully tools a0 P f \<longleftrightarrow> (\<forall>s. in_law tools a0 s \<and> P s \<longrightarrow> in_law tools a0 (snd (f s)))"

definition steady_pred :: "(session \<Rightarrow> bool) \<Rightarrow> bool" where
  "steady_pred P \<longleftrightarrow> (\<forall>s s'. quietly s s' \<and> P s \<longrightarrow> P s')"

lemma quiet_lawfully: "quiet_act f \<Longrightarrow> lawfully tools a0 P f"
  by (auto simp: lawfully_def quiet_act_def intro: quietly_in_law)

lemma lawfully_andThen:
  assumes "quiet_act f" and "steady_pred P" and "\<And>x. lawfully tools a0 P (g x)"
  shows "lawfully tools a0 P (andThen f g)"
  unfolding lawfully_def
proof (intro allI impI)
  fix s assume s: "in_law tools a0 s \<and> P s"
  obtain x s1 where f: "f s = (x, s1)" by fastforce
  have q: "in_law tools a0 s1 \<and> P s1" using quietD[OF assms(1) f] s assms(2) quietly_in_law unfolding steady_pred_def by blast
  show "in_law tools a0 (snd (andThen f g s))"
    using q assms(3) f by (cases x) (auto simp: andThen_def lawfully_def)
qed

lemma lawfully_then_quiet:
  assumes "lawfully tools a0 P f" and "\<And>x. quiet_act (g x)" shows "lawfully tools a0 P (andThen f g)"
  unfolding lawfully_def
proof (intro allI impI)
  fix s assume s: "in_law tools a0 s \<and> P s"
  obtain x s1 where f: "f s = (x, s1)" by fastforce
  have l: "in_law tools a0 s1" using assms(1) s f unfolding lawfully_def by (metis snd_conv)
  have "in_law tools a0 (snd (g v s1))" for v using assms(2) quietly_in_law[OF _ l] by (simp add: quiet_act_def)
  then show "in_law tools a0 (snd (andThen f g s))" using l f by (cases x) (auto simp: andThen_def)
qed

lemma lawfully_seq:
  assumes "\<And>s. in_law tools a0 s \<Longrightarrow> P s \<Longrightarrow> in_law tools a0 (snd (f s)) \<and> Q (snd (f s))"
    and "\<And>x. lawfully tools a0 Q (g x)"
  shows "lawfully tools a0 P (andThen f g)"
  unfolding lawfully_def
proof (intro allI impI)
  fix s assume s: "in_law tools a0 s \<and> P s"
  obtain x s1 where f: "f s = (x, s1)" by fastforce
  have "in_law tools a0 s1" "Q s1" using assms(1)[of s] s f by simp_all
  then show "in_law tools a0 (snd (andThen f g s))" using f assms(2) by (cases x) (auto simp: andThen_def lawfully_def)
qed

definition plans_permitted :: "registry option \<Rightarrow> approval_state \<Rightarrow> (api_call \<times> agent_tool option) list \<Rightarrow> session \<Rightarrow> bool" where
  "plans_permitted tools a0 plans s \<longleftrightarrow> (\<forall>(call, tool) \<in> set plans. tool \<noteq> None \<longrightarrow> permitted tools a0 (se_log s) call)"

lemma steady_plans: "steady_pred (plans_permitted tools a0 plans)"
  unfolding steady_pred_def plans_permitted_def using quietly_permitted by fastforce

lemma execute_in_law:
  assumes "in_law tools a0 s" and "plans_permitted tools a0 ((call, Some tool) # plans) s"
  shows "in_law tools a0 (snd (attempt (registry_Execute env call dir) s))
    \<and> plans_permitted tools a0 plans (snd (attempt (registry_Execute env call dir) s))"
proof (cases "registry_Get (se_Tools s) (ac_Name call)")
  case None
  then show ?thesis using assms by (simp add: attempt_def registry_Execute_def plans_permitted_def)
next
  case (Some t)
  let ?s = "logged (Executed call dir) s"
  have "granted a0 (se_log s @ [Executed call dir]) = granted a0 (se_log s)" by (simp add: granted_def)
  then have "in_law tools a0 ?s" using assms lawful_snoc[of tools a0 "se_log s" "Executed call dir"]
    by (simp add: in_law_def logged_def plans_permitted_def)
  moreover have "plans_permitted tools a0 plans ?s"
    using assms(2) permitted_mono by (fastforce simp: plans_permitted_def logged_def)
  ultimately show ?thesis using Some by (simp add: attempt_def registry_Execute_def)
qed

lemma quiet_unknown [quiet_rules]: "quiet_act (unknown_tool env opts tokens call)"
  unfolding unknown_tool_def Let_def by (intro quiet_rules)

lemma quiet_settle [quiet_rules]: "quiet_act (settle_call env opts dir tokens call outcome)"
proof (cases outcome)
  case (Inl e)
  then show ?thesis by (simp add: settle_call_def Let_def quiet_rules)
next
  case (Inr result)
  have "quiet_act (\<lambda>s. andThen (emitIgnoringCanceled env (ev (se_WorkingDir s))) (\<lambda>_. give x) s)"
    for ev :: "string \<Rightarrow> event" and x :: "string \<times> api_message"
  proof -
    have "quiet_act (andThen (emitIgnoringCanceled env (ev d)) (\<lambda>_. give x))" for d by (intro quiet_rules)
    then show ?thesis by (simp add: quiet_act_def)
  qed
  from this[of "\<lambda>d. EvToolFinished ''done'' (ac_ID call) (ac_Name call) (if m then d else dir) (ac_Arguments call) c []" for m c]
  show ?thesis unfolding settle_call_def Inr sum.case Let_def by (intro quiet_rules)
qed

text \<open>What remains of a batch after a call.\<close>

lemma rest_lawfully:
  assumes "\<And>tokens. lawfully tools a0 (plans_permitted tools a0 plans) (run_plans env opts dir tokens plans)"
  shows "lawfully tools a0 (plans_permitted tools a0 plans) (case x of (content, msg) \<Rightarrow> andThen (ctx_Err env) (\<lambda>c.
      andThen (if c \<noteq> None then cancel_batch env (map fst plans)
               else run_plans env opts dir (tokens + message_cost env msg) plans)
        (\<lambda>b. give (batch_cons msg (overflow_of call msg content) b))))"
proof (cases x)
  case (Pair content msg)
  have "lawfully tools a0 (plans_permitted tools a0 plans) (if c \<noteq> None then cancel_batch env (map fst plans)
      else run_plans env opts dir (tokens + message_cost env msg) plans)" for c :: "ctx_error option"
    using assms by (simp add: quiet_lawfully quiet_cancel)
  then show ?thesis unfolding Pair prod.case
    by (intro lawfully_andThen[OF quiet_ctx steady_plans] lawfully_then_quiet quiet_give)
qed

lemma run_plans_lawfully: "lawfully tools a0 (plans_permitted tools a0 plans) (run_plans env opts dir tokens plans)"
proof (induction plans arbitrary: tokens)
  case Nil
  show ?case by (simp add: quiet_lawfully quiet_rules)
next
  case (Cons p plans)
  obtain call tool where p: "p = (call, tool)" by fastforce
  have weak: "lawfully tools a0 (plans_permitted tools a0 (p # plans)) (run_plans env opts dir tokens plans)" for tokens
    using Cons.IH[of tokens] by (auto simp: lawfully_def plans_permitted_def)
  note tail = lawfully_andThen[OF quiet_settle steady_plans rest_lawfully[OF Cons.IH]]
  show ?case unfolding p run_plans.simps
  proof (rule lawfully_andThen[OF quiet_ctx steady_plans], goal_cases)
    case (1 c)
    consider "c \<noteq> None" | "c = None" "tool = None" | t where "c = None" "tool = Some t" by blast
    then show ?case
    proof cases
      case 1
      then show ?thesis by (simp add: quiet_lawfully quiet_rules)
    next
      case 2
      then show ?thesis using weak unfolding p
        by (auto intro!: lawfully_andThen[OF quiet_unknown steady_plans] lawfully_then_quiet quiet_give split: prod.splits)
    next
      case 3
      then show ?thesis
        by (simp only: not_True_eq_False option.distinct simp_thms if_False)
          (rule lawfully_andThen[OF quiet_emit steady_plans], rule lawfully_seq[OF execute_in_law tail]; assumption)
    qed
  qed
qed

lemma needed_or_allowed:
  assumes "in_law tools a0 s" and "registry_Get tools (ac_Name call) = Some tool"
    and "\<not> needsApproval s tool (ac_Name call) (ac_Arguments call)"
  shows "permitted tools a0 (se_log s) call"
  using assms by (auto simp: needsApproval_def permitted_def in_law_def)

lemma in_request:
  "call \<in> set calls \<Longrightarrow> registry_Get (se_Tools s) (ac_Name call) = Some tool \<Longrightarrow>
   needsApproval s tool (ac_Name call) (ac_Arguments call) \<Longrightarrow> approval_entry tool call \<in> set (approval_request s calls)"
  by (force simp: approval_request_def)

lemma allow_says_yes: "ap_Allow (fst (applyApproval r s)) \<Longrightarrow> says_yes r"
  by (auto simp: applyApproval_def approval_Apply_def says_yes_def Let_def split: if_splits)

lemma applyApproval_log [simp]:
  "se_log (snd (applyApproval r s)) = se_log s" "se_Tools (snd (applyApproval r s)) = se_Tools s"
  "se_ApprovalState (snd (applyApproval r s)) = snd (approval_Apply r (se_ApprovalState s))"
  by (simp_all add: applyApproval_def split: prod.splits)

lemma authorize_cases:
  assumes "authorizeToolCalls env q s = (x, s1)" and "q \<noteq> []"
  obtains (all) "AllGranted (se_ApprovalState s)" "s1 = s"
    | (none) "s1 = s" "\<forall>r. x = Inr r \<longrightarrow> \<not> ap_Allow r"
    | (err) e where "s1 = logged (Prompted q (Inl e)) s" "x = Inl e"
    | (ans) r0 where "s1 = snd (applyApproval r0 (logged (Prompted q (Inr r0)) s))"
        "x = Inr (fst (applyApproval r0 (logged (Prompted q (Inr r0)) s)))"
proof -
  consider "AllGranted (se_ApprovalState s)" | "\<not> AllGranted (se_ApprovalState s)" "\<not> se_prompter s"
    | e where "\<not> AllGranted (se_ApprovalState s)" "se_prompter s" "en_prompt env (se_log s) q = Inl e"
    | r0 where "\<not> AllGranted (se_ApprovalState s)" "se_prompter s" "en_prompt env (se_log s) q = Inr r0"
    by (metis sum.exhaust)
  then show thesis
  proof cases
    case 1
    with assms have "s1 = s" by (simp add: authorizeToolCalls_def)
    with 1 show thesis by (rule all)
  next
    case 2
    with assms have "s1 = s" "\<forall>r. x = Inr r \<longrightarrow> \<not> ap_Allow r" by (auto simp: authorizeToolCalls_def)
    then show thesis by (rule none)
  next
    case (3 e)
    with assms have "s1 = logged (Prompted q (Inl e)) s" "x = Inl e" by (auto simp: authorizeToolCalls_def Let_def)
    then show thesis by (rule err)
  next
    case (4 r0)
    let ?l = "logged (Prompted q (Inr r0)) s"
    from 4 assms have "s1 = snd (applyApproval r0 ?l)" "x = Inr (fst (applyApproval r0 ?l))"
      by (auto simp: authorizeToolCalls_def Let_def split_beta)
    then show thesis by (rule ans)
  qed
qed

lemma in_law_prompted:
  assumes "in_law tools a0 s"
  shows "in_law tools a0 (logged (Prompted q (Inl e)) s)" "in_law tools a0 (snd (applyApproval r (logged (Prompted q (Inr r)) s)))"
  using assms by (simp_all add: in_law_def logged_def lawful_snoc granted_append granted_def[of _ "[_]"])

lemma authorized:
  assumes "in_law tools a0 s" and "authorizeToolCalls env (approval_request s calls) s = (x, s1)" and "approval_request s calls \<noteq> []"
  shows "in_law tools a0 s1"
    and "x = Inr r \<Longrightarrow> ap_Allow r \<Longrightarrow> plans_permitted tools a0 (map (\<lambda>call. (call, registry_Get (se_Tools s) (ac_Name call))) calls) s1"
proof -
  show "in_law tools a0 s1" using assms(1) in_law_prompted by (cases rule: authorize_cases[OF assms(2,3)]) auto
  assume x: "x = Inr r" "ap_Allow r"
  have "permitted tools a0 (se_log s1) call" if c: "call \<in> set calls" "registry_Get (se_Tools s) (ac_Name call) = Some tool" for call tool
    using assms(2,3)
  proof (cases rule: authorize_cases)
    case all
    then show ?thesis using assms(1) c needed_or_allowed[of tools a0 s call tool]
      by (auto simp: in_law_def needsApproval_def AllGranted_def Allows_def)
  next
    case (ans r0)
    then have l: "se_log s1 = se_log s @ [Prompted (approval_request s calls) (Inr r0)]" by (simp add: logged_def)
    have y: "says_yes r0" using ans(2) x by (auto intro: allow_says_yes)
    have t: "registry_Get tools (ac_Name call) = Some tool" using assms(1) c by (simp add: in_law_def)
    show ?thesis
    proof (cases "needsApproval s tool (ac_Name call) (ac_Arguments call)")
      case True
      then have "approval_entry tool call \<in> set (approval_request s calls)" using in_request c by blast
      then show ?thesis using y t unfolding l permitted_def by auto
    next
      case False
      then show ?thesis using needed_or_allowed[OF assms(1) t] unfolding l by (auto intro: permitted_mono)
    qed
  qed (use x in auto)
  then show "plans_permitted tools a0 (map (\<lambda>call. (call, registry_Get (se_Tools s) (ac_Name call))) calls) s1"
    by (auto simp: plans_permitted_def)
qed

lemma no_request:
  assumes "in_law tools a0 s" and "approval_request s calls = []"
  shows "plans_permitted tools a0 (map (\<lambda>call. (call, registry_Get (se_Tools s) (ac_Name call))) calls) s"
proof -
  have "permitted tools a0 (se_log s) call" if "call \<in> set calls" "registry_Get (se_Tools s) (ac_Name call) = Some tool" for call tool
    using needed_or_allowed[OF assms(1)] in_request[OF that] assms that by (auto simp: in_law_def)
  then show ?thesis by (auto simp: plans_permitted_def)
qed

lemma executeToolCalls_in_law:
  assumes "in_law tools a0 s" shows "in_law tools a0 (snd (executeToolCalls env opts messages calls s))"
proof -
  let ?t = "estimateRunPromptTokens env opts messages"
  obtain d s1 where d: "currentWorkingDir env s = (d, s1)" by fastforce
  have i1: "in_law tools a0 s1" using quietly_in_law[OF quietD[OF quiet_currentWorkingDir d] assms] .
  show ?thesis
  proof (cases d)
    case (Inl e)
    then show ?thesis using i1 d by (simp add: executeToolCalls_def andThen_def Let_def)
  next
    case (Inr dir)
    let ?plans = "map (\<lambda>call. (call, registry_Get (se_Tools s1) (ac_Name call))) calls"
    have run: "in_law tools a0 (snd (run_plans env opts dir ?t ?plans s'))" if "in_law tools a0 s'" "plans_permitted tools a0 ?plans s'" for s'
      using run_plans_lawfully that unfolding lawfully_def by blast
    show ?thesis
    proof (cases "approval_request s1 calls = []")
      case True
      then show ?thesis using run[OF i1 no_request[OF i1 True]] d Inr by (simp add: executeToolCalls_def andThen_def Let_def)
    next
      case False
      obtain x s2 where x: "authorizeToolCalls env (approval_request s1 calls) s1 = (x, s2)" by fastforce
      note au = authorized[OF i1 x False]
      have q: "in_law tools a0 (snd (f s2))" if "quiet_act f" for f :: "batch act"
        using that quietly_in_law[OF _ au(1)] by (simp add: quiet_act_def)
      show ?thesis
      proof (cases x)
        case (Inl e)
        have "quiet_act (andThen (ctx_Err env) (\<lambda>c. if c \<noteq> None then cancel_batch env calls else fail e))" by (intro quiet_rules)
        from q[OF this] show ?thesis using d Inr False x Inl
          by (simp add: executeToolCalls_def andThen_def[of "currentWorkingDir env"] andThen_def[of "attempt _"] attempt_def Let_def)
      next
        case r: (Inr r)
        show ?thesis using d Inr False x r q[OF quiet_denied] run[OF au(1)] au(2)[OF r]
          by (simp add: executeToolCalls_def andThen_def[of "currentWorkingDir env"] andThen_def[of "attempt _"] attempt_def Let_def)
      qed
    qed
  qed
qed

lemma quietly_trans4: "quietly s t \<Longrightarrow> quietly t u \<Longrightarrow> quietly u v \<Longrightarrow> quietly v w \<Longrightarrow> quietly s w"
  by (blast intro: quietly_trans)

lemma quiet_emit_if: "quiet_act (emit_if b env ev)"
  unfolding emit_if_def by (intro quiet_rules)

lemma quiet_receive: "receive env rs a latest s = (x, s1) \<Longrightarrow> quietly s s1"
proof (induction rs arbitrary: a latest s)
  case (Cons r rs)
  let ?m = "cr_Message r"
  obtain r1 t1 where 1: "emit_if (am_Thinking ?m \<noteq> []) env (EvThinkingDelta (am_Thinking ?m)) s = (r1, t1)" by fastforce
  obtain r2 t2 where 2: "emit_if (am_Content ?m \<noteq> []) env (EvMessageDelta (am_Content ?m)) t1 = (r2, t2)" by fastforce
  obtain r3 t3 where 3: "emit_if (am_ToolCalls ?m \<noteq> []) env (EvToolCallDetected (am_ToolCalls ?m)) t2 = (r3, t3)" by fastforce
  note q = quietD[OF quiet_emit_if 1] quietD[OF quiet_emit_if 2] quietD[OF quiet_emit_if 3]
  note q2 = q quietly_trans[OF q(1,2)] quietly_trans[OF quietly_trans[OF q(1,2)] q(3)]
  show ?case
    using Cons.prems Cons.IH q2 quietly_trans4[OF q]
    by (auto simp: Let_def 1 2 3 split: if_splits sum.splits)
qed simp

lemma quiet_isContextCanceled: "quiet_act (isContextCanceledError env e)"
  unfolding isContextCanceledError_def by (intro quiet_rules)

text \<open>What a step adds to the log.\<close>

definition adds_only :: "(action \<Rightarrow> bool) \<Rightarrow> 'a act \<Rightarrow> bool" where
  "adds_only K f \<longleftrightarrow> (\<forall>s. \<exists>b. se_log (snd (f s)) = se_log s @ b \<and> (\<forall>a \<in> set b. K a))"

lemma adds_onlyD: "adds_only K f \<Longrightarrow> f s = (x, s1) \<Longrightarrow> \<exists>b. se_log s1 = se_log s @ b \<and> (\<forall>a \<in> set b. K a)"
  by (metis snd_conv adds_only_def)

lemma adds_quiet: "(\<And>a. quiet_action a \<Longrightarrow> K a) \<Longrightarrow> quiet_act f \<Longrightarrow> adds_only K f"
  unfolding quiet_act_def adds_only_def quietly_def by blast

lemma adds_andThen:
  assumes "adds_only K f" and "\<And>x. adds_only K (g x)" shows "adds_only K (andThen f g)"
  unfolding adds_only_def
proof
  fix s
  obtain x s1 where f: "f s = (x, s1)" by fastforce
  obtain b where b: "se_log s1 = se_log s @ b" "\<forall>a \<in> set b. K a" using adds_onlyD[OF assms(1) f] by blast
  show "\<exists>b. se_log (snd (andThen f g s)) = se_log s @ b \<and> (\<forall>a \<in> set b. K a)"
  proof (cases x)
    case (Inr v)
    obtain b' where "se_log (snd (g v s1)) = se_log s1 @ b'" "\<forall>a \<in> set b'. K a" using assms(2)[of v] unfolding adds_only_def by blast
    then show ?thesis using b f Inr by (intro exI[of _ "b @ b'"]) (auto simp: andThen_def)
  qed (use b f in \<open>auto simp: andThen_def\<close>)
qed

lemma run_plans_adds:
  assumes "\<And>a. quiet_action a \<Longrightarrow> K a" and "\<And>call dir. K (Executed call dir)"
  shows "adds_only K (run_plans env opts dir tokens plans)"
proof -
  have e: "adds_only K (attempt (registry_Execute env call dir))" for call
    using assms(2) by (auto simp: adds_only_def attempt_def registry_Execute_def logged_def split: option.splits)
  note q = adds_quiet[OF assms(1) quiet_unknown] adds_quiet[OF assms(1) quiet_settle] adds_quiet[OF assms(1) quiet_cancel]
    adds_quiet[OF assms(1) quiet_ctx] adds_quiet[OF assms(1) quiet_emit] adds_quiet[OF assms(1) quiet_give]
  show ?thesis
  proof (induction plans arbitrary: tokens)
    case (Cons p plans)
    obtain call tool where p: "p = (call, tool)" by fastforce
    show ?case unfolding p run_plans.simps
      by (auto split: prod.splits intro!: adds_andThen q Cons.IH e)
  qed (simp add: q)
qed

text \<open>A round of the chat logs its request and is quiet else.\<close>

lemma chatRound_log:
  assumes "chatRound env opts ms latest s = (x, s1)"
  shows "\<exists>tools. quietly (logged (Chatted (buildChatRequest opts ms tools)) s) s1"
proof -
  let ?req = "buildChatRequest opts ms (if se_DisableTools s then [] else availableTools s)"
  obtain rs e where c: "en_chat env (se_log s) ?req = (rs, e)" by fastforce
  obtain a l e' s2 where r: "receive env rs (plain_message ''assistant'' []) latest (logged (Chatted ?req) s) = ((a, l, e'), s2)"
    by (metis prod.collapse)
  note q = quiet_receive[OF r]
  have "s1 = s2 \<or> s1 = snd (isContextCanceledError env (the (if e' = None then e else e')) s2)"
    using assms unfolding chatRound_def Let_def c r prod.case
    by (auto split: if_splits option.splits prod.splits sum.splits bool.splits)
  moreover have "quietly s2 (snd (isContextCanceledError env y s2))" for y
    using quiet_isContextCanceled by (simp add: quiet_act_def)
  ultimately have "quietly s2 s1" by auto
  with quietly_trans[OF q] show ?thesis by blast
qed

lemma runModelStep_log:
  assumes "runModelStep env opts st s = (x, s1)"
  shows "\<exists>tools. quietly (logged (Chatted (buildChatRequest opts (rt_messages st) tools)) s) s1"
proof -
  obtain l y s2 where c: "chatRound env opts (rt_messages st) (rt_latest st) s = ((l, y), s2)" by (metis prod.collapse)
  obtain tools where q: "quietly (logged (Chatted (buildChatRequest opts (rt_messages st) tools)) s) s2"
    using chatRound_log[OF c] by blast
  have f: "quiet_act (or_report env (fail e) :: run_state act)" for e by (intro quiet_rules)
  have "quietly s2 s1"
    using assms c quietD[OF quiet_after_answer] quietD[OF f] quietD[OF quiet_give]
    by (auto simp: runModelStep_def Let_def split: sum.splits option.splits if_splits prod.splits)
  with q quietly_trans show ?thesis by blast
qed

lemma in_law_chatted: "in_law tools a0 s \<Longrightarrow> in_law tools a0 (logged (Chatted req) s)"
  by (simp add: in_law_def logged_def lawful_snoc granted_append granted_def[of _ "[_]"])

lemma runToolStep_eq:
  "runToolStep env opts st s =
     (case executeToolCalls env opts (rt_messages st) (am_ToolCalls (rt_assistant st)) s of
        (Inl e, s1) \<Rightarrow> (Inl e, snd (session_emit env (EvError (ge_text e)) s1))
      | (Inr b, s1) \<Rightarrow> (Inr (st\<lparr>rt_messages := rt_messages st @ ba_messages b, rt_toolBatch := Some b, rt_phase := PhaseCompact\<rparr>), s1))"
  by (simp add: runToolStep_def andThen_def or_report_def give_def split: prod.splits sum.splits)

lemma run_step_in_law:
  assumes "run_step env opts st s = (x, s1)" and "in_law tools a0 s" shows "in_law tools a0 s1"
proof (cases "rt_phase st")
  case PhaseModel
  then show ?thesis using assms runModelStep_log[of env opts st s x s1] quietly_in_law[OF _ in_law_chatted[OF assms(2)]] by (auto simp: run_step_def)
next
  case PhaseTools
  let ?e = "executeToolCalls env opts (rt_messages st) (am_ToolCalls (rt_assistant st)) s"
  have l: "in_law tools a0 (snd ?e)" by (rule executeToolCalls_in_law[OF assms(2)])
  have "quietly s' (snd (session_emit env ev s'))" for ev s' using quiet_emit by (simp add: quiet_act_def)
  from quietly_in_law[OF this l] show ?thesis using assms(1) l PhaseTools
    by (auto simp: run_step_def runToolStep_eq split: prod.splits sum.splits)
next
  case PhaseCompact
  then show ?thesis using assms quietD[OF quiet_compaction_step] quietly_in_law by (fastforce simp: run_step_def)
next
  case PhaseDone
  then show ?thesis using assms by (simp add: run_step_def give_def)
qed

lemma run_in_law:
  assumes "run_reaches env opts s0 p s" and "se_log s0 = []"
  shows "in_law (se_Tools s0) (se_ApprovalState s0) s"
proof -
  have "in_law (se_Tools s0) (se_ApprovalState s0) s0" using assms(2) by (simp add: in_law_def granted_def lawful_def)
  note start = quietly_in_law[OF quietD[OF quiet_start] this]
  show ?thesis
    using assms(1)
    by (induction rule: run_reaches.induct) (auto intro: start run_step_in_law quietly_in_law[OF quietD[OF quiet_finish]])
qed

text \<open>
  C3.  Whatever the model asks, the user answers and the context does, in every run that has
  begun, a tool is executed only if it is registered and either needs no approval for these
  arguments, or its scope is allowed by what the session was given and the user granted before,
  or the user was asked about this very call before and agreed.
\<close>

theorem executions_are_permitted:
  assumes "run_reaches env opts s0 p s" and "se_log s0 = []" and "se_log s = a @ Executed call dir # b"
  shows "\<exists>tool. registry_Get (se_Tools s0) (ac_Name call) = Some tool
    \<and> (\<not> ToolRequiresApproval tool (ac_Arguments call)
       \<or> Allows (granted (se_ApprovalState s0) a) (toolApprovalScope tool (ac_Name call) (ac_Arguments call))
       \<or> (\<exists>calls r. Prompted calls (Inr r) \<in> set a \<and> approval_entry tool call \<in> set calls \<and> says_yes r))"
proof -
  have "permitted (se_Tools s0) (se_ApprovalState s0) a call"
    using run_in_law[OF assms(1,2)] assms(3) unfolding in_law_def lawful_def by blast
  then show ?thesis unfolding permitted_def by (auto split: option.splits)
qed

text \<open>
  An answer that allows only a blank scope grants nothing to the session, but its batch is
  executed.
\<close>

lemma blank_scope_runs_batch:
  assumes "ap_AllowScopes r = ['' '']" and "\<not> ap_AllowAll r"
  shows "approval_Apply r st = (True, st)" and "ap_Allow (fst (applyApproval r s))"
proof -
  have "trim_space '' '' = []" by (simp add: trim_space_def trim_left_space decode_rune_ascii is_space_def)
  then show a: "approval_Apply r st = (True, st)" for st :: approval_state
    using assms by (simp add: approval_Apply_def GrantScopes_def)
  show "ap_Allow (fst (applyApproval r s))" by (simp add: applyApproval_def a)
qed

section \<open>An example\<close>

definition example_tool_call :: api_call where
  "example_tool_call = \<lparr>ac_ID = ''1'', ac_Index = 0, ac_Name = ''ls'', ac_Arguments = Some []\<rparr>"

definition example_tool :: agent_tool where
  "example_tool = \<lparr>to_RequiresApproval = Some (\<lambda>_. True), to_ApprovalScope = None\<rparr>"

text \<open>A model that calls the tool once and then answers; a user who gives one answer.\<close>

definition example_env :: "approval \<Rightarrow> env" where
  "example_env answer = \<lparr>
     en_chat = (\<lambda>h req. (if list_ex (\<lambda>m. am_Role m = ''tool'') (rr_Messages req) then [example_reply ''Two files'']
        else [(example_reply [])\<lparr>cr_Message := (plain_message ''assistant'' [])\<lparr>am_ToolCalls := [example_tool_call]\<rparr>\<rparr>], None)),
     en_sinks = (\<lambda>_ _. None), en_ctx = (\<lambda>_. None),
     en_prompt = (\<lambda>_ _. Inr answer),
     en_exec = (\<lambda>_ _ _. Inr \<lparr>tr_Content = ''a b'', tr_WorkingDir = []\<rparr>),
     en_Getwd = (\<lambda>_. Some ''/''), en_canonical = (\<lambda>_ d. Some d), en_skill = (\<lambda>_. Inl (plain_error [])), en_uuid = [],
     en_estimator = example_estimator\<lparr>es_marshal := (\<lambda>_ _. Some [])\<rparr>, en_Compactor = None\<rparr>"

definition example_yes :: approval where
  "example_yes = \<lparr>ap_Allow = True, ap_AllowAll = False, ap_AllowScopes = [], ap_Reason = []\<rparr>"

definition example_options :: run_options where
  "example_options = \<lparr>ro_Model = ''m'', ro_SystemPrompt = [], ro_Messages = [], ro_NewMessages = [plain_message ''user'' ''ls''],
     ro_Format = [], ro_Options = [], ro_Think = None, ro_SkillName = [], ro_MaxToolRounds = 3\<rparr>"

definition example_session :: session where
  "example_session = \<lparr>se_Tools = Some [(''ls'', example_tool)], se_DisableTools = False, se_prompter = True,
     se_ApprovalState = \<lparr>as_allowAll = False, as_scopes = {}\<rparr>, se_WorkingDir = ''/'', se_log = []\<rparr>"

lemmas act_simps = give_def fail_def andThen_def attempt_def or_report_def session_emit_def emit_only_def emit_if_def ctx_Err_def
  emitIgnoringCanceled_def logged_def Let_def

lemma trim_Nil [simp]: "trim_space [] = []"
  by (simp add: trim_space_def)

lemma trim_ls: "trim_space ''ls'' = ''ls''"
  using trim_space_word(1)[of "CHR ''l''" "CHR ''s''" "[]"] by (simp add: printable_def)

lemma example_start:
  "start_messages (example_env answer) example_options example_session = (Inr [plain_message ''user'' ''ls''], example_session)"
  by (simp add: start_messages_def validateRun_def example_options_def buildRunMessages_def checkPreflightPromptBudget_def
      check_budget_def run_window_def example_env_def sanitizeMessageForRun_def plain_message_def activateSkill_def act_simps)

definition example_asks :: api_message where
  "example_asks = (plain_message ''assistant'' [])\<lparr>am_ToolCalls := [example_tool_call]\<rparr>"

definition example_asked :: run_state where
  "example_asked = (start_state example_options [plain_message ''user'' ''ls''])\<lparr>
     rt_latest := (example_reply [])\<lparr>cr_Message := example_asks\<rparr>, rt_assistant := example_asks,
     rt_messages := [plain_message ''user'' ''ls'', example_asks], rt_phase := PhaseTools\<rparr>"

definition example_ready :: session where
  "example_ready = example_session\<lparr>se_log :=
     [Chatted (buildChatRequest example_options [plain_message ''user'' ''ls''] [''ls'']), Emitted (EvToolCallDetected [example_tool_call])]\<rparr>"

lemma example_model_step:
  "run_step (example_env answer) example_options (start_state example_options [plain_message ''user'' ''ls'']) example_session
    = (Inr example_asked, example_ready)"
  by (simp add: run_step_def start_state_def runModelStep_def chatRound_def example_session_def availableTools_def registry_Names_def
      example_env_def example_options_def buildChatRequest_def sanitizeMessagesForRequest_def sanitizeMessageForRun_def plain_message_def
      example_reply_def messageEmpty_def example_tool_call_def after_answer_def resolvedMaxToolRounds_def
      example_asked_def example_asks_def example_ready_def act_simps)

lemma example_tool_step:
  "\<exists>st s h b. run_step (example_env example_yes) example_options example_asked example_ready = (Inr st, s) \<and>
    rt_phase st = PhaseCompact \<and> rt_toolBatch st = Some b \<and> ba_stop b = NotStopped \<and> ba_overflows b = [] \<and> length (rt_messages st) = 3 \<and>
    se_log s = h @ [Executed example_tool_call ''/''] @ [Emitted (EvToolFinished ''done'' ''1'' ''ls'' ''/'' (Some []) ''a b'' []), CtxRead None]"
proof -
  have t: "toolMessageForContext (example_env example_yes) example_options ''ls'' ''1'' ''a b'' n
      = (plain_message ''tool'' ''a b'')\<lparr>am_ToolName := ''ls'', am_ToolCallID := ''1''\<rparr>" for n
    by (simp add: toolMessageForContext_def toolMessageWithBudget_def compactionThresholdTokens_def run_window_def example_env_def
        smallContextToolResultLimitRunes_def toolMessageWithLimit_def maxToolResultRunes_def truncated_short rune_count_def runes_of_ascii)
  have d: "en_sinks (example_env answer) h ev = None" "en_ctx (example_env answer) h = None" "en_exec (example_env answer) h c d = Inr \<lparr>tr_Content = ''a b'', tr_WorkingDir = []\<rparr>"
    "en_prompt (example_env answer) h q = Inr answer" for h ev c d q answer
    by (simp_all add: example_env_def)
  have y: "ap_Allow example_yes" "\<not> ap_AllowAll example_yes" "ap_AllowScopes example_yes = []" by (simp_all add: example_yes_def)
  show ?thesis
    by (simp add: run_step_def runToolStep_def executeToolCalls_def example_asked_def example_asks_def start_state_def
      currentWorkingDir_def example_ready_def example_session_def approval_request_def registry_Get_def needsApproval_def
      example_tool_def ToolRequiresApproval_def toolApprovalScope_def Allows_def trim_ls example_tool_call_def
      y authorizeToolCalls_def AllGranted_def applyApproval_def approval_Apply_def registry_Execute_def settle_call_def
      applyToolWorkingDir_def t d act_simps plain_message_def batch_cons_def overflow_of_def toolOutputFullyOmitted_def
      toolOutputFullOmissionPrefix_def)
qed

theorem executions_are_permitted_witness:
  "\<exists>a. permitted (Some [(''ls'', example_tool)]) \<lparr>as_allowAll = False, as_scopes = {}\<rparr> a example_tool_call"
proof -
  obtain st s h where e: "run_step (example_env example_yes) example_options example_asked example_ready = (Inr st, s)"
    "se_log s = h @ Executed example_tool_call ''/'' # [Emitted (EvToolFinished ''done'' ''1'' ''ls'' ''/'' (Some []) ''a b'' []), CtxRead None]"
    using example_tool_step by auto
  have "run_reaches (example_env example_yes) example_options example_session (Some example_asked) example_ready"
    by (rule steps[OF starts[OF example_start] _ example_model_step]) (simp add: start_state_def)
  from steps[OF this _ e(1)] have r: "run_reaches (example_env example_yes) example_options example_session (Some st) s"
    by (simp add: example_asked_def)
  from executions_are_permitted[OF r _ e(2)] show ?thesis
    by (intro exI[of _ h]) (auto simp: example_session_def permitted_def split: option.splits)
qed

end
