(* ===== verification/AgentDenial.thy ===== *)
theory AgentDenial
  imports AgentSafety
begin

text \<open>
  A user who says no ends the run: after the answer nothing is executed, asked or chatted, but
  the compactor may still be asked once.
\<close>

text \<open>Nothing but an approval prompts.\<close>

definition unprompted :: "action \<Rightarrow> bool" where
  "unprompted a \<longleftrightarrow> (\<forall>q r. a \<noteq> Prompted q r)"

lemma run_plans_unprompted: "adds_only unprompted (run_plans env opts dir tokens plans)"
proof (rule run_plans_adds)
  show "quiet_action a \<Longrightarrow> unprompted a" for a by (cases a) (auto simp: unprompted_def)
qed (simp add: unprompted_def)

text \<open>The denials of a log.\<close>

definition denied :: "action list \<Rightarrow> bool" where
  "denied h \<longleftrightarrow> (\<exists>q r. Prompted q (Inr r) \<in> set h \<and> \<not> says_yes r)"

fun asked :: "action \<Rightarrow> bool" where
  "asked (CompactorAsked req) = True"
| "asked a = False"

text \<open>After a denial the log is quiet, and the compactor is asked at most \<open>n\<close> times.\<close>

definition closed_after :: "nat \<Rightarrow> action list \<Rightarrow> bool" where
  "closed_after n h \<longleftrightarrow> (\<forall>a q r b. h = a @ Prompted q (Inr r) # b \<and> \<not> says_yes r \<longrightarrow>
     (\<forall>x \<in> set b. quiet_action x) \<and> length (filter asked b) \<le> n)"

lemma closed_undenied: "\<not> denied h \<Longrightarrow> closed_after n h"
proof -
  assume n: "\<not> denied h"
  have "says_yes r" if "h = a @ Prompted q (Inr r) # b" for a q r b using n that unfolding denied_def by fastforce
  then show ?thesis unfolding closed_after_def by blast
qed

lemma closed_answer:
  assumes "\<not> denied h" shows "closed_after n (h @ [x])"
  unfolding closed_after_def
proof (intro allI impI)
  fix a q r b assume e: "h @ [x] = a @ Prompted q (Inr r) # b \<and> \<not> says_yes r"
  have "b = []"
  proof (cases b rule: rev_cases)
    case (snoc b' y)
    with e have "h = a @ Prompted q (Inr r) # b'" by simp
    with e assms show ?thesis by (auto simp: denied_def)
  qed
  then show "(\<forall>x \<in> set b. quiet_action x) \<and> length (filter asked b) \<le> n" by simp
qed

lemma closed_append:
  assumes "closed_after n h" and "\<forall>x \<in> set b. quiet_action x" and "length (filter asked b) \<le> m"
  shows "closed_after (n + m) (h @ b)"
  unfolding closed_after_def
proof (intro allI impI)
  fix a q r c assume e: "h @ b = a @ Prompted q (Inr r) # c \<and> \<not> says_yes r"
  then have e1: "h @ b = a @ Prompted q (Inr r) # c" by simp
  then obtain us where us: "h = a @ us \<and> us @ b = Prompted q (Inr r) # c \<or> h @ us = a \<and> b = us @ Prompted q (Inr r) # c"
    unfolding append_eq_append_conv2 by blast
  have "Prompted q (Inr r) \<notin> set b" using assms(2) by fastforce
  with us obtain c' where c: "h = a @ Prompted q (Inr r) # c'" "c = c' @ b"
    by (cases us) auto
  have "(\<forall>x \<in> set c'. quiet_action x) \<and> length (filter asked c') \<le> n"
    using assms(1) c(1) e unfolding closed_after_def by blast
  with c(2) assms(2,3) show "(\<forall>x \<in> set c. quiet_action x) \<and> length (filter asked c) \<le> n + m" by auto
qed

lemma denied_append: "denied (h @ b) \<longleftrightarrow> denied h \<or> denied b"
  by (auto simp: denied_def)

lemma unprompted_undenied: "\<forall>a \<in> set b. unprompted a \<Longrightarrow> \<not> denied b"
  by (auto simp: denied_def unprompted_def)

lemma quietly_denied:
  assumes "quietly s s1" shows "denied (se_log s1) \<longleftrightarrow> denied (se_log s)"
proof -
  obtain b where b: "se_log s1 = se_log s @ b" "\<forall>a \<in> set b. quiet_action a" using assms by (auto simp: quietly_def)
  have "\<not> denied b" using b(2) by (auto simp: denied_def)
  then show ?thesis by (simp add: b(1) denied_append)
qed

text \<open>Quiet steps that ask the compactor at most \<open>n\<close> times.\<close>

definition asks_most :: "nat \<Rightarrow> 'a act \<Rightarrow> bool" where
  "asks_most n f \<longleftrightarrow> (\<forall>s. \<exists>b. se_log (snd (f s)) = se_log s @ b \<and> (\<forall>x \<in> set b. quiet_action x) \<and> length (filter asked b) \<le> n)"

named_theorems asks_rules

lemma asks_closed: "asks_most m f \<Longrightarrow> f s = (x, s1) \<Longrightarrow> closed_after n (se_log s) \<Longrightarrow> closed_after (n + m) (se_log s1)"
  unfolding asks_most_def using closed_append by (metis snd_conv)

lemma asks_andThen:
  assumes "asks_most m f" and "\<And>x. asks_most n (g x)" shows "asks_most (m + n) (andThen f g)"
  unfolding asks_most_def
proof
  fix s
  obtain x s1 where f: "f s = (x, s1)" by fastforce
  obtain b where b: "se_log s1 = se_log s @ b" "\<forall>x \<in> set b. quiet_action x" "length (filter asked b) \<le> m"
    using assms(1) f unfolding asks_most_def by (metis snd_conv)
  show "\<exists>b. se_log (snd (andThen f g s)) = se_log s @ b \<and> (\<forall>x \<in> set b. quiet_action x) \<and> length (filter asked b) \<le> m + n"
  proof (cases x)
    case (Inr v)
    obtain b' where "se_log (snd (g v s1)) = se_log s1 @ b'" "\<forall>x \<in> set b'. quiet_action x" "length (filter asked b') \<le> n"
      using assms(2)[of v] unfolding asks_most_def by blast
    then show ?thesis using b f Inr by (intro exI[of _ "b @ b'"]) (auto simp: andThen_def)
  qed (use b f in \<open>auto simp: andThen_def\<close>)
qed

lemma asks_before: "asks_most 0 f \<Longrightarrow> (\<And>x. asks_most n (g x)) \<Longrightarrow> asks_most n (andThen f g)"
  using asks_andThen[of 0 f n g] by simp

lemma asks_behind: "asks_most n f \<Longrightarrow> (\<And>x. asks_most 0 (g x)) \<Longrightarrow> asks_most n (andThen f g)"
  using asks_andThen[of n f 0 g] by simp

lemma asks_weaker: "asks_most 0 f \<Longrightarrow> asks_most n f"
  unfolding asks_most_def by fastforce

lemma asks_simple [asks_rules]:
  "asks_most 0 (give x)" "asks_most 0 (fail e)" "asks_most 0 (session_emit env ev)" "asks_most 0 (emit_only env ev)" "asks_most 0 (ctx_Err env)"
  by (auto simp: asks_most_def give_def fail_def session_emit_def emit_only_def ctx_Err_def logged_def Let_def split: option.splits)

lemma asks_if [asks_rules]: "(b \<Longrightarrow> asks_most n f) \<Longrightarrow> (\<not> b \<Longrightarrow> asks_most n g) \<Longrightarrow> asks_most n (if b then f else g)"
  by simp

lemma asks_emitIgnoring [asks_rules]: "asks_most 0 (emitIgnoringCanceled env ev)"
proof -
  have e: "emitIgnoringCanceled env ev = (\<lambda>s. case session_emit env ev s of
      (Inr u, s1) \<Rightarrow> (Inr u, s1) | (Inl e, s1) \<Rightarrow> andThen (ctx_Err env) (\<lambda>c. if c \<noteq> None then give () else fail e) s1)"
    by (rule ext) (simp add: emitIgnoringCanceled_def)
  show ?thesis unfolding e
    by (auto simp: asks_most_def session_emit_def ctx_Err_def andThen_def give_def fail_def logged_def Let_def split: option.splits)
qed

lemma asks_denied [asks_rules]: "asks_most 0 (deniedToolCalls env opts content tokens calls)"
  by (induction calls arbitrary: tokens) (auto simp: Let_def intro!: asks_rules asks_before)

lemma asks_finish: "asks_most 0 (finishRun env st)"
  unfolding finishRun_def by (intro asks_before asks_rules) (simp add: asks_most_def)

lemma asks_skip [asks_rules]: "asks_most 0 (skip_compaction env ms n t r)"
  unfolding skip_compaction_def by (intro asks_rules asks_before)

lemma asks_compactor [asks_rules]: "asks_most 1 (ask_compactor c req)"
  by (simp add: asks_most_def ask_compactor_def logged_def)

text \<open>A session without a compactor asks none.\<close>

definition compactions :: "env \<Rightarrow> nat" where
  "compactions env = (if en_Compactor env = None then 0 else 1)"

lemma asks_compaction [asks_rules]:
  "asks_most (compactions env) (maybeCompact env opts ms latest n)"
  "asks_most (compactions env) (compactForToolOutputOverflow env opts ms latest a tms os n)"
proof -
  have ask: "asks_most 1 (andThen f (\<lambda>_. andThen (ask_compactor c req) g))"
    if "asks_most 0 f" "\<And>x. asks_most 0 (g x)" for f :: "unit act" and g :: "_ \<Rightarrow> compacted act" and c req
    by (rule asks_before[OF that(1) asks_behind[OF asks_compactor that(2)]])
  show "asks_most (compactions env) (maybeCompact env opts ms latest n)"
  proof (cases "en_Compactor env")
    case (Some c)
    show ?thesis unfolding maybeCompact_def compactions_def Some option.case Let_def if_not_P[OF option.distinct(2)]
      by (rule ask) (auto split: prod.splits intro!: asks_if asks_before asks_rules)
  qed (simp add: maybeCompact_def compactions_def asks_rules)
  show "asks_most (compactions env) (compactForToolOutputOverflow env opts ms latest a tms os n)"
  proof (cases "en_Compactor env")
    case (Some c)
    show ?thesis unfolding compactForToolOutputOverflow_def compactions_def Some option.case Let_def if_not_P[OF option.distinct(2)]
      by (rule ask) (auto split: prod.splits intro!: asks_if asks_before asks_rules)
  qed (simp add: compactForToolOutputOverflow_def compactions_def asks_rules)
qed

lemma asks_compaction_step: "asks_most (compactions env) (runCompactionStep env opts st)"
  unfolding runCompactionStep_def Let_def
  by (rule asks_behind) (auto split: option.splits intro!: asks_rules asks_before)

lemma denied_gives_stop:
  "deniedToolCalls env opts content tokens calls s = (Inr b, s1) \<Longrightarrow> ba_stop b = BatchDenied"
proof (induction calls arbitrary: tokens s b s1)
  case (Cons call calls)
  then show ?case
    by (auto simp: Let_def andThen_def give_def batch_cons_def split: prod.splits sum.splits)
qed (simp add: give_def)

text \<open>A batch of calls before which nothing was denied.\<close>

lemma batch_closed:
  assumes "\<not> denied (se_log s)" and "executeToolCalls env opts messages calls s = (x, s1)"
  shows "closed_after 0 (se_log s1)" and "denied (se_log s1) \<Longrightarrow> x = Inr b \<Longrightarrow> ba_stop b = BatchDenied"
proof -
  let ?t = "estimateRunPromptTokens env opts messages"
  obtain d s2 where d: "currentWorkingDir env s = (d, s2)" by fastforce
  have n2: "\<not> denied (se_log s2)" using quietly_denied[OF quietD[OF quiet_currentWorkingDir d]] assms(1) by simp
  have goal: "closed_after 0 (se_log s1) \<and> (denied (se_log s1) \<longrightarrow> (\<forall>b. x = Inr b \<longrightarrow> ba_stop b = BatchDenied))"
  proof (cases d)
    case (Inl e)
    then show ?thesis using assms(2) d n2 closed_undenied by (auto simp: executeToolCalls_def andThen_def Let_def)
  next
    case (Inr dir)
    let ?plans = "map (\<lambda>call. (call, registry_Get (se_Tools s2) (ac_Name call))) calls"
    let ?q = "approval_request s2 calls"
    have run: "\<not> denied (se_log s'')" if "\<not> denied (se_log s')" "run_plans env opts dir ?t ?plans s' = (x', s'')" for s' s'' x'
      using adds_onlyD[OF run_plans_unprompted that(2)] that(1) unprompted_undenied by (auto simp: denied_append)
    show ?thesis
    proof (cases "?q = []")
      case True
      then have "run_plans env opts dir ?t ?plans s2 = (x, s1)"
        using assms(2) d Inr by (simp add: executeToolCalls_def andThen_def Let_def)
      with run n2 closed_undenied show ?thesis by blast
    next
      case False
      obtain y s3 where y: "authorizeToolCalls env ?q s2 = (y, s3)" by fastforce
      have ex: "(case y of
          Inl e \<Rightarrow> andThen (ctx_Err env) (\<lambda>c. if c \<noteq> None then cancel_batch env calls else fail e)
        | Inr result \<Rightarrow> if \<not> ap_Allow result
            then deniedToolCalls env opts (if ap_Reason result = [] then ''Tool execution denied.'' else ap_Reason result) ?t calls
            else run_plans env opts dir ?t ?plans) s3 = (x, s1)"
        using assms(2) d Inr False y
        by (cases y) (simp_all add: executeToolCalls_def andThen_def[of "currentWorkingDir env"] andThen_def[of "attempt _"] attempt_def Let_def)
      have l: "closed_after 0 (se_log s3) \<and> (denied (se_log s3) \<longrightarrow> (\<exists>r. y = Inr r \<and> \<not> ap_Allow r))"
        using y False
      proof (cases rule: authorize_cases)
        case (err e)
        then show ?thesis using n2 by (simp add: logged_def closed_undenied denied_append denied_def)
      next
        case (ans r0)
        then have "se_log s3 = se_log s2 @ [Prompted ?q (Inr r0)]" by (simp add: logged_def)
        moreover have "ap_Allow (fst (applyApproval r0 (logged (Prompted ?q (Inr r0)) s2))) \<longleftrightarrow> says_yes r0"
          by (auto simp: applyApproval_def approval_Apply_def says_yes_def Let_def)
        ultimately show ?thesis using n2 ans(2) closed_undenied[OF n2]
          by (auto simp: closed_answer denied_append denied_def)
      qed (use n2 closed_undenied in auto)
      have c: "quiet_act (andThen (ctx_Err env) (\<lambda>c. if c \<noteq> None then cancel_batch env calls else fail e))" for e
        by (intro quiet_rules)
      show ?thesis
      proof (cases y)
        case (Inl e)
        then have "quietly s3 s1" using ex quietD[OF c] by simp
        from quietly_denied[OF this] l Inl show ?thesis by (auto simp: closed_undenied)
      next
        case r: (Inr r)
        show ?thesis
        proof (cases "ap_Allow r")
          case True
          then have "run_plans env opts dir ?t ?plans s3 = (x, s1)" "\<not> denied (se_log s3)" using ex r l by auto
          with run closed_undenied show ?thesis by blast
        next
          case False
          then have dn: "deniedToolCalls env opts (if ap_Reason r = [] then ''Tool execution denied.'' else ap_Reason r) ?t calls s3 = (x, s1)"
            using ex r by simp
          from asks_closed[OF asks_denied this, of 0] l show ?thesis using denied_gives_stop dn by auto
        qed
      qed
    qed
  qed
  then show "closed_after 0 (se_log s1)" and "denied (se_log s1) \<Longrightarrow> x = Inr b \<Longrightarrow> ba_stop b = BatchDenied" by blast+
qed

text \<open>A compaction after a denied batch ends the run.\<close>

lemma compaction_ends_denied:
  assumes "rt_toolBatch st = Some b" and "ba_stop b = BatchDenied" and "runCompactionStep env opts st s = (Inr st1, s1)"
  shows "rt_phase st1 = PhaseDone"
  using assms
  by (auto simp: runCompactionStep_def andThen_def give_def emit_only_def Let_def finishError_def finishDenied_def finishWith_def
      split: prod.splits sum.splits option.splits)

definition denial_ends :: "env \<Rightarrow> run_state option \<Rightarrow> session \<Rightarrow> bool" where
  "denial_ends env p s \<longleftrightarrow> closed_after (compactions env) (se_log s) \<and>
     (denied (se_log s) \<longrightarrow> (case p of None \<Rightarrow> True
       | Some st \<Rightarrow> rt_phase st = PhaseDone \<or>
           (rt_phase st = PhaseCompact \<and> closed_after 0 (se_log s) \<and> (\<exists>b. rt_toolBatch st = Some b \<and> ba_stop b = BatchDenied))))"

lemma chatted_undenied:
  assumes "quietly (logged (Chatted req) s) s1" and "\<not> denied (se_log s)" shows "\<not> denied (se_log s1)"
proof -
  have "\<not> denied (se_log (logged (Chatted req) s))" using assms(2) by (simp add: logged_def denied_def)
  with quietly_denied[OF assms(1)] show ?thesis by simp
qed

lemma closed_more: "closed_after 0 h \<Longrightarrow> closed_after n h"
  unfolding closed_after_def by fastforce

lemma denial_step:
  assumes "denial_ends env (Some st) s" and "rt_phase st \<noteq> PhaseDone" and "run_step env opts st s = (x, s1)"
  shows "denial_ends env (case x of Inl e \<Rightarrow> None | Inr st1 \<Rightarrow> Some st1) s1"
proof (cases "rt_phase st")
  case PhaseModel
  then have n: "\<not> denied (se_log s)" using assms(1) by (auto simp: denial_ends_def)
  obtain req where "quietly (logged (Chatted req) s) s1"
    using runModelStep_log[of env opts st s x s1] assms(3) PhaseModel by (auto simp: run_step_def)
  from chatted_undenied[OF this n] show ?thesis by (simp add: denial_ends_def closed_undenied)
next
  case PhaseTools
  then have n: "\<not> denied (se_log s)" using assms(1) by (auto simp: denial_ends_def)
  obtain y s2 where y: "executeToolCalls env opts (rt_messages st) (am_ToolCalls (rt_assistant st)) s = (y, s2)" by fastforce
  note b = batch_closed[OF n y]
  show ?thesis
  proof (cases y)
    case (Inl er)
    have "closed_after 0 (se_log (snd (session_emit env ev s2)))" for ev
      using asks_closed[OF asks_simple(3), of env ev s2 _ _ 0] b(1) by (metis add_0 prod.collapse)
    then show ?thesis using assms(3) PhaseTools y Inl
      by (auto simp: run_step_def runToolStep_eq denial_ends_def closed_more)
  next
    case (Inr ba)
    then show ?thesis using assms(3) PhaseTools y b by (auto simp: run_step_def runToolStep_eq denial_ends_def closed_more)
  qed
next
  case PhaseCompact
  then have c: "runCompactionStep env opts st s = (x, s1)" using assms(3) by (simp add: run_step_def)
  note q = quietly_denied[OF quietD[OF quiet_compaction_step c]]
  show ?thesis
  proof (cases "denied (se_log s)")
    case True
    then obtain b where b: "closed_after 0 (se_log s)" "rt_toolBatch st = Some b" "ba_stop b = BatchDenied"
      using assms(1) PhaseCompact by (auto simp: denial_ends_def)
    have k: "closed_after (compactions env) (se_log s1)" using asks_closed[OF asks_compaction_step c b(1)] by simp
    show ?thesis
    proof (cases x)
      case (Inr st1)
      then show ?thesis using k compaction_ends_denied[OF b(2,3)] c by (auto simp: denial_ends_def)
    qed (use k in \<open>simp add: denial_ends_def\<close>)
  qed (use q in \<open>simp add: denial_ends_def closed_undenied\<close>)
qed (use assms(2) in simp)

lemma denial_invariant:
  "run_reaches env opts s0 p s \<Longrightarrow> se_log s0 = [] \<Longrightarrow> denial_ends env p s"
proof (induction rule: run_reaches.induct)
  case (starts ms s)
  then have "\<not> denied (se_log s0)" by (simp add: denied_def)
  with quietly_denied[OF quietD[OF quiet_start starts.hyps]] have "\<not> denied (se_log s)" by simp
  then show ?case by (simp add: denial_ends_def closed_undenied)
next
  case (refused e s)
  then have "\<not> denied (se_log s0)" by (simp add: denied_def)
  with quietly_denied[OF quietD[OF quiet_start refused.hyps]] have "\<not> denied (se_log s)" by simp
  then show ?case by (simp add: denial_ends_def closed_undenied)
next
  case (steps st s st1 s1)
  then show ?case using denial_step[OF steps.IH[OF steps.prems] steps.hyps(2,3)] by simp
next
  case (breaks st s e s1)
  then show ?case using denial_step[OF breaks.IH[OF breaks.prems] breaks.hyps(2,3)] by simp
next
  case (finishes st s r s1)
  then show ?case using asks_closed[OF asks_finish finishes.hyps(3), of "compactions env"] by (simp add: denial_ends_def)
qed

text \<open>
  C10.  A denial is final: once the user has answered a batch of calls without granting
  anything, the rest of the run executes no tool, asks for no other approval and starts no other
  round of the model.  What it may still do is ask the compactor once, if the session has one;
  the compactor may ask the model for a summary.
\<close>

theorem denial_is_final:
  assumes "run_reaches env opts s0 p s" and "se_log s0 = []"
    and "se_log s = a @ Prompted calls (Inr r) # b" and "\<not> says_yes r"
  shows "(\<forall>x \<in> set b. (\<forall>call dir. x \<noteq> Executed call dir) \<and> (\<forall>q y. x \<noteq> Prompted q y) \<and> (\<forall>req. x \<noteq> Chatted req))
    \<and> length (filter asked b) \<le> (if en_Compactor env = None then 0 else 1)"
proof -
  have "(\<forall>x \<in> set b. quiet_action x) \<and> length (filter asked b) \<le> compactions env"
    using denial_invariant[OF assms(1,2)] assms(3,4) unfolding denial_ends_def closed_after_def by blast
  then show ?thesis by (auto simp: compactions_def)
qed

section \<open>An example\<close>

text \<open>The same session with a user who refuses.\<close>

definition example_no :: approval where
  "example_no = \<lparr>ap_Allow = False, ap_AllowAll = False, ap_AllowScopes = [], ap_Reason = []\<rparr>"

lemma example_denied_step:
  "\<exists>st s h q e. run_step (example_env example_no) example_options example_asked example_ready = (Inr st, s) \<and>
    se_log s = h @ Prompted q (Inr example_no) # [Emitted e]"
proof -
  have d: "en_sinks (example_env answer) h ev = None" "en_prompt (example_env answer) h q = Inr answer" for h ev q answer
    by (simp_all add: example_env_def)
  show ?thesis
    by (simp add: run_step_def runToolStep_def executeToolCalls_def example_asked_def example_asks_def start_state_def
      currentWorkingDir_def example_ready_def example_session_def approval_request_def registry_Get_def needsApproval_def
      example_tool_def ToolRequiresApproval_def toolApprovalScope_def Allows_def trim_ls example_tool_call_def
      authorizeToolCalls_def AllGranted_def applyApproval_def approval_Apply_def example_no_def d act_simps)
qed

theorem denial_is_final_witness:
  "\<exists>(s :: session) a q e. se_log s = a @ Prompted q (Inr example_no) # [Emitted e]
    \<and> (\<forall>x \<in> set [Emitted e]. (\<forall>call dir. x \<noteq> Executed call dir) \<and> (\<forall>q y. x \<noteq> Prompted q y) \<and> (\<forall>req. x \<noteq> Chatted req))"
proof -
  obtain st s h q e where e: "run_step (example_env example_no) example_options example_asked example_ready = (Inr st, s)"
    "se_log s = h @ Prompted q (Inr example_no) # [Emitted e]"
    using example_denied_step by blast
  have "run_reaches (example_env example_no) example_options example_session (Some example_asked) example_ready"
    by (rule steps[OF starts[OF example_start] _ example_model_step]) (simp add: start_state_def)
  from steps[OF this _ e(1)] have r: "run_reaches (example_env example_no) example_options example_session (Some st) s"
    by (simp add: example_asked_def)
  have "se_log example_session = []" "\<not> says_yes example_no" by (simp_all add: example_session_def example_no_def says_yes_def)
  from denial_is_final[OF r this(1) e(2) this(2)] e(2) show ?thesis by blast
qed

end
