(* ===== verification/AgentOrder.thy ===== *)
theory AgentOrder
  imports AgentSafety
begin

text \<open>
  The history of a run: whatever happens to a call of the model, execution, failure, denial,
  cancellation, a limit or a compaction, it is answered in its place.
\<close>

section \<open>Answers of a batch\<close>

text \<open>What a step returns when it returns no error.\<close>

definition gives :: "'a act \<Rightarrow> ('a \<Rightarrow> bool) \<Rightarrow> bool" where
  "gives f R \<longleftrightarrow> (\<forall>s x s1. f s = (Inr x, s1) \<longrightarrow> R x)"

named_theorems gives_rules

lemma givesD: "gives f R \<Longrightarrow> f s = (Inr x, s1) \<Longrightarrow> R x"
  by (auto simp: gives_def)

lemma gives_give [gives_rules]: "R x \<Longrightarrow> gives (give x) R"
  by (simp add: gives_def give_def)

lemma gives_fail [gives_rules]: "gives (fail e) R"
  by (simp add: gives_def fail_def)

lemma gives_andThen:
  assumes "gives f F" and "\<And>x. F x \<Longrightarrow> gives (g x) R" shows "gives (andThen f g) R"
  unfolding gives_def
proof (intro allI impI)
  fix s y s2 assume a: "andThen f g s = (Inr y, s2)"
  obtain r s1 where f: "f s = (r, s1)" by fastforce
  with a obtain x where x: "f s = (Inr x, s1)" "g x s1 = (Inr y, s2)" by (cases r) (auto simp: andThen_def)
  from givesD[OF assms(2)[OF givesD[OF assms(1) x(1)]] x(2)] show "R y" .
qed

lemma gives_any: "gives f (\<lambda>_. True)"
  by (simp add: gives_def)

lemma gives_then: "(\<And>x. gives (g x) R) \<Longrightarrow> gives (andThen f g) R"
  by (rule gives_andThen[OF gives_any])

lemma gives_if [gives_rules]: "(b \<Longrightarrow> gives f R) \<Longrightarrow> (\<not> b \<Longrightarrow> gives g R) \<Longrightarrow> gives (if b then f else g) R"
  by simp

lemma gives_report [gives_rules]: "gives f R \<Longrightarrow> gives (or_report env f) R"
  unfolding gives_def or_report_def by (auto split: prod.splits sum.splits)

lemma tool_message_answers:
  "answers (toolMessage (ac_Name c) (ac_ID c) content) c"
  "answers (toolMessageForContext env opts (ac_Name c) (ac_ID c) content tokens) c"
  "answers (toolMessageForPostCompactionContext env opts (ac_Name c) (ac_ID c) content tokens) c"
  by (simp_all add: answers_def toolMessage_def toolMessageForContext_def toolMessageForPostCompactionContext_def
      toolMessageWithBudget_def toolMessageWithLimit_def plain_message_def Let_def)

text \<open>A batch that answers calls, each with a message of its own, and reports only their overflows.\<close>

definition batch_answers :: "api_call list \<Rightarrow> batch \<Rightarrow> bool" where
  "batch_answers calls b \<longleftrightarrow> list_all2 answers (ba_messages b) calls
     \<and> (\<forall>ov \<in> set (ba_overflows b). \<exists>c \<in> set calls. ov_toolName ov = ac_Name c \<and> ov_toolCallID ov = ac_ID c)"

lemma batch_answers_cons:
  "batch_answers calls b \<Longrightarrow> answers m c \<Longrightarrow> os = [] \<or> os = [\<lparr>ov_toolName = ac_Name c, ov_toolCallID = ac_ID c, ov_content = t\<rparr>]
    \<Longrightarrow> batch_answers (c # calls) (batch_cons m os b)"
  by (auto simp: batch_answers_def batch_cons_def)

lemma overflow_of_cases:
  "overflow_of c m t = [] \<or> overflow_of c m t = [\<lparr>ov_toolName = ac_Name c, ov_toolCallID = ac_ID c, ov_content = t\<rparr>]"
  by (simp add: overflow_of_def)

lemma skip_answers: "gives (skipToolCalls env content calls) (\<lambda>ms. list_all2 answers ms calls)"
proof (induction calls)
  case (Cons c calls)
  show ?case unfolding skipToolCalls.simps Let_def
    by (intro gives_then gives_andThen[OF Cons.IH] gives_give) (simp add: tool_message_answers)
qed (simp add: gives_give)

lemma cancel_answers: "gives (cancel_batch env calls) (batch_answers calls)"
  unfolding cancel_batch_def by (rule gives_andThen[OF skip_answers]) (simp add: gives_give batch_answers_def)

lemma disabled_answers: "gives (disabledToolCalls env opts tokens calls) (batch_answers calls)"
proof (induction calls arbitrary: tokens)
  case (Cons c calls)
  show ?case unfolding disabledToolCalls.simps Let_def
    by (rule gives_then, rule gives_andThen[OF Cons.IH], rule gives_give, rule batch_answers_cons)
      (simp_all add: tool_message_answers)
qed (simp add: gives_give batch_answers_def)

lemma denied_answers: "gives (deniedToolCalls env opts content tokens calls) (batch_answers calls)"
proof (induction calls arbitrary: tokens)
  case (Cons c calls)
  show ?case unfolding deniedToolCalls.simps Let_def
    by (rule gives_then, rule gives_andThen[OF Cons.IH], rule gives_give, rule batch_answers_cons)
      (simp_all add: tool_message_answers)
qed (simp add: gives_give batch_answers_def)

lemma settled_answers:
  "gives (unknown_tool env opts tokens c) (\<lambda>(content, msg). answers msg c)"
  "gives (settle_call env opts dir tokens c outcome) (\<lambda>(content, msg). answers msg c)"
proof -
  show "gives (unknown_tool env opts tokens c) (\<lambda>(content, msg). answers msg c)"
    unfolding unknown_tool_def Let_def by (intro gives_then gives_give) (simp add: tool_message_answers)
  show "gives (settle_call env opts dir tokens c outcome) (\<lambda>(content, msg). answers msg c)"
  proof (cases outcome)
    case (Inl e)
    then show ?thesis by (simp add: settle_call_def Let_def) (intro gives_then gives_give, simp add: tool_message_answers)
  next
    case (Inr r)
    then show ?thesis unfolding settle_call_def
      by (auto simp: gives_def andThen_def give_def Let_def tool_message_answers split: prod.splits sum.splits)
  qed
qed

lemma run_plans_answers: "gives (run_plans env opts dir tokens plans) (batch_answers (map fst plans))"
proof (induction plans arbitrary: tokens)
  case (Cons p plans)
  obtain c tool where p: "p = (c, tool)" by fastforce
  have rest: "gives (andThen f (\<lambda>b. give (batch_cons msg (overflow_of c msg content) b))) (batch_answers (c # map fst plans))"
    if "gives f (batch_answers (map fst plans))" "answers msg c" for f msg content
    using that by (intro gives_andThen[OF that(1)] gives_give batch_answers_cons[OF _ _ overflow_of_cases]) simp_all
  have c: "gives (if k then cancel_batch env (map fst plans) else run_plans env opts dir t plans) (batch_answers (map fst plans))" for k t
    using Cons.IH cancel_answers by simp
  have unknown: "gives (case x of (content, msg) \<Rightarrow> andThen (run_plans env opts dir (tokens + message_cost env msg) plans)
      (\<lambda>b. give (batch_cons msg (overflow_of c msg content) b))) (batch_answers (c # map fst plans))"
    if "case x of (content, msg) \<Rightarrow> answers msg c" for x
    using that by (cases x) (simp add: rest Cons.IH)
  have settled: "gives (case x of (content, msg) \<Rightarrow> andThen (ctx_Err env) (\<lambda>k. andThen (if k \<noteq> None
        then cancel_batch env (map fst plans) else run_plans env opts dir (tokens + message_cost env msg) plans)
      (\<lambda>b. give (batch_cons msg (overflow_of c msg content) b)))) (batch_answers (c # map fst plans))"
    if "case x of (content, msg) \<Rightarrow> answers msg c" for x
    using that by (cases x) (simp del: not_None_eq add: gives_then rest c)
  show ?case unfolding p run_plans.simps list.map fst_conv
  proof (rule gives_then, intro gives_if)
    show "gives (cancel_batch env (c # map fst plans)) (batch_answers (c # map fst plans))" by (rule cancel_answers)
    show "gives (andThen (unknown_tool env opts tokens c) (\<lambda>(content, msg).
        andThen (run_plans env opts dir (tokens + message_cost env msg) plans)
          (\<lambda>b. give (batch_cons msg (overflow_of c msg content) b)))) (batch_answers (c # map fst plans))"
      by (rule gives_andThen[OF settled_answers(1)]) (rule unknown)
    show "gives (andThen (session_emit env ev) (\<lambda>_. andThen (attempt (registry_Execute env c dir)) (\<lambda>outcome.
        andThen (settle_call env opts dir tokens c outcome) (\<lambda>(content, msg). andThen (ctx_Err env) (\<lambda>k.
          andThen (if k \<noteq> None then cancel_batch env (map fst plans)
                   else run_plans env opts dir (tokens + message_cost env msg) plans)
            (\<lambda>b. give (batch_cons msg (overflow_of c msg content) b))))))) (batch_answers (c # map fst plans))" for ev
      by (rule gives_then, rule gives_then, rule gives_andThen[OF settled_answers(2)]) (rule settled)
  qed
qed (simp add: gives_give batch_answers_def)

lemma execute_answers: "gives (executeToolCalls env opts messages calls) (batch_answers calls)"
proof -
  have p: "gives (run_plans env opts dir t (map (\<lambda>c. (c, tool c)) calls)) (batch_answers calls)" for dir t tool
    using run_plans_answers[of env opts dir t "map (\<lambda>c. (c, tool c)) calls"] by (simp add: o_def)
  have e: "gives (andThen (ctx_Err env) (\<lambda>c. if c \<noteq> None then cancel_batch env calls else fail e)) (batch_answers calls)" for e
    by (intro gives_then gives_rules cancel_answers)
  show ?thesis unfolding executeToolCalls_def Let_def
  proof (rule gives_then)
    fix dir
    let ?t = "estimateRunPromptTokens env opts messages"
    let ?k = "\<lambda>s answer. case answer of
         Inl e \<Rightarrow> andThen (ctx_Err env) (\<lambda>c. if c \<noteq> None then cancel_batch env calls else fail e)
       | Inr result \<Rightarrow> if \<not> ap_Allow result
            then deniedToolCalls env opts (if ap_Reason result = [] then ''Tool execution denied.'' else ap_Reason result) ?t calls
            else run_plans env opts dir ?t (map (\<lambda>call. (call, registry_Get (se_Tools s) (ac_Name call))) calls)"
    have k: "gives (andThen f (?k s)) (batch_answers calls)" for f s
      by (rule gives_then) (auto simp del: not_None_eq split: sum.splits intro: e p denied_answers)
    show "gives (\<lambda>s. if approval_request s calls = []
        then run_plans env opts dir ?t (map (\<lambda>call. (call, registry_Get (se_Tools s) (ac_Name call))) calls) s
        else andThen (attempt (authorizeToolCalls env (approval_request s calls))) (?k s) s) (batch_answers calls)"
      unfolding gives_def
    proof (intro allI impI)
      fix s b s1
      assume r: "(if approval_request s calls = []
        then run_plans env opts dir ?t (map (\<lambda>call. (call, registry_Get (se_Tools s) (ac_Name call))) calls) s
        else andThen (attempt (authorizeToolCalls env (approval_request s calls))) (?k s) s) = (Inr b, s1)"
      show "batch_answers calls b"
      proof (cases "approval_request s calls = []")
        case True
        with r show ?thesis by (simp add: givesD[OF p])
      next
        case False
        from r[unfolded if_not_P[OF False]] show ?thesis by (rule givesD[OF k])
      qed
    qed
  qed
qed

section \<open>Compaction\<close>

text \<open>What the session asks of its compactor.\<close>

definition orderly_compactor :: "env \<Rightarrow> bool" where
  "orderly_compactor env \<longleftrightarrow> (\<forall>c h. en_Compactor env = Some c \<longrightarrow> history_compactor (cm_MaybeCompact c h))"

text \<open>An answer of the model that is in order: its calls have ids of their own, and none is a mark of a compaction.\<close>

definition orderly_assistant :: "api_message \<Rightarrow> bool" where
  "orderly_assistant a \<longleftrightarrow> am_Role a = ''assistant'' \<and> distinct (map ac_ID (am_ToolCalls a))
     \<and> (\<forall>c \<in> set (am_ToolCalls a). ac_Name c \<noteq> CompactionToolName)"

lemma conversation_answered:
  assumes "orderly_assistant a" and "list_all2 answers ts (am_ToolCalls a)" shows "conversation (a # ts)"
proof -
  have "length ts = length (am_ToolCalls a)" using assms(2) by (rule list_all2_lengthD)
  moreover have "\<not> isCompactionToolCall a"
    using assms(1) by (auto simp: orderly_assistant_def isCompactionToolCall_def isCompactionToolName_def list_ex_iff)
  ultimately show ?thesis using assms by (simp add: orderly_assistant_def)
qed

lemma find_is_member: "find P xs = Some x \<Longrightarrow> x \<in> set xs \<and> P x"
  by (induction xs) (auto split: if_splits)

lemma refit_answers:
  assumes "list_all2 answers ms calls" and "set calls \<subseteq> set all" and "distinct (map ac_ID all)"
    and "\<forall>ov \<in> set overflows. \<exists>c \<in> set all. ov_toolName ov = ac_Name c \<and> ov_toolCallID ov = ac_ID c"
  shows "list_all2 answers (refit env opts overflows tokens ms) calls"
  using assms(1,2)
proof (induction ms calls arbitrary: tokens rule: list_all2_induct)
  case (Cons m ms c calls)
  let ?found = "find (\<lambda>ov. ov_toolCallID ov = am_ToolCallID m) (rev overflows)"
  have m: "am_ToolName m = ac_Name c" "am_ToolCallID m = ac_ID c" using Cons.hyps(1) by (auto simp: answers_def)
  have n: "ov_toolName ov = ac_Name c" if "?found = Some ov" for ov
  proof -
    have "ov \<in> set overflows" "ov_toolCallID ov = ac_ID c" using find_is_member[OF that] m by simp_all
    with assms(4) obtain c' where c': "c' \<in> set all" "ov_toolName ov = ac_Name c'" "ac_ID c' = ac_ID c" by force
    then have "c' = c" using assms(3) Cons.prems by (auto simp: distinct_map dest: inj_onD)
    with c' show ?thesis by simp
  qed
  have name: "(case ?found of None \<Rightarrow> am_ToolName m
      | Some ov \<Rightarrow> if ov_toolName ov \<noteq> [] then ov_toolName ov else am_ToolName m) = ac_Name c"
    using m n by (auto split: option.splits)
  show ?case using Cons.IH Cons.prems tool_message_answers(3)[of env opts c]
    by (simp add: Let_def m(2) name[unfolded m(2)])
qed simp

lemma skip_compaction_keeps: "conversation ms \<Longrightarrow> gives (skip_compaction env ms n t r) (\<lambda>(ms', _, _). conversation ms')"
  unfolding skip_compaction_def by (auto intro!: gives_if gives_then gives_give)

lemma maybeCompact_keeps:
  assumes "orderly_compactor env" and "conversation ms"
  shows "gives (maybeCompact env opts ms latest n) (\<lambda>(ms', _, _). conversation ms')"
proof (cases "en_Compactor env")
  case None
  then show ?thesis using assms(2) by (simp add: maybeCompact_def gives_give)
next
  case (Some c)
  let ?req = "compactionRequest opts ms latest"
  have "conversation (rs_Messages (fst (cm_MaybeCompact c h ?req)))" for h
    using assms Some history_compactor.keeps_conversation[of "cm_MaybeCompact c h" ?req]
    by (simp add: orderly_compactor_def compactionRequest_def)
  then have a: "gives (ask_compactor c ?req) (\<lambda>(r, _). conversation (rs_Messages r))"
    by (simp add: gives_def ask_compactor_def split_beta)
  have s: "gives (skip_compaction env ms n t r) (\<lambda>(ms', _, _). conversation ms')" for t r
    by (rule skip_compaction_keeps[OF assms(2)])
  show ?thesis unfolding maybeCompact_def Some option.case Let_def
    by (rule gives_then, rule gives_andThen[OF a]) (auto split: prod.splits intro!: gives_if gives_then gives_give s)
qed

lemma overflow_keeps:
  assumes "orderly_compactor env" and "conversation ms" and "orderly_assistant a" and "batch_answers (am_ToolCalls a) b"
    and "ba_overflows b \<noteq> []"
  shows "gives (compactForToolOutputOverflow env opts ms latest a (ba_messages b) (ba_overflows b) n) (\<lambda>(ms', _, _). conversation ms')"
proof (cases "en_Compactor env")
  case None
  then show ?thesis using assms(2) by (simp add: compactForToolOutputOverflow_def gives_give)
next
  case (Some c)
  let ?req = "(compactionRequest opts ms latest)\<lparr>rq_Force := True, rq_KeepUserTurns := Some 0\<rparr>"
  have "am_ToolCalls a \<noteq> []" using assms(4,5) by (cases "ba_overflows b") (auto simp: batch_answers_def)
  then have ne: "\<not> messageEmpty a" by (simp add: messageEmpty_def)
  have t: "conversation (a # refit env opts (ba_overflows b) tokens (ba_messages b))" for tokens
    using assms(3,4) by (intro conversation_answered refit_answers[where all = "am_ToolCalls a"])
      (auto simp: orderly_assistant_def batch_answers_def)
  have "conversation (rs_Messages (fst (cm_MaybeCompact c h ?req)) @ a # refit env opts (ba_overflows b) tokens (ba_messages b))" for h tokens
    using assms(1,2) Some history_compactor.compacted_append[of "cm_MaybeCompact c h" ?req, OF _ _ t]
    by (simp add: orderly_compactor_def compactionRequest_def)
  then have k: "gives (ask_compactor c ?req) (\<lambda>(r, _). \<forall>tokens. conversation (rs_Messages r @ a # refit env opts (ba_overflows b) tokens (ba_messages b)))"
    by (simp add: gives_def ask_compactor_def split_beta)
  have s: "gives (skip_compaction env ms n t r) (\<lambda>(ms', _, _). conversation ms')" for t r
    by (rule skip_compaction_keeps[OF assms(2)])
  show ?thesis unfolding compactForToolOutputOverflow_def Some option.case Let_def
    by (rule gives_then, rule gives_andThen[OF k]) (auto simp: ne split: prod.splits intro!: gives_if gives_then gives_give s)
qed

section \<open>A round\<close>

text \<open>
  What is assumed of the chat client: it answers in the role of the assistant, gives the calls of
  an answer ids of their own, and does not call the tool that marks a compaction.
\<close>

definition orderly_chat :: "env \<Rightarrow> bool" where
  "orderly_chat env \<longleftrightarrow> (\<forall>h req. let rs = fst (en_chat env h req); calls = concat (map (\<lambda>r. am_ToolCalls (cr_Message r)) rs)
     in (\<forall>r \<in> set rs. am_Role (cr_Message r) \<in> {[], ''assistant''})
        \<and> distinct (map ac_ID calls) \<and> (\<forall>c \<in> set calls. ac_Name c \<noteq> CompactionToolName))"

lemma receive_prefix:
  assumes "receive env rs a latest s = ((a', l, e), s1)" and "am_Role a = ''assistant''"
    and "\<forall>r \<in> set rs. am_Role (cr_Message r) \<in> {[], ''assistant''}"
  shows "am_Role a' = ''assistant''
    \<and> prefix (am_ToolCalls a') (am_ToolCalls a @ concat (map (\<lambda>r. am_ToolCalls (cr_Message r)) rs))"
  using assms
proof (induction rs arbitrary: a latest s)
  case (Cons r rs)
  let ?m = "cr_Message r"
  have p: "prefix x (y @ z) \<Longrightarrow> prefix x (y @ z @ w)" for x y z w :: "api_call list"
    by (metis append_assoc prefix_prefix)
  let ?a0 = "if am_Role ?m \<noteq> [] then a\<lparr>am_Role := am_Role ?m\<rparr> else a"
  have a0: "am_Role ?a0 = ''assistant''" "am_ToolCalls ?a0 = am_ToolCalls a" using Cons.prems(2,3) by auto
  show ?case
  proof (cases "messageEmpty ?m")
    case True
    then have "am_ToolCalls ?m = []" by (simp add: messageEmpty_def)
    then show ?thesis using Cons.IH[of ?a0 r s] True Cons.prems a0 by (simp add: Let_def)
  next
    case False
    let ?a3 = "?a0\<lparr>am_Thinking := am_Thinking ?a0 @ am_Thinking ?m, am_Content := am_Content ?a0 @ am_Content ?m,
      am_ToolCalls := am_ToolCalls ?a0 @ am_ToolCalls ?m\<rparr>"
    obtain r1 t1 where 1: "emit_if (am_Thinking ?m \<noteq> []) env (EvThinkingDelta (am_Thinking ?m)) s = (r1, t1)" by fastforce
    obtain r2 t2 where 2: "emit_if (am_Content ?m \<noteq> []) env (EvMessageDelta (am_Content ?m)) t1 = (r2, t2)" by fastforce
    obtain r3 t3 where 3: "emit_if (am_ToolCalls ?m \<noteq> []) env (EvToolCallDetected (am_ToolCalls ?m)) t2 = (r3, t3)" by fastforce
    have "(am_Role a' = ''assistant'' \<and> (am_ToolCalls a' = am_ToolCalls a \<or> am_ToolCalls a' = am_ToolCalls a @ am_ToolCalls ?m))
        \<or> receive env rs ?a3 r t3 = ((a', l, e), s1)"
      using Cons.prems(1) False a0 by (auto simp: Let_def 1 2 3 split: sum.splits)
    then show ?thesis using Cons.IH[of ?a3 r t3] Cons.prems(3) a0 by (auto simp: p)
  qed
qed simp

lemma chatRound_orderly:
  assumes "orderly_chat env" and "chatRound env opts ms latest s = ((l, Inr (a, canceled)), s1)"
  shows "orderly_assistant a"
proof -
  let ?req = "buildChatRequest opts ms (if se_DisableTools s then [] else availableTools s)"
  obtain rs e where c: "en_chat env (se_log s) ?req = (rs, e)" by fastforce
  obtain a' l' e' s2 where r: "receive env rs (plain_message ''assistant'' []) latest (logged (Chatted ?req) s) = ((a', l', e'), s2)"
    by (metis prod.collapse)
  have "a = a'"
    using assms(2) unfolding chatRound_def Let_def c r prod.case
    by (auto split: if_splits option.splits prod.splits sum.splits bool.splits)
  let ?calls = "concat (map (\<lambda>r. am_ToolCalls (cr_Message r)) rs)"
  have o: "\<forall>r \<in> set rs. am_Role (cr_Message r) \<in> {[], ''assistant''}" "distinct (map ac_ID ?calls)"
    "\<forall>c \<in> set ?calls. ac_Name c \<noteq> CompactionToolName"
    using assms(1) c unfolding orderly_chat_def Let_def by (metis fst_conv)+
  have "am_Role a' = ''assistant''" "prefix (am_ToolCalls a') ?calls"
    using receive_prefix[OF r _ o(1)] by (simp_all add: plain_message_def)
  then obtain zs where "?calls = am_ToolCalls a' @ zs" by (auto simp: prefix_def)
  with o(2,3) \<open>am_Role a' = ''assistant''\<close> \<open>a = a'\<close> show ?thesis
    by (auto simp: orderly_assistant_def simp del: map_concat set_concat)
qed

section \<open>The history of a run\<close>

definition in_order :: "run_state \<Rightarrow> bool" where
  "in_order st \<longleftrightarrow>
     (case rt_phase st of
        PhaseModel \<Rightarrow> conversation (rt_messages st)
      | PhaseTools \<Rightarrow> orderly_assistant (rt_assistant st)
          \<and> (\<exists>ms. rt_messages st = ms @ [rt_assistant st] \<and> conversation ms)
      | PhaseCompact \<Rightarrow> conversation (rt_messages st) \<and> (\<forall>b. rt_toolBatch st = Some b \<longrightarrow>
          orderly_assistant (rt_assistant st) \<and> batch_answers (am_ToolCalls (rt_assistant st)) b)
      | PhaseDone \<Rightarrow> conversation (rt_messages st))"

lemma conversation_round:
  "conversation ms \<Longrightarrow> orderly_assistant a \<Longrightarrow> list_all2 answers ts (am_ToolCalls a) \<Longrightarrow> conversation ((ms @ [a]) @ ts)"
  using conversation_append[OF _ conversation_answered] by simp

lemma after_answer_in_order:
  assumes "conversation ms" and "orderly_assistant (rt_assistant st)" and "se_Tools s \<noteq> None"
    and "rt_messages st = ms @ (if messageEmpty (rt_assistant st) then [] else [rt_assistant st])"
    and "after_answer env opts st s = (Inr st1, s1)"
  shows "in_order st1"
proof (cases "am_ToolCalls (rt_assistant st) = []")
  case True
  then have "conversation (rt_messages st)"
    using assms(1,4) conversation_round[OF assms(1,2), of "[]"] by simp
  then show ?thesis using assms(5) True by (auto simp: after_answer_def Let_def give_def in_order_def)
next
  case False
  let ?a = "rt_assistant st" and ?calls = "am_ToolCalls (rt_assistant st)"
  have m: "rt_messages st = ms @ [?a]" using assms(4) False by (simp add: messageEmpty_def)
  note c = conversation_round[OF assms(1,2), folded m]
  have sk: "gives (or_report env (skipToolCalls env t ?calls)) (\<lambda>ts. list_all2 answers ts ?calls)" for t
    by (intro gives_report skip_answers)
  have ds: "gives (or_report env (disabledToolCalls env opts t ?calls)) (batch_answers ?calls)" for t
    by (intro gives_report disabled_answers)
  have canceled: "gives (andThen (or_report env (skipToolCalls env canceled_text ?calls))
      (\<lambda>skipped. give (finishCanceled (st\<lparr>rt_messages := rt_messages st @ skipped\<rparr>)))) in_order"
    by (rule gives_andThen[OF sk]) (auto intro!: gives_give simp: in_order_def finishCanceled_def finishWith_def dest: c)
  have disabled: "gives (andThen (or_report env (disabledToolCalls env opts t ?calls))
      (\<lambda>b. give (st\<lparr>rt_messages := rt_messages st @ ba_messages b, rt_toolBatch := Some b, rt_phase := PhaseCompact\<rparr>))) in_order" for t
    by (rule gives_andThen[OF ds]) (use assms(2) in \<open>auto intro!: gives_give c simp: in_order_def batch_answers_def\<close>)
  have limit: "gives (andThen (or_report env (skipToolCalls env (limit_text n) ?calls))
      (\<lambda>ms. andThen (emit_only env ev) (\<lambda>_. give (finishError e (st\<lparr>rt_messages := rt_messages st @ ms\<rparr>))))) in_order" for n ev e
    by (rule gives_andThen[OF sk], rule gives_then)
      (auto intro!: gives_give simp: in_order_def finishError_def finishWith_def dest: c)
  have tools: "in_order (st\<lparr>rt_phase := PhaseTools\<rparr>)" using assms(1,2) m by (simp add: in_order_def)
  show ?thesis
    using assms(3,5) False tools givesD[OF canceled] givesD[OF disabled] givesD[OF limit]
    by (auto simp: after_answer_def Let_def give_def split: if_splits)
qed

lemma run_step_in_order:
  assumes "orderly_chat env" and "orderly_compactor env" and "in_order st" and "se_Tools s \<noteq> None"
    and "run_step env opts st s = (Inr st1, s1)"
  shows "in_order st1"
proof (cases "rt_phase st")
  case PhaseModel
  then have ms: "conversation (rt_messages st)" using assms(3) by (simp add: in_order_def)
  obtain l y s2 where c: "chatRound env opts (rt_messages st) (rt_latest st) s = ((l, y), s2)" by (metis prod.collapse)
  have r: "runModelStep env opts st s = (Inr st1, s1)" using assms(5) PhaseModel by (simp add: run_step_def)
  show ?thesis
  proof (cases y)
    case (Inl e)
    have "conversation (rt_messages st @ [retry_message t])" for t
      by (rule conversation_append[OF ms]) (simp add: retry_message_def plain_message_def isCompactionToolCall_def)
    then show ?thesis using r c Inl PhaseModel
      by (auto simp: runModelStep_def Let_def give_def or_report_def fail_def in_order_def split: option.splits if_splits)
  next
    case (Inr z)
    obtain a canceled where z: "z = (a, canceled)" by fastforce
    have oa: "orderly_assistant a" using chatRound_orderly[OF assms(1)] c Inr z by blast
    obtain req where "quietly (logged (Chatted req) s) s2" using chatRound_log[OF c] by blast
    then have "se_Tools s2 \<noteq> None" using assms(4) by (simp add: quietly_def logged_def)
    then show ?thesis using after_answer_in_order[OF ms, of "st\<lparr>rt_latest := l, rt_consecutiveModelErrors := 0, rt_assistant := a,
        rt_canceled := canceled, rt_messages := rt_messages st @ (if messageEmpty a then [] else [a])\<rparr>" s2] oa r c Inr z
      by (simp add: runModelStep_def Let_def)
  qed
next
  case PhaseTools
  then obtain ms where ms: "rt_messages st = ms @ [rt_assistant st]" "conversation ms" "orderly_assistant (rt_assistant st)"
    using assms(3) by (auto simp: in_order_def)
  obtain b where b: "executeToolCalls env opts (rt_messages st) (am_ToolCalls (rt_assistant st)) s = (Inr b, s1)"
    "st1 = st\<lparr>rt_messages := rt_messages st @ ba_messages b, rt_toolBatch := Some b, rt_phase := PhaseCompact\<rparr>"
    using assms(5) PhaseTools by (auto simp: run_step_def runToolStep_eq split: prod.splits sum.splits)
  have "batch_answers (am_ToolCalls (rt_assistant st)) b" by (rule givesD[OF execute_answers b(1)])
  then show ?thesis using ms conversation_round[OF ms(2,3), folded ms(1)] by (simp add: b(2) in_order_def batch_answers_def)
next
  case PhaseCompact
  then have ms: "conversation (rt_messages st)"
    and b: "\<And>b. rt_toolBatch st = Some b \<Longrightarrow> orderly_assistant (rt_assistant st) \<and> batch_answers (am_ToolCalls (rt_assistant st)) b"
    using assms(3) by (auto simp: in_order_def)
  have "gives (case rt_toolBatch st of
      Some b \<Rightarrow> if ba_overflows b \<noteq> []
        then compactForToolOutputOverflow env opts (rt_messages st) (rt_latest st) (rt_assistant st) (ba_messages b)
               (ba_overflows b) (rt_skipNotified st)
        else maybeCompact env opts (rt_messages st) (rt_latest st) (rt_skipNotified st)
    | None \<Rightarrow> maybeCompact env opts (rt_messages st) (rt_latest st) (rt_skipNotified st)) (\<lambda>(ms', _, _). conversation ms')"
    using maybeCompact_keeps[OF assms(2) ms] overflow_keeps[OF assms(2) ms] b by (auto split: option.splits)
  from gives_andThen[OF this] have "gives (runCompactionStep env opts st) in_order"
    unfolding runCompactionStep_def Let_def
    by (rule meta_mp[rotated]) (auto intro!: gives_give gives_then split: prod.splits option.splits batch_stop.splits
        simp: in_order_def finishError_def finishCanceled_def finishDone_def finishDenied_def finishWith_def next_round_def)
  then show ?thesis using assms(5) PhaseCompact by (auto simp: run_step_def dest: givesD)
next
  case PhaseDone
  then show ?thesis using assms(3,5) by (simp add: run_step_def give_def)
qed

section \<open>The start of a run\<close>

lemma sanitized_fields [simp]:
  "am_Role (sanitizeMessageForRun m) = am_Role m" "am_ToolCalls (sanitizeMessageForRun m) = am_ToolCalls m"
  "am_ToolName (sanitizeMessageForRun m) = am_ToolName m" "am_ToolCallID (sanitizeMessageForRun m) = am_ToolCallID m"
  by (simp_all add: sanitizeMessageForRun_def)

lemma sanitized_answers: "answers m c \<Longrightarrow> answers (sanitizeMessageForRun m) c"
  by (simp add: answers_def)

lemma sanitized_summary: "isCompactionSummary m \<Longrightarrow> isCompactionSummary (sanitizeMessageForRun m)"
  using truncate_keeps_prefix[of CompactionSummaryMessagePrefix "am_Content m"]
  by (auto simp: isCompactionSummary_def sanitizeMessageForRun_def CompactionSummaryMessagePrefix_def)

lemma sanitized_conversation: "conversation ms \<Longrightarrow> conversation (map sanitizeMessageForRun ms)"
proof (induction ms rule: conversation.induct)
  case (2 m ms)
  let ?n = "length (am_ToolCalls m)"
  note c = "2.prems"[unfolded conversation.simps(2)]
  have "list_all2 answers (map sanitizeMessageForRun (take ?n ms)) (am_ToolCalls m)"
    using c sanitized_answers by (auto simp: list.rel_map elim!: list_all2_mono)
  moreover have "isCompactionToolCall (sanitizeMessageForRun m) = isCompactionToolCall m" by (simp add: isCompactionToolCall_def)
  moreover have "isCompactionSummary (hd (map sanitizeMessageForRun ms))" if "isCompactionToolCall m"
  proof -
    have "ms \<noteq> []" using c that by (auto dest: list_all2_lengthD)
    then show ?thesis using c that sanitized_summary by (simp add: hd_map)
  qed
  ultimately show ?case using c "2.IH" by (simp add: take_map drop_map)
qed simp

lemma skill_conversation: "gives (activateSkill env opts) conversation"
proof -
  have "conversation [(plain_message ''assistant'' [])\<lparr>am_ToolCalls := [\<lparr>ac_ID = i, ac_Index = 0, ac_Name = ''skill'', ac_Arguments = g\<rparr>]\<rparr>,
      (plain_message ''tool'' t)\<lparr>am_ToolName := ''skill'', am_ToolCallID := i\<rparr>]" for i g t
    by (simp add: plain_message_def answers_def isCompactionToolCall_def isCompactionToolName_def CompactionToolName_def)
  then show ?thesis unfolding activateSkill_def Let_def
    by (auto simp del: conversation.simps(2) intro!: gives_if gives_then gives_give gives_fail split: option.splits sum.splits prod.splits)
qed

lemma start_conversation:
  assumes "conversation (ro_Messages opts @ ro_NewMessages opts)" shows "gives (start_messages env opts) conversation"
proof -
  have b: "gives (buildRunMessages env opts) conversation"
    using sanitized_conversation[OF assms] unfolding buildRunMessages_def Let_def
    by (auto intro!: gives_give gives_report gives_fail split: option.splits)
  have "gives (andThen (or_report env (activateSkill env opts)) (\<lambda>activated. if activated = [] then give messages
      else (case checkPreflightPromptBudget env opts (messages @ activated) of
              Some e \<Rightarrow> or_report env (fail e) | None \<Rightarrow> give (messages @ activated)))) conversation" if "conversation messages" for messages
    using that by (intro gives_andThen[OF gives_report[OF skill_conversation]])
      (auto intro!: gives_give gives_report gives_fail conversation_append split: option.splits)
  then show ?thesis unfolding start_messages_def
    by (auto intro!: gives_fail gives_andThen[OF b] split: option.splits)
qed

section \<open>The property\<close>

lemma reached_in_order:
  assumes "run_reaches env opts s0 p s" and "orderly_chat env" and "orderly_compactor env" and "se_Tools s0 \<noteq> None"
    and "conversation (ro_Messages opts @ ro_NewMessages opts)" and "se_log s0 = []" and "p = Some st"
  shows "in_order st"
  using assms(1,7)
proof (induction arbitrary: st rule: run_reaches.induct)
  case (starts ms s)
  then show ?case using givesD[OF start_conversation[OF assms(5)] starts.hyps] by (auto simp: in_order_def start_state_def)
next
  case (steps st1 s st2 s1)
  have "se_Tools s = se_Tools s0" using run_in_law[OF steps.hyps(1) assms(6)] by (simp add: in_law_def)
  then show ?case using run_step_in_order[OF assms(2,3) steps.IH _ steps.hyps(3)] steps.prems assms(4) by simp
qed simp_all

lemma simple_is_orderly:
  "en_Compactor env = None \<or> (\<exists>lower marshal es chat c. en_Compactor env = Some (as_compactor lower marshal es chat c))
    \<Longrightarrow> orderly_compactor env"
  using simple.history_compactor_axioms by (auto simp: orderly_compactor_def as_compactor_def)

lemma loop_reaches_result:
  "run_reaches env opts s0 (Some st) s \<Longrightarrow> agent_loop n env opts st s = Some (Inr (res, e), s1)
    \<Longrightarrow> \<exists>st1 s2. run_reaches env opts s0 (Some st1) s2 \<and> rt_phase st1 = PhaseDone \<and> re_Messages res = rt_messages st1"
proof (induction n arbitrary: st s)
  case (Suc n)
  show ?case
  proof (cases "rt_phase st = PhaseDone")
    case True
    then have f: "finishRun env st s = (Inr (res, e), s1)" using Suc.prems(2) by simp
    have "gives (finishRun env st) (\<lambda>(r, _). re_Messages r = rt_messages st)"
      unfolding finishRun_def by (rule gives_then) (simp add: gives_def)
    from givesD[OF this f] show ?thesis using Suc.prems(1) True by auto
  next
    case False
    obtain x s2 where x: "run_step env opts st s = (x, s2)" by fastforce
    with Suc.prems(2) False obtain st2 where s2: "x = Inr st2" by (cases x) auto
    have "run_reaches env opts s0 (Some st2) s2" using steps[OF Suc.prems(1) False] x s2 by simp
    from Suc.IH[OF this] Suc.prems(2) False x s2 show ?thesis by simp
  qed
qed simp

text \<open>The requests that were sent.\<close>

definition unchatted :: "action \<Rightarrow> bool" where
  "unchatted a \<longleftrightarrow> (\<forall>req. a \<noteq> Chatted req)"

lemma quiet_unchatted: "quiet_action a \<Longrightarrow> unchatted a"
  by (cases a) (auto simp: unchatted_def)

lemma authorize_unchatted: "adds_only unchatted (authorizeToolCalls env q)"
  by (auto simp: adds_only_def authorizeToolCalls_def logged_def unchatted_def Let_def split_beta split: sum.splits)

lemma attempt_adds: "adds_only K f \<Longrightarrow> adds_only K (attempt f)"
  by (simp add: adds_only_def attempt_def split: prod.splits) (metis snd_conv)

lemma execute_unchatted: "adds_only unchatted (executeToolCalls env opts messages calls)"
proof -
  note q = adds_quiet[OF quiet_unchatted]
  have run: "adds_only unchatted (run_plans env opts dir tokens plans)" for dir tokens plans
    by (rule run_plans_adds[OF quiet_unchatted]) (simp_all add: unchatted_def)
  have late: "quiet_act (andThen (ctx_Err env) (\<lambda>c. if c \<noteq> None then cancel_batch env calls else fail e))" for e
    by (intro quiet_rules)
  have "adds_only unchatted (andThen (attempt (authorizeToolCalls env r)) (\<lambda>answer.
      case answer of
        Inl e \<Rightarrow> andThen (ctx_Err env) (\<lambda>c. if c \<noteq> None then cancel_batch env calls else fail e)
      | Inr result \<Rightarrow>
          if \<not> ap_Allow result
          then deniedToolCalls env opts (if ap_Reason result = [] then ''Tool execution denied.'' else ap_Reason result) tokens calls
          else run_plans env opts dir tokens plans))" for r tokens dir plans
    by (rule adds_andThen[OF attempt_adds[OF authorize_unchatted]]) (auto simp del: not_None_eq split: sum.splits intro: run q late quiet_denied)
  note answered = this
  show ?thesis unfolding executeToolCalls_def Let_def
  proof (rule adds_andThen[OF adds_quiet[OF quiet_unchatted quiet_currentWorkingDir]], assumption, goal_cases)
    case (1 dir)
    show ?case unfolding adds_only_def
    proof
      fix s :: session
      let ?plans = "map (\<lambda>call. (call, registry_Get (se_Tools s) (ac_Name call))) calls"
      note r = run[of dir "estimateRunPromptTokens env opts messages" ?plans, unfolded adds_only_def, rule_format, of s]
      note n = answered[of "approval_request s calls" "estimateRunPromptTokens env opts messages" dir ?plans,
          unfolded adds_only_def, rule_format, of s]
      show "\<exists>b. se_log (snd (if approval_request s calls = [] then run_plans env opts dir (estimateRunPromptTokens env opts messages) ?plans s
          else andThen (attempt (authorizeToolCalls env (approval_request s calls))) (\<lambda>answer.
            case answer of
              Inl e \<Rightarrow> andThen (ctx_Err env) (\<lambda>c. if c \<noteq> None then cancel_batch env calls else fail e)
            | Inr result \<Rightarrow>
                if \<not> ap_Allow result
                then deniedToolCalls env opts (if ap_Reason result = [] then ''Tool execution denied.'' else ap_Reason result)
                  (estimateRunPromptTokens env opts messages) calls
                else run_plans env opts dir (estimateRunPromptTokens env opts messages) ?plans) s)) = se_log s @ b \<and> (\<forall>a \<in> set b. unchatted a)"
        using r n by (cases "approval_request s calls = []") (simp_all only: if_True if_False simp_thms)
    qed
  qed
qed

definition requests_in_order :: "session \<Rightarrow> bool" where
  "requests_in_order s \<longleftrightarrow> (\<forall>req. Chatted req \<in> set (se_log s) \<longrightarrow> conversation (rr_Messages req))"

lemma request_conversation: "conversation ms \<Longrightarrow> conversation (rr_Messages (buildChatRequest opts ms tools))"
  using conversation_append[OF _ sanitized_conversation, of "[plain_message ''system'' (ro_SystemPrompt opts)]" ms]
  by (simp add: buildChatRequest_def sanitizeMessagesForRequest_def sanitized_conversation plain_message_def isCompactionToolCall_def)

lemma requests_kept: "requests_in_order s \<Longrightarrow> se_log s1 = se_log s @ b \<Longrightarrow> \<forall>a \<in> set b. unchatted a \<Longrightarrow> requests_in_order s1"
  by (auto simp: requests_in_order_def unchatted_def)

lemma requests_quiet: "requests_in_order s \<Longrightarrow> quietly s s1 \<Longrightarrow> requests_in_order s1"
  using requests_kept quiet_unchatted unfolding quietly_def by metis

lemma requests_step:
  assumes "requests_in_order s" and "in_order st" and "rt_phase st \<noteq> PhaseDone" and "run_step env opts st s = (x, s1)"
  shows "requests_in_order s1"
proof (cases "rt_phase st")
  case PhaseModel
  then obtain tools where q: "quietly (logged (Chatted (buildChatRequest opts (rt_messages st) tools)) s) s1"
    using assms(4) runModelStep_log by (fastforce simp: run_step_def)
  have "conversation (rt_messages st)" using assms(2) PhaseModel by (simp add: in_order_def)
  then have "requests_in_order (logged (Chatted (buildChatRequest opts (rt_messages st) tools)) s)"
    using assms(1) request_conversation by (auto simp: requests_in_order_def logged_def)
  then show ?thesis using q by (rule requests_quiet)
next
  case PhaseTools
  obtain y s2 where y: "executeToolCalls env opts (rt_messages st) (am_ToolCalls (rt_assistant st)) s = (y, s2)" by fastforce
  have 2: "requests_in_order s2" using requests_kept[OF assms(1)] adds_onlyD[OF execute_unchatted y] by blast
  have "requests_in_order (snd (session_emit env ev s2))" for ev
    by (rule requests_quiet[OF 2]) (use quiet_emit in \<open>simp add: quiet_act_def\<close>)
  with 2 show ?thesis using assms(4) PhaseTools y
    by (cases y) (auto simp: run_step_def runToolStep_eq)
next
  case PhaseCompact
  then show ?thesis using assms(1,4) requests_quiet quietD[OF quiet_compaction_step] by (fastforce simp: run_step_def)
qed (use assms(3) in simp)

text \<open>
  C4.  The history keeps its order.  In a session with a registry of tools and with no compactor or
  the simple one, where the given history is in order and in each answer of the model the calls
  have ids of their own and none has the name of the compaction tool: in every request that is
  sent to the model, and in every result of a run, each call is answered exactly once, by a
  message with its name and id, in the order of the calls and right after them, and there is no
  other tool message.  This holds for calls that ran, failed, are unknown, were denied, canceled
  or cut by the limit, and across compactions.
\<close>

theorem calls_are_answered_in_order:
  assumes "orderly_chat env"
    and "en_Compactor env = None \<or> (\<exists>lower marshal es chat c. en_Compactor env = Some (as_compactor lower marshal es chat c))"
    and "se_Tools s0 \<noteq> None" and "se_log s0 = []" and "conversation (ro_Messages opts @ ro_NewMessages opts)"
  shows "(\<forall>p s req. run_reaches env opts s0 p s \<and> Chatted req \<in> set (se_log s) \<longrightarrow> conversation (rr_Messages req))
    \<and> (\<forall>st s. run_reaches env opts s0 (Some st) s \<and> rt_phase st = PhaseModel \<longrightarrow> conversation (rt_messages st))
    \<and> (\<forall>n res e s1. Run n env opts s0 = Some (Inr (res, e), s1) \<longrightarrow> conversation (re_Messages res))"
proof (intro conjI)
  have r: "in_order st" if "run_reaches env opts s0 (Some st) s" for st s
    by (rule reached_in_order[OF that assms(1) simple_is_orderly[OF assms(2)] assms(3,5,4) refl])
  have start: "requests_in_order s" if "start_messages env opts s0 = (x, s)" for x s
    using requests_quiet[OF _ quietD[OF quiet_start that]] assms(4) by (simp add: requests_in_order_def)
  have "requests_in_order s" if "run_reaches env opts s0 p s" for p s
    using that
  proof (induction rule: run_reaches.induct)
    case (finishes st s x s1)
    then show ?case using requests_quiet quietD[OF quiet_finish] by blast
  qed (auto intro: start requests_step r)
  then show "\<forall>p s req. run_reaches env opts s0 p s \<and> Chatted req \<in> set (se_log s) \<longrightarrow> conversation (rr_Messages req)"
    unfolding requests_in_order_def by blast
  have "conversation (rt_messages st)" if "run_reaches env opts s0 (Some st) s" "rt_phase st = PhaseModel" for st s
    using r[OF that(1)] that(2) by (simp add: in_order_def)
  then show "\<forall>st s. run_reaches env opts s0 (Some st) s \<and> rt_phase st = PhaseModel \<longrightarrow> conversation (rt_messages st)" by blast
  have "conversation (re_Messages res)" if "Run n env opts s0 = Some (Inr (res, e), s1)" for n res e s1
  proof -
    obtain x s where x: "start_messages env opts s0 = (x, s)" by fastforce
    with that obtain ms where "x = Inr ms" by (cases x) (auto simp: Run_def)
    with that x have "start_messages env opts s0 = (Inr ms, s)" "agent_loop n env opts (start_state opts ms) s = Some (Inr (res, e), s1)"
      by (simp_all add: Run_def)
    then obtain st1 s2 where "run_reaches env opts s0 (Some st1) s2" "rt_phase st1 = PhaseDone" "re_Messages res = rt_messages st1"
      using loop_reaches_result[OF starts] by blast
    with r show ?thesis by (fastforce simp: in_order_def)
  qed
  then show "\<forall>n res e s1. Run n env opts s0 = Some (Inr (res, e), s1) \<longrightarrow> conversation (re_Messages res)" by blast
qed

lemma example_second_round:
  "\<exists>st s. run_reaches (example_env example_yes) example_options example_session (Some st) s \<and> rt_phase st = PhaseModel
    \<and> length (rt_messages st) = 3"
proof -
  obtain st s b where 1: "run_step (example_env example_yes) example_options example_asked example_ready = (Inr st, s)"
    "rt_phase st = PhaseCompact" "rt_toolBatch st = Some b" "ba_stop b = NotStopped" "ba_overflows b = []" "length (rt_messages st) = 3"
    using example_tool_step by blast
  have "run_reaches (example_env example_yes) example_options example_session (Some example_asked) example_ready"
    by (rule steps[OF starts[OF example_start] _ example_model_step]) (simp add: start_state_def)
  from steps[OF this _ 1(1)] have r: "run_reaches (example_env example_yes) example_options example_session (Some st) s"
    by (simp add: example_asked_def)
  have "run_step (example_env example_yes) example_options st s = (Inr (next_round (st\<lparr>rt_skipNotified := rt_skipNotified st\<rparr>)), s)"
    using 1(2-5) by (simp add: run_step_def runCompactionStep_def maybeCompact_def example_env_def act_simps)
  note r2 = steps[OF r _ this]
  have "rt_phase (next_round (st\<lparr>rt_skipNotified := rt_skipNotified st\<rparr>)) = PhaseModel"
    "length (rt_messages (next_round (st\<lparr>rt_skipNotified := rt_skipNotified st\<rparr>))) = 3"
    using 1(6) by (simp_all add: next_round_def)
  with r2 1(2) show ?thesis by (metis run_phase.distinct(11))
qed

theorem calls_are_answered_in_order_witness:
  "\<exists>st s. run_reaches (example_env example_yes) example_options example_session (Some st) s \<and> rt_phase st = PhaseModel
    \<and> length (rt_messages st) = 3 \<and> conversation (rt_messages st)"
proof -
  have "orderly_chat (example_env example_yes)"
    by (auto simp: orderly_chat_def example_env_def example_reply_def plain_message_def example_tool_call_def CompactionToolName_def)
  moreover have "conversation (ro_Messages example_options @ ro_NewMessages example_options)"
    by (simp add: example_options_def plain_message_def isCompactionToolCall_def)
  moreover have "en_Compactor (example_env example_yes) = None" "se_Tools example_session \<noteq> None" "se_log example_session = []"
    by (simp_all add: example_env_def example_session_def)
  ultimately show ?thesis
    using calls_are_answered_in_order[of "example_env example_yes" example_session example_options] example_second_round by blast
qed

text \<open>
  A session without a registry of tools ends the run when the model calls one, and the call stays
  unanswered in the result.
\<close>

lemma no_registry_unanswered:
  assumes "se_Tools s = None" and "\<not> se_DisableTools s" and "am_ToolCalls (rt_assistant st) \<noteq> []" and "\<not> rt_canceled st"
  shows "after_answer env opts st s = (Inr (finishDone st), s)"
  using assms by (simp add: after_answer_def Let_def give_def)

text \<open>
  Two calls with the same id, one of them with an output that does not fit: after the compaction
  both answers have that output, under the name of its tool.
\<close>

lemma overflow_goes_to_equal_ids:
  fixes i :: string
  assumes "b \<noteq> []"
  defines "m \<equiv> \<lambda>name content. (plain_message ''tool'' content)\<lparr>am_ToolName := name, am_ToolCallID := i\<rparr>"
  shows "\<exists>t u. refit env opts [\<lparr>ov_toolName = b, ov_toolCallID = i, ov_content = long\<rparr>] n [m a short, m b marker]
    = [toolMessageForPostCompactionContext env opts b i long t, toolMessageForPostCompactionContext env opts b i long u]"
  using assms by (auto simp: Let_def plain_message_def)

end
