(* ===== verification/AgentRounds.thy ===== *)
theory AgentRounds
  imports AgentSafety
begin

text \<open>
  The rounds of a run: with a limit and with tools a run ends whatever the model does; with tools
  disabled the limit is never looked at, and a model that keeps calling keeps the run going.
\<close>

section \<open>Tools stay enabled\<close>

definition keeps_enabled :: "'a act \<Rightarrow> bool" where
  "keeps_enabled f \<longleftrightarrow> (\<forall>s. se_DisableTools (snd (f s)) = se_DisableTools s)"

lemma quiet_keeps: "quiet_act f \<Longrightarrow> keeps_enabled f"
  by (simp add: quiet_act_def quietly_def keeps_enabled_def)

lemma keeps_andThen: "keeps_enabled f \<Longrightarrow> (\<And>x. keeps_enabled (g x)) \<Longrightarrow> keeps_enabled (andThen f g)"
  unfolding keeps_enabled_def andThen_def by (auto split: prod.splits sum.splits) (metis snd_conv)+

lemma keeps_choice: "(\<And>u. keeps_enabled (f u)) \<Longrightarrow> (\<And>u. keeps_enabled (g u)) \<Longrightarrow> keeps_enabled (\<lambda>s. if b s then f s s else g s s)"
  by (simp add: keeps_enabled_def)

lemma keepsI: "(\<And>s x s1. f s = (x, s1) \<Longrightarrow> se_DisableTools s1 = se_DisableTools s) \<Longrightarrow> keeps_enabled f"
  unfolding keeps_enabled_def by (metis prod.collapse)

lemma keepsD: "keeps_enabled f \<Longrightarrow> f s = (x, s1) \<Longrightarrow> se_DisableTools s1 = se_DisableTools s"
  by (metis keeps_enabled_def snd_conv)

lemma keeps_attempt: "keeps_enabled f \<Longrightarrow> keeps_enabled (attempt f)"
  by (rule keepsI) (auto simp: attempt_def dest: keepsD split: prod.splits)

lemma keeps_execute: "keeps_enabled (registry_Execute env call dir)"
  by (simp add: keeps_enabled_def registry_Execute_def logged_def split: option.splits)

lemma keeps_authorize: "keeps_enabled (authorizeToolCalls env q)"
  by (auto simp: keeps_enabled_def authorizeToolCalls_def applyApproval_def logged_def Let_def split: sum.splits prod.splits)

lemma keeps_plans: "keeps_enabled (run_plans env opts dir tokens plans)"
proof (induction plans arbitrary: tokens)
  case (Cons p plans)
  obtain call tool where p: "p = (call, tool)" by fastforce
  note q = quiet_keeps[OF quiet_unknown] quiet_keeps[OF quiet_settle] quiet_keeps[OF quiet_cancel] quiet_keeps[OF quiet_ctx]
    quiet_keeps[OF quiet_emit] quiet_keeps[OF quiet_give]
  show ?case unfolding p run_plans.simps
    by (auto split: prod.splits intro!: keeps_andThen q Cons.IH keeps_attempt keeps_execute)
qed (simp add: quiet_keeps quiet_give)

lemma keeps_tool_calls: "keeps_enabled (executeToolCalls env opts messages calls)"
proof -
  have c: "quiet_act (andThen (ctx_Err env) (\<lambda>c. if c \<noteq> None then cancel_batch env calls else fail e))" for e
    by (intro quiet_rules)
  let ?t = "estimateRunPromptTokens env opts messages"
  let ?plans = "\<lambda>s. map (\<lambda>call. (call, registry_Get (se_Tools s) (ac_Name call))) calls"
  have "keeps_enabled (andThen (attempt (authorizeToolCalls env (approval_request u calls))) (\<lambda>answer. case answer of
       Inl e \<Rightarrow> andThen (ctx_Err env) (\<lambda>c. if c \<noteq> None then cancel_batch env calls else fail e)
     | Inr result \<Rightarrow> if \<not> ap_Allow result
          then deniedToolCalls env opts (if ap_Reason result = [] then ''Tool execution denied.'' else ap_Reason result) ?t calls
          else run_plans env opts dir ?t (?plans u)))" for u dir
    by (rule keeps_andThen[OF keeps_attempt[OF keeps_authorize]])
      (auto simp del: not_None_eq split: sum.splits intro: keeps_plans quiet_keeps[OF c] quiet_keeps[OF quiet_denied])
  from keeps_choice[where f = "\<lambda>u. run_plans env opts d ?t (?plans u)" for d, OF keeps_plans this]
  show ?thesis unfolding executeToolCalls_def Let_def
    by (intro keeps_andThen[OF quiet_keeps[OF quiet_currentWorkingDir]])
qed

lemma keeps_report:
  assumes "keeps_enabled f" shows "keeps_enabled (or_report env f)"
proof (rule keepsI)
  fix s x s1 assume r: "or_report env f s = (x, s1)"
  obtain y s2 where f: "f s = (y, s2)" by fastforce
  have "se_DisableTools (snd (session_emit env ev s2)) = se_DisableTools s2" for ev
    using quiet_keeps[OF quiet_emit] by (simp add: keeps_enabled_def)
  with r f keepsD[OF assms f] show "se_DisableTools s1 = se_DisableTools s" by (cases y) (auto simp: or_report_def)
qed

lemma run_step_keeps: "keeps_enabled (run_step env opts st)"
proof (cases "rt_phase st")
  case PhaseModel
  have "se_DisableTools s1 = se_DisableTools s" if "runModelStep env opts st s = (x, s1)" for s s1 x
    using runModelStep_log[OF that] by (auto simp: quietly_def logged_def)
  then show ?thesis using PhaseModel by (intro keepsI) (simp add: run_step_def)
next
  case PhaseTools
  have "keeps_enabled (runToolStep env opts st)" unfolding runToolStep_def
    by (intro keeps_andThen keeps_report keeps_tool_calls quiet_keeps[OF quiet_give])
  then show ?thesis using PhaseTools by (simp add: keeps_enabled_def run_step_def)
next
  case PhaseCompact
  then show ?thesis using quiet_keeps[OF quiet_compaction_step] by (simp add: keeps_enabled_def run_step_def)
qed (simp add: keeps_enabled_def run_step_def give_def)

section \<open>A measure of what a run may still do\<close>

definition rounds_left :: "run_state \<Rightarrow> nat" where
  "rounds_left st = nat (rt_maxToolRounds st - rt_toolRounds st)"

definition steps_left :: "run_state \<Rightarrow> nat" where
  "steps_left st =
     (case rt_phase st of
        PhaseModel \<Rightarrow> 6 * rounds_left st + 5 - nat (rt_consecutiveModelErrors st)
      | PhaseTools \<Rightarrow> 6 * rounds_left st + 2
      | PhaseCompact \<Rightarrow> 6 * rounds_left st + 1
      | PhaseDone \<Rightarrow> 0)"

definition within_limit :: "run_state \<Rightarrow> bool" where
  "within_limit st \<longleftrightarrow> rt_toolRounds st \<le> rt_maxToolRounds st \<and> 0 \<le> rt_maxToolRounds st
     \<and> 0 \<le> rt_consecutiveModelErrors st \<and> rt_consecutiveModelErrors st \<le> 2
     \<and> (rt_phase st = PhaseTools \<longrightarrow> rt_toolRounds st < rt_maxToolRounds st)
     \<and> (rt_phase st = PhaseCompact \<longrightarrow> (\<forall>b. rt_toolBatch st = Some b \<and> ba_stop b = NotStopped \<longrightarrow> rt_toolRounds st < rt_maxToolRounds st))"

lemmas finish_defs = finishDone_def finishCanceled_def finishDenied_def finishError_def finishWith_def

lemma after_answer_left:
  assumes "after_answer env opts st s = (Inr st1, s1)" and "\<not> se_DisableTools s"
    and "rt_toolRounds st \<le> rt_maxToolRounds st" "0 \<le> rt_maxToolRounds st" "rt_consecutiveModelErrors st = 0"
  shows "within_limit st1 \<and> steps_left st1 < 6 * rounds_left st + 3"
  using assms
  by (auto simp: after_answer_def Let_def give_def andThen_def emit_only_def finish_defs within_limit_def steps_left_def rounds_left_def
      split: if_splits prod.splits sum.splits)

lemma model_left:
  assumes "runModelStep env opts st s = (Inr st1, s1)" and "\<not> se_DisableTools s" and "within_limit st" and "rt_phase st = PhaseModel"
  shows "within_limit st1 \<and> steps_left st1 < steps_left st"
proof -
  obtain l y s2 where c: "chatRound env opts (rt_messages st) (rt_latest st) s = ((l, y), s2)" by (metis prod.collapse)
  have d: "\<not> se_DisableTools s2" using chatRound_log[OF c] assms(2) by (auto simp: quietly_def logged_def)
  show ?thesis
  proof (cases y)
    case (Inl e)
    then show ?thesis using assms c
      by (auto simp: runModelStep_def Let_def give_def or_report_def fail_def within_limit_def steps_left_def rounds_left_def
          split: option.splits if_splits)
  next
    case (Inr z)
    obtain a k where z: "z = (a, k)" by fastforce
    let ?st = "st\<lparr>rt_latest := l, rt_consecutiveModelErrors := 0, rt_assistant := a, rt_canceled := k,
      rt_messages := rt_messages st @ (if messageEmpty a then [] else [a])\<rparr>"
    have "after_answer env opts ?st s2 = (Inr st1, s1)" using assms(1) c Inr z by (simp add: runModelStep_def Let_def)
    from after_answer_left[OF this d] assms(3,4) show ?thesis
      by (auto simp: within_limit_def steps_left_def rounds_left_def)
  qed
qed

lemma compact_left:
  assumes "runCompactionStep env opts st s = (Inr st1, s1)" and "within_limit st" and "rt_phase st = PhaseCompact"
  shows "within_limit st1 \<and> steps_left st1 < steps_left st"
proof -
  let ?f = "case rt_toolBatch st of
      Some b \<Rightarrow> if ba_overflows b \<noteq> []
        then compactForToolOutputOverflow env opts (rt_messages st) (rt_latest st) (rt_assistant st) (ba_messages b)
               (ba_overflows b) (rt_skipNotified st)
        else maybeCompact env opts (rt_messages st) (rt_latest st) (rt_skipNotified st)
    | None \<Rightarrow> maybeCompact env opts (rt_messages st) (rt_latest st) (rt_skipNotified st)"
  obtain y s2 where y: "?f s = (y, s2)" by fastforce
  note r = assms(1)[unfolded runCompactionStep_def andThen_def[of ?f] y]
  obtain ms n err where v: "y = Inr (ms, n, err)" using r by (cases y) auto
  let ?st = "st\<lparr>rt_messages := ms, rt_skipNotified := n\<rparr>"
  show ?thesis
  proof (cases err)
    case (Some e)
    then have "st1 = finishError e ?st" using r v by (auto simp: Let_def andThen_def emit_only_def give_def)
    then show ?thesis using assms(2,3) by (simp add: within_limit_def steps_left_def rounds_left_def finish_defs)
  next
    case None
    then show ?thesis using r v assms(2,3)
      by (cases "rt_canceled st") (auto simp: Let_def give_def within_limit_def steps_left_def rounds_left_def finish_defs next_round_def
          split: option.splits batch_stop.splits if_splits)
  qed
qed

lemma step_left:
  assumes "run_step env opts st s = (Inr st1, s1)" and "\<not> se_DisableTools s" and "within_limit st" and "rt_phase st \<noteq> PhaseDone"
  shows "within_limit st1 \<and> steps_left st1 < steps_left st"
proof (cases "rt_phase st")
  case PhaseTools
  then show ?thesis using assms
    by (auto simp: run_step_def runToolStep_eq within_limit_def steps_left_def rounds_left_def split: prod.splits sum.splits)
qed (use assms model_left compact_left in \<open>auto simp: run_step_def\<close>)

lemma loop_ends:
  "steps_left st < n \<Longrightarrow> \<not> se_DisableTools s \<Longrightarrow> within_limit st \<Longrightarrow> \<exists>r. agent_loop n env opts st s = Some r"
proof (induction n arbitrary: st s)
  case (Suc n)
  show ?case
  proof (cases "rt_phase st = PhaseDone")
    case False
    obtain x s1 where x: "run_step env opts st s = (x, s1)" by fastforce
    show ?thesis
    proof (cases x)
      case (Inr st1)
      have "\<not> se_DisableTools s1" using run_step_keeps x Suc.prems(2) unfolding keeps_enabled_def by (metis snd_conv)
      with Suc.IH[of st1 s1] step_left[of env opts st s st1 s1] x Inr Suc.prems False show ?thesis by simp
    qed (use x False in simp)
  qed simp
qed simp

text \<open>
  C11.  With tools enabled and a limit on rounds a run ends, whatever the model answers, the tools
  return and the context does: at most six steps for each round allowed and six more.
\<close>

theorem limited_run_ends:
  assumes "\<not> se_DisableTools s0" and "0 \<le> resolvedMaxToolRounds (ro_Model opts) (ro_MaxToolRounds opts)"
    and "6 * nat (resolvedMaxToolRounds (ro_Model opts) (ro_MaxToolRounds opts)) + 6 \<le> n"
  shows "\<exists>r. Run n env opts s0 = Some r"
proof -
  obtain x s where x: "start_messages env opts s0 = (x, s)" by fastforce
  have d: "\<not> se_DisableTools s" using quietD[OF quiet_start x] assms(1) by (simp add: quietly_def)
  show ?thesis
  proof (cases x)
    case (Inr ms)
    have "within_limit (start_state opts ms)" using assms(2) by (simp add: within_limit_def start_state_def)
    moreover have "steps_left (start_state opts ms) < n" using assms(2,3) by (simp add: steps_left_def start_state_def rounds_left_def)
    ultimately show ?thesis using loop_ends[OF _ d] x Inr by (simp add: Run_def)
  qed (use x in \<open>simp add: Run_def\<close>)
qed

theorem limited_run_ends_witness: "\<exists>r. Run 24 (example_env example_yes) example_options example_session = Some r"
  by (rule limited_run_ends) (simp_all add: example_session_def example_options_def resolvedMaxToolRounds_def)

section \<open>Disabled tools\<close>

text \<open>A model that calls a tool in every answer, although none is offered to it.\<close>

definition calling_env :: env where
  "calling_env = (example_env example_yes)\<lparr>en_chat := (\<lambda>h req.
     ([(example_reply [])\<lparr>cr_Message := (plain_message ''assistant'' [])\<lparr>am_ToolCalls := [example_tool_call]\<rparr>\<rparr>], None))\<rparr>"

definition disabled_session :: session where
  "disabled_session = example_session\<lparr>se_DisableTools := True\<rparr>"

lemma calling_emits: "session_emit calling_env ev s = (Inr (), logged (Emitted ev) s)"
  by (simp add: session_emit_def calling_env_def example_env_def)

definition calling_reply :: chat_response where
  "calling_reply = (example_reply [])\<lparr>cr_Message := example_asks\<rparr>"

lemma asks_fields:
  "am_Role example_asks = ''assistant''" "am_Thinking example_asks = []" "am_Content example_asks = []"
  "am_ToolCalls example_asks = [example_tool_call]" "messageEmpty example_asks = False"
  by (simp_all add: example_asks_def plain_message_def messageEmpty_def)

lemma calling_receive:
  "\<exists>s1. receive calling_env [calling_reply] (plain_message ''assistant'' []) latest s = ((example_asks, calling_reply, None), s1)
    \<and> se_DisableTools s1 = se_DisableTools s"
proof -
  have m: "cr_Message calling_reply = example_asks" by (simp add: calling_reply_def)
  show ?thesis
    by (simp add: m asks_fields emit_if_def give_def calling_emits logged_def Let_def) (simp add: plain_message_def example_asks_def)
qed

lemma calling_chat:
  "\<exists>s1. chatRound calling_env opts ms latest s = ((calling_reply, Inr (example_asks, False)), s1) \<and> se_DisableTools s1 = se_DisableTools s"
proof -
  have c: "en_chat calling_env h req = ([calling_reply], None)" for h req
    by (simp add: calling_env_def example_asks_def calling_reply_def)
  let ?req = "buildChatRequest opts ms (if se_DisableTools s then [] else availableTools s)"
  obtain s1 where r: "receive calling_env [calling_reply] (plain_message ''assistant'' []) latest (logged (Chatted ?req) s)
      = ((example_asks, calling_reply, None), s1)" "se_DisableTools s1 = se_DisableTools s"
    using calling_receive[of latest "logged (Chatted ?req) s"] by (auto simp: logged_def)
  then show ?thesis by (simp add: chatRound_def c Let_def del: receive.simps)
qed

lemma calling_model_step:
  assumes "se_DisableTools s" and "rt_phase st = PhaseModel"
  shows "\<exists>st1 s1 b. run_step calling_env opts st s = (Inr st1, s1) \<and> se_DisableTools s1 \<and> rt_phase st1 = PhaseCompact
    \<and> rt_toolBatch st1 = Some b \<and> ba_stop b = NotStopped \<and> ba_overflows b = []"
proof -
  obtain s1 where c: "chatRound calling_env opts (rt_messages st) (rt_latest st) s = ((calling_reply, Inr (example_asks, False)), s1)"
    "se_DisableTools s1" using calling_chat assms(1) by metis
  then show ?thesis using assms(2)
    by (simp add: run_step_def runModelStep_def after_answer_def asks_fields calling_emits batch_cons_def
        give_def andThen_def or_report_def emitIgnoringCanceled_def logged_def Let_def)
qed

lemma calling_compact_step:
  assumes "se_DisableTools s" and "rt_phase st = PhaseCompact" and "rt_toolBatch st = Some b" and "ba_stop b = NotStopped" and "ba_overflows b = []"
  shows "\<exists>st1 s1. run_step calling_env opts st s = (Inr st1, s1) \<and> se_DisableTools s1 \<and> rt_phase st1 = PhaseModel"
  using assms
  by (simp add: run_step_def runCompactionStep_def maybeCompact_def calling_env_def example_env_def act_simps next_round_def)

text \<open>
  With tools disabled the limit on rounds is not looked at: whatever it is, the run of a model that
  calls a tool in every answer never ends.
\<close>

lemma disabled_loop:
  "se_DisableTools s \<Longrightarrow> rt_phase st = PhaseModel \<Longrightarrow> agent_loop n calling_env opts st s = None"
proof (induction n arbitrary: st s rule: less_induct)
  case (less n)
  obtain st1 s1 b where 1: "run_step calling_env opts st s = (Inr st1, s1)" "se_DisableTools s1" "rt_phase st1 = PhaseCompact"
    "rt_toolBatch st1 = Some b" "ba_stop b = NotStopped" "ba_overflows b = []"
    using calling_model_step[OF less.prems] by blast
  obtain st2 s2 where 2: "run_step calling_env opts st1 s1 = (Inr st2, s2)" "se_DisableTools s2" "rt_phase st2 = PhaseModel"
    using calling_compact_step[OF 1(2-6)] by blast
  show ?case
  proof (cases n)
    case (Suc m)
    show ?thesis
    proof (cases m)
      case (Suc k)
      then have "agent_loop k calling_env opts st2 s2 = None" using less.IH[of k s2 st2] 2 \<open>n = Suc m\<close> by simp
      then show ?thesis using 1 2 Suc \<open>n = Suc m\<close> less.prems by simp
    qed (use 1 Suc less.prems in simp)
  qed simp
qed

lemma disabled_tools_never_end:
  "Run n calling_env (example_options\<lparr>ro_MaxToolRounds := k\<rparr>) disabled_session = None"
proof -
  have "start_messages calling_env (example_options\<lparr>ro_MaxToolRounds := k\<rparr>) disabled_session = (Inr [plain_message ''user'' ''ls''], disabled_session)"
    by (simp add: start_messages_def validateRun_def example_options_def buildRunMessages_def checkPreflightPromptBudget_def
      check_budget_def run_window_def calling_env_def example_env_def sanitizeMessageForRun_def plain_message_def activateSkill_def act_simps)
  then show ?thesis
    by (simp add: Run_def disabled_loop disabled_session_def start_state_def)
qed

end
