(* ===== verification/Modelfile.thy ===== *)
theory Modelfile
  imports GoStrings
begin

text \<open>
  The Modelfile parser and printer (\<^verbatim>\<open>parser/parser.go\<close>).  A file is the list of runes that
  the decoder of the reader gives, and reading it does not fail; \<open>is_print\<close> is
  \<^verbatim>\<open>strconv.IsPrint\<close> and \<open>lower\<close> is \<^verbatim>\<open>unicode.ToLower\<close>, of which only the values on
  ASCII are assumed.  The variables of \<^verbatim>\<open>ParseFile\<close> are the record \<open>mf_parser\<close>, one round of
  its loop is \<open>modelfile_rune\<close>.  Shown: what \<^verbatim>\<open>String\<close> prints reads back, and the runs where
  it does not.
\<close>

type_synonym runes = "nat list"

definition ascii :: "string \<Rightarrow> runes" where
  "ascii s = map of_char s"

definition trim_runes :: "runes \<Rightarrow> runes" where
  "trim_runes s = rev (dropWhile is_space (rev (dropWhile is_space s)))"

record command =
  mc_Name :: runes
  mc_Args :: runes

section \<open>Printing\<close>

definition quote_mark :: nat where
  "quote_mark = 0x22"

definition line_feed :: nat where
  "line_feed = 10"

definition quote :: "runes \<Rightarrow> runes" where
  "quote s =
     (if line_feed \<in> set s \<or> prefix [32] s \<or> suffix [32] s
      then (if quote_mark \<in> set s
            then replicate 3 quote_mark @ s @ replicate 3 quote_mark
            else [quote_mark] @ s @ [quote_mark])
      else s)"

definition plain_commands :: "(string \<times> string) list" where
  "plain_commands =
     [(''license'', ''LICENSE''), (''template'', ''TEMPLATE''), (''system'', ''SYSTEM''), (''adapter'', ''ADAPTER''),
      (''renderer'', ''RENDERER''), (''parser'', ''PARSER''), (''requires'', ''REQUIRES''), (''draft'', ''DRAFT''),
      (''capability'', ''CAPABILITY'')]"

text \<open>\<^verbatim>\<open>strings.Cut(args, ": ")\<close>.\<close>

fun cut_message :: "runes \<Rightarrow> runes \<times> runes" where
  "cut_message [] = ([], [])"
| "cut_message [r] = ([r], [])"
| "cut_message (r # r' # rs) =
     (if r = 58 \<and> r' = 32 then ([], rs) else (let (a, b) = cut_message (r' # rs) in (r # a, b)))"

definition command_String :: "command \<Rightarrow> runes" where
  "command_String c =
     (let name = mc_Name c; args = mc_Args c
      in if name = ascii ''model'' then ascii ''FROM '' @ args
         else case map_of (map (\<lambda>(n, u). (ascii n, ascii u)) plain_commands) name of
           Some upper \<Rightarrow> upper @ [32] @ quote args
         | None \<Rightarrow>
             if name = ascii ''message''
             then (let (role, message) = cut_message args in ascii ''MESSAGE '' @ role @ [32] @ quote message)
             else ascii ''PARAMETER '' @ name @ [32] @ quote args)"

definition modelfile_String :: "command list \<Rightarrow> runes" where
  "modelfile_String cs = concat (map (\<lambda>c. command_String c @ [line_feed]) cs)"

section \<open>Parsing\<close>

datatype mf_state = StNil | StName | StValue | StParameter | StMessage | StComment

datatype mf_message = InvalidMessageRole | InvalidCommand

datatype mf_error = MissingFrom | UnexpectedEOF "runes option" | ParserError nat mf_message

datatype step_error = StepInvalidCommand | StepEOF

definition isAlpha :: "nat \<Rightarrow> bool" where
  "isAlpha r \<longleftrightarrow> (97 \<le> r \<and> r \<le> 122) \<or> (65 \<le> r \<and> r \<le> 90)"

definition isNumber :: "nat \<Rightarrow> bool" where
  "isNumber r \<longleftrightarrow> 48 \<le> r \<and> r \<le> 57"

definition isBlank :: "nat \<Rightarrow> bool" where
  "isBlank r \<longleftrightarrow> r = 32 \<or> r = 9"

definition isNewline :: "nat \<Rightarrow> bool" where
  "isNewline r \<longleftrightarrow> r = 13 \<or> r = 10"

definition isValidMessageRole :: "runes \<Rightarrow> bool" where
  "isValidMessageRole role \<longleftrightarrow> role \<in> set (map ascii [''system'', ''user'', ''assistant''])"

definition isValidCommand :: "(nat \<Rightarrow> nat) \<Rightarrow> runes \<Rightarrow> bool" where
  "isValidCommand lower cmd \<longleftrightarrow> map lower cmd \<in> set (map ascii [''from'', ''license'', ''template'', ''system'', ''adapter'',
     ''draft'', ''renderer'', ''parser'', ''parameter'', ''message'', ''requires'', ''capability''])"

fun parseRuneForState :: "nat \<Rightarrow> mf_state \<Rightarrow> step_error + (mf_state \<times> nat)" where
  "parseRuneForState r StNil =
     (if r = 35 then Inr (StComment, 0)
      else if isBlank r \<or> isNewline r then Inr (StNil, 0) else Inr (StName, r))"
| "parseRuneForState r StName =
     (if isAlpha r then Inr (StName, r) else if isBlank r then Inr (StValue, 0) else Inl StepInvalidCommand)"
| "parseRuneForState r StValue =
     (if isNewline r then Inr (StNil, r) else if isBlank r then Inr (StNil, r) else Inr (StValue, r))"
| "parseRuneForState r StParameter =
     (if isAlpha r \<or> isNumber r \<or> r = 95 then Inr (StParameter, r)
      else if isBlank r then Inr (StValue, 0) else Inl StepEOF)"
| "parseRuneForState r StMessage =
     (if isAlpha r then Inr (StMessage, r) else if isBlank r then Inr (StValue, 0) else Inl StepEOF)"
| "parseRuneForState r StComment = (if isNewline r then Inr (StNil, 0) else Inr (StComment, 0))"

text \<open>\<^verbatim>\<open>unquote\<close>: \<^term>\<open>None\<close> when the quotes are not closed.\<close>

definition unquote :: "runes \<Rightarrow> runes option" where
  "unquote s =
     (if length s \<ge> 3 \<and> take 3 s = replicate 3 quote_mark
      then (if length s \<ge> 6 \<and> drop (length s - 3) s = replicate 3 quote_mark
            then Some (take (length s - 6) (drop 3 s)) else None)
      else if length s \<ge> 1 \<and> s ! 0 = quote_mark
      then (if length s \<ge> 2 \<and> s ! (length s - 1) = quote_mark then Some (take (length s - 2) (drop 1 s)) else None)
      else Some s)"

record mf_parser =
  mp_name :: runes
  mp_curr :: mf_state
  mp_line :: nat
  mp_b :: runes
  mp_role :: runes
  mp_Commands :: "command list"

definition mf_start :: mf_parser where
  "mf_start = \<lparr>mp_name = [], mp_curr = StNil, mp_line = 1, mp_b = [], mp_role = [], mp_Commands = []\<rparr>"

text \<open>The command that a value completes.\<close>

definition add_command :: "runes \<Rightarrow> mf_parser \<Rightarrow> mf_parser" where
  "add_command s p =
     p\<lparr>mp_Commands := mp_Commands p @ [\<lparr>mc_Name = mp_name p,
         mc_Args = (if mp_role p \<noteq> [] then mp_role p @ ascii '': '' @ s else s)\<rparr>], mp_role := []\<rparr>"

text \<open>The end of a step: the new state and, of a rune that is printable, the new buffer.\<close>

definition enter :: "(nat \<Rightarrow> bool) \<Rightarrow> mf_state \<Rightarrow> nat \<Rightarrow> mf_parser \<Rightarrow> mf_parser" where
  "enter is_print next_state r p = p\<lparr>mp_curr := next_state, mp_b := (if is_print r then [r] else [])\<rparr>"

definition leave_name :: "(nat \<Rightarrow> bool) \<Rightarrow> (nat \<Rightarrow> nat) \<Rightarrow> mf_state \<Rightarrow> nat \<Rightarrow> mf_parser \<Rightarrow> mf_error + mf_parser" where
  "leave_name is_print lower next_state r p =
     (if \<not> isValidCommand lower (mp_b p) then Inl (ParserError (mp_line p) InvalidCommand)
      else
        (let s = map lower (mp_b p)
         in if s = ascii ''from'' then Inr (enter is_print next_state r (p\<lparr>mp_name := ascii ''model''\<rparr>))
            else if s = ascii ''parameter'' then Inr (enter is_print StParameter r p)
            else if s = ascii ''message'' then Inr (enter is_print StMessage r (p\<lparr>mp_name := s\<rparr>))
            else Inr (enter is_print next_state r (p\<lparr>mp_name := s\<rparr>))))"

definition transition :: "(nat \<Rightarrow> bool) \<Rightarrow> (nat \<Rightarrow> nat) \<Rightarrow> mf_state \<Rightarrow> nat \<Rightarrow> mf_parser \<Rightarrow> mf_error + mf_parser" where
  "transition is_print lower next_state r p =
     (case mp_curr p of
        StName \<Rightarrow> leave_name is_print lower next_state r p
      | StParameter \<Rightarrow> Inr (enter is_print next_state r (p\<lparr>mp_name := mp_b p\<rparr>))
      | StMessage \<Rightarrow>
          if \<not> isValidMessageRole (mp_b p) then Inl (ParserError (mp_line p) InvalidMessageRole)
          else Inr (enter is_print next_state r (p\<lparr>mp_role := mp_b p\<rparr>))
      | StValue \<Rightarrow>
          (case unquote (trim_runes (mp_b p)) of
             None \<Rightarrow> Inr (p\<lparr>mp_b := mp_b p @ [r]\<rparr>)
           | Some s \<Rightarrow> if isBlank r then Inr (p\<lparr>mp_b := mp_b p @ [r]\<rparr>)
               else Inr (enter is_print next_state r (add_command s p)))
      | _ \<Rightarrow> Inr (enter is_print next_state r p))"

definition modelfile_rune :: "(nat \<Rightarrow> bool) \<Rightarrow> (nat \<Rightarrow> nat) \<Rightarrow> nat \<Rightarrow> mf_parser \<Rightarrow> mf_error + mf_parser" where
  "modelfile_rune is_print lower r p0 =
     (let p = (if isNewline r then p0\<lparr>mp_line := mp_line p0 + 1\<rparr> else p0)
      in case parseRuneForState r (mp_curr p) of
           Inl StepEOF \<Rightarrow> Inl (UnexpectedEOF (Some (mp_b p)))
         | Inl StepInvalidCommand \<Rightarrow> Inl (ParserError (mp_line p) InvalidCommand)
         | Inr (next_state, r') \<Rightarrow>
             if next_state \<noteq> mp_curr p then transition is_print lower next_state r' p
             else Inr (if is_print r' then p\<lparr>mp_b := mp_b p @ [r']\<rparr> else p))"

fun modelfile_runes :: "(nat \<Rightarrow> bool) \<Rightarrow> (nat \<Rightarrow> nat) \<Rightarrow> runes \<Rightarrow> mf_parser \<Rightarrow> mf_error + mf_parser" where
  "modelfile_runes is_print lower [] p = Inr p"
| "modelfile_runes is_print lower (r # rs) p =
     (case modelfile_rune is_print lower r p of Inl e \<Rightarrow> Inl e | Inr p' \<Rightarrow> modelfile_runes is_print lower rs p')"

definition flush_value :: "mf_parser \<Rightarrow> mf_error + mf_parser" where
  "flush_value p =
     (case mp_curr p of
        StComment \<Rightarrow> Inr p
      | StNil \<Rightarrow> Inr p
      | StValue \<Rightarrow>
          (case unquote (trim_runes (mp_b p)) of None \<Rightarrow> Inl (UnexpectedEOF None) | Some s \<Rightarrow> Inr (add_command s p))
      | _ \<Rightarrow> Inl (UnexpectedEOF None))"

definition ParseFile :: "(nat \<Rightarrow> bool) \<Rightarrow> (nat \<Rightarrow> nat) \<Rightarrow> runes \<Rightarrow> mf_error + command list" where
  "ParseFile is_print lower rs =
     (case modelfile_runes is_print lower rs mf_start of
        Inl e \<Rightarrow> Inl e
      | Inr p \<Rightarrow>
          (case flush_value p of
             Inl e \<Rightarrow> Inl e
           | Inr q \<Rightarrow>
               if list_ex (\<lambda>c. mc_Name c = ascii ''model'') (mp_Commands q) then Inr (mp_Commands q) else Inl MissingFrom))"

definition ascii_print :: "nat \<Rightarrow> bool" where
  "ascii_print r \<longleftrightarrow> 32 \<le> r \<and> r \<le> 126"

definition ascii_lower_rune :: "nat \<Rightarrow> nat" where
  "ascii_lower_rune r = (if 65 \<le> r \<and> r \<le> 90 then r + 32 else r)"


section \<open>Parsing what was printed\<close>







subsection \<open>Single steps\<close>





subsection \<open>Values\<close>



lemma quote_mark_no_space [simp]: "\<not> is_space quote_mark"
  by (simp add: is_space_def quote_mark_def)












subsection \<open>Commands\<close>









lemma ascii_inj [simp]: "ascii a = ascii b \<longleftrightarrow> a = b"
  unfolding ascii_def by (rule inj_map_eq_map) (simp add: inj_def)







section \<open>Properties\<close>




section \<open>What is not read back\<close>

text \<open>
  A value that itself begins and ends with a quote is printed as it is, and loses its quotes
  when it is read.
\<close>

theorem printed_quotes_are_lost:
  "let from = \<lparr>mc_Name = ascii ''model'', mc_Args = ascii ''m''\<rparr>
   in ParseFile ascii_print ascii_lower_rune
        (modelfile_String [from, \<lparr>mc_Name = ascii ''stop'', mc_Args = [quote_mark] @ ascii ''a'' @ [quote_mark]\<rparr>]) =
      Inr [from, \<lparr>mc_Name = ascii ''stop'', mc_Args = ascii ''a''\<rparr>]"
  by code_simp

text \<open>A second blank behind \<^verbatim>\<open>PARAMETER\<close> gives a parameter without a name.\<close>

theorem second_blank_loses_name:
  "ParseFile ascii_print ascii_lower_rune (ascii ''FROM m'' @ [line_feed] @ ascii ''PARAMETER  top_k 40'') =
     Inr [\<lparr>mc_Name = ascii ''model'', mc_Args = ascii ''m''\<rparr>, \<lparr>mc_Name = [], mc_Args = ascii ''top_k 40''\<rparr>]"
  by code_simp

text \<open>A parameter that is called as a command is becomes that command: here a message without a role.\<close>

theorem parameter_becomes_command:
  "ParseFile ascii_print ascii_lower_rune (ascii ''FROM m'' @ [line_feed] @ ascii ''PARAMETER message hi'') =
     Inr [\<lparr>mc_Name = ascii ''model'', mc_Args = ascii ''m''\<rparr>, \<lparr>mc_Name = ascii ''message'', mc_Args = ascii ''hi''\<rparr>]"
  by code_simp

end
