(* ===== verification/Spec2Isabelle.thy ===== *)
theory Spec2Isabelle
  imports Thinking Utf8Buffer HarmonyHandler ApiTypes SchedulerLoad SchedulerSafety ModelName ModelRef PrefixSession Speculate
    Qwen3Parser DeepSeek3Parser CogitoParser Olmo3ThinkParser ToolCalls ChatPrompt TokenizerLoad AnthropicRequest AnthropicSearch
    AgentDenial AgentOrder AgentRounds Modelfile
begin

text \<open>
  A verification development for Susan, a Go program that runs language models: a server that
  schedules model runners on the devices of a machine, a runner with a prefix cache, parsers
  that separate the text of a model into thinking, content and tool calls, and the names and
  references under which models are found.

  \<^bold>\<open>Parts and theories.\<close>

  \<^item> \<^verbatim>\<open>Prelude\<close>: collections of rewrite rules, facts on lists, and the locales \<open>eater\<close>
    and \<open>chunked\<close> for parsers that take their buffer in steps and are fed in chunks.  \<^verbatim>\<open>GoStrings\<close>: the operations of the
    packages \<^verbatim>\<open>strings\<close>, \<^verbatim>\<open>unicode\<close> and \<^verbatim>\<open>utf8\<close> that the program uses, on strings of bytes.
    \<^verbatim>\<open>StreamText\<close>: the text helpers of \<^verbatim>\<open>model/parsers/parsers.go\<close>.
  \<^item> Streams of model output.  \<^verbatim>\<open>Thinking\<close>: the parser of \<^verbatim>\<open>thinking/parser.go\<close>.  \<^verbatim>\<open>Harmony\<close>,
    \<^verbatim>\<open>HarmonyNames\<close>, \<^verbatim>\<open>HarmonyHandler\<close>: the event parser, the tool names and the message
    handler of \<^verbatim>\<open>harmony/harmonyparser.go\<close>.  \<^verbatim>\<open>Utf8Buffer\<close>: \<^verbatim>\<open>mlxrunner/utf8_buffer.go\<close>.
    \<^verbatim>\<open>ApiTypes\<close>: the thinking descriptor and values of \<^verbatim>\<open>types/model/thinking.go\<close> and the
    runner options of \<^verbatim>\<open>api/types.go\<close>.
    What is shown: any chunking gives the same result, the parts of a response are separated
    exactly, the parsers fail only where the code panics.
  \<^item> Output parsers of model families.  \<^verbatim>\<open>ParserKit\<close>: the steps that
    \<^verbatim>\<open>model/parsers/\<close> repeats, and the locales \<open>conserving_parser\<close> (a parser whose events spell
    what it takes from its buffer) and \<open>adder\<close> (its \<^verbatim>\<open>Add\<close> over a stream of chunks).
    \<^verbatim>\<open>Qwen3Parser\<close>, \<^verbatim>\<open>DeepSeek3Parser\<close>, \<^verbatim>\<open>CogitoParser\<close>, \<^verbatim>\<open>Olmo3ThinkParser\<close>: the parsers
    of the files of these names, each an interpretation of both.  What is shown: every byte of
    a response is read once, by a grammar of the responses, in any chunks; a tag is never taken
    for text where the code holds tags back; and where it does not, the runs that show it.
  \<^item> Chats.  \<^verbatim>\<open>ToolCalls\<close>: the tool call parser of \<^verbatim>\<open>tools/tools.go\<close> and the step of
    \<^verbatim>\<open>server/routes.go\<close> that uses it.  \<^verbatim>\<open>ChatPrompt\<close>: truncation and image tags of
    \<^verbatim>\<open>server/prompt.go\<close>.
  \<^item> Scheduling.  \<^verbatim>\<open>Devices\<close>: \<^verbatim>\<open>ml/device.go\<close>.  \<^verbatim>\<open>Placement\<close>: memory prediction, batch
    size, placement, memory mapping and free space of \<^verbatim>\<open>server/sched.go\<close>.  \<^verbatim>\<open>Scheduler\<close>: the
    runners, their reference counts, the pending queue, loading and eviction of the same
    file, one function per step of its goroutines.  \<^verbatim>\<open>SchedulerLoad\<close>: the properties of single
    decisions, among them how a load ends.  \<^verbatim>\<open>SchedulerSafety\<close>: runs of steps, the invariant of
    orderly runs, the way of a release to the runner that served its request, and the run, not
    orderly, that breaks both.
  \<^item> The prefix cache of the MLX runner.  \<^verbatim>\<open>CacheTrie\<close> and \<^verbatim>\<open>TrieUpdates\<close>:
    \<^verbatim>\<open>mlxrunner/cache_trie.go\<close>; a node is addressed by the positions on the way to it where
    the code has pointers.  \<^verbatim>\<open>TrieAdvance\<close>, \<^verbatim>\<open>PrefixCache\<close>: the frontier, compaction and
    eviction of \<^verbatim>\<open>mlxrunner/prefix_cache.go\<close>, with the invariant that the trie is well formed
    and the byte counter exact.  The abstract value of a trie is the prefix-closed set of the
    token lists it covers; an advance refines insertion into it.  \<^verbatim>\<open>PrefixSession\<close>: keys,
    media items, the match a request begins with and the prefill chunks.
  \<^item> Speculative decoding.  \<^verbatim>\<open>SpeculateDepth\<close>: the controller of \<^verbatim>\<open>mlxrunner/speculate_depth.go\<close>
    on rational numbers.  \<^verbatim>\<open>Speculate\<close>: the decisions of a round of \<^verbatim>\<open>mlxrunner/speculate.go\<close>
    and the decode loop of \<^verbatim>\<open>mlxrunner/pipeline.go\<close>; with a greedy target it streams what plain
    decoding does.
  \<^item> The tokenizer of the MLX runner, \<^verbatim>\<open>mlxrunner/tokenizer/\<close>.  \<^verbatim>\<open>GoRunes\<close>: encoding and
    decoding of runes.  \<^verbatim>\<open>BpeHeap\<close>: the heap of merge candidates, an interpretation of the
    locale \<open>candidate_queue\<close>.  \<^verbatim>\<open>BpeMerge\<close>: the linked nodes and the merge loop, and merging
    by the rule alone as its reference.  \<^verbatim>\<open>BpeCorrect\<close>: the loop computes the reference.
    \<^verbatim>\<open>AddedTokens\<close>, \<^verbatim>\<open>Pretokenizer\<close>: the trie of added tokens and the splitting stages.
    \<^verbatim>\<open>Tokenizer\<close>: encoding, its workers, and decoding.  \<^verbatim>\<open>TokenizerLoad\<close>: a tokenizer from
    its file.  What is shown: for a plain byte-level vocabulary decoding the ids of a text gives
    back the text.
  \<^item> The Anthropic interface.  \<^verbatim>\<open>Json\<close>: JSON values.  \<^verbatim>\<open>ApiMessages\<close>: the messages, tool
    calls and responses of \<^verbatim>\<open>api/types.go\<close> and the ordered maps they use.
    \<^verbatim>\<open>AnthropicStream\<close>: responses and the stream converter of \<^verbatim>\<open>anthropic/anthropic.go\<close>,
    with a client that accepts or refuses the events of a stream.  \<^verbatim>\<open>AnthropicRequest\<close>: the
    conversion of requests and the estimate of their tokens.  \<^verbatim>\<open>AnthropicSearch\<close>: the writer
    of \<^verbatim>\<open>middleware/anthropic.go\<close> that runs web searches for the model and joins them into the
    stream.  What is shown: a client never refuses a stream, also when a search takes the stream
    over, and ends with the blocks of the whole response when that comes in phases; a response
    that is sent back becomes the message it was made of; searches are bounded and paired with their results.
  \<^item> The agent, \<^verbatim>\<open>agent/\<close>.  \<^verbatim>\<open>AgentText\<close>: the estimate of tokens, truncation and tool messages
    sized to a budget.  \<^verbatim>\<open>AgentCompact\<close>: \<^verbatim>\<open>compactor.go\<close>, the split of a history and the simple
    compactor, an interpretation of the locale \<open>history_compactor\<close>, which says what a session
    relies on.  \<^verbatim>\<open>AgentRun\<close>: \<^verbatim>\<open>session.go\<close>, \<^verbatim>\<open>approval.go\<close>, \<^verbatim>\<open>registry.go\<close> and
    \<^verbatim>\<open>skill_activation.go\<close>; one function per step of a run, each returning an error or a value and
    the session after it.  A session keeps a log, and the chat client, the sinks, the user, the
    tools, the file system and the context that may be canceled are functions of the log.
    \<^verbatim>\<open>AgentSafety\<close>: the states that a run reaches, and that it executes only what is permitted.
    \<^verbatim>\<open>AgentDenial\<close>: a denial is final, but that the compactor may still be asked once.
    \<^verbatim>\<open>AgentOrder\<close>: in requests and results every call is answered in its place, also across
    compactions, when the ids of an answer are distinct and no tool is named like the compaction.  \<^verbatim>\<open>AgentRounds\<close>: with a limit on rounds a run ends, six steps for each
    round and six more being enough; with tools disabled it need not.
  \<^item> Modelfiles.  \<^verbatim>\<open>Modelfile\<close>: the parser and the printer of \<^verbatim>\<open>parser/parser.go\<close>.  What
    is shown: printed commands read back, under the conditions on values that printing needs.
  \<^item> Names.  \<^verbatim>\<open>ModelName\<close>: \<^verbatim>\<open>types/model/name.go\<close>.  \<^verbatim>\<open>ModelRef\<close>:
    \<^verbatim>\<open>internal/modelref/modelref.go\<close>.  What is shown: printing and parsing are inverse, and the
    path of a valid name stays below its directory.

  \<^bold>\<open>Conventions.\<close>  Strings are lists of bytes.  Errors and panics are values of a sum or option
  type.  Code that is not part of the repository is an argument: file sizes, the JSON decoder,
  the templates, the chat clients and search services, the Unicode tables and normal forms,
  regular expressions, the snapshots of a cache layer and their splitting and merging.  Sizes of
  memory are 64-bit words where the code may wrap around.  Loops end by a measure; the parser
  loops that may not end are \<open>partial_function (option)\<close>, and that they return is proved.

  \<^bold>\<open>Not modelled.\<close>  The HTTP handlers, processes, files, terminals, tensors and the desktop
  application; in the scheduler the wait for memory to be returned by the driver, expiry times
  and status reports; in the prefix cache the device caches and what drives them
  (\<^verbatim>\<open>switchToPath\<close>, \<^verbatim>\<open>pageOut\<close>, \<^verbatim>\<open>close\<close>) and the growth of lazy snapshots, whose sizes are
  fixed here; in the tokenizer the translation of patterns for the regular expressions of Go;
  in the agent the locks of the approval state, the loading of skills and the tools themselves;
  of the Anthropic interface the writer without a stream; of Modelfiles the search for model files
  and the requests made of commands.
\<close>

end
